(* ===== verification/Prelude.thy ===== *)
theory Prelude
  imports Main "HOL-Library.Word" "HOL-Library.Multiset"
begin

text \<open>
  Shared vocabulary of the ForgeANN development: the names of the machine types, the error
  values of \<^verbatim>\<open>ForgeANN/src/common/ann_result.rs\<close>, the integer helpers of the Rust standard
  library the sources use (saturating and checked arithmetic on \<open>usize\<close>), the contract of
  \<open>sort_unstable_by_key\<close>, and generic lemmas on lists, sums and sorted lists.

  Conventions. A fixed-width integer that is stored, hashed, compared or encoded is an
  \<^typ>\<open>'a word\<close>. A \<open>usize\<close> that counts or indexes elements held in memory is a \<^typ>\<open>nat\<close>;
  wherever the source saturates or checks such a value, the bound \<open>2 ^ 64 - 1\<close> is written out.
\<close>

section \<open>Machine types\<close>

type_synonym u8 = "8 word"
type_synonym u16 = "16 word"
type_synonym u32 = "32 word"
type_synonym u64 = "64 word"
type_synonym usize = nat

named_theorems inv_defs \<open>definitions of the components' invariants\<close>
named_theorems op_defs \<open>definitions of the components' operations\<close>
named_theorems usize_defs \<open>definitions of the usize helpers\<close>

section \<open>Errors\<close>

text \<open>
  The variants of \<open>AnnError\<close> with the static part of their message. A \<open>fault\<close> is what stops
  a Rust call: an error value that the caller sees, or a panic (an assertion, an index out of
  range).
\<close>

datatype ann_error =
    Index string
  | IndexConfig string string
  | TryFromInt
  | Io string
  | MemoryAllocLayout
  | LockPoison string
  | DiskIoAlignmentError string
  | IoQueue string
  | TryFromSlice

datatype fault = Err ann_error | Panic string

type_synonym 'a result = "fault + 'a"

definition index_panic :: fault where
  "index_panic = Panic ''index out of bounds''"

definition res_bind :: "'a result \<Rightarrow> ('a \<Rightarrow> 'b result) \<Rightarrow> 'b result" where
  "res_bind m f = (case m of Inl e \<Rightarrow> Inl e | Inr x \<Rightarrow> f x)"

lemma res_bind_simps [simp]:
  "res_bind (Inl e) f = Inl e"
  "res_bind (Inr x) f = f x"
  by (simp_all add: res_bind_def)

lemma res_bind_Inr_iff:
  "res_bind m f = Inr y \<longleftrightarrow> (\<exists>x. m = Inr x \<and> f x = Inr y)"
  by (cases m) simp_all

lemma res_bind_assoc:
  "res_bind (res_bind m f) g = res_bind m (\<lambda>x. res_bind (f x) g)"
  by (cases m) simp_all

lemma res_bind_Inr: "res_bind m (\<lambda>x. Inr x) = m"
  by (cases m) simp_all

lemma res_bind_cong [fundef_cong]:
  "m = m' \<Longrightarrow> (\<And>x. m' = Inr x \<Longrightarrow> f x = g x) \<Longrightarrow> res_bind m f = res_bind m' g"
  by (cases m') simp_all

section \<open>usize arithmetic\<close>

definition usize_max :: nat where
  [usize_defs]: "usize_max = 2 ^ 64 - 1"

definition sat_add :: "nat \<Rightarrow> nat \<Rightarrow> nat" where
  [usize_defs]: "sat_add a b = min (a + b) usize_max"

definition sat_mul :: "nat \<Rightarrow> nat \<Rightarrow> nat" where
  [usize_defs]: "sat_mul a b = min (a * b) usize_max"

definition checked_add :: "nat \<Rightarrow> nat \<Rightarrow> nat option" where
  [usize_defs]: "checked_add a b = (if a + b \<le> usize_max then Some (a + b) else None)"

definition checked_mul :: "nat \<Rightarrow> nat \<Rightarrow> nat option" where
  [usize_defs]: "checked_mul a b = (if a * b \<le> usize_max then Some (a * b) else None)"

definition div_ceil :: "nat \<Rightarrow> nat \<Rightarrow> nat" where
  [usize_defs]: "div_ceil a b = (if a mod b = 0 then a div b else a div b + 1)"

lemma sat_add_exact [simp]: "a + b \<le> usize_max \<Longrightarrow> sat_add a b = a + b"
  by (simp add: sat_add_def)

lemma sat_mul_exact [simp]: "a * b \<le> usize_max \<Longrightarrow> sat_mul a b = a * b"
  by (simp add: sat_mul_def)

lemma sat_add_le: "sat_add a b \<le> usize_max" and sat_mul_le: "sat_mul a b \<le> usize_max"
  by (simp_all add: sat_add_def sat_mul_def)

lemma div_ceil_mult_ge:
  assumes "0 < b" shows "a \<le> div_ceil a b * b"
proof -
  have split: "a = a div b * b + a mod b" by simp
  have "a mod b < b" using assms by simp
  then have "a \<le> a div b * b + b" using split by linarith
  moreover have "a mod b = 0 \<Longrightarrow> a \<le> a div b * b" using split by linarith
  ultimately show ?thesis by (auto simp: div_ceil_def algebra_simps)
qed

lemma div_ceil_mult_less:
  assumes "0 < b" shows "div_ceil a b * b < a + b"
proof -
  have split: "a = a div b * b + a mod b" by simp
  then have "a mod b \<noteq> 0 \<Longrightarrow> a div b * b < a" by linarith
  moreover have "a mod b = 0 \<Longrightarrow> a div b * b = a" using split by simp
  ultimately show ?thesis using assms by (simp add: div_ceil_def)
qed

lemma unat_lt_u32: "unat (w :: u32) < 2 ^ 32"
  by (rule order.strict_trans2 [OF unsigned_less]) simp

lemma unat_word_of_nat_u32: "n < 2 ^ 32 \<Longrightarrow> unat (word_of_nat n :: u32) = n"
  by (simp add: unsigned_of_nat take_bit_nat_eq_self_iff)

section \<open>Unstable sorting\<close>

text \<open>
  \<open>sort_unstable_by_key\<close> returns a permutation of its input that is sorted by the key; the
  order of elements with equal keys is not specified. Definitions that call it take the sort
  as an argument, and what they rely on is the predicate \<open>unstable_sort\<close>.
\<close>

definition unstable_sort :: "(('a \<Rightarrow> 'k::linorder) \<Rightarrow> 'a list \<Rightarrow> 'a list) \<Rightarrow> bool" where
  "unstable_sort srt \<longleftrightarrow>
     (\<forall>f xs. mset (srt f xs) = mset xs \<and> sorted (map f (srt f xs)))"

lemma unstable_sortD:
  assumes "unstable_sort srt"
  shows "mset (srt f xs) = mset xs" and "sorted (map f (srt f xs))"
  using assms by (simp_all add: unstable_sort_def)

lemma unstable_sort_sort_key: "unstable_sort sort_key"
  by (simp add: unstable_sort_def)

locale sorting =
  fixes srt :: "('a \<Rightarrow> 'k::linorder) \<Rightarrow> 'a list \<Rightarrow> 'a list"
  assumes srt: "unstable_sort srt"
begin

lemma mset_srt [simp]: "mset (srt f xs) = mset xs"
  using srt by (simp add: unstable_sort_def)

lemma sorted_srt [simp]: "sorted (map f (srt f xs))"
  using srt by (simp add: unstable_sort_def)

lemma set_srt [simp]: "set (srt f xs) = set xs"
  by (metis mset_srt set_mset_mset)

lemma length_srt [simp]: "length (srt f xs) = length xs"
  by (metis mset_srt size_mset)

lemma distinct_map_srt [simp]: "distinct (map g (srt f xs)) = distinct (map g xs)"
  by (metis mset_map mset_srt mset_eq_imp_distinct_iff)

lemma srt_Nil_iff [simp]: "srt f xs = [] \<longleftrightarrow> xs = []"
  by (metis length_0_conv length_srt)

text \<open>Filtering by the key commutes with the sort up to permutation.\<close>

lemma mset_filter_srt: "mset (filter P (srt f xs)) = mset (filter P xs)"
  by (simp add: mset_filter)

end

interpretation stable: sorting sort_key
  by unfold_locales (rule unstable_sort_sort_key)

text \<open>With different keys there is only one sorted permutation.\<close>

lemma sort_key_unique:
  assumes "mset xs = mset ys" "distinct (map f xs)" "sorted (map f xs)"
  shows "xs = sort_key f ys"
proof (rule map_sorted_distinct_set_unique)
  have eq: "mset (sort_key f ys) = mset xs" by (simp add: assms(1))
  then show "set xs = set (sort_key f ys)" by (metis set_mset_mset)
  have "mset (map f (sort_key f ys)) = mset (map f xs)" using eq by simp
  then show "distinct (map f (sort_key f ys))" using assms(2) mset_eq_imp_distinct_iff by blast
  have "set xs = set ys" using assms(1) by (metis set_mset_mset)
  then show "inj_on f (set xs \<union> set (sort_key f ys))" using assms(2) by (simp add: distinct_map)
qed (use assms in simp_all)

section \<open>Lists\<close>

text \<open>
  \<open>Vec::dedup_by_key\<close>: of consecutive elements with equal keys only the first stays.
  \<open>windows(2).all(..)\<close>: a relation holds between neighbours.
\<close>

fun dedup_by_key :: "('a \<Rightarrow> 'k) \<Rightarrow> 'a list \<Rightarrow> 'a list" where
  "dedup_by_key f [] = []"
| "dedup_by_key f [x] = [x]"
| "dedup_by_key f (x # y # zs) =
     (if f x = f y then dedup_by_key f (x # zs) else x # dedup_by_key f (y # zs))"

fun windows2_all :: "('a \<Rightarrow> 'a \<Rightarrow> bool) \<Rightarrow> 'a list \<Rightarrow> bool" where
  "windows2_all P [] = True"
| "windows2_all P [x] = True"
| "windows2_all P (x # y # zs) = (P x y \<and> windows2_all P (y # zs))"

lemma windows2_all_sorted_wrt: "transp P \<Longrightarrow> windows2_all P xs \<longleftrightarrow> sorted_wrt P xs"
  by (induction P xs rule: windows2_all.induct) (auto dest: transpD)

lemma windows2_all_less: "windows2_all (<) xs \<longleftrightarrow> sorted_wrt (<) (xs :: 'a::linorder list)"
  by (rule windows2_all_sorted_wrt) simp

lemma windows2_all_le: "windows2_all (\<le>) xs \<longleftrightarrow> sorted (xs :: 'a::linorder list)"
  by (rule windows2_all_sorted_wrt) simp

lemma hd_dedup_by_key: "xs \<noteq> [] \<Longrightarrow> dedup_by_key f xs \<noteq> [] \<and> hd (dedup_by_key f xs) = hd xs"
  by (induction f xs rule: dedup_by_key.induct) auto

lemma set_dedup_by_key_subset: "set (dedup_by_key f xs) \<subseteq> set xs"
  by (induction f xs rule: dedup_by_key.induct) auto

lemma keys_dedup_by_key: "f ` set (dedup_by_key f xs) = f ` set xs"
  by (induction f xs rule: dedup_by_key.induct) auto

lemma dedup_by_key_strict:
  fixes f :: "'a \<Rightarrow> 'k::linorder"
  shows "sorted (map f xs) \<Longrightarrow> sorted_wrt (<) (map f (dedup_by_key f xs))"
proof (induction f xs rule: dedup_by_key.induct)
  case (3 f x y zs)
  show ?case
  proof (cases "f x = f y")
    case True
    with 3 show ?thesis by simp
  next
    case False
    with "3.prems" have less: "f x < f y" by (simp add: order.strict_iff_order)
    have "f x < f z" if "z \<in> set (dedup_by_key f (y # zs))" for z
      using that less "3.prems" set_dedup_by_key_subset [of f "y # zs"] by fastforce
    with False 3 show ?thesis by simp
  qed
qed simp_all

lemma sorted_wrt_less_distinct: "sorted_wrt (<) (xs :: 'a::order list) \<Longrightarrow> distinct xs"
  by (induction xs) auto

text \<open>Splitting a list in place: the facts behind \<open>Vec::insert\<close> and \<open>Vec::remove\<close>.\<close>

definition vec_insert :: "nat \<Rightarrow> 'a \<Rightarrow> 'a list \<Rightarrow> 'a list" where
  "vec_insert i x xs = take i xs @ x # drop i xs"

definition vec_remove :: "nat \<Rightarrow> 'a list \<Rightarrow> 'a list" where
  "vec_remove i xs = take i xs @ drop (Suc i) xs"

lemma mset_vec_insert [simp]: "mset (vec_insert i x xs) = add_mset x (mset xs)"
proof -
  have "mset (take i xs) + mset (drop i xs) = mset xs"
    by (metis append_take_drop_id mset_append)
  then show ?thesis by (simp add: vec_insert_def)
qed

lemma length_vec_insert [simp]: "length (vec_insert i x xs) = Suc (length xs)"
  by (simp add: vec_insert_def)

lemma set_vec_insert [simp]: "set (vec_insert i x xs) = insert x (set xs)"
  by (metis mset_vec_insert set_mset_add_mset_insert set_mset_mset)

lemma mset_vec_remove:
  assumes "i < length xs"
  shows "mset (vec_remove i xs) = mset xs - {#xs ! i#}"
proof -
  have "xs = take i xs @ xs ! i # drop (Suc i) xs"
    using assms by (rule id_take_nth_drop)
  then have "mset xs = add_mset (xs ! i) (mset (take i xs) + mset (drop (Suc i) xs))"
    by (metis mset_append mset.simps(2) union_mset_add_mset_right)
  then show ?thesis by (simp add: vec_remove_def)
qed

lemma length_vec_remove [simp]: "i < length xs \<Longrightarrow> length (vec_remove i xs) = length xs - 1"
  by (simp add: vec_remove_def)

lemma set_vec_remove_subset: "set (vec_remove i xs) \<subseteq> set xs"
  by (auto simp: vec_remove_def dest: in_set_takeD in_set_dropD)

lemma map_vec_insert: "map f (vec_insert i x xs) = vec_insert i (f x) (map f xs)"
  by (simp add: vec_insert_def take_map drop_map)

lemma map_vec_remove: "map f (vec_remove i xs) = vec_remove i (map f xs)"
  by (simp add: vec_remove_def take_map drop_map)

lemma sorted_vec_remove: "sorted xs \<Longrightarrow> sorted (vec_remove i xs)"
proof -
  assume "sorted xs"
  then have "sorted (take i xs @ drop i xs)" by simp
  moreover have "set (drop (Suc i) xs) \<subseteq> set (drop i xs)"
    by (rule set_drop_subset_set_drop) simp
  moreover have "sorted (drop (Suc i) xs)"
    using \<open>sorted xs\<close> by (rule sorted_wrt_drop)
  ultimately show ?thesis
    unfolding vec_remove_def sorted_append by blast
qed

text \<open>\<open>Iterator::position\<close> and the insertion point of \<open>partition_point\<close>.\<close>

fun position :: "('a \<Rightarrow> bool) \<Rightarrow> 'a list \<Rightarrow> nat option" where
  "position P [] = None"
| "position P (x # xs) = (if P x then Some 0 else map_option Suc (position P xs))"

lemma position_None [simp]: "position P xs = None \<longleftrightarrow> (\<forall>x \<in> set xs. \<not> P x)"
  by (induction xs) auto

lemma position_Some:
  "position P xs = Some i \<Longrightarrow> i < length xs \<and> P (xs ! i) \<and> (\<forall>j < i. \<not> P (xs ! j))"
proof (induction xs arbitrary: i)
  case (Cons x xs)
  then show ?case
    by (auto split: if_splits simp: less_Suc_eq_0_disj)
qed simp

lemma position_case_None:
  "\<forall>x \<in> set xs. \<not> P x \<Longrightarrow> (case position P xs of None \<Rightarrow> a | Some i \<Rightarrow> f i) = a"
  by (metis option.simps(4) position_None)

definition partition_point :: "('a \<Rightarrow> bool) \<Rightarrow> 'a list \<Rightarrow> nat" where
  "partition_point P xs = length (takeWhile P xs)"

lemma partition_point_le: "partition_point P xs \<le> length xs"
  by (simp add: partition_point_def length_takeWhile_le)

lemma take_partition_point [simp]: "take (partition_point P xs) xs = takeWhile P xs"
  by (simp add: partition_point_def takeWhile_eq_take [symmetric])

lemma drop_partition_point [simp]: "drop (partition_point P xs) xs = dropWhile P xs"
  by (simp add: partition_point_def dropWhile_eq_drop [symmetric])

lemma partition_point_map: "partition_point (\<lambda>x. P (f x)) xs = partition_point P (map f xs)"
  by (simp add: partition_point_def takeWhile_map comp_def)

lemma sorted_dropWhile_le: "sorted xs \<Longrightarrow> y \<in> set (dropWhile (\<lambda>x. x \<le> h) xs) \<Longrightarrow> h < y"
  for h :: "'a::linorder"
  by (induction xs) (auto split: if_splits)

lemma sorted_vec_insert_partition:
  fixes h :: "'a::linorder"
  assumes "sorted xs"
  shows "sorted (vec_insert (partition_point (\<lambda>x. x \<le> h) xs) h xs)"
proof -
  have "sorted (takeWhile (\<lambda>x. x \<le> h) xs)" "sorted (dropWhile (\<lambda>x. x \<le> h) xs)"
    using assms by (simp_all add: sorted_takeWhile sorted_dropWhile)
  moreover have "\<forall>x \<in> set (takeWhile (\<lambda>x. x \<le> h) xs). x \<le> h"
    by (auto dest: set_takeWhileD)
  moreover have "\<forall>x \<in> set (dropWhile (\<lambda>x. x \<le> h) xs). h < x"
    using assms by (auto intro: sorted_dropWhile_le)
  ultimately show ?thesis
    by (force simp: vec_insert_def sorted_append)
qed

lemma vec_insert_nth:
  assumes "i \<le> length xs"
  shows "j < i \<Longrightarrow> vec_insert i x xs ! j = xs ! j"
    and "vec_insert i x xs ! i = x"
    and "i \<le> j \<Longrightarrow> j < length xs \<Longrightarrow> vec_insert i x xs ! Suc j = xs ! j"
  using assms by (simp_all add: vec_insert_def nth_append min_def Suc_diff_le)

text \<open>\<open>slice::chunks(n)\<close> for a positive \<open>n\<close>.\<close>

function (sequential) chunks :: "nat \<Rightarrow> 'a list \<Rightarrow> 'a list list" where
  "chunks n xs = (if n = 0 \<or> xs = [] then [] else take n xs # chunks n (drop n xs))"
  by pat_completeness auto
termination
  by (relation "measure (\<lambda>(n, xs). length xs)") auto

declare chunks.simps [simp del]

lemma concat_chunks [simp]: "0 < n \<Longrightarrow> concat (chunks n xs) = xs"
proof (induction n xs rule: chunks.induct)
  case (1 n xs)
  then show ?case by (cases "xs = []") (simp_all add: chunks.simps [of n xs] chunks.simps [of n "[]"])
qed

lemma chunks_bounds: "c \<in> set (chunks n xs) \<Longrightarrow> c \<noteq> [] \<and> length c \<le> n"
proof (induction n xs rule: chunks.induct)
  case (1 n xs)
  then show ?case by (cases "n = 0 \<or> xs = []") (auto simp: chunks.simps [of n xs] chunks.simps [of n "[]"])
qed

end
