(* ===== verification/Float32.thy ===== *)
theory Float32
  imports Prelude
begin

unbundle bit_operations_syntax

text \<open>
  Rust's \<open>f32\<close> as its IEEE 754 bit pattern. Comparison follows the standard: a comparison
  with a NaN is false, the two zeros are equal, every other pair is ordered by value. For
  non-NaN patterns the order of the values is the order of a signed-magnitude integer read
  off the bits (\<open>f32_key\<close>), which makes comparison executable and turns every order argument
  into one on \<^typ>\<open>int\<close>. Rounded arithmetic is not defined here: the components that add, subtract
  or multiply \<open>f32\<close> values take those operations as parameters.
\<close>

type_synonym f32 = u32

section \<open>Classification and order\<close>

definition f32_sign :: "f32 \<Rightarrow> bool" where
  "f32_sign w = (2 ^ 31 \<le> unat w)"

definition f32_mag :: "f32 \<Rightarrow> nat" where
  "f32_mag w = unat w mod 2 ^ 31"

definition f32_is_nan :: "f32 \<Rightarrow> bool" where
  "f32_is_nan w = (255 * 2 ^ 23 < f32_mag w)"

definition f32_is_finite :: "f32 \<Rightarrow> bool" where
  "f32_is_finite w = (f32_mag w < 255 * 2 ^ 23)"

definition f32_key :: "f32 \<Rightarrow> int" where
  "f32_key w = (if f32_sign w then - int (f32_mag w) else int (f32_mag w))"

definition f32_lt :: "f32 \<Rightarrow> f32 \<Rightarrow> bool" where
  "f32_lt a b = (\<not> f32_is_nan a \<and> \<not> f32_is_nan b \<and> f32_key a < f32_key b)"

definition f32_le :: "f32 \<Rightarrow> f32 \<Rightarrow> bool" where
  "f32_le a b = (\<not> f32_is_nan a \<and> \<not> f32_is_nan b \<and> f32_key a \<le> f32_key b)"

definition f32_eq :: "f32 \<Rightarrow> f32 \<Rightarrow> bool" where
  "f32_eq a b = (\<not> f32_is_nan a \<and> \<not> f32_is_nan b \<and> f32_key a = f32_key b)"

text \<open>Code equations on the bit pattern, so that closed comparisons evaluate in binary.\<close>

lemma f32_mag_word: "int (f32_mag w) = uint (w AND 0x7fffffff)"
proof -
  have "w AND 0x7fffffff = take_bit 31 w"
    by (simp add: take_bit_eq_mask mask_eq_exp_minus_1)
  then show ?thesis
    by (simp add: f32_mag_def take_bit_eq_mod of_nat_mod uint_mod_distrib)
qed

lemma f32_sign_code [code]: "f32_sign w = (0x80000000 \<le> w)"
  by (simp add: f32_sign_def word_le_nat_alt)

lemma f32_is_nan_code [code]: "f32_is_nan w = (0x7f800000 < uint (w AND 0x7fffffff))"
  by (simp add: f32_is_nan_def flip: f32_mag_word)

lemma f32_is_finite_code [code]: "f32_is_finite w = (uint (w AND 0x7fffffff) < 0x7f800000)"
  by (simp add: f32_is_finite_def flip: f32_mag_word)

lemma f32_key_code [code]:
  "f32_key w = (if f32_sign w then - uint (w AND 0x7fffffff) else uint (w AND 0x7fffffff))"
  by (simp add: f32_key_def f32_mag_word)

lemmas f32_cmp_defs = f32_lt_def f32_le_def f32_eq_def

abbreviation f32_zero :: f32 where "f32_zero \<equiv> 0"

definition f32_infinity :: f32 where
  "f32_infinity = 0x7f800000"

definition f32_max_value :: f32 where
  "f32_max_value = 0x7f7fffff"

lemma f32_is_nan_zero [simp]: "\<not> f32_is_nan f32_zero"
  by (simp add: f32_is_nan_def f32_mag_def)

lemma f32_key_zero [simp]: "f32_key f32_zero = 0"
  by (simp add: f32_key_def f32_mag_def)

lemma f32_infinity_not_nan [simp]: "\<not> f32_is_nan f32_infinity"
  by (simp add: f32_is_nan_def f32_mag_def f32_infinity_def)

lemma f32_finite_not_nan: "f32_is_finite w \<Longrightarrow> \<not> f32_is_nan w"
  by (simp add: f32_is_finite_def f32_is_nan_def)

lemma f32_lt_irrefl [simp]: "\<not> f32_lt a a"
  by (simp add: f32_lt_def)

lemma f32_lt_trans: "f32_lt a b \<Longrightarrow> f32_lt b c \<Longrightarrow> f32_lt a c"
  by (auto simp: f32_lt_def)

lemma f32_trichotomy:
  "\<not> f32_is_nan a \<Longrightarrow> \<not> f32_is_nan b \<Longrightarrow> f32_lt a b \<or> f32_eq a b \<or> f32_lt b a"
  by (auto simp: f32_cmp_defs)

lemma f32_not_lt: "\<not> f32_is_nan a \<Longrightarrow> \<not> f32_is_nan b \<Longrightarrow> \<not> f32_lt a b \<longleftrightarrow> f32_le b a"
  by (auto simp: f32_cmp_defs)

text \<open>\<open>f32::min\<close> returns the other operand when one is a NaN.\<close>

definition f32_min :: "f32 \<Rightarrow> f32 \<Rightarrow> f32" where
  "f32_min a b = (if f32_is_nan a then b else if f32_is_nan b then a
                  else if f32_key b < f32_key a then b else a)"

section \<open>Ordering values\<close>

text \<open>\<open>std::cmp::Ordering\<close> with \<open>then_with\<close>, and \<open>f32::partial_cmp\<close>.\<close>

datatype ordering = Less | Equal | Greater

fun then_with :: "ordering \<Rightarrow> ordering \<Rightarrow> ordering" where
  "then_with Equal b = b"
| "then_with a b = a"

definition cmp :: "'a::linorder \<Rightarrow> 'a \<Rightarrow> ordering" where
  "cmp a b = (if a < b then Less else if a = b then Equal else Greater)"

definition f32_partial_cmp :: "f32 \<Rightarrow> f32 \<Rightarrow> ordering option" where
  "f32_partial_cmp a b =
     (if f32_is_nan a \<or> f32_is_nan b then None else Some (cmp (f32_key a) (f32_key b)))"

definition f32_cmp_or_equal :: "f32 \<Rightarrow> f32 \<Rightarrow> ordering" where
  "f32_cmp_or_equal a b = (case f32_partial_cmp a b of None \<Rightarrow> Equal | Some c \<Rightarrow> c)"

lemma cmp_simps [simp]:
  "cmp a b = Less \<longleftrightarrow> a < b"
  "cmp a b = Equal \<longleftrightarrow> a = b"
  "cmp a b = Greater \<longleftrightarrow> b < a"
  by (auto simp: cmp_def)

lemma then_with_simps:
  "then_with a b = Less \<longleftrightarrow> a = Less \<or> (a = Equal \<and> b = Less)"
  "then_with a b = Equal \<longleftrightarrow> a = Equal \<and> b = Equal"
  "then_with a b = Greater \<longleftrightarrow> a = Greater \<or> (a = Equal \<and> b = Greater)"
  by (cases a; simp)+

lemma f32_cmp_or_equal_key:
  "\<not> f32_is_nan a \<Longrightarrow> \<not> f32_is_nan b \<Longrightarrow> f32_cmp_or_equal a b = cmp (f32_key a) (f32_key b)"
  by (simp add: f32_cmp_or_equal_def f32_partial_cmp_def)

section \<open>bfloat16\<close>

text \<open>
  \<^verbatim>\<open>BFloat16\<close> of \<^verbatim>\<open>hash_prune.rs\<close> keeps the upper 16 bits of an \<open>f32\<close>.
\<close>

datatype bf16 = BFloat16 u16

definition bf16_from_f32 :: "f32 \<Rightarrow> bf16" where
  "bf16_from_f32 v = BFloat16 (ucast (drop_bit 16 v))"

fun bf16_to_f32 :: "bf16 \<Rightarrow> f32" where
  "bf16_to_f32 (BFloat16 b) = push_bit 16 (ucast b)"

definition bf16_trunc :: "f32 \<Rightarrow> f32" where
  "bf16_trunc v = bf16_to_f32 (bf16_from_f32 v)"

text \<open>The magnitude of a bfloat16 lies on a grid of step \<open>2 ^ 16\<close>.\<close>

definition bf16_grid :: "nat \<Rightarrow> nat" where
  "bf16_grid m = m div 2 ^ 16 * 2 ^ 16"

lemma bf16_grid_le: "bf16_grid m \<le> m"
  by (simp add: bf16_grid_def)

lemma bf16_grid_mono: "m \<le> n \<Longrightarrow> bf16_grid m \<le> bf16_grid n"
  by (simp add: bf16_grid_def div_le_mono)

lemma bf16_grid_idem [simp]: "bf16_grid (bf16_grid m) = bf16_grid m"
  by (simp add: bf16_grid_def)

lemma bf16_grid_less: "bf16_grid m < bf16_grid n \<Longrightarrow> m < bf16_grid n"
  using bf16_grid_mono [of "bf16_grid n" m] by (simp add: not_less [symmetric]) 
    (metis not_less)

lemma unat_bf16_to_f32: "unat (bf16_to_f32 (BFloat16 b)) = unat b * 2 ^ 16"
proof -
  have "unat b < 2 ^ 16"
    using unsigned_less [of b] by simp
  then show ?thesis
    by (simp add: push_bit_eq_mult unat_word_ariths unsigned_ucast_eq unsigned_take_bit_eq
        take_bit_eq_mod)
qed

lemma unat_bf16_trunc: "unat (bf16_trunc v) = bf16_grid (unat v)"
proof -
  have "unat v < 2 ^ 32"
    using unsigned_less [of v] by simp
  then have less: "unat v div 65536 < 65536"
    by (simp add: less_mult_imp_div_less)
  have "unat (ucast (drop_bit 16 v) :: u16) = unat v div 2 ^ 16"
    using less
    by (simp add: unsigned_ucast_eq unsigned_take_bit_eq drop_bit_eq_div take_bit_eq_mod
        unat_div_distrib)
  then show ?thesis
    by (simp add: bf16_trunc_def bf16_from_f32_def unat_bf16_to_f32 bf16_grid_def
        del: bf16_to_f32.simps)
qed

lemma bf16_grid_halves:
  "bf16_grid m mod 2 ^ 31 = bf16_grid (m mod 2 ^ 31)"
  "2 ^ 31 \<le> bf16_grid m \<longleftrightarrow> 2 ^ 31 \<le> m"
proof -
  have e: "(2::nat) ^ 31 = 2 ^ 15 * 2 ^ 16" by simp
  have "m mod (2 ^ 15 * 2 ^ 16) = 2 ^ 16 * (m div 2 ^ 16 mod 2 ^ 15) + m mod 2 ^ 16"
    using mod_mult2_eq [of m "2 ^ 16" "2 ^ 15"] by (simp only: mult.commute)
  then have "m mod (2 ^ 15 * 2 ^ 16) div 2 ^ 16 = m div 2 ^ 16 mod 2 ^ 15"
    by (simp add: div_mult_self3)
  then show "bf16_grid m mod 2 ^ 31 = bf16_grid (m mod 2 ^ 31)"
    unfolding bf16_grid_def e by (simp only: mod_mult_mult2)
  have g: "bf16_grid (2 ^ 31) = 2 ^ 31" by (simp add: bf16_grid_def)
  show "2 ^ 31 \<le> bf16_grid m \<longleftrightarrow> 2 ^ 31 \<le> m"
    using bf16_grid_le [of m] bf16_grid_mono [of "2 ^ 31" m] unfolding g by linarith
qed

lemma bf16_trunc_sign [simp]: "f32_sign (bf16_trunc v) = f32_sign v"
  unfolding f32_sign_def unat_bf16_trunc by (rule bf16_grid_halves)

lemma bf16_trunc_mag: "f32_mag (bf16_trunc v) = bf16_grid (f32_mag v)"
  unfolding f32_mag_def unat_bf16_trunc by (rule bf16_grid_halves)

lemma bf16_trunc_idem [simp]: "bf16_trunc (bf16_trunc v) = bf16_trunc v"
  by (rule word_unat_eq_iff [THEN iffD2]) (simp add: unat_bf16_trunc)

lemma bf16_trunc_not_nan: "\<not> f32_is_nan v \<Longrightarrow> \<not> f32_is_nan (bf16_trunc v)"
  unfolding f32_is_nan_def bf16_trunc_mag using bf16_grid_le [of "f32_mag v"] by linarith

lemma f32_key_bf16_trunc:
  "f32_key (bf16_trunc v) =
     (if f32_sign v then - int (bf16_grid (f32_mag v)) else int (bf16_grid (f32_mag v)))"
  by (simp add: f32_key_def bf16_trunc_mag)

text \<open>
  Truncation is monotone, and comparing with a value that is already a bfloat16 is not
  changed by it as long as the comparison is strict in the other direction.
\<close>

lemma bf16_trunc_mono:
  "f32_key a \<le> f32_key b \<Longrightarrow> f32_key (bf16_trunc a) \<le> f32_key (bf16_trunc b)"
  unfolding f32_key_bf16_trunc unfolding f32_key_def
  using bf16_grid_mono [of "f32_mag a" "f32_mag b"] bf16_grid_mono [of "f32_mag b" "f32_mag a"]
    bf16_grid_le [of "f32_mag a"] bf16_grid_le [of "f32_mag b"]
  by (auto split: if_splits)

lemma bf16_trunc_lt:
  "f32_key (bf16_trunc a) < f32_key (bf16_trunc b) \<Longrightarrow> f32_key a < f32_key (bf16_trunc b)"
  unfolding f32_key_bf16_trunc unfolding f32_key_def
  using bf16_grid_less [of "f32_mag a" "f32_mag b"] bf16_grid_le [of "f32_mag a"]
  by (auto split: if_splits)

lemma bf16_trunc_lt_le:
  "f32_key a < f32_key (bf16_trunc b) \<Longrightarrow> f32_key (bf16_trunc a) \<le> f32_key (bf16_trunc b)"
  using bf16_trunc_mono [of a "bf16_trunc b"] by simp

lemma bf16_to_f32_from [simp]: "bf16_to_f32 (bf16_from_f32 v) = bf16_trunc v"
  by (simp add: bf16_trunc_def)

end
