(* ===== verification/HashPrune.thy ===== *)
theory HashPrune
  imports Float32
begin

text \<open>
  \<^verbatim>\<open>ForgeANN/src/forgeann/hash_prune.rs\<close>: the HashPrune reservoir. Each point owns a vector of
  at most \<open>l_max\<close> slots ordered by hash, with a cached position and distance of the farthest
  slot. The theory models every operation of the reservoir, proves the structural invariant
  for arbitrary inputs (NaN distances included), the exactness of the cache for non-NaN
  distances, what an insertion may change, and that the reservoir keeps the \<open>l_max\<close> nearest
  candidates when no two candidates share a hash.
\<close>

section \<open>Slots and reservoirs\<close>

record slot =
  s_target :: u32
  s_hash :: u16
  s_dist :: bf16

definition slot_new :: "u32 \<Rightarrow> u16 \<Rightarrow> f32 \<Rightarrow> slot" where
  "slot_new t h d = \<lparr>s_target = t, s_hash = h, s_dist = bf16_from_f32 d\<rparr>"

abbreviation slot_f32 :: "slot \<Rightarrow> f32" where
  "slot_f32 s \<equiv> bf16_to_f32 (s_dist s)"

abbreviation slot_key :: "slot \<Rightarrow> int" where
  "slot_key s \<equiv> f32_key (slot_f32 s)"

record reservoir =
  l_max :: usize
  slots :: "slot list"
  farthest_idx :: usize
  farthest_dist :: f32

definition reservoir_new :: "usize \<Rightarrow> reservoir result" where
  "reservoir_new n =
     (if n = 0 then Inl (Panic ''l_max must be > 0'')
      else Inr \<lparr>l_max = n, slots = [], farthest_idx = 0, farthest_dist = f32_zero\<rparr>)"

definition reservoir_clear :: "reservoir \<Rightarrow> reservoir" where
  "reservoir_clear r = r\<lparr>slots := [], farthest_idx := 0, farthest_dist := f32_zero\<rparr>"

definition capacity_hint :: "reservoir \<Rightarrow> usize" where
  "capacity_hint r = l_max r"

text \<open>
  The scan \<open>for (i, slot) in iter.enumerate().skip(..)\<close> for the first slot with the largest
  distance; it serves \<open>recompute_farthest\<close> and the same-hash scan of \<open>insert\<close>.
\<close>

fun scan_farthest :: "nat \<Rightarrow> nat \<Rightarrow> f32 \<Rightarrow> slot list \<Rightarrow> nat \<times> f32" where
  "scan_farthest i idx d [] = (idx, d)"
| "scan_farthest i idx d (s # ss) =
     (if f32_lt d (slot_f32 s) then scan_farthest (Suc i) i (slot_f32 s) ss
      else scan_farthest (Suc i) idx d ss)"

text \<open>
  The source reads \<open>slots[0]\<close>; both of its callers guarantee a non-empty vector, so the empty
  case is the one of \<open>recompute_farthest_if_nonempty\<close>.
\<close>

definition recompute_farthest :: "reservoir \<Rightarrow> reservoir" where
  "recompute_farthest r =
     (case slots r of
        [] \<Rightarrow> r\<lparr>farthest_idx := 0, farthest_dist := f32_zero\<rparr>
      | s # ss \<Rightarrow>
          (let (idx, d) = scan_farthest 1 0 (slot_f32 s) ss
           in r\<lparr>farthest_idx := idx, farthest_dist := d\<rparr>))"

definition lower_bound_hash :: "reservoir \<Rightarrow> u16 \<Rightarrow> nat" where
  "lower_bound_hash r h = partition_point (\<lambda>s. s_hash s < h) (slots r)"

definition upper_bound_hash :: "reservoir \<Rightarrow> u16 \<Rightarrow> nat" where
  "upper_bound_hash r h = partition_point (\<lambda>s. s_hash s \<le> h) (slots r)"

definition insert_slot_sorted :: "reservoir \<Rightarrow> slot \<Rightarrow> reservoir" where
  "insert_slot_sorted r s =
     (let insert_pos = upper_bound_hash r (s_hash s);
          d = slot_f32 s;
          r' = r\<lparr>slots := vec_insert insert_pos s (slots r)\<rparr>
      in if length (slots r') = 1 then r'\<lparr>farthest_idx := 0, farthest_dist := d\<rparr>
         else if f32_le (farthest_dist r) d then recompute_farthest r'
         else if insert_pos \<le> farthest_idx r then r'\<lparr>farthest_idx := farthest_idx r + 1\<rparr>
         else r')"

definition replace_slot_sorted :: "reservoir \<Rightarrow> nat \<Rightarrow> slot \<Rightarrow> reservoir" where
  "replace_slot_sorted r pos s =
     (let r1 = r\<lparr>slots := vec_remove pos (slots r)\<rparr>;
          insert_pos = upper_bound_hash r1 (s_hash s)
      in recompute_farthest (r1\<lparr>slots := vec_insert insert_pos s (slots r1)\<rparr>))"

definition target_position :: "reservoir \<Rightarrow> u32 \<Rightarrow> nat option" where
  "target_position r t = position (\<lambda>s. s_target s = t) (slots r)"

text \<open>The farthest slot among those with the hash \<open>h\<close>, as the loop of \<open>insert\<close> finds it.\<close>

definition farthest_same_hash :: "reservoir \<Rightarrow> u16 \<Rightarrow> nat \<times> f32" where
  "farthest_same_hash r h =
     (let hash_start = lower_bound_hash r h;
          hash_end = upper_bound_hash r h
      in scan_farthest (hash_start + 1) hash_start (slot_f32 (slots r ! hash_start))
           (take (hash_end - (hash_start + 1)) (drop (hash_start + 1) (slots r))))"

definition reservoir_insert :: "reservoir \<Rightarrow> u32 \<Rightarrow> u16 \<Rightarrow> f32 \<Rightarrow> reservoir" where
  "reservoir_insert r t h d =
     (case target_position r t of
        Some pos \<Rightarrow>
          if f32_lt d (slot_f32 (slots r ! pos))
          then replace_slot_sorted r pos (slot_new t h d) else r
      | None \<Rightarrow>
          if length (slots r) < l_max r then insert_slot_sorted r (slot_new t h d)
          else
            let hash_start = lower_bound_hash r h in
            if hash_start < length (slots r) \<and> s_hash (slots r ! hash_start) = h then
              (let (far, far_dist) = farthest_same_hash r h
               in if f32_lt d far_dist then replace_slot_sorted r far (slot_new t h d) else r)
            else if f32_lt d (farthest_dist r)
            then replace_slot_sorted r (farthest_idx r) (slot_new t h d) else r)"

definition into_neighbors :: "reservoir \<Rightarrow> u32 list" where
  "into_neighbors r = map s_target (slots r)"

definition into_slots :: "reservoir \<Rightarrow> slot list" where
  "into_slots r = slots r"

definition drain_neighbors :: "reservoir \<Rightarrow> u32 list \<times> reservoir" where
  "drain_neighbors r =
     (map s_target (slots r), r\<lparr>slots := [], farthest_idx := 0, farthest_dist := f32_zero\<rparr>)"

definition drain_slots :: "reservoir \<Rightarrow> slot list \<times> reservoir" where
  "drain_slots r =
     (slots r, r\<lparr>slots := [], farthest_idx := 0, farthest_dist := f32_zero\<rparr>)"

text \<open>Feeding a stream of candidates \<open>(target, hash, dist)\<close>.\<close>

type_synonym candidate = "u32 \<times> u16 \<times> f32"

fun insert_all :: "reservoir \<Rightarrow> candidate list \<Rightarrow> reservoir" where
  "insert_all r [] = r"
| "insert_all r ((t, h, d) # cs) = insert_all (reservoir_insert r t h d) cs"

section \<open>Structural lemmas\<close>

lemma slot_new_simps [simp]:
  "s_target (slot_new t h d) = t"
  "s_hash (slot_new t h d) = h"
  "slot_f32 (slot_new t h d) = bf16_trunc d"
  by (simp_all add: slot_new_def)

lemma recompute_farthest_frame [simp]:
  "slots (recompute_farthest r) = slots r"
  "l_max (recompute_farthest r) = l_max r"
  by (auto simp: recompute_farthest_def split: list.splits prod.splits)

lemma insert_slot_sorted_frame [simp]:
  "slots (insert_slot_sorted r s) = vec_insert (upper_bound_hash r (s_hash s)) s (slots r)"
  "l_max (insert_slot_sorted r s) = l_max r"
  by (simp_all add: insert_slot_sorted_def Let_def)

lemma replace_slot_sorted_frame [simp]:
  "slots (replace_slot_sorted r pos s) =
     vec_insert (partition_point (\<lambda>x. s_hash x \<le> s_hash s) (vec_remove pos (slots r))) s
       (vec_remove pos (slots r))"
  "l_max (replace_slot_sorted r pos s) = l_max r"
  by (simp_all add: replace_slot_sorted_def Let_def upper_bound_hash_def)

lemma sorted_hash_vec_insert:
  assumes "sorted (map s_hash xs)"
  shows "sorted (map s_hash (vec_insert (partition_point (\<lambda>x. s_hash x \<le> s_hash s) xs) s xs))"
  using sorted_vec_insert_partition [OF assms, of "s_hash s"]
  unfolding map_vec_insert partition_point_map [of "\<lambda>x. x \<le> s_hash s" s_hash, symmetric] .

lemma scan_farthest_pos:
  "scan_farthest i idx d ss = (j, e) \<Longrightarrow>
     (j = idx \<and> e = d) \<or> (\<exists>k < length ss. j = i + k \<and> e = slot_f32 (ss ! k))"
proof (induction i idx d ss rule: scan_farthest.induct)
  case (2 i idx d s ss)
  show ?case
  proof (cases "f32_lt d (slot_f32 s)")
    case True
    with "2.prems" have "scan_farthest (Suc i) i (slot_f32 s) ss = (j, e)" by simp
    from "2.IH"(1) [OF True this] show ?thesis by force
  next
    case False
    with "2.prems" have "scan_farthest (Suc i) idx d ss = (j, e)" by simp
    from "2.IH"(2) [OF False this] show ?thesis by force
  qed
qed simp

lemma scan_farthest_max:
  "scan_farthest i idx d ss = (j, e) \<Longrightarrow> \<not> f32_is_nan d \<Longrightarrow>
   (\<forall>s \<in> set ss. \<not> f32_is_nan (slot_f32 s)) \<Longrightarrow>
   f32_key d \<le> f32_key e \<and> (\<forall>s \<in> set ss. slot_key s \<le> f32_key e)"
proof (induction i idx d ss rule: scan_farthest.induct)
  case (2 i idx d s ss)
  show ?case
  proof (cases "f32_lt d (slot_f32 s)")
    case True
    with 2 show ?thesis by (auto simp: f32_lt_def)
  next
    case False
    with 2 show ?thesis by (auto simp: f32_lt_def)
  qed
qed simp

section \<open>The structural invariant\<close>

definition reservoir_inv :: "reservoir \<Rightarrow> bool" where
  [inv_defs]: "reservoir_inv r \<longleftrightarrow>
     0 < l_max r \<and> length (slots r) \<le> l_max r \<and>
     sorted (map s_hash (slots r)) \<and> distinct (map s_target (slots r)) \<and>
     (slots r \<noteq> [] \<longrightarrow> farthest_idx r < length (slots r))"

lemma reservoir_invD:
  assumes "reservoir_inv r"
  shows "0 < l_max r" "length (slots r) \<le> l_max r" "sorted (map s_hash (slots r))"
    "distinct (map s_target (slots r))"
  using assms by (simp_all add: reservoir_inv_def)

lemma recompute_farthest_idx:
  assumes "slots r \<noteq> []"
  shows "farthest_idx (recompute_farthest r) < length (slots r)"
    and "farthest_dist (recompute_farthest r) =
           slot_f32 (slots r ! farthest_idx (recompute_farthest r))"
proof -
  obtain s ss where ss: "slots r = s # ss" using assms by (cases "slots r") auto
  obtain j e where je: "scan_farthest 1 0 (slot_f32 s) ss = (j, e)" by fastforce
  from scan_farthest_pos [OF je] ss je
  show "farthest_idx (recompute_farthest r) < length (slots r)"
    and "farthest_dist (recompute_farthest r) =
           slot_f32 (slots r ! farthest_idx (recompute_farthest r))"
    by (auto simp: recompute_farthest_def)
qed

lemma insert_slot_sorted_inv:
  assumes "reservoir_inv r" "length (slots r) < l_max r"
    and "s_target s \<notin> s_target ` set (slots r)"
  shows "reservoir_inv (insert_slot_sorted r s)"
proof -
  let ?r = "insert_slot_sorted r s"
  have "distinct (map s_target (slots ?r))"
  proof -
    have "mset (map s_target (slots ?r)) = mset (s_target s # map s_target (slots r))"
      by (simp add: map_vec_insert)
    moreover have "distinct (s_target s # map s_target (slots r))"
      using assms by (simp add: reservoir_inv_def)
    ultimately show ?thesis using mset_eq_imp_distinct_iff by blast
  qed
  moreover have "sorted (map s_hash (slots ?r))"
    using sorted_hash_vec_insert [OF reservoir_invD(3) [OF assms(1)]]
    by (simp add: upper_bound_hash_def)
  moreover have "farthest_idx ?r < length (slots ?r)"
  proof -
    have le: "slots r \<noteq> [] \<Longrightarrow> farthest_idx r < length (slots r)"
      using assms by (simp add: reservoir_inv_def)
    have "recompute_farthest (r\<lparr>slots := vec_insert i s (slots r)\<rparr>) = r' \<Longrightarrow>
            farthest_idx r' < Suc (length (slots r))" for i r'
      using recompute_farthest_idx(1) [of "r\<lparr>slots := vec_insert i s (slots r)\<rparr>"]
      by (auto simp: vec_insert_def)
    then show ?thesis
      using le by (auto simp: insert_slot_sorted_def Let_def)
  qed
  ultimately show ?thesis using assms by (simp add: reservoir_inv_def)
qed

lemma replace_slot_sorted_inv:
  assumes "reservoir_inv r" "pos < length (slots r)"
    and "s_target s \<notin> s_target ` set (vec_remove pos (slots r))"
  shows "reservoir_inv (replace_slot_sorted r pos s)"
proof -
  let ?xs = "vec_remove pos (slots r)" and ?r = "replace_slot_sorted r pos s"
  have "distinct (map s_target ?xs)"
  proof -
    have "mset (map s_target ?xs) \<subseteq># mset (map s_target (slots r))"
      using assms(2) by (simp add: mset_vec_remove image_mset_subseteq_mono)
    then obtain M where M: "mset (map s_target (slots r)) = mset (map s_target ?xs) + M"
      by (auto simp: mset_subset_eq_exists_conv)
    obtain ms where "mset ms = M" using ex_mset by blast
    with M have "mset (map s_target (slots r)) = mset (map s_target ?xs @ ms)" by simp
    then have "distinct (map s_target ?xs @ ms)"
      using assms(1) mset_eq_imp_distinct_iff by (metis reservoir_invD(4))
    then show ?thesis by simp
  qed
  then have "distinct (s_target s # map s_target ?xs)" using assms(3) by simp
  moreover have "mset (map s_target (slots ?r)) = mset (s_target s # map s_target ?xs)"
    by (simp add: map_vec_insert)
  ultimately have dist: "distinct (map s_target (slots ?r))"
    using mset_eq_imp_distinct_iff by blast
  have "sorted (map s_hash ?xs)"
    using assms(1) by (simp add: reservoir_inv_def map_vec_remove sorted_vec_remove)
  then have sort: "sorted (map s_hash (slots ?r))"
    using sorted_hash_vec_insert by simp
  have len: "length (slots ?r) = length (slots r)"
    using assms(2) by simp
  have "farthest_idx ?r < length (slots ?r)"
    unfolding replace_slot_sorted_def Let_def
    by (rule less_le_trans, rule recompute_farthest_idx(1)) (auto simp: vec_insert_def)
  with dist sort len show ?thesis using assms(1) by (simp add: reservoir_inv_def)
qed


lemma target_position_None: "target_position r t = None \<longleftrightarrow> t \<notin> s_target ` set (slots r)"
  by (auto simp: target_position_def)

lemma target_position_Some:
  "target_position r t = Some pos \<Longrightarrow> pos < length (slots r) \<and> s_target (slots r ! pos) = t"
  using position_Some [of "\<lambda>s. s_target s = t" "slots r" pos] by (simp add: target_position_def)

lemma removed_target_fresh:
  assumes "distinct (map s_target xs)" "pos < length xs" "s_target (xs ! pos) = t"
  shows "t \<notin> s_target ` set (vec_remove pos xs)"
proof -
  have "mset (map s_target xs) = add_mset t (mset (map s_target (vec_remove pos xs)))"
    using assms(2,3) by (auto simp: mset_vec_remove image_mset_Diff insert_DiffM)
  then have "distinct (t # map s_target (vec_remove pos xs))"
    using assms(1) mset_eq_imp_distinct_iff by (metis mset.simps(2))
  then show ?thesis by simp
qed

lemma lower_upper_bound:
  assumes "sorted (map s_hash (slots r))" "lower_bound_hash r h < length (slots r)"
    and "s_hash (slots r ! lower_bound_hash r h) = h"
  shows "lower_bound_hash r h < upper_bound_hash r h" "upper_bound_hash r h \<le> length (slots r)"
proof -
  let ?ys = "dropWhile (\<lambda>s. s_hash s < h) (slots r)"
  have cons: "drop (lower_bound_hash r h) (slots r) = slots r ! lower_bound_hash r h # 
      drop (Suc (lower_bound_hash r h)) (slots r)"
    using assms(2) by (simp add: Cons_nth_drop_Suc)
  then have "?ys \<noteq> []" "hd ?ys = slots r ! lower_bound_hash r h"
    by (simp_all add: lower_bound_hash_def)
  then obtain y ys where ys: "?ys = y # ys" "s_hash y = h"
    using assms(3) by (cases ?ys) auto
  have "takeWhile (\<lambda>s. s_hash s \<le> h) (takeWhile (\<lambda>s. s_hash s < h) (slots r) @ ?ys)
      = takeWhile (\<lambda>s. s_hash s < h) (slots r) @ takeWhile (\<lambda>s. s_hash s \<le> h) ?ys"
    by (rule takeWhile_append2) (auto dest: set_takeWhileD)
  then have "length (takeWhile (\<lambda>s. s_hash s \<le> h) (slots r)) =
      length (takeWhile (\<lambda>s. s_hash s < h) (slots r)) + length (takeWhile (\<lambda>s. s_hash s \<le> h) ?ys)"
    by simp
  with ys show "lower_bound_hash r h < upper_bound_hash r h"
    by (simp add: lower_bound_hash_def upper_bound_hash_def partition_point_def)
  show "upper_bound_hash r h \<le> length (slots r)"
    by (simp add: upper_bound_hash_def partition_point_le)
qed

lemma farthest_same_hash_pos:
  assumes "sorted (map s_hash (slots r))" "lower_bound_hash r h < length (slots r)"
    and "s_hash (slots r ! lower_bound_hash r h) = h" "farthest_same_hash r h = (j, e)"
  shows "j < length (slots r)" "e = slot_f32 (slots r ! j)"
proof -
  let ?i = "lower_bound_hash r h" and ?k = "upper_bound_hash r h"
  let ?ss = "take (?k - (?i + 1)) (drop (?i + 1) (slots r))"
  have "scan_farthest (?i + 1) ?i (slot_f32 (slots r ! ?i)) ?ss = (j, e)"
    using assms(4) by (simp add: farthest_same_hash_def Let_def)
  from scan_farthest_pos [OF this]
  consider "j = ?i" "e = slot_f32 (slots r ! ?i)"
    | n where "n < length ?ss" "j = ?i + 1 + n" "e = slot_f32 (?ss ! n)" by auto
  moreover have "?ss ! n = slots r ! (?i + 1 + n)" if "n < length ?ss" for n
    using that assms(2) by (simp add: nth_drop)
  ultimately show "j < length (slots r)" "e = slot_f32 (slots r ! j)"
    using assms(2) by (cases; force)+
qed

lemma lower_bound_hash_hit:
  assumes "sorted (map s_hash (slots r))" "h \<in> s_hash ` set (slots r)"
  shows "lower_bound_hash r h < length (slots r)" "s_hash (slots r ! lower_bound_hash r h) = h"
proof -
  let ?P = "\<lambda>s. s_hash s < h" and ?i = "lower_bound_hash r h"
  have less: "?i < length (slots r)"
  proof (rule ccontr)
    assume "\<not> ?thesis"
    then have "length (takeWhile ?P (slots r)) = length (slots r)"
      using length_takeWhile_le [of ?P "slots r"]
      by (simp add: lower_bound_hash_def partition_point_def)
    then have "takeWhile ?P (slots r) = slots r"
      by (metis append_eq_conv_conj takeWhile_dropWhile_id take_all_iff order_refl)
    then have "\<forall>s \<in> set (slots r). ?P s" by (simp add: takeWhile_eq_all_conv)
    with assms(2) show False by auto
  qed
  then have ge: "h \<le> s_hash (slots r ! ?i)"
    unfolding lower_bound_hash_def partition_point_def
    by (metis (mono_tags, lifting) nth_length_takeWhile not_less)
  obtain j where j: "j < length (slots r)" "s_hash (slots r ! j) = h"
    using assms(2) by (auto simp: in_set_conv_nth)
  have "\<not> j < ?i"
  proof
    assume "j < ?i"
    then have "?P (slots r ! j)"
      unfolding lower_bound_hash_def partition_point_def
      by (metis (mono_tags, lifting) nth_mem set_takeWhileD takeWhile_nth)
    with j show False by simp
  qed
  then have "s_hash (slots r ! ?i) \<le> s_hash (slots r ! j)"
    using assms(1) j(1) less by (simp add: sorted_map sorted_wrt_iff_nth_less)
      (metis leI le_neq_implies_less order_refl)
  with ge j(2) less show "?i < length (slots r)" "s_hash (slots r ! ?i) = h" by auto
qed

text \<open>
  The branches of \<open>insert\<close> as one case rule: an insertion leaves the reservoir as it is, adds
  a slot below capacity, or replaces the slot at some position \<open>pos\<close> whose distance is
  larger and whose target is the new one or, when the vector is full, any other.
\<close>

lemma reservoir_insert_cases [consumes 1, case_names unchanged added replaced]:
  assumes "reservoir_inv r"
  obtains "reservoir_insert r t h d = r"
  | "t \<notin> s_target ` set (slots r)" "length (slots r) < l_max r"
    "reservoir_insert r t h d = insert_slot_sorted r (slot_new t h d)"
  | pos where "pos < length (slots r)" "t \<notin> s_target ` set (vec_remove pos (slots r))"
    "f32_lt d (slot_f32 (slots r ! pos)) \<or>
       pos = farthest_idx r \<and> f32_lt d (farthest_dist r)"
    "reservoir_insert r t h d = replace_slot_sorted r pos (slot_new t h d)"
proof (cases "target_position r t")
  case (Some pos)
  from target_position_Some [OF Some] reservoir_invD(4) [OF assms]
  have "pos < length (slots r)" "t \<notin> s_target ` set (vec_remove pos (slots r))"
    by (simp_all add: removed_target_fresh)
  with Some show thesis
    by (cases "f32_lt d (slot_f32 (slots r ! pos))")
      (auto simp: reservoir_insert_def intro: that)
next
  case None
  then have fresh: "t \<notin> s_target ` set (slots r)" by (simp add: target_position_None)
  then have fresh': "t \<notin> s_target ` set (vec_remove pos (slots r))" for pos
    using set_vec_remove_subset by fastforce
  show thesis
  proof (cases "length (slots r) < l_max r")
    case True
    with None fresh show thesis by (intro that(2)) (simp_all add: reservoir_insert_def)
  next
    case False
    with assms have ne: "slots r \<noteq> []" and far: "farthest_idx r < length (slots r)"
      by (auto simp: reservoir_inv_def)
    show thesis
    proof (cases "lower_bound_hash r h < length (slots r) \<and>
        s_hash (slots r ! lower_bound_hash r h) = h")
      case True
      obtain j e where je: "farthest_same_hash r h = (j, e)" by fastforce
      from farthest_same_hash_pos [OF reservoir_invD(3) [OF assms] _ _ je] True
      have j: "j < length (slots r)" "e = slot_f32 (slots r ! j)" by auto
      have "reservoir_insert r t h d =
          (if f32_lt d e then replace_slot_sorted r j (slot_new t h d) else r)"
        using None False True je by (simp add: reservoir_insert_def)
      with j fresh' show thesis
        by (cases "f32_lt d e") (simp_all add: that(1) that(3) [of j])
    next
      case no: False
      have "reservoir_insert r t h d =
          (if f32_lt d (farthest_dist r)
           then replace_slot_sorted r (farthest_idx r) (slot_new t h d) else r)"
        using None False no by (auto simp: reservoir_insert_def Let_def)
      with far fresh' show thesis
        by (cases "f32_lt d (farthest_dist r)")
          (simp_all add: that(1) that(3) [of "farthest_idx r"])
    qed
  qed
qed

lemma reservoir_insert_inv:
  assumes "reservoir_inv r" shows "reservoir_inv (reservoir_insert r t h d)"
  using assms
proof (cases rule: reservoir_insert_cases [where t = t and h = h and d = d])
  case added
  then show ?thesis using assms by (simp add: insert_slot_sorted_inv)
next
  case (replaced pos)
  then show ?thesis using assms by (simp add: replace_slot_sorted_inv)
qed (use assms in simp)

lemma reservoir_new_inv: "reservoir_new n = Inr r \<Longrightarrow> reservoir_inv r"
  by (auto simp: reservoir_new_def reservoir_inv_def split: if_splits)

lemma reservoir_clear_inv: "reservoir_inv r \<Longrightarrow> reservoir_inv (reservoir_clear r)"
  by (simp add: reservoir_clear_def reservoir_inv_def)

lemma drain_inv:
  "reservoir_inv r \<Longrightarrow> reservoir_inv (snd (drain_neighbors r))"
  "reservoir_inv r \<Longrightarrow> reservoir_inv (snd (drain_slots r))"
  by (simp_all add: drain_neighbors_def drain_slots_def reservoir_inv_def)

lemma insert_all_inv: "reservoir_inv r \<Longrightarrow> reservoir_inv (insert_all r cs)"
  by (induction r cs rule: insert_all.induct) (simp_all add: reservoir_insert_inv)

lemma reservoir_insert_l_max [simp]: "l_max (reservoir_insert r t h d) = l_max r"
  by (auto simp: reservoir_insert_def Let_def split: option.splits prod.splits)

lemma insert_all_l_max [simp]: "l_max (insert_all r cs) = l_max r"
  by (induction r cs rule: insert_all.induct) simp_all

lemma insert_all_append: "insert_all r (cs @ ds) = insert_all (insert_all r cs) ds"
  by (induction r cs rule: insert_all.induct) simp_all


section \<open>The farthest-slot cache\<close>

text \<open>
  For distances that are not NaN, the cached index and distance name a slot of maximal
  distance whenever the vector is not empty.
\<close>

definition farthest_ok :: "reservoir \<Rightarrow> bool" where
  [inv_defs]: "farthest_ok r \<longleftrightarrow>
     (\<forall>s \<in> set (slots r). \<not> f32_is_nan (slot_f32 s)) \<and>
     (slots r \<noteq> [] \<longrightarrow>
        farthest_idx r < length (slots r) \<and>
        farthest_dist r = slot_f32 (slots r ! farthest_idx r) \<and>
        (\<forall>s \<in> set (slots r). slot_key s \<le> f32_key (farthest_dist r)))"

lemma recompute_farthest_ok:
  assumes "\<forall>s \<in> set (slots r). \<not> f32_is_nan (slot_f32 s)"
  shows "farthest_ok (recompute_farthest r)"
proof (cases "slots r")
  case Nil
  then show ?thesis by (simp add: farthest_ok_def)
next
  case (Cons s ss)
  obtain j e where je: "scan_farthest 1 0 (slot_f32 s) ss = (j, e)" by fastforce
  then have far: "farthest_dist (recompute_farthest r) = e"
    using Cons by (simp add: recompute_farthest_def)
  from scan_farthest_max [OF je] assms Cons
  have "\<forall>s \<in> set (slots r). slot_key s \<le> f32_key e" by auto
  with far recompute_farthest_idx [of r] assms Cons show ?thesis
    by (simp add: farthest_ok_def)
qed

lemma insert_slot_sorted_ok:
  assumes ok: "farthest_ok r" and s: "\<not> f32_is_nan (slot_f32 s)"
  shows "farthest_ok (insert_slot_sorted r s)"
proof -
  let ?i = "upper_bound_hash r (s_hash s)" and ?r = "insert_slot_sorted r s"
  let ?xs = "vec_insert ?i s (slots r)"
  have i: "?i \<le> length (slots r)"
    by (simp add: upper_bound_hash_def partition_point_le)
  have nonan: "\<forall>x \<in> set ?xs. \<not> f32_is_nan (slot_f32 x)"
    using ok s by (simp add: farthest_ok_def)
  consider (one) "slots r = []"
    | (far) "slots r \<noteq> []" "f32_le (farthest_dist r) (slot_f32 s)"
    | (near) "slots r \<noteq> []" "\<not> f32_le (farthest_dist r) (slot_f32 s)" by blast
  then show ?thesis
  proof cases
    case one
    then show ?thesis
      using s by (simp add: insert_slot_sorted_def farthest_ok_def vec_insert_def)
  next
    case far
    then have "?r = recompute_farthest (r\<lparr>slots := ?xs\<rparr>)"
      by (simp add: insert_slot_sorted_def Let_def)
    then show ?thesis using recompute_farthest_ok [of "r\<lparr>slots := ?xs\<rparr>"] nonan by simp
  next
    case near
    from near(1) ok have f: "farthest_idx r < length (slots r)"
        "farthest_dist r = slot_f32 (slots r ! farthest_idx r)"
        "\<forall>x \<in> set (slots r). slot_key x \<le> f32_key (farthest_dist r)"
      unfolding farthest_ok_def by blast+
    then have "\<not> f32_is_nan (farthest_dist r)" using ok by (simp add: farthest_ok_def)
    with near(2) s have less: "slot_key s < f32_key (farthest_dist r)"
      by (simp add: f32_le_def)
    have r: "?r = (if ?i \<le> farthest_idx r then r\<lparr>slots := ?xs, farthest_idx := farthest_idx r + 1\<rparr>
                   else r\<lparr>slots := ?xs\<rparr>)"
      using near by (simp add: insert_slot_sorted_def Let_def)
    show ?thesis
    proof (cases "?i \<le> farthest_idx r")
      case True
      with r f less nonan vec_insert_nth(3) [OF i True f(1)] show ?thesis
        by (simp add: farthest_ok_def)
    next
      case False
      with r f less nonan vec_insert_nth(1) [OF i, of "farthest_idx r"] show ?thesis
        by (simp add: farthest_ok_def)
    qed
  qed
qed

lemma replace_slot_sorted_ok:
  assumes "farthest_ok r" and "\<not> f32_is_nan (slot_f32 s)"
  shows "farthest_ok (replace_slot_sorted r pos s)"
  unfolding replace_slot_sorted_def Let_def
  using assms set_vec_remove_subset [of pos "slots r"]
  by (intro recompute_farthest_ok) (auto simp: farthest_ok_def)

lemma reservoir_insert_ok:
  assumes "reservoir_inv r" "farthest_ok r" "\<not> f32_is_nan d"
  shows "farthest_ok (reservoir_insert r t h d)"
  using assms(1)
proof (cases rule: reservoir_insert_cases [where t = t and h = h and d = d])
  case added
  then show ?thesis using assms by (simp add: insert_slot_sorted_ok bf16_trunc_not_nan)
next
  case (replaced pos)
  then show ?thesis using assms by (simp add: replace_slot_sorted_ok bf16_trunc_not_nan)
qed (use assms in simp)

lemma reservoir_new_ok: "reservoir_new n = Inr r \<Longrightarrow> farthest_ok r"
  by (auto simp: reservoir_new_def farthest_ok_def split: if_splits)

lemma insert_all_ok:
  "reservoir_inv r \<Longrightarrow> farthest_ok r \<Longrightarrow> \<forall>(t, h, d) \<in> set cs. \<not> f32_is_nan d \<Longrightarrow>
   farthest_ok (insert_all r cs)"
  by (induction r cs rule: insert_all.induct)
    (simp_all add: reservoir_insert_ok reservoir_insert_inv)

section \<open>What the reservoir keeps\<close>

lemma slot_f32_trunc: "bf16_trunc (slot_f32 s) = slot_f32 s"
proof (cases "s_dist s")
  case (BFloat16 b)
  then show ?thesis
    by (intro word_unat_eq_iff [THEN iffD2])
      (simp add: unat_bf16_trunc unat_bf16_to_f32 bf16_grid_def del: bf16_to_f32.simps)
qed

lemma mset_replace_slot_sorted:
  "pos < length (slots r) \<Longrightarrow>
   mset (slots (replace_slot_sorted r pos s)) = add_mset s (mset (slots r) - {#slots r ! pos#})"
  by (simp add: mset_vec_remove)

text \<open>
  One insertion: nothing changes, or the new slot is added below capacity, or it takes the
  place of one slot that is at least as far.
\<close>

lemma reservoir_insert_effect:
  assumes "reservoir_inv r" "farthest_ok r" "\<not> f32_is_nan d"
  shows "mset (slots (reservoir_insert r t h d)) = mset (slots r) \<or>
    (length (slots r) < l_max r \<and>
       mset (slots (reservoir_insert r t h d)) = add_mset (slot_new t h d) (mset (slots r))) \<or>
    (\<exists>old \<in> set (slots r).
       mset (slots (reservoir_insert r t h d)) =
         add_mset (slot_new t h d) (mset (slots r) - {#old#}) \<and>
       f32_lt d (slot_f32 old) \<and> f32_le (bf16_trunc d) (slot_f32 old))"
  using assms(1)
proof (cases rule: reservoir_insert_cases [where t = t and h = h and d = d])
  case (replaced pos)
  let ?old = "slots r ! pos"
  have lt: "f32_lt d (slot_f32 ?old)"
    using replaced(1,3) assms(2) by (auto simp: farthest_ok_def)
  have "f32_le (bf16_trunc d) (slot_f32 ?old)"
    using lt bf16_trunc_lt_le [of d "slot_f32 ?old"] bf16_trunc_not_nan [of d] slot_f32_trunc [of ?old]
    by (simp add: f32_cmp_defs)
  with lt replaced show ?thesis
    using mset_replace_slot_sorted [OF replaced(1), of "slot_new t h d"] nth_mem [OF replaced(1)]
    by (intro disjI2 bexI [of _ ?old]) simp_all
qed simp_all

lemma reservoir_insert_targets:
  assumes "reservoir_inv r"
  shows "s_target ` set (slots (reservoir_insert r t h d)) \<subseteq> insert t (s_target ` set (slots r))"
    and "length (slots r) \<le> length (slots (reservoir_insert r t h d))"
  using assms
  by (cases rule: reservoir_insert_cases [where t = t and h = h and d = d];
      use set_vec_remove_subset in fastforce)+

lemma reservoir_insert_hashes:
  assumes "reservoir_inv r"
  shows "s_hash ` set (slots (reservoir_insert r t h d)) \<subseteq> insert h (s_hash ` set (slots r))"
  using assms
  by (cases rule: reservoir_insert_cases [where t = t and h = h and d = d];
      use set_vec_remove_subset in fastforce)

lemma insert_all_targets:
  "reservoir_inv r \<Longrightarrow>
   s_target ` set (slots (insert_all r cs)) \<subseteq> s_target ` set (slots r) \<union> fst ` set cs"
proof (induction r cs rule: insert_all.induct)
  case (2 r t h d cs)
  from "2.IH" [OF reservoir_insert_inv [OF "2.prems"]]
    reservoir_insert_targets(1) [OF "2.prems", of t h d]
  show ?case by auto
qed simp

lemma insert_all_hashes:
  "reservoir_inv r \<Longrightarrow>
   s_hash ` set (slots (insert_all r cs)) \<subseteq> s_hash ` set (slots r) \<union> (fst \<circ> snd) ` set cs"
proof (induction r cs rule: insert_all.induct)
  case (2 r t h d cs)
  from "2.IH" [OF reservoir_insert_inv [OF "2.prems"]]
    reservoir_insert_hashes [OF "2.prems", of t h d]
  show ?case by auto
qed simp

section \<open>Equivalence with a nearest-neighbour reference\<close>

text \<open>
  Keeping the \<open>n\<close> smallest of a stream of keys, one key at a time, and the same on the sorted
  list of all keys.
\<close>

definition keep_nearest :: "nat \<Rightarrow> 'a::linorder \<Rightarrow> 'a multiset \<Rightarrow> 'a multiset" where
  "keep_nearest n k K =
     (if size K < n then add_mset k K
      else if k < Max_mset K then add_mset k (K - {#Max_mset K#}) else K)"

lemma take_insort_sorted:
  assumes "sorted xs" "m < length xs"
  shows "mset (take (Suc m) (insort k xs)) =
    (if k < xs ! m then add_mset k (mset (take m xs)) else mset (take (Suc m) xs))"
  using assms
proof (induction xs arbitrary: m)
  case (Cons x xs)
  show ?case
  proof (cases "k \<le> x")
    case True
    have "x \<le> (x # xs) ! m"
      using Cons.prems by (cases m) auto
    then have "\<not> k < (x # xs) ! m \<Longrightarrow> k = (x # xs) ! m" using True by simp
    moreover have "mset (take (Suc m) (x # xs)) = add_mset ((x # xs) ! m) (mset (take m (x # xs)))"
      using Cons.prems(2) by (simp only: take_Suc_conv_app_nth mset_append) simp
    ultimately show ?thesis using True by auto
  next
    case False
    then show ?thesis
      using Cons by (cases m) (auto simp: not_le)
  qed
qed simp

lemma Max_mset_take:
  assumes "sorted xs" "m < length xs"
  shows "Max_mset (mset (take (Suc m) xs)) = xs ! m"
proof (rule Max_eqI)
  show "xs ! m \<in> set_mset (mset (take (Suc m) xs))"
    using assms(2) by (auto simp: in_set_conv_nth intro!: exI [of _ m])
  show "y \<le> xs ! m" if "y \<in> set_mset (mset (take (Suc m) xs))" for y
    using that assms by (auto simp: in_set_conv_nth sorted_iff_nth_mono)
qed simp

lemma keep_nearest_take:
  assumes "sorted xs" "0 < n"
  shows "keep_nearest n k (mset (take n xs)) = mset (take n (insort k xs))"
proof (cases "length xs < n")
  case True
  then show ?thesis by (simp add: keep_nearest_def)
next
  case False
  then obtain m where m: "n = Suc m" "m < length xs" using assms(2) by (cases n) auto
  have split: "mset (take (Suc m) xs) = add_mset (xs ! m) (mset (take m xs))"
    using m(2) by (simp only: take_Suc_conv_app_nth mset_append) simp
  have "size (mset (take n xs)) = n" using m by simp
  then show ?thesis
    using take_insort_sorted [OF assms(1) m(2), of k] Max_mset_take [OF assms(1) m(2)] split m(1)
    by (simp add: keep_nearest_def)
qed

definition slot_keys :: "reservoir \<Rightarrow> int multiset" where
  "slot_keys r = image_mset (\<lambda>s. slot_key s) (mset (slots r))"

definition cand_key :: "candidate \<Rightarrow> int" where
  "cand_key c = f32_key (bf16_trunc (snd (snd c)))"

lemma Max_slot_keys:
  assumes "farthest_ok r" "slots r \<noteq> []"
  shows "Max_mset (slot_keys r) = f32_key (farthest_dist r)"
  using assms by (intro Max_eqI) (auto simp: slot_keys_def farthest_ok_def)

lemma lower_bound_hash_miss:
  assumes "h \<notin> s_hash ` set (slots r)"
  shows "\<not> (lower_bound_hash r h < length (slots r) \<and> s_hash (slots r ! lower_bound_hash r h) = h)"
proof
  assume hit: "lower_bound_hash r h < length (slots r) \<and> s_hash (slots r ! lower_bound_hash r h) = h"
  then have "slots r ! lower_bound_hash r h \<in> set (slots r)" by simp
  with hit assms show False by (metis image_eqI)
qed

lemma slot_keys_insert:
  assumes inv: "reservoir_inv r" and ok: "farthest_ok r" and d: "\<not> f32_is_nan d"
    and t: "t \<notin> s_target ` set (slots r)" and h: "h \<notin> s_hash ` set (slots r)"
  shows "slot_keys (reservoir_insert r t h d) =
    keep_nearest (l_max r) (f32_key (bf16_trunc d)) (slot_keys r)"
proof (cases "length (slots r) < l_max r")
  case True
  with t show ?thesis
    by (simp add: reservoir_insert_def target_position_None [symmetric] slot_keys_def
        keep_nearest_def del: mset_map)
next
  case False
  with inv have ne: "slots r \<noteq> []" and full: "length (slots r) = l_max r"
    by (auto simp: reservoir_inv_def)
  let ?i = "farthest_idx r" and ?far = "farthest_dist r" and ?k = "f32_key (bf16_trunc d)"
  from ok ne have i: "?i < length (slots r)" and far: "?far = slot_f32 (slots r ! ?i)"
      and nan: "\<not> f32_is_nan ?far"
    by (auto simp: farthest_ok_def)
  have grid: "bf16_trunc ?far = ?far" using far slot_f32_trunc by simp
  have step: "reservoir_insert r t h d =
      (if f32_lt d ?far then replace_slot_sorted r ?i (slot_new t h d) else r)"
    using t lower_bound_hash_miss [OF h] False
    by (auto simp: reservoir_insert_def target_position_None [symmetric] Let_def)
  have lt: "f32_lt d ?far \<longleftrightarrow> f32_key d < f32_key ?far" using d nan by (simp add: f32_lt_def)
  have max: "Max_mset (slot_keys r) = f32_key ?far" using ok ne by (rule Max_slot_keys)
  have mem: "f32_key ?far \<in># slot_keys r" using i far by (simp add: slot_keys_def)
  have size: "size (slot_keys r) = l_max r" using full by (simp add: slot_keys_def)
  have replaced: "slot_keys (replace_slot_sorted r ?i (slot_new t h d)) =
      add_mset ?k (slot_keys r - {#f32_key ?far#})"
    unfolding slot_keys_def mset_replace_slot_sorted [OF i]
    using i far by (simp add: image_mset_Diff)
  show ?thesis
  proof (cases "?k < f32_key ?far")
    case True
    then have "f32_key d < f32_key ?far" using bf16_trunc_lt [of d ?far] grid by simp
    with True show ?thesis using step lt replaced max size by (simp add: keep_nearest_def)
  next
    case no: False
    then have "f32_key d < f32_key ?far \<Longrightarrow> ?k = f32_key ?far"
      using bf16_trunc_lt_le [of d ?far] grid by simp
    with no show ?thesis using step lt replaced max size mem by (auto simp: keep_nearest_def)
  qed
qed

lemma insert_all_nearest_aux:
  assumes new: "reservoir_new n = Inr r"
  shows "distinct (map fst cs) \<Longrightarrow> distinct (map (fst \<circ> snd) cs) \<Longrightarrow>
    \<forall>c \<in> set cs. \<not> f32_is_nan (snd (snd c)) \<Longrightarrow>
    slot_keys (insert_all r cs) = mset (take n (sort (map cand_key cs)))"
proof (induction cs rule: rev_induct)
  case Nil
  from new show ?case by (auto simp: reservoir_new_def slot_keys_def split: if_splits)
next
  case (snoc c cs)
  obtain t h d where c: "c = (t, h, d)" by (cases c)
  let ?r = "insert_all r cs"
  have n: "0 < n" "l_max r = n" "slots r = []"
    using new by (auto simp: reservoir_new_def split: if_splits)
  have inv: "reservoir_inv ?r"
    by (rule insert_all_inv [OF reservoir_new_inv [OF new]])
  have ok: "farthest_ok ?r"
    using snoc.prems(3)
    by (intro insert_all_ok reservoir_new_inv [OF new] reservoir_new_ok [OF new]) auto
  have t: "t \<notin> s_target ` set (slots ?r)" and h: "h \<notin> s_hash ` set (slots ?r)"
    using insert_all_targets [OF reservoir_new_inv [OF new], of cs]
      insert_all_hashes [OF reservoir_new_inv [OF new], of cs] snoc.prems(1,2) n(3)
    by (auto simp: c)
  have "slot_keys (insert_all r (cs @ [c])) =
      keep_nearest n (cand_key c) (mset (take n (sort (map cand_key cs))))"
  proof -
    have "\<not> f32_is_nan d" "cand_key c = f32_key (bf16_trunc d)"
      using snoc.prems(3) by (simp_all add: c cand_key_def)
    then show ?thesis
      using slot_keys_insert [OF inv ok _ t h] snoc n by (simp add: insert_all_append c)
  qed
  also have "\<dots> = mset (take n (insort (cand_key c) (sort (map cand_key cs))))"
    using n(1) by (simp add: keep_nearest_take)
  also have "insort (cand_key c) (sort (map cand_key cs)) = sort (map cand_key (cs @ [c]))"
    by (rule properties_for_sort [symmetric]) (simp_all add: sorted_insort)
  finally show ?case .
qed


lemma reservoir_insert_present:
  assumes inv: "reservoir_inv r"
    and s: "slot_new t h d \<in> set (slots r)" and le: "f32_key (bf16_trunc d) \<le> f32_key d"
  shows "reservoir_insert r t h d = r"
proof -
  obtain pos where pos: "target_position r t = Some pos"
    using s target_position_None [of r t] by force
  from target_position_Some [OF pos] have p: "pos < length (slots r)" "s_target (slots r ! pos) = t"
    by auto
  obtain j where j: "j < length (slots r)" "slots r ! j = slot_new t h d"
    using s by (auto simp: in_set_conv_nth)
  then have "map s_target (slots r) ! pos = map s_target (slots r) ! j" using p by simp
  then have "pos = j"
    using reservoir_invD(4) [OF inv] p(1) j(1) nth_eq_iff_index_eq [of "map s_target (slots r)" pos j]
    by simp
  then show ?thesis
    using pos j(2) le by (simp add: reservoir_insert_def f32_lt_def)
qed

section \<open>Properties\<close>

text \<open>C35: Whatever candidates are inserted (NaN distances included), a reservoir created with
  capacity \<open>n\<close> never holds more than \<open>n\<close> slots, keeps them ordered by hash, holds each target
  at most once, and its cached index points into the vector.\<close>

theorem reservoir_stream_invariant:
  assumes "reservoir_new n = Inr r"
  shows "reservoir_inv (insert_all r cs) \<and> length (slots (insert_all r cs)) \<le> n"
proof -
  have inv: "reservoir_inv (insert_all r cs)"
    by (rule insert_all_inv [OF reservoir_new_inv [OF assms]])
  have "l_max r = n" using assms by (auto simp: reservoir_new_def split: if_splits)
  with inv reservoir_invD(2) [OF inv] show ?thesis by simp
qed

definition empty2 :: reservoir where
  "empty2 = \<lparr>l_max = 2, slots = [], farthest_idx = 0, farthest_dist = f32_zero\<rparr>"

text \<open>Three candidates on two hashes, with the distances 5, 3 and 4.\<close>

definition sample_cands :: "candidate list" where
  "sample_cands = [(10, 1, 0x40a00000), (11, 2, 0x40400000), (12, 2, 0x40800000)]"

theorem reservoir_stream_invariant_witness:
  "reservoir_new 2 = Inr empty2 \<and> reservoir_inv (insert_all empty2 sample_cands)"
  using reservoir_stream_invariant [of 2 empty2 sample_cands]
  by (simp add: reservoir_new_def empty2_def)

text \<open>For candidates whose distance is not NaN the cached farthest slot is exact: after any
  stream of insertions the cache names a slot of the vector, carries its distance, and no slot
  is farther.\<close>

theorem reservoir_cache_exact:
  assumes "reservoir_new n = Inr r" and "\<forall>(t, h, d) \<in> set cs. \<not> f32_is_nan d"
  shows "farthest_ok (insert_all r cs)"
  by (rule insert_all_ok [OF reservoir_new_inv [OF assms(1)] reservoir_new_ok [OF assms(1)] assms(2)])

theorem reservoir_cache_exact_witness:
  "farthest_ok (insert_all empty2 sample_cands)"
  by (rule reservoir_cache_exact [of 2])
    (simp_all add: reservoir_new_def empty2_def sample_cands_def f32_is_nan_def f32_mag_def)


definition distinct_cands :: "candidate list" where
  "distinct_cands = [(10, 1, 0x40a00000), (11, 2, 0x40400000), (12, 3, 0x40800000)]"


text \<open>
  Without collisions the kept slots are determined by the set of candidates: their keys are, and
  a key determines its candidate.
\<close>

abbreviation cand_slot :: "candidate \<Rightarrow> slot" where
  "cand_slot c \<equiv> slot_new (fst c) (fst (snd c)) (snd (snd c))"

lemma reservoir_insert_slots:
  assumes "reservoir_inv r"
  shows "set (slots (reservoir_insert r t h d)) \<subseteq> insert (slot_new t h d) (set (slots r))"
  using assms
  by (cases rule: reservoir_insert_cases [where t = t and h = h and d = d];
      use set_vec_remove_subset in fastforce)

lemma insert_all_slots:
  "reservoir_inv r \<Longrightarrow> set (slots (insert_all r cs)) \<subseteq> set (slots r) \<union> cand_slot ` set cs"
proof (induction r cs rule: insert_all.induct)
  case (2 r t h d cs)
  from "2.IH" [OF reservoir_insert_inv [OF "2.prems"]] reservoir_insert_slots [OF "2.prems", of t h d]
  show ?case by auto
qed simp

lemma slot_key_cand_slot: "slot_key (cand_slot c) = cand_key c"
  by (simp add: cand_key_def)

text \<open>\<open>distinct_stream\<close>: no two candidates share a target, a hash or a stored distance.\<close>

definition distinct_stream :: "candidate list \<Rightarrow> bool" where
  "distinct_stream cs \<longleftrightarrow> distinct (map fst cs) \<and> distinct (map (fst \<circ> snd) cs) \<and>
     distinct (map cand_key cs) \<and> (\<forall>c \<in> set cs. \<not> f32_is_nan (snd (snd c)))"

lemma distinct_map_perm: "mset cs = mset ds \<Longrightarrow> distinct (map f cs) = distinct (map f ds)"
  by (rule mset_eq_imp_distinct_iff) simp

lemma inj_on_image_member: "inj_on k A \<Longrightarrow> B \<subseteq> A \<Longrightarrow> B = {s \<in> A. k s \<in> k ` B}"
  by (auto simp: inj_on_def)

lemma distinct_stream_perm: "mset cs = mset ds \<Longrightarrow> distinct_stream cs \<Longrightarrow> distinct_stream ds"
  unfolding distinct_stream_def
  using distinct_map_perm [of cs ds fst] distinct_map_perm [of cs ds "fst \<circ> snd"]
    distinct_map_perm [of cs ds cand_key] mset_eq_setD [of cs ds] by blast

lemma insert_all_stream:
  assumes "reservoir_new n = Inr r" "distinct_stream cs"
  defines "ss \<equiv> slots (insert_all r cs)"
  shows "set ss = {s \<in> cand_slot ` set cs. slot_key s \<in> set (take n (sort (map cand_key cs)))}"
    "inj_on s_hash (cand_slot ` set cs)" "sorted (map s_hash ss)" "distinct (map s_hash ss)"
proof -
  have inv: "reservoir_inv (insert_all r cs)"
    by (rule insert_all_inv [OF reservoir_new_inv [OF assms(1)]])
  have "slots r = []" using assms(1) by (auto simp: reservoir_new_def split: if_splits)
  then have sub: "set ss \<subseteq> cand_slot ` set cs"
    using insert_all_slots [OF reservoir_new_inv [OF assms(1)], of cs] by (simp add: ss_def)
  have "slot_keys (insert_all r cs) = mset (take n (sort (map cand_key cs)))"
    using assms(2) by (intro insert_all_nearest_aux [OF assms(1)]) (simp_all add: distinct_stream_def)
  then have keys: "(\<lambda>s. slot_key s) ` set ss = set (take n (sort (map cand_key cs)))"
    unfolding slot_keys_def ss_def by (metis (no_types, lifting) set_image_mset set_mset_mset)
  have inj: "inj_on (\<lambda>s. slot_key s) (cand_slot ` set cs)"
    using assms(2) unfolding distinct_stream_def distinct_map inj_on_def
    by (auto simp del: slot_new_simps simp: slot_key_cand_slot)
  show "set ss = {s \<in> cand_slot ` set cs. slot_key s \<in> set (take n (sort (map cand_key cs)))}"
    using inj_on_image_member [OF inj sub] unfolding keys .
  show hash: "inj_on s_hash (cand_slot ` set cs)"
    using assms(2) by (auto simp: distinct_stream_def distinct_map inj_on_def)
  show "sorted (map s_hash ss)" using reservoir_invD(3) [OF inv] by (simp add: ss_def)
  have "distinct ss" using reservoir_invD(4) [OF inv] by (simp add: ss_def distinct_map)
  then show "distinct (map s_hash ss)" using hash sub by (simp add: distinct_map inj_on_subset)
qed

lemma insert_all_order:
  assumes "reservoir_new n = Inr r" "distinct_stream cs" "mset cs = mset ds"
  shows "slots (insert_all r cs) = slots (insert_all r ds)"
proof -
  note c = insert_all_stream [OF assms(1,2)]
  note d = insert_all_stream [OF assms(1) distinct_stream_perm [OF assms(3,2)]]
  have "set cs = set ds" using assms(3) by (metis set_mset_mset)
  moreover have "sort (map cand_key cs) = sort (map cand_key ds)"
    by (rule properties_for_sort) (simp_all add: assms(3))
  ultimately have "set (slots (insert_all r cs)) = set (slots (insert_all r ds))"
    using c(1) d(1) by simp
  moreover have "inj_on s_hash (set (slots (insert_all r cs)) \<union> set (slots (insert_all r ds)))"
    using c(1,2) d(1) \<open>set cs = set ds\<close> by (auto intro: inj_on_subset)
  ultimately show ?thesis using c(3,4) d(3,4) by (intro map_sorted_distinct_set_unique) auto
qed

text \<open>If no two candidates share a target, a hash or a stored distance, the order in which the
  candidates arrive does not matter: the reservoir ends with the same slots and so returns the
  same neighbours. (With hash collisions it can matter.)\<close>

theorem reservoir_order_independent:
  assumes "reservoir_new n = Inr r" "distinct_stream cs" "mset cs = mset ds"
  shows "slots (insert_all r cs) = slots (insert_all r ds) \<and>
    into_neighbors (insert_all r cs) = into_neighbors (insert_all r ds)"
  using insert_all_order [OF assms] by (simp add: into_neighbors_def)

lemma distinct_stream_sample: "distinct_stream distinct_cands" by code_simp

theorem reservoir_order_independent_witness:
  "slots (insert_all empty2 distinct_cands) = slots (insert_all empty2 (rev distinct_cands)) \<and>
    into_neighbors (insert_all empty2 distinct_cands) =
    into_neighbors (insert_all empty2 (rev distinct_cands))"
  by (rule reservoir_order_independent [of 2])
    (simp_all add: reservoir_new_def empty2_def distinct_stream_sample)

text \<open>One insertion of a non-NaN candidate leaves the slots as they are, or adds the new slot
  while there is room, or puts it in the place of one slot that is strictly farther than the
  candidate and not nearer than its stored distance.\<close>

theorem reservoir_insert_changes_one_slot:
  assumes "reservoir_inv r" "farthest_ok r" "\<not> f32_is_nan d"
  shows "mset (slots (reservoir_insert r t h d)) = mset (slots r) \<or>
    (length (slots r) < l_max r \<and>
       mset (slots (reservoir_insert r t h d)) = add_mset (slot_new t h d) (mset (slots r))) \<or>
    (\<exists>old \<in> set (slots r).
       mset (slots (reservoir_insert r t h d)) =
         add_mset (slot_new t h d) (mset (slots r) - {#old#}) \<and>
       f32_lt d (slot_f32 old) \<and> f32_le (bf16_trunc d) (slot_f32 old))"
  using assms by (rule reservoir_insert_effect)

theorem reservoir_insert_changes_one_slot_witness:
  "mset (slots (reservoir_insert empty2 7 3 0x40a00000)) = mset (slots empty2) \<or>
   length (slots empty2) < l_max empty2 \<and>
     mset (slots (reservoir_insert empty2 7 3 0x40a00000)) =
       add_mset (slot_new 7 3 0x40a00000) (mset (slots empty2)) \<or>
   (\<exists>old \<in> set (slots empty2).
     mset (slots (reservoir_insert empty2 7 3 0x40a00000)) =
       add_mset (slot_new 7 3 0x40a00000) (mset (slots empty2) - {#old#}) \<and>
     f32_lt 0x40a00000 (slot_f32 old) \<and> f32_le (bf16_trunc 0x40a00000) (slot_f32 old))"
  by (rule reservoir_insert_changes_one_slot)
    (simp_all add: empty2_def reservoir_inv_def farthest_ok_def f32_is_nan_def f32_mag_def)

text \<open>Inserting the same candidate a second time changes nothing when its distance is not
  negative (a stored distance is then not larger than the exact one).\<close>

theorem reservoir_insert_idempotent:
  assumes "reservoir_inv r" "\<not> f32_sign d"
  shows "reservoir_insert (reservoir_insert r t h d) t h d = reservoir_insert r t h d"
  using assms(1)
proof (cases rule: reservoir_insert_cases [where t = t and h = h and d = d])
  case unchanged
  then show ?thesis by simp
next
  case added
  then show ?thesis
    using reservoir_insert_present [OF reservoir_insert_inv [OF assms(1)], of t h d t h d]
      bf16_grid_le [of "f32_mag d"] assms(2)
    by (simp add: bf16_trunc_mag f32_key_def)
next
  case (replaced pos)
  then show ?thesis
    using reservoir_insert_present [OF reservoir_insert_inv [OF assms(1)], of t h d t h d]
      bf16_grid_le [of "f32_mag d"] assms(2)
    by (simp add: bf16_trunc_mag f32_key_def)
qed

theorem reservoir_insert_idempotent_witness:
  "reservoir_insert (reservoir_insert empty2 7 3 0x40a00000) 7 3 0x40a00000 =
   reservoir_insert empty2 7 3 0x40a00000"
  by (rule reservoir_insert_idempotent)
    (simp_all add: empty2_def reservoir_inv_def f32_sign_def)


end
