(* ===== verification/Edges.thy ===== *)
theory Edges
  imports HashPrune
begin

unbundle bit_operations_syntax

text \<open>
  The candidate edges that leaf construction hands to a \<open>PendingEdgeSink\<close>
  (\<^verbatim>\<open>ForgeANN/src/forgeann/leaf_build.rs\<close>), the sink that feeds them straight into the
  points' reservoirs, and the 16-byte spill record of \<^verbatim>\<open>spill_hashprune.rs\<close> with its
  conversions.
\<close>

section \<open>Pending edges\<close>

record pending_edge =
  e_p :: usize
  e_c :: u32
  e_hash :: u16
  e_dist :: f32
  e_mandatory :: bool
  e_local_rank :: u8
  e_flags :: u8

definition PENDING_EDGE_DIRECT :: u8 where
  "PENDING_EDGE_DIRECT = 1"

definition PENDING_EDGE_MIRROR :: u8 where
  "PENDING_EDGE_MIRROR = push_bit 1 1"

text \<open>What the reservoir of the edge's source is given.\<close>

definition edge_cand :: "pending_edge \<Rightarrow> candidate" where
  "edge_cand e = (e_c e, e_hash e, e_dist e)"

text \<open>
  \<open>flush_pending_edges_to_reservoirs\<close>: the edges are sorted by source, then each run of equal
  sources is inserted under that point's lock. An out-of-range source panics.
\<close>

fun insert_edges :: "reservoir list \<Rightarrow> pending_edge list \<Rightarrow> reservoir list result" where
  "insert_edges rs [] = Inr rs"
| "insert_edges rs (e # es) =
     (if e_p e < length rs
      then insert_edges
             (rs[e_p e := reservoir_insert (rs ! e_p e) (e_c e) (e_hash e) (e_dist e)]) es
      else Inl (Panic ''reservoir index out of range''))"

definition flush_pending_edges_to_reservoirs ::
  "((pending_edge \<Rightarrow> usize) \<Rightarrow> pending_edge list \<Rightarrow> pending_edge list) \<Rightarrow>
   pending_edge list \<Rightarrow> reservoir list \<Rightarrow> reservoir list result" where
  "flush_pending_edges_to_reservoirs srt edges rs =
     (if edges = [] then Inr rs else insert_edges rs (srt e_p edges))"

text \<open>The candidates a list of edges carries for one point, in order.\<close>

definition cands_for :: "nat \<Rightarrow> pending_edge list \<Rightarrow> candidate list" where
  "cands_for p es = map edge_cand (filter (\<lambda>e. e_p e = p) es)"

lemma cands_for_simps [simp]:
  "cands_for p [] = []"
  "cands_for p (e # es) = (if e_p e = p then edge_cand e # cands_for p es else cands_for p es)"
  "cands_for p (es @ fs) = cands_for p es @ cands_for p fs"
  by (simp_all add: cands_for_def)

lemma mset_cands_for: "mset es = mset fs \<Longrightarrow> mset (cands_for p es) = mset (cands_for p fs)"
  unfolding cands_for_def by (metis mset_filter mset_map)

lemma insert_edges_ok:
  assumes "\<forall>e \<in> set es. e_p e < length rs"
  shows "insert_edges rs es =
    Inr (map (\<lambda>p. insert_all (rs ! p) (cands_for p es)) [0..<length rs])"
  using assms
proof (induction es arbitrary: rs)
  case Nil
  then show ?case by (simp add: map_nth)
next
  case (Cons e es)
  let ?rs = "rs[e_p e := reservoir_insert (rs ! e_p e) (e_c e) (e_hash e) (e_dist e)]"
  have "insert_edges rs (e # es) = insert_edges ?rs es" using Cons.prems by simp
  also have "\<dots> = Inr (map (\<lambda>p. insert_all (?rs ! p) (cands_for p es)) [0..<length ?rs])"
    using Cons.prems by (intro Cons.IH) simp
  also have "map (\<lambda>p. insert_all (?rs ! p) (cands_for p es)) [0..<length ?rs] =
      map (\<lambda>p. insert_all (rs ! p) (cands_for p (e # es))) [0..<length rs]"
    using Cons.prems by (auto simp: nth_list_update edge_cand_def)
  finally show ?case .
qed

section \<open>Spill records\<close>

definition SPILL_FLAG_MANDATORY :: u16 where
  "SPILL_FLAG_MANDATORY = push_bit 0 1"

record spill_record =
  sr_src :: u32
  sr_dst :: u32
  sr_hash :: u16
  sr_flags :: u16
  sr_dist :: f32

definition edge_record :: "pending_edge \<Rightarrow> spill_record" where
  "edge_record e =
     \<lparr>sr_src = word_of_nat (e_p e), sr_dst = e_c e, sr_hash = e_hash e,
      sr_flags = (if e_mandatory e then SPILL_FLAG_MANDATORY else 0), sr_dist = e_dist e\<rparr>"

definition from_pending_edge :: "pending_edge \<Rightarrow> spill_record result" where
  "from_pending_edge e =
     (if e_p e < 2 ^ 32 then Inr (edge_record e)
      else Inl (Err (Index ''Spill writer only supports u32 source ids'')))"

definition to_pending_edge :: "spill_record \<Rightarrow> pending_edge" where
  "to_pending_edge r =
     \<lparr>e_p = unat (sr_src r), e_c = sr_dst r, e_hash = sr_hash r, e_dist = sr_dist r,
      e_mandatory = (sr_flags r AND SPILL_FLAG_MANDATORY \<noteq> 0),
      e_local_rank = 1, e_flags = PENDING_EDGE_DIRECT\<rparr>"

lemma to_pending_edge_simps [simp]:
  "e_p (to_pending_edge r) = unat (sr_src r)"
  "e_c (to_pending_edge r) = sr_dst r"
  "e_hash (to_pending_edge r) = sr_hash r"
  "e_dist (to_pending_edge r) = sr_dist r"
  "edge_cand (to_pending_edge r) = (sr_dst r, sr_hash r, sr_dist r)"
  by (simp_all add: to_pending_edge_def edge_cand_def)

lemma edge_record_src: "e_p e < 2 ^ 32 \<Longrightarrow> unat (sr_src (edge_record e)) = e_p e"
  using unat_word_of_nat_u32 [of "e_p e"] by (simp add: edge_record_def)

lemma edge_record_cand [simp]: "edge_cand (to_pending_edge (edge_record e)) = edge_cand e"
  by (simp add: edge_cand_def edge_record_def)

text \<open>A spilled edge comes back with its source, target, hash, distance and mandatory flag;
  its rank and flags are reset to 1 and \<open>PENDING_EDGE_DIRECT\<close>, whatever they were.\<close>

theorem spill_record_roundtrip:
  assumes "from_pending_edge e = Inr r"
  shows "to_pending_edge r = e\<lparr>e_local_rank := 1, e_flags := PENDING_EDGE_DIRECT\<rparr>"
  using assms unat_word_of_nat_u32 [of "e_p e"]
  by (auto simp: from_pending_edge_def edge_record_def to_pending_edge_def SPILL_FLAG_MANDATORY_def
      split: if_splits)

theorem spill_record_roundtrip_witness:
  "to_pending_edge \<lparr>sr_src = 9, sr_dst = 4, sr_hash = 2, sr_flags = 1, sr_dist = 0x40a00000\<rparr> =
   \<lparr>e_p = 9, e_c = 4, e_hash = 2, e_dist = 0x40a00000, e_mandatory = True, e_local_rank = 3,
    e_flags = 2\<rparr>\<lparr>e_local_rank := 1, e_flags := PENDING_EDGE_DIRECT\<rparr>"
  by (rule spill_record_roundtrip) (simp add: from_pending_edge_def edge_record_def SPILL_FLAG_MANDATORY_def)

text \<open>Flushing a batch of edges into the reservoirs feeds every point exactly the candidates
  of its own edges (in the order the sort leaves them) and no other point's; it succeeds whenever
  all sources are in range.\<close>

theorem flush_to_reservoirs_per_point:
  assumes "unstable_sort srt" and "\<forall>e \<in> set edges. e_p e < length rs"
  shows "\<exists>es. mset es = mset edges \<and>
    flush_pending_edges_to_reservoirs srt edges rs =
      Inr (map (\<lambda>p. insert_all (rs ! p) (cands_for p es)) [0..<length rs])"
proof (cases "edges = []")
  case True
  then show ?thesis by (simp add: flush_pending_edges_to_reservoirs_def map_nth)
next
  case False
  have m: "mset (srt e_p edges) = mset edges" by (rule unstable_sortD(1) [OF assms(1)])
  then have "\<forall>e \<in> set (srt e_p edges). e_p e < length rs"
    using assms(2) by (metis set_mset_mset)
  with m False show ?thesis
    by (intro exI [of _ "srt e_p edges"])
      (simp add: flush_pending_edges_to_reservoirs_def insert_edges_ok)
qed

theorem flush_to_reservoirs_per_point_witness:
  "\<exists>es. mset es = mset [\<lparr>e_p = 1, e_c = 4, e_hash = 2, e_dist = 0x40a00000, e_mandatory = False,
      e_local_rank = 1, e_flags = 1\<rparr>] \<and>
    flush_pending_edges_to_reservoirs sort_key
      [\<lparr>e_p = 1, e_c = 4, e_hash = 2, e_dist = 0x40a00000, e_mandatory = False,
        e_local_rank = 1, e_flags = 1\<rparr>] [empty2, empty2] =
      Inr (map (\<lambda>p. insert_all ([empty2, empty2] ! p) (cands_for p es)) [0..<length [empty2, empty2]])"
  by (rule flush_to_reservoirs_per_point) (simp_all add: unstable_sort_sort_key)

end
