(* ===== verification/SpillMem.thy ===== *)
theory SpillMem
  imports Edges "HOL-Library.Product_Lexorder"
begin

text \<open>
  The in-memory spill path of \<^verbatim>\<open>ForgeANN/src/forgeann/spill_hashprune.rs\<close>:
  \<open>InMemorySpillEdgeSink\<close> groups candidate edges by shard, buffers them and turns full buffers
  into sorted segments; \<open>reduce_in_memory_segments_sharded_in_order_from\<close> replays the segments
  shard by shard into reservoirs and hands every point's neighbours to a callback in point order.

  A \<open>HashMap\<close> is an association list with distinct keys; the order in which \<open>keys()\<close> yields
  them is the parameter \<open>hm_order\<close>, of which only that it permutes the keys is used. The
  unstable sorts are the fields of a record of sorting functions.
\<close>

section \<open>State\<close>

record segment =
  sg_shard_id :: usize
  sg_records :: "spill_record list"
  sg_src_min :: u32
  sg_src_max :: u32

record sorts =
  by_edge_p :: "(pending_edge \<Rightarrow> usize) \<Rightarrow> pending_edge list \<Rightarrow> pending_edge list"
  by_record_src :: "(spill_record \<Rightarrow> u32) \<Rightarrow> spill_record list \<Rightarrow> spill_record list"
  by_shard_min :: "(segment \<Rightarrow> usize \<times> u32) \<Rightarrow> segment list \<Rightarrow> segment list"
  by_min_max :: "(segment \<Rightarrow> u32 \<times> u32) \<Rightarrow> segment list \<Rightarrow> segment list"

definition sorts_ok :: "sorts \<Rightarrow> bool" where
  "sorts_ok S \<longleftrightarrow> unstable_sort (by_edge_p S) \<and> unstable_sort (by_record_src S) \<and>
     unstable_sort (by_shard_min S) \<and> unstable_sort (by_min_max S)"

definition stable_sorts :: sorts where
  "stable_sorts = \<lparr>by_edge_p = sort_key, by_record_src = sort_key,
     by_shard_min = sort_key, by_min_max = sort_key\<rparr>"

lemma stable_sorts_ok: "sorts_ok stable_sorts"
  by (simp add: sorts_ok_def stable_sorts_def unstable_sort_sort_key)

record spill_state =
  st_shard_points :: usize
  st_buffers :: "(usize \<times> spill_record list) list"
  st_segments :: "segment list"

record spill_sink =
  sk_shard_points :: usize
  sk_flush_threshold :: usize

definition DEFAULT_SPILL_CACHE_BYTES :: usize where
  "DEFAULT_SPILL_CACHE_BYTES = 64 * 1024 * 1024"

definition RUN_RECORD_BYTES :: usize where
  "RUN_RECORD_BYTES = 16"

definition effective_spill_cache_bytes :: "usize \<Rightarrow> usize" where
  "effective_spill_cache_bytes n = (if n = 0 then DEFAULT_SPILL_CACHE_BYTES else n)"

definition mem_create_sharded :: "usize \<Rightarrow> usize \<Rightarrow> spill_sink \<times> spill_state" where
  "mem_create_sharded spill_cache_bytes shard_points =
     (let bytes = effective_spill_cache_bytes spill_cache_bytes;
          threshold = min (max (bytes div max RUN_RECORD_BYTES 1) 1) 1000000;
          sp = max shard_points 1
      in (\<lparr>sk_shard_points = sp, sk_flush_threshold = threshold\<rparr>,
          \<lparr>st_shard_points = sp, st_buffers = [], st_segments = []\<rparr>))"

section \<open>The sink\<close>

text \<open>\<open>HashMap::entry(k).or_insert_with(Vec::new)\<close> followed by \<open>extend\<close>.\<close>

fun buffer_extend :: "usize \<Rightarrow> 'a list \<Rightarrow> (usize \<times> 'a list) list \<Rightarrow> (usize \<times> 'a list) list" where
  "buffer_extend k rs [] = [(k, rs)]"
| "buffer_extend k rs ((k', b) # bs) =
     (if k = k' then (k', b @ rs) # bs else (k', b) # buffer_extend k rs bs)"

fun buffer_clear :: "usize \<Rightarrow> (usize \<times> 'a list) list \<Rightarrow> (usize \<times> 'a list) list" where
  "buffer_clear k [] = []"
| "buffer_clear k ((k', b) # bs) = (if k = k' then (k', []) # bs else (k', b) # buffer_clear k bs)"

text \<open>
  \<open>encode_spill_records_by_shard\<close>: edges sorted by source are cut into runs of one shard; a
  run is extended as long as the last group has the same shard.
\<close>

definition push_group :: "usize \<Rightarrow> spill_record \<Rightarrow> (usize \<times> spill_record list) list \<Rightarrow>
    (usize \<times> spill_record list) list" where
  "push_group shard r groups =
     (if groups = [] \<or> fst (last groups) \<noteq> shard then groups @ [(shard, [r])]
      else butlast groups @ [(shard, snd (last groups) @ [r])])"

fun encode_groups :: "usize \<Rightarrow> (usize \<times> spill_record list) list \<Rightarrow> pending_edge list \<Rightarrow>
    (usize \<times> spill_record list) list result" where
  "encode_groups sp groups [] = Inr groups"
| "encode_groups sp groups (e # es) =
     res_bind (from_pending_edge e)
       (\<lambda>r. encode_groups sp (push_group (e_p e div sp) r groups) es)"

definition encode_spill_records_by_shard ::
  "sorts \<Rightarrow> pending_edge list \<Rightarrow> usize \<Rightarrow> (usize \<times> spill_record list) list result" where
  "encode_spill_records_by_shard S edges shard_points =
     (if edges = [] then Inr []
      else encode_groups (max shard_points 1) [] (by_edge_p S e_p edges))"

definition flush_memory_shard :: "sorts \<Rightarrow> spill_state \<Rightarrow> usize \<Rightarrow> spill_state" where
  "flush_memory_shard S st shard =
     (case map_of (st_buffers st) shard of
        None \<Rightarrow> st
      | Some buffer \<Rightarrow>
          if buffer = [] then st
          else
            (let records = by_record_src S sr_src buffer
             in st\<lparr>st_buffers := buffer_clear shard (st_buffers st),
                   st_segments := st_segments st @
                     [\<lparr>sg_shard_id = shard, sg_records = records,
                       sg_src_min = sr_src (hd records), sg_src_max = sr_src (last records)\<rparr>]\<rparr>))"

fun buffer_groups :: "sorts \<Rightarrow> usize \<Rightarrow> spill_state \<Rightarrow> (usize \<times> spill_record list) list \<Rightarrow> spill_state" where
  "buffer_groups S threshold st [] = st"
| "buffer_groups S threshold st ((shard, records) # gs) =
     (let st1 = st\<lparr>st_buffers := buffer_extend shard records (st_buffers st)\<rparr>;
          st2 = (if threshold \<le> length (the (map_of (st_buffers st1) shard))
                 then flush_memory_shard S st1 shard else st1)
      in buffer_groups S threshold st2 gs)"

definition mem_flush_pending_edges ::
  "sorts \<Rightarrow> spill_sink \<Rightarrow> pending_edge list \<Rightarrow> spill_state \<Rightarrow> spill_state result" where
  "mem_flush_pending_edges S sink edges st =
     (if edges = [] then Inr st
      else res_bind (encode_spill_records_by_shard S edges (sk_shard_points sink))
             (\<lambda>groups. Inr (buffer_groups S (sk_flush_threshold sink) st groups)))"

definition flush_all_memory_buffers ::
  "sorts \<Rightarrow> (usize list \<Rightarrow> usize list) \<Rightarrow> spill_state \<Rightarrow> spill_state" where
  "flush_all_memory_buffers S hm_order st =
     foldl (flush_memory_shard S) st (hm_order (map fst (st_buffers st)))"

text \<open>\<open>finish\<close> hands out the shard size and the segments.\<close>

definition mem_finish ::
  "sorts \<Rightarrow> (usize list \<Rightarrow> usize list) \<Rightarrow> spill_state \<Rightarrow> usize \<times> segment list" where
  "mem_finish S hm_order st =
     (let st' = flush_all_memory_buffers S hm_order st
      in (st_shard_points st', st_segments st'))"

section \<open>What the sink holds\<close>

text \<open>The records held by buffers and segments, and the well-formedness of the state.\<close>

definition buffered :: "(usize \<times> 'a list) list \<Rightarrow> 'a multiset" where
  "buffered bs = mset (concat (map snd bs))"

definition segmented :: "segment list \<Rightarrow> spill_record multiset" where
  "segmented gs = mset (concat (map sg_records gs))"

definition held :: "spill_state \<Rightarrow> spill_record multiset" where
  "held st = buffered (st_buffers st) + segmented (st_segments st)"

definition segment_ok :: "usize \<Rightarrow> segment \<Rightarrow> bool" where
  [inv_defs]: "segment_ok sp g \<longleftrightarrow>
     sg_records g \<noteq> [] \<and> sorted (map sr_src (sg_records g)) \<and>
     sg_src_min g = sr_src (hd (sg_records g)) \<and> sg_src_max g = sr_src (last (sg_records g)) \<and>
     (\<forall>r \<in> set (sg_records g). unat (sr_src r) div sp = sg_shard_id g)"

definition spill_inv :: "spill_state \<Rightarrow> bool" where
  [inv_defs]: "spill_inv st \<longleftrightarrow>
     0 < st_shard_points st \<and> distinct (map fst (st_buffers st)) \<and>
     (\<forall>(k, b) \<in> set (st_buffers st). \<forall>r \<in> set b. unat (sr_src r) div st_shard_points st = k) \<and>
     (\<forall>g \<in> set (st_segments st). segment_ok (st_shard_points st) g)"

lemma buffered_simps [simp]:
  "buffered [] = {#}"
  "buffered ((k, b) # bs) = mset b + buffered bs"
  "buffered (bs @ cs) = buffered bs + buffered cs"
  by (simp_all add: buffered_def)

lemma segmented_simps [simp]:
  "segmented [] = {#}"
  "segmented (g # gs) = mset (sg_records g) + segmented gs"
  "segmented (gs @ hs) = segmented gs + segmented hs"
  by (simp_all add: segmented_def)

lemma buffer_extend_held [simp]: "buffered (buffer_extend k rs bs) = buffered bs + mset rs"
  by (induction k rs bs rule: buffer_extend.induct) auto

lemma fst_buffer_extend: "fst ` set (buffer_extend k rs bs) = insert k (fst ` set bs)"
  by (induction k rs bs rule: buffer_extend.induct) auto

lemma distinct_buffer_extend:
  "distinct (map fst bs) \<Longrightarrow> distinct (map fst (buffer_extend k rs bs))"
  by (induction k rs bs rule: buffer_extend.induct) (auto simp: fst_buffer_extend)

lemma set_buffer_extend:
  "(k', b') \<in> set (buffer_extend k rs bs) \<Longrightarrow> r \<in> set b' \<Longrightarrow>
   (k' = k \<and> r \<in> set rs) \<or> (\<exists>b. (k', b) \<in> set bs \<and> r \<in> set b)"
  by (induction k rs bs rule: buffer_extend.induct) (auto split: if_splits)

lemma map_fst_buffer_clear [simp]: "map fst (buffer_clear k bs) = map fst bs"
  by (induction k bs rule: buffer_clear.induct) auto

lemma set_buffer_clear:
  "(k', b') \<in> set (buffer_clear k bs) \<Longrightarrow> b' = [] \<or> (k', b') \<in> set bs"
  by (induction k bs rule: buffer_clear.induct) (auto split: if_splits)

lemma buffer_clear_held:
  "map_of bs k = Some b \<Longrightarrow> buffered bs = mset b + buffered (buffer_clear k bs)"
  by (induction k bs rule: buffer_clear.induct) (auto split: if_splits)

lemma map_of_buffer_clear:
  "map_of (buffer_clear k bs) k' =
     (if k' = k \<and> map_of bs k \<noteq> None then Some [] else map_of bs k')"
  by (induction k bs rule: buffer_clear.induct) auto

lemma flush_memory_shard_frame [simp]:
  "st_shard_points (flush_memory_shard S st k) = st_shard_points st"
  "map fst (st_buffers (flush_memory_shard S st k)) = map fst (st_buffers st)"
  by (simp_all add: flush_memory_shard_def Let_def split: option.splits)

lemma flush_memory_shard_held:
  assumes "sorts_ok S"
  shows "held (flush_memory_shard S st k) = held st"
proof -
  have "mset (by_record_src S sr_src b) = mset b" for b
    using assms by (auto simp: sorts_ok_def dest: unstable_sortD)
  then show ?thesis
    by (auto simp: flush_memory_shard_def held_def Let_def buffer_clear_held split: option.splits)
qed

lemma sorted_segment_ok:
  assumes "sorts_ok S" "b \<noteq> []" "\<forall>r \<in> set b. unat (sr_src r) div sp = k"
  shows "segment_ok sp \<lparr>sg_shard_id = k, sg_records = by_record_src S sr_src b,
    sg_src_min = sr_src (hd (by_record_src S sr_src b)),
    sg_src_max = sr_src (last (by_record_src S sr_src b))\<rparr>"
proof -
  from assms(1) have m: "mset (by_record_src S sr_src b) = mset b"
    and s: "sorted (map sr_src (by_record_src S sr_src b))"
    by (auto simp: sorts_ok_def dest: unstable_sortD)
  from m have "set (by_record_src S sr_src b) = set b" by (metis set_mset_mset)
  moreover from m assms(2) have "by_record_src S sr_src b \<noteq> []" by auto
  ultimately show ?thesis using s assms(3) by (simp add: segment_ok_def)
qed

lemma flush_memory_shard_inv:
  assumes "sorts_ok S" "spill_inv st"
  shows "spill_inv (flush_memory_shard S st k)"
proof (cases "map_of (st_buffers st) k")
  case None
  then show ?thesis using assms(2) by (simp add: flush_memory_shard_def)
next
  case (Some b)
  show ?thesis
  proof (cases "b = []")
    case True
    with Some show ?thesis using assms(2) by (simp add: flush_memory_shard_def)
  next
    case False
    have "(k, b) \<in> set (st_buffers st)" using Some by (rule map_of_SomeD)
    then have "\<forall>r \<in> set b. unat (sr_src r) div st_shard_points st = k"
      using assms(2) by (fastforce simp: spill_inv_def)
    from sorted_segment_ok [OF assms(1) False this] Some False assms(2) show ?thesis
      by (fastforce simp: flush_memory_shard_def spill_inv_def Let_def dest: set_buffer_clear)
  qed
qed


lemma push_group_held: "buffered (push_group k r gs) = buffered gs + {#r#}"
proof (cases "gs = [] \<or> fst (last gs) \<noteq> k")
  case True
  then show ?thesis by (simp add: push_group_def)
next
  case False
  then have gs: "gs = butlast gs @ [(k, snd (last gs))]"
    by (cases gs rule: rev_cases) auto
  have "buffered gs = buffered (butlast gs) + mset (snd (last gs))"
    using arg_cong [OF gs, of buffered] by simp
  with False show ?thesis by (simp add: push_group_def)
qed

lemma push_group_shard:
  assumes "\<forall>(k, b) \<in> set gs. \<forall>r \<in> set b. unat (sr_src r) div sp = k"
    and "unat (sr_src r) div sp = k"
  shows "\<forall>(k, b) \<in> set (push_group k r gs). \<forall>r \<in> set b. unat (sr_src r) div sp = k"
proof (cases "gs = [] \<or> fst (last gs) \<noteq> k")
  case True
  with assms show ?thesis by (auto simp: push_group_def)
next
  case False
  then have "(k, snd (last gs)) \<in> set gs" by (cases gs rule: rev_cases) auto
  with False assms show ?thesis
    by (auto simp: push_group_def dest: in_set_butlastD)
qed

lemma encode_groups_ok:
  assumes "\<forall>e \<in> set es. e_p e < 2 ^ 32"
    and "\<forall>(k, b) \<in> set gs. \<forall>r \<in> set b. unat (sr_src r) div sp = k"
  shows "\<exists>gs'. encode_groups sp gs es = Inr gs' \<and>
    buffered gs' = buffered gs + mset (map edge_record es) \<and>
    (\<forall>(k, b) \<in> set gs'. \<forall>r \<in> set b. unat (sr_src r) div sp = k)"
  using assms
proof (induction sp gs es rule: encode_groups.induct)
  case (2 sp groups e es)
  let ?gs = "push_group (e_p e div sp) (edge_record e) groups"
  have p: "e_p e < 2 ^ 32" using "2.prems"(1) by simp
  have step: "encode_groups sp groups (e # es) = encode_groups sp ?gs es"
    using p by (simp add: from_pending_edge_def)
  have ok: "\<forall>(k, b) \<in> set ?gs. \<forall>r \<in> set b. unat (sr_src r) div sp = k"
    using p "2.prems"(2) by (intro push_group_shard) (simp_all add: edge_record_src)
  have "from_pending_edge e = Inr (edge_record e)" using p by (simp add: from_pending_edge_def)
  from "2.IH" [OF this _ ok] "2.prems"(1) obtain gs' where
    "encode_groups sp ?gs es = Inr gs'"
    "buffered gs' = buffered ?gs + mset (map edge_record es)"
    "\<forall>(k, b) \<in> set gs'. \<forall>r \<in> set b. unat (sr_src r) div sp = k" by auto
  with step show ?case by (simp add: push_group_held)
qed simp

lemma buffer_groups_ok:
  assumes "sorts_ok S" "spill_inv st"
    and "\<forall>(k, b) \<in> set gs. \<forall>r \<in> set b. unat (sr_src r) div st_shard_points st = k"
  shows "spill_inv (buffer_groups S n st gs) \<and>
    held (buffer_groups S n st gs) = held st + buffered gs \<and>
    st_shard_points (buffer_groups S n st gs) = st_shard_points st"
  using assms
proof (induction gs arbitrary: st)
  case (Cons g gs)
  obtain k rs where g: "g = (k, rs)" by (cases g)
  let ?st1 = "st\<lparr>st_buffers := buffer_extend k rs (st_buffers st)\<rparr>"
  let ?st2 = "if n \<le> length (the (map_of (st_buffers ?st1) k))
              then flush_memory_shard S ?st1 k else ?st1"
  have inv1: "spill_inv ?st1"
    using Cons.prems by (fastforce simp: spill_inv_def distinct_buffer_extend g
        dest: set_buffer_extend)
  have held1: "held ?st1 = held st + mset rs" by (simp add: held_def)
  have inv2: "spill_inv ?st2"
    using inv1 flush_memory_shard_inv [OF Cons.prems(1), of ?st1 k] by simp
  have held2: "held ?st2 = held st + mset rs"
    using held1 flush_memory_shard_held [OF Cons.prems(1), of ?st1 k] by simp
  have sp2: "st_shard_points ?st2 = st_shard_points st" by simp
  have "\<forall>(k, b) \<in> set gs. \<forall>r \<in> set b. unat (sr_src r) div st_shard_points ?st2 = k"
    using Cons.prems(3) sp2 by simp
  from Cons.IH [OF Cons.prems(1) inv2 this] held2 sp2 show ?case
    by (simp add: g Let_def ac_simps)
qed simp

lemma mem_create_inv:
  "mem_create_sharded n m = (sink, st) \<Longrightarrow>
   spill_inv st \<and> held st = {#} \<and> sk_shard_points sink = st_shard_points st \<and>
   0 < sk_flush_threshold sink"
  by (auto simp: mem_create_sharded_def spill_inv_def held_def Let_def)

lemma mem_flush_ok:
  assumes "sorts_ok S" "spill_inv st" "sk_shard_points sink = st_shard_points st"
    and "\<forall>e \<in> set edges. e_p e < 2 ^ 32"
  shows "\<exists>st'. mem_flush_pending_edges S sink edges st = Inr st' \<and> spill_inv st' \<and>
    held st' = held st + mset (map edge_record edges) \<and>
    st_shard_points st' = st_shard_points st"
proof (cases "edges = []")
  case True
  then show ?thesis using assms(2) by (simp add: mem_flush_pending_edges_def)
next
  case False
  let ?sp = "st_shard_points st" and ?es = "by_edge_p S e_p edges"
  have m: "mset ?es = mset edges"
    using assms(1) by (auto simp: sorts_ok_def dest: unstable_sortD)
  then have "set ?es = set edges" by (metis set_mset_mset)
  with assms(4) obtain gs where gs: "encode_groups ?sp [] ?es = Inr gs"
    "buffered gs = mset (map edge_record ?es)"
    "\<forall>(k, b) \<in> set gs. \<forall>r \<in> set b. unat (sr_src r) div ?sp = k"
    using encode_groups_ok [of ?es "[]" ?sp] by auto
  have "max ?sp 1 = ?sp" using assms(2) by (simp add: spill_inv_def)
  with gs(1) False assms(3) have "mem_flush_pending_edges S sink edges st =
      Inr (buffer_groups S (sk_flush_threshold sink) st gs)"
    by (simp add: mem_flush_pending_edges_def encode_spill_records_by_shard_def)
  with buffer_groups_ok [OF assms(1,2) gs(3)] gs(2) m show ?thesis by simp
qed

lemma mem_flush_error:
  assumes "sorts_ok S" "e \<in> set edges" "2 ^ 32 \<le> e_p e"
  shows "\<exists>f. mem_flush_pending_edges S sink edges st = Inl f"
proof -
  have err: "e \<in> set es \<Longrightarrow> \<exists>f. encode_groups sp gs es = Inl f" for sp gs es
    using assms(3)
    by (induction sp gs es rule: encode_groups.induct)
      (auto simp: from_pending_edge_def split: if_splits)
  have "set (by_edge_p S e_p edges) = set edges"
    using assms(1) by (metis set_mset_mset sorts_ok_def unstable_sortD(1))
  with err assms(2) obtain f where
    "encode_groups (max (sk_shard_points sink) 1) [] (by_edge_p S e_p edges) = Inl f" by blast
  then show ?thesis
    using assms(2) by (auto simp: mem_flush_pending_edges_def encode_spill_records_by_shard_def)
qed

text \<open>After \<open>finish\<close> every record is in a segment.\<close>

lemma flush_memory_shard_empties:
  "k \<in> fst ` set (st_buffers st) \<Longrightarrow>
   map_of (st_buffers (flush_memory_shard S st k)) k = Some []"
proof -
  assume "k \<in> fst ` set (st_buffers st)"
  then obtain b where "map_of (st_buffers st) k = Some b"
    by (metis map_of_eq_None_iff not_None_eq)
  then show ?thesis
    by (simp add: flush_memory_shard_def Let_def map_of_buffer_clear)
qed

lemma flush_memory_shard_keeps_empty:
  "map_of (st_buffers st) k' = Some [] \<Longrightarrow>
   map_of (st_buffers (flush_memory_shard S st k)) k' = Some []"
  by (auto simp: flush_memory_shard_def Let_def map_of_buffer_clear split: option.splits)

lemma foldl_flush_frame:
  assumes "sorts_ok S" "spill_inv st"
  shows "spill_inv (foldl (flush_memory_shard S) st ks)"
    "held (foldl (flush_memory_shard S) st ks) = held st"
    "st_shard_points (foldl (flush_memory_shard S) st ks) = st_shard_points st"
    "map fst (st_buffers (foldl (flush_memory_shard S) st ks)) = map fst (st_buffers st)"
  using assms(2)
  by (induction ks rule: rev_induct)
    (simp_all add: flush_memory_shard_inv [OF assms(1)] flush_memory_shard_held [OF assms(1)])

lemma foldl_flush_empties:
  assumes "sorts_ok S" "spill_inv st" "k \<in> fst ` set (st_buffers st)" "k \<in> set ks"
  shows "map_of (st_buffers (foldl (flush_memory_shard S) st ks)) k = Some []"
  using assms(4)
proof (induction ks rule: rev_induct)
  case (snoc k' ks)
  let ?st = "foldl (flush_memory_shard S) st ks"
  have "fst ` set (st_buffers ?st) = fst ` set (st_buffers st)"
    using foldl_flush_frame(4) [OF assms(1,2), of ks] by (metis list.set_map)
  then have "map_of (st_buffers (flush_memory_shard S ?st k)) k = Some []"
    using assms(3) by (intro flush_memory_shard_empties) simp
  moreover have "k \<noteq> k' \<Longrightarrow> map_of (st_buffers (flush_memory_shard S ?st k')) k = Some []"
    using snoc by (intro flush_memory_shard_keeps_empty) simp
  ultimately show ?case by (cases "k = k'") simp_all
qed simp

lemma mem_finish_ok:
  assumes "sorts_ok S" "spill_inv st" "\<And>ks. mset (hm_order ks) = mset ks"
    and "mem_finish S hm_order st = (sp, gs)"
  shows "sp = st_shard_points st" "segmented gs = held st" "\<forall>g \<in> set gs. segment_ok sp g"
    "0 < sp"
proof -
  let ?ks = "hm_order (map fst (st_buffers st))"
  let ?st = "flush_all_memory_buffers S hm_order st"
  have ks: "set ?ks = fst ` set (st_buffers st)"
    using assms(3) by (metis list.set_map set_mset_mset)
  note frame = foldl_flush_frame [OF assms(1,2), of ?ks, folded flush_all_memory_buffers_def]
  have keys: "fst ` set (st_buffers ?st) = fst ` set (st_buffers st)"
    using frame(4) by (metis list.set_map)
  have fin5: "map_of (st_buffers ?st) k = Some []" if "k \<in> fst ` set (st_buffers ?st)" for k
    using foldl_flush_empties [OF assms(1,2), of k ?ks] that keys ks
    by (simp add: flush_all_memory_buffers_def)
  have "b = []" if "(k, b) \<in> set (st_buffers ?st)" for k b
  proof -
    have "map_of (st_buffers ?st) k = Some b"
      using that frame(1) by (simp add: spill_inv_def)
    moreover have "k \<in> fst ` set (st_buffers ?st)" using that by force
    ultimately show ?thesis using fin5 by simp
  qed
  then have "buffered (st_buffers ?st) = {#}" by (auto simp: buffered_def)
  with frame(2) have "segmented (st_segments ?st) = held st" by (simp add: held_def)
  with frame assms(4) show "sp = st_shard_points st" "segmented gs = held st"
      "\<forall>g \<in> set gs. segment_ok sp g" "0 < sp"
    by (auto simp: mem_finish_def Let_def spill_inv_def)
qed

section \<open>The sink interface\<close>

text \<open>
  What leaf construction relies on when it hands edges to a \<open>PendingEdgeSink\<close>: a flush of edges
  with 32-bit sources succeeds and adds exactly their records to what the sink holds, as long as
  the sink's capacity \<open>cap\<close> is not exceeded. From this alone follows what a whole build leaves in
  the sink. The in-memory sink meets the contract for every \<open>cap\<close>.
\<close>

fun flush_batches :: "(pending_edge list \<Rightarrow> 'st \<Rightarrow> 'st result) \<Rightarrow> pending_edge list list \<Rightarrow>
    'st \<Rightarrow> 'st result" where
  "flush_batches flush [] st = Inr st"
| "flush_batches flush (es # bs) st = res_bind (flush es st) (flush_batches flush bs)"

locale edge_sink =
  fixes flush :: "pending_edge list \<Rightarrow> 'st \<Rightarrow> 'st result"
    and inv :: "'st \<Rightarrow> bool"
    and contents :: "'st \<Rightarrow> spill_record multiset"
    and cap :: nat
  assumes flush_ok: "inv st \<Longrightarrow> \<forall>e \<in> set es. e_p e < 2 ^ 32 \<Longrightarrow> size (contents st) + length es \<le> cap \<Longrightarrow>
      \<exists>st'. flush es st = Inr st' \<and> inv st' \<and> contents st' = contents st + mset (map edge_record es)"
begin

lemma flush_batches_ok:
  "inv st \<Longrightarrow> \<forall>e \<in> set (concat bs). e_p e < 2 ^ 32 \<Longrightarrow> size (contents st) + length (concat bs) \<le> cap \<Longrightarrow>
   \<exists>st'. flush_batches flush bs st = Inr st' \<and> inv st' \<and>
     contents st' = contents st + mset (map edge_record (concat bs))"
proof (induction bs arbitrary: st)
  case (Cons es bs)
  then obtain st1 where 1: "flush es st = Inr st1" "inv st1"
    "contents st1 = contents st + mset (map edge_record es)"
    using flush_ok [of st es] by auto
  then show ?case using Cons.IH [of st1] Cons.prems by (fastforce simp: add.assoc)
qed simp

end

text \<open>A sink that checks the sources of the edges at once, not when it writes them.\<close>

locale strict_edge_sink = edge_sink +
  assumes flush_refuses: "inv st \<Longrightarrow> e \<in> set es \<Longrightarrow> 2 ^ 32 \<le> e_p e \<Longrightarrow> \<exists>f. flush es st = Inl f"
begin

lemma flush_batches_refuses:
  "inv st \<Longrightarrow> e \<in> set (concat bs) \<Longrightarrow> 2 ^ 32 \<le> e_p e \<Longrightarrow> size (contents st) + length (concat bs) \<le> cap \<Longrightarrow>
   \<exists>f. flush_batches flush bs st = Inl f"
proof (induction bs arbitrary: st)
  case (Cons es bs)
  show ?case
  proof (cases "\<forall>e \<in> set es. e_p e < 2 ^ 32")
    case True
    with Cons.prems obtain st1 where "flush es st = Inr st1" "inv st1"
      "contents st1 = contents st + mset (map edge_record es)" using flush_ok [of st es] by auto
    moreover have "e \<in> set (concat bs)" using True Cons.prems by auto
    ultimately show ?thesis using Cons.IH [of st1] Cons.prems by simp
  next
    case False
    then obtain f where "flush es st = Inl f" using flush_refuses [OF Cons.prems(1)] by (metis not_less)
    then show ?thesis by simp
  qed
qed simp

end

definition mem_sink_inv :: "sorts \<Rightarrow> spill_sink \<Rightarrow> usize \<Rightarrow> spill_state \<Rightarrow> bool" where
  [inv_defs]: "mem_sink_inv S sink sp st \<longleftrightarrow>
     sorts_ok S \<and> spill_inv st \<and> sk_shard_points sink = st_shard_points st \<and> st_shard_points st = sp"

interpretation mem_sink: strict_edge_sink "mem_flush_pending_edges S sink" "mem_sink_inv S sink sp" held cap
  for S sink sp cap
proof
  show "mem_sink_inv S sink sp st \<Longrightarrow> \<forall>e \<in> set es. e_p e < 2 ^ 32 \<Longrightarrow> size (held st) + length es \<le> cap \<Longrightarrow>
      \<exists>st'. mem_flush_pending_edges S sink es st = Inr st' \<and> mem_sink_inv S sink sp st' \<and>
        held st' = held st + mset (map edge_record es)" for st es
    using mem_flush_ok [of S st sink es] by (auto simp: mem_sink_inv_def)
  show "mem_sink_inv S sink sp st \<Longrightarrow> e \<in> set es \<Longrightarrow> 2 ^ 32 \<le> e_p e \<Longrightarrow>
      \<exists>f. mem_flush_pending_edges S sink es st = Inl f" for st e es
    using mem_flush_error by (auto simp: mem_sink_inv_def)
qed

text \<open>A whole build: create the sink, flush the batches, finish.\<close>

definition spill_build :: "sorts \<Rightarrow> (usize list \<Rightarrow> usize list) \<Rightarrow> usize \<Rightarrow> usize \<Rightarrow>
    pending_edge list list \<Rightarrow> (usize \<times> segment list) result" where
  "spill_build S hm_order cache_bytes shard_points batches =
     (let (sink, st) = mem_create_sharded cache_bytes shard_points
      in res_bind (flush_batches (mem_flush_pending_edges S sink) batches st)
           (\<lambda>st'. Inr (mem_finish S hm_order st')))"

lemma spill_build_ok:
  assumes "sorts_ok S" "\<And>ks. mset (hm_order ks) = mset ks"
    and "\<forall>e \<in> set (concat batches). e_p e < 2 ^ 32"
  obtains gs where "spill_build S hm_order c m batches = Inr (max m 1, gs)"
    "segmented gs = mset (map edge_record (concat batches))" "\<forall>g \<in> set gs. segment_ok (max m 1) g"
proof -
  obtain sink st where create: "mem_create_sharded c m = (sink, st)" by fastforce
  then have "mem_sink_inv S sink (max m 1) st" and empty: "held st = {#}"
    using mem_create_inv [OF create] assms(1)
    by (auto simp: mem_sink_inv_def mem_create_sharded_def Let_def)
  from mem_sink.flush_batches_ok [OF this(1) assms(3)] empty obtain st' where
    st': "flush_batches (mem_flush_pending_edges S sink) batches st = Inr st'"
    "mem_sink_inv S sink (max m 1) st'" "held st' = mset (map edge_record (concat batches))" by auto
  obtain sp gs where fin: "mem_finish S hm_order st' = (sp, gs)" by fastforce
  have "spill_inv st'" "st_shard_points st' = max m 1"
    using st'(2) by (simp_all add: mem_sink_inv_def)
  note f = mem_finish_ok [OF assms(1) this(1) assms(2) fin]
  show thesis
    by (rule that [of gs]) (use f st' fin create \<open>st_shard_points st' = max m 1\<close> in
        \<open>simp_all add: spill_build_def\<close>)
qed

text \<open>C13: The in-memory spill sink loses and invents nothing. After any sequence of flushes of edges
  with 32-bit sources, \<open>finish\<close> returns segments whose records are, as a multiset, the records of
  exactly those edges; each segment is non-empty, sorted by source, carries its first and last
  source as bounds and holds records of its own shard only.\<close>

theorem spill_build_exact:
  assumes "sorts_ok S" "\<forall>ks. mset (hm_order ks) = mset ks"
    and "\<forall>e \<in> set (concat batches). e_p e < 2 ^ 32"
  shows "\<exists>gs. spill_build S hm_order cache_bytes shard_points batches = Inr (max shard_points 1, gs) \<and>
    segmented gs = mset (map edge_record (concat batches)) \<and>
    (\<forall>g \<in> set gs. segment_ok (max shard_points 1) g)"
proof -
  have "\<And>ks. mset (hm_order ks) = mset ks" using assms(2) by simp
  from spill_build_ok [OF assms(1) this assms(3), of cache_bytes shard_points] show ?thesis by metis
qed

definition sample_batches :: "pending_edge list list" where
  "sample_batches =
     [[\<lparr>e_p = 3, e_c = 4, e_hash = 2, e_dist = 0x40a00000, e_mandatory = False, e_local_rank = 1, e_flags = 1\<rparr>,
       \<lparr>e_p = 0, e_c = 5, e_hash = 1, e_dist = 0x40400000, e_mandatory = True, e_local_rank = 2, e_flags = 1\<rparr>],
      [\<lparr>e_p = 3, e_c = 7, e_hash = 5, e_dist = 0x40800000, e_mandatory = False, e_local_rank = 1, e_flags = 2\<rparr>]]"

theorem spill_build_exact_witness:
  "\<exists>gs. spill_build stable_sorts rev 1024 2 sample_batches = Inr (max 2 1, gs) \<and>
    segmented gs = mset (map edge_record (concat sample_batches)) \<and>
    (\<forall>g \<in> set gs. segment_ok (max 2 1) g)"
  by (rule spill_build_exact) (simp_all add: stable_sorts_ok sample_batches_def)

text \<open>A source that does not fit 32 bits is refused: if any edge of any batch has one, the build
  ends with an error, so no record with a truncated source is ever reduced.\<close>

theorem spill_build_refuses:
  assumes "sorts_ok S" "e \<in> set (concat batches)" "2 ^ 32 \<le> e_p e"
  shows "\<exists>f. spill_build S hm_order cache_bytes shard_points batches = Inl f"
proof -
  obtain sink st where create: "mem_create_sharded cache_bytes shard_points = (sink, st)" by fastforce
  then have "mem_sink_inv S sink (st_shard_points st) st"
    using mem_create_inv [OF create] assms(1) by (simp add: mem_sink_inv_def)
  from mem_sink.flush_batches_refuses [OF this assms(2,3) order_refl] create show ?thesis
    by (auto simp: spill_build_def)
qed

definition wide_edge :: pending_edge where
  "wide_edge = \<lparr>e_p = 4294967296, e_c = 4, e_hash = 2, e_dist = f32_zero, e_mandatory = False,
     e_local_rank = 1, e_flags = 1\<rparr>"

theorem spill_build_refuses_witness:
  "\<exists>f. spill_build stable_sorts id 1024 2 [[wide_edge]] = Inl f"
  by (rule spill_build_refuses [OF stable_sorts_ok, of wide_edge]) (simp_all add: wide_edge_def)

end
