(* ===== verification/SpillReduce.thy ===== *)
theory SpillReduce
  imports SpillMem
begin

text \<open>
  The reducer of the in-memory spill path: \<open>reduce_in_memory_segments_sharded_in_order_from\<close>
  of \<^verbatim>\<open>ForgeANN/src/forgeann/spill_hashprune.rs\<close> with its helpers. The callback
  \<open>on_point_done\<close> is a state transformer that may fail; an error of the callback ends the
  reduction. The main result is that the reducer calls it once per point, in point order, with
  the neighbours that a fresh reservoir keeps of that point's candidates.
\<close>

section \<open>Callbacks and reservoir slabs\<close>

type_synonym 'st callback = "'st \<Rightarrow> u32 \<Rightarrow> u32 list \<Rightarrow> 'st result"

fun emit_empty :: "'st callback \<Rightarrow> 'st \<Rightarrow> nat list \<Rightarrow> 'st result" where
  "emit_empty cb st [] = Inr st"
| "emit_empty cb st (p # ps) = res_bind (cb st (word_of_nat p) []) (\<lambda>st'. emit_empty cb st' ps)"

definition emit_empty_point_range :: "'st callback \<Rightarrow> 'st \<Rightarrow> nat \<Rightarrow> nat \<Rightarrow> 'st result" where
  "emit_empty_point_range cb st a b = emit_empty cb st [a..<b]"

primrec allocate_reservoir_slab :: "nat \<Rightarrow> usize \<Rightarrow> reservoir list result" where
  "allocate_reservoir_slab 0 n = Inr []"
| "allocate_reservoir_slab (Suc k) n =
     res_bind (reservoir_new n) (\<lambda>r. res_bind (allocate_reservoir_slab k n) (\<lambda>rs. Inr (r # rs)))"

definition resize_or_reset_reservoirs :: "reservoir list \<Rightarrow> nat \<Rightarrow> usize \<Rightarrow> reservoir list result" where
  "resize_or_reset_reservoirs rs points n =
     res_bind (allocate_reservoir_slab (points - length rs) n)
       (\<lambda>fresh. let rs' = rs @ fresh
                in Inr (map reservoir_clear (take points rs') @ drop points rs'))"

fun emit_points :: "'st callback \<Rightarrow> nat \<Rightarrow> 'st \<Rightarrow> reservoir list \<Rightarrow> nat list \<Rightarrow>
    ('st \<times> reservoir list) result" where
  "emit_points cb start st rs [] = Inr (st, rs)"
| "emit_points cb start st rs (p # ps) =
     (if p - start < length rs then
        (let (ns, r') = drain_neighbors (rs ! (p - start))
         in res_bind (cb st (word_of_nat p) ns)
              (\<lambda>st'. emit_points cb start st' (rs[p - start := r']) ps))
      else Inl (Panic ''reservoir index out of range''))"

definition emit_shard :: "'st callback \<Rightarrow> nat \<Rightarrow> nat \<Rightarrow> 'st \<Rightarrow> reservoir list \<Rightarrow>
    ('st \<times> reservoir list) result" where
  "emit_shard cb start stop st rs = emit_points cb start st rs [start..<stop]"

section \<open>One shard\<close>

record 'st chunk =
  ck_start :: nat
  ck_end :: nat
  ck_rs :: "reservoir list"
  ck_st :: 'st

text \<open>
  \<open>while edge.p >= chunk_end\<close>: emit the chunk and go on to the next one. A chunk is never
  empty: \<open>points_per_chunk\<close> is at least 1 in the source. The three reducers of the source have the
  same loop and differ in \<open>emit\<close> (what is done with a finished chunk) and in the error \<open>outside\<close>.
\<close>

type_synonym 'st emitter = "nat \<Rightarrow> nat \<Rightarrow> 'st \<Rightarrow> reservoir list \<Rightarrow> ('st \<times> reservoir list) result"

function (sequential) advance_chunks ::
  "'st emitter \<Rightarrow> fault \<Rightarrow> usize \<Rightarrow> nat \<Rightarrow> nat \<Rightarrow> nat \<Rightarrow> 'st chunk \<Rightarrow> 'st chunk result" where
  "advance_chunks emit outside n ppc point_end p ck =
     (if p < ck_end ck then Inr ck
      else
        (case emit (ck_start ck) (ck_end ck) (ck_st ck) (ck_rs ck) of
           Inl f \<Rightarrow> Inl f
         | Inr (st', rs') \<Rightarrow>
             if point_end \<le> ck_end ck
             then Inl outside
             else
               (let stop = min (ck_end ck + max ppc 1) point_end
                in case resize_or_reset_reservoirs rs' (stop - ck_end ck) n of
                     Inl f \<Rightarrow> Inl f
                   | Inr rs'' \<Rightarrow>
                       advance_chunks emit outside n ppc point_end p
                         \<lparr>ck_start = ck_end ck, ck_end = stop, ck_rs = rs'', ck_st = st'\<rparr>)))"
  by pat_completeness auto
termination
  by (relation "measure (\<lambda>(emit, outside, n, ppc, point_end, p, ck). Suc p - ck_end ck)") auto

declare advance_chunks.simps [simp del]

definition outside_in_memory :: fault where
  "outside_in_memory = Err (Index ''In-memory spill reducer encountered edge outside shard range'')"

fun reduce_records :: "'st callback \<Rightarrow> usize \<Rightarrow> nat \<Rightarrow> nat \<Rightarrow> nat \<Rightarrow> 'st chunk \<Rightarrow>
    spill_record list \<Rightarrow> 'st chunk result" where
  "reduce_records cb n ppc point_start point_end ck [] = Inr ck"
| "reduce_records cb n ppc point_start point_end ck (r # rs) =
     (let edge = to_pending_edge r in
      if e_p edge < point_start then reduce_records cb n ppc point_start point_end ck rs
      else if point_end \<le> e_p edge then Inr ck
      else
        (case advance_chunks (emit_shard cb) outside_in_memory n ppc point_end (e_p edge) ck of
           Inl f \<Rightarrow> Inl f
         | Inr ck' \<Rightarrow>
             if e_p edge < ck_start ck'
             then Inl (Err (Index ''In-memory spill reducer encountered out-of-order candidate edge''))
             else if e_p edge - ck_start ck' < length (ck_rs ck')
             then reduce_records cb n ppc point_start point_end
                    (ck'\<lparr>ck_rs := (ck_rs ck')[e_p edge - ck_start ck' :=
                       reservoir_insert (ck_rs ck' ! (e_p edge - ck_start ck'))
                         (e_c edge) (e_hash edge) (e_dist edge)]\<rparr>) rs
             else Inl (Panic ''reservoir index out of range'')))"

fun reduce_segments :: "'st callback \<Rightarrow> usize \<Rightarrow> nat \<Rightarrow> nat \<Rightarrow> nat \<Rightarrow> 'st chunk \<Rightarrow>
    segment list \<Rightarrow> 'st chunk result" where
  "reduce_segments cb n ppc point_start point_end ck [] = Inr ck"
| "reduce_segments cb n ppc point_start point_end ck (g # gs) =
     res_bind (reduce_records cb n ppc point_start point_end ck (sg_records g))
       (\<lambda>ck'. reduce_segments cb n ppc point_start point_end ck' gs)"

text \<open>The closing loop \<open>while chunk_start < point_end\<close>.\<close>

function (sequential) drain_chunks ::
  "'st emitter \<Rightarrow> usize \<Rightarrow> nat \<Rightarrow> nat \<Rightarrow> 'st chunk \<Rightarrow> 'st result" where
  "drain_chunks emit n ppc point_end ck =
     (if point_end \<le> ck_start ck then Inr (ck_st ck)
      else
        (case emit (ck_start ck) (ck_end ck) (ck_st ck) (ck_rs ck) of
           Inl f \<Rightarrow> Inl f
         | Inr (st', rs') \<Rightarrow>
             if point_end \<le> ck_end ck then Inr st'
             else if ck_end ck \<le> ck_start ck then Inl (Panic ''empty chunk'')
             else
               (let stop = min (ck_end ck + max ppc 1) point_end
                in case resize_or_reset_reservoirs rs' (stop - ck_end ck) n of
                     Inl f \<Rightarrow> Inl f
                   | Inr rs'' \<Rightarrow>
                       drain_chunks emit n ppc point_end
                         \<lparr>ck_start = ck_end ck, ck_end = stop, ck_rs = rs'', ck_st = st'\<rparr>)))"
  by pat_completeness auto
termination
  by (relation "measure (\<lambda>(emit, n, ppc, point_end, ck). point_end - ck_start ck)") auto

declare drain_chunks.simps [simp del]

definition resort_segment :: "sorts \<Rightarrow> segment \<Rightarrow> segment" where
  "resort_segment S g = g\<lparr>sg_records := by_record_src S sr_src (sg_records g)\<rparr>"

definition group_order :: "sorts \<Rightarrow> segment list \<Rightarrow> segment list" where
  "group_order S gs = by_min_max S (\<lambda>g. (sg_src_min g, sg_src_max g)) (map (resort_segment S) gs)"

definition reduce_in_memory_segment_group_in_range ::
  "sorts \<Rightarrow> 'st callback \<Rightarrow> nat \<Rightarrow> nat \<Rightarrow> usize \<Rightarrow> usize \<Rightarrow> segment list \<Rightarrow> 'st \<Rightarrow> 'st result" where
  "reduce_in_memory_segment_group_in_range S cb point_start point_end n points_per_shard gs st =
     (if point_end \<le> point_start then Inr st
      else
        (let segs = group_order S gs;
             ppc = min (max points_per_shard 1) (max (point_end - point_start) 1);
             chunk_end = min (point_start + ppc) point_end
         in res_bind (allocate_reservoir_slab (chunk_end - point_start) n)
              (\<lambda>rs. res_bind
                 (reduce_segments cb n ppc point_start point_end
                    \<lparr>ck_start = point_start, ck_end = chunk_end, ck_rs = rs, ck_st = st\<rparr> segs)
                 (\<lambda>ck. drain_chunks (emit_shard cb) n ppc point_end ck))))"

section \<open>All shards\<close>

record reduce_stats =
  rd_shard_groups :: usize
  rd_segments_scanned :: usize
  rd_part_files_opened :: usize
  rd_max_segments_in_group :: usize

definition reduce_stats_default :: reduce_stats where
  "reduce_stats_default = \<lparr>rd_shard_groups = 0, rd_segments_scanned = 0,
     rd_part_files_opened = 0, rd_max_segments_in_group = 0\<rparr>"

definition max_in_memory_segments_per_shard :: "segment list \<Rightarrow> usize" where
  "max_in_memory_segments_per_shard gs =
     foldr max (map (\<lambda>g. length (filter (\<lambda>h. sg_shard_id h = sg_shard_id g) gs)) gs) 0"

text \<open>
  The loop over the sorted segments: one iteration takes the run of segments with the shard of
  the first one.
\<close>

function (sequential) reduce_shards ::
  "sorts \<Rightarrow> 'st callback \<Rightarrow> nat \<Rightarrow> nat \<Rightarrow> usize \<Rightarrow> usize \<Rightarrow> nat \<Rightarrow> 'st \<Rightarrow> segment list \<Rightarrow> 'st result"
where
  "reduce_shards S cb num_points point_start n sp next st [] =
     (if next < num_points then emit_empty_point_range cb st next num_points else Inr st)"
| "reduce_shards S cb num_points point_start n sp next st (g # gs) =
     (let shard = sg_shard_id g;
          same = takeWhile (\<lambda>h. sg_shard_id h = shard) (g # gs);
          rest = dropWhile (\<lambda>h. sg_shard_id h = shard) gs;
          shard_start = sat_mul shard sp
      in if num_points \<le> shard_start
         then Inl (Err (Index ''In-memory spill reducer encountered shard_id outside num_points''))
         else
           let shard_end = min (shard_start + sp) num_points in
           if shard_end \<le> point_start
           then reduce_shards S cb num_points point_start n sp next st rest
           else
             let group_start = max shard_start point_start in
             (case (if next < group_start then emit_empty_point_range cb st next group_start
                    else Inr st) of
                Inl f \<Rightarrow> Inl f
              | Inr st1 \<Rightarrow>
                  if \<exists>h \<in> set same. unat (sg_src_min h) < shard_start \<or> shard_end \<le> unat (sg_src_max h)
                  then Inl (Err (Index ''In-memory spill segment src_range outside shard range''))
                  else
                    (case reduce_in_memory_segment_group_in_range S cb group_start shard_end n sp same st1 of
                       Inl f \<Rightarrow> Inl f
                     | Inr st2 \<Rightarrow>
                         reduce_shards S cb num_points point_start n sp shard_end st2 rest)))"
  by pat_completeness auto
termination
  by (relation "measure (\<lambda>(S, cb, N, ps, n, sp, np, st, gs). length gs)")
    (auto simp: le_imp_less_Suc length_dropWhile_le)

declare reduce_shards.simps(2) [simp del]

definition reduce_in_memory ::
  "sorts \<Rightarrow> nat \<Rightarrow> nat \<Rightarrow> usize \<Rightarrow> usize \<times> segment list \<Rightarrow> 'st callback \<Rightarrow> 'st \<Rightarrow>
   ('st \<times> reduce_stats) result" where
  "reduce_in_memory S num_points point_start n artifacts cb st =
     (if num_points = 0 \<or> num_points \<le> point_start then Inr (st, reduce_stats_default)
      else
        (let sp = fst artifacts;
             segs = by_shard_min S (\<lambda>g. (sg_shard_id g, sg_src_min g)) (snd artifacts);
             stats = \<lparr>rd_shard_groups = length (remdups (map sg_shard_id segs)),
                      rd_segments_scanned = length segs, rd_part_files_opened = 0,
                      rd_max_segments_in_group = max_in_memory_segments_per_shard segs\<rparr>
         in res_bind (reduce_shards S cb num_points point_start n sp point_start st segs)
              (\<lambda>st'. Inr (st', stats))))"

section \<open>Emission\<close>

text \<open>The reference: call the callback on a list of rows.\<close>

fun run_rows :: "'st callback \<Rightarrow> 'st \<Rightarrow> (nat \<times> u32 list) list \<Rightarrow> 'st result" where
  "run_rows cb st [] = Inr st"
| "run_rows cb st ((p, ns) # rows) =
     res_bind (cb st (word_of_nat p) ns) (\<lambda>st'. run_rows cb st' rows)"

lemma run_rows_append:
  "run_rows cb st (xs @ ys) = res_bind (run_rows cb st xs) (\<lambda>st'. run_rows cb st' ys)"
proof (induction cb st xs rule: run_rows.induct)
  case (2 cb st p ns rows)
  then show ?case by (cases "cb st (word_of_nat p) ns") simp_all
qed simp

lemma emit_empty_rows: "emit_empty cb st ps = run_rows cb st (map (\<lambda>p. (p, [])) ps)"
proof (induction cb st ps rule: emit_empty.induct)
  case (2 cb st p ps)
  then show ?case by (cases "cb st (word_of_nat p) []") simp_all
qed simp

lemma emit_points_rows:
  assumes "\<forall>p \<in> set ps. start \<le> p \<and> p - start < length rs" "distinct ps"
  shows "\<exists>rs'. emit_points cb start st rs ps =
     res_bind (run_rows cb st (map (\<lambda>p. (p, into_neighbors (rs ! (p - start)))) ps))
       (\<lambda>st'. Inr (st', rs'))"
  using assms
proof (induction ps arbitrary: st rs)
  case (Cons p ps)
  define r' where "r' = snd (drain_neighbors (rs ! (p - start)))"
  let ?rs = "rs[p - start := r']" and ?ns = "into_neighbors (rs ! (p - start))"
  have step: "emit_points cb start st rs (p # ps) =
      res_bind (cb st (word_of_nat p) ?ns) (\<lambda>st'. emit_points cb start st' ?rs ps)"
    using Cons.prems by (simp add: drain_neighbors_def into_neighbors_def r'_def)
  have same: "map (\<lambda>q. (q, into_neighbors (?rs ! (q - start)))) ps =
      map (\<lambda>q. (q, into_neighbors (rs ! (q - start)))) ps"
  proof (rule map_cong [OF refl])
    fix q assume q: "q \<in> set ps"
    then have "start \<le> q" "start \<le> p" "q \<noteq> p" using Cons.prems by auto
    then have "q - start \<noteq> p - start" by linarith
    then show "(q, into_neighbors (?rs ! (q - start))) = (q, into_neighbors (rs ! (q - start)))"
      by simp
  qed
  show ?case
  proof (cases "cb st (word_of_nat p) ?ns")
    case (Inl f)
    then show ?thesis using step by simp
  next
    case (Inr st')
    have "\<exists>rs'. emit_points cb start st' ?rs ps =
      res_bind (run_rows cb st' (map (\<lambda>q. (q, into_neighbors (?rs ! (q - start)))) ps))
        (\<lambda>st''. Inr (st'', rs'))"
      using Cons.prems by (intro Cons.IH) auto
    then show ?thesis using step Inr same by simp
  qed
qed simp

lemma allocate_reservoir_slab_ok:
  "reservoir_new n = Inr r \<Longrightarrow> allocate_reservoir_slab k n = Inr (replicate k r)"
  by (induction k) simp_all

section \<open>One shard: the chunk covers the whole range\<close>

text \<open>The candidates that a list of spill records carries for one point.\<close>

definition record_cands :: "nat \<Rightarrow> spill_record list \<Rightarrow> candidate list" where
  "record_cands p rs = cands_for p (map to_pending_edge rs)"

lemma record_cands_simps [simp]:
  "record_cands p [] = []"
  "record_cands p (r # rs) =
     (if unat (sr_src r) = p then (sr_dst r, sr_hash r, sr_dist r) # record_cands p rs
      else record_cands p rs)"
  "record_cands p (rs @ qs) = record_cands p rs @ record_cands p qs"
  by (simp_all add: record_cands_def)

lemma record_cands_Nil: "\<forall>r \<in> set rs. unat (sr_src r) \<noteq> p \<Longrightarrow> record_cands p rs = []"
  by (induction rs) auto

definition feed :: "nat \<Rightarrow> reservoir list \<Rightarrow> spill_record list \<Rightarrow> reservoir list" where
  "feed start rs recs = map (\<lambda>i. insert_all (rs ! i) (record_cands (start + i) recs)) [0..<length rs]"

lemma length_feed [simp]: "length (feed start rs recs) = length rs"
  by (simp add: feed_def)

lemma feed_Nil [simp]: "feed start rs [] = rs"
  by (simp add: feed_def map_nth)

lemma feed_append: "feed start (feed start rs xs) ys = feed start rs (xs @ ys)"
  by (simp add: feed_def insert_all_append)

lemma feed_Cons_outside:
  "unat (sr_src r) < start \<Longrightarrow> feed start rs (r # recs) = feed start rs recs"
  by (simp add: feed_def)

lemma feed_Cons_inside:
  assumes "start \<le> unat (sr_src r)" "unat (sr_src r) - start < length rs"
  shows "feed start (rs[unat (sr_src r) - start :=
      reservoir_insert (rs ! (unat (sr_src r) - start)) (sr_dst r) (sr_hash r) (sr_dist r)]) recs =
    feed start rs (r # recs)"
  using assms by (auto simp: feed_def nth_list_update)

lemma advance_chunks_inside [simp]: "p < ck_end ck \<Longrightarrow> advance_chunks emit outside n ppc pe p ck = Inr ck"
  by (simp add: advance_chunks.simps)

lemma reduce_records_whole:
  assumes "\<forall>r \<in> set recs. unat (sr_src r) < ck_end ck"
    and "length (ck_rs ck) = ck_end ck - ck_start ck"
  shows "reduce_records cb n ppc (ck_start ck) (ck_end ck) ck recs =
    Inr (ck\<lparr>ck_rs := feed (ck_start ck) (ck_rs ck) recs\<rparr>)"
  using assms
proof (induction recs arbitrary: ck)
  case (Cons r recs)
  let ?p = "unat (sr_src r)"
  let ?ck = "ck\<lparr>ck_rs := (ck_rs ck)[?p - ck_start ck := reservoir_insert
    (ck_rs ck ! (?p - ck_start ck)) (sr_dst r) (sr_hash r) (sr_dist r)]\<rparr>"
  show ?case
  proof (cases "?p < ck_start ck")
    case True
    then show ?thesis using Cons by (simp add: feed_Cons_outside)
  next
    case False
    then have i: "?p - ck_start ck < length (ck_rs ck)" using Cons.prems by auto
    have "reduce_records cb n ppc (ck_start ?ck) (ck_end ?ck) ?ck recs =
        Inr (?ck\<lparr>ck_rs := feed (ck_start ?ck) (ck_rs ?ck) recs\<rparr>)"
      using Cons.prems by (intro Cons.IH) simp_all
    then show ?thesis using False i Cons.prems feed_Cons_inside [of "ck_start ck" r "ck_rs ck" recs]
      by simp
  qed
qed simp

abbreviation records_of :: "segment list \<Rightarrow> spill_record list" where
  "records_of gs \<equiv> concat (map sg_records gs)"

lemma reduce_segments_whole:
  assumes "\<forall>r \<in> set (records_of gs). unat (sr_src r) < ck_end ck"
    and "length (ck_rs ck) = ck_end ck - ck_start ck"
  shows "reduce_segments cb n ppc (ck_start ck) (ck_end ck) ck gs =
    Inr (ck\<lparr>ck_rs := feed (ck_start ck) (ck_rs ck) (records_of gs)\<rparr>)"
  using assms
proof (induction gs arbitrary: ck)
  case (Cons g gs)
  let ?ck = "ck\<lparr>ck_rs := feed (ck_start ck) (ck_rs ck) (sg_records g)\<rparr>"
  have "reduce_records cb n ppc (ck_start ck) (ck_end ck) ck (sg_records g) = Inr ?ck"
    using Cons.prems by (intro reduce_records_whole) auto
  moreover have "reduce_segments cb n ppc (ck_start ?ck) (ck_end ?ck) ?ck gs =
      Inr (?ck\<lparr>ck_rs := feed (ck_start ?ck) (ck_rs ?ck) (records_of gs)\<rparr>)"
    using Cons.prems by (intro Cons.IH) auto
  ultimately show ?case by (simp add: feed_append)
qed simp

text \<open>The row a point gets: a fresh reservoir fed with the point's candidates, sorted.\<close>

definition point_row :: "reservoir \<Rightarrow> spill_record list \<Rightarrow> nat \<Rightarrow> nat \<times> u32 list" where
  "point_row r0 recs p = (p, into_neighbors (insert_all r0 (record_cands p recs)))"

lemma drain_chunks_whole:
  assumes "ck_start ck < ck_end ck" "length (ck_rs ck) = ck_end ck - ck_start ck"
  shows "drain_chunks (emit_shard cb) n ppc (ck_end ck) ck =
    run_rows cb (ck_st ck)
      (map (\<lambda>p. (p, into_neighbors (ck_rs ck ! (p - ck_start ck)))) [ck_start ck..<ck_end ck])"
proof -
  let ?rows = "map (\<lambda>p. (p, into_neighbors (ck_rs ck ! (p - ck_start ck)))) [ck_start ck..<ck_end ck]"
  have "\<exists>rs'. emit_points cb (ck_start ck) (ck_st ck) (ck_rs ck) [ck_start ck..<ck_end ck] =
      res_bind (run_rows cb (ck_st ck) ?rows) (\<lambda>st'. Inr (st', rs'))"
    using assms by (intro emit_points_rows) auto
  then show ?thesis
    using assms by (cases "run_rows cb (ck_st ck) ?rows")
      (auto simp: drain_chunks.simps [of "emit_shard cb" n ppc "ck_end ck" ck] emit_shard_def)
qed

lemma reduce_group_rows:
  assumes "reservoir_new n = Inr r0" "ps < pe" "pe - ps \<le> sp"
    and "\<forall>r \<in> set (records_of (group_order S gs)). unat (sr_src r) < pe"
  shows "reduce_in_memory_segment_group_in_range S cb ps pe n sp gs st =
    run_rows cb st (map (point_row r0 (records_of (group_order S gs))) [ps..<pe])"
proof -
  let ?recs = "records_of (group_order S gs)" and ?k = "pe - ps"
  let ?ppc = "min (max sp 1) (max ?k 1)"
  let ?ck = "\<lparr>ck_start = ps, ck_end = pe, ck_rs = replicate ?k r0, ck_st = st\<rparr>"
  let ?ck' = "?ck\<lparr>ck_rs := feed ps (replicate ?k r0) ?recs\<rparr>"
  have ends: "min (ps + ?ppc) pe = pe" using assms by auto
  have "reduce_segments cb n ?ppc (ck_start ?ck) (ck_end ?ck) ?ck (group_order S gs) =
      Inr (?ck\<lparr>ck_rs := feed (ck_start ?ck) (ck_rs ?ck) ?recs\<rparr>)"
    using assms(4) by (intro reduce_segments_whole) auto
  then have "reduce_in_memory_segment_group_in_range S cb ps pe n sp gs st =
      drain_chunks (emit_shard cb) n ?ppc (ck_end ?ck') ?ck'"
    using assms ends
    by (simp add: reduce_in_memory_segment_group_in_range_def Let_def allocate_reservoir_slab_ok)
  also have "\<dots> = run_rows cb (ck_st ?ck')
      (map (\<lambda>p. (p, into_neighbors (ck_rs ?ck' ! (p - ck_start ?ck')))) [ck_start ?ck'..<ck_end ?ck'])"
    using assms(2) by (intro drain_chunks_whole) auto
  also have "map (\<lambda>p. (p, into_neighbors (ck_rs ?ck' ! (p - ck_start ?ck')))) [ck_start ?ck'..<ck_end ?ck'] =
      map (point_row r0 ?recs) [ps..<pe]"
    by (auto simp: point_row_def feed_def)
  finally show ?thesis by simp
qed

section \<open>All shards\<close>

text \<open>The order in which the reducer replays the records of all segments.\<close>

function (sequential) replay :: "sorts \<Rightarrow> segment list \<Rightarrow> spill_record list" where
  "replay S [] = []"
| "replay S (g # gs) =
     records_of (group_order S (takeWhile (\<lambda>h. sg_shard_id h = sg_shard_id g) (g # gs))) @
     replay S (dropWhile (\<lambda>h. sg_shard_id h = sg_shard_id g) gs)"
  by pat_completeness auto
termination
  by (relation "measure (\<lambda>(S, gs). length gs)") (auto simp: le_imp_less_Suc length_dropWhile_le)

declare replay.simps(2) [simp del]

lemma mset_records_of: "mset (records_of gs) = segmented gs"
  by (induction gs) auto

lemma segmented_mset: "mset gs = mset hs \<Longrightarrow> segmented gs = segmented hs"
proof -
  have s: "segmented xs = (\<Sum>g\<in>#mset xs. mset (sg_records g))" for xs :: "segment list"
    by (induction xs) auto
  assume "mset gs = mset hs"
  then show ?thesis by (simp add: s)
qed

lemma mset_group_order:
  assumes "sorts_ok S" shows "mset (records_of (group_order S gs)) = segmented gs"
proof -
  have "mset (group_order S gs) = mset (map (resort_segment S) gs)"
    using assms unfolding group_order_def sorts_ok_def by (blast intro: unstable_sortD(1))
  then have "segmented (group_order S gs) = segmented (map (resort_segment S) gs)"
    by (rule segmented_mset)
  moreover have "mset (by_record_src S sr_src b) = mset b" for b
    using assms by (auto simp: sorts_ok_def dest: unstable_sortD)
  then have "segmented (map (resort_segment S) gs) = segmented gs"
    by (induction gs) (auto simp: resort_segment_def)
  ultimately show ?thesis by (simp add: mset_records_of)
qed

lemma set_group_order:
  "sorts_ok S \<Longrightarrow> set (records_of (group_order S gs)) = set (records_of gs)"
  by (metis mset_group_order mset_records_of set_mset_mset)

lemma mset_replay: "sorts_ok S \<Longrightarrow> mset (replay S gs) = segmented gs"
proof (induction S gs rule: replay.induct)
  case (2 S g gs)
  let ?P = "\<lambda>h. sg_shard_id h = sg_shard_id g"
  have "segmented gs = segmented (takeWhile ?P gs @ dropWhile ?P gs)"
    by (simp only: takeWhile_dropWhile_id)
  then have "segmented gs = segmented (takeWhile ?P gs) + segmented (dropWhile ?P gs)"
    by (simp only: segmented_simps)
  then show ?case using 2 by (simp add: replay.simps(2) mset_group_order)
qed simp

lemma set_replay: "sorts_ok S \<Longrightarrow> set (replay S gs) = set (records_of gs)"
  by (metis mset_replay mset_records_of set_mset_mset)

definition in_shards :: "usize \<Rightarrow> nat \<Rightarrow> segment list \<Rightarrow> bool" where
  "in_shards sp N gs \<longleftrightarrow> sorted (map sg_shard_id gs) \<and> (\<forall>g \<in> set gs. segment_ok sp g) \<and>
     (\<forall>r \<in> set (records_of gs). unat (sr_src r) < N)"

lemma in_shards_shard:
  assumes "in_shards sp N gs" "g \<in> set gs" "r \<in> set (sg_records g)" "0 < sp"
  shows "sg_shard_id g * sp \<le> unat (sr_src r)" "unat (sr_src r) < sg_shard_id g * sp + sp"
    "unat (sr_src r) < N"
proof -
  have "unat (sr_src r) div sp = sg_shard_id g"
    using assms by (auto simp: in_shards_def segment_ok_def)
  then show "sg_shard_id g * sp \<le> unat (sr_src r)" "unat (sr_src r) < sg_shard_id g * sp + sp"
    using assms(4) by (metis div_times_less_eq_dividend, metis dividend_less_div_times add.commute mult.commute)
  show "unat (sr_src r) < N" using assms by (auto simp: in_shards_def)
qed

lemma in_shards_start:
  assumes "in_shards sp N gs" "g \<in> set gs" "0 < sp"
  shows "sg_shard_id g * sp < N" "sat_mul (sg_shard_id g) sp = sg_shard_id g * sp"
proof -
  have "segment_ok sp g" using assms by (simp add: in_shards_def)
  then have "hd (sg_records g) \<in> set (sg_records g)" by (simp add: segment_ok_def)
  note h = in_shards_shard [OF assms(1,2) this assms(3)]
  show "sg_shard_id g * sp < N" using h by linarith
  have "unat (sr_src (hd (sg_records g))) < 2 ^ 32"
    using unsigned_less [of "sr_src (hd (sg_records g))"] by simp
  then have "sg_shard_id g * sp \<le> usize_max" using h by (simp add: usize_max_def)
  then show "sat_mul (sg_shard_id g) sp = sg_shard_id g * sp" by simp
qed

lemma in_shards_minmax:
  assumes "in_shards sp N gs" "g \<in> set gs" "0 < sp"
  shows "\<not> (unat (sg_src_min g) < sg_shard_id g * sp \<or>
    min (sg_shard_id g * sp + sp) N \<le> unat (sg_src_max g))"
proof -
  have "segment_ok sp g" using assms by (simp add: in_shards_def)
  then have "hd (sg_records g) \<in> set (sg_records g)" "last (sg_records g) \<in> set (sg_records g)"
    "sg_src_min g = sr_src (hd (sg_records g))" "sg_src_max g = sr_src (last (sg_records g))"
    by (simp_all add: segment_ok_def)
  then show ?thesis using in_shards_shard [OF assms(1,2) _ assms(3)]
    by (metis leD min_less_iff_conj)
qed

lemma in_shards_split:
  assumes "in_shards sp N (g # gs)"
  defines "same \<equiv> takeWhile (\<lambda>h. sg_shard_id h = sg_shard_id g) (g # gs)"
    and "rest \<equiv> dropWhile (\<lambda>h. sg_shard_id h = sg_shard_id g) gs"
  shows "in_shards sp N same" "in_shards sp N rest" "set same \<subseteq> set (g # gs)"
    "\<forall>h \<in> set same. sg_shard_id h = sg_shard_id g" "\<forall>h \<in> set rest. sg_shard_id g < sg_shard_id h"
proof -
  have eq: "g # gs = same @ rest" by (simp add: same_def rest_def)
  then show "in_shards sp N same" "in_shards sp N rest" "set same \<subseteq> set (g # gs)"
    using assms(1) by (auto simp: in_shards_def sorted_append simp del: takeWhile.simps dropWhile.simps)
  show "\<forall>h \<in> set same. sg_shard_id h = sg_shard_id g"
    by (auto simp: same_def dest: set_takeWhileD)
  have "sorted (map sg_shard_id gs)" "\<forall>h \<in> set gs. sg_shard_id g \<le> sg_shard_id h"
    using assms(1) by (auto simp: in_shards_def)
  then show "\<forall>h \<in> set rest. sg_shard_id g < sg_shard_id h"
    unfolding rest_def by (induction gs) (auto simp: order_less_le split: if_splits)
qed

lemma point_row_cong:
  "record_cands p recs = record_cands p recs' \<Longrightarrow> point_row r0 recs p = point_row r0 recs' p"
  by (simp add: point_row_def)

lemma run_rows_split:
  assumes "a \<le> b" "b \<le> c"
  shows "run_rows cb st (map f [a..<c]) =
    res_bind (run_rows cb st (map f [a..<b])) (\<lambda>st'. run_rows cb st' (map f [b..<c]))"
proof -
  have "[a..<c] = [a..<b] @ [b..<c]" using assms by (metis le_Suc_ex upt_add_eq_append)
  then show ?thesis by (simp add: run_rows_append)
qed

lemma record_cands_outside:
  assumes "in_shards sp N gs" "0 < sp" "sorts_ok S"
    and "\<forall>g \<in> set gs. p < sg_shard_id g * sp \<or> sg_shard_id g * sp + sp \<le> p"
  shows "record_cands p (replay S gs) = []" "record_cands p (records_of (group_order S gs)) = []"
proof -
  have none: "\<forall>r \<in> set (records_of gs). unat (sr_src r) \<noteq> p"
    using in_shards_shard [OF assms(1) _ _ assms(2)] assms(4) by fastforce
  show "record_cands p (replay S gs) = []"
    by (rule record_cands_Nil) (unfold set_replay [OF assms(3)], rule none)
  show "record_cands p (records_of (group_order S gs)) = []"
    by (rule record_cands_Nil) (unfold set_group_order [OF assms(3)], rule none)
qed

lemma shard_next_le:
  assumes "k < k'" shows "k * sp + sp \<le> k' * (sp :: nat)"
proof -
  have "Suc k * sp \<le> k' * sp" using assms by (intro mult_le_mono1) simp
  then show ?thesis by simp
qed

text \<open>
  One iteration of the shard loop: \<open>lo\<close> and \<open>hi\<close> bound the shard's points. The rows before the
  shard are empty, the shard's own rows come from its segments only, the rows after it from the
  other segments only.
\<close>

lemma shard_rows:
  assumes "sorts_ok S" "0 < sp" "reservoir_new n = Inr r0" "in_shards sp N (g # gs)"
  defines "lo \<equiv> sg_shard_id g * sp"
  defines "hi \<equiv> min (lo + sp) N"
    and "same \<equiv> takeWhile (\<lambda>h. sg_shard_id h = sg_shard_id g) (g # gs)"
    and "rest \<equiv> dropWhile (\<lambda>h. sg_shard_id h = sg_shard_id g) gs"
    and "row \<equiv> point_row r0 (replay S (g # gs))"
  shows "b \<le> lo \<or> b \<le> a \<Longrightarrow> map row [a..<b] = map (\<lambda>p. (p, [])) [a..<b]"
    "lo \<le> a \<Longrightarrow> a < hi \<Longrightarrow> reduce_in_memory_segment_group_in_range S cb a hi n sp same st =
      run_rows cb st (map row [a..<hi])"
    "hi \<le> a \<Longrightarrow> map row [a..<N] = map (point_row r0 (replay S rest)) [a..<N]"
    "\<forall>h \<in> set rest. lo + sp \<le> sg_shard_id h * sp"
proof -
  note parts = in_shards_split [OF assms(4), folded same_def rest_def]
  have replay: "replay S (g # gs) = records_of (group_order S same) @ replay S rest"
    by (simp add: replay.simps(2) same_def rest_def)
  show later: "\<forall>h \<in> set rest. lo + sp \<le> sg_shard_id h * sp"
    using parts(5) shard_next_le by (auto simp: lo_def)
  have "into_neighbors r0 = []"
    using assms(3) by (auto simp: reservoir_new_def into_neighbors_def split: if_splits)
  moreover have "record_cands p (replay S (g # gs)) = []" if "p < lo" for p
    using that parts(4) later record_cands_outside(2) [OF parts(1) assms(2,1), of p]
      record_cands_outside(1) [OF parts(2) assms(2,1), of p]
    by (fastforce simp: replay lo_def)
  ultimately show "b \<le> lo \<or> b \<le> a \<Longrightarrow> map row [a..<b] = map (\<lambda>p. (p, [])) [a..<b]"
    by (auto simp: row_def point_row_def)
  have "record_cands p (replay S (g # gs)) = record_cands p (replay S rest)" if "hi \<le> p" "p < N" for p
  proof -
    have "lo + sp \<le> p" using that by (simp add: hi_def)
    then show ?thesis
      using parts(4) record_cands_outside(2) [OF parts(1) assms(2,1), of p]
      by (auto simp: replay lo_def)
  qed
  then show "hi \<le> a \<Longrightarrow> map row [a..<N] = map (point_row r0 (replay S rest)) [a..<N]"
    by (auto simp: row_def point_row_def)
  have own: "row p = point_row r0 (records_of (group_order S same)) p" if "p < lo + sp" for p
    using that later record_cands_outside(1) [OF parts(2) assms(2,1), of p]
    by (fastforce simp: row_def replay point_row_def)
  have below: "\<forall>r \<in> set (records_of (group_order S same)). unat (sr_src r) < hi"
    using in_shards_shard(2,3) [OF parts(1) _ _ assms(2)] parts(4)
    unfolding set_group_order [OF assms(1)] by (fastforce simp: lo_def hi_def)
  assume a: "lo \<le> a" "a < hi"
  then have "hi - a \<le> sp" by (simp add: hi_def)
  have rows_own: "map row [a..<hi] = map (point_row r0 (records_of (group_order S same))) [a..<hi]"
    by (rule map_cong [OF refl]) (simp add: own hi_def)
  from reduce_group_rows [OF assms(3) a(2) \<open>hi - a \<le> sp\<close> below]
  show "reduce_in_memory_segment_group_in_range S cb a hi n sp same st =
      run_rows cb st (map row [a..<hi])"
    by (simp only: rows_own)
qed

lemma reduce_shards_step:
  assumes "sorts_ok S" "0 < sp" "reservoir_new n = Inr r0" "in_shards sp N (g # gs)"
    and "next \<le> max (sg_shard_id g * sp) point_start" "point_start \<le> next"
  defines "lo \<equiv> sg_shard_id g * sp"
  defines "hi \<equiv> min (lo + sp) N"
    and "rest \<equiv> dropWhile (\<lambda>h. sg_shard_id h = sg_shard_id g) gs"
    and "row \<equiv> point_row r0 (replay S (g # gs))"
  shows "reduce_shards S cb N point_start n sp next st (g # gs) =
    (if hi \<le> point_start then reduce_shards S cb N point_start n sp next st rest
     else res_bind (run_rows cb st (map row [next..<hi]))
       (\<lambda>st'. reduce_shards S cb N point_start n sp hi st' rest))"
proof -
  let ?same = "takeWhile (\<lambda>h. sg_shard_id h = sg_shard_id g) (g # gs)" and ?fr = "max lo point_start"
  note rows = shard_rows [OF assms(1-4), folded lo_def, folded hi_def rest_def row_def]
  have lo: "sat_mul (sg_shard_id g) sp = lo" "lo < N"
    using in_shards_start [OF assms(4) _ assms(2), of g] by (simp_all add: lo_def)
  have guard: "\<not> (\<exists>h \<in> set ?same. unat (sg_src_min h) < lo \<or> hi \<le> unat (sg_src_max h))"
    using in_shards_minmax [OF in_shards_split(1) [OF assms(4)] _ assms(2)]
      in_shards_split(4) [OF assms(4)]
    by (fastforce simp only: lo_def hi_def)
  have split: "run_rows cb st (map row [next..<hi]) =
      res_bind (run_rows cb st (map row [next..<?fr])) (\<lambda>st'. run_rows cb st' (map row [?fr..<hi]))"
    if "point_start < hi"
    using that assms(2,5) lo(2) by (intro run_rows_split) (auto simp: lo_def hi_def)
  have gap: "run_rows cb st (map row [next..<?fr]) =
      (if next < ?fr then emit_empty_point_range cb st next ?fr else Inr st)"
  proof -
    have "?fr \<le> lo \<or> ?fr \<le> next" using assms(6) by auto
    then show ?thesis
      by (simp only: rows(1)) (simp add: emit_empty_point_range_def emit_empty_rows not_less upt_conv_Nil)
  qed
  show ?thesis
  proof (cases "hi \<le> point_start")
    case True
    then show ?thesis using lo by (simp add: reduce_shards.simps(2) Let_def rest_def hi_def)
  next
    case False
    then have "lo \<le> ?fr" "?fr < hi" using lo(2) assms(2) by (auto simp: hi_def)
    note mid = rows(2) [OF this]
    have "reduce_shards S cb N point_start n sp next st (g # gs) =
        res_bind (run_rows cb st (map row [next..<?fr]))
          (\<lambda>st1. res_bind (run_rows cb st1 (map row [?fr..<hi]))
            (\<lambda>st2. reduce_shards S cb N point_start n sp hi st2 rest))"
      unfolding gap mid [symmetric] using False lo guard
      by (simp add: reduce_shards.simps(2) [of S cb N] Let_def res_bind_def hi_def [symmetric]
          rest_def [symmetric] del: takeWhile.simps bex_simps cong: sum.case_cong)
    with False split show ?thesis by (simp add: res_bind_assoc)
  qed
qed

lemma reduce_shards_rows:
  assumes "sorts_ok S" "0 < sp" "reservoir_new n = Inr r0"
  shows "in_shards sp N gs \<Longrightarrow> point_start \<le> next \<Longrightarrow> next \<le> N \<Longrightarrow>
    \<forall>g \<in> set gs. next \<le> max (sg_shard_id g * sp) point_start \<Longrightarrow>
    reduce_shards S cb N point_start n sp next st gs =
      run_rows cb st (map (point_row r0 (replay S gs)) [next..<N])"
proof (induction gs arbitrary: "next" st rule: length_induct)
  case (1 gs0)
  show ?case
  proof (cases gs0)
    case Nil
    have "into_neighbors r0 = []"
      using assms(3) by (auto simp: reservoir_new_def into_neighbors_def split: if_splits)
    then have "point_row r0 [] = (\<lambda>p. (p, []))" by (auto simp: point_row_def)
    then show ?thesis using Nil by (simp add: emit_empty_point_range_def emit_empty_rows)
  next
    case (Cons g gs)
    let ?rest = "dropWhile (\<lambda>h. sg_shard_id h = sg_shard_id g) gs"
    let ?hi = "min (sg_shard_id g * sp + sp) N" and ?row = "point_row r0 (replay S gs0)"
    note ins = "1.prems"(1) [unfolded Cons]
    have first: "next \<le> max (sg_shard_id g * sp) point_start" using "1.prems"(4) Cons by simp
    note step = reduce_shards_step [OF assms ins first "1.prems"(2), of cb st, folded Cons]
    note rows = shard_rows [OF assms ins, folded Cons]
    have IH: "reduce_shards S cb N point_start n sp b st' ?rest =
        run_rows cb st' (map ?row [b..<N])"
      if "point_start \<le> b" "b \<le> N" "?hi \<le> b"
        "\<forall>g \<in> set ?rest. b \<le> max (sg_shard_id g * sp) point_start" for b st'
    proof -
      have "length ?rest < length gs0" by (simp add: Cons le_imp_less_Suc length_dropWhile_le)
      then have "reduce_shards S cb N point_start n sp b st' ?rest =
          run_rows cb st' (map (point_row r0 (replay S ?rest)) [b..<N])"
        using "1.IH" that in_shards_split(2) [OF ins] by blast
      then show ?thesis by (simp only: rows(3) [OF that(3)])
    qed
    show ?thesis
    proof (cases "?hi \<le> point_start")
      case True
      have "\<forall>g \<in> set ?rest. next \<le> max (sg_shard_id g * sp) point_start"
        using "1.prems"(4) Cons by (auto dest: set_dropWhileD)
      then show ?thesis using True step IH [of "next" st] "1.prems" by simp
    next
      case False
      have "\<forall>g \<in> set ?rest. ?hi \<le> max (sg_shard_id g * sp) point_start" using rows(4) by fastforce
      moreover have "next \<le> ?hi"
        using first False in_shards_start(1) [OF ins _ assms(2), of g] "1.prems"(3) by auto
      ultimately show ?thesis using False step IH [of ?hi]
        by (simp add: run_rows_split [of "next" ?hi N])
    qed
  qed
qed

section \<open>The whole spill path\<close>

lemma record_cands_mset:
  assumes "mset recs = mset (map edge_record es)" "\<forall>e \<in> set es. e_p e < 2 ^ 32"
  shows "mset (record_cands p recs) = mset (cands_for p es)"
proof -
  have "mset (record_cands p recs) = mset (cands_for p (map to_pending_edge (map edge_record es)))"
    unfolding record_cands_def using assms(1) by (intro mset_cands_for) (metis mset_map)
  also have "cands_for p (map to_pending_edge (map edge_record es)) = cands_for p es"
    using assms(2) by (induction es) (simp_all add: edge_record_src, simp add: edge_record_def edge_cand_def)
  finally show ?thesis .
qed

lemma reduce_in_memory_rows:
  assumes "sorts_ok S" "reservoir_new n = Inr r0" "\<forall>g \<in> set gs. segment_ok sp g" "0 < sp"
    and "segmented gs = mset (map edge_record es)" "\<forall>e \<in> set es. e_p e < N" "N \<le> 2 ^ 32"
  obtains stats order where "\<And>p. mset (order p) = mset (cands_for p es)"
    "reduce_in_memory S N point_start n (sp, gs) cb st =
       res_bind (run_rows cb st (map (\<lambda>p. (p, into_neighbors (insert_all r0 (order p)))) [point_start..<N]))
         (\<lambda>st'. Inr (st', stats))"
proof -
  define segs where "segs = by_shard_min S (\<lambda>g. (sg_shard_id g, sg_src_min g)) gs"
  have m: "mset segs = mset gs" and s: "sorted (map (\<lambda>g. (sg_shard_id g, sg_src_min g)) segs)"
    using assms(1) unfolding segs_def sorts_ok_def by (auto dest: unstable_sortD)
  have recs: "mset (records_of segs) = mset (map edge_record es)"
    using segmented_mset [OF m] assms(5) by (simp add: mset_records_of)
  have small: "\<forall>e \<in> set es. e_p e < 2 ^ 32" using assms(6,7) by auto
  have order: "mset (record_cands p (replay S segs)) = mset (cands_for p es)" for p
    using recs mset_replay [OF assms(1), of segs] small
    by (intro record_cands_mset) (simp_all add: mset_records_of)
  have "sorted (map sg_shard_id segs)"
    using s by (induction segs) (auto simp: less_eq_prod_def)
  moreover have "\<forall>g \<in> set segs. segment_ok sp g" using m assms(3) by (metis mset_eq_setD)
  moreover have "\<forall>r \<in> set (records_of segs). unat (sr_src r) < N"
    using mset_eq_setD [OF recs] assms(6) small by (auto simp: edge_record_src)
  ultimately have "in_shards sp N segs" by (simp add: in_shards_def)
  note rows = reduce_shards_rows [OF assms(1,4,2) this order.refl]
  show thesis
  proof (cases "N \<le> point_start")
    case True
    then show thesis by (intro that [OF order]) (simp add: reduce_in_memory_def)
  next
    case False
    then have "reduce_shards S cb N point_start n sp point_start st segs =
        run_rows cb st (map (point_row r0 (replay S segs)) [point_start..<N])"
      by (intro rows) auto
    moreover have "point_row r0 (replay S segs) =
        (\<lambda>p. (p, into_neighbors (insert_all r0 (record_cands p (replay S segs)))))"
      by (rule ext) (simp add: point_row_def)
    ultimately show thesis using False
      by (intro that [OF order]) (simp add: reduce_in_memory_def segs_def [symmetric] Let_def)
  qed
qed

definition spill_pipeline :: "sorts \<Rightarrow> (usize list \<Rightarrow> usize list) \<Rightarrow> usize \<Rightarrow> usize \<Rightarrow>
    pending_edge list list \<Rightarrow> nat \<Rightarrow> nat \<Rightarrow> usize \<Rightarrow> 'st callback \<Rightarrow> 'st \<Rightarrow> 'st result" where
  "spill_pipeline S hm_order cache_bytes shard_points batches num_points point_start n cb st =
     res_bind (spill_build S hm_order cache_bytes shard_points batches)
       (\<lambda>artifacts. res_bind (reduce_in_memory S num_points point_start n artifacts cb st)
          (\<lambda>(st', stats). Inr st'))"

lemma spill_pipeline_run:
  assumes "sorts_ok S" "\<forall>ks. mset (hm_order ks) = mset ks" "reservoir_new n = Inr r0"
    and "\<forall>e \<in> set (concat batches). e_p e < N" "N \<le> 2 ^ 32"
  obtains order where "\<And>p. mset (order p) = mset (cands_for p (concat batches))"
    "spill_pipeline S hm_order c m batches N point_start n cb st =
       run_rows cb st (map (\<lambda>p. (p, into_neighbors (insert_all r0 (order p)))) [point_start..<N])"
proof -
  have small: "\<forall>e \<in> set (concat batches). e_p e < 2 ^ 32" using assms(4,5) by fastforce
  have hm: "\<And>ks. mset (hm_order ks) = mset ks" using assms(2) by simp
  from spill_build_ok [OF assms(1) hm small] obtain gs where
    gs: "spill_build S hm_order c m batches = Inr (max m 1, gs)"
    "segmented gs = mset (map edge_record (concat batches))" "\<forall>g \<in> set gs. segment_ok (max m 1) g" .
  have "0 < max m 1" by simp
  obtain order stats where
    order: "\<And>p. mset (order p) = mset (cands_for p (concat batches))" and
    red: "reduce_in_memory S N point_start n (max m 1, gs) cb st =
       res_bind (run_rows cb st (map (\<lambda>p. (p, into_neighbors (insert_all r0 (order p)))) [point_start..<N]))
         (\<lambda>st'. Inr (st', stats))"
    by (rule reduce_in_memory_rows [OF assms(1,3) gs(3) \<open>0 < max m 1\<close> gs(2) assms(4,5),
        where point_start = point_start and cb = cb and st = st]) (rule that)
  show thesis
    by (rule that [OF order])
      (simp only: spill_pipeline_def gs(1) red res_bind_assoc res_bind_simps prod.case res_bind_Inr)
qed

text \<open>C12: The spill path end to end. Whatever the cache size, the shard size, the order of the unstable
  sorts and the iteration order of the buffer map: the reducer calls the callback for the points
  \<open>point_start\<close>, \<dots>, \<open>num_points - 1\<close> in this order, each exactly once, with the neighbours a fresh
  reservoir keeps of that point's own candidate edges in some order; an error of the callback is
  returned at once and nothing else can fail.\<close>

theorem spill_pipeline_rows:
  assumes "sorts_ok S" "\<forall>ks. mset (hm_order ks) = mset ks" "reservoir_new n = Inr r0"
    and "\<forall>e \<in> set (concat batches). e_p e < num_points" "num_points \<le> 2 ^ 32"
  shows "\<exists>order. (\<forall>p. mset (order p) = mset (cands_for p (concat batches))) \<and>
    spill_pipeline S hm_order cache_bytes shard_points batches num_points point_start n cb st =
      run_rows cb st (map (\<lambda>p. (p, into_neighbors (insert_all r0 (order p)))) [point_start..<num_points])"
  by (rule spill_pipeline_run [OF assms, where c = cache_bytes and m = shard_points
        and point_start = point_start and cb = cb and st = st]) blast

text \<open>A callback that records the rows it is given.\<close>

definition collect_rows :: "(u32 \<times> u32 list) list callback" where
  "collect_rows st p ns = Inr (st @ [(p, ns)])"

theorem spill_pipeline_rows_witness:
  "\<exists>order. (\<forall>p. mset (order p) = mset (cands_for p (concat sample_batches))) \<and>
    spill_pipeline stable_sorts rev 1024 2 sample_batches 5 1 2 collect_rows [] =
      run_rows collect_rows [] (map (\<lambda>p. (p, into_neighbors (insert_all empty2 (order p)))) [1..<5])"
  by (rule spill_pipeline_rows)
    (simp_all add: stable_sorts_ok reservoir_new_def empty2_def sample_batches_def)

section \<open>The spill path and the direct path agree\<close>

lemma direct_path_cands:
  assumes "unstable_sort srt" "\<forall>e \<in> set (concat batches). e_p e < length rs"
  obtains order where "\<And>p. mset (order p) = mset (cands_for p (concat batches))"
    "flush_batches (flush_pending_edges_to_reservoirs srt) batches rs =
       Inr (map (\<lambda>p. insert_all (rs ! p) (order p)) [0..<length rs])"
  using assms(2)
proof (induction batches arbitrary: rs thesis)
  case Nil
  show ?case by (rule Nil(1) [of "\<lambda>_. []"]) (simp_all add: map_nth)
next
  case (Cons es bs)
  define es' where "es' = (if es = [] then [] else srt e_p es)"
  have m: "mset es' = mset es" using assms(1) by (simp add: es'_def unstable_sortD)
  let ?rs = "map (\<lambda>p. insert_all (rs ! p) (cands_for p es')) [0..<length rs]"
  have "\<forall>e \<in> set es'. e_p e < length rs" using mset_eq_setD [OF m] Cons.prems(2) by simp
  then have first: "flush_pending_edges_to_reservoirs srt es rs = Inr ?rs"
    by (simp add: flush_pending_edges_to_reservoirs_def es'_def insert_edges_ok map_nth split: if_splits)
  from Cons.IH [of ?rs] Cons.prems(2) obtain order where
    order: "\<And>p. mset (order p) = mset (cands_for p (concat bs))" and
    "flush_batches (flush_pending_edges_to_reservoirs srt) bs ?rs =
       Inr (map (\<lambda>p. insert_all (?rs ! p) (order p)) [0..<length ?rs])" by (auto simp: Ball_def)
  then show ?case using first m
    by (intro Cons.prems(1) [of "\<lambda>p. cands_for p es' @ order p"])
      (simp_all add: insert_all_append mset_cands_for [OF m])
qed

text \<open>C11: Equivalence of the two ways to build the graph. If for every point no two of its candidates
  share a target, a hash or a stored distance, the spill path hands to its callback exactly the
  rows that the direct path (edges inserted into one reservoir per point as they arrive) ends
  with, whatever the cache and shard sizes.\<close>

theorem spill_equals_direct:
  assumes "sorts_ok S" "\<forall>ks. mset (hm_order ks) = mset ks" "unstable_sort srt"
    and "reservoir_new n = Inr r0" "num_points \<le> 2 ^ 32"
    and "\<forall>e \<in> set (concat batches). e_p e < num_points"
    and "\<forall>p < num_points. distinct_stream (cands_for p (concat batches))"
  shows "\<exists>rs. flush_batches (flush_pending_edges_to_reservoirs srt) batches (replicate num_points r0) = Inr rs \<and>
    spill_pipeline S hm_order cache_bytes shard_points batches num_points 0 n cb st =
      run_rows cb st (map (\<lambda>p. (p, into_neighbors (rs ! p))) [0..<num_points])"
proof -
  have "\<forall>e \<in> set (concat batches). e_p e < length (replicate num_points r0)" using assms(6) by simp
  from direct_path_cands [OF assms(3) this] obtain od where
    od: "\<And>p. mset (od p) = mset (cands_for p (concat batches))" and
    direct: "flush_batches (flush_pending_edges_to_reservoirs srt) batches (replicate num_points r0) =
      Inr (map (\<lambda>p. insert_all (replicate num_points r0 ! p) (od p)) [0..<num_points])" by auto
  obtain os where
    os: "\<And>p. mset (os p) = mset (cands_for p (concat batches))" and
    spill: "spill_pipeline S hm_order cache_bytes shard_points batches num_points 0 n cb st =
      run_rows cb st (map (\<lambda>p. (p, into_neighbors (insert_all r0 (os p)))) [0..<num_points])"
    by (rule spill_pipeline_run [OF assms(1,2,4,6,5), where c = cache_bytes and m = shard_points
          and point_start = 0 and cb = cb and st = st]) (rule that)
  have "slots (insert_all r0 (os p)) = slots (insert_all r0 (od p))" if "p < num_points" for p
    using assms(7) that os od by (intro insert_all_order [OF assms(4)])
      (auto intro: distinct_stream_perm [of "cands_for p (concat batches)"])
  then have "map (\<lambda>p. (p, into_neighbors (insert_all r0 (os p)))) [0..<num_points] =
      map (\<lambda>p. (p, into_neighbors (map (\<lambda>p. insert_all (replicate num_points r0 ! p) (od p))
        [0..<num_points] ! p))) [0..<num_points]"
    by (simp add: into_neighbors_def)
  with direct spill show ?thesis by simp
qed

lemma sample_batches_distinct: "\<forall>p < 4. distinct_stream (cands_for p (concat sample_batches))"
proof -
  have "distinct_stream [(4, 2, 0x40a00000), (7, 5, 0x40800000)]" "distinct_stream [(5, 1, 0x40400000)]"
    "distinct_stream []" by code_simp+
  then show ?thesis by (simp add: sample_batches_def edge_cand_def)
qed

theorem spill_equals_direct_witness:
  "\<exists>rs. flush_batches (flush_pending_edges_to_reservoirs sort_key) sample_batches (replicate 4 empty2) = Inr rs \<and>
    spill_pipeline stable_sorts id 32 2 sample_batches 4 0 2 collect_rows [] =
      run_rows collect_rows [] (map (\<lambda>p. (p, into_neighbors (rs ! p))) [0..<4])"
  by (rule spill_equals_direct [OF stable_sorts_ok _ unstable_sort_sort_key _ _ _ sample_batches_distinct])
    (simp_all add: reservoir_new_def empty2_def sample_batches_def)

end
