(* ===== verification/Bytes.thy ===== *)
theory Bytes
  imports Prelude
begin

unbundle bit_operations_syntax

text \<open>
  Byte streams and files: the little-endian encodings of the standard library
  (\<open>to_le_bytes\<close>, \<open>from_le_bytes\<close>), \<open>read_exact\<close> on a reader, positional writes on a file.
  A file is the list of its bytes; a reader is the list of the bytes still to come.
\<close>

section \<open>Little-endian words\<close>

definition le16 :: "u16 \<Rightarrow> u8 list" where
  "le16 w = [ucast w, ucast (drop_bit 8 w)]"

definition le32 :: "u32 \<Rightarrow> u8 list" where
  "le32 w = [ucast w, ucast (drop_bit 8 w), ucast (drop_bit 16 w), ucast (drop_bit 24 w)]"

definition le64 :: "u64 \<Rightarrow> u8 list" where
  "le64 w = le32 (ucast w) @ le32 (ucast (drop_bit 32 w))"

fun of_le16 :: "u8 list \<Rightarrow> u16" where
  "of_le16 [a, b] = ucast a OR push_bit 8 (ucast b)"
| "of_le16 _ = 0"

fun of_le32 :: "u8 list \<Rightarrow> u32" where
  "of_le32 [a, b, c, d] =
     ucast a OR push_bit 8 (ucast b) OR push_bit 16 (ucast c) OR push_bit 24 (ucast d)"
| "of_le32 _ = 0"

definition of_le64 :: "u8 list \<Rightarrow> u64" where
  "of_le64 bs = ucast (of_le32 (take 4 bs)) OR push_bit 32 (ucast (of_le32 (drop 4 bs)))"

lemma length_le [simp]: "length (le16 v) = 2" "length (le32 w) = 4" "length (le64 u) = 8"
  by (simp_all add: le16_def le32_def le64_def)

lemma of_le16_le16 [simp]: "of_le16 (le16 w) = w"
  by (rule bit_word_eqI) (auto simp: le16_def bit_simps)

lemma of_le32_le32 [simp]: "of_le32 (le32 w) = w"
proof (rule bit_word_eqI)
  fix n assume "n < LENGTH(32)"
  then consider "n < 8" | "8 \<le> n \<and> n < 16" | "16 \<le> n \<and> n < 24" | "24 \<le> n \<and> n < 32" by force
  then show "bit (of_le32 (le32 w)) n = bit w n" by cases (auto simp: le32_def bit_simps)
qed

lemma of_le64_le64 [simp]: "of_le64 (le64 w) = w"
  by (rule bit_word_eqI) (auto simp: of_le64_def le64_def bit_simps)

section \<open>Readers\<close>

definition read_exact :: "nat \<Rightarrow> u8 list \<Rightarrow> (u8 list \<times> u8 list) result" where
  "read_exact n bs =
     (if length bs < n then Inl (Err (Io ''failed to fill whole buffer''))
      else Inr (take n bs, drop n bs))"

definition read_u32 :: "u8 list \<Rightarrow> (u32 \<times> u8 list) result" where
  "read_u32 bs = res_bind (read_exact 4 bs) (\<lambda>(b, rest). Inr (of_le32 b, rest))"

definition read_u64 :: "u8 list \<Rightarrow> (u64 \<times> u8 list) result" where
  "read_u64 bs = res_bind (read_exact 8 bs) (\<lambda>(b, rest). Inr (of_le64 b, rest))"

lemma read_exact_append [simp]: "length b = n \<Longrightarrow> read_exact n (b @ rest) = Inr (b, rest)"
  by (simp add: read_exact_def)

lemma read_u32_append [simp]: "read_u32 (le32 w @ rest) = Inr (w, rest)"
  by (simp add: read_u32_def)

lemma read_u64_append [simp]: "read_u64 (le64 w @ rest) = Inr (w, rest)"
  by (simp add: read_u64_def)

lemma read_exact_Inr: "read_exact n bs = Inr (b, rest) \<longleftrightarrow> bs = b @ rest \<and> length b = n"
  by (auto simp: read_exact_def)

lemma read_u32_length: "read_u32 bs = Inr (w, rest) \<Longrightarrow> length bs = length rest + 4"
  by (auto simp: read_u32_def res_bind_Inr_iff read_exact_Inr)

lemma read_u64_length: "read_u64 bs = Inr (w, rest) \<Longrightarrow> length bs = length rest + 8"
  by (auto simp: read_u64_def res_bind_Inr_iff read_exact_Inr)

primrec read_u32s :: "nat \<Rightarrow> u8 list \<Rightarrow> (u32 list \<times> u8 list) result" where
  "read_u32s 0 bs = Inr ([], bs)"
| "read_u32s (Suc n) bs =
     res_bind (read_u32 bs) (\<lambda>(w, rest).
       res_bind (read_u32s n rest) (\<lambda>(ws, rest'). Inr (w # ws, rest')))"

abbreviation le32s :: "u32 list \<Rightarrow> u8 list" where
  "le32s ws \<equiv> concat (map le32 ws)"

lemma length_le32s [simp]: "length (le32s ws) = 4 * length ws"
  by (induction ws) simp_all

lemma read_u32s_append [simp]: "read_u32s (length ws) (le32s ws @ rest) = Inr (ws, rest)"
  by (induction ws) simp_all

lemma read_u32s_length:
  "read_u32s n bs = Inr (ws, rest) \<Longrightarrow> length bs = length rest + 4 * n \<and> length ws = n"
  by (induction n arbitrary: bs ws) (auto simp: res_bind_Inr_iff dest: read_u32_length)

section \<open>Files\<close>

definition set_len :: "nat \<Rightarrow> u8 list \<Rightarrow> u8 list" where
  "set_len n f = take n f @ replicate (n - length f) 0"

definition write_at :: "nat \<Rightarrow> u8 list \<Rightarrow> u8 list \<Rightarrow> u8 list" where
  "write_at off buf f =
     (if buf = [] then f
      else take off f @ replicate (off - length f) 0 @ buf @ drop (off + length buf) f)"

lemma length_set_len [simp]: "length (set_len n f) = n"
  by (simp add: set_len_def)

lemma length_write_at: "length (write_at off buf f) =
   (if buf = [] then length f else max (off + length buf) (length f))"
  by (auto simp: write_at_def)

lemma write_at_end [simp]: "write_at (length f) buf f = f @ buf"
  by (simp add: write_at_def)

lemma write_at_inside:
  "length b = length buf \<Longrightarrow> write_at (length a) buf (a @ b @ c) = a @ buf @ c"
  by (cases "buf = []") (simp_all add: write_at_def)

lemma write_at_split:
  assumes "off \<le> length f"
  shows "write_at (off + length a) b (write_at off a f) = write_at off (a @ b) f"
proof (cases "a = [] \<or> b = []")
  case False
  then show ?thesis using assms by (simp add: write_at_def min_def algebra_simps)
qed (auto simp: write_at_def)

text \<open>
  The write loop \<open>while !buf.is_empty() { write_at .. }\<close>: the operating system may accept fewer
  bytes than offered; \<open>accept off buf\<close> is how many it takes. Zero is the error \<open>e\<close>.
\<close>

function (sequential) write_loop :: "fault \<Rightarrow> (nat \<Rightarrow> u8 list \<Rightarrow> nat) \<Rightarrow> u8 list \<Rightarrow> u8 list \<Rightarrow> nat \<Rightarrow> u8 list result" where
  "write_loop e accept f buf offset =
     (if buf = [] then Inr f
      else
        let written = min (accept offset buf) (length buf) in
        if written = 0 then Inl e
        else write_loop e accept (write_at offset (take written buf) f) (drop written buf)
               (offset + written))"
  by pat_completeness auto
termination
  by (relation "measure (\<lambda>(e, accept, f, buf, off). length buf)") auto

declare write_loop.simps [simp del]

definition accepts :: "(nat \<Rightarrow> u8 list \<Rightarrow> nat) \<Rightarrow> bool" where
  "accepts accept \<longleftrightarrow> (\<forall>off b. b \<noteq> [] \<longrightarrow> 0 < accept off b)"

lemma write_at_split_gen:
  "a \<noteq> [] \<Longrightarrow> write_at (off + length a) b (write_at off a f) = write_at off (a @ b) f"
  by (cases "b = []") (auto simp: write_at_def min_def algebra_simps)

lemma write_loop_ok:
  "accepts accept \<Longrightarrow> write_loop e accept f buf off = Inr (write_at off buf f)"
proof (induction e accept f buf off rule: write_loop.induct)
  case (1 e accept f buf off)
  show ?case
  proof (cases "buf = []")
    case True
    then show ?thesis by (simp add: write_loop.simps write_at_def)
  next
    case False
    define n where "n = min (accept off buf) (length buf)"
    have n: "n \<noteq> 0" using False "1.prems" by (simp add: n_def accepts_def)
    from "1.IH" [OF False n_def n "1.prems"]
    have "write_loop e accept f buf off =
        Inr (write_at (off + n) (drop n buf) (write_at off (take n buf) f))"
      using False n by (subst write_loop.simps) (simp add: n_def [symmetric] Let_def)
    also have "write_at (off + n) (drop n buf) (write_at off (take n buf) f) = write_at off buf f"
      using write_at_split_gen [of "take n buf" off "drop n buf" f] False n by (simp add: n_def)
    finally show ?thesis .
  qed
qed

lemma write_loop_refused:
  "buf \<noteq> [] \<Longrightarrow> accept off buf = 0 \<Longrightarrow> write_loop e accept f buf off = Inl e"
  by (simp add: write_loop.simps)

text \<open>
  The read loops: \<open>give off n\<close> is how many of the \<open>n\<close> bytes asked for at \<open>off\<close> the operating
  system delivers, never past the end of the file. \<open>read_loop\<close> fails at the end of the file,
  \<open>read_partial\<close> fills the rest of the buffer with zeros.
\<close>

definition delivered :: "(nat \<Rightarrow> nat \<Rightarrow> nat) \<Rightarrow> u8 list \<Rightarrow> nat \<Rightarrow> nat \<Rightarrow> nat" where
  "delivered give f off n = min (give off n) (min n (length f - off))"

definition gives :: "(nat \<Rightarrow> nat \<Rightarrow> nat) \<Rightarrow> bool" where
  "gives give \<longleftrightarrow> (\<forall>off n. 0 < n \<longrightarrow> 0 < give off n)"

lemma delivered_le: "delivered give f off n \<le> n"
  by (simp add: delivered_def)

function (sequential) read_loop :: "fault \<Rightarrow> (nat \<Rightarrow> nat \<Rightarrow> nat) \<Rightarrow> u8 list \<Rightarrow> nat \<Rightarrow> nat \<Rightarrow> u8 list result" where
  "read_loop e give f off n =
     (if n = 0 then Inr []
      else let k = delivered give f off n in
        if k = 0 then Inl e
        else res_bind (read_loop e give f (off + k) (n - k)) (\<lambda>bs. Inr (take k (drop off f) @ bs)))"
  by pat_completeness auto
termination
  by (relation "measure (\<lambda>(e, give, f, off, n). n)") auto

function (sequential) read_partial :: "(nat \<Rightarrow> nat \<Rightarrow> nat) \<Rightarrow> u8 list \<Rightarrow> nat \<Rightarrow> nat \<Rightarrow> u8 list" where
  "read_partial give f off n =
     (if n = 0 then []
      else let k = delivered give f off n in
        if k = 0 then replicate n 0
        else take k (drop off f) @ read_partial give f (off + k) (n - k))"
  by pat_completeness auto
termination
  by (relation "measure (\<lambda>(give, f, off, n). n)") auto

declare read_loop.simps [simp del] read_partial.simps [simp del]

lemma take_drop_split: "k \<le> n \<Longrightarrow> take k (drop off f) @ take (n - k) (drop (off + k) f) = take n (drop off f)"
  by (metis add.commute drop_drop le_add_diff_inverse take_add)

lemma read_loop_ok:
  "gives give \<Longrightarrow> off + n \<le> length f \<Longrightarrow> read_loop e give f off n = Inr (take n (drop off f))"
proof (induction e give f off n rule: read_loop.induct)
  case (1 e give f off n)
  show ?case
  proof (cases "n = 0")
    case False
    define k where "k = delivered give f off n"
    have k: "k \<noteq> 0" "k \<le> n" using False "1.prems" by (auto simp: k_def delivered_def gives_def)
    then have "read_loop e give f (off + k) (n - k) = Inr (take (n - k) (drop (off + k) f))"
      using "1.IH" [OF False k_def k(1)] "1.prems" by simp
    then show ?thesis using False k take_drop_split [OF k(2), of off f]
      by (subst read_loop.simps) (simp add: k_def [symmetric] Let_def)
  qed (simp add: read_loop.simps)
qed

lemma read_loop_eof:
  "length f < off + n \<Longrightarrow> n \<noteq> 0 \<Longrightarrow> read_loop e give f off n = Inl e"
proof (induction e give f off n rule: read_loop.induct)
  case (1 e give f off n)
  define k where "k = delivered give f off n"
  show ?case
  proof (cases "k = 0")
    case True
    then show ?thesis using "1.prems" by (subst read_loop.simps) (simp add: k_def [symmetric] Let_def)
  next
    case False
    have "k \<le> n" by (simp add: k_def delivered_le)
    moreover have "k \<noteq> n" using "1.prems" False by (auto simp: k_def delivered_def)
    ultimately have "read_loop e give f (off + k) (n - k) = Inl e"
      using "1.IH" [OF "1.prems"(2) k_def False] "1.prems" by simp
    then show ?thesis using "1.prems" False by (subst read_loop.simps) (simp add: k_def [symmetric] Let_def)
  qed
qed

lemma read_partial_ok:
  "gives give \<Longrightarrow> read_partial give f off n =
     take n (drop off f) @ replicate (n - (length f - off)) 0"
proof (induction give f off n rule: read_partial.induct)
  case (1 give f off n)
  show ?case
  proof (cases "n = 0 \<or> length f \<le> off")
    case True
    then show ?thesis by (subst read_partial.simps) (auto simp: delivered_def)
  next
    case False
    define k where "k = delivered give f off n"
    have k: "k \<noteq> 0" "k \<le> n" "k \<le> length f - off"
      using False "1.prems" by (auto simp: k_def delivered_def gives_def)
    have "read_partial give f (off + k) (n - k) =
        take (n - k) (drop (off + k) f) @ replicate (n - k - (length f - (off + k))) 0"
      using "1.IH" [OF _ k_def k(1) "1.prems"] False by simp
    moreover have "n - k - (length f - (off + k)) = n - (length f - off)" using k by linarith
    ultimately show ?thesis using False k take_drop_split [OF k(2), of off f]
      by (subst read_partial.simps) (simp add: k_def [symmetric] Let_def)
  qed
qed

end
