(* ===== verification/DirectIo.thy ===== *)
theory DirectIo
  imports Bytes
begin

text \<open>
  Aligned (O_DIRECT) and buffered file access: \<^verbatim>\<open>ForgeANN/src/forgeann/direct_io.rs\<close>. With
  direct I/O enabled, a read or write of any byte range is carried out on whole aligned blocks
  through a scratch buffer. How many bytes each system call moves is a parameter
  (\<open>give\<close>, \<open>accept\<close>); the results hold for every choice that makes progress.
\<close>

record direct_io_config =
  dc_enabled :: bool
  dc_alignment :: usize

definition DEFAULT_DIRECT_IO_ALIGNMENT :: usize where
  "DEFAULT_DIRECT_IO_ALIGNMENT = 4096"

definition dc_default :: direct_io_config where
  "dc_default = \<lparr>dc_enabled = False, dc_alignment = DEFAULT_DIRECT_IO_ALIGNMENT\<rparr>"

text \<open>\<open>usize::next_power_of_two\<close>; without overflow checks it returns 0 when the power does not fit.\<close>

function (sequential) pow2_from :: "nat \<Rightarrow> nat \<Rightarrow> nat" where
  "pow2_from acc n = (if acc = 0 \<or> n \<le> acc then acc else pow2_from (2 * acc) n)"
  by pat_completeness auto
termination
  by (relation "measure (\<lambda>(acc, n). n - acc)") auto

declare pow2_from.simps [simp del]

definition next_power_of_two :: "usize \<Rightarrow> usize" where
  "next_power_of_two n = (let p = pow2_from 1 n in if usize_max < p then 0 else p)"

definition enabled_with_alignment :: "usize \<Rightarrow> direct_io_config" where
  "enabled_with_alignment n =
     \<lparr>dc_enabled = True, dc_alignment = next_power_of_two (max n DEFAULT_DIRECT_IO_ALIGNMENT)\<rparr>"

definition effective_alignment :: "direct_io_config \<Rightarrow> usize" where
  "effective_alignment c = next_power_of_two (max (dc_alignment c) DEFAULT_DIRECT_IO_ALIGNMENT)"

definition round_up :: "usize \<Rightarrow> usize \<Rightarrow> usize" where
  "round_up value alignment =
     (if value = 0 then 0
      else let rem = value mod alignment in if rem = 0 then value else value + (alignment - rem))"

definition direct_read_exact_at ::
  "(nat \<Rightarrow> nat \<Rightarrow> nat) \<Rightarrow> direct_io_config \<Rightarrow> u8 list \<Rightarrow> nat \<Rightarrow> nat \<Rightarrow> u8 list result" where
  "direct_read_exact_at give c f n offset =
     (if \<not> dc_enabled c then read_loop (Err (Index ''Unexpected EOF while reading'')) give f offset n
      else
        let alignment = effective_alignment c;
            aligned_offset = offset div alignment * alignment;
            prefix = offset - aligned_offset;
            aligned_len = round_up (sat_add prefix n) alignment;
            scratch = read_partial give f aligned_offset aligned_len
        in Inr (take n (drop prefix scratch)))"

definition direct_write_all_at ::
  "(nat \<Rightarrow> nat \<Rightarrow> nat) \<Rightarrow> (nat \<Rightarrow> u8 list \<Rightarrow> nat) \<Rightarrow> direct_io_config \<Rightarrow> u8 list \<Rightarrow> u8 list \<Rightarrow> nat \<Rightarrow>
   u8 list result" where
  "direct_write_all_at give accept c f buf offset =
     (if \<not> dc_enabled c then write_loop (Err (Index ''Short write while writing'')) accept f buf offset
      else
        let alignment = effective_alignment c;
            aligned_offset = offset div alignment * alignment;
            prefix = offset - aligned_offset;
            aligned_len = round_up (sat_add prefix (length buf)) alignment;
            scratch = (if prefix \<noteq> 0 \<or> aligned_len \<noteq> length buf
                       then read_partial give f aligned_offset aligned_len
                       else replicate aligned_len 0);
            scratch' = take prefix scratch @ buf @ drop (prefix + length buf) scratch
        in write_loop (Err (Index ''Short write while writing'')) accept f scratch' aligned_offset)"

section \<open>Alignment\<close>

lemma pow2_from_ge: "0 < acc \<Longrightarrow> n \<le> pow2_from acc n \<and> acc \<le> pow2_from acc n \<and> (\<exists>k. pow2_from acc n = acc * 2 ^ k)"
proof (induction acc n rule: pow2_from.induct)
  case (1 acc n)
  show ?case
  proof (cases "n \<le> acc")
    case True
    then show ?thesis by (subst (1 2 3) pow2_from.simps) (auto intro: exI [of _ 0])
  next
    case False
    then have "pow2_from acc n = pow2_from (2 * acc) n" using 1 by (subst pow2_from.simps) simp
    moreover have "n \<le> pow2_from (2 * acc) n \<and> 2 * acc \<le> pow2_from (2 * acc) n \<and>
        (\<exists>k. pow2_from (2 * acc) n = 2 * acc * 2 ^ k)" using 1 False by simp
    moreover have "2 * acc * 2 ^ k = acc * 2 ^ Suc k" for k by simp
    ultimately show ?thesis by (metis add_leD1 mult_2)
  qed
qed

lemma pow2_from_less: "0 < acc \<Longrightarrow> acc < n \<Longrightarrow> pow2_from acc n < 2 * n"
proof (induction acc n rule: pow2_from.induct)
  case (1 acc n)
  have step: "pow2_from acc n = pow2_from (2 * acc) n" using "1.prems" by (subst pow2_from.simps) simp
  show ?case
  proof (cases "2 * acc < n")
    case True
    then show ?thesis using 1 step by simp
  next
    case False
    then show ?thesis using step "1.prems" by (simp add: pow2_from.simps [of "2 * acc"])
  qed
qed

lemma next_power_of_two_ok:
  assumes "0 < n" "n \<le> 2 ^ 63"
  shows "n \<le> next_power_of_two n" "next_power_of_two n \<le> usize_max"
    "\<exists>k. next_power_of_two n = 2 ^ k"
proof -
  have fits: "pow2_from 1 n \<le> usize_max"
  proof (cases "n = 1")
    case True
    then show ?thesis by (simp add: pow2_from.simps usize_max_def)
  next
    case False
    then have "pow2_from 1 n < 2 * n" using assms by (intro pow2_from_less) auto
    then show ?thesis using assms(2) by (simp add: usize_max_def)
  qed
  then show "n \<le> next_power_of_two n" "next_power_of_two n \<le> usize_max"
    "\<exists>k. next_power_of_two n = 2 ^ k"
    using pow2_from_ge [of 1 n] by (auto simp: next_power_of_two_def Let_def)
qed

lemma effective_alignment_pos:
  "dc_alignment c \<le> 2 ^ 63 \<Longrightarrow> 0 < effective_alignment c \<and> 4096 \<le> effective_alignment c"
proof -
  assume "dc_alignment c \<le> 2 ^ 63"
  then have "max (dc_alignment c) 4096 \<le> next_power_of_two (max (dc_alignment c) 4096)"
    by (intro next_power_of_two_ok(1)) auto
  then show ?thesis by (simp add: effective_alignment_def DEFAULT_DIRECT_IO_ALIGNMENT_def)
qed

lemma round_up_bounds:
  assumes "0 < a" shows "n \<le> round_up n a" "round_up n a < n + a" "round_up n a mod a = 0"
proof -
  have "n mod a < a" using assms by simp
  then show "n \<le> round_up n a" "round_up n a < n + a"
    using assms unfolding round_up_def Let_def by (auto; linarith)+
  have "n mod a \<noteq> 0 \<Longrightarrow> (n + (a - n mod a)) mod a = 0"
    by (metis add.commute assms le_add_diff_inverse2 less_imp_le_nat mod_add_right_eq mod_less_divisor mod_self)
  then show "round_up n a mod a = 0" by (auto simp: round_up_def Let_def)
qed

section \<open>Aligned access equals plain access\<close>

lemma aligned_prefix:
  assumes "0 < (a :: nat)"
  shows "off div a * a \<le> off" "off - off div a * a < a" "off div a * a + (off - off div a * a) = off"
  using assms by (simp_all add: div_times_less_eq_dividend minus_div_mult_eq_mod)

definition byte_at :: "u8 list \<Rightarrow> nat \<Rightarrow> u8" where
  "byte_at f i = (if i < length f then f ! i else 0)"

lemma pad_bytes:
  "take n (drop off f) @ replicate (n - (length f - off)) 0 = map (\<lambda>i. byte_at f (off + i)) [0..<n]"
  by (rule nth_equalityI) (auto simp: nth_append byte_at_def min_def)

lemma take_drop_bytes:
  "p + n \<le> len \<Longrightarrow> take n (drop p (map (\<lambda>i. byte_at f (off + i)) [0..<len])) =
     map (\<lambda>i. byte_at f (off + p + i)) [0..<n]"
  by (rule nth_equalityI) (auto simp: algebra_simps)

lemma write_at_bytes:
  "buf \<noteq> [] \<Longrightarrow> write_at off buf f = map (\<lambda>i. if off \<le> i \<and> i < off + length buf then buf ! (i - off)
     else byte_at f i) [0..<max (off + length buf) (length f)]"
  by (rule nth_equalityI) (auto simp: length_write_at, auto simp: write_at_def nth_append byte_at_def min_def)

lemma direct_read_enabled:
  assumes "gives give" "dc_alignment c \<le> 2 ^ 63" "dc_enabled c" "off + n \<le> usize_max"
  shows "direct_read_exact_at give c f n off =
    Inr (take n (drop off f) @ replicate (n - (length f - off)) 0)"
proof -
  define a where "a = effective_alignment c"
  define start where "start = off div a * a"
  define len where "len = round_up (off - start + n) a"
  have a: "0 < a" using effective_alignment_pos [OF assms(2)] by (simp add: a_def)
  note al = aligned_prefix [OF a, of off, folded start_def]
  have len: "off - start + n \<le> len" by (simp add: len_def round_up_bounds(1) [OF a])
  have "sat_add (off - start) n = off - start + n" using assms(4) by (simp add: sat_add_def)
  then have "direct_read_exact_at give c f n off =
      Inr (take n (drop (off - start) (map (\<lambda>i. byte_at f (start + i)) [0..<len])))"
    using assms(3) by (simp add: direct_read_exact_at_def Let_def a_def [symmetric] start_def [symmetric]
        len_def [symmetric] read_partial_ok [OF assms(1)] pad_bytes)
  also have "take n (drop (off - start) (map (\<lambda>i. byte_at f (start + i)) [0..<len])) =
      take n (drop off f) @ replicate (n - (length f - off)) 0"
    unfolding take_drop_bytes [OF len] pad_bytes using al(3) by simp
  finally show ?thesis .
qed

lemma direct_write_enabled:
  assumes "gives give" "accepts accept" "dc_alignment c \<le> 2 ^ 63" "dc_enabled c"
    and "off + length buf \<le> usize_max" "buf \<noteq> []"
  shows "\<exists>k < effective_alignment c.
    direct_write_all_at give accept c f buf off = Inr (write_at off buf f @ replicate k 0)"
proof -
  define a where "a = effective_alignment c"
  define start where "start = off div a * a"
  define len where "len = round_up (off - start + length buf) a"
  define pad where "pad = map (\<lambda>i. byte_at f (start + i)) [0..<len]"
  define scratch where "scratch = (if off - start \<noteq> 0 \<or> len \<noteq> length buf then pad else replicate len 0)"
  define k where "k = start + len - max (off + length buf) (length f)"
  have a: "0 < a" using effective_alignment_pos [OF assms(3)] by (simp add: a_def)
  note al = aligned_prefix [OF a, of off, folded start_def]
  have len: "off - start + length buf \<le> len" "len < off - start + length buf + a"
    by (simp_all add: len_def round_up_bounds [OF a])
  have scratch: "take (off - start) scratch @ buf @ drop (off - start + length buf) scratch =
      take (off - start) pad @ buf @ drop (off - start + length buf) pad"
    by (auto simp: scratch_def pad_def)
  have eqs: "round_up (sat_add (off - start) (length buf)) a = len" "read_partial give f start len = pad"
    using assms(5) by (simp_all add: len_def sat_add_def pad_def read_partial_ok [OF assms(1)] pad_bytes)
  have "direct_write_all_at give accept c f buf off =
      write_loop (Err (Index ''Short write while writing'')) accept f
        (take (off - start) scratch @ buf @ drop (off - start + length buf) scratch) start"
    unfolding direct_write_all_at_def Let_def a_def [symmetric] start_def [symmetric] eqs
      scratch_def [symmetric] using assms(4) by simp
  also have "\<dots> = Inr (write_at start (take (off - start) pad @ buf @ drop (off - start + length buf) pad) f)"
    unfolding scratch by (rule write_loop_ok [OF assms(2)])
  also have "write_at start (take (off - start) pad @ buf @ drop (off - start + length buf) pad) f =
      write_at off buf f @ replicate k 0"
    (is "write_at start ?b f = _")
  proof (rule nth_equalityI)
    have b: "?b = map (\<lambda>i. if off - start \<le> i \<and> i < off - start + length buf then buf ! (i - (off - start))
        else byte_at f (start + i)) [0..<len]"
      using len(1) by (intro nth_equalityI) (auto simp: pad_def nth_append min_def)
    have "?b \<noteq> []" using assms(6) by simp
    have lb: "length ?b = len" using len(1) by (simp add: pad_def)
    have lw: "length (write_at start ?b f) = max (start + len) (length f)"
      using \<open>?b \<noteq> []\<close> by (simp only: length_write_at lb) simp
    show "length (write_at start ?b f) = length (write_at off buf f @ replicate k 0)"
    proof -
      have "max (off + length buf) (length f) + k = max (start + len) (length f)"
        using al(1,3) len(1) by (simp add: k_def)
      then show ?thesis using lw assms(6) by (simp add: length_write_at)
    qed
    fix i assume "i < length (write_at start ?b f)"
    then have i: "i < max (start + len) (length f)" by (simp only: lw)
    have l: "write_at start ?b f ! i = (if off \<le> i \<and> i < off + length buf then buf ! (i - off) else byte_at f i)"
    proof (cases "start \<le> i \<and> i < start + len")
      case True
      then have "write_at start ?b f ! i = ?b ! (i - start)"
        using i lb by (simp only: write_at_bytes [OF \<open>?b \<noteq> []\<close>]) simp
      also have "\<dots> = (if off \<le> i \<and> i < off + length buf then buf ! (i - off) else byte_at f i)"
        unfolding b using True al by (auto simp: diff_diff_eq)
      finally show ?thesis .
    next
      case False
      then have "write_at start ?b f ! i = byte_at f i"
        using i lb by (simp only: write_at_bytes [OF \<open>?b \<noteq> []\<close>]) auto
      then show ?thesis using False al len by auto
    qed
    have "(write_at off buf f @ replicate k 0) ! i =
        (if off \<le> i \<and> i < off + length buf then buf ! (i - off) else byte_at f i)"
    proof (cases "i < max (off + length buf) (length f)")
      case True
      then show ?thesis by (simp add: nth_append write_at_bytes [OF assms(6)])
    next
      case False
      then have "i - max (off + length buf) (length f) < k" using i by (simp add: k_def)
      then show ?thesis using False
        by (auto simp: nth_append length_write_at assms(6) byte_at_def)
    qed
    with l show "write_at start ?b f ! i = (write_at off buf f @ replicate k 0) ! i" by simp
  qed
  finally show ?thesis using al len a_def k_def by (intro exI [of _ k]) auto
qed

lemma direct_read_exact_bytes:
  assumes "gives give" "dc_alignment c \<le> 2 ^ 63" "off + n \<le> length f" "off + n \<le> usize_max"
  shows "direct_read_exact_at give c f n off = Inr (take n (drop off f))"
proof (cases "dc_enabled c")
  case True
  then show ?thesis using direct_read_enabled [OF assms(1,2) True assms(4)] assms(3) by simp
next
  case False
  then show ?thesis using read_loop_ok [OF assms(1,3)] by (simp add: direct_read_exact_at_def)
qed

text \<open>With direct I/O or without, reading a byte range inside the file returns exactly these bytes,
  for every alignment and however the operating system splits the transfer.\<close>

theorem direct_read_exact:
  assumes "gives give" "dc_alignment c \<le> 2 ^ 63" "off + n \<le> length f" "off + n \<le> usize_max"
  shows "direct_read_exact_at give c f n off = Inr (take n (drop off f))"
  by (rule direct_read_exact_bytes [OF assms])

theorem direct_read_exact_witness:
  "direct_read_exact_at (\<lambda>off n. 7) \<lparr>dc_enabled = True, dc_alignment = 512\<rparr> (replicate 9000 5) 100 4090 =
     Inr (take 100 (drop 4090 (replicate 9000 5)))"
  by (rule direct_read_exact) (simp_all add: gives_def usize_max_def)

text \<open>C37: The two modes differ past the end of the file: the buffered read fails, the direct read
  succeeds and fills the missing bytes with zeros.\<close>

theorem direct_read_past_end:
  assumes "gives give" "dc_alignment c \<le> 2 ^ 63" "length f < off + n" "n \<noteq> 0" "off + n \<le> usize_max"
  shows "(\<not> dc_enabled c \<longrightarrow>
      direct_read_exact_at give c f n off = Inl (Err (Index ''Unexpected EOF while reading''))) \<and>
    (dc_enabled c \<longrightarrow>
      direct_read_exact_at give c f n off = Inr (take n (drop off f) @ replicate (n - (length f - off)) 0))"
  using direct_read_enabled [OF assms(1,2) _ assms(5), of f] read_loop_eof [OF assms(3,4)]
  by (cases "dc_enabled c") (simp_all add: direct_read_exact_at_def [of give c f n off])

theorem direct_read_past_end_witness:
  "direct_read_exact_at (\<lambda>off n. n) \<lparr>dc_enabled = True, dc_alignment = 512\<rparr> [1, 2, 3] 4 1 =
     Inr ([2, 3] @ replicate 2 0)"
  using direct_read_past_end [of "\<lambda>off n. n" "\<lparr>dc_enabled = True, dc_alignment = 512\<rparr>" "[1, 2, 3]" 1 4]
  by (simp add: gives_def usize_max_def)

text \<open>A write with direct I/O or without leaves the file that a plain write of the same bytes at the
  same offset leaves, followed by less than one alignment block of zeros; no byte outside the
  written range changes.\<close>

theorem direct_write_exact:
  assumes "gives give" "accepts accept" "dc_alignment c \<le> 2 ^ 63" "off + length buf \<le> usize_max" "buf \<noteq> []"
  shows "\<exists>k < effective_alignment c.
    direct_write_all_at give accept c f buf off = Inr (write_at off buf f @ replicate k 0)"
proof (cases "dc_enabled c")
  case True
  then show ?thesis using direct_write_enabled [OF assms(1-3) True assms(4,5)] by blast
next
  case False
  then show ?thesis using write_loop_ok [OF assms(2)] effective_alignment_pos [OF assms(3)]
    by (intro exI [of _ 0]) (simp add: direct_write_all_at_def)
qed

theorem direct_write_exact_witness:
  "\<exists>k < effective_alignment \<lparr>dc_enabled = True, dc_alignment = 512\<rparr>.
    direct_write_all_at (\<lambda>off n. 9) (\<lambda>off b. 3) \<lparr>dc_enabled = True, dc_alignment = 512\<rparr> [1, 2, 3] [7, 8] 2 =
      Inr (write_at 2 [7, 8] [1, 2, 3] @ replicate k 0)"
  by (rule direct_write_exact) (simp_all add: gives_def accepts_def usize_max_def)

end
