(* ===== verification/SpillFile.thy ===== *)
theory SpillFile
  imports SpillMem DirectIo
begin

text \<open>
  The spill sink on disk of \<^verbatim>\<open>ForgeANN/src/forgeann/spill_hashprune.rs\<close>: \<open>CandidateRunWriter\<close>
  appends 16-byte records to a part file, buffered or through direct I/O; \<open>SpillEdgeSink\<close> groups
  the edges by shard, writes full buffers as sorted segments to the shard's current part file,
  rolls over to a new part file when the current one is full, and keeps a manifest of the segments.

  The file system is a map from paths to contents. \<open>BufWriter\<close> is transparent. How many bytes a
  system call moves is the record \<open>os\<close>. Hash maps are association lists, their iteration order is
  the parameter \<open>hm_order\<close>.
\<close>

section \<open>Records as bytes\<close>

definition record_bytes :: "spill_record \<Rightarrow> u8 list" where
  "record_bytes r = le32 (sr_src r) @ le32 (sr_dst r) @ le16 (sr_hash r) @ le16 (sr_flags r) @ le32 (sr_dist r)"

definition record_of_bytes :: "u8 list \<Rightarrow> spill_record" where
  "record_of_bytes bs =
     \<lparr>sr_src = of_le32 (take 4 bs), sr_dst = of_le32 (take 4 (drop 4 bs)),
      sr_hash = of_le16 (take 2 (drop 8 bs)), sr_flags = of_le16 (take 2 (drop 10 bs)),
      sr_dist = of_le32 (take 4 (drop 12 bs))\<rparr>"

section \<open>Paths\<close>

type_synonym path = string
type_synonym files = "path \<Rightarrow> u8 list option"

function (sequential) dec :: "nat \<Rightarrow> string" where
  "dec n = (if n < 10 then [char_of (48 + n)] else dec (n div 10) @ [char_of (48 + n mod 10)])"
  by pat_completeness auto
termination
  by (relation "measure id") auto

declare dec.simps [simp del]

definition zero_pad :: "nat \<Rightarrow> string \<Rightarrow> string" where
  "zero_pad w s = replicate (w - length s) CHR ''0'' @ s"

text \<open>
  \<open>part_path_for\<close>: \<open>dir\<close> is the parent directory of the base path up to and including its
  separator, \<open>stem\<close> the base path's file stem (or \<open>candidate\<close>).
\<close>

definition part_path_for :: "string \<times> string \<Rightarrow> nat \<Rightarrow> usize \<Rightarrow> path" where
  "part_path_for base part_index shard_id =
     fst base @ snd base @ ''_shard'' @ zero_pad 5 (dec shard_id) @ ''_part'' @
     zero_pad 3 (dec part_index) @ ''.log''"

section \<open>\<open>CandidateRunWriter\<close>\<close>

record os =
  os_give :: "nat \<Rightarrow> nat \<Rightarrow> nat"
  os_accept :: "nat \<Rightarrow> u8 list \<Rightarrow> nat"

definition DIRECT_CANDIDATE_BUFFER_BYTES :: usize where
  "DIRECT_CANDIDATE_BUFFER_BYTES = 1024 * 1024"

text \<open>The buffered writer has its position in the file, the direct one its offset and its buffer.\<close>

datatype run_inner = Buffered nat | Direct nat "u8 list"

record run_writer =
  cw_path :: path
  cw_cfg :: direct_io_config
  cw_inner :: run_inner
  cw_records :: usize

definition file_at :: "files \<Rightarrow> path \<Rightarrow> u8 list" where
  "file_at fs p = (case fs p of None \<Rightarrow> [] | Some f \<Rightarrow> f)"

definition run_create_with_config :: "path \<Rightarrow> direct_io_config \<Rightarrow> files \<Rightarrow> run_writer \<times> files" where
  "run_create_with_config p cfg fs =
     (\<lparr>cw_path = p, cw_cfg = cfg, cw_inner = (if dc_enabled cfg then Direct 0 [] else Buffered 0), cw_records = 0\<rparr>,
      fs(p \<mapsto> []))"

definition flush_direct_candidate_buffer ::
  "os \<Rightarrow> direct_io_config \<Rightarrow> path \<Rightarrow> nat \<Rightarrow> u8 list \<Rightarrow> files \<Rightarrow> (nat \<times> u8 list \<times> files) result" where
  "flush_direct_candidate_buffer sys cfg p offset buffer fs =
     (if buffer = [] then Inr (offset, buffer, fs)
      else res_bind (direct_write_all_at (os_give sys) (os_accept sys) cfg (file_at fs p) buffer offset)
             (\<lambda>f. Inr (offset + length buffer, [], fs(p \<mapsto> f))))"

definition run_push :: "os \<Rightarrow> run_writer \<Rightarrow> files \<Rightarrow> pending_edge \<Rightarrow> (run_writer \<times> files) result" where
  "run_push sys w fs edge =
     res_bind (from_pending_edge edge) (\<lambda>record.
       let bytes = record_bytes record; w' = w\<lparr>cw_records := cw_records w + 1\<rparr> in
       case cw_inner w of
         Buffered pos \<Rightarrow>
           Inr (w'\<lparr>cw_inner := Buffered (pos + length bytes)\<rparr>,
                fs(cw_path w \<mapsto> write_at pos bytes (file_at fs (cw_path w))))
       | Direct offset buffer \<Rightarrow>
           let buffer' = buffer @ bytes in
           if DIRECT_CANDIDATE_BUFFER_BYTES \<le> length buffer'
           then res_bind (flush_direct_candidate_buffer sys (cw_cfg w) (cw_path w) offset buffer' fs)
                  (\<lambda>(offset', b, fs'). Inr (w'\<lparr>cw_inner := Direct offset' b\<rparr>, fs'))
           else Inr (w'\<lparr>cw_inner := Direct offset buffer'\<rparr>, fs))"

definition run_finish :: "os \<Rightarrow> run_writer \<Rightarrow> files \<Rightarrow> files result" where
  "run_finish sys w fs =
     (case cw_inner w of
        Buffered pos \<Rightarrow> Inr fs
      | Direct offset buffer \<Rightarrow>
          res_bind (flush_direct_candidate_buffer sys (cw_cfg w) (cw_path w) offset buffer fs)
            (\<lambda>(offset', b, fs'). Inr (fs'(cw_path w \<mapsto> set_len offset' (file_at fs' (cw_path w))))))"

section \<open>\<open>SpillEdgeSink\<close>\<close>

record part_desc =
  pd_shard_id :: usize
  pd_file_id :: u16
  pd_path :: path
  pd_byte_len :: nat

record segment_desc =
  sd_shard_id :: u32
  sd_file_id :: u16
  sd_byte_offset :: nat
  sd_byte_len :: nat
  sd_record_count :: u32
  sd_src_min :: u32
  sd_src_max :: u32
  sd_sorted_by_src :: bool

record spill_artifacts =
  ar_part_files :: "part_desc list"
  ar_segment_manifest :: "segment_desc list"
  ar_manifest_path :: path

record part_writer =
  pw_desc :: part_desc
  pw_writer :: run_writer

record file_state =
  fl_base :: "string \<times> string"
  fl_shard_points :: usize
  fl_io_cfg :: direct_io_config
  fl_buffers :: "(usize \<times> pending_edge list) list"
  fl_writers :: "(usize \<times> part_writer) list"
  fl_next_part_id :: "usize \<Rightarrow> u16 option"
  fl_part_files :: "part_desc list"
  fl_manifest :: "segment_desc list"
  fl_manifest_path :: path
  fl_flush_threshold :: usize
  fl_part_max_bytes :: nat
  fl_files :: files

definition DEFAULT_SHARD_POINTS :: usize where
  "DEFAULT_SHARD_POINTS = 1000000"

definition DEFAULT_PART_MAX_BYTES :: nat where
  "DEFAULT_PART_MAX_BYTES = 4 * 1024 * 1024 * 1024"

definition SEGMENT_MANIFEST_NAME :: string where
  "SEGMENT_MANIFEST_NAME = ''candidate_segments.manifest''"

text \<open>\<open>edge_bytes\<close> is \<open>size_of::<PendingEdge>()\<close>, which the compiler chooses.\<close>

definition create_sharded_with_config ::
  "usize \<Rightarrow> string \<times> string \<Rightarrow> usize \<Rightarrow> usize \<Rightarrow> direct_io_config \<Rightarrow> files \<Rightarrow> file_state" where
  "create_sharded_with_config edge_bytes base spill_cache_bytes shard_points io_cfg fs =
     (let bytes = effective_spill_cache_bytes spill_cache_bytes;
          threshold = min (max (bytes div max edge_bytes 1) 1) 1000000
      in \<lparr>fl_base = base, fl_shard_points = max shard_points 1, fl_io_cfg = io_cfg, fl_buffers = [],
          fl_writers = [], fl_next_part_id = Map.empty, fl_part_files = [], fl_manifest = [],
          fl_manifest_path = fst base @ SEGMENT_MANIFEST_NAME, fl_flush_threshold = threshold,
          fl_part_max_bytes = DEFAULT_PART_MAX_BYTES, fl_files = fs\<rparr>)"

definition create_sharded :: "usize \<Rightarrow> string \<times> string \<Rightarrow> usize \<Rightarrow> usize \<Rightarrow> files \<Rightarrow> file_state" where
  "create_sharded edge_bytes base spill_cache_bytes shard_points fs =
     create_sharded_with_config edge_bytes base spill_cache_bytes shard_points dc_default fs"

definition create_default :: "usize \<Rightarrow> string \<times> string \<Rightarrow> usize \<Rightarrow> files \<Rightarrow> file_state" where
  "create_default edge_bytes base spill_cache_bytes fs =
     create_sharded_with_config edge_bytes base spill_cache_bytes DEFAULT_SHARD_POINTS dc_default fs"

text \<open>\<open>u16::saturating_add(1)\<close>.\<close>

definition sat_succ16 :: "u16 \<Rightarrow> u16" where
  "sat_succ16 n = (if n = - 1 then n else n + 1)"

definition finalize_part_writer :: "os \<Rightarrow> part_writer \<Rightarrow> file_state \<Rightarrow> file_state result" where
  "finalize_part_writer sys pw st =
     res_bind (run_finish sys (pw_writer pw) (fl_files st))
       (\<lambda>fs. Inr (st\<lparr>fl_files := fs, fl_part_files := fl_part_files st @ [pw_desc pw]\<rparr>))"

definition remove_writer :: "usize \<Rightarrow> file_state \<Rightarrow> file_state" where
  "remove_writer shard st = st\<lparr>fl_writers := filter (\<lambda>e. fst e \<noteq> shard) (fl_writers st)\<rparr>"

text \<open>\<open>HashMap::remove\<close> of the shard's writer followed by \<open>finalize_part_writer\<close>.\<close>

definition close_part :: "os \<Rightarrow> usize \<Rightarrow> file_state \<Rightarrow> file_state result" where
  "close_part sys shard st =
     (case map_of (fl_writers st) shard of
        None \<Rightarrow> Inr st
      | Some pw \<Rightarrow> finalize_part_writer sys pw (remove_writer shard st))"

definition open_part :: "usize \<Rightarrow> file_state \<Rightarrow> file_state" where
  "open_part shard st =
     (let file_id = (case fl_next_part_id st shard of None \<Rightarrow> 0 | Some n \<Rightarrow> n);
          path = part_path_for (fl_base st) (unat file_id) shard;
          (writer, fs) = run_create_with_config path (fl_io_cfg st) (fl_files st)
      in st\<lparr>fl_next_part_id := (fl_next_part_id st)(shard \<mapsto> sat_succ16 file_id), fl_files := fs,
            fl_writers := (shard, \<lparr>pw_desc = \<lparr>pd_shard_id = shard, pd_file_id = file_id, pd_path = path, pd_byte_len = 0\<rparr>,
                                   pw_writer = writer\<rparr>) # fl_writers st\<rparr>)"

definition ensure_part_writer :: "os \<Rightarrow> usize \<Rightarrow> nat \<Rightarrow> file_state \<Rightarrow> file_state result" where
  "ensure_part_writer sys shard pending_bytes st =
     (let need_rollover = (case map_of (fl_writers st) shard of
            None \<Rightarrow> True
          | Some pw \<Rightarrow> fl_part_max_bytes st < sat_add (pd_byte_len (pw_desc pw)) pending_bytes)
      in if \<not> need_rollover then Inr st
         else res_bind (close_part sys shard st) (\<lambda>st1. Inr (open_part shard st1)))"

fun push_edges :: "os \<Rightarrow> run_writer \<Rightarrow> files \<Rightarrow> pending_edge list \<Rightarrow> (run_writer \<times> files) result" where
  "push_edges sys w fs [] = Inr (w, fs)"
| "push_edges sys w fs (e # es) = res_bind (run_push sys w fs e) (\<lambda>(w', fs'). push_edges sys w' fs' es)"

definition put_writer :: "usize \<Rightarrow> part_writer \<Rightarrow> (usize \<times> part_writer) list \<Rightarrow> (usize \<times> part_writer) list" where
  "put_writer shard pw ws = map (\<lambda>(k, v). (k, if k = shard then pw else v)) ws"

definition write_segment :: "os \<Rightarrow> usize \<Rightarrow> pending_edge list \<Rightarrow> file_state \<Rightarrow> file_state result" where
  "write_segment sys shard staged st =
     (case map_of (fl_writers st) shard of
        None \<Rightarrow> Inl (Panic ''called Option::unwrap() on a None value'')
      | Some part \<Rightarrow>
          let byte_len = length staged * RUN_RECORD_BYTES; byte_offset = pd_byte_len (pw_desc part) in
          res_bind (push_edges sys (pw_writer part) (fl_files st) staged) (\<lambda>(w, fs).
            let part' = \<lparr>pw_desc = (pw_desc part)\<lparr>pd_byte_len := byte_offset + byte_len\<rparr>, pw_writer = w\<rparr> in
            Inr (st\<lparr>fl_files := fs, fl_writers := put_writer shard part' (fl_writers st),
                 fl_manifest := fl_manifest st @
                   [\<lparr>sd_shard_id = word_of_nat shard, sd_file_id = pd_file_id (pw_desc part),
                     sd_byte_offset = byte_offset, sd_byte_len = byte_len,
                     sd_record_count = word_of_nat (length staged),
                     sd_src_min = word_of_nat (e_p (hd staged)), sd_src_max = word_of_nat (e_p (last staged)),
                     sd_sorted_by_src = True\<rparr>]\<rparr>)))"

definition flush_shard_buffer_to_part :: "sorts \<Rightarrow> os \<Rightarrow> usize \<Rightarrow> file_state \<Rightarrow> file_state result" where
  "flush_shard_buffer_to_part S sys shard st =
     (case map_of (fl_buffers st) shard of
        None \<Rightarrow> Inr st
      | Some buffer \<Rightarrow>
          if buffer = [] then Inr st
          else
            let staged = by_edge_p S e_p buffer;
                st1 = st\<lparr>fl_buffers := buffer_clear shard (fl_buffers st)\<rparr>
            in res_bind (ensure_part_writer sys shard (length staged * RUN_RECORD_BYTES) st1)
                 (write_segment sys shard staged))"

fun buffer_edges :: "sorts \<Rightarrow> os \<Rightarrow> pending_edge list \<Rightarrow> file_state \<Rightarrow> file_state result" where
  "buffer_edges S sys [] st = Inr st"
| "buffer_edges S sys (e # es) st =
     (let shard = e_p e div fl_shard_points st;
          st1 = st\<lparr>fl_buffers := buffer_extend shard [e] (fl_buffers st)\<rparr>
      in res_bind
           (if fl_flush_threshold st \<le> length (the (map_of (fl_buffers st1) shard))
            then flush_shard_buffer_to_part S sys shard st1 else Inr st1)
           (buffer_edges S sys es))"

definition file_flush_pending_edges :: "sorts \<Rightarrow> os \<Rightarrow> pending_edge list \<Rightarrow> file_state \<Rightarrow> file_state result" where
  "file_flush_pending_edges S sys edges st =
     (if edges = [] then Inr st else buffer_edges S sys (by_edge_p S e_p edges) st)"

fun flush_shards :: "sorts \<Rightarrow> os \<Rightarrow> usize list \<Rightarrow> file_state \<Rightarrow> file_state result" where
  "flush_shards S sys [] st = Inr st"
| "flush_shards S sys (k # ks) st = res_bind (flush_shard_buffer_to_part S sys k st) (flush_shards S sys ks)"

definition flush_all_buffers_to_parts :: "sorts \<Rightarrow> (usize list \<Rightarrow> usize list) \<Rightarrow> os \<Rightarrow> file_state \<Rightarrow> file_state result" where
  "flush_all_buffers_to_parts S hm_order sys st = flush_shards S sys (hm_order (map fst (fl_buffers st))) st"

fun close_parts :: "os \<Rightarrow> usize list \<Rightarrow> file_state \<Rightarrow> file_state result" where
  "close_parts sys [] st = Inr st"
| "close_parts sys (k # ks) st = res_bind (close_part sys k st) (close_parts sys ks)"

definition finish_part_writers :: "(usize list \<Rightarrow> usize list) \<Rightarrow> os \<Rightarrow> file_state \<Rightarrow> file_state result" where
  "finish_part_writers hm_order sys st = close_parts sys (hm_order (map fst (fl_writers st))) st"

definition manifest_line :: "segment_desc \<Rightarrow> string" where
  "manifest_line d =
     dec (unat (sd_shard_id d)) @ '','' @ dec (unat (sd_file_id d)) @ '','' @ dec (sd_byte_offset d) @ '','' @
     dec (sd_byte_len d) @ '','' @ dec (unat (sd_record_count d)) @ '','' @ dec (unat (sd_src_min d)) @ '','' @
     dec (unat (sd_src_max d)) @ '','' @ dec (if sd_sorted_by_src d then 1 else 0) @ [CHR 0x0A]"

definition write_segment_manifest :: "file_state \<Rightarrow> file_state" where
  "write_segment_manifest st =
     st\<lparr>fl_files := (fl_files st)(fl_manifest_path st \<mapsto>
        concat (map (\<lambda>d. map (\<lambda>c. of_char c) (manifest_line d)) (fl_manifest st)))\<rparr>"

definition file_finish :: "sorts \<Rightarrow> (usize list \<Rightarrow> usize list) \<Rightarrow> os \<Rightarrow> file_state \<Rightarrow> (spill_artifacts \<times> files) result" where
  "file_finish S hm_order sys st =
     res_bind (flush_all_buffers_to_parts S hm_order sys st) (\<lambda>st1.
     res_bind (finish_part_writers hm_order sys st1) (\<lambda>st2.
       let st3 = write_segment_manifest st2 in
       Inr (\<lparr>ar_part_files = fl_part_files st3, ar_segment_manifest = fl_manifest st3,
             ar_manifest_path = fl_manifest_path st3\<rparr>, fl_files st3)))"

section \<open>Bytes and paths\<close>

lemma length_record_bytes [simp]: "length (record_bytes r) = 16"
  by (simp add: record_bytes_def)

lemma record_of_bytes_record [simp]: "record_of_bytes (record_bytes r @ x) = r"
  by (simp add: record_of_bytes_def record_bytes_def)

text \<open>The records of a run of bytes, as \<open>SegmentReader\<close> will read them.\<close>

primrec decode_records :: "nat \<Rightarrow> u8 list \<Rightarrow> spill_record list" where
  "decode_records 0 bs = []"
| "decode_records (Suc n) bs = record_of_bytes (take 16 bs) # decode_records n (drop 16 bs)"

abbreviation records_bytes :: "spill_record list \<Rightarrow> u8 list" where
  "records_bytes rs \<equiv> concat (map record_bytes rs)"

lemma decode_records_bytes: "decode_records (length rs) (records_bytes rs @ x) = rs"
proof (induction rs)
  case (Cons r rs)
  have "record_of_bytes (record_bytes r) = r" using record_of_bytes_record [of r "[]"] by simp
  then show ?case using Cons by simp
qed simp

lemma decode_records_prefix: "n * 16 \<le> length bs \<Longrightarrow> decode_records n (bs @ x) = decode_records n bs"
  by (induction n arbitrary: bs) simp_all

lemma length_decode_records [simp]: "length (decode_records n bs) = n"
  by (induction n arbitrary: bs) simp_all

lemma length_records_bytes: "length (records_bytes rs) = 16 * length rs"
  by (induction rs) simp_all

fun undec :: "nat \<Rightarrow> string \<Rightarrow> nat" where
  "undec acc [] = acc"
| "undec acc (c # cs) = undec (acc * 10 + (of_char c - 48)) cs"

lemma undec_append: "undec acc (xs @ ys) = undec (undec acc xs) ys"
  by (induction xs arbitrary: acc) simp_all

lemma of_char_digit: "d < 10 \<Longrightarrow> of_char (char_of (48 + d) :: char) = 48 + (d :: nat)"
  by (simp add: of_char_of)

lemma undec_dec: "undec 0 (dec n) = n"
proof (induction n rule: dec.induct)
  case (1 n)
  show ?case
  proof (cases "n < 10")
    case True
    then show ?thesis by (simp add: dec.simps of_char_digit)
  next
    case False
    then show ?thesis using 1 by (subst dec.simps) (simp add: undec_append of_char_digit)
  qed
qed

definition digit :: "char \<Rightarrow> bool" where
  "digit c \<longleftrightarrow> 48 \<le> (of_char c :: nat) \<and> (of_char c :: nat) < 58"

lemma digit_char: "d < 10 \<Longrightarrow> digit (char_of (48 + (d :: nat)))"
  by (simp add: digit_def of_char_digit)

lemma digits_dec: "\<forall>c \<in> set (dec n). digit c"
proof (induction n rule: dec.induct)
  case (1 n)
  then show ?case by (cases "n < 10") (auto simp: dec.simps [of n] digit_char)
qed

lemma digits_zero_pad: "\<forall>c \<in> set (zero_pad w (dec n)). digit c"
  using digits_dec [of n] by (auto simp: zero_pad_def digit_def)

lemma undec_zero_pad: "undec 0 (zero_pad w (dec n)) = n"
proof -
  have "undec 0 (replicate k CHR ''0'') = 0" for k by (induction k) simp_all
  then show ?thesis by (simp add: zero_pad_def undec_append undec_dec)
qed

lemma zero_pad_inj:
  assumes "zero_pad w (dec a) @ c # s = zero_pad w (dec b) @ c # t" "\<not> digit (c)"
  shows "a = b" "s = t"
proof -
  have t: "takeWhile digit (zero_pad w (dec n) @ c # u) = zero_pad w (dec n)"
    "dropWhile digit (zero_pad w (dec n) @ c # u) = c # u" for n u
    using digits_zero_pad [of w n] assms(2) by (simp_all add: takeWhile_append2 dropWhile_append2)
  show "a = b" using arg_cong [OF assms(1), of "takeWhile digit"] undec_zero_pad by (metis t(1))
  show "s = t" using arg_cong [OF assms(1), of "dropWhile digit"] by (simp add: t(2))
qed

lemma part_path_inj:
  assumes "part_path_for base i k = part_path_for base j l"
  shows "i = j \<and> k = l"
proof -
  have sep: "\<not> digit CHR ''_''" "\<not> digit CHR ''.''" by (simp_all add: digit_def)
  have "zero_pad 5 (dec k) @ CHR ''_'' # ''part'' @ zero_pad 3 (dec i) @ ''.log'' =
      zero_pad 5 (dec l) @ CHR ''_'' # ''part'' @ zero_pad 3 (dec j) @ ''.log''"
    using assms by (simp add: part_path_for_def)
  from zero_pad_inj [OF this sep(1)] have "k = l"
    and "zero_pad 3 (dec i) @ CHR ''.'' # ''log'' = zero_pad 3 (dec j) @ CHR ''.'' # ''log''" by simp_all
  with zero_pad_inj(1) [OF this(2) sep(2)] show ?thesis by simp
qed

section \<open>The run writer\<close>

definition os_ok :: "os \<Rightarrow> bool" where
  "os_ok sys \<longleftrightarrow> gives (os_give sys) \<and> accepts (os_accept sys)"

text \<open>What has been pushed: on disk or still in the writer's buffer.\<close>

definition writer_bytes :: "files \<Rightarrow> run_writer \<Rightarrow> u8 list" where
  "writer_bytes fs w = (case cw_inner w of
     Buffered pos \<Rightarrow> file_at fs (cw_path w)
   | Direct offset buffer \<Rightarrow> take offset (file_at fs (cw_path w)) @ buffer)"

definition writer_ok :: "files \<Rightarrow> run_writer \<Rightarrow> bool" where
  "writer_ok fs w \<longleftrightarrow> fs (cw_path w) \<noteq> None \<and> dc_alignment (cw_cfg w) \<le> 2 ^ 63 \<and>
     (case cw_inner w of
        Buffered pos \<Rightarrow> pos = length (file_at fs (cw_path w))
      | Direct offset buffer \<Rightarrow> dc_enabled (cw_cfg w) \<and> offset \<le> length (file_at fs (cw_path w)))"

lemma file_at_upd [simp]: "file_at (fs(p \<mapsto> f)) q = (if q = p then f else file_at fs q)"
  by (simp add: file_at_def)

lemma writer_frame:
  "fs' (cw_path w) = fs (cw_path w) \<Longrightarrow> writer_bytes fs' w = writer_bytes fs w \<and> (writer_ok fs' w \<longleftrightarrow> writer_ok fs w)"
  by (simp add: writer_bytes_def writer_ok_def file_at_def split: run_inner.split)

lemma write_at_take:
  "off \<le> length f \<Longrightarrow> take (off + length b) (write_at off b f @ x) = take off f @ b"
  by (cases "b = []") (auto simp: write_at_def)

lemma flush_direct_ok:
  assumes "os_ok sys" "dc_enabled cfg" "dc_alignment cfg \<le> 2 ^ 63" "off \<le> length (file_at fs p)"
    and "off + length buf \<le> usize_max"
  shows "\<exists>fs'. flush_direct_candidate_buffer sys cfg p off buf fs = Inr (off + length buf, [], fs') \<and>
    (\<forall>q. q \<noteq> p \<longrightarrow> fs' q = fs q) \<and> (fs p \<noteq> None \<longrightarrow> fs' p \<noteq> None) \<and>
    off + length buf \<le> length (file_at fs' p) \<and>
    take (off + length buf) (file_at fs' p) = take off (file_at fs p) @ buf"
proof (cases "buf = []")
  case True
  then show ?thesis using assms(4) by (simp add: flush_direct_candidate_buffer_def)
next
  case False
  obtain k where "direct_write_all_at (os_give sys) (os_accept sys) cfg (file_at fs p) buf off =
      Inr (write_at off buf (file_at fs p) @ replicate k 0)"
    using direct_write_enabled [OF _ _ assms(3,2,5) False, of "os_give sys" "os_accept sys" "file_at fs p"] assms(1)
    by (auto simp: os_ok_def)
  then show ?thesis using False write_at_take [OF assms(4), of buf "replicate k 0"]
    by (auto simp: flush_direct_candidate_buffer_def length_write_at)
qed

text \<open>The contract of a writer: it goes on where it was, and only its own file changes.\<close>

definition writer_step :: "files \<Rightarrow> run_writer \<Rightarrow> u8 list \<Rightarrow> files \<Rightarrow> run_writer \<Rightarrow> bool" where
  "writer_step fs w bs fs' w' \<longleftrightarrow> writer_ok fs' w' \<and> writer_bytes fs' w' = writer_bytes fs w @ bs \<and>
     cw_path w' = cw_path w \<and> cw_cfg w' = cw_cfg w \<and> (\<forall>q. q \<noteq> cw_path w \<longrightarrow> fs' q = fs q)"

lemma run_push_ok:
  assumes "os_ok sys" "writer_ok fs w" "e_p e < 2 ^ 32" "length (writer_bytes fs w) + 16 \<le> usize_max"
  shows "\<exists>w' fs'. run_push sys w fs e = Inr (w', fs') \<and> writer_step fs w (record_bytes (edge_record e)) fs' w'"
proof (cases "cw_inner w")
  case (Buffered pos)
  then have "pos = length (file_at fs (cw_path w))" using assms(2) by (simp add: writer_ok_def)
  then show ?thesis using Buffered assms(2,3)
    by (simp add: run_push_def from_pending_edge_def Let_def writer_step_def writer_ok_def writer_bytes_def)
next
  case (Direct off buf)
  let ?b = "buf @ record_bytes (edge_record e)"
  have d: "dc_enabled (cw_cfg w)" "dc_alignment (cw_cfg w) \<le> 2 ^ 63" "off \<le> length (file_at fs (cw_path w))"
    using assms(2) Direct by (simp_all add: writer_ok_def)
  have "off + length ?b \<le> usize_max" using assms(4) Direct d(3) by (simp add: writer_bytes_def)
  from flush_direct_ok [OF assms(1) d this] obtain fs' where
    "flush_direct_candidate_buffer sys (cw_cfg w) (cw_path w) off ?b fs = Inr (off + length ?b, [], fs')"
    "\<forall>q. q \<noteq> cw_path w \<longrightarrow> fs' q = fs q" "fs (cw_path w) \<noteq> None \<longrightarrow> fs' (cw_path w) \<noteq> None"
    "off + length ?b \<le> length (file_at fs' (cw_path w))"
    "take (off + length ?b) (file_at fs' (cw_path w)) = take off (file_at fs (cw_path w)) @ ?b" by blast
  then show ?thesis using Direct assms(2,3) d
    by (auto simp: run_push_def from_pending_edge_def Let_def writer_step_def writer_ok_def writer_bytes_def)
qed

lemma push_edges_ok:
  assumes "os_ok sys"
  shows "writer_ok fs w \<Longrightarrow> \<forall>e \<in> set es. e_p e < 2 ^ 32 \<Longrightarrow>
    length (writer_bytes fs w) + 16 * length es \<le> usize_max \<Longrightarrow>
    \<exists>w' fs'. push_edges sys w fs es = Inr (w', fs') \<and> writer_step fs w (records_bytes (map edge_record es)) fs' w'"
proof (induction es arbitrary: w fs)
  case (Cons e es)
  obtain w1 fs1 where 1: "run_push sys w fs e = Inr (w1, fs1)" "writer_step fs w (record_bytes (edge_record e)) fs1 w1"
    using run_push_ok [OF assms Cons.prems(1), of e] Cons.prems(2,3) by auto
  then obtain w' fs' where "push_edges sys w1 fs1 es = Inr (w', fs')"
      "writer_step fs1 w1 (records_bytes (map edge_record es)) fs' w'"
    using Cons.IH [of fs1 w1] Cons.prems(2,3) by (auto simp: writer_step_def)
  with 1 show ?case by (auto simp: writer_step_def)
qed (simp add: writer_step_def)

lemma run_finish_ok:
  assumes "os_ok sys" "writer_ok fs w" "length (writer_bytes fs w) \<le> usize_max"
  shows "\<exists>fs'. run_finish sys w fs = Inr fs' \<and> fs' (cw_path w) = Some (writer_bytes fs w) \<and>
    (\<forall>q. q \<noteq> cw_path w \<longrightarrow> fs' q = fs q)"
proof (cases "cw_inner w")
  case (Buffered pos)
  then show ?thesis using assms(2) by (auto simp: run_finish_def writer_bytes_def writer_ok_def file_at_def)
next
  case (Direct off buf)
  have d: "dc_enabled (cw_cfg w)" "dc_alignment (cw_cfg w) \<le> 2 ^ 63" "off \<le> length (file_at fs (cw_path w))"
    using assms(2) Direct by (simp_all add: writer_ok_def)
  have "off + length buf \<le> usize_max" using assms(3) Direct d(3) by (simp add: writer_bytes_def)
  from flush_direct_ok [OF assms(1) d this] obtain fs' where
    "flush_direct_candidate_buffer sys (cw_cfg w) (cw_path w) off buf fs = Inr (off + length buf, [], fs')"
    "\<forall>q. q \<noteq> cw_path w \<longrightarrow> fs' q = fs q"
    "off + length buf \<le> length (file_at fs' (cw_path w))"
    "take (off + length buf) (file_at fs' (cw_path w)) = take off (file_at fs (cw_path w)) @ buf" by blast
  then show ?thesis using Direct by (simp add: run_finish_def set_len_def writer_bytes_def)
qed

section \<open>Part files\<close>

text \<open>
  A part is named by its shard and its file id. Its content is what its open writer has taken, or
  the file once it is closed.
\<close>

definition part_path :: "file_state \<Rightarrow> usize \<times> u16 \<Rightarrow> path" where
  "part_path st x = part_path_for (fl_base st) (unat (snd x)) (fst x)"

definition desc_id :: "part_desc \<Rightarrow> usize \<times> u16" where
  "desc_id d = (pd_shard_id d, pd_file_id d)"

definition closed_content :: "file_state \<Rightarrow> usize \<times> u16 \<Rightarrow> u8 list option" where
  "closed_content st x =
     (if x \<in> desc_id ` set (fl_part_files st) then fl_files st (part_path st x) else None)"

definition part_content :: "file_state \<Rightarrow> usize \<times> u16 \<Rightarrow> u8 list option" where
  "part_content st x = (case map_of (fl_writers st) (fst x) of
     Some pw \<Rightarrow> if pd_file_id (pw_desc pw) = snd x then Some (writer_bytes (fl_files st) (pw_writer pw))
                else closed_content st x
   | None \<Rightarrow> closed_content st x)"

definition next_id :: "file_state \<Rightarrow> usize \<Rightarrow> nat" where
  "next_id st k = (case fl_next_part_id st k of None \<Rightarrow> 0 | Some n \<Rightarrow> unat n)"

definition writer_inv :: "file_state \<Rightarrow> usize \<Rightarrow> part_writer \<Rightarrow> bool" where
  "writer_inv st k pw \<longleftrightarrow> pd_shard_id (pw_desc pw) = k \<and>
     pd_path (pw_desc pw) = part_path st (desc_id (pw_desc pw)) \<and> cw_path (pw_writer pw) = pd_path (pw_desc pw) \<and>
     writer_ok (fl_files st) (pw_writer pw) \<and>
     pd_byte_len (pw_desc pw) = length (writer_bytes (fl_files st) (pw_writer pw)) \<and>
     unat (pd_file_id (pw_desc pw)) < next_id st k"

definition closed_inv :: "file_state \<Rightarrow> part_desc \<Rightarrow> bool" where
  "closed_inv st d \<longleftrightarrow> pd_path d = part_path st (desc_id d) \<and> fl_files st (pd_path d) \<noteq> None \<and>
     unat (pd_file_id d) < next_id st (pd_shard_id d) \<and>
     (\<forall>pw. map_of (fl_writers st) (pd_shard_id d) = Some pw \<longrightarrow> pd_file_id (pw_desc pw) \<noteq> pd_file_id d)"

definition parts_inv :: "file_state \<Rightarrow> bool" where
  [inv_defs]: "parts_inv st \<longleftrightarrow> distinct (map fst (fl_writers st)) \<and>
     (\<forall>k pw. map_of (fl_writers st) k = Some pw \<longrightarrow> writer_inv st k pw) \<and>
     (\<forall>d \<in> set (fl_part_files st). closed_inv st d)"

text \<open>What the operations on parts leave alone.\<close>

definition same_sink :: "file_state \<Rightarrow> file_state \<Rightarrow> bool" where
  "same_sink st st' \<longleftrightarrow> fl_base st' = fl_base st \<and> fl_shard_points st' = fl_shard_points st \<and>
     fl_io_cfg st' = fl_io_cfg st \<and> fl_flush_threshold st' = fl_flush_threshold st \<and>
     fl_part_max_bytes st' = fl_part_max_bytes st \<and> fl_manifest_path st' = fl_manifest_path st"

lemma same_sink_refl [simp]: "same_sink st st" by (simp add: same_sink_def)

lemma same_sink_trans: "same_sink a b \<Longrightarrow> same_sink b c \<Longrightarrow> same_sink a c" by (simp add: same_sink_def)

lemma part_path_eq: "part_path st x = part_path st y \<longleftrightarrow> x = y"
proof
  assume "part_path st x = part_path st y"
  then have "unat (snd x) = unat (snd y)" "fst x = fst y"
    unfolding part_path_def using part_path_inj by blast+
  then show "x = y" by (simp add: prod_eq_iff word_unat_eq_iff)
qed simp

lemma map_of_remove: "map_of (filter (\<lambda>e. fst e \<noteq> k) ws) = (map_of ws)(k := None)"
  by (induction ws) auto

lemma writer_inv_path: "writer_inv st k pw \<Longrightarrow> cw_path (pw_writer pw) = part_path st (k, pd_file_id (pw_desc pw))"
  by (simp add: writer_inv_def desc_id_def)

lemma writer_content:
  "parts_inv st \<Longrightarrow> map_of (fl_writers st) k = Some pw \<Longrightarrow>
   part_content st (k, pd_file_id (pw_desc pw)) = Some (writer_bytes (fl_files st) (pw_writer pw))"
  by (simp add: part_content_def)

lemma part_content_next: "parts_inv st \<Longrightarrow> part_content st x \<noteq> None \<Longrightarrow> unat (snd x) < next_id st (fst x)"
  by (force simp: part_content_def closed_content_def parts_inv_def writer_inv_def closed_inv_def desc_id_def
      split: option.splits if_splits)

text \<open>A change of one file leaves the contents of the other parts alone.\<close>

lemma content_frame:
  assumes "parts_inv st" "fl_base st' = fl_base st" "\<forall>q. q \<noteq> part_path st x \<longrightarrow> fl_files st' q = fl_files st q"
    and "map_of (fl_writers st') (fst y) = map_of (fl_writers st) (fst y)" "x \<noteq> y"
    and "y \<in> desc_id ` set (fl_part_files st') \<longleftrightarrow> y \<in> desc_id ` set (fl_part_files st)"
  shows "part_content st' y = part_content st y"
proof -
  have "part_path st y \<noteq> part_path st x" using assms(5) by (auto simp: part_path_eq)
  then have closed: "closed_content st' y = closed_content st y"
    using assms(2,3,6) by (simp add: closed_content_def part_path_def)
  show ?thesis
  proof (cases "map_of (fl_writers st) (fst y)")
    case None
    then show ?thesis using closed assms(4) by (simp add: part_content_def)
  next
    case (Some pw)
    then have "writer_inv st (fst y) pw" using assms(1) by (simp add: parts_inv_def)
    then have "cw_path (pw_writer pw) = part_path st (fst y, pd_file_id (pw_desc pw))" by (rule writer_inv_path)
    then have "fl_files st' (cw_path (pw_writer pw)) = fl_files st (cw_path (pw_writer pw))"
      if "pd_file_id (pw_desc pw) = snd y"
      using assms(3) \<open>part_path st y \<noteq> part_path st x\<close> that by simp
    then have "writer_bytes (fl_files st') (pw_writer pw) = writer_bytes (fl_files st) (pw_writer pw)"
      if "pd_file_id (pw_desc pw) = snd y" using that writer_frame by blast
    then show ?thesis using closed Some assms(4) by (simp add: part_content_def)
  qed
qed

lemma close_part_ok:
  assumes "os_ok sys" "parts_inv st" "map_of (fl_writers st) k = Some pw" "pd_byte_len (pw_desc pw) \<le> usize_max"
  shows "\<exists>st'. close_part sys k st = Inr st' \<and> parts_inv st' \<and> part_content st' = part_content st \<and>
    map_of (fl_writers st') = (map_of (fl_writers st))(k := None) \<and> same_sink st st' \<and>
    fl_buffers st' = fl_buffers st \<and> fl_manifest st' = fl_manifest st \<and> fl_next_part_id st' = fl_next_part_id st"
proof -
  let ?w = "pw_writer pw" and ?x = "(k, pd_file_id (pw_desc pw))"
  have wi: "writer_inv st k pw" using assms(2,3) by (simp add: parts_inv_def)
  then obtain fs where fs: "run_finish sys ?w (fl_files st) = Inr fs"
      "fs (cw_path ?w) = Some (writer_bytes (fl_files st) ?w)" "\<forall>q. q \<noteq> cw_path ?w \<longrightarrow> fs q = fl_files st q"
    using run_finish_ok [OF assms(1), of "fl_files st" ?w] assms(4) by (auto simp: writer_inv_def)
  define st' where "st' = (remove_writer k st)\<lparr>fl_files := fs, fl_part_files := fl_part_files st @ [pw_desc pw]\<rparr>"
  have p: "cw_path ?w = part_path st ?x" using wi by (rule writer_inv_path)
  have id: "desc_id (pw_desc pw) = ?x" using wi by (simp add: writer_inv_def desc_id_def)
  have m: "map_of (fl_writers st') = (map_of (fl_writers st))(k := None)"
    by (simp add: st'_def remove_writer_def map_of_remove)
  have sel: "fl_base st' = fl_base st" "fl_part_files st' = fl_part_files st @ [pw_desc pw]" "fl_files st' = fs"
    "fl_next_part_id st' = fl_next_part_id st" by (simp_all add: st'_def remove_writer_def)
  have path: "part_path st' y = part_path st y" for y by (simp add: part_path_def sel)
  have nid: "next_id st' j = next_id st j" for j by (simp add: next_id_def sel)
  have content: "part_content st' = part_content st"
  proof
    fix y
    show "part_content st' y = part_content st y"
    proof (cases "y = ?x")
      case True
      have "part_content st' ?x = Some (writer_bytes (fl_files st) ?w)"
        using fs(2) p id by (simp add: part_content_def closed_content_def m sel path)
      then show ?thesis using True writer_content [OF assms(2,3)] by simp
    next
      case False
      have ids: "y \<in> desc_id ` set (fl_part_files st') \<longleftrightarrow> y \<in> desc_id ` set (fl_part_files st)"
        using False by (auto simp: sel id)
      show ?thesis
      proof (cases "fst y = k")
        case True
        then have "pd_file_id (pw_desc pw) \<noteq> snd y" using False by (metis prod.collapse)
        then have "part_content st y = closed_content st y" using True assms(3) by (simp add: part_content_def)
        moreover have "part_content st' y = closed_content st' y" using True by (simp add: part_content_def m)
        moreover have "part_path st y \<noteq> cw_path ?w" unfolding p using False by (simp add: part_path_eq)
        ultimately show ?thesis using ids fs(3) by (simp add: closed_content_def sel path)
      next
        case neq: False
        show ?thesis
          by (rule content_frame [OF assms(2) sel(1), of ?x, OF _ _ _ ids])
            (use neq fs(3) p in \<open>auto simp: sel(3) m\<close>)
      qed
    qed
  qed
  have keep: "fl_files st' (part_path st y) \<noteq> None" if "fl_files st (part_path st y) \<noteq> None" for y
    using fs(2,3) that by (cases "part_path st y = cw_path ?w") (simp_all add: sel)
  have wr: "writer_inv st' j pw'" if j: "map_of (fl_writers st') j = Some pw'" for j pw'
  proof -
    have j': "j \<noteq> k" "writer_inv st j pw'" using j assms(2) by (auto simp: m parts_inv_def split: if_splits)
    then have "cw_path (pw_writer pw') = part_path st (j, pd_file_id (pw_desc pw'))" by (intro writer_inv_path)
    then have "cw_path (pw_writer pw') \<noteq> cw_path ?w" using j'(1) p part_path_eq by simp
    then have "fs (cw_path (pw_writer pw')) = fl_files st (cw_path (pw_writer pw'))" using fs(3) by simp
    then show ?thesis using j'(2) writer_frame [of fs "pw_writer pw'" "fl_files st"]
      by (simp add: writer_inv_def sel path nid)
  qed
  have "closed_inv st' d" if "d \<in> set (fl_part_files st')" for d
  proof (cases "d = pw_desc pw")
    case True
    then show ?thesis using wi fs(2) m id by (auto simp: closed_inv_def writer_inv_def path nid sel desc_id_def)
  next
    case False
    then have "closed_inv st d" using that assms(2) by (auto simp: sel parts_inv_def)
    then show ?thesis using keep [of "desc_id d"] by (auto simp: closed_inv_def path nid m)
  qed
  moreover have "distinct (map fst (fl_writers st'))"
    using assms(2) by (simp add: st'_def remove_writer_def parts_inv_def distinct_map_filter)
  ultimately have "parts_inv st'" using wr by (simp add: parts_inv_def)
  moreover have "close_part sys k st = Inr st'"
    using fs(1) assms(3) by (simp add: close_part_def finalize_part_writer_def st'_def remove_writer_def)
  ultimately show ?thesis using content m by (auto simp: st'_def remove_writer_def same_sink_def)
qed

lemma sat_succ16_small: "unat n < 65535 \<Longrightarrow> unat (sat_succ16 n) = unat n + 1"
proof -
  assume n: "unat n < 65535"
  then have "n \<noteq> - 1" by (auto simp: unsigned_minus_1_eq_mask mask_eq_exp_minus_1)
  then show ?thesis using n by (simp add: sat_succ16_def unat_word_ariths)
qed

lemma open_part_ok:
  assumes "parts_inv st" "map_of (fl_writers st) k = None" "next_id st k < 65535" "dc_alignment (fl_io_cfg st) \<le> 2 ^ 63"
  shows "\<exists>pw. map_of (fl_writers (open_part k st)) = (map_of (fl_writers st))(k \<mapsto> pw) \<and>
      pd_byte_len (pw_desc pw) = 0 \<and> parts_inv (open_part k st) \<and>
      part_content st (k, pd_file_id (pw_desc pw)) = None \<and>
      part_content (open_part k st) = (part_content st)((k, pd_file_id (pw_desc pw)) \<mapsto> [])" (is ?P)
    "next_id (open_part k st) = (next_id st)(k := next_id st k + 1)"
    "same_sink st (open_part k st)" "fl_buffers (open_part k st) = fl_buffers st"
    "fl_manifest (open_part k st) = fl_manifest st"
proof -
  define fid where "fid = (case fl_next_part_id st k of None \<Rightarrow> 0 | Some n \<Rightarrow> n)"
  define x where "x = (k, fid)"
  define pw where "pw = \<lparr>pw_desc = \<lparr>pd_shard_id = k, pd_file_id = fid, pd_path = part_path st x, pd_byte_len = 0\<rparr>,
    pw_writer = fst (run_create_with_config (part_path st x) (fl_io_cfg st) (fl_files st))\<rparr>"
  define st' where "st' = open_part k st"
  have fid: "unat fid = next_id st k" by (simp add: fid_def next_id_def split: option.split)
  have st': "st' = st\<lparr>fl_next_part_id := (fl_next_part_id st)(k \<mapsto> sat_succ16 fid),
      fl_files := (fl_files st)(part_path st x \<mapsto> []), fl_writers := (k, pw) # fl_writers st\<rparr>"
    by (simp add: st'_def open_part_def Let_def fid_def [symmetric] pw_def x_def part_path_def run_create_with_config_def)
  have nid: "next_id st' = (next_id st)(k := next_id st k + 1)"
    using sat_succ16_small [of fid] fid assms(3) by (auto simp: st' next_id_def)
  have fresh: "part_content st x = None"
    using part_content_next [OF assms(1), of x] fid by (cases "part_content st x") (simp_all add: x_def)
  have path: "part_path st' y = part_path st y" for y by (simp add: part_path_def st')
  have sel: "map_of (fl_writers st') = (map_of (fl_writers st))(k \<mapsto> pw)" "fl_part_files st' = fl_part_files st"
    "fl_files st' = (fl_files st)(part_path st x \<mapsto> [])" by (simp_all add: st')
  have x_closed: "x \<notin> desc_id ` set (fl_part_files st)"
  proof
    assume "x \<in> desc_id ` set (fl_part_files st)"
    then obtain d where "d \<in> set (fl_part_files st)" "desc_id d = x" by auto
    then have "unat fid < next_id st k" using assms(1) by (auto simp: parts_inv_def closed_inv_def desc_id_def x_def)
    then show False using fid by simp
  qed
  have bytes: "writer_bytes (fl_files st') (pw_writer pw) = []" "writer_ok (fl_files st') (pw_writer pw)"
    using assms(4) by (simp_all add: st' pw_def run_create_with_config_def writer_bytes_def writer_ok_def)
  have content: "part_content st' = (part_content st)(x \<mapsto> [])"
  proof
    fix y
    show "part_content st' y = ((part_content st)(x \<mapsto> [])) y"
    proof (cases "y = x")
      case True
      then show ?thesis using bytes(1) by (simp add: part_content_def st' x_def pw_def)
    next
      case False
      then have py: "part_path st y \<noteq> part_path st x" by (simp add: part_path_eq)
      have "part_content st' y = part_content st y"
      proof (cases "fst y = k")
        case True
        then have "snd y \<noteq> fid" using False by (auto simp: x_def prod_eq_iff)
        then show ?thesis using True assms(2) py by (simp add: part_content_def closed_content_def path sel pw_def)
      next
        case neq: False
        show ?thesis by (rule content_frame [OF assms(1), of st' x]) (use neq False in \<open>auto simp: st'\<close>)
      qed
      with False show ?thesis by simp
    qed
  qed
  have other: "writer_inv st' j pw'" if j: "map_of (fl_writers st) j = Some pw'" "j \<noteq> k" for j pw'
  proof -
    have wi: "writer_inv st j pw'" using j(1) assms(1) by (simp add: parts_inv_def)
    then have "cw_path (pw_writer pw') \<noteq> part_path st x"
      using writer_inv_path [OF wi] j(2) by (simp add: part_path_eq x_def)
    then have "fl_files st' (cw_path (pw_writer pw')) = fl_files st (cw_path (pw_writer pw'))" by (simp add: st')
    then show ?thesis using writer_frame [of "fl_files st'" "pw_writer pw'" "fl_files st"] wi j(2) by (simp add: writer_inv_def path nid)
  qed
  have "writer_inv st' k pw"
    using bytes fid by (simp add: writer_inv_def path nid) (simp add: pw_def desc_id_def x_def run_create_with_config_def)
  moreover have "closed_inv st' d" if d: "d \<in> set (fl_part_files st)" for d
  proof -
    have c: "closed_inv st d" using d assms(1) by (simp add: parts_inv_def)
    have "desc_id d \<noteq> x" using d x_closed by auto
    then show ?thesis using c
      by (auto simp: closed_inv_def path nid part_path_eq sel desc_id_def x_def pw_def)
  qed
  ultimately have "parts_inv st'"
    using assms(1,2) other by (auto simp: parts_inv_def st' map_of_eq_None_iff)
  with content fresh show ?P unfolding st'_def [symmetric]
    by (intro exI [of _ pw]) (auto simp: st' x_def pw_def)
  show "next_id (open_part k st) = (next_id st)(k := next_id st k + 1)" using nid by (simp add: st'_def)
  show "same_sink st (open_part k st)" "fl_buffers (open_part k st) = fl_buffers st"
    "fl_manifest (open_part k st) = fl_manifest st"
    unfolding st'_def [symmetric] by (simp_all add: st' same_sink_def)
qed

lemma map_of_put_writer: "map_of (put_writer k pw ws) = (if map_of ws k = None then map_of ws else (map_of ws)(k \<mapsto> pw))"
  by (induction ws) (auto simp: put_writer_def)

lemma write_segment_ok:
  assumes "os_ok sys" "parts_inv st" "map_of (fl_writers st) k = Some pw" "\<forall>e \<in> set staged. e_p e < 2 ^ 32"
    and "pd_byte_len (pw_desc pw) + 16 * length staged \<le> usize_max"
  defines "x \<equiv> (k, pd_file_id (pw_desc pw))" and "c \<equiv> writer_bytes (fl_files st) (pw_writer pw)"
  shows "\<exists>st' pw'. write_segment sys k staged st = Inr st' \<and> parts_inv st' \<and> part_content st x = Some c \<and>
    part_content st' = (part_content st)(x \<mapsto> c @ records_bytes (map edge_record staged)) \<and>
    same_sink st st' \<and> fl_buffers st' = fl_buffers st \<and> next_id st' = next_id st \<and>
    map_of (fl_writers st') = (map_of (fl_writers st))(k \<mapsto> pw') \<and>
    pd_byte_len (pw_desc pw') = length c + 16 * length staged \<and>
    fl_manifest st' = fl_manifest st @
      [\<lparr>sd_shard_id = word_of_nat k, sd_file_id = pd_file_id (pw_desc pw), sd_byte_offset = length c,
        sd_byte_len = 16 * length staged, sd_record_count = word_of_nat (length staged),
        sd_src_min = word_of_nat (e_p (hd staged)), sd_src_max = word_of_nat (e_p (last staged)),
        sd_sorted_by_src = True\<rparr>]"
proof -
  let ?bs = "records_bytes (map edge_record staged)"
  have wi: "writer_inv st k pw" using assms(2,3) by (simp add: parts_inv_def)
  have len: "pd_byte_len (pw_desc pw) = length c" using wi by (simp add: writer_inv_def c_def)
  obtain w fs where push: "push_edges sys (pw_writer pw) (fl_files st) staged = Inr (w, fs)"
      and step: "writer_step (fl_files st) (pw_writer pw) ?bs fs w"
    using push_edges_ok [OF assms(1), of "fl_files st" "pw_writer pw" staged] wi assms(4,5)
    by (auto simp: writer_inv_def)
  define pw' where "pw' = \<lparr>pw_desc = (pw_desc pw)\<lparr>pd_byte_len := length c + 16 * length staged\<rparr>, pw_writer = w\<rparr>"
  define d where "d = \<lparr>sd_shard_id = word_of_nat k, sd_file_id = pd_file_id (pw_desc pw), sd_byte_offset = length c,
        sd_byte_len = 16 * length staged, sd_record_count = word_of_nat (length staged),
        sd_src_min = word_of_nat (e_p (hd staged)), sd_src_max = word_of_nat (e_p (last staged)),
        sd_sorted_by_src = True\<rparr>"
  define st' where "st' = st\<lparr>fl_files := fs, fl_writers := put_writer k pw' (fl_writers st), fl_manifest := fl_manifest st @ [d]\<rparr>"
  have run: "write_segment sys k staged st = Inr st'"
    using assms(3) push len
    by (simp add: write_segment_def Let_def st'_def pw'_def d_def RUN_RECORD_BYTES_def mult.commute)
  have m: "map_of (fl_writers st') = (map_of (fl_writers st))(k \<mapsto> pw')"
    using assms(3) by (simp add: st'_def map_of_put_writer)
  have p: "cw_path (pw_writer pw) = part_path st x" unfolding x_def using wi by (rule writer_inv_path)
  have fs: "\<forall>q. q \<noteq> part_path st x \<longrightarrow> fs q = fl_files st q" using step p by (simp add: writer_step_def)
  have path: "part_path st' y = part_path st y" for y by (simp add: part_path_def st'_def)
  have nid: "next_id st' = next_id st" by (auto simp: next_id_def st'_def)
  have wb: "writer_bytes fs w = c @ ?bs" "writer_ok fs w" using step by (simp_all add: writer_step_def c_def)
  have content: "part_content st' = (part_content st)(x \<mapsto> c @ ?bs)"
  proof
    fix y
    show "part_content st' y = ((part_content st)(x \<mapsto> c @ ?bs)) y"
    proof (cases "y = x")
      case True
      then show ?thesis using m wb(1) by (simp add: part_content_def x_def pw'_def) (simp add: st'_def)
    next
      case False
      then have py: "part_path st y \<noteq> part_path st x" by (simp add: part_path_eq)
      have "part_content st' y = part_content st y"
      proof (cases "fst y = k")
        case True
        then have "snd y \<noteq> pd_file_id (pw_desc pw)" using False by (auto simp: x_def prod_eq_iff)
        then show ?thesis using True assms(3) py fs
          by (simp add: part_content_def closed_content_def path m pw'_def) (simp add: st'_def)
      next
        case neq: False
        show ?thesis by (rule content_frame [OF assms(2), of st' x]) (use neq False fs m in \<open>auto simp: st'_def\<close>)
      qed
      with False show ?thesis by simp
    qed
  qed
  have lb: "length ?bs = 16 * length staged" using length_records_bytes [of "map edge_record staged"] by (simp only: length_map)
  have id': "desc_id (pw_desc pw') = desc_id (pw_desc pw)" by (simp add: pw'_def desc_id_def)
  have "writer_inv st' k pw'"
    using wi wb step lb by (simp add: writer_inv_def path nid id' writer_step_def del: length_concat map_map)
      (simp add: pw'_def st'_def del: length_concat map_map)
  moreover have "writer_inv st' j q" if j: "map_of (fl_writers st) j = Some q" "j \<noteq> k" for j q
  proof -
    have wj: "writer_inv st j q" using j(1) assms(2) by (simp add: parts_inv_def)
    then have "cw_path (pw_writer q) \<noteq> part_path st x"
      using writer_inv_path [OF wj] j(2) by (simp add: part_path_eq x_def)
    then have "fl_files st' (cw_path (pw_writer q)) = fl_files st (cw_path (pw_writer q))"
      using fs by (simp add: st'_def)
    then show ?thesis using writer_frame [of "fl_files st'" "pw_writer q" "fl_files st"] wj by (simp add: writer_inv_def path nid)
  qed
  moreover have "closed_inv st' e" if e: "e \<in> set (fl_part_files st)" for e
  proof -
    have c: "closed_inv st e" using e assms(2) by (simp add: parts_inv_def)
    have "desc_id e \<noteq> x" using c assms(3) by (auto simp: closed_inv_def desc_id_def x_def)
    then have "fl_files st' (pd_path e) = fl_files st (pd_path e)"
      using c fs by (simp add: closed_inv_def part_path_eq st'_def)
    then show ?thesis using c assms(3) by (auto simp: closed_inv_def path nid m pw'_def)
  qed
  moreover have "distinct (map fst (fl_writers st'))"
    using assms(2) by (simp add: st'_def parts_inv_def put_writer_def case_prod_unfold comp_def)
  ultimately have "parts_inv st'" using m by (auto simp: parts_inv_def) (simp add: st'_def)
  then show ?thesis using run content m nid writer_content [OF assms(2,3)]
    by (intro exI [of _ st'] exI [of _ pw']) (simp add: c_def x_def same_sink_def, simp add: st'_def pw'_def d_def c_def)
qed

end
