(* ===== verification/SpillDisk.thy ===== *)
theory SpillDisk
  imports SpillFile
begin

text \<open>
  What \<open>SpillEdgeSink\<close> (modelled in \<open>SpillFile\<close>) leaves on disk: the segments its manifest
  describes hold exactly the records of the edges it was given, each segment sorted and of one
  shard. File ids are 16 bits and saturate, so the results are for less than \<open>2 ^ 42\<close> edges, for
  which the ids of no shard run out.
\<close>

section \<open>Segments on disk\<close>

definition segment_at :: "u8 list \<Rightarrow> segment_desc \<Rightarrow> segment" where
  "segment_at c d =
     \<lparr>sg_shard_id = unat (sd_shard_id d),
      sg_records = decode_records (sd_byte_len d div 16) (drop (sd_byte_offset d) c),
      sg_src_min = sd_src_min d, sg_src_max = sd_src_max d\<rparr>"

definition desc_part :: "segment_desc \<Rightarrow> usize \<times> u16" where
  "desc_part d = (unat (sd_shard_id d), sd_file_id d)"

definition segment_in :: "(usize \<times> u16 \<Rightarrow> u8 list option) \<Rightarrow> segment_desc \<Rightarrow> segment" where
  "segment_in m d = segment_at (the (m (desc_part d))) d"

definition located :: "usize \<Rightarrow> (usize \<times> u16 \<Rightarrow> u8 list option) \<Rightarrow> segment_desc \<Rightarrow> bool" where
  "located sp m d \<longleftrightarrow> (\<exists>c. m (desc_part d) = Some c \<and> 16 dvd sd_byte_len d \<and>
     sd_byte_offset d + sd_byte_len d \<le> length c \<and> segment_ok sp (segment_at c d))"

definition content_le :: "(usize \<times> u16 \<Rightarrow> u8 list option) \<Rightarrow> (usize \<times> u16 \<Rightarrow> u8 list option) \<Rightarrow> bool" where
  "content_le m m' \<longleftrightarrow> (\<forall>x c. m x = Some c \<longrightarrow> (\<exists>y. m' x = Some (c @ y)))"

lemma content_le_refl [simp]: "content_le m m"
  unfolding content_le_def by (metis append_Nil2)

lemma content_le_trans: "content_le a b \<Longrightarrow> content_le b c \<Longrightarrow> content_le a c"
  unfolding content_le_def by (metis append.assoc)

lemma content_le_fresh: "m x = None \<Longrightarrow> content_le m (m(x \<mapsto> c))"
  unfolding content_le_def by (metis append_Nil2 fun_upd_other option.distinct(1))

lemma content_le_append: "m x = Some c \<Longrightarrow> content_le m (m(x \<mapsto> c @ b))"
  unfolding content_le_def by auto

lemma located_extend:
  assumes "located sp m d" "content_le m m'"
  shows "located sp m' d" "segment_in m' d = segment_in m d"
proof -
  obtain c where c: "m (desc_part d) = Some c" "16 dvd sd_byte_len d"
    "sd_byte_offset d + sd_byte_len d \<le> length c" "segment_ok sp (segment_at c d)"
    using assms(1) by (auto simp: located_def)
  obtain y where y: "m' (desc_part d) = Some (c @ y)" using c(1) assms(2) unfolding content_le_def by blast
  have "segment_at (c @ y) d = segment_at c d"
    using c(2,3) by (simp add: segment_at_def decode_records_prefix)
  then show "located sp m' d" "segment_in m' d = segment_in m d"
    using c y by (simp_all add: located_def segment_in_def)
qed

section \<open>The invariant of the sink\<close>

definition shard_bytes :: "segment_desc list \<Rightarrow> usize \<Rightarrow> nat" where
  "shard_bytes ds k = (\<Sum>d\<leftarrow>filter (\<lambda>d. unat (sd_shard_id d) = k) ds. sd_byte_len d)"

definition open_bytes :: "file_state \<Rightarrow> usize \<Rightarrow> nat" where
  "open_bytes st k = (case map_of (fl_writers st) k of None \<Rightarrow> 0 | Some pw \<Rightarrow> pd_byte_len (pw_desc pw))"

text \<open>
  Two consecutive parts of a shard hold more than the maximal part size, so the number of parts is
  bounded by the bytes of the shard.
\<close>

definition parts_budget :: "file_state \<Rightarrow> bool" where
  "parts_budget st \<longleftrightarrow> (\<forall>k.
     next_id st k * DEFAULT_PART_MAX_BYTES + open_bytes st k \<le> 2 * shard_bytes (fl_manifest st) k + DEFAULT_PART_MAX_BYTES \<and>
     open_bytes st k \<le> shard_bytes (fl_manifest st) k \<and> (map_of (fl_writers st) k = None \<longrightarrow> next_id st k = 0))"

definition sink_ok :: "file_state \<Rightarrow> bool" where
  "sink_ok st \<longleftrightarrow> 0 < fl_shard_points st \<and> fl_part_max_bytes st = DEFAULT_PART_MAX_BYTES \<and>
     dc_alignment (fl_io_cfg st) \<le> 2 ^ 63 \<and> fl_manifest_path st = fst (fl_base st) @ SEGMENT_MANIFEST_NAME"

definition buffers_ok :: "file_state \<Rightarrow> bool" where
  "buffers_ok st \<longleftrightarrow> distinct (map fst (fl_buffers st)) \<and>
     (\<forall>(k, b) \<in> set (fl_buffers st). \<forall>e \<in> set b. e_p e div fl_shard_points st = k \<and> e_p e < 2 ^ 32)"

definition manifest_ok :: "file_state \<Rightarrow> bool" where
  "manifest_ok st \<longleftrightarrow> (\<forall>d \<in> set (fl_manifest st). located (fl_shard_points st) (part_content st) d)"

definition file_inv :: "file_state \<Rightarrow> bool" where
  [inv_defs]: "file_inv st \<longleftrightarrow> parts_inv st \<and> parts_budget st \<and> sink_ok st \<and> buffers_ok st \<and> manifest_ok st"

definition file_segments :: "file_state \<Rightarrow> segment list" where
  "file_segments st = map (segment_in (part_content st)) (fl_manifest st)"

definition file_held :: "file_state \<Rightarrow> spill_record multiset" where
  "file_held st = image_mset edge_record (buffered (fl_buffers st)) + segmented (file_segments st)"

lemma same_sink_ok: "same_sink st st' \<Longrightarrow> sink_ok st \<Longrightarrow> sink_ok st'"
  by (simp add: same_sink_def sink_ok_def)

lemma manifest_extend:
  assumes "manifest_ok st" "content_le (part_content st) m"
  shows "map (segment_in m) (fl_manifest st) = file_segments st"
    "\<forall>d \<in> set (fl_manifest st). located (fl_shard_points st) m d"
proof -
  have "located (fl_shard_points st) (part_content st) d" if "d \<in> set (fl_manifest st)" for d
    using assms(1) that by (simp add: manifest_ok_def)
  note e = located_extend [OF this assms(2)]
  show "map (segment_in m) (fl_manifest st) = file_segments st" using e(2) by (simp add: file_segments_def)
  show "\<forall>d \<in> set (fl_manifest st). located (fl_shard_points st) m d" using e(1) by blast
qed

lemma shard_bytes_append [simp]: "shard_bytes (ds @ es) k = shard_bytes ds k + shard_bytes es k"
  by (simp add: shard_bytes_def)

lemma shard_bytes_size:
  "\<forall>d \<in> set ds. located sp m d \<Longrightarrow> shard_bytes ds k \<le> 16 * size (segmented (map (segment_in m) ds))"
proof (induction ds)
  case (Cons d ds)
  have "16 dvd sd_byte_len d" using Cons.prems by (auto simp: located_def)
  then have "sd_byte_len d = 16 * length (sg_records (segment_in m d))"
    by (simp add: segment_in_def segment_at_def)
  then show ?case using Cons by (simp add: shard_bytes_def)
qed (simp add: shard_bytes_def)

text \<open>As long as the capacity is not exceeded, there is a file id left and no offset overflows.\<close>

lemma budget_ids:
  assumes "parts_budget st" "shard_bytes (fl_manifest st) k \<le> 16 * 2 ^ 42"
  shows "next_id st k < 65535"
proof (rule ccontr)
  assume "\<not> next_id st k < 65535"
  then have "65535 * DEFAULT_PART_MAX_BYTES \<le> next_id st k * DEFAULT_PART_MAX_BYTES" by simp
  also have "\<dots> \<le> 2 * shard_bytes (fl_manifest st) k + DEFAULT_PART_MAX_BYTES"
    using assms(1) by (auto simp: parts_budget_def intro: add_leD1)
  also have "\<dots> \<le> 2 * (16 * 2 ^ 42) + DEFAULT_PART_MAX_BYTES" using assms(2) by simp
  finally show False by (simp add: DEFAULT_PART_MAX_BYTES_def)
qed

lemma ensure_part_ok:
  assumes "os_ok sys" "parts_inv st" "sink_ok st" "next_id st k < 65535" "open_bytes st k + n \<le> usize_max"
  shows "\<exists>st' pw. ensure_part_writer sys k n st = Inr st' \<and> parts_inv st' \<and>
    map_of (fl_writers st') = (map_of (fl_writers st))(k \<mapsto> pw) \<and>
    content_le (part_content st) (part_content st') \<and> same_sink st st' \<and> fl_buffers st' = fl_buffers st \<and>
    fl_manifest st' = fl_manifest st \<and>
    (next_id st' = next_id st \<and> pd_byte_len (pw_desc pw) = open_bytes st k \<and> map_of (fl_writers st) k \<noteq> None \<or>
     next_id st' = (next_id st)(k := next_id st k + 1) \<and> pd_byte_len (pw_desc pw) = 0 \<and>
       (map_of (fl_writers st) k = None \<or> DEFAULT_PART_MAX_BYTES < open_bytes st k + n))"
proof (cases "map_of (fl_writers st) k")
  case None
  note o = open_part_ok [OF assms(2) None assms(4)]
  have al: "dc_alignment (fl_io_cfg st) \<le> 2 ^ 63" using assms(3) by (simp add: sink_ok_def)
  obtain pw where pw: "map_of (fl_writers (open_part k st)) = (map_of (fl_writers st))(k \<mapsto> pw)"
      "pd_byte_len (pw_desc pw) = 0" "parts_inv (open_part k st)"
      "part_content st (k, pd_file_id (pw_desc pw)) = None"
      "part_content (open_part k st) = (part_content st)((k, pd_file_id (pw_desc pw)) \<mapsto> [])"
    using o(1) [OF al] by blast
  have "ensure_part_writer sys k n st = Inr (open_part k st)"
    using None by (simp add: ensure_part_writer_def close_part_def Let_def)
  moreover have "content_le (part_content st) (part_content (open_part k st))"
    unfolding pw(5) by (rule content_le_fresh) (rule pw(4))
  ultimately show ?thesis using pw(1-3) o(2-5) [OF al] None by (intro exI [of _ "open_part k st"] exI [of _ pw]) simp
next
  case (Some pw0)
  have sat: "sat_add (pd_byte_len (pw_desc pw0)) n = open_bytes st k + n"
    using assms(5) Some by (simp add: open_bytes_def sat_add_def)
  have mx: "fl_part_max_bytes st = DEFAULT_PART_MAX_BYTES" using assms(3) by (simp add: sink_ok_def)
  show ?thesis
  proof (cases "DEFAULT_PART_MAX_BYTES < open_bytes st k + n")
    case False
    then have "ensure_part_writer sys k n st = Inr st"
      using Some sat mx by (simp add: ensure_part_writer_def Let_def)
    moreover have "map_of (fl_writers st) = (map_of (fl_writers st))(k \<mapsto> pw0)" using Some by auto
    ultimately show ?thesis using assms(2) Some by (intro exI [of _ st] exI [of _ pw0]) (simp add: open_bytes_def)
  next
    case True
    have "pd_byte_len (pw_desc pw0) \<le> usize_max" using assms(5) Some by (simp add: open_bytes_def)
    from close_part_ok [OF assms(1,2) Some this] obtain st1 where st1: "close_part sys k st = Inr st1"
      "parts_inv st1" "part_content st1 = part_content st" "map_of (fl_writers st1) = (map_of (fl_writers st))(k := None)"
      "same_sink st st1" "fl_buffers st1 = fl_buffers st" "fl_manifest st1 = fl_manifest st"
      "fl_next_part_id st1 = fl_next_part_id st" by blast
    have nid: "next_id st1 = next_id st" using st1(8) by (auto simp: next_id_def)
    have al: "dc_alignment (fl_io_cfg st1) \<le> 2 ^ 63" using same_sink_ok [OF st1(5) assms(3)] by (simp add: sink_ok_def)
    have none: "map_of (fl_writers st1) k = None" by (simp add: st1(4))
    note o = open_part_ok [OF st1(2) none _ al, unfolded nid, OF assms(4)]
    obtain pw where pw: "map_of (fl_writers (open_part k st1)) = (map_of (fl_writers st1))(k \<mapsto> pw)"
        "pd_byte_len (pw_desc pw) = 0" "parts_inv (open_part k st1)"
        "part_content st1 (k, pd_file_id (pw_desc pw)) = None"
        "part_content (open_part k st1) = (part_content st1)((k, pd_file_id (pw_desc pw)) \<mapsto> [])"
      using o(1) by blast
    have "ensure_part_writer sys k n st = Inr (open_part k st1)"
      using Some True sat mx st1(1) by (simp add: ensure_part_writer_def Let_def)
    moreover have "content_le (part_content st) (part_content (open_part k st1))"
      unfolding pw(5) st1(3) [symmetric] by (rule content_le_fresh) (rule pw(4))
    moreover have "same_sink st (open_part k st1)" using st1(5) o(3) by (rule same_sink_trans)
    ultimately show ?thesis using pw(1-3) o(2,4,5) st1(4,6,7) True
      by (intro exI [of _ "open_part k st1"] exI [of _ pw]) simp
  qed
qed

section \<open>Writing a buffer as a segment\<close>

lemma new_segment_ok:
  assumes "unstable_sort srt" "b \<noteq> []" "\<forall>e \<in> set b. e_p e div sp = k \<and> e_p e < 2 ^ 32"
  defines "staged \<equiv> srt e_p b"
  shows "segment_ok sp \<lparr>sg_shard_id = k, sg_records = map edge_record staged,
      sg_src_min = word_of_nat (e_p (hd staged)), sg_src_max = word_of_nat (e_p (last staged))\<rparr>"
    "mset staged = mset b" "staged \<noteq> []"
proof -
  show m: "mset staged = mset b" unfolding staged_def using assms(1) by (rule unstable_sortD)
  have so: "sorted (map e_p staged)" unfolding staged_def using assms(1) by (rule unstable_sortD)
  show ne: "staged \<noteq> []" using m assms(2) by auto
  have set: "set staged = set b" using m by (rule mset_eq_setD)
  have un: "unat (sr_src (edge_record e)) = e_p e" if "e \<in> set staged" for e
    using that assms(3) set by (intro edge_record_src) auto
  have "sorted (map sr_src (map edge_record staged))"
    using so un by (auto simp: sorted_iff_nth_mono word_le_nat_alt)
  moreover have "\<forall>e \<in> set staged. unat (sr_src (edge_record e)) div sp = k" using un assms(3) set by auto
  ultimately show "segment_ok sp \<lparr>sg_shard_id = k, sg_records = map edge_record staged,
      sg_src_min = word_of_nat (e_p (hd staged)), sg_src_max = word_of_nat (e_p (last staged))\<rparr>"
    using ne by (simp add: segment_ok_def edge_record_def hd_map last_map)
qed

definition staged_desc :: "usize \<Rightarrow> u16 \<Rightarrow> nat \<Rightarrow> pending_edge list \<Rightarrow> segment_desc" where
  "staged_desc k fid off staged =
     \<lparr>sd_shard_id = word_of_nat k, sd_file_id = fid, sd_byte_offset = off, sd_byte_len = 16 * length staged,
      sd_record_count = word_of_nat (length staged), sd_src_min = word_of_nat (e_p (hd staged)),
      sd_src_max = word_of_nat (e_p (last staged)), sd_sorted_by_src = True\<rparr>"

lemma staged_desc_located:
  assumes "k < 2 ^ 32" "m (k, fid) = Some (c @ records_bytes (map edge_record staged))"
    and "segment_ok sp \<lparr>sg_shard_id = k, sg_records = map edge_record staged,
      sg_src_min = word_of_nat (e_p (hd staged)), sg_src_max = word_of_nat (e_p (last staged))\<rparr>"
  defines "d \<equiv> staged_desc k fid (length c) staged"
  shows "located sp m d" "sg_records (segment_in m d) = map edge_record staged" "unat (sd_shard_id d) = k"
    "sd_byte_len d = 16 * length staged"
proof -
  show k: "unat (sd_shard_id d) = k" using assms(1) by (simp add: d_def staged_desc_def unat_word_of_nat_u32)
  show len: "sd_byte_len d = 16 * length staged" by (simp add: d_def staged_desc_def)
  have part: "desc_part d = (k, fid)" using k by (simp add: desc_part_def d_def staged_desc_def)
  have seg: "segment_at (c @ records_bytes (map edge_record staged)) d =
      \<lparr>sg_shard_id = k, sg_records = map edge_record staged,
       sg_src_min = word_of_nat (e_p (hd staged)), sg_src_max = word_of_nat (e_p (last staged))\<rparr>"
    using k decode_records_bytes [of "map edge_record staged" "[]"]
    by (simp add: segment_at_def) (simp add: d_def staged_desc_def)
  have "length (records_bytes (map edge_record staged)) = 16 * length staged"
    using length_records_bytes [of "map edge_record staged"] by (simp only: length_map)
  then show "located sp m d"
    unfolding located_def part assms(2) using assms(3) seg len
    by (simp add: d_def staged_desc_def del: length_concat map_map)
  show "sg_records (segment_in m d) = map edge_record staged"
    unfolding segment_in_def part assms(2) using seg by simp
qed

text \<open>The writer's old part is continued (\<open>a\<close> bytes so far), or a new part is opened.\<close>

definition part_chosen :: "file_state \<Rightarrow> usize \<Rightarrow> nat \<Rightarrow> (usize \<Rightarrow> nat) \<Rightarrow> nat \<Rightarrow> bool" where
  "part_chosen st k n ids a \<longleftrightarrow>
     ids = next_id st \<and> a = open_bytes st k \<and> map_of (fl_writers st) k \<noteq> None \<or>
     ids = (next_id st)(k := next_id st k + 1) \<and> a = 0 \<and>
       (map_of (fl_writers st) k = None \<or> DEFAULT_PART_MAX_BYTES < open_bytes st k + n)"

lemma budget_step:
  assumes "parts_budget st" "part_chosen st k n (next_id st') a"
    and "\<And>j. shard_bytes (fl_manifest st') j = shard_bytes (fl_manifest st) j + (if j = k then n else 0)"
    and "\<And>j. open_bytes st' j = (if j = k then a + n else open_bytes st j)"
    and "map_of (fl_writers st') = (map_of (fl_writers st))(k \<mapsto> pw)"
  shows "parts_budget st'"
  unfolding parts_budget_def
proof (intro allI)
  fix j
  let ?M = DEFAULT_PART_MAX_BYTES
  have old: "next_id st j * ?M + open_bytes st j \<le> 2 * shard_bytes (fl_manifest st) j + ?M"
    "open_bytes st j \<le> shard_bytes (fl_manifest st) j" "map_of (fl_writers st) j = None \<Longrightarrow> next_id st j = 0 \<and> open_bytes st j = 0"
    using assms(1) by (auto simp: parts_budget_def open_bytes_def)
  show "next_id st' j * ?M + open_bytes st' j \<le> 2 * shard_bytes (fl_manifest st') j + ?M \<and>
    open_bytes st' j \<le> shard_bytes (fl_manifest st') j \<and> (map_of (fl_writers st') j = None \<longrightarrow> next_id st' j = 0)"
  proof (cases "j = k")
    case False
    then show ?thesis using old assms(2,5) by (auto simp: assms(3,4) part_chosen_def)
  next
    case True
    from assms(2) show ?thesis unfolding part_chosen_def
    proof (elim disjE conjE)
      assume "next_id st' = next_id st" "a = open_bytes st k"
      then show ?thesis using old True by (simp add: assms(3-5))
    next
      assume "next_id st' = (next_id st)(k := next_id st k + 1)" "a = 0" "map_of (fl_writers st) k = None"
      then show ?thesis using old(3) True by (simp add: assms(3-5))
    next
      assume "next_id st' = (next_id st)(k := next_id st k + 1)" "a = 0" "?M < open_bytes st k + n"
      then show ?thesis using old True by (simp add: assms(3-5) algebra_simps)
    qed
  qed
qed

lemma buffers_upd [simp]:
  "part_content (st\<lparr>fl_buffers := b\<rparr>) = part_content st" "next_id (st\<lparr>fl_buffers := b\<rparr>) = next_id st"
  "open_bytes (st\<lparr>fl_buffers := b\<rparr>) = open_bytes st" "parts_inv (st\<lparr>fl_buffers := b\<rparr>) = parts_inv st"
  "sink_ok (st\<lparr>fl_buffers := b\<rparr>) = sink_ok st" "same_sink (st\<lparr>fl_buffers := b\<rparr>) st' = same_sink st st'"
proof -
  have p [simp]: "part_path (st\<lparr>fl_buffers := b\<rparr>) x = part_path st x" for x by (simp add: part_path_def)
  show "part_content (st\<lparr>fl_buffers := b\<rparr>) = part_content st"
    by (rule ext) (simp add: part_content_def closed_content_def split: option.split)
  show n [simp]: "next_id (st\<lparr>fl_buffers := b\<rparr>) = next_id st" by (rule ext) (simp add: next_id_def)
  show "open_bytes (st\<lparr>fl_buffers := b\<rparr>) = open_bytes st" by (rule ext) (simp add: open_bytes_def)
  show "parts_inv (st\<lparr>fl_buffers := b\<rparr>) = parts_inv st"
    by (simp add: parts_inv_def writer_inv_def closed_inv_def)
qed (simp_all add: same_sink_def sink_ok_def)

lemma part_chosen_upd [simp]: "part_chosen (st\<lparr>fl_buffers := b\<rparr>) = part_chosen st"
  by (intro ext) (simp add: part_chosen_def)

lemma buffer_clear_none: "map_of bs k = None \<or> map_of bs k = Some [] \<Longrightarrow> buffer_clear k bs = bs"
  by (induction k bs rule: buffer_clear.induct) (auto split: if_splits)

text \<open>The room for one more segment.\<close>

lemma flush_room:
  assumes "file_inv st" "size (file_held st) \<le> 2 ^ 42" "map_of (fl_buffers st) k = Some b"
  shows "shard_bytes (fl_manifest st) k + 16 * length b \<le> 16 * 2 ^ 42" "next_id st k < 65535"
    "open_bytes st k + 16 * length b \<le> usize_max"
proof -
  note inv = assms(1) [unfolded file_inv_def]
  have "shard_bytes (fl_manifest st) k \<le> 16 * size (segmented (file_segments st))"
    using shard_bytes_size [of "fl_manifest st" "fl_shard_points st" "part_content st" k] inv
    by (simp add: manifest_ok_def file_segments_def)
  moreover have "length b \<le> size (buffered (fl_buffers st))"
    using buffer_clear_held [OF assms(3)] by simp
  ultimately have "shard_bytes (fl_manifest st) k + 16 * length b \<le> 16 * size (file_held st)"
    by (simp add: file_held_def)
  then show room: "shard_bytes (fl_manifest st) k + 16 * length b \<le> 16 * 2 ^ 42" using assms(2) by simp
  then show "next_id st k < 65535" using inv by (intro budget_ids) auto
  have "open_bytes st k \<le> shard_bytes (fl_manifest st) k" using inv by (simp add: parts_budget_def)
  then show "open_bytes st k + 16 * length b \<le> usize_max" using room by (simp add: usize_max_def)
qed

text \<open>One buffer goes to disk: the state after \<open>ensure_part_writer\<close> and \<open>write_segment\<close>.\<close>

lemma segment_written:
  assumes "os_ok sys" "parts_inv st" "sink_ok st" "next_id st k < 65535"
    and "open_bytes st k + 16 * length staged \<le> usize_max" "\<forall>e \<in> set staged. e_p e < 2 ^ 32"
  shows "\<exists>st' fid a pw c. res_bind (ensure_part_writer sys k (16 * length staged) st) (write_segment sys k staged) = Inr st' \<and>
    parts_inv st' \<and> content_le (part_content st) (part_content st') \<and> same_sink st st' \<and> fl_buffers st' = fl_buffers st \<and>
    part_content st' (k, fid) = Some (c @ records_bytes (map edge_record staged)) \<and> length c = a \<and>
    fl_manifest st' = fl_manifest st @ [staged_desc k fid a staged] \<and>
    part_chosen st k (16 * length staged) (next_id st') a \<and>
    map_of (fl_writers st') = (map_of (fl_writers st))(k \<mapsto> pw) \<and> pd_byte_len (pw_desc pw) = a + 16 * length staged"
proof -
  from ensure_part_ok [OF assms(1-5), folded part_chosen_def]
  obtain st2 pw where st2: "ensure_part_writer sys k (16 * length staged) st = Inr st2" "parts_inv st2"
      "map_of (fl_writers st2) = (map_of (fl_writers st))(k \<mapsto> pw)"
      "content_le (part_content st) (part_content st2)" "same_sink st st2" "fl_buffers st2 = fl_buffers st"
      "fl_manifest st2 = fl_manifest st" "part_chosen st k (16 * length staged) (next_id st2) (pd_byte_len (pw_desc pw))"
    by blast
  have pwk: "map_of (fl_writers st2) k = Some pw" by (simp add: st2(3))
  have fit: "pd_byte_len (pw_desc pw) + 16 * length staged \<le> usize_max"
    using st2(8) assms(5) by (auto simp: part_chosen_def)
  define x where "x = (k, pd_file_id (pw_desc pw))"
  define c where "c = writer_bytes (fl_files st2) (pw_writer pw)"
  have c: "length c = pd_byte_len (pw_desc pw)"
    using st2(2) pwk by (auto simp: parts_inv_def writer_inv_def c_def)
  obtain st3 pw' where st3: "write_segment sys k staged st2 = Inr st3" "parts_inv st3" "part_content st2 x = Some c"
      "part_content st3 = (part_content st2)(x \<mapsto> c @ records_bytes (map edge_record staged))"
      "same_sink st2 st3" "fl_buffers st3 = fl_buffers st2" "next_id st3 = next_id st2"
      "map_of (fl_writers st3) = (map_of (fl_writers st2))(k \<mapsto> pw')"
      "pd_byte_len (pw_desc pw') = length c + 16 * length staged"
      "fl_manifest st3 = fl_manifest st2 @ [staged_desc k (pd_file_id (pw_desc pw)) (length c) staged]"
    using write_segment_ok [OF assms(1) st2(2) pwk assms(6) fit, folded x_def c_def staged_desc_def] by blast
  have "content_le (part_content st) (part_content st3)"
    using content_le_trans [OF st2(4)] content_le_append [of "part_content st2", OF st3(3)] st3(4) by simp
  moreover have "same_sink st st3" using st2(5) st3(5) by (rule same_sink_trans)
  ultimately show ?thesis using st2 st3 c
    by (intro exI [of _ st3] exI [of _ "pd_file_id (pw_desc pw)"] exI [of _ "pd_byte_len (pw_desc pw)"]
        exI [of _ pw'] exI [of _ c]) (simp add: x_def)
qed

lemma flush_shard_ok:
  assumes "sorts_ok S" "os_ok sys" "file_inv st" "size (file_held st) \<le> 2 ^ 42"
  shows "\<exists>st'. flush_shard_buffer_to_part S sys k st = Inr st' \<and> file_inv st' \<and> file_held st' = file_held st \<and>
    fl_buffers st' = buffer_clear k (fl_buffers st) \<and> same_sink st st'"
proof (cases "map_of (fl_buffers st) k = None \<or> map_of (fl_buffers st) k = Some []")
  case True
  then show ?thesis using buffer_clear_none [OF True] assms(3) by (auto simp: flush_shard_buffer_to_part_def)
next
  case False
  then obtain b where Some: "map_of (fl_buffers st) k = Some b" and ne: "b \<noteq> []" by auto
  note inv = assms(3) [unfolded file_inv_def]
  let ?sp = "fl_shard_points st"
  define staged where "staged = by_edge_p S e_p b"
  define st1 where "st1 = st\<lparr>fl_buffers := buffer_clear k (fl_buffers st)\<rparr>"
  have b: "\<forall>e \<in> set b. e_p e div ?sp = k \<and> e_p e < 2 ^ 32"
    using inv map_of_SomeD [OF Some] by (fastforce simp: buffers_ok_def)
  have "unstable_sort (by_edge_p S)" using assms(1) by (simp add: sorts_ok_def)
  note seg = new_segment_ok [OF this ne b, folded staged_def]
  have len: "length staged = length b" using seg(2) by (rule mset_eq_length)
  note room = flush_room [OF assms(3,4) Some, folded len]
  have "\<forall>e \<in> set staged. e_p e < 2 ^ 32" using b mset_eq_setD [OF seg(2)] by auto
  from segment_written [OF assms(2) _ _ _ _ this, of st1 k] inv room
  obtain st' fid a pw c where st': "res_bind (ensure_part_writer sys k (16 * length staged) st1) (write_segment sys k staged) = Inr st'"
    "parts_inv st'" "content_le (part_content st) (part_content st')" "same_sink st st'"
    "fl_buffers st' = buffer_clear k (fl_buffers st)"
    "part_content st' (k, fid) = Some (c @ records_bytes (map edge_record staged))" "length c = a"
    "fl_manifest st' = fl_manifest st @ [staged_desc k fid a staged]"
    "part_chosen st k (16 * length staged) (next_id st') a"
    "map_of (fl_writers st') = (map_of (fl_writers st))(k \<mapsto> pw)" "pd_byte_len (pw_desc pw) = a + 16 * length staged"
    by (auto simp: st1_def)
  have run: "flush_shard_buffer_to_part S sys k st = Inr st'"
    using Some ne st'(1)
    by (simp add: flush_shard_buffer_to_part_def Let_def st1_def staged_def [symmetric] RUN_RECORD_BYTES_def mult.commute)
  have sp: "fl_shard_points st' = ?sp" using st'(4) by (simp add: same_sink_def)
  have "hd b \<in> set b" using ne by simp
  then have k32: "k < 2 ^ 32" using b div_le_dividend by (metis le_less_trans)
  note d = staged_desc_located [of k "part_content st'", OF k32 st'(6) seg(1), unfolded st'(7)]
  have ext: "map (segment_in (part_content st')) (fl_manifest st) = file_segments st"
    "\<forall>d \<in> set (fl_manifest st). located ?sp (part_content st') d" using manifest_extend [OF _ st'(3)] inv by blast+
  have "file_segments st' = file_segments st @ [segment_in (part_content st') (staged_desc k fid a staged)]"
    using ext(1) by (simp add: file_segments_def st'(8))
  then have held: "file_held st' = file_held st"
    using buffer_clear_held [OF Some] arg_cong [OF seg(2), of "image_mset edge_record"] d(2)
    by (simp add: file_held_def st'(5))
  have "parts_budget st'"
  proof (rule budget_step [OF _ st'(9) _ _ st'(10)])
    show "parts_budget st" using inv by simp
    show "shard_bytes (fl_manifest st') j = shard_bytes (fl_manifest st) j + (if j = k then 16 * length staged else 0)" for j
      using d(3,4) by (auto simp: st'(8) shard_bytes_def)
    show "open_bytes st' j = (if j = k then a + 16 * length staged else open_bytes st j)" for j
      using st'(11) by (simp add: open_bytes_def st'(10))
  qed
  moreover have "buffers_ok st'"
    using inv by (fastforce simp: buffers_ok_def st'(5) sp dest: set_buffer_clear)
  moreover have "manifest_ok st'" using ext(2) d(1) by (simp add: manifest_ok_def st'(8) sp)
  ultimately have "file_inv st'" using st'(2) same_sink_ok [OF st'(4)] inv by (simp add: file_inv_def)
  with run held st'(4,5) show ?thesis by blast
qed

section \<open>Flushing edges\<close>

lemma buffer_push_ok:
  assumes "file_inv st" "e_p e < 2 ^ 32"
  defines "st' \<equiv> st\<lparr>fl_buffers := buffer_extend (e_p e div fl_shard_points st) [e] (fl_buffers st)\<rparr>"
  shows "file_inv st'" "file_held st' = add_mset (edge_record e) (file_held st)"
proof -
  have "buffers_ok st'" using assms(1,2)
    by (fastforce simp: file_inv_def buffers_ok_def st'_def distinct_buffer_extend dest: set_buffer_extend)
  moreover have "parts_budget st'" "manifest_ok st'"
    using assms(1) by (simp_all add: file_inv_def parts_budget_def manifest_ok_def st'_def)
  ultimately show "file_inv st'" using assms(1) by (simp add: file_inv_def st'_def)
  show "file_held st' = add_mset (edge_record e) (file_held st)"
    by (simp add: file_held_def file_segments_def st'_def)
qed

lemma buffer_edges_ok:
  assumes "sorts_ok S" "os_ok sys"
  shows "file_inv st \<Longrightarrow> \<forall>e \<in> set es. e_p e < 2 ^ 32 \<Longrightarrow> size (file_held st) + length es \<le> 2 ^ 42 \<Longrightarrow>
    \<exists>st'. buffer_edges S sys es st = Inr st' \<and> file_inv st' \<and> same_sink st st' \<and>
      file_held st' = file_held st + mset (map edge_record es)"
proof (induction es arbitrary: st)
  case (Cons e es)
  let ?k = "e_p e div fl_shard_points st"
  define st1 where "st1 = st\<lparr>fl_buffers := buffer_extend ?k [e] (fl_buffers st)\<rparr>"
  have e: "e_p e < 2 ^ 32" using Cons.prems(2) by simp
  note p = buffer_push_ok [OF Cons.prems(1) e, folded st1_def]
  have ss: "same_sink st st1" by (simp add: st1_def same_sink_def)
  have "size (file_held st1) \<le> 2 ^ 42" using p(2) Cons.prems(3) by simp
  from flush_shard_ok [OF assms p(1) this, of ?k] p ss
  obtain st2 where st2: "(if fl_flush_threshold st \<le> length (the (map_of (fl_buffers st1) ?k))
      then flush_shard_buffer_to_part S sys ?k st1 else Inr st1) = Inr st2"
      "file_inv st2" "file_held st2 = file_held st1" "same_sink st st2"
    by (cases "fl_flush_threshold st \<le> length (the (map_of (fl_buffers st1) ?k))")
      (auto intro: same_sink_trans)
  have "size (file_held st2) + length es \<le> 2 ^ 42" using Cons.prems(3) by (simp add: st2(3) p(2))
  then obtain st' where st': "buffer_edges S sys es st2 = Inr st'" "file_inv st'" "same_sink st2 st'"
      "file_held st' = file_held st2 + mset (map edge_record es)"
    using Cons.IH [OF st2(2)] Cons.prems(2) by auto
  have "buffer_edges S sys (e # es) st = Inr st'"
    using st2(1) st'(1) by (simp only: buffer_edges.simps Let_def st1_def [symmetric] res_bind_simps)
  moreover have "same_sink st st'" using st2(4) st'(3) by (rule same_sink_trans)
  ultimately show ?case using st'(2,4) st2(3) p(2) by simp
qed simp

lemma file_flush_ok:
  assumes "sorts_ok S" "os_ok sys" "file_inv st" "\<forall>e \<in> set es. e_p e < 2 ^ 32" "size (file_held st) + length es \<le> 2 ^ 42"
  shows "\<exists>st'. file_flush_pending_edges S sys es st = Inr st' \<and> file_inv st' \<and> same_sink st st' \<and>
    file_held st' = file_held st + mset (map edge_record es)"
proof (cases "es = []")
  case True
  then show ?thesis using assms(3) by (simp add: file_flush_pending_edges_def)
next
  case False
  have m: "mset (by_edge_p S e_p es) = mset es" using assms(1) by (auto simp: sorts_ok_def dest: unstable_sortD)
  then have "set (by_edge_p S e_p es) = set es" "length (by_edge_p S e_p es) = length es"
    by (rule mset_eq_setD, rule mset_eq_length)
  with buffer_edges_ok [OF assms(1,2,3), of "by_edge_p S e_p es"] assms(4,5) False m show ?thesis
    by (simp add: file_flush_pending_edges_def)
qed

definition file_sink_inv :: "sorts \<Rightarrow> os \<Rightarrow> file_state \<Rightarrow> file_state \<Rightarrow> bool" where
  [inv_defs]: "file_sink_inv S sys st0 st \<longleftrightarrow> sorts_ok S \<and> os_ok sys \<and> file_inv st \<and> same_sink st0 st"

interpretation file_sink: edge_sink "file_flush_pending_edges S sys" "file_sink_inv S sys st0" file_held "2 ^ 42"
  for S sys st0
proof
  show "\<exists>st'. file_flush_pending_edges S sys es st = Inr st' \<and> file_sink_inv S sys st0 st' \<and>
      file_held st' = file_held st + mset (map edge_record es)"
    if "file_sink_inv S sys st0 st" "\<forall>e \<in> set es. e_p e < 2 ^ 32" "size (file_held st) + length es \<le> 2 ^ 42" for st es
    using file_flush_ok [of S sys st es] that same_sink_trans [of st0 st] by (auto simp: file_sink_inv_def)
qed

section \<open>Finishing\<close>

lemma flush_shards_ok:
  assumes "sorts_ok S" "os_ok sys"
  shows "file_inv st \<Longrightarrow> size (file_held st) \<le> 2 ^ 42 \<Longrightarrow>
    \<exists>st'. flush_shards S sys ks st = Inr st' \<and> file_inv st' \<and> same_sink st st' \<and> file_held st' = file_held st \<and>
      fl_buffers st' = fold buffer_clear ks (fl_buffers st)"
proof (induction ks arbitrary: st)
  case (Cons k ks)
  obtain st1 where 1: "flush_shard_buffer_to_part S sys k st = Inr st1" "file_inv st1" "file_held st1 = file_held st"
      "fl_buffers st1 = buffer_clear k (fl_buffers st)" "same_sink st st1"
    using flush_shard_ok [OF assms Cons.prems] by blast
  then show ?case using Cons.IH [of st1] Cons.prems same_sink_trans [OF 1(5)] by fastforce
qed simp

lemma buffer_clear_map:
  "distinct (map fst bs) \<Longrightarrow> buffer_clear k bs = map (\<lambda>e. (fst e, if fst e = k then [] else snd e)) bs"
proof (induction k bs rule: buffer_clear.induct)
  case (2 k k' b bs)
  have "map (\<lambda>e. (fst e, if fst e = k' then [] else snd e)) bs = bs"
    using "2.prems" by (intro map_idI) (auto simp: rev_image_eqI)
  with 2 show ?case by simp
qed simp

lemma fold_buffer_clear:
  "distinct (map fst bs) \<Longrightarrow> fold buffer_clear ks bs = map (\<lambda>e. (fst e, if fst e \<in> set ks then [] else snd e)) bs"
proof (induction ks arbitrary: bs)
  case (Cons k ks)
  have "distinct (map fst (buffer_clear k bs))" using Cons.prems by simp
  with Cons.IH Cons.prems show ?case by (simp add: buffer_clear_map)
qed simp

lemma close_parts_ok:
  assumes "os_ok sys"
  shows "parts_inv st \<Longrightarrow> \<forall>k pw. map_of (fl_writers st) k = Some pw \<longrightarrow> pd_byte_len (pw_desc pw) \<le> usize_max \<Longrightarrow>
    \<exists>st'. close_parts sys ks st = Inr st' \<and> parts_inv st' \<and> part_content st' = part_content st \<and> same_sink st st' \<and>
      fl_manifest st' = fl_manifest st \<and> map_of (fl_writers st') = (map_of (fl_writers st)) |` (- set ks)"
proof (induction ks arbitrary: st)
  case (Cons k ks)
  show ?case
  proof (cases "map_of (fl_writers st) k")
    case None
    then have "(map_of (fl_writers st)) |` (- set (k # ks)) = (map_of (fl_writers st)) |` (- set ks)"
      by (auto simp: restrict_map_def)
    then show ?thesis using Cons.IH [OF Cons.prems] None by (simp add: close_part_def)
  next
    case (Some pw)
    obtain st1 where 1: "close_part sys k st = Inr st1" "parts_inv st1" "part_content st1 = part_content st"
        "map_of (fl_writers st1) = (map_of (fl_writers st))(k := None)" "same_sink st st1" "fl_manifest st1 = fl_manifest st"
      using close_part_ok [OF assms Cons.prems(1) Some] Cons.prems(2) Some by blast
    have "\<forall>j pw. map_of (fl_writers st1) j = Some pw \<longrightarrow> pd_byte_len (pw_desc pw) \<le> usize_max"
      using Cons.prems(2) by (simp add: 1(4))
    from Cons.IH [OF 1(2) this] obtain st' where st': "close_parts sys ks st1 = Inr st'" "parts_inv st'"
        "part_content st' = part_content st1" "same_sink st1 st'" "fl_manifest st' = fl_manifest st1"
        "map_of (fl_writers st') = (map_of (fl_writers st1)) |` (- set ks)" by blast
    have "map_of (fl_writers st') = (map_of (fl_writers st)) |` (- set (k # ks))"
      by (auto simp: st'(6) 1(4) restrict_map_def)
    then show ?thesis using 1 st' same_sink_trans [OF 1(5) st'(4)] by simp
  qed
qed (simp add: restrict_map_def)

text \<open>
  \<open>file_lookup\<close>: the map from shard and file id to the path that the reducers build from the
  list of part files.
\<close>

definition file_lookup :: "spill_artifacts \<Rightarrow> usize \<times> u16 \<Rightarrow> path option" where
  "file_lookup ar = fold (\<lambda>part m. m((pd_shard_id part, pd_file_id part) \<mapsto> pd_path part)) (ar_part_files ar) Map.empty"

definition artifact_content :: "spill_artifacts \<Rightarrow> files \<Rightarrow> usize \<times> u16 \<Rightarrow> u8 list option" where
  "artifact_content ar fs x = (case file_lookup ar x of None \<Rightarrow> None | Some p \<Rightarrow> fs p)"

lemma file_lookup_parts:
  assumes "\<forall>d \<in> set (ar_part_files ar). pd_path d = f (desc_id d)"
  shows "file_lookup ar x = (if x \<in> desc_id ` set (ar_part_files ar) then Some (f x) else None)"
proof -
  have "fold (\<lambda>part m. m((pd_shard_id part, pd_file_id part) \<mapsto> pd_path part)) ps m x =
      (if x \<in> desc_id ` set ps then Some (f x) else m x)"
    if "\<forall>d \<in> set ps. pd_path d = f (desc_id d)" for ps m
    using that by (induction ps arbitrary: m) (auto simp: desc_id_def)
  then show ?thesis using assms by (simp add: file_lookup_def)
qed

lemma manifest_path_no_part: "part_path_for base i k \<noteq> fst base @ SEGMENT_MANIFEST_NAME"
proof
  assume "part_path_for base i k = fst base @ SEGMENT_MANIFEST_NAME"
  then have "last (part_path_for base i k) = last (fst base @ SEGMENT_MANIFEST_NAME)" by simp
  then show False by (simp add: part_path_for_def SEGMENT_MANIFEST_NAME_def)
qed

lemma writers_small:
  assumes "file_inv st" "size (file_held st) \<le> 2 ^ 42" "map_of (fl_writers st) k = Some pw"
  shows "pd_byte_len (pw_desc pw) \<le> usize_max"
proof -
  note inv = assms(1) [unfolded file_inv_def]
  have "open_bytes st k \<le> shard_bytes (fl_manifest st) k" using inv by (simp add: parts_budget_def)
  also have "\<dots> \<le> 16 * size (segmented (file_segments st))"
    using shard_bytes_size [of "fl_manifest st" "fl_shard_points st" "part_content st" k] inv
    by (simp add: manifest_ok_def file_segments_def)
  also have "\<dots> \<le> 16 * 2 ^ 42" using assms(2) by (simp add: file_held_def)
  finally show ?thesis using assms(3) by (simp add: open_bytes_def usize_max_def)
qed

lemma file_finish_ok:
  assumes "sorts_ok S" "os_ok sys" "file_inv st" "size (file_held st) \<le> 2 ^ 42" "\<And>ks. mset (hm_order ks) = mset ks"
  shows "\<exists>ar fs. file_finish S hm_order sys st = Inr (ar, fs) \<and>
    (\<forall>d \<in> set (ar_segment_manifest ar). located (fl_shard_points st) (artifact_content ar fs) d) \<and>
    segmented (map (segment_in (artifact_content ar fs)) (ar_segment_manifest ar)) = file_held st"
proof -
  have keys: "set (hm_order ks) = set ks" for ks using assms(5) by (metis set_mset_mset)
  obtain st1 where 1: "flush_all_buffers_to_parts S hm_order sys st = Inr st1" "file_inv st1" "same_sink st st1"
      "file_held st1 = file_held st" "fl_buffers st1 = fold buffer_clear (hm_order (map fst (fl_buffers st))) (fl_buffers st)"
    using flush_shards_ok [OF assms(1-4)] unfolding flush_all_buffers_to_parts_def by blast
  have "distinct (map fst (fl_buffers st))" using assms(3) by (simp add: file_inv_def buffers_ok_def)
  then have "buffered (fl_buffers st1) = {#}" using keys
    by (auto simp: 1(5) fold_buffer_clear buffered_def case_prod_unfold)
  then have segs: "segmented (file_segments st1) = file_held st" using 1(4) by (simp add: file_held_def)
  have "parts_inv st1" using 1(2) by (simp add: file_inv_def)
  from close_parts_ok [OF assms(2) this] writers_small [OF 1(2)] 1(4) assms(4)
  obtain st2 where 2: "finish_part_writers hm_order sys st1 = Inr st2" "parts_inv st2" "part_content st2 = part_content st1"
      "same_sink st1 st2" "fl_manifest st2 = fl_manifest st1"
      "map_of (fl_writers st2) = (map_of (fl_writers st1)) |` (- set (hm_order (map fst (fl_writers st1))))"
    unfolding finish_part_writers_def by metis
  have none: "map_of (fl_writers st2) k = None" for k
    unfolding 2(6) keys by (auto simp: restrict_map_def map_of_eq_None_iff)
  define st3 where "st3 = write_segment_manifest st2"
  define ar where "ar = \<lparr>ar_part_files = fl_part_files st3, ar_segment_manifest = fl_manifest st3,
    ar_manifest_path = fl_manifest_path st3\<rparr>"
  have run: "file_finish S hm_order sys st = Inr (ar, fl_files st3)"
    using 1(1) 2(1) by (simp add: file_finish_def ar_def st3_def Let_def)
  have mp: "fl_manifest_path st2 = fst (fl_base st2) @ SEGMENT_MANIFEST_NAME"
    using same_sink_ok [OF 2(4)] 1(2) by (simp add: file_inv_def sink_ok_def)
  have files: "fl_files st3 (part_path st2 x) = fl_files st2 (part_path st2 x)" for x
    using manifest_path_no_part [of "fl_base st2"] by (simp add: st3_def write_segment_manifest_def mp part_path_def)
  have "\<forall>d \<in> set (ar_part_files ar). pd_path d = part_path st2 (desc_id d)"
    using 2(2) by (simp add: ar_def st3_def write_segment_manifest_def parts_inv_def closed_inv_def)
  from file_lookup_parts [OF this] files have "artifact_content ar (fl_files st3) x = part_content st2 x" for x
    by (simp add: artifact_content_def part_content_def none closed_content_def)
      (simp add: ar_def st3_def write_segment_manifest_def)
  then have content: "artifact_content ar (fl_files st3) = part_content st1" using 2(3) by auto
  have man: "ar_segment_manifest ar = fl_manifest st1"
    using 2(5) by (simp add: ar_def st3_def write_segment_manifest_def)
  have "fl_shard_points st1 = fl_shard_points st" using 1(3) by (simp add: same_sink_def)
  then show ?thesis using run segs 1(2) content man
    by (intro exI [of _ ar] exI [of _ "fl_files st3"]) (simp add: file_segments_def file_inv_def manifest_ok_def)
qed

section \<open>A whole build\<close>

definition file_spill_build :: "sorts \<Rightarrow> (usize list \<Rightarrow> usize list) \<Rightarrow> os \<Rightarrow> usize \<Rightarrow> string \<times> string \<Rightarrow> usize \<Rightarrow> usize \<Rightarrow>
    direct_io_config \<Rightarrow> files \<Rightarrow> pending_edge list list \<Rightarrow> (spill_artifacts \<times> files) result" where
  "file_spill_build S hm_order sys edge_bytes base cache_bytes shard_points cfg fs batches =
     res_bind (flush_batches (file_flush_pending_edges S sys) batches
                 (create_sharded_with_config edge_bytes base cache_bytes shard_points cfg fs))
       (file_finish S hm_order sys)"

lemma create_sharded_inv:
  assumes "dc_alignment cfg \<le> 2 ^ 63" "st = create_sharded_with_config edge_bytes base cache_bytes shard_points cfg fs"
  shows "file_inv st" "file_held st = {#}" "fl_shard_points st = max shard_points 1"
  using assms(1)
  by (simp_all add: assms(2) create_sharded_with_config_def Let_def file_inv_def parts_inv_def parts_budget_def sink_ok_def
      buffers_ok_def manifest_ok_def file_held_def file_segments_def next_id_def open_bytes_def shard_bytes_def)

lemma file_spill_build_ok:
  assumes "sorts_ok S" "\<And>ks. mset (hm_order ks) = mset ks" "os_ok sys" "dc_alignment cfg \<le> 2 ^ 63"
    and "\<forall>e \<in> set (concat batches). e_p e < 2 ^ 32" "length (concat batches) \<le> 2 ^ 42"
  shows "\<exists>ar fs'. file_spill_build S hm_order sys edge_bytes base cache_bytes shard_points cfg fs batches = Inr (ar, fs') \<and>
    (\<forall>d \<in> set (ar_segment_manifest ar). located (max shard_points 1) (artifact_content ar fs') d) \<and>
    segmented (map (segment_in (artifact_content ar fs')) (ar_segment_manifest ar)) = mset (map edge_record (concat batches))"
proof -
  define st where "st = create_sharded_with_config edge_bytes base cache_bytes shard_points cfg fs"
  note c = create_sharded_inv [OF assms(4) st_def]
  have "file_sink_inv S sys st st" using assms(1,3) c(1) by (simp add: file_sink_inv_def)
  from file_sink.flush_batches_ok [OF this assms(5)] assms(6) c(2)
  obtain st' where st': "flush_batches (file_flush_pending_edges S sys) batches st = Inr st'"
      "file_sink_inv S sys st st'" "file_held st' = mset (map edge_record (concat batches))" by auto
  have "size (file_held st') \<le> 2 ^ 42" unfolding st'(3) using assms(6) by simp
  moreover have "file_inv st'" "fl_shard_points st' = max shard_points 1"
    using st'(2) c(3) by (simp_all add: file_sink_inv_def same_sink_def)
  ultimately show ?thesis using file_finish_ok [OF assms(1,3) _ _ assms(2), of st'] st'(1,3)
    by (simp add: file_spill_build_def st_def)
qed

text \<open>C15: The spill sink on disk loses nothing. For any flush threshold, shard size, direct or buffered
  I/O, any split of the system calls and any files already on disk, flushing batches with fewer than
  \<open>2 ^ 42\<close> edges and finishing succeeds; every segment of the manifest lies inside a part file that
  the reducers will find, decodes to a nonempty run sorted by source of one shard with the manifest's
  bounds, and together the segments hold exactly the records of the edges.\<close>

theorem file_spill_exact:
  assumes "sorts_ok S" "\<forall>ks. mset (hm_order ks) = mset ks" "os_ok sys" "dc_alignment cfg \<le> 2 ^ 63"
    and "\<forall>e \<in> set (concat batches). e_p e < 2 ^ 32" "length (concat batches) \<le> 2 ^ 42"
  shows "\<exists>ar fs'. file_spill_build S hm_order sys edge_bytes base cache_bytes shard_points cfg fs batches = Inr (ar, fs') \<and>
    (\<forall>d \<in> set (ar_segment_manifest ar). located (max shard_points 1) (artifact_content ar fs') d) \<and>
    segmented (map (segment_in (artifact_content ar fs')) (ar_segment_manifest ar)) = mset (map edge_record (concat batches))"
  using assms by (intro file_spill_build_ok) auto

definition sample_os :: os where
  "sample_os = \<lparr>os_give = (\<lambda>off n. 7), os_accept = (\<lambda>off b. 3)\<rparr>"

lemma sample_os_ok: "os_ok sample_os"
  by (simp add: os_ok_def sample_os_def gives_def accepts_def)

theorem file_spill_exact_witness:
  "\<exists>ar fs'. file_spill_build stable_sorts rev sample_os 24 (''d/'', ''cand'') 48 2 (enabled_with_alignment 512) Map.empty sample_batches =
      Inr (ar, fs') \<and>
    (\<forall>d \<in> set (ar_segment_manifest ar). located (max 2 1) (artifact_content ar fs') d) \<and>
    segmented (map (segment_in (artifact_content ar fs')) (ar_segment_manifest ar)) = mset (map edge_record (concat sample_batches))"
  by (rule file_spill_exact)
    (simp_all add: stable_sorts_ok sample_os_ok sample_batches_def enabled_with_alignment_def next_power_of_two_def
      pow2_from.simps usize_max_def DEFAULT_DIRECT_IO_ALIGNMENT_def)

end
