(* ===== verification/GraphFile.thy ===== *)
theory GraphFile
  imports Bytes SpillReduce
begin

text \<open>
  The graph files of \<^verbatim>\<open>ForgeANN/src/index/inmem_index/forgeann_oom_writer.rs\<close>:
  \<open>DirectMemGraphWriter\<close> with \<open>load_mem_graph\<close> (the \<open>_mem.index\<close> format, also read by
  \<open>load_graph\<close> of \<^verbatim>\<open>cmd_drivers/search_mem_index/src/main.rs\<close>), \<open>FixedDegreeMemGraphWriter\<close>
  with \<open>load_fixed_degree_mem_graph\<close>, and the neighbour part files of
  \<^verbatim>\<open>spill_hashprune.rs\<close> (\<open>write_neighbor_chunk\<close>, \<open>replay_neighbor_part\<close>).

  \<open>BufWriter\<close> and \<open>BufReader\<close> are transparent: the model keeps the bytes of the file and the
  position. Failures of the operating system's own calls other than a short read or a refused
  write are not modelled.
\<close>

section \<open>The \<open>_mem.index\<close> writer\<close>

record mem_writer =
  mw_file :: "u8 list"
  mw_pos :: nat
  mw_index_size :: u64
  mw_max_degree :: u32
  mw_start :: u32
  mw_frozen :: u64

definition write_all :: "u8 list \<Rightarrow> mem_writer \<Rightarrow> mem_writer" where
  "write_all b w = w\<lparr>mw_file := write_at (mw_pos w) b (mw_file w), mw_pos := mw_pos w + length b\<rparr>"

definition mem_writer_create :: "u32 \<Rightarrow> usize \<Rightarrow> mem_writer" where
  "mem_writer_create start frozen =
     write_all (le64 (word_of_nat frozen)) (write_all (le32 start) (write_all (le32 0) (write_all (le64 24)
       \<lparr>mw_file = [], mw_pos = 0, mw_index_size = 24, mw_max_degree = 0, mw_start = start,
        mw_frozen = word_of_nat frozen\<rparr>)))"

definition mem_write_node :: "u32 \<Rightarrow> u32 list \<Rightarrow> mem_writer \<Rightarrow> mem_writer" where
  "mem_write_node uid neighbors w =
     (let degree = word_of_nat (length neighbors) :: u32;
          w' = fold (\<lambda>n. write_all (le32 n)) neighbors (write_all (le32 degree) w)
      in w'\<lparr>mw_index_size := mw_index_size w' + word_of_nat ((length neighbors + 1) * 4),
            mw_max_degree := max (mw_max_degree w') degree\<rparr>)"

definition mem_writer_finish :: "mem_writer \<Rightarrow> u8 list" where
  "mem_writer_finish w =
     mw_file (write_all (le64 (mw_frozen w)) (write_all (le32 (mw_start w))
       (write_all (le32 (mw_max_degree w)) (write_all (le64 (mw_index_size w)) (w\<lparr>mw_pos := 0\<rparr>)))))"

text \<open>The whole file: create, one \<open>write_node\<close> per row in order, finish.\<close>

definition write_mem_graph :: "u32 \<Rightarrow> usize \<Rightarrow> u32 list list \<Rightarrow> u8 list" where
  "write_mem_graph start frozen rows =
     mem_writer_finish (fold (\<lambda>(i, ns). mem_write_node (word_of_nat i) ns)
       (enumerate 0 rows) (mem_writer_create start frozen))"

section \<open>The \<open>_mem.index\<close> readers\<close>

record loaded_graph =
  lg_index_size :: u64
  lg_max_degree :: u32
  lg_start :: u32
  lg_num_frozen_pts :: u64
  lg_neighbors :: "u32 list list"

function (sequential) load_rows :: "nat \<Rightarrow> nat \<Rightarrow> nat \<Rightarrow> u32 list list \<Rightarrow> u8 list \<Rightarrow> u32 list list result" where
  "load_rows expected payload bytes_read acc bs =
     (if payload \<le> bytes_read then Inr acc
      else if expected \<le> length acc then Inl (Err (Index ''graph has more than expected nodes''))
      else
        (case read_u32 bs of
           Inl f \<Rightarrow> Inl f
         | Inr (deg, rest) \<Rightarrow>
             let degree = unat deg; read1 = bytes_read + 4 in
             if payload < read1 + degree * 4
             then Inl (Err (Index ''graph record exceeds payload size''))
             else
               (case read_u32s degree rest of
                  Inl f \<Rightarrow> Inl f
                | Inr (row, rest') \<Rightarrow>
                    load_rows expected payload (read1 + degree * 4) (acc @ [row]) rest')))"
  by pat_completeness auto
termination
  by (relation "measure (\<lambda>(expected, payload, r, acc, bs). payload - r)") auto

declare load_rows.simps [simp del]

definition load_mem_graph :: "u8 list \<Rightarrow> usize \<Rightarrow> loaded_graph result" where
  "load_mem_graph file expected =
     res_bind (read_u64 file) (\<lambda>(index_size, r1).
     res_bind (read_u32 r1) (\<lambda>(max_degree, r2).
     res_bind (read_u32 r2) (\<lambda>(start, r3).
     res_bind (read_u64 r3) (\<lambda>(num_frozen_pts, r4).
       if unat index_size < 24 then Inl (Err (Index ''invalid _mem.index header''))
       else
         let payload = unat index_size - 24 in
         if payload mod 4 \<noteq> 0 then Inl (Err (Index ''graph payload size is not u32-aligned''))
         else
           res_bind (load_rows expected payload 0 [] r4) (\<lambda>neighbors.
             if length neighbors \<noteq> expected
             then Inl (Err (Index ''graph has a different number of nodes than expected''))
             else Inr \<lparr>lg_index_size = index_size, lg_max_degree = max_degree, lg_start = start,
               lg_num_frozen_pts = num_frozen_pts, lg_neighbors = neighbors\<rparr>)))))"

primrec load_graph_rows :: "nat \<Rightarrow> u8 list \<Rightarrow> u32 list list result" where
  "load_graph_rows 0 bs = Inr []"
| "load_graph_rows (Suc n) bs =
     res_bind (read_u32 bs) (\<lambda>(degree, r1).
     res_bind (read_u32s (unat degree) r1) (\<lambda>(row, r2).
     res_bind (load_graph_rows n r2) (\<lambda>rows. Inr (row # rows))))"

definition load_graph :: "u8 list \<Rightarrow> usize \<Rightarrow> (u32 \<times> u32 list list) result" where
  "load_graph file expected =
     res_bind (read_u64 file) (\<lambda>(total_size, r1).
     res_bind (read_u32 r1) (\<lambda>(max_degree, r2).
     res_bind (read_u32 r2) (\<lambda>(start, r3).
     res_bind (read_u64 r3) (\<lambda>(frozen_pts, r4).
     res_bind (load_graph_rows expected r4) (\<lambda>graph. Inr (start, graph))))))"

section \<open>The fixed-degree file\<close>

record fixed_writer =
  fw_num_points :: usize
  fw_max_degree :: usize
  fw_record_bytes :: usize

definition record_size :: "usize \<Rightarrow> usize result" where
  "record_size max_degree =
     (case checked_add max_degree 1 of
        None \<Rightarrow> Inl (Err (Index ''fixed graph record overflow''))
      | Some record_u32s \<Rightarrow>
          (case checked_mul record_u32s 4 of
             None \<Rightarrow> Inl (Err (Index ''fixed graph record overflow''))
           | Some record_bytes \<Rightarrow> Inr record_bytes))"

definition fixed_writer_create :: "usize \<Rightarrow> usize \<Rightarrow> (fixed_writer \<times> u8 list) result" where
  "fixed_writer_create num_points max_degree =
     res_bind (record_size max_degree) (\<lambda>record_bytes.
       (case checked_mul num_points record_bytes of
          None \<Rightarrow> Inl (Err (Index ''fixed graph file overflow''))
        | Some total_bytes \<Rightarrow>
            Inr (\<lparr>fw_num_points = num_points, fw_max_degree = max_degree,
                  fw_record_bytes = record_bytes\<rparr>, set_len total_bytes [])))"

definition write_all_at :: "(nat \<Rightarrow> u8 list \<Rightarrow> nat) \<Rightarrow> u8 list \<Rightarrow> u8 list \<Rightarrow> nat \<Rightarrow> u8 list result" where
  "write_all_at accept f buf offset =
     write_loop (Err (Index ''failed to write fixed graph record'')) accept f buf offset"

fun put_slots :: "nat \<Rightarrow> u32 list \<Rightarrow> u8 list \<Rightarrow> u8 list" where
  "put_slots slot [] record = record"
| "put_slots slot (n # ns) record =
     put_slots (Suc slot) ns (write_at ((slot + 1) * 4) (le32 n) record)"

definition fixed_record :: "fixed_writer \<Rightarrow> u32 list \<Rightarrow> u8 list" where
  "fixed_record w neighbors =
     (let degree = min (length neighbors) (fw_max_degree w)
      in put_slots 0 (take degree neighbors)
           (write_at 0 (le32 (word_of_nat degree)) (replicate (fw_record_bytes w) 0)))"

definition fixed_write_node ::
  "(nat \<Rightarrow> u8 list \<Rightarrow> nat) \<Rightarrow> fixed_writer \<Rightarrow> u32 \<Rightarrow> u32 list \<Rightarrow> u8 list \<Rightarrow> u8 list result" where
  "fixed_write_node accept w uid neighbors file =
     (if fw_num_points w \<le> unat uid then Inl (Err (Index ''fixed graph node id is out of range''))
      else write_all_at accept file (fixed_record w neighbors)
             (sat_mul (unat uid) (fw_record_bytes w)))"

primrec load_fixed_rows :: "nat \<Rightarrow> usize \<Rightarrow> usize \<Rightarrow> u8 list \<Rightarrow> u32 list list result" where
  "load_fixed_rows 0 max_degree record_bytes bs = Inr []"
| "load_fixed_rows (Suc n) max_degree record_bytes bs =
     res_bind (read_exact record_bytes bs) (\<lambda>(record, rest).
       let degree = unat (of_le32 (take 4 record)) in
       if max_degree < degree then Inl (Err (Index ''fixed graph node degree exceeds max degree''))
       else
         let row = map (\<lambda>slot. of_le32 (take 4 (drop ((slot + 1) * 4) record))) [0..<degree]
         in res_bind (load_fixed_rows n max_degree record_bytes rest) (\<lambda>rows. Inr (row # rows)))"

definition load_fixed_degree_mem_graph :: "u8 list \<Rightarrow> usize \<Rightarrow> usize \<Rightarrow> u32 list list result" where
  "load_fixed_degree_mem_graph file expected max_degree =
     res_bind (record_size max_degree)
       (\<lambda>record_bytes. load_fixed_rows expected max_degree record_bytes file)"

section \<open>Neighbour part files\<close>

fun write_neighbor_points :: "nat list \<Rightarrow> nat \<Rightarrow> reservoir list \<Rightarrow> u8 list \<Rightarrow> (reservoir list \<times> u8 list) result" where
  "write_neighbor_points [] start rs out = Inr (rs, out)"
| "write_neighbor_points (p # ps) start rs out =
     (if p - start < length rs then
        (let (ns, r') = drain_neighbors (rs ! (p - start))
         in write_neighbor_points ps start (rs[p - start := r'])
              (out @ le32 (word_of_nat (length ns)) @ le32s ns))
      else Inl (Panic ''reservoir index out of range''))"

definition write_neighbor_chunk :: "nat \<Rightarrow> nat \<Rightarrow> reservoir list \<Rightarrow> u8 list \<Rightarrow> (reservoir list \<times> u8 list) result" where
  "write_neighbor_chunk shard_start shard_end rs out =
     write_neighbor_points [shard_start..<shard_end] shard_start rs out"

fun replay_points :: "nat list \<Rightarrow> 'st callback \<Rightarrow> 'st \<Rightarrow> u8 list \<Rightarrow> 'st result" where
  "replay_points [] cb st bs = Inr st"
| "replay_points (p # ps) cb st bs =
     res_bind (read_u32 bs) (\<lambda>(degree, r1).
     res_bind (read_u32s (unat degree) r1) (\<lambda>(neighbors, r2).
     res_bind (cb st (word_of_nat p) neighbors) (\<lambda>st'. replay_points ps cb st' r2)))"

definition replay_neighbor_part :: "nat \<Rightarrow> nat \<Rightarrow> u8 list \<Rightarrow> 'st callback \<Rightarrow> 'st \<Rightarrow> 'st result" where
  "replay_neighbor_part point_start point_end file cb st =
     replay_points [point_start..<point_end] cb st file"

section \<open>The bytes the writer produces\<close>

definition row_bytes :: "u32 list \<Rightarrow> u8 list" where
  "row_bytes ns = le32 (word_of_nat (length ns)) @ le32s ns"

abbreviation rows_bytes :: "u32 list list \<Rightarrow> u8 list" where
  "rows_bytes rows \<equiv> concat (map row_bytes rows)"

lemma length_row_bytes [simp]: "length (row_bytes ns) = 4 + 4 * length ns"
  by (simp add: row_bytes_def)

lemma length_rows_bytes: "length (rows_bytes rows) = (\<Sum>ns\<leftarrow>rows. 4 + 4 * length ns)"
  by (induction rows) simp_all

lemma write_all_end:
  "mw_pos w = length (mw_file w) \<Longrightarrow>
   write_all b w = w\<lparr>mw_file := mw_file w @ b, mw_pos := length (mw_file w @ b)\<rparr>"
  by (simp add: write_all_def)

lemma fold_write_all_end:
  "mw_pos w = length (mw_file w) \<Longrightarrow>
   fold (\<lambda>n. write_all (le32 n)) ns w =
     w\<lparr>mw_file := mw_file w @ le32s ns, mw_pos := length (mw_file w @ le32s ns)\<rparr>"
  by (induction ns arbitrary: w) (simp_all add: write_all_end)

lemma mem_write_node_end:
  assumes "mw_pos w = length (mw_file w)"
  shows "mem_write_node uid ns w =
    w\<lparr>mw_file := mw_file w @ row_bytes ns, mw_pos := length (mw_file w @ row_bytes ns),
      mw_index_size := mw_index_size w + word_of_nat (length (row_bytes ns)),
      mw_max_degree := max (mw_max_degree w) (word_of_nat (length ns))\<rparr>"
  using assms
  by (simp add: mem_write_node_def write_all_end fold_write_all_end Let_def row_bytes_def algebra_simps)

definition max_degree_of :: "u32 \<Rightarrow> u32 list list \<Rightarrow> u32" where
  "max_degree_of m rows = fold (\<lambda>ns m. max m (word_of_nat (length ns))) rows m"

lemma fold_mem_write_node:
  assumes "mw_pos w = length (mw_file w)"
  shows "fold (\<lambda>(i, ns). mem_write_node (word_of_nat i) ns) (enumerate k rows) w =
    w\<lparr>mw_file := mw_file w @ rows_bytes rows, mw_pos := length (mw_file w @ rows_bytes rows),
      mw_index_size := mw_index_size w + word_of_nat (length (rows_bytes rows)),
      mw_max_degree := max_degree_of (mw_max_degree w) rows\<rparr>"
  using assms
  by (induction rows arbitrary: k w) (simp_all add: mem_write_node_end max_degree_of_def)

definition graph_header :: "u64 \<Rightarrow> u32 \<Rightarrow> u32 \<Rightarrow> u64 \<Rightarrow> u8 list" where
  "graph_header isz deg start frozen = le64 isz @ le32 deg @ le32 start @ le64 frozen"

lemma length_graph_header [simp]: "length (graph_header a b c d) = 24"
  by (simp add: graph_header_def)

lemma write_header_over:
  "mem_writer_finish w = graph_header (mw_index_size w) (mw_max_degree w) (mw_start w) (mw_frozen w) @ body"
  if "mw_file w = graph_header a b c d @ body"
proof -
  have over: "write_at n y (x @ y' @ z) = x @ y @ z" if "length y' = length y" "length x = n" for n x y y' z
    using write_at_inside [of y' y x z] that by simp
  show ?thesis
    using that over [of "le64 a" "le64 (mw_index_size w)" "[]" 0]
      over [of "le32 b" "le32 (mw_max_degree w)" "le64 (mw_index_size w)" 8]
      over [of "le32 c" "le32 (mw_start w)" "le64 (mw_index_size w) @ le32 (mw_max_degree w)" 12]
      over [of "le64 d" "le64 (mw_frozen w)" "le64 (mw_index_size w) @ le32 (mw_max_degree w) @ le32 (mw_start w)" 16]
    by (simp add: mem_writer_finish_def write_all_def graph_header_def)
qed

lemma write_mem_graph_bytes:
  "write_mem_graph start frozen rows =
     graph_header (24 + word_of_nat (length (rows_bytes rows))) (max_degree_of 0 rows) start
       (word_of_nat frozen) @ rows_bytes rows"
proof -
  let ?w = "mem_writer_create start frozen"
  have w: "?w = \<lparr>mw_file = graph_header 24 0 start (word_of_nat frozen), mw_pos = 24,
      mw_index_size = 24, mw_max_degree = 0, mw_start = start, mw_frozen = word_of_nat frozen\<rparr>"
    by (simp add: mem_writer_create_def write_all_end graph_header_def)
  then have "mw_pos ?w = length (mw_file ?w)" by simp
  note f = fold_mem_write_node [OF this, of 0 rows]
  show ?thesis
    unfolding write_mem_graph_def f
    by (subst write_header_over [where body = "rows_bytes rows"]) (simp_all add: w)
qed

section \<open>Reading it back\<close>

lemma unat_degree: "length ns < 2 ^ 32 \<Longrightarrow> unat (word_of_nat (length ns) :: u32) = length ns"
  by (rule unat_word_of_nat_u32)

lemma read_row [simp]:
  "length ns < 2 ^ 32 \<Longrightarrow> read_u32 (row_bytes ns @ rest) = Inr (word_of_nat (length ns), le32s ns @ rest)"
  by (simp add: row_bytes_def)

lemma load_rows_ok:
  "\<forall>ns \<in> set rows. length ns < 2 ^ 32 \<Longrightarrow> length acc + length rows \<le> expected \<Longrightarrow>
   load_rows expected (n + length (rows_bytes rows)) n acc (rows_bytes rows @ rest) = Inr (acc @ rows)"
proof (induction rows arbitrary: n acc)
  case Nil
  then show ?case by (simp add: load_rows.simps)
next
  case (Cons ns rows)
  have "load_rows expected (n + length (rows_bytes (ns # rows))) n acc (rows_bytes (ns # rows) @ rest) =
      load_rows expected ((n + 4 + length ns * 4) + length (rows_bytes rows)) (n + 4 + length ns * 4)
        (acc @ [ns]) (rows_bytes rows @ rest)"
    using Cons.prems by (subst load_rows.simps)
      (simp add: unat_degree Let_def algebra_simps del: length_concat)
  then show ?case using Cons.IH [of "acc @ [ns]"] Cons.prems by simp
qed

lemma load_rows_too_many:
  "\<forall>ns \<in> set rows. length ns < 2 ^ 32 \<Longrightarrow> length acc \<le> expected \<Longrightarrow>
   expected < length acc + length rows \<Longrightarrow>
   \<exists>f. load_rows expected (n + length (rows_bytes rows)) n acc (rows_bytes rows @ rest) = Inl f"
proof (induction rows arbitrary: n acc)
  case (Cons ns rows)
  show ?case
  proof (cases "length acc = expected")
    case True
    then show ?thesis by (subst load_rows.simps) simp
  next
    case False
    have "load_rows expected (n + length (rows_bytes (ns # rows))) n acc (rows_bytes (ns # rows) @ rest) =
        load_rows expected ((n + 4 + length ns * 4) + length (rows_bytes rows)) (n + 4 + length ns * 4)
          (acc @ [ns]) (rows_bytes rows @ rest)"
      using Cons.prems False by (subst load_rows.simps)
        (simp add: unat_degree Let_def algebra_simps del: length_concat)
    then show ?thesis using Cons.IH [of "acc @ [ns]"] Cons.prems False by simp
  qed
qed simp

lemma load_rows_length:
  "load_rows expected payload n acc bs = Inr rows \<Longrightarrow> payload \<le> n + length bs"
proof (induction expected payload n acc bs rule: load_rows.induct)
  case (1 expected payload n acc bs)
  show ?case
  proof (cases "payload \<le> n")
    case False
    with "1.prems" obtain deg rest row rest' where
      r: "expected > length acc" "read_u32 bs = Inr (deg, rest)" "\<not> payload < n + 4 + unat deg * 4"
        "read_u32s (unat deg) rest = Inr (row, rest')"
        "load_rows expected payload (n + 4 + unat deg * 4) (acc @ [row]) rest' = Inr rows"
      by (subst (asm) load_rows.simps) (auto split: if_splits sum.splits prod.splits simp: Let_def)
    then have "payload \<le> n + 4 + unat deg * 4 + length rest'"
      using "1.IH" [OF False _ r(2) refl refl refl r(3) r(4) refl r(5)] by simp
    then show ?thesis using read_u32_length [OF r(2)] read_u32s_length [OF r(4)] by simp
  qed simp
qed

lemma unat_max_degree_of:
  "\<forall>ns \<in> set rows. length ns < 2 ^ 32 \<Longrightarrow>
   unat (max_degree_of m rows) = Max (insert (unat m) (length ` set rows))"
proof (induction rows arbitrary: m)
  case (Cons ns rows)
  have m: "unat (max m (word_of_nat (length ns))) = max (unat m) (length ns)"
    using Cons.prems by (auto simp: max_def unat_degree word_le_nat_alt)
  have "unat (max_degree_of m (ns # rows)) =
      Max (insert (unat (max m (word_of_nat (length ns)))) (length ` set rows))"
    using Cons by (simp add: max_degree_of_def)
  then show ?case by (cases "rows = []") (simp_all add: m max.assoc)
qed (simp add: max_degree_of_def)

lemma load_graph_rows_ok:
  "\<forall>ns \<in> set rows. length ns < 2 ^ 32 \<Longrightarrow>
   load_graph_rows (length rows) (rows_bytes rows @ rest) = Inr rows"
  by (induction rows) (simp_all add: unat_degree)

lemma read_graph_header:
  "res_bind (read_u64 (graph_header isz deg start frozen @ body)) (\<lambda>(a, r1).
   res_bind (read_u32 r1) (\<lambda>(b, r2). res_bind (read_u32 r2) (\<lambda>(c, r3).
   res_bind (read_u64 r3) (\<lambda>(d, r4). k a b c d r4)))) = k isz deg start frozen body"
  by (simp add: graph_header_def)

lemma unat_index_size:
  "24 + length (rows_bytes rows) < 2 ^ 64 \<Longrightarrow>
   unat (24 + word_of_nat (length (rows_bytes rows)) :: u64) = 24 + length (rows_bytes rows)"
proof -
  assume a: "24 + length (rows_bytes rows) < 2 ^ 64"
  have "(24 + word_of_nat (length (rows_bytes rows)) :: u64) = word_of_nat (24 + length (rows_bytes rows))"
    by simp
  moreover have "unat (word_of_nat n :: u64) = n" if "n < 2 ^ 64" for n
    using that by (simp add: unsigned_of_nat take_bit_nat_eq_self_iff)
  ultimately show ?thesis using a by metis
qed

lemma load_mem_graph_file:
  assumes "24 + length (rows_bytes rows) < 2 ^ 64"
  shows "load_mem_graph (write_mem_graph start frozen rows) expected =
    res_bind (load_rows expected (length (rows_bytes rows)) 0 [] (rows_bytes rows)) (\<lambda>neighbors.
      if length neighbors \<noteq> expected
      then Inl (Err (Index ''graph has a different number of nodes than expected''))
      else Inr \<lparr>lg_index_size = 24 + word_of_nat (length (rows_bytes rows)),
        lg_max_degree = max_degree_of 0 rows, lg_start = start,
        lg_num_frozen_pts = word_of_nat frozen, lg_neighbors = neighbors\<rparr>)"
proof -
  have "length (rows_bytes rows) mod 4 = 0"
    by (induction rows) (simp_all del: length_concat, presburger)
  with unat_index_size [OF assms] show ?thesis
    unfolding load_mem_graph_def write_mem_graph_bytes read_graph_header
    by (simp add: Let_def del: length_concat)
qed

text \<open>C26: What \<open>DirectMemGraphWriter\<close> writes, \<open>load_mem_graph\<close> and the search driver's
  \<open>load_graph\<close> read back: every row, the start point, the number of frozen points, the largest
  degree and the exact file size, provided degrees fit 32 bits and the file size 64 bits.\<close>

theorem mem_graph_roundtrip:
  assumes "\<forall>ns \<in> set rows. length ns < 2 ^ 32" "24 + (\<Sum>ns\<leftarrow>rows. 4 + 4 * length ns) < 2 ^ 64"
  shows "(let file = write_mem_graph start frozen rows in
    load_mem_graph file (length rows) =
      Inr \<lparr>lg_index_size = word_of_nat (length file),
        lg_max_degree = word_of_nat (Max (insert 0 (length ` set rows))), lg_start = start,
        lg_num_frozen_pts = word_of_nat frozen, lg_neighbors = rows\<rparr> \<and>
    load_graph file (length rows) = Inr (start, rows))"
proof -
  have fits: "24 + length (rows_bytes rows) < 2 ^ 64" using assms(2) by (simp only: length_rows_bytes)
  have len: "length (write_mem_graph start frozen rows) = 24 + length (rows_bytes rows)"
    by (simp add: write_mem_graph_bytes)
  have "max_degree_of 0 rows = word_of_nat (Max (insert 0 (length ` set rows)))"
    using unat_max_degree_of [OF assms(1), of 0] by (metis of_nat_unat ucast_id unat_0)
  moreover have "load_rows (length rows) (length (rows_bytes rows)) 0 [] (rows_bytes rows) = Inr rows"
    using load_rows_ok [OF assms(1), of "[]" "length rows" 0 "[]"] by simp
  moreover have "load_graph (write_mem_graph start frozen rows) (length rows) = Inr (start, rows)"
    using load_graph_rows_ok [OF assms(1), of "[]"]
    unfolding load_graph_def write_mem_graph_bytes read_graph_header by simp
  ultimately show ?thesis unfolding Let_def len load_mem_graph_file [OF fits] by simp
qed

definition sample_rows :: "u32 list list" where
  "sample_rows = [[1, 2], [], [0]]"

theorem mem_graph_roundtrip_witness:
  "(let file = write_mem_graph 1 0 sample_rows in
    load_mem_graph file (length sample_rows) =
      Inr \<lparr>lg_index_size = word_of_nat (length file),
        lg_max_degree = word_of_nat (Max (insert 0 (length ` set sample_rows))), lg_start = 1,
        lg_num_frozen_pts = word_of_nat 0, lg_neighbors = sample_rows\<rparr> \<and>
    load_graph file (length sample_rows) = Inr (1, sample_rows))"
  by (rule mem_graph_roundtrip) (simp_all add: sample_rows_def)

text \<open>\<open>load_mem_graph\<close> refuses a graph file whose number of rows is not the expected one, and
  every proper prefix of a graph file (a truncated file), whatever number of rows is expected.\<close>

theorem mem_graph_rejects:
  assumes "\<forall>ns \<in> set rows. length ns < 2 ^ 32" "24 + (\<Sum>ns\<leftarrow>rows. 4 + 4 * length ns) < 2 ^ 64"
  shows "(expected \<noteq> length rows \<longrightarrow>
      (\<exists>f. load_mem_graph (write_mem_graph start frozen rows) expected = Inl f)) \<and>
    (k < length (write_mem_graph start frozen rows) \<longrightarrow>
      (\<exists>f. load_mem_graph (take k (write_mem_graph start frozen rows)) expected = Inl f))"
proof (intro conjI impI)
  have fits: "24 + length (rows_bytes rows) < 2 ^ 64" using assms(2) by (simp only: length_rows_bytes)
  show "\<exists>f. load_mem_graph (write_mem_graph start frozen rows) expected = Inl f" if "expected \<noteq> length rows"
  proof (cases "length rows < expected")
    case True
    then show ?thesis using load_rows_ok [OF assms(1), of "[]" expected 0 "[]"]
      by (simp add: load_mem_graph_file [OF fits] del: length_concat)
  next
    case False
    then show ?thesis using that load_rows_too_many [OF assms(1), of "[]" expected 0 "[]"]
      by (auto simp: load_mem_graph_file [OF fits] simp del: length_concat)
  qed
  let ?h = "graph_header (24 + word_of_nat (length (rows_bytes rows))) (max_degree_of 0 rows) start (word_of_nat frozen)"
  assume k: "k < length (write_mem_graph start frozen rows)"
  show "\<exists>f. load_mem_graph (take k (write_mem_graph start frozen rows)) expected = Inl f"
  proof (rule ccontr)
    assume "\<nexists>f. load_mem_graph (take k (write_mem_graph start frozen rows)) expected = Inl f"
    then obtain g where g: "load_mem_graph (take k (write_mem_graph start frozen rows)) expected = Inr g"
      by (metis sum.exhaust_sel)
    then have "24 \<le> length (take k (write_mem_graph start frozen rows))"
      unfolding load_mem_graph_def
      by (auto simp: res_bind_Inr_iff dest!: read_u64_length read_u32_length)
    then have k24: "24 \<le> k" by simp
    then have t: "take k (write_mem_graph start frozen rows) = ?h @ take (k - 24) (rows_bytes rows)"
      by (simp add: write_mem_graph_bytes)
    have "length (rows_bytes rows) \<le> length (take (k - 24) (rows_bytes rows))"
      using g unfolding t load_mem_graph_def read_graph_header
      by (auto simp: Let_def res_bind_Inr_iff unat_index_size [OF fits] simp del: length_concat length_take
          split: if_splits dest: load_rows_length)
    with k k24 show False by (simp add: write_mem_graph_bytes del: length_concat)
  qed
qed

theorem mem_graph_rejects_witness:
  "(\<exists>f. load_mem_graph (write_mem_graph 1 0 sample_rows) 4 = Inl f) \<and>
   (\<exists>f. load_mem_graph (take 0 (write_mem_graph 1 0 sample_rows)) 4 = Inl f)"
proof -
  have "4 \<noteq> length sample_rows" "0 < length (write_mem_graph 1 0 sample_rows)"
    by (simp_all add: sample_rows_def write_mem_graph_bytes graph_header_def le64_def le32_def)
  moreover have "\<forall>ns \<in> set sample_rows. length ns < 2 ^ 32" "24 + (\<Sum>ns\<leftarrow>sample_rows. 4 + 4 * length ns) < 2 ^ 64"
    by (simp_all add: sample_rows_def)
  ultimately show ?thesis using mem_graph_rejects [of sample_rows 4 1 0 0] by blast
qed

section \<open>The fixed-degree file as a table of rows\<close>

text \<open>A record: the degree, the neighbours, zeros up to the record size.\<close>

definition fixed_bytes :: "usize \<Rightarrow> u32 list \<Rightarrow> u8 list" where
  "fixed_bytes d row = le32 (word_of_nat (length row)) @ le32s row @ replicate (4 * (d - length row)) 0"

definition fixed_file :: "usize \<Rightarrow> u32 list list \<Rightarrow> u8 list" where
  "fixed_file d rows = concat (map (fixed_bytes d) rows)"

lemma length_fixed_bytes: "length row \<le> d \<Longrightarrow> length (fixed_bytes d row) = (d + 1) * 4"
  by (simp add: fixed_bytes_def)

lemma put_slots_bytes:
  "length x = (slot + 1) * 4 \<Longrightarrow> length y = 4 * length ns \<Longrightarrow>
   put_slots slot ns (x @ y @ z) = x @ le32s ns @ z"
proof (induction ns arbitrary: slot x y)
  case (Cons n ns)
  have y: "y = take 4 y @ drop 4 y" by simp
  have "write_at (length x) (le32 n) (x @ take 4 y @ (drop 4 y @ z)) = x @ le32 n @ (drop 4 y @ z)"
    using Cons.prems by (intro write_at_inside) simp
  then have "put_slots slot (n # ns) (x @ y @ z) = put_slots (Suc slot) ns ((x @ le32 n) @ drop 4 y @ z)"
    using Cons.prems y by (metis append.assoc put_slots.simps(2))
  also have "\<dots> = (x @ le32 n) @ le32s ns @ z" using Cons.prems by (intro Cons.IH) simp_all
  finally show ?case by simp
qed simp

lemma fixed_record_bytes:
  assumes "fw_record_bytes w = (fw_max_degree w + 1) * 4"
  shows "fixed_record w ns = fixed_bytes (fw_max_degree w) (take (fw_max_degree w) ns)"
proof -
  let ?d = "fw_max_degree w" and ?k = "min (length ns) (fw_max_degree w)"
  have "replicate (fw_record_bytes w) (0 :: u8) =
      replicate 4 0 @ replicate (4 * ?k) 0 @ replicate (4 * (?d - ?k)) 0"
    unfolding assms by (simp only: replicate_add [symmetric]) (rule arg_cong [where f = "\<lambda>n. replicate n 0"], auto)
  moreover have "write_at 0 (le32 v) (replicate 4 0 @ z) = le32 v @ z" for v z
    using write_at_inside [of "replicate 4 0" "le32 v" "[]" z] by simp
  ultimately have "fixed_record w ns =
      put_slots 0 (take ?k ns) (le32 (word_of_nat ?k) @ replicate (4 * ?k) 0 @ replicate (4 * (?d - ?k)) 0)"
    by (simp add: fixed_record_def Let_def)
  also have "\<dots> = le32 (word_of_nat ?k) @ le32s (take ?k ns) @ replicate (4 * (?d - ?k)) 0"
    by (intro put_slots_bytes) simp_all
  also have "take ?k ns = take ?d ns" by (cases "length ns \<le> ?d") simp_all
  finally show ?thesis by (simp add: fixed_bytes_def min.commute)
qed

lemma length_concat_uniform: "\<forall>x \<in> set xs. length x = n \<Longrightarrow> length (concat xs) = length xs * n"
  by (induction xs) simp_all

lemma write_at_chunk:
  assumes "\<forall>x \<in> set xs. length x = n" "i < length xs" "length y = n"
  shows "write_at (i * n) y (concat xs) = concat (xs[i := y])"
proof -
  have xs: "concat xs = concat (take i xs) @ xs ! i @ concat (drop (Suc i) xs)"
    using id_take_nth_drop [OF assms(2)] by (metis concat.simps(2) concat_append)
  have "length (concat (take i xs)) = i * n"
    using assms length_concat_uniform [of "take i xs" n] by (auto dest: in_set_takeD)
  then have "write_at (i * n) y (concat xs) = concat (take i xs) @ y @ concat (drop (Suc i) xs)"
    unfolding xs using assms by (metis write_at_inside nth_mem)
  then show ?thesis using assms(2) by (simp add: upd_conv_take_nth_drop)
qed

lemma fixed_write_node_row:
  assumes "accepts accept"
    and "fw_record_bytes w = (fw_max_degree w + 1) * 4" "fw_num_points w * fw_record_bytes w \<le> usize_max"
    and "length rows = fw_num_points w" "\<forall>row \<in> set rows. length row \<le> fw_max_degree w"
    and "unat uid < fw_num_points w"
  shows "fixed_write_node accept w uid ns (fixed_file (fw_max_degree w) rows) =
    Inr (fixed_file (fw_max_degree w) (rows[unat uid := take (fw_max_degree w) ns]))"
proof -
  let ?d = "fw_max_degree w" and ?rb = "fw_record_bytes w"
  have uni: "\<forall>x \<in> set (map (fixed_bytes ?d) rows). length x = ?rb"
    using assms(2,5) by (auto simp: length_fixed_bytes)
  have "unat uid * ?rb \<le> fw_num_points w * ?rb" using assms(6) by (intro mult_le_mono1) simp
  then have "unat uid * ?rb \<le> usize_max" using assms(3) by linarith
  then have off: "sat_mul (unat uid) ?rb = unat uid * ?rb" "unat uid * ?rb \<le> length (fixed_file ?d rows)"
    using assms(4,6) length_concat_uniform [OF uni] by (simp_all add: fixed_file_def)
  have "write_at (unat uid * ?rb) (fixed_bytes ?d (take ?d ns)) (fixed_file ?d rows) =
      fixed_file ?d (rows[unat uid := take ?d ns])"
    unfolding fixed_file_def using uni assms(2,4,6)
    by (subst write_at_chunk) (simp_all add: length_fixed_bytes map_update)
  then show ?thesis
    using assms off write_loop_ok [OF assms(1), of _ _ "fixed_record w ns"]
    by (simp add: fixed_write_node_def write_all_at_def fixed_record_bytes)
qed

lemma of_le32_slot:
  "i < length ws \<Longrightarrow> of_le32 (take 4 (drop (i * 4) (le32s ws @ z))) = ws ! i"
proof (induction ws arbitrary: i)
  case (Cons w ws)
  then show ?case by (cases i) simp_all
qed simp

lemma load_fixed_rows_file:
  assumes "\<forall>row \<in> set rows. length row \<le> d" "d < 2 ^ 32"
  shows "load_fixed_rows (length rows) d ((d + 1) * 4) (fixed_file d rows) = Inr rows"
  using assms(1)
proof (induction rows)
  case (Cons row rows)
  have deg: "take 4 (fixed_bytes d row) = le32 (word_of_nat (length row))" by (simp add: fixed_bytes_def)
  have n: "unat (word_of_nat (length row) :: u32) = length row"
    using Cons.prems assms(2) by (intro unat_degree) simp
  have "of_le32 (take 4 (drop ((slot + 1) * 4) (fixed_bytes d row))) = row ! slot" if "slot < length row" for slot
    using of_le32_slot [OF that, of "replicate (4 * (d - length row)) 0"] by (simp add: fixed_bytes_def)
  then have "map (\<lambda>slot. of_le32 (take 4 (drop ((slot + 1) * 4) (fixed_bytes d row)))) [0..<length row] = row"
    by (intro nth_equalityI) simp_all
  moreover have "read_exact ((d + 1) * 4) (fixed_file d (row # rows)) = Inr (fixed_bytes d row, fixed_file d rows)"
    using Cons.prems by (simp only: fixed_file_def list.map concat.simps) (simp add: length_fixed_bytes)
  ultimately show ?case using Cons deg n by (simp add: Let_def)
qed simp

lemma fixed_writer_create_file:
  assumes "fixed_writer_create n d = Inr (w, file)"
  shows "fw_num_points w = n" "fw_max_degree w = d" "fw_record_bytes w = (d + 1) * 4"
    "n * fw_record_bytes w \<le> usize_max" "record_size d = Inr (fw_record_bytes w)"
    "file = fixed_file d (replicate n [])"
proof -
  show "fw_num_points w = n" "fw_max_degree w = d" "n * fw_record_bytes w \<le> usize_max"
    "fw_record_bytes w = (d + 1) * 4" "record_size d = Inr (fw_record_bytes w)"
    using assms by (auto simp: fixed_writer_create_def record_size_def checked_add_def checked_mul_def
        split: if_splits)
  have "fixed_bytes d [] = replicate ((d + 1) * 4) 0"
    by (simp add: fixed_bytes_def le32_def numeral_eq_Suc)
  then have "fixed_file d (replicate n []) = replicate (n * ((d + 1) * 4)) 0"
    unfolding fixed_file_def by (induction n) (simp_all add: replicate_add)
  then show "file = fixed_file d (replicate n [])"
    using assms by (auto simp: fixed_writer_create_def record_size_def checked_add_def checked_mul_def
        set_len_def split: if_splits)
qed

text \<open>A sequence of \<open>write_node\<close> calls, in any order of the ids and with repetitions.\<close>

fun fixed_write_nodes :: "(nat \<Rightarrow> u8 list \<Rightarrow> nat) \<Rightarrow> fixed_writer \<Rightarrow> (u32 \<times> u32 list) list \<Rightarrow>
    u8 list \<Rightarrow> u8 list result" where
  "fixed_write_nodes accept w [] f = Inr f"
| "fixed_write_nodes accept w ((uid, ns) # ops) f =
     res_bind (fixed_write_node accept w uid ns f) (fixed_write_nodes accept w ops)"

definition set_row :: "usize \<Rightarrow> u32 \<times> u32 list \<Rightarrow> u32 list list \<Rightarrow> u32 list list" where
  "set_row d op rows = rows[unat (fst op) := take d (snd op)]"

lemma fixed_write_nodes_rows:
  assumes "accepts accept"
    and "fw_record_bytes w = (fw_max_degree w + 1) * 4" "fw_num_points w * fw_record_bytes w \<le> usize_max"
  shows "length rows = fw_num_points w \<Longrightarrow> \<forall>row \<in> set rows. length row \<le> fw_max_degree w \<Longrightarrow>
    \<forall>op \<in> set ops. unat (fst op) < fw_num_points w \<Longrightarrow>
    fixed_write_nodes accept w ops (fixed_file (fw_max_degree w) rows) =
      Inr (fixed_file (fw_max_degree w) (fold (set_row (fw_max_degree w)) ops rows)) \<and>
    length (fold (set_row (fw_max_degree w)) ops rows) = length rows \<and>
    (\<forall>row \<in> set (fold (set_row (fw_max_degree w)) ops rows). length row \<le> fw_max_degree w)"
proof (induction ops arbitrary: rows)
  case (Cons op ops)
  obtain uid ns where op: "op = (uid, ns)" by (cases op)
  let ?rows = "rows[unat uid := take (fw_max_degree w) ns]"
  have deg: "\<forall>row \<in> set ?rows. length row \<le> fw_max_degree w"
    using Cons.prems(2) by (auto dest!: set_update_subset_insert [THEN subsetD])
  have first: "fixed_write_node accept w uid ns (fixed_file (fw_max_degree w) rows) =
      Inr (fixed_file (fw_max_degree w) ?rows)"
    using Cons.prems op by (intro fixed_write_node_row assms) auto
  have "length ?rows = fw_num_points w" "\<forall>op \<in> set ops. unat (fst op) < fw_num_points w"
    using Cons.prems by simp_all
  note IH = Cons.IH [OF this(1) deg this(2)]
  have "fold (set_row (fw_max_degree w)) (op # ops) rows = fold (set_row (fw_max_degree w)) ops ?rows"
    by (simp add: op set_row_def)
  with IH first show ?case by (simp only: op fixed_write_nodes.simps res_bind_simps length_list_update) blast
qed simp

text \<open>The fixed-degree graph file is a table. After \<open>write_node\<close> calls in any order, with
  repetitions, and however the operating system splits the writes, loading the file returns for
  every point the last row written for it, cut to the maximal degree, and the empty row for a
  point that was never written.\<close>

theorem fixed_graph_roundtrip:
  assumes "fixed_writer_create num_points max_degree = Inr (w, f0)" "max_degree < 2 ^ 32"
    and "accepts accept" "\<forall>op \<in> set ops. unat (fst op) < num_points"
  shows "\<exists>f. fixed_write_nodes accept w ops f0 = Inr f \<and>
    load_fixed_degree_mem_graph f num_points max_degree =
      Inr (fold (set_row max_degree) ops (replicate num_points []))"
proof -
  note c = fixed_writer_create_file [OF assms(1)]
  let ?rows = "fold (set_row max_degree) ops (replicate num_points [])"
  have "fixed_write_nodes accept w ops f0 = Inr (fixed_file max_degree ?rows) \<and>
      length ?rows = num_points \<and> (\<forall>row \<in> set ?rows. length row \<le> max_degree)"
    using fixed_write_nodes_rows [OF assms(3), of w "replicate num_points []" ops] c assms(4) by simp
  with load_fixed_rows_file [of ?rows max_degree] c(3,5) assms(2) show ?thesis
    by (auto simp: load_fixed_degree_mem_graph_def)
qed

theorem fixed_graph_roundtrip_witness:
  "\<exists>f. fixed_write_nodes (\<lambda>off b. 3) \<lparr>fw_num_points = 3, fw_max_degree = 2, fw_record_bytes = 12\<rparr>
      [(2, [7, 8, 9]), (0, [1]), (2, [5])] (replicate 36 0) = Inr f \<and>
    load_fixed_degree_mem_graph f 3 2 =
      Inr (fold (set_row 2) [(2, [7, 8, 9]), (0, [1]), (2, [5])] (replicate 3 []))"
  by (rule fixed_graph_roundtrip)
    (auto simp: fixed_writer_create_def record_size_def checked_add_def checked_mul_def usize_max_def
      set_len_def accepts_def)

text \<open>\<open>write_node\<close> of the fixed-degree writer refuses an id outside the table, and a write of
  which the operating system accepts nothing is an error, never a silent success.\<close>

theorem fixed_write_refuses:
  "(fw_num_points w \<le> unat uid \<longrightarrow>
      fixed_write_node accept w uid ns f = Inl (Err (Index ''fixed graph node id is out of range''))) \<and>
   (unat uid < fw_num_points w \<and> fw_record_bytes w = (fw_max_degree w + 1) * 4 \<longrightarrow>
      fixed_write_node (\<lambda>off b. 0) w uid ns f = Inl (Err (Index ''failed to write fixed graph record'')))"
proof (intro conjI impI)
  assume a: "unat uid < fw_num_points w \<and> fw_record_bytes w = (fw_max_degree w + 1) * 4"
  then have "length (fixed_record w ns) = (fw_max_degree w + 1) * 4"
    by (subst fixed_record_bytes) (simp_all add: length_fixed_bytes)
  then have "fixed_record w ns \<noteq> []" by auto
  with a show "fixed_write_node (\<lambda>off b. 0) w uid ns f = Inl (Err (Index ''failed to write fixed graph record''))"
    by (simp add: fixed_write_node_def write_all_at_def write_loop_refused)
qed (simp add: fixed_write_node_def)

theorem fixed_write_refuses_witness:
  "fixed_write_node (\<lambda>off b. 9) \<lparr>fw_num_points = 3, fw_max_degree = 2, fw_record_bytes = 12\<rparr> 3 [1] [] =
     Inl (Err (Index ''fixed graph node id is out of range''))"
  using fixed_write_refuses [of "\<lparr>fw_num_points = 3, fw_max_degree = 2, fw_record_bytes = 12\<rparr>" 3] by simp

section \<open>Neighbour parts\<close>

lemma write_neighbor_points_bytes:
  assumes "\<forall>p \<in> set ps. start \<le> p \<and> p - start < length rs" "distinct ps"
  shows "\<exists>rs'. write_neighbor_points ps start rs out =
    Inr (rs', out @ rows_bytes (map (\<lambda>p. into_neighbors (rs ! (p - start))) ps))"
  using assms
proof (induction ps arbitrary: rs out)
  case (Cons p ps)
  define rs1 where "rs1 = rs[p - start := snd (drain_neighbors (rs ! (p - start)))]"
  have same: "rs1 ! (q - start) = rs ! (q - start)" if "q \<in> set ps" for q
  proof -
    have "start \<le> q" "start \<le> p" "q \<noteq> p" using that Cons.prems by auto
    then have "q - start \<noteq> p - start" by linarith
    then show ?thesis by (simp add: rs1_def)
  qed
  let ?ns = "into_neighbors (rs ! (p - start))"
  have "write_neighbor_points (p # ps) start rs out = write_neighbor_points ps start rs1 (out @ row_bytes ?ns)"
    using Cons.prems by (simp add: rs1_def drain_neighbors_def into_neighbors_def row_bytes_def)
  moreover have "\<exists>rs'. write_neighbor_points ps start rs1 (out @ row_bytes ?ns) =
      Inr (rs', (out @ row_bytes ?ns) @ rows_bytes (map (\<lambda>p. into_neighbors (rs1 ! (p - start))) ps))"
    using Cons.prems by (intro Cons.IH) (auto simp: rs1_def)
  moreover have "map (\<lambda>p. into_neighbors (rs1 ! (p - start))) ps = map (\<lambda>p. into_neighbors (rs ! (p - start))) ps"
    by (rule map_cong [OF refl]) (simp only: same)
  ultimately show ?case by (simp del: map_eq_conv)
qed simp

lemma replay_points_rows:
  "\<forall>p \<in> set ps. length (row p) < 2 ^ 32 \<Longrightarrow>
   replay_points ps cb st (rows_bytes (map row ps) @ rest) = run_rows cb st (map (\<lambda>p. (p, row p)) ps)"
proof (induction ps arbitrary: st)
  case (Cons p ps)
  then show ?case by (cases "cb st (word_of_nat p) (row p)") (simp_all add: unat_degree)
qed simp

text \<open>The part files of the parallel reducer lose nothing: replaying the part written from a
  chunk of reservoirs makes exactly the calls that emitting the chunk directly would make, and
  ends in the same state or with the same error.\<close>

theorem neighbor_part_replay:
  assumes "length rs = b - a" "\<forall>r \<in> set rs. length (slots r) < 2 ^ 32"
  shows "\<exists>rs' file. write_neighbor_chunk a b rs [] = Inr (rs', file) \<and>
    replay_neighbor_part a b file cb st = res_bind (emit_shard cb a b st rs) (\<lambda>(st', rs''). Inr st')"
proof -
  let ?row = "\<lambda>p. into_neighbors (rs ! (p - a))"
  have ps: "\<forall>p \<in> set [a..<b]. a \<le> p \<and> p - a < length rs" using assms(1) by auto
  obtain rs' where w: "write_neighbor_chunk a b rs [] = Inr (rs', rows_bytes (map ?row [a..<b]))"
    using write_neighbor_points_bytes [OF ps, of "[]"] by (auto simp: write_neighbor_chunk_def)
  obtain rs'' where e: "emit_shard cb a b st rs =
      res_bind (run_rows cb st (map (\<lambda>p. (p, ?row p)) [a..<b])) (\<lambda>st'. Inr (st', rs''))"
    using emit_points_rows [OF ps, of cb st] by (auto simp: emit_shard_def)
  have "replay_neighbor_part a b (rows_bytes (map ?row [a..<b])) cb st =
      run_rows cb st (map (\<lambda>p. (p, ?row p)) [a..<b])"
    using replay_points_rows [of "[a..<b]" ?row cb st "[]"] ps assms(2)
    by (simp add: replay_neighbor_part_def into_neighbors_def)
  then have "replay_neighbor_part a b (rows_bytes (map ?row [a..<b])) cb st =
      res_bind (emit_shard cb a b st rs) (\<lambda>(st', rs''). Inr st')"
    unfolding e by (simp add: res_bind_assoc res_bind_Inr)
  with w show ?thesis by blast
qed

theorem neighbor_part_replay_witness:
  "\<exists>rs' file. write_neighbor_chunk 4 5 [insert_all empty2 sample_cands] [] = Inr (rs', file) \<and>
    replay_neighbor_part 4 5 file collect_rows [] =
      res_bind (emit_shard collect_rows 4 5 [] [insert_all empty2 sample_cands]) (\<lambda>(st', rs''). Inr st')"
proof (rule neighbor_part_replay)
  have "length (slots (insert_all empty2 sample_cands)) \<le> l_max (insert_all empty2 sample_cands)"
    by (intro reservoir_invD insert_all_inv) (simp add: reservoir_inv_def empty2_def)
  then show "\<forall>r \<in> set [insert_all empty2 sample_cands]. length (slots r) < 2 ^ 32"
    by (simp add: empty2_def)
qed simp

end
