(* ===== verification/SpillDiskReduce.thy ===== *)
theory SpillDiskReduce
  imports SpillDisk GraphFile
begin

text \<open>
  The reducers of the spill files of \<^verbatim>\<open>ForgeANN/src/forgeann/spill_hashprune.rs\<close>:
  \<open>SegmentReader\<close> reads the records of one segment, \<open>group_segments_by_shard\<close> orders the manifest,
  \<open>reduce_segments_sharded_in_order_from_with_limit\<close> replays the groups one after the other,
  \<open>reduce_segments_sharded_in_order_from_parallel\<close> reduces them to temporary part files first and
  replays those. The wrappers of \<open>ExternalHashPruneReducer\<close> are here too.

  The temporary part files of the parallel reducer are written, read and removed within one call;
  the model keeps their bytes with the part. Groups that run in parallel share nothing but the
  read-only artifacts, so they are reduced one after the other here; the source collects their
  results in order and returns the first error.
\<close>

section \<open>\<open>SegmentReader\<close>\<close>

datatype segment_reader = RBuffered "u8 list" nat | RDirect nat nat

definition reader_open :: "files \<Rightarrow> path \<Rightarrow> segment_desc \<Rightarrow> direct_io_config \<Rightarrow> segment_reader result" where
  "reader_open fs p d cfg =
     (case fs p of
        None \<Rightarrow> Inl (Err (Io ''No such file or directory''))
      | Some f \<Rightarrow>
          Inr (if dc_enabled cfg then RDirect (sd_byte_offset d) (sd_byte_offset d + sd_byte_len d)
               else RBuffered (drop (sd_byte_offset d) f) (sd_byte_len d)))"

definition read_edge :: "os \<Rightarrow> direct_io_config \<Rightarrow> u8 list \<Rightarrow> segment_reader \<Rightarrow>
    (pending_edge option \<times> segment_reader) result" where
  "read_edge sys cfg f rd = (case rd of
     RBuffered rest remaining \<Rightarrow>
       if remaining = 0 then Inr (None, rd)
       else if remaining < RUN_RECORD_BYTES
       then Inl (Err (Index ''Candidate segment has trailing partial record''))
       else if length rest < RUN_RECORD_BYTES then Inr (None, RBuffered [] remaining)
       else Inr (Some (to_pending_edge (record_of_bytes (take RUN_RECORD_BYTES rest))),
                 RBuffered (drop RUN_RECORD_BYTES rest) (remaining - RUN_RECORD_BYTES))
   | RDirect offset len \<Rightarrow>
       if len \<le> offset then Inr (None, rd)
       else if len < sat_add offset RUN_RECORD_BYTES
       then Inl (Err (Index ''Candidate run has trailing partial record''))
       else res_bind (direct_read_exact_at (os_give sys) cfg f RUN_RECORD_BYTES offset) (\<lambda>bytes.
              Inr (Some (to_pending_edge (record_of_bytes bytes)), RDirect (offset + RUN_RECORD_BYTES) len)))"

fun reader_left :: "segment_reader \<Rightarrow> nat" where
  "reader_left (RBuffered rest remaining) = remaining"
| "reader_left (RDirect offset len) = len - offset"

lemma read_edge_shrinks: "read_edge sys cfg f rd = Inr (Some e, rd') \<Longrightarrow> reader_left rd' < reader_left rd"
  by (auto simp: read_edge_def RUN_RECORD_BYTES_def res_bind_Inr_iff split: segment_reader.splits if_splits)

text \<open>
  The loop \<open>while let Some(edge) = reader.read_edge()?\<close>. The body either goes on (also the
  source's \<open>continue\<close>) or breaks out.
\<close>

datatype 'c flow = Next 'c | Break 'c

function (sequential) edge_loop :: "(pending_edge \<Rightarrow> 'c \<Rightarrow> 'c flow result) \<Rightarrow> os \<Rightarrow> direct_io_config \<Rightarrow> u8 list \<Rightarrow>
    segment_reader \<Rightarrow> 'c \<Rightarrow> 'c result" where
  "edge_loop body sys cfg f rd c =
     (case read_edge sys cfg f rd of
        Inl e \<Rightarrow> Inl e
      | Inr (None, rd') \<Rightarrow> Inr c
      | Inr (Some edge, rd') \<Rightarrow>
          (case body edge c of
             Inl e \<Rightarrow> Inl e
           | Inr (Break c') \<Rightarrow> Inr c'
           | Inr (Next c') \<Rightarrow> edge_loop body sys cfg f rd' c'))"
  by pat_completeness auto
termination
  by (relation "measure (\<lambda>(body, sys, cfg, f, rd, c). reader_left rd)") (auto dest: read_edge_shrinks)

declare edge_loop.simps [simp del]

section \<open>One group\<close>

record segment_group =
  gr_point_start :: nat
  gr_point_end :: nat
  gr_segments :: "segment_desc list"

definition outside_shard :: fault where
  "outside_shard = Err (Index ''Spill reducer encountered edge outside shard range'')"

definition out_of_order :: fault where
  "out_of_order = Err (Index ''Spill reducer encountered out-of-order candidate edge'')"

definition insert_into_chunk :: "pending_edge \<Rightarrow> 'st chunk \<Rightarrow> 'st chunk flow result" where
  "insert_into_chunk edge ck =
     (let i = e_p edge - ck_start ck in
      if i < length (ck_rs ck)
      then Inr (Next (ck\<lparr>ck_rs := (ck_rs ck)[i := reservoir_insert (ck_rs ck ! i) (e_c edge) (e_hash edge) (e_dist edge)]\<rparr>))
      else Inl (Panic ''reservoir index out of range''))"

definition in_order_edge :: "'st callback \<Rightarrow> usize \<Rightarrow> nat \<Rightarrow> nat \<Rightarrow> nat \<Rightarrow> pending_edge \<Rightarrow> 'st chunk \<Rightarrow>
    'st chunk flow result" where
  "in_order_edge cb n ppc point_start point_end edge ck =
     res_bind (advance_chunks (emit_shard cb) outside_shard n ppc point_end (e_p edge) ck) (\<lambda>ck'.
       if e_p edge < ck_start ck'
       then (if e_p edge < point_start then Inr (Next ck') else Inl out_of_order)
       else insert_into_chunk edge ck')"

fun reduce_file_segments :: "(pending_edge \<Rightarrow> 'c \<Rightarrow> 'c flow result) \<Rightarrow> os \<Rightarrow> files \<Rightarrow> spill_artifacts \<Rightarrow>
    segment_desc list \<Rightarrow> 'c \<Rightarrow> 'c result" where
  "reduce_file_segments body sys fs ar [] c = Inr c"
| "reduce_file_segments body sys fs ar (d # ds) c =
     (case file_lookup ar (unat (sd_shard_id d), sd_file_id d) of
        None \<Rightarrow> Inl (Err (Index ''Missing spill part''))
      | Some p \<Rightarrow>
          res_bind (reader_open fs p d dc_default) (\<lambda>rd.
          res_bind (edge_loop body sys dc_default (file_at fs p) rd c)
            (reduce_file_segments body sys fs ar ds)))"

definition reduce_segment_group_in_range :: "os \<Rightarrow> files \<Rightarrow> spill_artifacts \<Rightarrow> 'st callback \<Rightarrow> nat \<Rightarrow> nat \<Rightarrow> usize \<Rightarrow>
    nat \<Rightarrow> segment_group \<Rightarrow> 'st \<Rightarrow> 'st result" where
  "reduce_segment_group_in_range sys fs ar cb point_start point_end n points_per_chunk g st =
     (if point_end \<le> point_start then Inr st
      else
        (let ppc = max points_per_chunk 1; chunk_end = min (point_start + ppc) point_end
         in res_bind (allocate_reservoir_slab (chunk_end - point_start) n) (\<lambda>rs.
            res_bind (reduce_file_segments (in_order_edge cb n ppc point_start point_end) sys fs ar (gr_segments g)
                        \<lparr>ck_start = point_start, ck_end = chunk_end, ck_rs = rs, ck_st = st\<rparr>)
              (drain_chunks (emit_shard cb) n ppc point_end))))"

subsection \<open>Reducing a group to a neighbour part\<close>

record neighbor_part =
  np_point_start :: nat
  np_point_end :: nat
  np_bytes :: "u8 list"

definition emit_to_part :: "nat \<Rightarrow> nat \<Rightarrow> u8 list \<Rightarrow> reservoir list \<Rightarrow> (u8 list \<times> reservoir list) result" where
  "emit_to_part a b out rs = res_bind (write_neighbor_chunk a b rs out) (\<lambda>(rs', out'). Inr (out', rs'))"

definition part_edge :: "usize \<Rightarrow> nat \<Rightarrow> nat \<Rightarrow> nat \<Rightarrow> pending_edge \<Rightarrow> u8 list chunk \<Rightarrow> u8 list chunk flow result" where
  "part_edge n ppc point_start point_end edge ck =
     (if e_p edge < point_start then Inr (Next ck)
      else if point_end \<le> e_p edge then Inr (Break ck)
      else res_bind (advance_chunks emit_to_part outside_shard n ppc point_end (e_p edge) ck) (\<lambda>ck'.
             if e_p edge < ck_start ck' then Inl out_of_order else insert_into_chunk edge ck'))"

definition reduce_segment_group_to_neighbor_part :: "os \<Rightarrow> files \<Rightarrow> spill_artifacts \<Rightarrow> nat \<Rightarrow> nat \<Rightarrow> usize \<Rightarrow>
    nat \<Rightarrow> segment_group \<Rightarrow> neighbor_part result" where
  "reduce_segment_group_to_neighbor_part sys fs ar point_start point_end n points_per_chunk g =
     (if point_end \<le> point_start then Inl (Err (Index ''Cannot reduce empty spill group range''))
      else
        (let ppc = max points_per_chunk 1; chunk_end = min (point_start + ppc) point_end
         in res_bind (allocate_reservoir_slab (chunk_end - point_start) n) (\<lambda>rs.
            res_bind (reduce_file_segments (part_edge n ppc point_start point_end) sys fs ar (gr_segments g)
                        \<lparr>ck_start = point_start, ck_end = chunk_end, ck_rs = rs, ck_st = []\<rparr>) (\<lambda>ck.
            res_bind (drain_chunks emit_to_part n ppc point_end ck) (\<lambda>bytes.
              Inr \<lparr>np_point_start = point_start, np_point_end = point_end, np_bytes = bytes\<rparr>)))))"

section \<open>All groups\<close>

text \<open>\<open>BTreeMap\<close> iterates over the shards in ascending order.\<close>

type_synonym desc_sort = "(segment_desc \<Rightarrow> u32 \<times> u16 \<times> nat) \<Rightarrow> segment_desc list \<Rightarrow> segment_desc list"

fun build_groups :: "desc_sort \<Rightarrow> nat \<Rightarrow> usize \<Rightarrow> segment_desc list \<Rightarrow> usize list \<Rightarrow> segment_group list result" where
  "build_groups srt num_points pps ds [] = Inr []"
| "build_groups srt num_points pps ds (shard # shards) =
     (let segments = filter (\<lambda>d. unat (sd_shard_id d) = shard) ds;
          point_start = sat_mul shard pps
      in if num_points \<le> point_start
         then Inl (Err (Index ''Spill reducer encountered shard_id outside num_points''))
         else
           let point_end = min (point_start + pps) num_points in
           if \<exists>d \<in> set segments. unat (sd_src_min d) < point_start \<or> point_end \<le> unat (sd_src_max d)
           then Inl (Err (Index ''Spill reducer encountered segment metadata outside shard range''))
           else res_bind (build_groups srt num_points pps ds shards) (\<lambda>groups.
                  Inr (\<lparr>gr_point_start = point_start, gr_point_end = point_end,
                        gr_segments = srt (\<lambda>d. (sd_src_min d, sd_file_id d, sd_byte_offset d)) segments\<rparr> # groups)))"

definition group_segments_by_shard :: "desc_sort \<Rightarrow> nat \<Rightarrow> usize \<Rightarrow> spill_artifacts \<Rightarrow> segment_group list result" where
  "group_segments_by_shard srt num_points points_per_shard ar =
     (if ar_segment_manifest ar = [] then Inr []
      else build_groups srt num_points (max points_per_shard 1) (ar_segment_manifest ar)
             (remdups_adj (sort (map (\<lambda>d. unat (sd_shard_id d)) (ar_segment_manifest ar)))))"

definition group_stats :: "spill_artifacts \<Rightarrow> segment_group list \<Rightarrow> reduce_stats" where
  "group_stats ar groups =
     \<lparr>rd_shard_groups = length groups, rd_segments_scanned = length (ar_segment_manifest ar),
      rd_part_files_opened = length (ar_part_files ar),
      rd_max_segments_in_group = foldr max (map (\<lambda>g. length (gr_segments g)) groups) 0\<rparr>"

definition group_chunk :: "usize \<Rightarrow> nat \<Rightarrow> nat \<Rightarrow> nat" where
  "group_chunk points_per_shard group_start group_end =
     min (max points_per_shard 1) (max (group_end - group_start) 1)"

fun reduce_groups :: "os \<Rightarrow> files \<Rightarrow> spill_artifacts \<Rightarrow> 'st callback \<Rightarrow> nat \<Rightarrow> nat \<Rightarrow> usize \<Rightarrow> usize \<Rightarrow>
    nat \<Rightarrow> 'st \<Rightarrow> segment_group list \<Rightarrow> 'st result" where
  "reduce_groups sys fs ar cb num_points point_start n pps next_point st [] =
     (if next_point < num_points then emit_empty_point_range cb st next_point num_points else Inr st)"
| "reduce_groups sys fs ar cb num_points point_start n pps next_point st (g # gs) =
     (if gr_point_end g \<le> point_start then reduce_groups sys fs ar cb num_points point_start n pps next_point st gs
      else
        let group_start = max (gr_point_start g) point_start in
        res_bind (if next_point < group_start then emit_empty_point_range cb st next_point group_start else Inr st) (\<lambda>st1.
        res_bind (reduce_segment_group_in_range sys fs ar cb group_start (gr_point_end g) n
                    (group_chunk pps group_start (gr_point_end g)) g st1) (\<lambda>st2.
          reduce_groups sys fs ar cb num_points point_start n pps (gr_point_end g) st2 gs)))"

definition reduce_segments_sharded_in_order_from :: "desc_sort \<Rightarrow> os \<Rightarrow> files \<Rightarrow> nat \<Rightarrow> nat \<Rightarrow> usize \<Rightarrow> usize \<Rightarrow>
    spill_artifacts \<Rightarrow> 'st callback \<Rightarrow> 'st \<Rightarrow> ('st \<times> reduce_stats) result" where
  "reduce_segments_sharded_in_order_from srt sys fs num_points point_start n pps ar cb st =
     (if num_points = 0 \<or> num_points \<le> point_start then Inr (st, reduce_stats_default)
      else res_bind (group_segments_by_shard srt num_points pps ar) (\<lambda>groups.
           res_bind (reduce_groups sys fs ar cb num_points point_start n pps point_start st groups) (\<lambda>st'.
             Inr (st', group_stats ar groups))))"

fun reduce_active_groups :: "os \<Rightarrow> files \<Rightarrow> spill_artifacts \<Rightarrow> nat \<Rightarrow> usize \<Rightarrow> usize \<Rightarrow> segment_group list \<Rightarrow>
    neighbor_part list result" where
  "reduce_active_groups sys fs ar point_start n pps [] = Inr []"
| "reduce_active_groups sys fs ar point_start n pps (g # gs) =
     (let group_start = max (gr_point_start g) point_start in
      res_bind (reduce_segment_group_to_neighbor_part sys fs ar group_start (gr_point_end g) n
                  (group_chunk pps group_start (gr_point_end g)) g) (\<lambda>part.
      res_bind (reduce_active_groups sys fs ar point_start n pps gs) (\<lambda>parts. Inr (part # parts))))"

fun replay_parts :: "'st callback \<Rightarrow> nat \<Rightarrow> nat \<Rightarrow> 'st \<Rightarrow> neighbor_part list \<Rightarrow> 'st result" where
  "replay_parts cb num_points next_point st [] =
     (if next_point < num_points then emit_empty_point_range cb st next_point num_points else Inr st)"
| "replay_parts cb num_points next_point st (part # parts) =
     res_bind (if next_point < np_point_start part then emit_empty_point_range cb st next_point (np_point_start part)
               else Inr st) (\<lambda>st1.
     res_bind (replay_neighbor_part (np_point_start part) (np_point_end part) (np_bytes part) cb st1) (\<lambda>st2.
       replay_parts cb num_points (np_point_end part) st2 parts))"

type_synonym part_sort = "(neighbor_part \<Rightarrow> nat) \<Rightarrow> neighbor_part list \<Rightarrow> neighbor_part list"

definition reduce_segments_parallel :: "desc_sort \<Rightarrow> part_sort \<Rightarrow> os \<Rightarrow> files \<Rightarrow> nat \<Rightarrow> nat \<Rightarrow> usize \<Rightarrow> usize \<Rightarrow>
    spill_artifacts \<Rightarrow> nat \<Rightarrow> 'st callback \<Rightarrow> 'st \<Rightarrow> ('st \<times> reduce_stats) result" where
  "reduce_segments_parallel srt psrt sys fs num_points point_start n pps ar max_parallel_groups cb st =
     (if num_points = 0 \<or> num_points \<le> point_start then Inr (st, reduce_stats_default)
      else res_bind (group_segments_by_shard srt num_points pps ar) (\<lambda>groups.
        let active = filter (\<lambda>g. point_start < gr_point_end g) groups in
        if length active \<le> 1 \<or> max_parallel_groups \<le> 1
        then reduce_segments_sharded_in_order_from srt sys fs num_points point_start n pps ar cb st
        else res_bind (reduce_active_groups sys fs ar point_start n pps active) (\<lambda>parts.
             res_bind (replay_parts cb num_points point_start st (psrt np_point_start parts)) (\<lambda>st'.
               Inr (st', group_stats ar groups)))))"

section \<open>\<open>ExternalHashPruneReducer\<close>\<close>

definition reduce_sharded_in_order :: "desc_sort \<Rightarrow> os \<Rightarrow> files \<Rightarrow> nat \<Rightarrow> usize \<Rightarrow> usize \<Rightarrow> spill_artifacts \<Rightarrow>
    'st callback \<Rightarrow> 'st \<Rightarrow> 'st result" where
  "reduce_sharded_in_order srt sys fs num_points n pps ar cb st =
     res_bind (reduce_segments_sharded_in_order_from srt sys fs num_points 0 n pps ar cb st) (\<lambda>(st', stats). Inr st')"

definition reduce_sharded_in_order_from :: "desc_sort \<Rightarrow> os \<Rightarrow> files \<Rightarrow> nat \<Rightarrow> nat \<Rightarrow> usize \<Rightarrow> usize \<Rightarrow> spill_artifacts \<Rightarrow>
    'st callback \<Rightarrow> 'st \<Rightarrow> 'st result" where
  "reduce_sharded_in_order_from srt sys fs point_start num_points n pps ar cb st =
     res_bind (reduce_segments_sharded_in_order_from srt sys fs num_points point_start n pps ar cb st) (\<lambda>(st', stats). Inr st')"

definition reduce_sharded_profiled :: "desc_sort \<Rightarrow> os \<Rightarrow> files \<Rightarrow> nat \<Rightarrow> usize \<Rightarrow> usize \<Rightarrow> spill_artifacts \<Rightarrow>
    'st callback \<Rightarrow> 'st \<Rightarrow> ('st \<times> reduce_stats) result" where
  "reduce_sharded_profiled srt sys fs num_points n pps ar cb st =
     reduce_segments_sharded_in_order_from srt sys fs num_points 0 n pps ar cb st"

definition reduce_sharded_profiled_from :: "desc_sort \<Rightarrow> os \<Rightarrow> files \<Rightarrow> nat \<Rightarrow> nat \<Rightarrow> usize \<Rightarrow> usize \<Rightarrow> spill_artifacts \<Rightarrow>
    'st callback \<Rightarrow> 'st \<Rightarrow> ('st \<times> reduce_stats) result" where
  "reduce_sharded_profiled_from srt sys fs point_start num_points n pps ar cb st =
     reduce_segments_sharded_in_order_from srt sys fs num_points point_start n pps ar cb st"

definition reduce_sharded_profiled_from_parallel :: "desc_sort \<Rightarrow> part_sort \<Rightarrow> os \<Rightarrow> files \<Rightarrow> nat \<Rightarrow> nat \<Rightarrow> usize \<Rightarrow> usize \<Rightarrow>
    spill_artifacts \<Rightarrow> nat \<Rightarrow> 'st callback \<Rightarrow> 'st \<Rightarrow> ('st \<times> reduce_stats) result" where
  "reduce_sharded_profiled_from_parallel srt psrt sys fs point_start num_points n pps ar max_parallel_groups cb st =
     reduce_segments_parallel srt psrt sys fs num_points point_start n pps ar max_parallel_groups cb st"

definition reduce_spill_artifacts_ordered :: "desc_sort \<Rightarrow> os \<Rightarrow> files \<Rightarrow> nat \<Rightarrow> usize \<Rightarrow> spill_artifacts \<Rightarrow>
    u32 list list result" where
  "reduce_spill_artifacts_ordered srt sys fs num_points n ar =
     reduce_sharded_in_order srt sys fs num_points n (max num_points 1) ar
       (\<lambda>rows p ns. if unat p < length rows then Inr (rows[unat p := ns]) else Inl (Panic ''index out of bounds''))
       (replicate num_points [])"

definition reduce_spill_artifacts :: "desc_sort \<Rightarrow> os \<Rightarrow> files \<Rightarrow> nat \<Rightarrow> usize \<Rightarrow> spill_artifacts \<Rightarrow>
    (u32 \<Rightarrow> u32 list option) result" where
  "reduce_spill_artifacts srt sys fs num_points n ar =
     reduce_sharded_in_order srt sys fs num_points n (max num_points 1) ar (\<lambda>m p ns. Inr (m(p \<mapsto> ns))) Map.empty"

record run_stats =
  rn_part_files :: usize
  rn_segment_count :: usize
  rn_shard_groups :: usize
  rn_max_parts_per_shard :: usize
  rn_max_segments_per_shard :: usize
  rn_record_bytes :: usize
  rn_manifest_bytes :: nat

definition per_shard_max :: "usize list \<Rightarrow> usize" where
  "per_shard_max ks = foldr max (map (\<lambda>k. length (filter (\<lambda>j. j = k) ks)) ks) 0"

definition summarize_spill_artifacts :: "files \<Rightarrow> spill_artifacts \<Rightarrow> run_stats" where
  "summarize_spill_artifacts fs ar =
     (let parts = map pd_shard_id (ar_part_files ar);
          segs = map (\<lambda>d. unat (sd_shard_id d)) (ar_segment_manifest ar)
      in \<lparr>rn_part_files = length parts, rn_segment_count = length segs,
          rn_shard_groups = length (remdups (parts @ segs)), rn_max_parts_per_shard = per_shard_max parts,
          rn_max_segments_per_shard = per_shard_max segs, rn_record_bytes = RUN_RECORD_BYTES,
          rn_manifest_bytes = length (file_at fs (ar_manifest_path ar))\<rparr>)"

definition summarize_in_memory_spill_artifacts :: "segment list \<Rightarrow> run_stats" where
  "summarize_in_memory_spill_artifacts gs =
     (let segs = map sg_shard_id gs
      in \<lparr>rn_part_files = 0, rn_segment_count = length segs, rn_shard_groups = length (remdups segs),
          rn_max_parts_per_shard = 0, rn_max_segments_per_shard = per_shard_max segs,
          rn_record_bytes = RUN_RECORD_BYTES,
          rn_manifest_bytes = sat_mul (\<Sum>g\<leftarrow>gs. length (sg_records g)) RUN_RECORD_BYTES\<rparr>)"

text \<open>\<open>file_point_counts\<close>: the number of records of each file; a file that ends inside a record is an error.\<close>

function (sequential) count_records :: "u8 list \<Rightarrow> nat \<Rightarrow> nat result" where
  "count_records bs n =
     (if length bs < 4 then Inr n
      else res_bind (read_exact (RUN_RECORD_BYTES - 4) (drop 4 bs)) (\<lambda>(skip, rest). count_records rest (n + 1)))"
  by pat_completeness auto
termination
  by (relation "measure (\<lambda>(bs, n). length bs)") (auto simp: read_exact_def split: if_splits)

declare count_records.simps [simp del]

fun file_point_counts :: "files \<Rightarrow> path list \<Rightarrow> (path \<Rightarrow> nat option) \<Rightarrow> (path \<Rightarrow> nat option) result" where
  "file_point_counts fs [] counts = Inr counts"
| "file_point_counts fs (p # ps) counts =
     (case fs p of
        None \<Rightarrow> Inl (Err (Io ''No such file or directory''))
      | Some f \<Rightarrow> res_bind (count_records f 0) (\<lambda>n. file_point_counts fs ps (counts(p \<mapsto> n))))"

section \<open>Reading a segment\<close>

text \<open>
  A loop body that never breaks runs over the decoded records: all \<open>m\<close> of the segment, or the \<open>k\<close>
  complete ones before the end of the file.
\<close>

lemma edge_loop_records:
  assumes "16 * k \<le> length bs" "k \<le> m" "k = m \<or> length bs < 16 * k + 16"
    and "\<And>r c. r \<in> set (decode_records k bs) \<Longrightarrow> good c \<Longrightarrow> body (to_pending_edge r) c = Inr (Next (step r c)) \<and> good (step r c)"
    and "good c"
  shows "edge_loop body sys dc_default f (RBuffered bs (16 * m)) c = Inr (fold step (decode_records k bs) c)"
  using assms
proof (induction k arbitrary: bs c m)
  case 0
  then show ?case by (auto simp: edge_loop.simps read_edge_def RUN_RECORD_BYTES_def)
next
  case (Suc k)
  let ?r = "record_of_bytes (take 16 bs)"
  have b: "body (to_pending_edge ?r) c = Inr (Next (step ?r c))" "good (step ?r c)"
    using Suc.prems(4) [of ?r c] Suc.prems(5) by simp_all
  obtain l where l: "m = Suc l" using Suc.prems(2) by (cases m) auto
  have "edge_loop body sys dc_default f (RBuffered (drop 16 bs) (16 * l)) (step ?r c) =
      Inr (fold step (decode_records k (drop 16 bs)) (step ?r c))"
    using Suc.prems(1-3) l by (intro Suc.IH b(2) Suc.prems(4)) auto
  moreover have "read_edge sys dc_default f (RBuffered bs (16 * m)) =
      Inr (Some (to_pending_edge ?r), RBuffered (drop 16 bs) (16 * l))"
    using Suc.prems(1) by (simp add: l read_edge_def RUN_RECORD_BYTES_def)
  ultimately show ?case by (subst edge_loop.simps) (simp only: sum.case prod.case option.case flow.case b(1), simp)
qed

lemma reduce_file_segments_records:
  assumes "\<forall>d \<in> set ds. located sp (artifact_content ar fs) d"
    and "\<And>r c. r \<in> set (records_of (map (segment_in (artifact_content ar fs)) ds)) \<Longrightarrow> good c \<Longrightarrow>
      body (to_pending_edge r) c = Inr (Next (step r c)) \<and> good (step r c)"
    and "good c"
  shows "reduce_file_segments body sys fs ar ds c =
    Inr (fold step (records_of (map (segment_in (artifact_content ar fs)) ds)) c)"
  using assms
proof (induction ds arbitrary: c)
  case (Cons d ds)
  obtain cont where d: "artifact_content ar fs (desc_part d) = Some cont" "16 dvd sd_byte_len d"
      "sd_byte_offset d + sd_byte_len d \<le> length cont" using Cons.prems(1) by (auto simp: located_def)
  then obtain p where p: "file_lookup ar (unat (sd_shard_id d), sd_file_id d) = Some p" "fs p = Some cont"
    by (auto simp: artifact_content_def desc_part_def split: option.splits)
  let ?recs = "decode_records (sd_byte_len d div 16) (drop (sd_byte_offset d) cont)"
  have recs: "sg_records (segment_in (artifact_content ar fs) d) = ?recs"
    using d(1) by (simp add: segment_in_def segment_at_def)
  have op: "reader_open fs p d dc_default = Inr (RBuffered (drop (sd_byte_offset d) cont) (16 * (sd_byte_len d div 16)))"
    using p(2) d(2) by (simp add: reader_open_def dc_default_def)
  have "edge_loop body sys dc_default (file_at fs p) (RBuffered (drop (sd_byte_offset d) cont) (16 * (sd_byte_len d div 16))) c =
      Inr (fold step ?recs c)"
    using d(2,3) Cons.prems(2,3) recs by (intro edge_loop_records [where good = good]) auto
  moreover have "good (fold step ?recs c)"
  proof -
    have "good (fold step rs c)" if "set rs \<subseteq> set ?recs" "good c" for rs c
      using that by (induction rs arbitrary: c) (use Cons.prems(2) recs in auto)
    then show ?thesis using Cons.prems(3) by simp
  qed
  ultimately show ?case using Cons.IH [of "fold step ?recs c"] Cons.prems(1,2) p(1) op recs by simp
qed simp

section \<open>One group: the chunk covers the whole range\<close>

definition feed_chunk :: "spill_record \<Rightarrow> 'st chunk \<Rightarrow> 'st chunk" where
  "feed_chunk r ck =
     (let i = unat (sr_src r) - ck_start ck in
      if unat (sr_src r) < ck_start ck then ck
      else ck\<lparr>ck_rs := (ck_rs ck)[i := reservoir_insert (ck_rs ck ! i) (sr_dst r) (sr_hash r) (sr_dist r)]\<rparr>)"

definition whole_chunk :: "nat \<Rightarrow> nat \<Rightarrow> 'st chunk \<Rightarrow> bool" where
  "whole_chunk a b ck \<longleftrightarrow> ck_start ck = a \<and> ck_end ck = b \<and> length (ck_rs ck) = b - a"

lemma fold_feed_chunk:
  "whole_chunk a b ck \<Longrightarrow> \<forall>r \<in> set recs. unat (sr_src r) < b \<Longrightarrow>
   fold feed_chunk recs ck = ck\<lparr>ck_rs := feed a (ck_rs ck) recs\<rparr>"
proof (induction recs arbitrary: ck)
  case (Cons r recs)
  let ?p = "unat (sr_src r)"
  show ?case
  proof (cases "?p < a")
    case True
    then show ?thesis using Cons by (simp add: feed_chunk_def whole_chunk_def Let_def feed_Cons_outside)
  next
    case False
    let ?ck = "feed_chunk r ck"
    have ck: "?ck = ck\<lparr>ck_rs := (ck_rs ck)[?p - a := reservoir_insert (ck_rs ck ! (?p - a)) (sr_dst r) (sr_hash r) (sr_dist r)]\<rparr>"
      using False Cons.prems(1) by (simp add: feed_chunk_def whole_chunk_def Let_def)
    have "whole_chunk a b ?ck" using Cons.prems(1) by (simp add: ck whole_chunk_def)
    then have "fold feed_chunk recs ?ck = ?ck\<lparr>ck_rs := feed a (ck_rs ?ck) recs\<rparr>"
      using Cons.prems(2) by (intro Cons.IH) auto
    moreover have "?p - a < length (ck_rs ck)" using False Cons.prems by (auto simp: whole_chunk_def)
    ultimately show ?thesis using feed_Cons_inside [of a r "ck_rs ck" recs] False by (simp add: ck)
  qed
qed (simp add: whole_chunk_def)

lemma in_order_edge_whole:
  "whole_chunk a b ck \<Longrightarrow> unat (sr_src r) < b \<Longrightarrow>
   in_order_edge cb n ppc a b (to_pending_edge r) ck = Inr (Next (feed_chunk r ck)) \<and> whole_chunk a b (feed_chunk r ck)"
  by (auto simp: in_order_edge_def insert_into_chunk_def feed_chunk_def whole_chunk_def Let_def)

lemma part_edge_whole:
  "whole_chunk a b ck \<Longrightarrow> unat (sr_src r) < b \<Longrightarrow>
   part_edge n ppc a b (to_pending_edge r) ck = Inr (Next (feed_chunk r ck)) \<and> whole_chunk a b (feed_chunk r ck)"
  by (auto simp: part_edge_def insert_into_chunk_def feed_chunk_def whole_chunk_def Let_def)

lemma group_rows:
  assumes "\<forall>d \<in> set (gr_segments g). located sp (artifact_content ar fs) d" "reservoir_new n = Inr r0" "a < b" "b - a \<le> ppc"
  defines "recs \<equiv> records_of (map (segment_in (artifact_content ar fs)) (gr_segments g))"
  assumes "\<forall>r \<in> set recs. unat (sr_src r) < b"
  shows "reduce_segment_group_in_range sys fs ar cb a b n ppc g st = run_rows cb st (map (point_row r0 recs) [a..<b])"
proof -
  let ?ck = "\<lparr>ck_start = a, ck_end = b, ck_rs = replicate (b - a) r0, ck_st = st\<rparr>"
  let ?ck' = "?ck\<lparr>ck_rs := feed a (replicate (b - a) r0) recs\<rparr>"
  have w: "whole_chunk a b ?ck" by (simp add: whole_chunk_def)
  have "reduce_file_segments (in_order_edge cb n ppc a b) sys fs ar (gr_segments g) ?ck = Inr (fold feed_chunk recs ?ck)"
    unfolding recs_def
    by (rule reduce_file_segments_records [where good = "whole_chunk a b" and step = feed_chunk, OF assms(1) in_order_edge_whole w])
       (use assms(6) [unfolded recs_def] in auto)
  then have "reduce_file_segments (in_order_edge cb n ppc a b) sys fs ar (gr_segments g) ?ck = Inr ?ck'"
    using fold_feed_chunk [OF w assms(6)] by simp
  moreover have "max ppc 1 = ppc" "min (a + ppc) b = b" using assms(3,4) by auto
  ultimately have "reduce_segment_group_in_range sys fs ar cb a b n ppc g st = drain_chunks (emit_shard cb) n ppc (ck_end ?ck') ?ck'"
    using assms(2,3) by (simp add: reduce_segment_group_in_range_def Let_def allocate_reservoir_slab_ok)
  also have "\<dots> = run_rows cb (ck_st ?ck')
      (map (\<lambda>p. (p, into_neighbors (ck_rs ?ck' ! (p - ck_start ?ck')))) [ck_start ?ck'..<ck_end ?ck'])"
    using assms(3) by (intro drain_chunks_whole) auto
  also have "map (\<lambda>p. (p, into_neighbors (ck_rs ?ck' ! (p - ck_start ?ck')))) [ck_start ?ck'..<ck_end ?ck'] =
      map (point_row r0 recs) [a..<b]"
    by (auto simp: point_row_def feed_def)
  finally show ?thesis by simp
qed

lemma group_part:
  assumes "\<forall>d \<in> set (gr_segments g). located sp (artifact_content ar fs) d" "reservoir_new n = Inr r0" "a < b" "b - a \<le> ppc"
  defines "recs \<equiv> records_of (map (segment_in (artifact_content ar fs)) (gr_segments g))"
  assumes "\<forall>r \<in> set recs. unat (sr_src r) < b"
  shows "reduce_segment_group_to_neighbor_part sys fs ar a b n ppc g =
    Inr \<lparr>np_point_start = a, np_point_end = b, np_bytes = rows_bytes (map (\<lambda>p. snd (point_row r0 recs p)) [a..<b])\<rparr>"
proof -
  let ?ck = "\<lparr>ck_start = a, ck_end = b, ck_rs = replicate (b - a) r0, ck_st = [] :: u8 list\<rparr>"
  let ?rs = "feed a (replicate (b - a) r0) recs"
  let ?ck' = "?ck\<lparr>ck_rs := ?rs\<rparr>"
  have w: "whole_chunk a b ?ck" by (simp add: whole_chunk_def)
  have "reduce_file_segments (part_edge n ppc a b) sys fs ar (gr_segments g) ?ck = Inr (fold feed_chunk recs ?ck)"
    unfolding recs_def
    by (rule reduce_file_segments_records [where good = "whole_chunk a b" and step = feed_chunk, OF assms(1) part_edge_whole w])
       (use assms(6) [unfolded recs_def] in auto)
  then have seg: "reduce_file_segments (part_edge n ppc a b) sys fs ar (gr_segments g) ?ck = Inr ?ck'"
    using fold_feed_chunk [OF w assms(6)] by simp
  have ps: "\<forall>p \<in> set [a..<b]. a \<le> p \<and> p - a < length ?rs" by auto
  obtain rs' where "write_neighbor_chunk a b ?rs [] = Inr (rs', rows_bytes (map (\<lambda>p. into_neighbors (?rs ! (p - a))) [a..<b]))"
    using write_neighbor_points_bytes [OF ps, of "[]"] by (auto simp: write_neighbor_chunk_def)
  moreover have "map (\<lambda>p. into_neighbors (?rs ! (p - a))) [a..<b] = map (\<lambda>p. snd (point_row r0 recs p)) [a..<b]"
    by (auto simp: point_row_def feed_def)
  ultimately have "drain_chunks emit_to_part n ppc b ?ck' = Inr (rows_bytes (map (\<lambda>p. snd (point_row r0 recs p)) [a..<b]))"
    using assms(3) by (simp add: drain_chunks.simps [of emit_to_part n ppc b] emit_to_part_def del: map_eq_conv)
  moreover have "max ppc 1 = ppc" "min (a + ppc) b = b" using assms(3,4) by auto
  ultimately show ?thesis using assms(2,3) seg
    by (simp add: reduce_segment_group_to_neighbor_part_def Let_def allocate_reservoir_slab_ok del: map_eq_conv)
qed

section \<open>The groups one after the other\<close>

definition group_recs :: "spill_artifacts \<Rightarrow> files \<Rightarrow> segment_group \<Rightarrow> spill_record list" where
  "group_recs ar fs g = records_of (map (segment_in (artifact_content ar fs)) (gr_segments g))"

definition groups_recs :: "spill_artifacts \<Rightarrow> files \<Rightarrow> segment_group list \<Rightarrow> spill_record list" where
  "groups_recs ar fs gs = concat (map (group_recs ar fs) gs)"

lemma groups_recs_simps [simp]:
  "groups_recs ar fs [] = []" "groups_recs ar fs (g # gs) = group_recs ar fs g @ groups_recs ar fs gs"
  by (simp_all add: groups_recs_def)

definition group_ok :: "usize \<Rightarrow> nat \<Rightarrow> spill_artifacts \<Rightarrow> files \<Rightarrow> segment_group \<Rightarrow> bool" where
  "group_ok sp N ar fs g \<longleftrightarrow>
     gr_point_start g < gr_point_end g \<and> gr_point_end g \<le> N \<and> gr_point_end g - gr_point_start g \<le> sp \<and>
     (\<forall>d \<in> set (gr_segments g). located sp (artifact_content ar fs) d) \<and>
     (\<forall>r \<in> set (group_recs ar fs g). gr_point_start g \<le> unat (sr_src r) \<and> unat (sr_src r) < gr_point_end g)"

definition groups_ok :: "usize \<Rightarrow> nat \<Rightarrow> spill_artifacts \<Rightarrow> files \<Rightarrow> segment_group list \<Rightarrow> bool" where
  "groups_ok sp N ar fs gs \<longleftrightarrow> (\<forall>g \<in> set gs. group_ok sp N ar fs g) \<and>
     sorted_wrt (\<lambda>g h. gr_point_end g \<le> gr_point_start h) gs"

lemma groups_ok_Cons:
  "groups_ok sp N ar fs (g # gs) \<longleftrightarrow>
     group_ok sp N ar fs g \<and> (\<forall>h \<in> set gs. gr_point_end g \<le> gr_point_start h) \<and> groups_ok sp N ar fs gs"
  by (auto simp: groups_ok_def)

lemma group_cands_outside:
  assumes "group_ok sp N ar fs g" "p < gr_point_start g \<or> gr_point_end g \<le> p"
  shows "record_cands p (group_recs ar fs g) = []"
  using assms by (intro record_cands_Nil) (fastforce simp: group_ok_def)

lemma groups_cands_outside:
  assumes "groups_ok sp N ar fs gs" "\<forall>g \<in> set gs. p < gr_point_start g \<or> gr_point_end g \<le> p"
  shows "record_cands p (groups_recs ar fs gs) = []"
  using assms by (induction gs) (auto simp: groups_ok_Cons intro: group_cands_outside)

lemma groups_cands_Cons:
  assumes "groups_ok sp N ar fs (g # gs)"
  shows "p < gr_point_end g \<Longrightarrow> record_cands p (groups_recs ar fs gs) = []"
    "gr_point_end g \<le> p \<or> p < gr_point_start g \<Longrightarrow> record_cands p (group_recs ar fs g) = []"
  using assms by (auto simp: groups_ok_Cons intro!: groups_cands_outside group_cands_outside)

lemma new_no_neighbors: "reservoir_new n = Inr r0 \<Longrightarrow> into_neighbors r0 = []"
  by (auto simp: reservoir_new_def into_neighbors_def split: if_splits)

lemma point_row_Cons:
  assumes "groups_ok sp N ar fs (g # gs)" "reservoir_new n = Inr r0"
  shows "p < gr_point_start g \<Longrightarrow> point_row r0 (groups_recs ar fs (g # gs)) p = (p, [])"
    "p < gr_point_end g \<Longrightarrow> point_row r0 (groups_recs ar fs (g # gs)) p = point_row r0 (group_recs ar fs g) p"
    "gr_point_end g \<le> p \<Longrightarrow> point_row r0 (groups_recs ar fs (g # gs)) p = point_row r0 (groups_recs ar fs gs) p"
proof -
  have "gr_point_start g < gr_point_end g" using assms(1) by (simp add: groups_ok_Cons group_ok_def)
  then show "p < gr_point_start g \<Longrightarrow> point_row r0 (groups_recs ar fs (g # gs)) p = (p, [])"
    "p < gr_point_end g \<Longrightarrow> point_row r0 (groups_recs ar fs (g # gs)) p = point_row r0 (group_recs ar fs g) p"
    "gr_point_end g \<le> p \<Longrightarrow> point_row r0 (groups_recs ar fs (g # gs)) p = point_row r0 (groups_recs ar fs gs) p"
    using groups_cands_Cons [OF assms(1), of p] new_no_neighbors [OF assms(2)] by (simp_all add: point_row_def)
qed

text \<open>
  One step of a loop over ranges: the gap before the range, the range \<open>[a..<b]\<close> itself, the rest.
\<close>

lemma range_step:
  assumes "i \<le> a" "a \<le> b" "b \<le> N" "\<And>p. i \<le> p \<Longrightarrow> p < a \<Longrightarrow> row p = (p, [])"
    and "\<And>s. mid s = run_rows cb s (map row [a..<b])" "\<And>s. rest s = run_rows cb s (map row [b..<N])"
  shows "res_bind (if i < a then emit_empty_point_range cb st i a else Inr st) (\<lambda>s1. res_bind (mid s1) rest) =
    run_rows cb st (map row [i..<N])"
proof -
  have "(if i < a then emit_empty_point_range cb st i a else Inr st) = run_rows cb st (map (\<lambda>p. (p, [])) [i..<a])"
    by (simp add: emit_empty_point_range_def emit_empty_rows)
  also have "map (\<lambda>p. (p, [])) [i..<a] = map row [i..<a]" by (rule map_cong [OF refl]) (simp add: assms(4))
  moreover have "rest = (\<lambda>s. run_rows cb s (map row [b..<N]))" "mid = (\<lambda>s. run_rows cb s (map row [a..<b]))"
    using assms(5,6) by auto
  ultimately show ?thesis using assms(1-3)
    by (simp add: run_rows_split [of i a N] run_rows_split [of a b N])
qed

lemma rest_empty:
  assumes "\<And>p. i \<le> p \<Longrightarrow> p < N \<Longrightarrow> row p = (p, [])"
  shows "(if i < N then emit_empty_point_range cb st i N else Inr st) = run_rows cb st (map row [i..<N])"
proof -
  have "map (\<lambda>p. (p, [])) [i..<N] = map row [i..<N]" by (rule map_cong [OF refl]) (simp add: assms)
  then show ?thesis by (simp add: emit_empty_point_range_def emit_empty_rows del: map_eq_conv)
qed

lemma rest_rows:
  assumes "reservoir_new n = Inr r0"
  shows "(if i < N then emit_empty_point_range cb st i N else Inr st) = run_rows cb st (map (point_row r0 []) [i..<N])"
  by (rule rest_empty) (simp add: point_row_def new_no_neighbors [OF assms])

lemma chunk_whole:
  assumes "group_ok (max pps 1) N ar fs g" "s < gr_point_end g" "gr_point_start g \<le> s"
  shows "gr_point_end g - s \<le> group_chunk pps s (gr_point_end g)"
  using assms by (auto simp: group_ok_def group_chunk_def)

lemma group_ok_rows:
  assumes "group_ok (max pps 1) N ar fs g" "reservoir_new n = Inr r0" "a < gr_point_end g" "gr_point_start g \<le> a"
  shows "reduce_segment_group_in_range sys fs ar cb a (gr_point_end g) n (group_chunk pps a (gr_point_end g)) g st =
      run_rows cb st (map (point_row r0 (group_recs ar fs g)) [a..<gr_point_end g])"
    "reduce_segment_group_to_neighbor_part sys fs ar a (gr_point_end g) n (group_chunk pps a (gr_point_end g)) g =
      Inr \<lparr>np_point_start = a, np_point_end = gr_point_end g,
        np_bytes = rows_bytes (map (\<lambda>p. snd (point_row r0 (group_recs ar fs g) p)) [a..<gr_point_end g])\<rparr>"
proof -
  have ok: "\<forall>d \<in> set (gr_segments g). located (max pps 1) (artifact_content ar fs) d"
    "\<forall>r \<in> set (records_of (map (segment_in (artifact_content ar fs)) (gr_segments g))). unat (sr_src r) < gr_point_end g"
    using assms(1) by (auto simp: group_ok_def group_recs_def)
  note chunk = chunk_whole [OF assms(1,3,4)]
  show "reduce_segment_group_in_range sys fs ar cb a (gr_point_end g) n (group_chunk pps a (gr_point_end g)) g st =
      run_rows cb st (map (point_row r0 (group_recs ar fs g)) [a..<gr_point_end g])"
    unfolding group_recs_def by (rule group_rows [OF ok(1) assms(2,3) chunk ok(2)])
  show "reduce_segment_group_to_neighbor_part sys fs ar a (gr_point_end g) n (group_chunk pps a (gr_point_end g)) g =
      Inr \<lparr>np_point_start = a, np_point_end = gr_point_end g,
        np_bytes = rows_bytes (map (\<lambda>p. snd (point_row r0 (group_recs ar fs g) p)) [a..<gr_point_end g])\<rparr>"
    unfolding group_recs_def by (rule group_part [OF ok(1) assms(2,3) chunk ok(2)])
qed

lemma reduce_groups_rows:
  assumes "reservoir_new n = Inr r0"
  shows "groups_ok (max pps 1) N ar fs gs \<Longrightarrow> ps \<le> i \<Longrightarrow> i \<le> N \<Longrightarrow> \<forall>g \<in> set gs. i \<le> max (gr_point_start g) ps \<Longrightarrow>
    reduce_groups sys fs ar cb N ps n pps i st gs = run_rows cb st (map (point_row r0 (groups_recs ar fs gs)) [i..<N])"
proof (induction gs arbitrary: i st)
  case Nil
  show ?case by (simp add: rest_rows [OF assms])
next
  case (Cons g gs)
  let ?a = "max (gr_point_start g) ps" and ?b = "gr_point_end g" and ?row = "point_row r0 (groups_recs ar fs (g # gs))"
  note row = point_row_Cons [OF Cons.prems(1) assms]
  have g: "group_ok (max pps 1) N ar fs g" "groups_ok (max pps 1) N ar fs gs" "\<forall>h \<in> set gs. ?b \<le> gr_point_start h"
    using Cons.prems(1) by (simp_all add: groups_ok_Cons)
  show ?case
  proof (cases "?b \<le> ps")
    case True
    have "map ?row [i..<N] = map (point_row r0 (groups_recs ar fs gs)) [i..<N]"
      by (rule map_cong [OF refl], rule row(3)) (use True Cons.prems(2) in auto)
    then show ?thesis using True Cons.IH [of i st] g(2) Cons.prems by (simp del: groups_recs_simps map_eq_conv)
  next
    case False
    have ab: "?a < ?b" "?b \<le> N" "i \<le> ?a" using False g(1) Cons.prems(4) by (auto simp: group_ok_def)
    have mid: "reduce_segment_group_in_range sys fs ar cb ?a ?b n (group_chunk pps ?a ?b) g s = run_rows cb s (map ?row [?a..<?b])" for s
    proof -
      have "map ?row [?a..<?b] = map (point_row r0 (group_recs ar fs g)) [?a..<?b]"
        by (rule map_cong [OF refl], rule row(2)) auto
      then show ?thesis using group_ok_rows(1) [OF g(1) assms ab(1)] by (simp del: groups_recs_simps map_eq_conv)
    qed
    have rest: "reduce_groups sys fs ar cb N ps n pps ?b s gs = run_rows cb s (map ?row [?b..<N])" for s
    proof -
      have "map ?row [?b..<N] = map (point_row r0 (groups_recs ar fs gs)) [?b..<N]"
        by (rule map_cong [OF refl], rule row(3)) auto
      moreover have "\<forall>h \<in> set gs. ?b \<le> max (gr_point_start h) ps" using g(3) by fastforce
      ultimately show ?thesis using Cons.IH [of ?b s] g(2) False ab(2) by (simp del: groups_recs_simps map_eq_conv)
    qed
    have gap: "?row p = (p, [])" if "i \<le> p" "p < ?a" for p using that row(1) Cons.prems(2) by auto
    show ?thesis using range_step [OF ab(3) _ ab(2) gap mid rest] ab(1) False
      by (simp add: Let_def del: groups_recs_simps)
  qed
qed

section \<open>The parallel reducer\<close>

definition part_of :: "spill_artifacts \<Rightarrow> files \<Rightarrow> reservoir \<Rightarrow> nat \<Rightarrow> segment_group \<Rightarrow> neighbor_part" where
  "part_of ar fs r0 ps g =
     (let a = max (gr_point_start g) ps; b = gr_point_end g
      in \<lparr>np_point_start = a, np_point_end = b,
          np_bytes = rows_bytes (map (\<lambda>p. snd (point_row r0 (group_recs ar fs g) p)) [a..<b])\<rparr>)"

lemma reduce_active_groups_parts:
  assumes "reservoir_new n = Inr r0" "groups_ok (max pps 1) N ar fs gs" "\<forall>g \<in> set gs. ps < gr_point_end g"
  shows "reduce_active_groups sys fs ar ps n pps gs = Inr (map (part_of ar fs r0 ps) gs)"
  using assms(2,3)
proof (induction gs)
  case (Cons g gs)
  let ?a = "max (gr_point_start g) ps" and ?b = "gr_point_end g"
  have g: "group_ok (max pps 1) N ar fs g" using Cons.prems(1) by (simp add: groups_ok_Cons)
  then have ab: "?a < ?b" using Cons.prems(2) by (simp add: group_ok_def)
  have "reduce_segment_group_to_neighbor_part sys fs ar ?a ?b n (group_chunk pps ?a ?b) g = Inr (part_of ar fs r0 ps g)"
    using group_ok_rows(2) [OF g assms(1) ab] by (simp add: part_of_def Let_def)
  then show ?case using Cons by (simp add: Let_def groups_ok_Cons)
qed simp

lemma row_length:
  assumes "reservoir_new n = Inr r0"
  shows "length (snd (point_row r0 recs p)) \<le> n"
proof -
  have "reservoir_inv r0" "l_max r0 = n"
    using assms by (auto simp: reservoir_new_def reservoir_inv_def split: if_splits)
  then show ?thesis using insert_all_inv [of r0 "record_cands p recs"]
    by (auto simp: point_row_def into_neighbors_def reservoir_inv_def)
qed

lemma replay_parts_rows:
  assumes "reservoir_new n = Inr r0" "n < 2 ^ 32"
  shows "groups_ok (max pps 1) N ar fs gs \<Longrightarrow> \<forall>g \<in> set gs. ps < gr_point_end g \<Longrightarrow> ps \<le> i \<Longrightarrow> i \<le> N \<Longrightarrow>
    \<forall>g \<in> set gs. i \<le> max (gr_point_start g) ps \<Longrightarrow>
    replay_parts cb N i st (map (part_of ar fs r0 ps) gs) = run_rows cb st (map (point_row r0 (groups_recs ar fs gs)) [i..<N])"
proof (induction gs arbitrary: i st)
  case Nil
  show ?case by (simp add: rest_rows [OF assms(1)])
next
  case (Cons g gs)
  let ?a = "max (gr_point_start g) ps" and ?b = "gr_point_end g" and ?row = "point_row r0 (groups_recs ar fs (g # gs))"
  note row = point_row_Cons [OF Cons.prems(1) assms(1)]
  have g: "group_ok (max pps 1) N ar fs g" "groups_ok (max pps 1) N ar fs gs" "\<forall>h \<in> set gs. ?b \<le> gr_point_start h"
    using Cons.prems(1) by (simp_all add: groups_ok_Cons)
  have ab: "?a < ?b" "?b \<le> N" "i \<le> ?a" using g(1) Cons.prems(2,5) by (auto simp: group_ok_def)
  have mid: "replay_neighbor_part ?a ?b (np_bytes (part_of ar fs r0 ps g)) cb s = run_rows cb s (map ?row [?a..<?b])" for s
  proof -
    have "length (snd (point_row r0 (group_recs ar fs g) p)) < 2 ^ 32" for p
      using row_length [OF assms(1), of "group_recs ar fs g" p] assms(2) by simp
    then have "replay_neighbor_part ?a ?b (np_bytes (part_of ar fs r0 ps g)) cb s =
        run_rows cb s (map (\<lambda>p. (p, snd (point_row r0 (group_recs ar fs g) p))) [?a..<?b])"
      using replay_points_rows [of "[?a..<?b]" "\<lambda>p. snd (point_row r0 (group_recs ar fs g) p)" cb s "[]"]
      by (simp add: replay_neighbor_part_def part_of_def Let_def del: map_eq_conv)
    moreover have "map (\<lambda>p. (p, snd (point_row r0 (group_recs ar fs g) p))) [?a..<?b] = map ?row [?a..<?b]"
      by (rule map_cong [OF refl], subst row(2)) (auto simp: point_row_def)
    ultimately show ?thesis by simp
  qed
  have rest: "replay_parts cb N ?b s (map (part_of ar fs r0 ps) gs) = run_rows cb s (map ?row [?b..<N])" for s
  proof -
    have "map ?row [?b..<N] = map (point_row r0 (groups_recs ar fs gs)) [?b..<N]"
      by (rule map_cong [OF refl], rule row(3)) auto
    moreover have "\<forall>h \<in> set gs. ?b \<le> max (gr_point_start h) ps" using g(3) by fastforce
    ultimately show ?thesis using Cons.IH [of ?b s] g(2) Cons.prems(2) ab(2) by (simp del: groups_recs_simps map_eq_conv)
  qed
  have gap: "?row p = (p, [])" if "i \<le> p" "p < ?a" for p using that row(1) Cons.prems(3) by auto
  have "np_point_start (part_of ar fs r0 ps g) = ?a" "np_point_end (part_of ar fs r0 ps g) = ?b"
    by (simp_all add: part_of_def Let_def)
  then show ?case using range_step [OF ab(3) _ ab(2) gap mid rest] ab(1)
    by (simp add: Let_def del: groups_recs_simps cong: if_cong)
qed

lemma active_cands:
  assumes "groups_ok sp N ar fs gs" "ps \<le> p"
  shows "record_cands p (groups_recs ar fs (filter (\<lambda>g. ps < gr_point_end g) gs)) = record_cands p (groups_recs ar fs gs)"
  using assms by (induction gs) (auto simp: groups_ok_Cons not_less intro!: group_cands_outside)

lemma unstable_sort_id:
  assumes "unstable_sort srt" "sorted_wrt (<) (map f xs)"
  shows "srt f xs = xs"
proof -
  have "sorted (map f xs)" "distinct (map f xs)"
    using assms(2) strict_sorted_iff by blast+
  moreover have "mset (srt f xs) = mset xs" "sorted (map f (srt f xs))" using unstable_sortD [OF assms(1)] by auto
  moreover from calculation have "inj_on f (set (srt f xs))" by (metis distinct_map mset_eq_setD)
  ultimately show ?thesis
    by (metis map_inj_on mset_eq_setD mset_map properties_for_sort sup.idem)
qed

section \<open>Grouping the manifest\<close>

definition shard_of :: "segment_desc \<Rightarrow> usize" where
  "shard_of d = unat (sd_shard_id d)"

definition shard_group :: "desc_sort \<Rightarrow> nat \<Rightarrow> usize \<Rightarrow> segment_desc list \<Rightarrow> usize \<Rightarrow> segment_group" where
  "shard_group srt N sp ds k =
     \<lparr>gr_point_start = k * sp, gr_point_end = min (k * sp + sp) N,
      gr_segments = srt (\<lambda>d. (sd_src_min d, sd_file_id d, sd_byte_offset d)) (filter (\<lambda>d. shard_of d = k) ds)\<rparr>"

lemma desc_in_shards:
  assumes "located sp m d" "\<forall>r \<in> set (sg_records (segment_in m d)). unat (sr_src r) < N"
  shows "in_shards sp N [segment_in m d]" "sg_shard_id (segment_in m d) = shard_of d"
    "sg_src_min (segment_in m d) = sd_src_min d" "sg_src_max (segment_in m d) = sd_src_max d"
  using assms by (auto simp: in_shards_def located_def segment_in_def segment_at_def shard_of_def)

lemma desc_bounds:
  assumes "located sp m d" "\<forall>r \<in> set (sg_records (segment_in m d)). unat (sr_src r) < N" "0 < sp"
  shows "shard_of d * sp < N" "sat_mul (shard_of d) sp = shard_of d * sp"
    "\<not> (unat (sd_src_min d) < shard_of d * sp \<or> min (shard_of d * sp + sp) N \<le> unat (sd_src_max d))"
    "r \<in> set (sg_records (segment_in m d)) \<Longrightarrow>
      shard_of d * sp \<le> unat (sr_src r) \<and> unat (sr_src r) < min (shard_of d * sp + sp) N"
proof -
  note d = desc_in_shards [OF assms(1,2)]
  have mem: "segment_in m d \<in> set [segment_in m d]" by simp
  show "shard_of d * sp < N" "sat_mul (shard_of d) sp = shard_of d * sp"
    using in_shards_start [OF d(1) mem assms(3)] by (simp_all add: d(2))
  show "\<not> (unat (sd_src_min d) < shard_of d * sp \<or> min (shard_of d * sp + sp) N \<le> unat (sd_src_max d))"
    using in_shards_minmax [OF d(1) mem assms(3)] by (simp only: d(2-4) not_False_eq_True)
  show "r \<in> set (sg_records (segment_in m d)) \<Longrightarrow>
      shard_of d * sp \<le> unat (sr_src r) \<and> unat (sr_src r) < min (shard_of d * sp + sp) N"
    using in_shards_shard [OF d(1) mem _ assms(3)] by (simp add: d(2))
qed

lemma build_groups_ok:
  assumes "\<forall>d \<in> set ds. located sp m d" "\<forall>r \<in> set (records_of (map (segment_in m) ds)). unat (sr_src r) < N"
    and "0 < sp" "set ks \<subseteq> shard_of ` set ds"
  shows "build_groups srt N sp ds ks = Inr (map (shard_group srt N sp ds) ks)"
  using assms(4)
proof (induction ks)
  case (Cons k ks)
  have b: "shard_of d * sp < N" "sat_mul (shard_of d) sp = shard_of d * sp"
    "\<not> (unat (sd_src_min d) < shard_of d * sp \<or> min (shard_of d * sp + sp) N \<le> unat (sd_src_max d))"
    if "d \<in> set ds" for d
    using desc_bounds(1-3) [OF _ _ assms(3), of m d N] assms(1,2) that by simp_all
  obtain d where "d \<in> set ds" "shard_of d = k" using Cons.prems by auto
  then have k: "k * sp < N" "sat_mul k sp = k * sp" using b(1,2) by auto
  have "\<not> (\<exists>d \<in> set (filter (\<lambda>d. unat (sd_shard_id d) = k) ds).
      unat (sd_src_min d) < k * sp \<or> min (k * sp + sp) N \<le> unat (sd_src_max d))"
    using b(3) by (auto simp: shard_of_def)
  then show ?case using k Cons
    by (simp add: Let_def shard_group_def shard_of_def del: bex_simps set_filter min_le_iff_disj)
qed simp

lemma shard_group_recs:
  assumes "unstable_sort srt"
  shows "set (gr_segments (shard_group srt N sp ds k)) = {d \<in> set ds. shard_of d = k}"
    "mset (group_recs ar fs (shard_group srt N sp ds k)) =
      segmented (map (segment_in (artifact_content ar fs)) (filter (\<lambda>d. shard_of d = k) ds))"
proof -
  define gs where "gs = gr_segments (shard_group srt N sp ds k)"
  have m: "mset gs = mset (filter (\<lambda>d. shard_of d = k) ds)"
    unfolding gs_def shard_group_def using unstable_sortD [OF assms] by simp
  from mset_eq_setD [OF this] show "set (gr_segments (shard_group srt N sp ds k)) = {d \<in> set ds. shard_of d = k}"
    by (simp add: gs_def [symmetric])
  show "mset (group_recs ar fs (shard_group srt N sp ds k)) =
      segmented (map (segment_in (artifact_content ar fs)) (filter (\<lambda>d. shard_of d = k) ds))"
    unfolding group_recs_def mset_records_of gs_def [symmetric] by (rule segmented_mset) (simp add: m)
qed

lemma shard_group_ok:
  assumes "unstable_sort srt" "\<forall>d \<in> set ds. located sp (artifact_content ar fs) d"
    and "\<forall>r \<in> set (records_of (map (segment_in (artifact_content ar fs)) ds)). unat (sr_src r) < N"
    and "0 < sp" "k \<in> shard_of ` set ds"
  shows "group_ok sp N ar fs (shard_group srt N sp ds k)"
proof -
  note segs = shard_group_recs(1) [OF assms(1)]
  have b: "shard_of d * sp < N" "r \<in> set (sg_records (segment_in (artifact_content ar fs) d)) \<Longrightarrow>
      shard_of d * sp \<le> unat (sr_src r) \<and> unat (sr_src r) < min (shard_of d * sp + sp) N"
    if "d \<in> set ds" for d r
    using desc_bounds(1,4) [OF _ _ assms(4), where m = "artifact_content ar fs" and d = d and N = N] assms(2,3) that by simp_all
  have "gr_point_start (shard_group srt N sp ds k) = k * sp" "gr_point_end (shard_group srt N sp ds k) = min (k * sp + sp) N"
    by (simp_all add: shard_group_def)
  moreover have "k * sp < N" using assms(5) b(1) by auto
  moreover have "\<forall>r \<in> set (group_recs ar fs (shard_group srt N sp ds k)).
      k * sp \<le> unat (sr_src r) \<and> unat (sr_src r) < min (k * sp + sp) N"
    unfolding group_recs_def using b(2) by (fastforce simp: segs)
  ultimately show ?thesis unfolding group_ok_def using assms(2,4) by (auto simp: segs)
qed

lemma segmented_by_shard:
  assumes "distinct ks"
  shows "(\<Sum>k\<leftarrow>ks. segmented (map f (filter (\<lambda>d. shard_of d = k) ds))) =
    segmented (map f (filter (\<lambda>d. shard_of d \<in> set ks) ds))"
  using assms
proof (induction ks)
  case (Cons k ks)
  have "segmented (map f (filter (\<lambda>d. shard_of d = k \<or> shard_of d \<in> set ks) ds)) =
      segmented (map f (filter (\<lambda>d. shard_of d = k) ds)) + segmented (map f (filter (\<lambda>d. shard_of d \<in> set ks) ds))"
    using Cons.prems by (induction ds) (auto simp: segmented_def)
  then show ?case using Cons by simp
qed (simp add: segmented_def)

lemma strict_remdups_adj: "sorted (xs :: 'a::linorder list) \<Longrightarrow> sorted_wrt (<) (remdups_adj xs)"
  by (induction xs rule: remdups_adj.induct) (auto simp: less_le_trans order.not_eq_order_implies_strict)

lemma group_segments_ok:
  fixes pps :: usize
  defines "sp \<equiv> max pps 1"
  assumes "unstable_sort srt" "\<forall>d \<in> set (ar_segment_manifest ar). located sp (artifact_content ar fs) d"
    and "\<forall>r \<in> set (records_of (map (segment_in (artifact_content ar fs)) (ar_segment_manifest ar))). unat (sr_src r) < N"
  obtains gs where "group_segments_by_shard srt N pps ar = Inr gs" "groups_ok sp N ar fs gs"
    "mset (groups_recs ar fs gs) = segmented (map (segment_in (artifact_content ar fs)) (ar_segment_manifest ar))"
proof -
  let ?ds = "ar_segment_manifest ar" and ?m = "artifact_content ar fs"
  let ?ks = "remdups_adj (sort (map (\<lambda>d. unat (sd_shard_id d)) ?ds))"
  let ?gs = "map (shard_group srt N sp ?ds) ?ks"
  have sp: "0 < sp" by (simp add: sp_def)
  have ks: "set ?ks = shard_of ` set ?ds" "sorted_wrt (<) ?ks"
    by (auto simp: shard_of_def strict_remdups_adj)
  have "group_segments_by_shard srt N pps ar = Inr ?gs"
    using build_groups_ok [OF assms(3,4) sp, of ?ks srt] ks(1)
    by (simp add: group_segments_by_shard_def flip: sp_def One_nat_def)
  moreover have "groups_ok sp N ar fs ?gs"
  proof -
    have "\<forall>g \<in> set ?gs. group_ok sp N ar fs g" using shard_group_ok [OF assms(2-4) sp] ks(1) by auto
    moreover have "sorted_wrt (\<lambda>g h. gr_point_end g \<le> gr_point_start h) ?gs"
      unfolding sorted_wrt_map using shard_next_le
      by (intro sorted_wrt_mono_rel [OF _ ks(2)]) (simp add: shard_group_def min.coboundedI1)
    ultimately show ?thesis by (simp add: groups_ok_def)
  qed
  moreover have "mset (groups_recs ar fs ?gs) = segmented (map (segment_in ?m) ?ds)"
  proof -
    have "mset (groups_recs ar fs (map (shard_group srt N sp ?ds) qs)) =
        (\<Sum>k\<leftarrow>qs. segmented (map (segment_in ?m) (filter (\<lambda>d. shard_of d = k) ?ds)))" for qs
      by (induction qs) (simp_all add: shard_group_recs(2) [OF assms(2)])
    moreover have "filter (\<lambda>d. shard_of d \<in> set ?ks) ?ds = ?ds" unfolding ks(1) by simp
    moreover have "distinct ?ks" using ks(2) strict_sorted_iff by blast
    ultimately show ?thesis using segmented_by_shard [of ?ks] by simp
  qed
  ultimately show thesis by (rule that)
qed

section \<open>Both reducers on well-formed artifacts\<close>

lemma reducers_rows:
  assumes "unstable_sort srt" "unstable_sort psrt" "reservoir_new n = Inr r0" "n < 2 ^ 32"
    and "\<forall>d \<in> set (ar_segment_manifest ar). located (max pps 1) (artifact_content ar fs) d"
    and "\<forall>r \<in> set (records_of (map (segment_in (artifact_content ar fs)) (ar_segment_manifest ar))). unat (sr_src r) < N"
  obtains recs stats where "mset recs = segmented (map (segment_in (artifact_content ar fs)) (ar_segment_manifest ar))"
    "reduce_segments_sharded_in_order_from srt sys fs N ps n pps ar cb st =
       res_bind (run_rows cb st (map (point_row r0 recs) [ps..<N])) (\<lambda>st'. Inr (st', stats))"
    "\<And>k. reduce_segments_parallel srt psrt sys fs N ps n pps ar k cb st =
       res_bind (run_rows cb st (map (point_row r0 recs) [ps..<N])) (\<lambda>st'. Inr (st', stats))"
proof -
  from group_segments_ok [OF assms(1,5,6)] obtain gs where
    gs: "group_segments_by_shard srt N pps ar = Inr gs" "groups_ok (max pps 1) N ar fs gs"
      "mset (groups_recs ar fs gs) = segmented (map (segment_in (artifact_content ar fs)) (ar_segment_manifest ar))" .
  define act where "act = filter (\<lambda>g. ps < gr_point_end g) gs"
  let ?rows = "map (point_row r0 (groups_recs ar fs gs)) [ps..<N]"
  show thesis
  proof (cases "N \<le> ps")
    case True
    then show thesis
      by (intro that [OF gs(3), of reduce_stats_default])
        (simp_all add: reduce_segments_sharded_in_order_from_def reduce_segments_parallel_def)
  next
    case False
    have seq: "reduce_segments_sharded_in_order_from srt sys fs N ps n pps ar cb st =
        res_bind (run_rows cb st ?rows) (\<lambda>st'. Inr (st', group_stats ar gs))"
      using False gs(1) reduce_groups_rows [OF assms(3) gs(2), of ps ps sys cb st]
      by (simp add: reduce_segments_sharded_in_order_from_def)
    have act: "groups_ok (max pps 1) N ar fs act" "\<forall>g \<in> set act. ps < gr_point_end g"
      using gs(2) by (auto simp: act_def groups_ok_def sorted_wrt_filter)
    have "map (point_row r0 (groups_recs ar fs act)) [ps..<N] = ?rows"
      by (rule map_cong [OF refl]) (simp add: point_row_def act_def active_cands [OF gs(2)])
    then have replay: "replay_parts cb N ps st (map (part_of ar fs r0 ps) act) = run_rows cb st ?rows"
      using replay_parts_rows [OF assms(3,4) act, of ps cb st] False by (simp del: map_eq_conv)
    have "sorted_wrt (<) (map np_point_start (map (part_of ar fs r0 ps) act))"
    proof -
      have "sorted_wrt (\<lambda>g h. np_point_start (part_of ar fs r0 ps g) < np_point_start (part_of ar fs r0 ps h)) act"
      proof (rule sorted_wrt_mono_rel)
        show "sorted_wrt (\<lambda>g h. gr_point_end g \<le> gr_point_start h) act" using act(1) by (simp add: groups_ok_def)
        fix g h assume "g \<in> set act" "h \<in> set act" "gr_point_end g \<le> gr_point_start h"
        moreover from this have "gr_point_start g < gr_point_end g" "ps < gr_point_end g"
          using act by (auto simp: groups_ok_def group_ok_def)
        ultimately show "np_point_start (part_of ar fs r0 ps g) < np_point_start (part_of ar fs r0 ps h)"
          by (simp add: part_of_def Let_def)
      qed
      then show ?thesis by (simp add: sorted_wrt_map)
    qed
    from unstable_sort_id [OF assms(2) this] replay
    have "reduce_segments_parallel srt psrt sys fs N ps n pps ar k cb st =
        res_bind (run_rows cb st ?rows) (\<lambda>st'. Inr (st', group_stats ar gs))" for k
      using False gs(1) reduce_active_groups_parts [OF assms(3) act, of sys] seq
      by (simp add: reduce_segments_parallel_def act_def [symmetric] Let_def del: map_map)
    then show thesis by (intro that [OF gs(3) seq])
  qed
qed

text \<open>
  The spill path through files: flush the batches to a sink on disk, finish it, and reduce the
  artifacts, one group after the other (\<open>k \<le> 1\<close>) or through part files.
\<close>

definition file_spill_pipeline :: "sorts \<Rightarrow> desc_sort \<Rightarrow> part_sort \<Rightarrow> (usize list \<Rightarrow> usize list) \<Rightarrow> os \<Rightarrow> usize \<Rightarrow>
    string \<times> string \<Rightarrow> usize \<Rightarrow> usize \<Rightarrow> direct_io_config \<Rightarrow> files \<Rightarrow> pending_edge list list \<Rightarrow>
    nat \<Rightarrow> nat \<Rightarrow> usize \<Rightarrow> nat \<Rightarrow> 'st callback \<Rightarrow> 'st \<Rightarrow> 'st result" where
  "file_spill_pipeline S srt psrt hm_order sys edge_bytes base cache_bytes shard_points cfg fs batches
     num_points point_start n k cb st =
     res_bind (file_spill_build S hm_order sys edge_bytes base cache_bytes shard_points cfg fs batches) (\<lambda>(ar, fs').
     res_bind (reduce_sharded_profiled_from_parallel srt psrt sys fs' point_start num_points n shard_points ar k cb st)
       (\<lambda>(st', stats). Inr st'))"

lemma file_spill_pipeline_run:
  assumes "sorts_ok S" "unstable_sort srt" "unstable_sort psrt" "\<forall>ks. mset (hm_order ks) = mset ks"
    and "os_ok sys" "dc_alignment cfg \<le> 2 ^ 63" "reservoir_new n = Inr r0" "n < 2 ^ 32"
    and "\<forall>e \<in> set (concat batches). e_p e < N" "N \<le> 2 ^ 32" "length (concat batches) \<le> 2 ^ 42"
  obtains order where "\<And>p. mset (order p) = mset (cands_for p (concat batches))"
    "file_spill_pipeline S srt psrt hm_order sys eb base cache_bytes pps cfg fs batches N ps n k cb st =
       run_rows cb st (map (\<lambda>p. (p, into_neighbors (insert_all r0 (order p)))) [ps..<N])"
proof -
  have small: "\<forall>e \<in> set (concat batches). e_p e < 2 ^ 32" using assms(9,10) by fastforce
  have hm: "\<And>ks. mset (hm_order ks) = mset ks" using assms(4) by simp
  from file_spill_build_ok [OF assms(1) hm assms(5,6) small assms(11)] obtain ar fs' where
    b: "file_spill_build S hm_order sys eb base cache_bytes pps cfg fs batches = Inr (ar, fs')"
      "\<forall>d \<in> set (ar_segment_manifest ar). located (max pps 1) (artifact_content ar fs') d"
      "segmented (map (segment_in (artifact_content ar fs')) (ar_segment_manifest ar)) = mset (map edge_record (concat batches))"
    by blast
  have src: "\<forall>r \<in> set (records_of (map (segment_in (artifact_content ar fs')) (ar_segment_manifest ar))). unat (sr_src r) < N"
  proof -
    have "set (records_of (map (segment_in (artifact_content ar fs')) (ar_segment_manifest ar))) = set (map edge_record (concat batches))"
      using b(3) mset_records_of by (intro mset_eq_setD) (simp only:)
    then show ?thesis using assms(9) small by (auto simp: edge_record_src simp del: set_concat)
  qed
  from reducers_rows [OF assms(2,3,7,8) b(2) src, of sys ps cb st] obtain recs stats where
    r: "mset recs = mset (map edge_record (concat batches))"
      "reduce_segments_parallel srt psrt sys fs' N ps n pps ar k cb st =
       res_bind (run_rows cb st (map (point_row r0 recs) [ps..<N])) (\<lambda>st'. Inr (st', stats))"
    using b(3) by metis
  have "file_spill_pipeline S srt psrt hm_order sys eb base cache_bytes pps cfg fs batches N ps n k cb st =
       run_rows cb st (map (point_row r0 recs) [ps..<N])"
    by (simp add: file_spill_pipeline_def reduce_sharded_profiled_from_parallel_def b(1) r(2) res_bind_assoc res_bind_Inr)
  moreover have "point_row r0 recs = (\<lambda>p. (p, into_neighbors (insert_all r0 (record_cands p recs))))"
    by (rule ext) (simp add: point_row_def)
  ultimately show thesis by (intro that [OF record_cands_mset [OF r(1) small]]) simp
qed

section \<open>What the pipeline on disk promises\<close>

text \<open>C14: The spill path through files, end to end. Whatever the flush threshold, the shard size, direct or
  buffered writes, the split of the system calls, the order of the unstable sorts, the iteration
  order of the maps and the number of groups reduced in parallel: the callback sees the points
  \<open>point_start\<close>, \<dots>, \<open>num_points - 1\<close> in this order, each exactly once, with the neighbours a fresh
  reservoir keeps of that point's own edges in some order; only the callback can fail.\<close>

theorem file_spill_pipeline_rows:
  assumes "sorts_ok S" "unstable_sort srt" "unstable_sort psrt" "\<forall>ks. mset (hm_order ks) = mset ks"
    and "os_ok sys" "dc_alignment cfg \<le> 2 ^ 63" "reservoir_new n = Inr r0" "n < 2 ^ 32"
    and "\<forall>e \<in> set (concat batches). e_p e < num_points" "num_points \<le> 2 ^ 32" "length (concat batches) \<le> 2 ^ 42"
  shows "\<exists>order. (\<forall>p. mset (order p) = mset (cands_for p (concat batches))) \<and>
    file_spill_pipeline S srt psrt hm_order sys edge_bytes base cache_bytes shard_points cfg fs batches
      num_points point_start n k cb st =
    run_rows cb st (map (\<lambda>p. (p, into_neighbors (insert_all r0 (order p)))) [point_start..<num_points])"
  by (rule file_spill_pipeline_run [OF assms, where eb = edge_bytes and base = base and cache_bytes = cache_bytes
        and pps = shard_points and fs = fs and ps = point_start and k = k and cb = cb and st = st]) blast

theorem file_spill_pipeline_rows_witness:
  "\<exists>order. (\<forall>p. mset (order p) = mset (cands_for p (concat sample_batches))) \<and>
    file_spill_pipeline stable_sorts sort_key sort_key rev sample_os 24 (''d/'', ''cand'') 48 2
      (enabled_with_alignment 512) Map.empty sample_batches 5 1 2 4 collect_rows [] =
    run_rows collect_rows [] (map (\<lambda>p. (p, into_neighbors (insert_all empty2 (order p)))) [1..<5])"
  by (rule file_spill_pipeline_rows [OF stable_sorts_ok unstable_sort_sort_key unstable_sort_sort_key])
    (simp_all add: sample_os_ok sample_batches_def enabled_with_alignment_def next_power_of_two_def
      pow2_from.simps usize_max_def DEFAULT_DIRECT_IO_ALIGNMENT_def reservoir_new_def empty2_def)

text \<open>C16: The parallel reducer is equivalent to the sequential one. On artifacts whose segments lie in their
  part files, hold the records of one shard each and have sources below \<open>num_points\<close>, reducing the
  groups to neighbour parts and replaying the parts calls the callback with the same rows, ends in
  the same state or the same error and reports the same statistics as replaying the groups directly,
  for every degree of parallelism.\<close>

theorem parallel_reduce_equals_sequential:
  assumes "unstable_sort srt" "unstable_sort psrt" "reservoir_new n = Inr r0" "n < 2 ^ 32"
    and "\<forall>d \<in> set (ar_segment_manifest ar). located (max pps 1) (artifact_content ar fs) d"
    and "\<forall>r \<in> set (records_of (map (segment_in (artifact_content ar fs)) (ar_segment_manifest ar))). unat (sr_src r) < num_points"
  shows "reduce_segments_parallel srt psrt sys fs num_points point_start n pps ar k cb st =
    reduce_segments_sharded_in_order_from srt sys fs num_points point_start n pps ar cb st"
  by (rule reducers_rows [OF assms, of sys point_start cb st]) simp

definition sample_record :: "u32 \<Rightarrow> spill_record" where
  "sample_record src = \<lparr>sr_src = src, sr_dst = 4, sr_hash = 2, sr_flags = 0, sr_dist = 0x40a00000\<rparr>"

definition sample_desc :: "u32 \<Rightarrow> u32 \<Rightarrow> segment_desc" where
  "sample_desc k src = \<lparr>sd_shard_id = k, sd_file_id = 0, sd_byte_offset = 0, sd_byte_len = 16, sd_record_count = 1,
     sd_src_min = src, sd_src_max = src, sd_sorted_by_src = True\<rparr>"

definition sample_artifacts :: spill_artifacts where
  "sample_artifacts = \<lparr>ar_part_files = [\<lparr>pd_shard_id = 0, pd_file_id = 0, pd_path = ''a'', pd_byte_len = 16\<rparr>,
      \<lparr>pd_shard_id = 1, pd_file_id = 0, pd_path = ''b'', pd_byte_len = 16\<rparr>],
     ar_segment_manifest = [sample_desc 1 3, sample_desc 0 1], ar_manifest_path = ''m''\<rparr>"

definition sample_files :: files where
  "sample_files = [''a'' \<mapsto> record_bytes (sample_record 1), ''b'' \<mapsto> record_bytes (sample_record 3)]"

theorem parallel_reduce_equals_sequential_witness:
  "reduce_segments_parallel sort_key sort_key sample_os sample_files 5 0 2 2 sample_artifacts 8 collect_rows [] =
    reduce_segments_sharded_in_order_from sort_key sample_os sample_files 5 0 2 2 sample_artifacts collect_rows []"
proof (rule parallel_reduce_equals_sequential [OF unstable_sort_sort_key unstable_sort_sort_key])
  have c: "artifact_content sample_artifacts sample_files = [(0, 0) \<mapsto> record_bytes (sample_record 1), (1, 0) \<mapsto> record_bytes (sample_record 3)]"
    by (rule ext) (simp add: artifact_content_def file_lookup_def sample_artifacts_def sample_files_def)
  have d: "decode_records 1 (record_bytes r) = [r]" for r using decode_records_bytes [of "[r]" "[]"] by simp
  show "\<forall>d \<in> set (ar_segment_manifest sample_artifacts). located (max 2 1) (artifact_content sample_artifacts sample_files) d"
    unfolding c by (auto simp: sample_artifacts_def located_def desc_part_def segment_at_def segment_ok_def sample_desc_def
        d sample_record_def simp del: One_nat_def decode_records.simps)
  show "\<forall>r \<in> set (records_of (map (segment_in (artifact_content sample_artifacts sample_files)) (ar_segment_manifest sample_artifacts))).
      unat (sr_src r) < 5"
    unfolding c by (auto simp: sample_artifacts_def segment_in_def desc_part_def segment_at_def sample_desc_def
        d sample_record_def simp del: One_nat_def decode_records.simps)
qed (simp_all add: reservoir_new_def empty2_def)

text \<open>C39: The buffered reader does not notice a part file that ends too early. If the file holds only \<open>k\<close>
  complete records of a segment of \<open>m > k\<close>, reading the segment returns those \<open>k\<close> records and no
  error: the \<open>UnexpectedEof\<close> of \<open>read_exact\<close> is taken for the end of the segment.\<close>

theorem truncated_part_accepted:
  assumes "fs p = Some f" "sd_byte_len d = 16 * m" "k < m"
    and "sd_byte_offset d + 16 * k \<le> length f" "length f < sd_byte_offset d + 16 * k + 16"
  shows "res_bind (reader_open fs p d dc_default) (\<lambda>rd. edge_loop (\<lambda>e es. Inr (Next (es @ [e]))) sys dc_default f rd []) =
    Inr (map to_pending_edge (decode_records k (drop (sd_byte_offset d) f)))"
proof -
  have "fold (\<lambda>r es. es @ [to_pending_edge r]) rs acc = acc @ map to_pending_edge rs" for rs acc
    by (induction rs arbitrary: acc) simp_all
  moreover have "edge_loop (\<lambda>e es. Inr (Next (es @ [e]))) sys dc_default f (RBuffered (drop (sd_byte_offset d) f) (16 * m)) [] =
      Inr (fold (\<lambda>r es. es @ [to_pending_edge r]) (decode_records k (drop (sd_byte_offset d) f)) [])"
    using assms by (intro edge_loop_records [where good = "\<lambda>_. True"]) auto
  ultimately show ?thesis using assms(1,2) by (simp add: reader_open_def dc_default_def)
qed

theorem truncated_part_accepted_witness:
  "res_bind (reader_open [''p'' \<mapsto> record_bytes (sample_record 1) @ [7]] ''p'' ((sample_desc 0 1)\<lparr>sd_byte_len := 32\<rparr>) dc_default)
     (\<lambda>rd. edge_loop (\<lambda>e es. Inr (Next (es @ [e]))) sample_os dc_default (record_bytes (sample_record 1) @ [7]) rd []) =
    Inr [to_pending_edge (sample_record 1)]"
proof -
  have "decode_records 1 (record_bytes (sample_record 1) @ [7]) = [sample_record 1]"
    using decode_records_bytes [of "[sample_record 1]" "[7]"] by simp
  then show ?thesis
    using truncated_part_accepted [of "[''p'' \<mapsto> record_bytes (sample_record 1) @ [7]]" "''p''" "record_bytes (sample_record 1) @ [7]"
        "(sample_desc 0 1)\<lparr>sd_byte_len := 32\<rparr>" 2 1 sample_os]
    by (simp add: sample_desc_def del: decode_records.simps One_nat_def)
qed


end
