(* ===== verification/ReadPlan.thy ===== *)
theory ReadPlan
  imports Prelude
begin

text \<open>
  Planning of batched row reads: \<open>build_gather_plan\<close> of
  \<^verbatim>\<open>ForgeANN/src/forgeann/point_store.rs\<close> and \<open>BoundedReadPlanner\<close> of
  \<^verbatim>\<open>io_runtime.rs\<close>. The requested row ids are sorted, cut greedily into runs, and each run
  becomes one contiguous read window with scatter operations that say which output position
  takes which row of the window.

  The three planners differ in the test that ends a run. The test on read amplification is a
  floating-point comparison \<open>a as f64 / b as f64 > max_amp\<close>; it is the parameter \<open>exceeds a b\<close>,
  and everything is proved for every such test. Counters of the statistics are \<^typ>\<open>nat\<close>.
\<close>

section \<open>Plans\<close>

record planned_row =
  pr_id :: u32
  pr_pos :: usize

record read_window =
  rw_start :: u32
  rw_count :: u32

record scatter_op =
  so_pos :: usize
  so_off :: u32

record gather_options =
  go_max_gap_rows :: u32
  go_max_window_bytes :: usize
  go_alignment_bytes :: usize
  go_sort_ids :: bool

definition gather_options_default :: gather_options where
  "gather_options_default = \<lparr>go_max_gap_rows = 0, go_max_window_bytes = 256 * 1024,
     go_alignment_bytes = 4096, go_sort_ids = True\<rparr>"

record gather_stats =
  gs_rows_requested :: nat
  gs_windows_submitted :: nat
  gs_rows_per_window_sum :: nat
  gs_singleton_windows :: nat
  gs_range_windows :: nat
  gs_range_rows_read :: nat
  gs_logical_bytes :: nat
  gs_physical_bytes :: nat
  gs_alignment_waste_bytes :: nat
  gs_overread_rows :: nat
  gs_scatter_ops :: nat

record batch_stats =
  bs_point_calls :: nat
  bs_range_calls :: nat
  bs_range_rows_read :: nat
  bs_bytes_read :: nat

definition gather_stats_merge :: "gather_stats \<Rightarrow> gather_stats \<Rightarrow> gather_stats" where
  "gather_stats_merge s t =
     \<lparr>gs_rows_requested = gs_rows_requested s + gs_rows_requested t,
      gs_windows_submitted = gs_windows_submitted s + gs_windows_submitted t,
      gs_rows_per_window_sum = gs_rows_per_window_sum s + gs_rows_per_window_sum t,
      gs_singleton_windows = gs_singleton_windows s + gs_singleton_windows t,
      gs_range_windows = gs_range_windows s + gs_range_windows t,
      gs_range_rows_read = gs_range_rows_read s + gs_range_rows_read t,
      gs_logical_bytes = gs_logical_bytes s + gs_logical_bytes t,
      gs_physical_bytes = gs_physical_bytes s + gs_physical_bytes t,
      gs_alignment_waste_bytes = gs_alignment_waste_bytes s + gs_alignment_waste_bytes t,
      gs_overread_rows = gs_overread_rows s + gs_overread_rows t,
      gs_scatter_ops = gs_scatter_ops s + gs_scatter_ops t\<rparr>"

definition apply_to_point_batch_stats :: "gather_stats \<Rightarrow> batch_stats \<Rightarrow> batch_stats" where
  "apply_to_point_batch_stats s b =
     b\<lparr>bs_point_calls := bs_point_calls b + gs_singleton_windows s,
       bs_range_calls := bs_range_calls b + gs_range_windows s,
       bs_range_rows_read := bs_range_rows_read b + gs_range_rows_read s,
       bs_bytes_read := bs_bytes_read b + gs_physical_bytes s\<rparr>"

record gather_plan =
  gp_windows :: "read_window list"
  gp_scatter :: "scatter_op list list"

definition sat_sub32 :: "u32 \<Rightarrow> u32 \<Rightarrow> u32" where
  "sat_sub32 a b = (if b \<le> a then a - b else 0)"

definition number_rows :: "u32 list \<Rightarrow> planned_row list" where
  "number_rows ids = map (\<lambda>(pos, i). \<lparr>pr_id = i, pr_pos = pos\<rparr>) (enumerate 0 ids)"

section \<open>\<open>build_gather_plan\<close>\<close>

text \<open>The inner loop: how many of the following rows join the window that starts at \<open>first\<close>.\<close>

fun gather_extend :: "u32 \<Rightarrow> nat \<Rightarrow> u32 \<Rightarrow> u32 \<Rightarrow> planned_row list \<Rightarrow> nat" where
  "gather_extend max_gap max_rows first prev [] = 0"
| "gather_extend max_gap max_rows first prev (r # rs) =
     (let next = pr_id r;
          gap = sat_sub32 (sat_sub32 next prev) 1;
          proposed = unat (sat_sub32 next first) + 1
      in if max_gap < gap \<or> max_rows < proposed then 0
         else Suc (gather_extend max_gap max_rows first next rs))"

fun distinct_after :: "u32 \<Rightarrow> planned_row list \<Rightarrow> nat" where
  "distinct_after prev [] = 0"
| "distinct_after prev (r # rs) =
     (if pr_id r \<noteq> prev then Suc (distinct_after (pr_id r) rs) else distinct_after prev rs)"

definition window_of :: "planned_row list \<Rightarrow> read_window" where
  "window_of run =
     \<lparr>rw_start = pr_id (hd run), rw_count = pr_id (last run) - pr_id (hd run) + 1\<rparr>"

definition scatter_of :: "planned_row list \<Rightarrow> scatter_op list" where
  "scatter_of run = map (\<lambda>r. \<lparr>so_pos = pr_pos r, so_off = pr_id r - pr_id (hd run)\<rparr>) run"

definition window_stats :: "gather_options \<Rightarrow> usize \<Rightarrow> planned_row list \<Rightarrow> gather_stats \<Rightarrow> gather_stats" where
  "window_stats opts row_bytes run s =
     (let row_count = rw_count (window_of run);
          distinct_rows = Suc (distinct_after (pr_id (hd run)) (tl run));
          logical = unat row_count * row_bytes;
          alignment = max (go_alignment_bytes opts) 1;
          physical = (if go_sort_ids opts then div_ceil logical alignment * alignment else logical)
      in s\<lparr>gs_windows_submitted := gs_windows_submitted s + 1,
           gs_rows_per_window_sum := gs_rows_per_window_sum s + unat row_count,
           gs_singleton_windows := gs_singleton_windows s + (if row_count \<le> 1 then 1 else 0),
           gs_range_windows := gs_range_windows s + (if row_count \<le> 1 then 0 else 1),
           gs_range_rows_read := gs_range_rows_read s + (if row_count \<le> 1 then 0 else unat row_count),
           gs_overread_rows := gs_overread_rows s + unat (sat_sub32 row_count (word_of_nat distinct_rows)),
           gs_physical_bytes := gs_physical_bytes s + physical,
           gs_alignment_waste_bytes := gs_alignment_waste_bytes s + (physical - logical),
           gs_scatter_ops := gs_scatter_ops s + length run\<rparr>)"

function (sequential) gather_windows :: "gather_options \<Rightarrow> usize \<Rightarrow> nat \<Rightarrow> planned_row list \<Rightarrow>
    gather_stats \<Rightarrow> gather_plan \<times> gather_stats" where
  "gather_windows opts row_bytes max_rows [] s = (\<lparr>gp_windows = [], gp_scatter = []\<rparr>, s)"
| "gather_windows opts row_bytes max_rows (r # rs) s =
     (let k = gather_extend (go_max_gap_rows opts) max_rows (pr_id r) (pr_id r) rs;
          run = r # take k rs;
          (plan, s') = gather_windows opts row_bytes max_rows (drop k rs) (window_stats opts row_bytes run s)
      in (\<lparr>gp_windows = window_of run # gp_windows plan, gp_scatter = scatter_of run # gp_scatter plan\<rparr>, s'))"
  by pat_completeness auto
termination
  by (relation "measure (\<lambda>(opts, rb, m, rows, s). length rows)") auto

declare gather_windows.simps(2) [simp del]

definition build_gather_plan ::
  "((planned_row \<Rightarrow> u32) \<Rightarrow> planned_row list \<Rightarrow> planned_row list) \<Rightarrow> u32 list \<Rightarrow> usize \<Rightarrow> gather_options \<Rightarrow>
   gather_stats \<Rightarrow> gather_plan \<times> gather_stats" where
  "build_gather_plan srt ids row_bytes opts s =
     (let s1 = s\<lparr>gs_rows_requested := gs_rows_requested s + length ids,
                 gs_logical_bytes := gs_logical_bytes s + length ids * row_bytes\<rparr>
      in if ids = [] then (\<lparr>gp_windows = [], gp_scatter = []\<rparr>, s1)
         else
           let rows = (if go_sort_ids opts then srt pr_id (number_rows ids) else number_rows ids);
               max_rows = (if row_bytes = 0 then max (length ids) 1
                           else max (go_max_window_bytes opts div row_bytes) 1)
           in gather_windows opts row_bytes max_rows rows s1)"

section \<open>\<open>BoundedReadPlanner\<close>\<close>

record read_scatter =
  rs_window_idx :: usize
  rs_off :: u32
  rs_pos :: usize

record bounded_plan =
  bp_windows :: "read_window list"
  bp_scatter :: "read_scatter list"
  bp_requested_rows :: usize
  bp_physical_rows :: usize
  bp_physical_bytes :: nat
  bp_row_bytes :: usize

record planner =
  pl_row_bytes :: usize
  pl_max_window_bytes :: usize
  pl_exceeds :: "nat \<Rightarrow> nat \<Rightarrow> bool"

definition bp_logical_bytes :: "bounded_plan \<Rightarrow> nat" where
  "bp_logical_bytes p = sat_mul (bp_requested_rows p) (bp_row_bytes p)"

definition empty_plan :: "usize \<Rightarrow> usize \<Rightarrow> bounded_plan" where
  "empty_plan row_bytes n = \<lparr>bp_windows = [], bp_scatter = [], bp_requested_rows = n,
     bp_physical_rows = 0, bp_physical_bytes = 0, bp_row_bytes = row_bytes\<rparr>"

text \<open>\<open>taken\<close> is the number of rows already in the run.\<close>

fun bounded_extend :: "(nat \<Rightarrow> nat \<Rightarrow> bool) \<Rightarrow> nat \<Rightarrow> u32 \<Rightarrow> nat \<Rightarrow> planned_row list \<Rightarrow> nat" where
  "bounded_extend exceeds max_rows first taken [] = 0"
| "bounded_extend exceeds max_rows first taken (r # rs) =
     (let physical = unat (sat_sub32 (pr_id r) first) + 1;
          requested = taken + 1
      in if max_rows < physical \<or> exceeds physical requested then 0
         else Suc (bounded_extend exceeds max_rows first (Suc taken) rs))"

definition bounded_window :: "planned_row list \<Rightarrow> read_window" where
  "bounded_window run =
     \<lparr>rw_start = pr_id (hd run), rw_count = sat_sub32 (pr_id (last run)) (pr_id (hd run)) + 1\<rparr>"

definition push_run :: "planned_row list \<Rightarrow> nat \<Rightarrow> bounded_plan \<Rightarrow> bounded_plan" where
  "push_run run bytes p =
     p\<lparr>bp_windows := bp_windows p @ [bounded_window run],
       bp_physical_rows := bp_physical_rows p + unat (rw_count (bounded_window run)),
       bp_physical_bytes := bp_physical_bytes p + bytes,
       bp_scatter := bp_scatter p @
         map (\<lambda>r. \<lparr>rs_window_idx = length (bp_windows p), rs_off = pr_id r - pr_id (hd run),
                   rs_pos = pr_pos r\<rparr>) run\<rparr>"

function (sequential) bounded_loop :: "planner \<Rightarrow> nat \<Rightarrow> planned_row list \<Rightarrow> bounded_plan \<Rightarrow> bounded_plan" where
  "bounded_loop pl max_rows [] p = p"
| "bounded_loop pl max_rows (r # rs) p =
     (let k = bounded_extend (pl_exceeds pl) max_rows (pr_id r) 1 rs;
          run = r # take k rs
      in bounded_loop pl max_rows (drop k rs)
           (push_run run (unat (rw_count (bounded_window run)) * bp_row_bytes p) p))"
  by pat_completeness auto
termination
  by (relation "measure (\<lambda>(pl, m, rows, p). length rows)") auto

declare bounded_loop.simps(2) [simp del]

definition plan_bounded ::
  "((planned_row \<Rightarrow> u32) \<Rightarrow> planned_row list \<Rightarrow> planned_row list) \<Rightarrow> planner \<Rightarrow> u32 list \<Rightarrow> bounded_plan" where
  "plan_bounded srt pl ids =
     (let row_bytes = max (pl_row_bytes pl) 1;
          max_rows = max (max (pl_max_window_bytes pl) row_bytes div row_bytes) 1
      in bounded_loop pl max_rows (srt pr_id (number_rows ids)) (empty_plan row_bytes (length ids)))"

subsection \<open>The planner that counts aligned blocks\<close>

record block_range =
  br_start :: nat
  br_end :: nat

definition aligned_blocks_for_row :: "u32 \<Rightarrow> usize \<Rightarrow> usize \<Rightarrow> nat \<Rightarrow> block_range" where
  "aligned_blocks_for_row row_id row_bytes alignment header =
     (let row_start = header + sat_mul (unat row_id) row_bytes;
          row_end = sat_add row_start row_bytes
      in \<lparr>br_start = row_start div alignment, br_end = div_ceil row_end alignment\<rparr>)"

definition aligned_read_bytes_for_rows :: "u32 \<Rightarrow> u32 \<Rightarrow> usize \<Rightarrow> usize \<Rightarrow> nat \<Rightarrow> nat" where
  "aligned_read_bytes_for_rows start_row end_row row_bytes alignment header =
     (let logical_offset = header + sat_mul (unat start_row) row_bytes;
          row_count = unat (sat_sub32 end_row start_row) + 1;
          logical_end = sat_add logical_offset (sat_mul row_count row_bytes);
          aligned_offset = logical_offset div alignment * alignment;
          aligned_end = div_ceil logical_end alignment * alignment
      in aligned_end - aligned_offset)"

text \<open>The inner loop returns how many rows join and the bytes of the last accepted window.\<close>

fun aligned_extend :: "(nat \<Rightarrow> nat \<Rightarrow> bool) \<Rightarrow> usize \<Rightarrow> usize \<Rightarrow> usize \<Rightarrow> nat \<Rightarrow> u32 \<Rightarrow> nat \<Rightarrow> nat \<Rightarrow> nat \<Rightarrow>
    planned_row list \<Rightarrow> nat \<times> nat" where
  "aligned_extend exceeds max_bytes row_bytes alignment header first touched_end touched best [] = (0, best)"
| "aligned_extend exceeds max_bytes row_bytes alignment header first touched_end touched best (r # rs) =
     (let physical = aligned_read_bytes_for_rows first (pr_id r) row_bytes alignment header in
      if max_bytes < physical then (0, best)
      else
        let blocks = aligned_blocks_for_row (pr_id r) row_bytes alignment header;
            extra = br_end blocks - max touched_end (br_start blocks);
            touched' = sat_add touched extra;
            mandatory = sat_mul touched' alignment
        in if mandatory \<noteq> 0 \<and> exceeds physical mandatory then (0, best)
           else let (k, b) = aligned_extend exceeds max_bytes row_bytes alignment header first
                               (max touched_end (br_end blocks)) touched' physical rs
                in (Suc k, b))"

definition aligned_run :: "planner \<Rightarrow> usize \<Rightarrow> usize \<Rightarrow> nat \<Rightarrow> nat \<Rightarrow> planned_row \<Rightarrow> planned_row list \<Rightarrow> nat \<times> nat" where
  "aligned_run pl row_bytes alignment header max_bytes r rs =
     (let blocks = aligned_blocks_for_row (pr_id r) row_bytes alignment header
      in aligned_extend (pl_exceeds pl) max_bytes row_bytes alignment header (pr_id r)
           (br_end blocks) (br_end blocks - br_start blocks)
           (aligned_read_bytes_for_rows (pr_id r) (pr_id r) row_bytes alignment header) rs)"

function (sequential) aligned_loop :: "planner \<Rightarrow> usize \<Rightarrow> usize \<Rightarrow> nat \<Rightarrow> nat \<Rightarrow> planned_row list \<Rightarrow>
    bounded_plan \<Rightarrow> bounded_plan" where
  "aligned_loop pl row_bytes alignment header max_bytes [] p = p"
| "aligned_loop pl row_bytes alignment header max_bytes (r # rs) p =
     (let k = fst (aligned_run pl row_bytes alignment header max_bytes r rs);
          bytes = snd (aligned_run pl row_bytes alignment header max_bytes r rs);
          run = r # take k rs
      in aligned_loop pl row_bytes alignment header max_bytes (drop k rs) (push_run run bytes p))"
  by pat_completeness auto
termination
  by (relation "measure (\<lambda>(pl, rb, al, h, m, rows, p). length rows)") auto

declare aligned_loop.simps(2) [simp del]

definition plan_with_aligned_read_cost ::
  "((planned_row \<Rightarrow> u32) \<Rightarrow> planned_row list \<Rightarrow> planned_row list) \<Rightarrow> planner \<Rightarrow> u32 list \<Rightarrow> usize \<Rightarrow> nat \<Rightarrow>
   bounded_plan" where
  "plan_with_aligned_read_cost srt pl ids alignment_bytes header =
     (let row_bytes = max (pl_row_bytes pl) 1;
          alignment = max alignment_bytes 1;
          max_bytes = max (max (pl_max_window_bytes pl) row_bytes) alignment
      in aligned_loop pl row_bytes alignment header max_bytes (srt pr_id (number_rows ids))
           (empty_plan row_bytes (length ids)))"

text \<open>\<open>bounded_scatter_ranges\<close>: the stretch of the scatter list that belongs to each window.\<close>

fun scatter_ranges :: "read_scatter list \<Rightarrow> nat list \<Rightarrow> nat \<Rightarrow> (nat \<times> nat) list" where
  "scatter_ranges sc [] cursor = []"
| "scatter_ranges sc (w # ws) cursor =
     (let stop = cursor + length (takeWhile (\<lambda>s. rs_window_idx s = w) (drop cursor sc))
      in (cursor, stop) # scatter_ranges sc ws stop)"

definition bounded_scatter_ranges :: "bounded_plan \<Rightarrow> (nat \<times> nat) list" where
  "bounded_scatter_ranges p = scatter_ranges (bp_scatter p) [0..<length (bp_windows p)] 0"

section \<open>Greedy runs\<close>

function (sequential) split_rows :: "(planned_row \<Rightarrow> planned_row list \<Rightarrow> nat) \<Rightarrow> planned_row list \<Rightarrow>
    planned_row list list" where
  "split_rows ext [] = []"
| "split_rows ext (r # rs) = (r # take (ext r rs) rs) # split_rows ext (drop (ext r rs) rs)"
  by pat_completeness auto
termination
  by (relation "measure (\<lambda>(ext, rows). length rows)") auto

text \<open>
  The contract of the test that ends a run: every row that joins the run of \<open>r\<close> satisfies
  \<open>fits\<close> with respect to the first row.
\<close>

locale run_split =
  fixes ext :: "planned_row \<Rightarrow> planned_row list \<Rightarrow> nat"
    and fits :: "u32 \<Rightarrow> u32 \<Rightarrow> bool"
  assumes fits_first: "fits a a"
    and fits_joined: "x \<in> set (take (ext r rs) rs) \<Longrightarrow> fits (pr_id r) (pr_id x)"
begin

lemma concat_split: "concat (split_rows ext rows) = rows"
  by (induction ext rows rule: split_rows.induct) simp_all

lemma split_nonempty: "[] \<notin> set (split_rows ext rows)"
  by (induction ext rows rule: split_rows.induct) simp_all

lemma split_fits:
  assumes "run \<in> set (split_rows ext rows)" "x \<in> set run"
  shows "fits (pr_id (hd run)) (pr_id x)"
proof -
  have "\<forall>run \<in> set (split_rows ext rows). \<forall>x \<in> set run. fits (pr_id (hd run)) (pr_id x)"
  proof (induction "length rows" arbitrary: rows rule: less_induct)
    case less
    show ?case
    proof (cases rows)
      case (Cons r rs)
      then have "\<forall>run \<in> set (split_rows ext (drop (ext r rs) rs)). \<forall>x \<in> set run. fits (pr_id (hd run)) (pr_id x)"
        by (intro less) simp
      then show ?thesis using Cons by (auto simp: fits_first fits_joined)
    qed simp
  qed
  with assms show ?thesis by blast
qed

end

lemma gather_extend_fits:
  "x \<in> set (take (gather_extend g m first prev rs) rs) \<Longrightarrow> unat (sat_sub32 (pr_id x) first) + 1 \<le> m"
  by (induction g m first prev rs rule: gather_extend.induct) (auto simp: Let_def split: if_splits)

lemma bounded_extend_fits:
  "x \<in> set (take (bounded_extend e m first n rs) rs) \<Longrightarrow> unat (sat_sub32 (pr_id x) first) + 1 \<le> m"
  by (induction e m first n rs rule: bounded_extend.induct) (auto simp: Let_def split: if_splits)

lemma aligned_extend_fits:
  "x \<in> set (take (fst (aligned_extend e m rb al h first te t b rs)) rs) \<Longrightarrow>
   aligned_read_bytes_for_rows first (pr_id x) rb al h \<le> m"
  by (induction e m rb al h first te t b rs rule: aligned_extend.induct)
    (auto simp: Let_def split: if_splits prod.splits)

lemma sat_sub32_self [simp]: "sat_sub32 a a = 0"
  by (simp add: sat_sub32_def)

interpretation gather: run_split "\<lambda>r rs. gather_extend g m (pr_id r) (pr_id r) rs"
    "\<lambda>a b. unat (sat_sub32 b a) + 1 \<le> max m 1" for g m
  by unfold_locales (use gather_extend_fits in \<open>force+\<close>)

interpretation bounded: run_split "\<lambda>r rs. bounded_extend e m (pr_id r) 1 rs"
    "\<lambda>a b. unat (sat_sub32 b a) + 1 \<le> max m 1" for e m
  by unfold_locales (use bounded_extend_fits in \<open>force+\<close>)

interpretation aligned: run_split "\<lambda>r rs. fst (aligned_run pl rb al h m r rs)"
    "\<lambda>a b. a = b \<or> aligned_read_bytes_for_rows a b rb al h \<le> m" for pl rb al h m
  by unfold_locales (auto simp: aligned_run_def Let_def dest: aligned_extend_fits)

section \<open>Coverage\<close>

definition op_ok :: "u32 list \<Rightarrow> read_window \<Rightarrow> scatter_op \<Rightarrow> bool" where
  "op_ok ids w op \<longleftrightarrow> so_pos op < length ids \<and>
     unat (rw_start w) + unat (so_off op) = unat (ids ! so_pos op) \<and> unat (so_off op) < unat (rw_count w)"

definition window_ok :: "u32 list \<Rightarrow> read_window \<Rightarrow> bool" where
  "window_ok ids w \<longleftrightarrow> rw_start w \<in> set ids \<and> 0 < unat (rw_count w) \<and>
     (\<exists>i \<in> set ids. unat (rw_start w) + unat (rw_count w) = unat i + 1)"

definition covers :: "u32 list \<Rightarrow> (read_window \<times> scatter_op list) list \<Rightarrow> bool" where
  "covers ids plan \<longleftrightarrow>
     (\<forall>(w, ops) \<in> set plan. window_ok ids w \<and> (\<forall>op \<in> set ops. op_ok ids w op)) \<and>
     mset (map so_pos (concat (map snd plan))) = mset [0..<length ids]"

lemma number_rows_mem: "r \<in> set (number_rows ids) \<longleftrightarrow> pr_pos r < length ids \<and> ids ! pr_pos r = pr_id r"
proof
  assume "r \<in> set (number_rows ids)"
  then show "pr_pos r < length ids \<and> ids ! pr_pos r = pr_id r"
    by (auto simp: number_rows_def in_set_enumerate_eq)
next
  assume a: "pr_pos r < length ids \<and> ids ! pr_pos r = pr_id r"
  then have "(pr_pos r, pr_id r) \<in> set (enumerate 0 ids)" by (auto simp: in_set_enumerate_eq)
  then show "r \<in> set (number_rows ids)" by (force simp: number_rows_def)
qed

lemma pos_number_rows: "map pr_pos (number_rows ids) = [0..<length ids]"
  by (intro nth_equalityI) (auto simp: number_rows_def nth_enumerate_eq)

lemma unat_sub_u32: "(a :: u32) \<le> b \<Longrightarrow> unat (b - a) = unat b - unat a"
  by (simp add: unat_sub word_le_nat_alt)

lemma run_window:
  assumes "run \<noteq> []" "sorted (map pr_id run)" "\<forall>r \<in> set run. unat (pr_id r) < 2 ^ 32 - 1"
  shows "window_of run = bounded_window run"
    "unat (rw_count (window_of run)) = unat (pr_id (last run)) - unat (pr_id (hd run)) + 1"
    "r \<in> set run \<Longrightarrow> pr_id (hd run) \<le> pr_id r \<and> pr_id r \<le> pr_id (last run)"
proof -
  have hl: "pr_id (hd run) \<le> pr_id r \<and> pr_id r \<le> pr_id (last run)" if "r \<in> set run" for r
  proof -
    from that obtain i where i: "i < length run" "run ! i = r" by (auto simp: in_set_conv_nth)
    have "map pr_id run ! 0 \<le> map pr_id run ! i" "map pr_id run ! i \<le> map pr_id run ! (length run - 1)"
      using assms(2) i(1) by (intro sorted_nth_mono; simp)+
    then show ?thesis using i assms(1) by (simp add: hd_conv_nth last_conv_nth)
  qed
  then show "r \<in> set run \<Longrightarrow> pr_id (hd run) \<le> pr_id r \<and> pr_id r \<le> pr_id (last run)" .
  have le: "pr_id (hd run) \<le> pr_id (last run)" using hl assms(1) by (metis hd_in_set)
  then show "window_of run = bounded_window run"
    by (simp add: window_of_def bounded_window_def sat_sub32_def)
  have "unat (pr_id (last run)) < 2 ^ 32 - 1" using assms(1,3) by simp
  then have "unat (pr_id (last run) - pr_id (hd run)) + 1 < 2 ^ 32"
    unfolding unat_sub_u32 [OF le] by simp
  then show "unat (rw_count (window_of run)) = unat (pr_id (last run)) - unat (pr_id (hd run)) + 1"
    using unat_sub_u32 [OF le] by (simp add: window_of_def unat_plus_simple [THEN iffD1] word_le_nat_alt
        unat_word_ariths mod_less)
qed

lemma runs_cover:
  assumes "mset rows = mset (number_rows ids)" "sorted (map pr_id rows)" "concat runs = rows" "[] \<notin> set runs"
    and "\<forall>i \<in> set ids. unat i < 2 ^ 32 - 1"
  shows "covers ids (map (\<lambda>run. (window_of run, scatter_of run)) runs)"
  unfolding covers_def
proof (rule conjI, clarify)
  have rows: "set rows = set (number_rows ids)" using assms(1) by (rule mset_eq_setD)
  fix w ops assume "(w, ops) \<in> set (map (\<lambda>run. (window_of run, scatter_of run)) runs)"
  then obtain run where run: "run \<in> set runs" "w = window_of run" "ops = scatter_of run" by auto
  then obtain as bs where "runs = as @ run # bs" by (auto simp: in_set_conv_decomp)
  then have "rows = concat as @ run @ concat bs" using assms(3) by simp
  then have sorted: "sorted (map pr_id run)" and sub: "set run \<subseteq> set rows"
    using assms(2) by (auto simp: sorted_append)
  have mem: "pr_pos r < length ids \<and> ids ! pr_pos r = pr_id r" if "r \<in> set run" for r
    using that sub rows by (auto simp: number_rows_mem)
  have ne: "run \<noteq> []" using run(1) assms(4) by auto
  have small: "\<forall>r \<in> set run. unat (pr_id r) < 2 ^ 32 - 1" using mem assms(5) by (metis nth_mem)
  note win = run_window [OF ne sorted small]
  have last_hd: "unat (pr_id (hd run)) \<le> unat (pr_id (last run))"
    using win(3) [of "hd run"] ne by (simp add: word_le_nat_alt)
  have "pr_id r \<in> set ids" if "r \<in> set run" for r using mem [OF that] by (metis nth_mem)
  then have "pr_id (hd run) \<in> set ids" "pr_id (last run) \<in> set ids" using ne by simp_all
  then have "window_ok ids w"
    unfolding window_ok_def run(2) win(2) using last_hd
    by (auto simp: window_of_def intro!: bexI [of _ "pr_id (last run)"])
  moreover have "\<forall>op \<in> set ops. op_ok ids w op"
  proof
    fix op assume "op \<in> set ops"
    then obtain r where r: "r \<in> set run" "op = \<lparr>so_pos = pr_pos r, so_off = pr_id r - pr_id (hd run)\<rparr>"
      by (auto simp: run(3) scatter_of_def)
    have "unat (pr_id r - pr_id (hd run)) = unat (pr_id r) - unat (pr_id (hd run))"
      using win(3) [OF r(1)] by (intro unat_sub_u32) simp
    then show "op_ok ids w op"
      using win(3) [OF r(1)] mem [OF r(1)] unfolding op_ok_def run(2) win(2) r(2)
      by (auto simp: window_of_def word_le_nat_alt)
  qed
  ultimately show "window_ok ids w \<and> (\<forall>op \<in> set ops. op_ok ids w op)" ..
next
  have "map so_pos (concat (map snd (map (\<lambda>run. (window_of run, scatter_of run)) runs))) = map pr_pos (concat runs)"
    by (induction runs) (simp_all add: scatter_of_def)
  then show "mset (map so_pos (concat (map snd (map (\<lambda>run. (window_of run, scatter_of run)) runs)))) =
      mset [0..<length ids]"
    using assms(1,3) by (metis mset_map pos_number_rows)
qed

section \<open>The gather plan\<close>

lemma gather_windows_runs:
  "gather_windows opts rb m rows s =
    (let runs = split_rows (\<lambda>r rs. gather_extend (go_max_gap_rows opts) m (pr_id r) (pr_id r) rs) rows
     in (\<lparr>gp_windows = map window_of runs, gp_scatter = map scatter_of runs\<rparr>,
         fold (window_stats opts rb) runs s))"
proof (induction opts rb m rows s rule: gather_windows.induct)
  case (2 opts rb m r rs s)
  then show ?case by (simp add: gather_windows.simps(2) Let_def)
qed simp

definition plan_view :: "gather_plan \<Rightarrow> (read_window \<times> scatter_op list) list" where
  "plan_view p = zip (gp_windows p) (gp_scatter p)"

definition max_window_rows :: "gather_options \<Rightarrow> usize \<Rightarrow> u32 list \<Rightarrow> nat" where
  "max_window_rows opts row_bytes ids =
     (if row_bytes = 0 then max (length ids) 1 else max (go_max_window_bytes opts div row_bytes) 1)"

lemma zip_map_same: "zip (map f xs) (map g xs) = map (\<lambda>x. (f x, g x)) xs"
  by (induction xs) simp_all

lemma build_gather_plan_cover:
  assumes "unstable_sort srt" "go_sort_ids opts" "\<forall>i \<in> set ids. unat i < 2 ^ 32 - 1"
    and "build_gather_plan srt ids rb opts s = (plan, s')"
  shows "covers ids (plan_view plan)" "length (gp_windows plan) = length (gp_scatter plan)"
    "\<forall>w \<in> set (gp_windows plan). unat (rw_count w) \<le> max_window_rows opts rb ids"
proof -
  define rows where "rows = srt pr_id (number_rows ids)"
  define m where "m = max_window_rows opts rb ids"
  define runs where "runs = split_rows (\<lambda>r rs. gather_extend (go_max_gap_rows opts) m (pr_id r) (pr_id r) rs) rows"
  have rows: "mset rows = mset (number_rows ids)" "sorted (map pr_id rows)"
    using assms(1) by (simp_all add: rows_def unstable_sortD)
  have "rows = []" if "ids = []" using that rows(1) by (simp add: number_rows_def)
  then have plan: "plan = \<lparr>gp_windows = map window_of runs, gp_scatter = map scatter_of runs\<rparr>"
    using assms(2,4) by (cases "ids = []")
      (auto simp: build_gather_plan_def Let_def gather_windows_runs runs_def rows_def m_def max_window_rows_def)
  have split: "concat runs = rows" "[] \<notin> set runs"
    by (simp_all add: runs_def gather.concat_split gather.split_nonempty)
  show cov: "covers ids (plan_view plan)"
    using runs_cover [OF rows split assms(3)] by (simp add: plan plan_view_def zip_map_same)
  show "length (gp_windows plan) = length (gp_scatter plan)" by (simp add: plan)
  show "\<forall>w \<in> set (gp_windows plan). unat (rw_count w) \<le> max_window_rows opts rb ids"
  proof
    fix w assume "w \<in> set (gp_windows plan)"
    then obtain run where run: "run \<in> set runs" "w = window_of run" by (auto simp: plan)
    then have "run \<noteq> []" "set run \<subseteq> set rows" using split by auto
    then have "\<forall>r \<in> set run. unat (pr_id r) < 2 ^ 32 - 1"
      using mset_eq_setD [OF rows(1)] assms(3) by (metis number_rows_mem nth_mem subsetD)
    moreover obtain as bs where "runs = as @ run # bs" using run(1) by (auto simp: in_set_conv_decomp)
    then have "rows = concat as @ run @ concat bs" using split(1) by simp
    then have "sorted (map pr_id run)" using rows(2) by (auto simp: sorted_append)
    ultimately have win: "unat (rw_count w) = unat (pr_id (last run)) - unat (pr_id (hd run)) + 1"
        "pr_id (hd run) \<le> pr_id (last run)"
      using run_window(2,3) [OF \<open>run \<noteq> []\<close>] run(2) \<open>run \<noteq> []\<close> by (auto dest: last_in_set)
    have "unat (sat_sub32 (pr_id (last run)) (pr_id (hd run))) + 1 \<le> max m 1"
      using gather.split_fits [OF run(1) [unfolded runs_def]] \<open>run \<noteq> []\<close> by simp
    moreover have "1 \<le> m" by (simp add: m_def max_window_rows_def)
    ultimately show "unat (rw_count w) \<le> max_window_rows opts rb ids"
      using win by (simp add: m_def sat_sub32_def unat_sub_u32)
  qed
qed

text \<open>The gather plan reads what was asked for. For sorted planning, every requested position
  occurs in exactly one scatter operation, that operation names the row of its window that holds
  the requested id, every window starts and ends at a requested row, and no window is longer
  than the configured maximum.\<close>

theorem gather_plan_covers:
  assumes "unstable_sort srt" "go_sort_ids opts" "\<forall>i \<in> set ids. unat i < 2 ^ 32 - 1"
  shows "(let (plan, s') = build_gather_plan srt ids row_bytes opts s
    in covers ids (zip (gp_windows plan) (gp_scatter plan)) \<and>
       length (gp_windows plan) = length (gp_scatter plan) \<and>
       (\<forall>w \<in> set (gp_windows plan). unat (rw_count w) \<le>
          (if row_bytes = 0 then max (length ids) 1 else max (go_max_window_bytes opts div row_bytes) 1)))"
proof -
  obtain plan s' where "build_gather_plan srt ids row_bytes opts s = (plan, s')" by fastforce
  with build_gather_plan_cover [OF assms this] show ?thesis
    by (simp add: plan_view_def max_window_rows_def)
qed

definition gather_stats_zero :: gather_stats where
  "gather_stats_zero = \<lparr>gs_rows_requested = 0, gs_windows_submitted = 0, gs_rows_per_window_sum = 0,
     gs_singleton_windows = 0, gs_range_windows = 0, gs_range_rows_read = 0, gs_logical_bytes = 0,
     gs_physical_bytes = 0, gs_alignment_waste_bytes = 0, gs_overread_rows = 0, gs_scatter_ops = 0\<rparr>"

theorem gather_plan_covers_witness:
  "(let (plan, s') = build_gather_plan sort_key [5, 2, 9, 5] 64 gather_options_default gather_stats_zero
    in covers [5, 2, 9, 5] (zip (gp_windows plan) (gp_scatter plan)) \<and>
       length (gp_windows plan) = length (gp_scatter plan) \<and>
       (\<forall>w \<in> set (gp_windows plan). unat (rw_count w) \<le>
          (if (64 :: nat) = 0 then max (length [5 :: u32, 2, 9, 5]) 1
           else max (go_max_window_bytes gather_options_default div 64) 1)))"
  by (rule gather_plan_covers) (simp_all add: unstable_sort_sort_key gather_options_default_def)

text \<open>The statistics after a run of windows.\<close>

lemma window_stats_fields:
  "gs_windows_submitted (window_stats opts rb run s) = Suc (gs_windows_submitted s)"
  "gs_singleton_windows (window_stats opts rb run s) + gs_range_windows (window_stats opts rb run s) =
     Suc (gs_singleton_windows s + gs_range_windows s)"
  "gs_scatter_ops (window_stats opts rb run s) = gs_scatter_ops s + length run"
  "gs_rows_per_window_sum (window_stats opts rb run s) =
     gs_rows_per_window_sum s + unat (rw_count (window_of run))"
  "gs_physical_bytes (window_stats opts rb run s) + gs_alignment_waste_bytes s =
     gs_physical_bytes s + gs_alignment_waste_bytes (window_stats opts rb run s) + unat (rw_count (window_of run)) * rb"
  "gs_rows_requested (window_stats opts rb run s) = gs_rows_requested s"
  "gs_logical_bytes (window_stats opts rb run s) = gs_logical_bytes s"
proof -
  have "unat (rw_count (window_of run)) * rb \<le>
      div_ceil (unat (rw_count (window_of run)) * rb) (max (go_alignment_bytes opts) 1) * max (go_alignment_bytes opts) 1"
    by (rule div_ceil_mult_ge) simp
  then show "gs_physical_bytes (window_stats opts rb run s) + gs_alignment_waste_bytes s =
     gs_physical_bytes s + gs_alignment_waste_bytes (window_stats opts rb run s) + unat (rw_count (window_of run)) * rb"
    by (simp add: window_stats_def Let_def)
qed (simp_all add: window_stats_def Let_def)

lemma fold_window_stats:
  "let s' = fold (window_stats opts rb) runs s in
    gs_windows_submitted s' = gs_windows_submitted s + length runs \<and>
    gs_singleton_windows s' + gs_range_windows s' = gs_singleton_windows s + gs_range_windows s + length runs \<and>
    gs_scatter_ops s' = gs_scatter_ops s + length (concat runs) \<and>
    gs_rows_per_window_sum s' = gs_rows_per_window_sum s + (\<Sum>run\<leftarrow>runs. unat (rw_count (window_of run))) \<and>
    gs_physical_bytes s' + gs_alignment_waste_bytes s =
      gs_physical_bytes s + gs_alignment_waste_bytes s' + (\<Sum>run\<leftarrow>runs. unat (rw_count (window_of run)) * rb) \<and>
    gs_rows_requested s' = gs_rows_requested s \<and> gs_logical_bytes s' = gs_logical_bytes s"
proof (induction runs arbitrary: s)
  case (Cons run runs)
  show ?case using Cons.IH [of "window_stats opts rb run s"] window_stats_fields [of opts rb run s]
    by (simp add: Let_def)
qed simp

text \<open>The statistics of a gather plan add up: every window is a singleton or a range window, every
  request is scattered once, and the physical bytes are the bytes of all windows plus the
  alignment waste.\<close>

theorem gather_plan_stats:
  assumes "unstable_sort srt" "ids \<noteq> []"
    and "build_gather_plan srt ids row_bytes opts gather_stats_zero = (plan, s)"
  shows "gs_rows_requested s = length ids \<and> gs_scatter_ops s = length ids \<and>
    gs_logical_bytes s = length ids * row_bytes \<and>
    gs_windows_submitted s = length (gp_windows plan) \<and>
    gs_singleton_windows s + gs_range_windows s = gs_windows_submitted s \<and>
    gs_rows_per_window_sum s = (\<Sum>w\<leftarrow>gp_windows plan. unat (rw_count w)) \<and>
    gs_physical_bytes s = (\<Sum>w\<leftarrow>gp_windows plan. unat (rw_count w) * row_bytes) + gs_alignment_waste_bytes s"
proof -
  define rows where "rows = (if go_sort_ids opts then srt pr_id (number_rows ids) else number_rows ids)"
  define s1 where "s1 = gather_stats_zero\<lparr>gs_rows_requested := length ids, gs_logical_bytes := length ids * row_bytes\<rparr>"
  define m where "m = max_window_rows opts row_bytes ids"
  define runs where "runs = split_rows (\<lambda>r rs. gather_extend (go_max_gap_rows opts) m (pr_id r) (pr_id r) rs) rows"
  have "build_gather_plan srt ids row_bytes opts gather_stats_zero = gather_windows opts row_bytes m rows s1"
    using assms(2) by (simp add: build_gather_plan_def rows_def s1_def m_def max_window_rows_def Let_def
        gather_stats_zero_def)
  then have p: "plan = \<lparr>gp_windows = map window_of runs, gp_scatter = map scatter_of runs\<rparr>"
      "s = fold (window_stats opts row_bytes) runs s1"
    using assms(3) by (auto simp: gather_windows_runs Let_def runs_def)
  have "mset rows = mset (number_rows ids)"
    using assms(1) by (simp add: rows_def unstable_sortD)
  then have "length rows = length ids"
    by (metis length_map length_upt minus_nat.diff_0 pos_number_rows size_mset)
  then have len: "length (concat runs) = length ids" by (simp add: runs_def gather.concat_split)
  from fold_window_stats [of opts row_bytes runs s1] len show ?thesis
    by (simp add: p Let_def s1_def gather_stats_zero_def comp_def)
qed

theorem gather_plan_stats_witness:
  "(let (plan, s) = build_gather_plan sort_key [5, 2, 6] 64 gather_options_default gather_stats_zero
    in gs_scatter_ops s = 3 \<and> gs_singleton_windows s + gs_range_windows s = gs_windows_submitted s)"
proof -
  obtain plan s where b: "build_gather_plan sort_key [5, 2, 6] 64 gather_options_default gather_stats_zero = (plan, s)"
    by fastforce
  from gather_plan_stats [OF unstable_sort_sort_key _ b] show ?thesis by (simp add: b)
qed

section \<open>The bounded plans\<close>

text \<open>A plan as pushed run by run; \<open>bounded_view\<close> reads it back through the scatter ranges.\<close>

definition tagged :: "nat \<Rightarrow> planned_row list \<Rightarrow> read_scatter list" where
  "tagged i run = map (\<lambda>r. \<lparr>rs_window_idx = i, rs_off = pr_id r - pr_id (hd run), rs_pos = pr_pos r\<rparr>) run"

definition bounded_view :: "bounded_plan \<Rightarrow> (read_window \<times> scatter_op list) list" where
  "bounded_view p = map (\<lambda>(w, (a, b)). (w, map (\<lambda>s. \<lparr>so_pos = rs_pos s, so_off = rs_off s\<rparr>)
       (take (b - a) (drop a (bp_scatter p))))) (zip (bp_windows p) (bounded_scatter_ranges p))"

definition runs_plan :: "planned_row list list \<Rightarrow> bounded_plan \<Rightarrow> bool" where
  "runs_plan runs p \<longleftrightarrow> bp_windows p = map bounded_window runs \<and>
     bp_scatter p = concat (map (\<lambda>(i, run). tagged i run) (enumerate 0 runs)) \<and>
     bp_physical_rows p = (\<Sum>run\<leftarrow>runs. unat (rw_count (bounded_window run)))"

lemma push_run_plan: "runs_plan runs p \<Longrightarrow> runs_plan (runs @ [run]) (push_run run b p)"
  by (simp add: runs_plan_def push_run_def tagged_def enumerate_append_eq)

lemma empty_plan_runs: "runs_plan [] (empty_plan rb n)"
  by (simp add: runs_plan_def empty_plan_def)

lemma bounded_loop_plan:
  "runs_plan done p \<Longrightarrow>
   runs_plan (done @ split_rows (\<lambda>r rs. bounded_extend (pl_exceeds pl) m (pr_id r) 1 rs) rows) (bounded_loop pl m rows p) \<and>
   (bp_physical_bytes p = bp_physical_rows p * bp_row_bytes p \<longrightarrow>
     bp_physical_bytes (bounded_loop pl m rows p) =
       bp_physical_rows (bounded_loop pl m rows p) * bp_row_bytes (bounded_loop pl m rows p)) \<and>
   bp_requested_rows (bounded_loop pl m rows p) = bp_requested_rows p"
proof (induction pl m rows p arbitrary: "done" rule: bounded_loop.induct)
  case (2 pl m r rs p)
  define run where "run = r # take (bounded_extend (pl_exceeds pl) m (pr_id r) 1 rs) rs"
  define p1 where "p1 = push_run run (unat (rw_count (bounded_window run)) * bp_row_bytes p) p"
  have step: "bounded_loop pl m (r # rs) p =
      bounded_loop pl m (drop (bounded_extend (pl_exceeds pl) m (pr_id r) 1 rs) rs) p1"
    by (simp add: bounded_loop.simps(2) Let_def run_def p1_def)
  have p1: "runs_plan (done @ [run]) p1" unfolding p1_def by (rule push_run_plan [OF "2.prems"])
  have bytes: "bp_physical_bytes p = bp_physical_rows p * bp_row_bytes p \<Longrightarrow>
      bp_physical_bytes p1 = bp_physical_rows p1 * bp_row_bytes p1" "bp_requested_rows p1 = bp_requested_rows p"
    by (simp_all add: p1_def push_run_def algebra_simps)
  from "2.IH" [OF refl run_def, of "done @ [run]"] p1 bytes step show ?case
    by (simp add: p1_def run_def)
qed simp

lemma aligned_loop_plan:
  "runs_plan done p \<Longrightarrow>
   runs_plan (done @ split_rows (\<lambda>r rs. fst (aligned_run pl rb al h m r rs)) rows) (aligned_loop pl rb al h m rows p)"
proof (induction pl rb al h m rows p arbitrary: "done" rule: aligned_loop.induct)
  case (2 pl rb al h m r rs p)
  let ?run = "r # take (fst (aligned_run pl rb al h m r rs)) rs"
  have "runs_plan (done @ [?run]) (push_run ?run (snd (aligned_run pl rb al h m r rs)) p)"
    by (rule push_run_plan [OF "2.prems"])
  from "2.IH" [OF refl refl refl this] show ?case by (simp add: aligned_loop.simps(2) Let_def)
qed simp

lemma takeWhile_none: "\<forall>x \<in> set xs. \<not> P x \<Longrightarrow> takeWhile P xs = []"
  by (cases xs) auto

lemma scatter_ranges_runs:
  assumes "length pre = cursor"
  shows "map (\<lambda>(a, b). take (b - a) (drop a (pre @ concat (map (\<lambda>(i, run). tagged i run) (enumerate n runs)))))
      (scatter_ranges (pre @ concat (map (\<lambda>(i, run). tagged i run) (enumerate n runs))) [n..<n + length runs] cursor) =
    map (\<lambda>(i, run). tagged i run) (enumerate n runs)"
  using assms
proof (induction runs arbitrary: n pre cursor)
  case (Cons run runs)
  let ?rest = "concat (map (\<lambda>(i, run). tagged i run) (enumerate (Suc n) runs))"
  have other: "\<forall>s \<in> set ?rest. rs_window_idx s \<noteq> n"
    by (auto simp: tagged_def in_set_enumerate_eq)
  have "takeWhile (\<lambda>s. rs_window_idx s = n) (tagged n run @ ?rest) = tagged n run"
  proof -
    have "takeWhile (\<lambda>s. rs_window_idx s = n) ?rest = []"
      by (rule takeWhile_none [OF other])
    moreover have "\<forall>s \<in> set (tagged n run). rs_window_idx s = n" by (auto simp: tagged_def)
    ultimately show ?thesis by (simp add: takeWhile_append2)
  qed
  moreover have "[n..<n + length (run # runs)] = n # [Suc n..<Suc n + length runs]"
    by (subst upt_conv_Cons) simp_all
  moreover have "map (\<lambda>(a, b). take (b - a) (drop a ((pre @ tagged n run) @ ?rest)))
      (scatter_ranges ((pre @ tagged n run) @ ?rest) [Suc n..<Suc n + length runs] (cursor + length (tagged n run))) =
    map (\<lambda>(i, run). tagged i run) (enumerate (Suc n) runs)"
    using Cons.prems by (intro Cons.IH) simp
  ultimately show ?case using Cons.prems by (simp add: Let_def)
qed simp

lemma length_scatter_ranges [simp]: "length (scatter_ranges sc ws c) = length ws"
  by (induction sc ws c rule: scatter_ranges.induct) (simp_all add: Let_def)

lemma bounded_view_runs:
  assumes "runs_plan runs p"
  shows "bounded_view p = map (\<lambda>run. (bounded_window run, scatter_of run)) runs"
proof -
  have r: "map (\<lambda>(a, b). take (b - a) (drop a (bp_scatter p))) (bounded_scatter_ranges p) =
      map (\<lambda>(i, run). tagged i run) (enumerate 0 runs)"
    using scatter_ranges_runs [of "[]" 0 0 runs] assms
    by (simp add: runs_plan_def bounded_scatter_ranges_def)
  have "bounded_view p = zip (bp_windows p) (map (map (\<lambda>s. \<lparr>so_pos = rs_pos s, so_off = rs_off s\<rparr>))
      (map (\<lambda>(a, b). take (b - a) (drop a (bp_scatter p))) (bounded_scatter_ranges p)))"
    by (simp add: bounded_view_def zip_map2 comp_def case_prod_unfold)
  also have "\<dots> = map (\<lambda>run. (bounded_window run, scatter_of run)) runs"
  proof -
    have "map (map (\<lambda>s. \<lparr>so_pos = rs_pos s, so_off = rs_off s\<rparr>)) (map (\<lambda>(i, run). tagged i run) (enumerate n runs)) =
        map scatter_of runs" for n
      by (induction runs arbitrary: n) (simp_all add: tagged_def scatter_of_def)
    then show ?thesis using assms unfolding r by (simp only: runs_plan_def zip_map_same)
  qed
  finally show ?thesis .
qed

lemma sorted_run:
  assumes "concat runs = rows" "sorted (map pr_id rows)" "run \<in> set runs"
  shows "sorted (map pr_id run)" "set run \<subseteq> set rows"
proof -
  obtain as bs where "runs = as @ run # bs" using assms(3) by (auto simp: in_set_conv_decomp)
  then have "rows = concat as @ run @ concat bs" using assms(1) by simp
  then show "sorted (map pr_id run)" "set run \<subseteq> set rows" using assms(2) by (auto simp: sorted_append)
qed

lemma runs_plan_covers:
  assumes "runs_plan runs p" "unstable_sort srt" "\<forall>i \<in> set ids. unat i < 2 ^ 32 - 1"
    and "concat runs = srt pr_id (number_rows ids)" "[] \<notin> set runs"
  shows "covers ids (bounded_view p)"
    "run \<in> set runs \<Longrightarrow> unat (rw_count (bounded_window run)) =
       unat (sat_sub32 (pr_id (last run)) (pr_id (hd run))) + 1"
proof -
  let ?rows = "srt pr_id (number_rows ids)"
  have rows: "mset ?rows = mset (number_rows ids)" "sorted (map pr_id ?rows)"
    using assms(2) by (simp_all add: unstable_sortD)
  have small: "\<forall>r \<in> set run. unat (pr_id r) < 2 ^ 32 - 1" if "run \<in> set runs" for run
    using sorted_run(2) [OF assms(4) rows(2) that] mset_eq_setD [OF rows(1)] assms(3)
    by (metis number_rows_mem nth_mem subsetD)
  have win: "window_of run = bounded_window run"
      "unat (rw_count (bounded_window run)) = unat (sat_sub32 (pr_id (last run)) (pr_id (hd run))) + 1"
    if "run \<in> set runs" for run
  proof -
    have ne: "run \<noteq> []" using that assms(5) by auto
    note w = run_window [OF ne sorted_run(1) [OF assms(4) rows(2) that] small [OF that]]
    show "window_of run = bounded_window run" by (rule w(1))
    have "pr_id (hd run) \<le> pr_id (last run)" using w(3) [of "hd run"] ne by simp
    then show "unat (rw_count (bounded_window run)) = unat (sat_sub32 (pr_id (last run)) (pr_id (hd run))) + 1"
      using w(1,2) by (simp add: sat_sub32_def unat_sub_u32)
  qed
  show "run \<in> set runs \<Longrightarrow> unat (rw_count (bounded_window run)) =
      unat (sat_sub32 (pr_id (last run)) (pr_id (hd run))) + 1" by (rule win(2))
  have "map (\<lambda>run. (bounded_window run, scatter_of run)) runs = map (\<lambda>run. (window_of run, scatter_of run)) runs"
    using win(1) by simp
  then show "covers ids (bounded_view p)"
    using runs_cover [OF rows assms(4,5,3)] by (simp only: bounded_view_runs [OF assms(1)])
qed

text \<open>The bounded read plan covers the request for every read-amplification test: read through the
  scatter ranges, every requested position takes exactly the requested row, no window exceeds the
  row limit, and the planned physical bytes are the rows of all windows times the row size.\<close>

theorem bounded_plan_covers:
  assumes "unstable_sort srt" "\<forall>i \<in> set ids. unat i < 2 ^ 32 - 1"
  shows "(let p = plan_bounded srt pl ids; rb = max (pl_row_bytes pl) 1 in
    covers ids (bounded_view p) \<and> bp_requested_rows p = length ids \<and>
    (\<forall>w \<in> set (bp_windows p). unat (rw_count w) \<le> max (max (pl_max_window_bytes pl) rb div rb) 1) \<and>
    bp_physical_bytes p = bp_physical_rows p * bp_row_bytes p \<and>
    bp_physical_rows p = (\<Sum>w\<leftarrow>bp_windows p. unat (rw_count w)))"
proof -
  define rb where "rb = max (pl_row_bytes pl) 1"
  define m where "m = max (max (pl_max_window_bytes pl) rb div rb) 1"
  define runs where "runs = split_rows (\<lambda>r rs. bounded_extend (pl_exceeds pl) m (pr_id r) 1 rs) (srt pr_id (number_rows ids))"
  define p where "p = plan_bounded srt pl ids"
  have p: "p = bounded_loop pl m (srt pr_id (number_rows ids)) (empty_plan rb (length ids))"
    by (simp add: p_def plan_bounded_def Let_def rb_def m_def)
  have loop: "runs_plan runs p" "bp_physical_bytes p = bp_physical_rows p * bp_row_bytes p"
      "bp_requested_rows p = length ids"
    using bounded_loop_plan [OF empty_plan_runs, of pl m "srt pr_id (number_rows ids)" rb "length ids"]
    by (simp_all add: p runs_def empty_plan_def)
  have split: "concat runs = srt pr_id (number_rows ids)" "[] \<notin> set runs"
    unfolding runs_def by (rule bounded.concat_split bounded.split_nonempty)+
  note cov = runs_plan_covers [OF loop(1) assms split]
  have "unat (rw_count (bounded_window run)) \<le> m" if "run \<in> set runs" for run
  proof -
    have "last run \<in> set run" using that split(2) by (cases run rule: rev_cases) auto
    then show ?thesis using bounded.split_fits [OF that [unfolded runs_def], of "last run"] cov(2) [OF that]
      by (simp add: m_def)
  qed
  then have "\<forall>w \<in> set (bp_windows p). unat (rw_count w) \<le> m" using loop(1) by (auto simp: runs_plan_def)
  moreover have "bp_physical_rows p = (\<Sum>w\<leftarrow>bp_windows p. unat (rw_count w))"
    using loop(1) by (simp add: runs_plan_def comp_def)
  ultimately show ?thesis using cov(1) loop(2,3) unfolding Let_def p_def [symmetric] rb_def [symmetric] m_def by blast
qed

definition sample_planner :: planner where
  "sample_planner = \<lparr>pl_row_bytes = 16, pl_max_window_bytes = 8192, pl_exceeds = (\<lambda>a b. 3 * b < 2 * a)\<rparr>"

theorem bounded_plan_covers_witness:
  "(let p = plan_bounded sort_key sample_planner [7, 3, 4]; rb = max (pl_row_bytes sample_planner) 1 in
    covers [7, 3, 4] (bounded_view p) \<and> bp_requested_rows p = length [7 :: u32, 3, 4] \<and>
    (\<forall>w \<in> set (bp_windows p). unat (rw_count w) \<le>
       max (max (pl_max_window_bytes sample_planner) rb div rb) 1) \<and>
    bp_physical_bytes p = bp_physical_rows p * bp_row_bytes p \<and>
    bp_physical_rows p = (\<Sum>w\<leftarrow>bp_windows p. unat (rw_count w)))"
  by (rule bounded_plan_covers) (simp_all add: unstable_sort_sort_key)

text \<open>The planner with aligned read costs covers the request too, and a window that joins several
  different rows never costs more than the window budget in aligned bytes.\<close>

theorem aligned_plan_covers:
  assumes "unstable_sort srt" "\<forall>i \<in> set ids. unat i < 2 ^ 32 - 1"
  shows "(let p = plan_with_aligned_read_cost srt pl ids al h;
      rb = max (pl_row_bytes pl) 1; a = max al 1; budget = max (max (pl_max_window_bytes pl) rb) a in
    covers ids (bounded_view p) \<and>
    (\<forall>w \<in> set (bp_windows p). 1 < rw_count w \<longrightarrow>
       aligned_read_bytes_for_rows (rw_start w) (rw_start w + (rw_count w - 1)) rb a h \<le> budget))"
proof -
  define rb where "rb = max (pl_row_bytes pl) 1"
  define a where "a = max al 1"
  define m where "m = max (max (pl_max_window_bytes pl) rb) a"
  define runs where "runs = split_rows (\<lambda>r rs. fst (aligned_run pl rb a h m r rs)) (srt pr_id (number_rows ids))"
  define p where "p = plan_with_aligned_read_cost srt pl ids al h"
  have "p = aligned_loop pl rb a h m (srt pr_id (number_rows ids)) (empty_plan rb (length ids))"
    by (simp add: p_def plan_with_aligned_read_cost_def Let_def rb_def m_def a_def)
  then have loop: "runs_plan runs p"
    using aligned_loop_plan [OF empty_plan_runs, of pl rb a h m "srt pr_id (number_rows ids)" rb "length ids"]
    by (simp add: runs_def)
  have split: "concat runs = srt pr_id (number_rows ids)" "[] \<notin> set runs"
    unfolding runs_def by (rule aligned.concat_split aligned.split_nonempty)+
  note cov = runs_plan_covers [OF loop assms split]
  have "aligned_read_bytes_for_rows (rw_start w) (rw_start w + (rw_count w - 1)) rb a h \<le> m"
    if w: "w \<in> set (bp_windows p)" "1 < rw_count w" for w
  proof -
    from w(1) loop obtain run where run: "run \<in> set runs" "w = bounded_window run" by (auto simp: runs_plan_def)
    have "last run \<in> set run" using run(1) split(2) by (cases run rule: rev_cases) auto
    then have fits: "pr_id (hd run) = pr_id (last run) \<or> aligned_read_bytes_for_rows (pr_id (hd run)) (pr_id (last run)) rb a h \<le> m"
      using aligned.split_fits [OF run(1) [unfolded runs_def]] by blast
    have "pr_id (hd run) < pr_id (last run)"
    proof (rule ccontr)
      assume "\<not> pr_id (hd run) < pr_id (last run)"
      then have "sat_sub32 (pr_id (last run)) (pr_id (hd run)) = 0" by (auto simp: sat_sub32_def)
      then show False using w(2) by (simp add: run(2) bounded_window_def)
    qed
    then have "rw_start w + (rw_count w - 1) = pr_id (last run)" "pr_id (hd run) \<noteq> pr_id (last run)"
      by (auto simp: run(2) bounded_window_def sat_sub32_def)
    then show ?thesis using fits by (simp add: run(2) bounded_window_def)
  qed
  then show ?thesis using cov(1) unfolding Let_def p_def [symmetric] rb_def [symmetric] a_def [symmetric] m_def by blast
qed

theorem aligned_plan_covers_witness:
  "(let p = plan_with_aligned_read_cost sort_key sample_planner [900, 3, 4] 4096 8;
      rb = max (pl_row_bytes sample_planner) 1; a = max 4096 1;
      budget = max (max (pl_max_window_bytes sample_planner) rb) a in
    covers [900, 3, 4] (bounded_view p) \<and>
    (\<forall>w \<in> set (bp_windows p). 1 < rw_count w \<longrightarrow>
       aligned_read_bytes_for_rows (rw_start w) (rw_start w + (rw_count w - 1)) rb a 8 \<le> budget))"
  by (rule aligned_plan_covers) (simp_all add: unstable_sort_sort_key)

end
