(* ===== verification/PointStore.thy ===== *)
theory PointStore
  imports ReadPlan Float32
begin

text \<open>
  The contract of a \<open>PointStore\<close> (\<^verbatim>\<open>ForgeANN/src/forgeann/point_store.rs\<close>) and the code the
  stores share: the loop that coalesces consecutive ids into range reads, the loop that reads
  the windows of a gather plan and scatters their rows. An output buffer is the list of its
  values; a read returns the buffer as it leaves it.
\<close>

section \<open>Buffers\<close>

definition slice :: "nat \<Rightarrow> nat \<Rightarrow> 'a list \<Rightarrow> 'a list" where
  "slice a b xs = take (b - a) (drop a xs)"

definition put_slice :: "nat \<Rightarrow> 'a list \<Rightarrow> 'a list \<Rightarrow> 'a list" where
  "put_slice a ys xs = take a xs @ ys @ drop (a + length ys) xs"

text \<open>A matrix of rows of one width, stored row after row.\<close>

definition rows_of :: "nat \<Rightarrow> nat \<Rightarrow> 'a list \<Rightarrow> 'a list list" where
  "rows_of n w xs = map (\<lambda>i. slice (i * w) (i * w + w) xs) [0..<n]"

lemma length_slice: "b \<le> length xs \<Longrightarrow> length (slice a b xs) = b - a"
  by (simp add: slice_def)

lemma length_put_slice: "a + length ys \<le> length xs \<Longrightarrow> length (put_slice a ys xs) = length xs"
  by (simp add: put_slice_def)

lemma length_concat_rows: "\<forall>r \<in> set rs. length r = w \<Longrightarrow> length (concat rs) = length rs * w"
  by (induction rs) simp_all

lemma concat_rows_split:
  assumes "i < length rs" "\<forall>r \<in> set rs. length r = w"
  shows "concat rs = concat (take i rs) @ rs ! i @ concat (drop (Suc i) rs)"
    "length (concat (take i rs)) = i * w" "length (rs ! i) = w"
proof -
  show "concat rs = concat (take i rs) @ rs ! i @ concat (drop (Suc i) rs)"
    using id_take_nth_drop [OF assms(1)] by (metis concat.simps(2) concat_append)
  have "\<forall>r \<in> set (take i rs). length r = w" using assms(2) by (auto dest: in_set_takeD)
  then show "length (concat (take i rs)) = i * w" using length_concat_rows [of "take i rs" w] assms(1) by simp
  show "length (rs ! i) = w" using assms by simp
qed

lemma slice_row:
  assumes "i < length rs" "\<forall>r \<in> set rs. length r = w"
  shows "slice (i * w) (i * w + w) (concat rs) = rs ! i"
  using concat_rows_split [OF assms] by (simp add: slice_def)

lemma put_slice_row:
  assumes "i < length rs" "\<forall>r \<in> set rs. length r = w" "length r = w"
  shows "put_slice (i * w) r (concat rs) = concat (rs[i := r])"
proof -
  have "put_slice (i * w) r (concat rs) = concat (take i rs) @ r @ concat (drop (Suc i) rs)"
    using concat_rows_split [OF assms(1,2)] assms(3) by (simp add: put_slice_def)
  also have "\<dots> = concat (rs[i := r])" using assms(1) by (simp add: upd_conv_take_nth_drop)
  finally show ?thesis .
qed

lemma rows_of_props:
  assumes "length xs = n * w"
  shows "length (rows_of n w xs) = n" "\<forall>r \<in> set (rows_of n w xs). length r = w" "concat (rows_of n w xs) = xs"
proof -
  show "length (rows_of n w xs) = n" by (simp add: rows_of_def)
  show "\<forall>r \<in> set (rows_of n w xs). length r = w"
  proof
    fix r assume "r \<in> set (rows_of n w xs)"
    then obtain i where i: "i < n" "r = slice (i * w) (i * w + w) xs" by (auto simp: rows_of_def)
    have "Suc i * w \<le> n * w" using i(1) by (intro mult_le_mono1) simp
    then show "length r = w" using i(2) assms by (simp add: length_slice)
  qed
  show "concat (rows_of n w xs) = xs"
    using assms
  proof (induction n arbitrary: xs)
    case (Suc n)
    have "rows_of (Suc n) w xs = take w xs # rows_of n w (drop w xs)"
      unfolding rows_of_def slice_def
      by (simp add: upt_conv_Cons map_Suc_upt [symmetric] comp_def algebra_simps del: upt_Suc)
    moreover have "concat (rows_of n w (drop w xs)) = drop w xs" using Suc by simp
    ultimately show ?case by simp
  qed (simp add: rows_of_def)
qed

section \<open>Coalesced reads\<close>

definition sat_succ32 :: "u32 \<Rightarrow> u32" where
  "sat_succ32 a = (if a = - 1 then a else a + 1)"

fun run_len :: "u32 \<Rightarrow> u32 list \<Rightarrow> nat" where
  "run_len prev [] = 0"
| "run_len prev (x # xs) = (if x = sat_succ32 prev then Suc (run_len x xs) else 0)"

type_synonym range_reader = "u32 \<Rightarrow> usize \<Rightarrow> f32 list \<Rightarrow> f32 list result"

text \<open>
  The loop of \<open>read_points_into\<close>: \<open>pos\<close> is \<open>run_start\<close>; the remaining ids follow. The variant
  with statistics counts singleton and range reads.
\<close>

function (sequential) read_runs :: "range_reader \<Rightarrow> usize \<Rightarrow> nat \<Rightarrow> u32 list \<Rightarrow> f32 list \<Rightarrow> f32 list result" where
  "read_runs rr dim pos [] out = Inr out"
| "read_runs rr dim pos (x # xs) out =
     (let k = run_len x xs;
          out_start = pos * dim;
          out_end = (pos + Suc k) * dim
      in if length out < out_end then Inl (Panic ''range end index out of range'')
         else
           (case rr x (Suc k) (slice out_start out_end out) of
              Inl f \<Rightarrow> Inl f
            | Inr rows \<Rightarrow> read_runs rr dim (pos + Suc k) (drop k xs) (put_slice out_start rows out)))"
  by pat_completeness auto
termination
  by (relation "measure (\<lambda>(rr, dim, pos, ids, out). length ids)") auto

declare read_runs.simps(2) [simp del]

definition count_run :: "nat \<Rightarrow> batch_stats \<Rightarrow> batch_stats" where
  "count_run n s =
     (if 1 < n
      then s\<lparr>bs_range_calls := bs_range_calls s + 1, bs_range_rows_read := bs_range_rows_read s + n\<rparr>
      else s\<lparr>bs_point_calls := bs_point_calls s + 1\<rparr>)"

function (sequential) read_runs_stats :: "range_reader \<Rightarrow> usize \<Rightarrow> nat \<Rightarrow> u32 list \<Rightarrow> f32 list \<Rightarrow>
    batch_stats \<Rightarrow> (f32 list \<times> batch_stats) result" where
  "read_runs_stats rr dim pos [] out s = Inr (out, s)"
| "read_runs_stats rr dim pos (x # xs) out s =
     (let k = run_len x xs;
          out_start = pos * dim;
          out_end = (pos + Suc k) * dim
      in if length out < out_end then Inl (Panic ''range end index out of range'')
         else
           (case rr x (Suc k) (slice out_start out_end out) of
              Inl f \<Rightarrow> Inl f
            | Inr rows \<Rightarrow> read_runs_stats rr dim (pos + Suc k) (drop k xs) (put_slice out_start rows out)
                            (count_run (Suc k) s)))"
  by pat_completeness auto
termination
  by (relation "measure (\<lambda>(rr, dim, pos, ids, out, s). length ids)") auto

declare read_runs_stats.simps(2) [simp del]

definition matrix_mismatch :: fault where
  "matrix_mismatch = Err (Index ''Point matrix size mismatch'')"

definition read_points_coalesced :: "range_reader \<Rightarrow> usize \<Rightarrow> u32 list \<Rightarrow> f32 list \<Rightarrow> f32 list result" where
  "read_points_coalesced rr dim ids out =
     (if ids = [] then Inr out
      else if length out \<noteq> sat_mul (length ids) dim then Inl matrix_mismatch
      else read_runs rr dim 0 ids out)"

definition read_points_coalesced_stats :: "range_reader \<Rightarrow> usize \<Rightarrow> u32 list \<Rightarrow> f32 list \<Rightarrow> batch_stats \<Rightarrow>
    (f32 list \<times> batch_stats) result" where
  "read_points_coalesced_stats rr dim ids out s =
     (if ids = [] then Inr (out, s)
      else if length out \<noteq> sat_mul (length ids) dim then Inl matrix_mismatch
      else read_runs_stats rr dim 0 ids out (s\<lparr>bs_bytes_read := bs_bytes_read s + length ids * dim * 4\<rparr>))"

section \<open>Windowed reads\<close>

fun scatter_rows :: "usize \<Rightarrow> f32 list \<Rightarrow> scatter_op list \<Rightarrow> f32 list \<Rightarrow> f32 list result" where
  "scatter_rows width win [] out = Inr out"
| "scatter_rows width win (op # ops) out =
     (let src = unat (so_off op) * width; dst = so_pos op * width in
      if length win < src + width \<or> length out < dst + width
      then Inl (Panic ''range end index out of range'')
      else scatter_rows width win ops (put_slice dst (slice src (src + width) win) out))"

text \<open>
  The loop over the windows of a plan. The window buffer is reused: \<open>buf\<close> is what the previous
  window left in it.
\<close>

fun read_windows :: "range_reader \<Rightarrow> usize \<Rightarrow> (read_window \<times> scatter_op list) list \<Rightarrow> f32 list \<Rightarrow>
    f32 list \<Rightarrow> f32 list result" where
  "read_windows rr dim [] buf out = Inr out"
| "read_windows rr dim ((w, ops) # ws) buf out =
     (let rows = unat (rw_count w); elems = rows * dim in
      res_bind (rr (rw_start w) rows (take elems buf)) (\<lambda>win.
      res_bind (scatter_rows dim win ops out) (\<lambda>out'.
        read_windows rr dim ws (put_slice 0 win buf) out')))"

definition windows_buffer :: "usize \<Rightarrow> read_window list \<Rightarrow> f32 list" where
  "windows_buffer dim ws = replicate (foldr max (map (\<lambda>w. unat (rw_count w)) ws) 0 * dim) f32_zero"

definition read_points_windowed ::
  "((planned_row \<Rightarrow> u32) \<Rightarrow> planned_row list \<Rightarrow> planned_row list) \<Rightarrow> range_reader \<Rightarrow> usize \<Rightarrow> usize \<Rightarrow>
   u32 list \<Rightarrow> f32 list \<Rightarrow> gather_options \<Rightarrow> gather_stats \<Rightarrow> (f32 list \<times> gather_stats) result" where
  "read_points_windowed srt rr dim row_bytes ids out opts s =
     (if ids = [] then Inr (out, s)
      else if length out \<noteq> sat_mul (length ids) dim then Inl matrix_mismatch
      else
        let (plan, s') = build_gather_plan srt ids row_bytes opts s
        in res_bind (read_windows rr dim (zip (gp_windows plan) (gp_scatter plan))
                       (windows_buffer dim (gp_windows plan)) out)
             (\<lambda>out'. Inr (out', s')))"

section \<open>The contract\<close>

lemma run_len_ids:
  "\<forall>y \<in> set (x # xs). unat y < 2 ^ 32 - 1 \<Longrightarrow>
   x # take (run_len x xs) xs = map (\<lambda>i. x + word_of_nat i) [0..<Suc (run_len x xs)] \<and>
   unat x + run_len x xs < 2 ^ 32 - 1"
proof (induction xs arbitrary: x)
  case (Cons y ys)
  show ?case
  proof (cases "y = sat_succ32 x")
    case True
    have "x \<noteq> - 1"
    proof
      assume "x = - 1"
      then have "unat x = 2 ^ 32 - 1" by (simp add: unsigned_minus_1_eq_mask mask_eq_exp_minus_1)
      with Cons.prems show False by simp
    qed
    with True have y: "y = x + 1" by (simp add: sat_succ32_def)
    then have uy: "unat y = unat x + 1"
      using Cons.prems by (simp add: unat_word_ariths)
    have "y # take (run_len y ys) ys = map (\<lambda>i. y + word_of_nat i) [0..<Suc (run_len y ys)]"
        "unat y + run_len y ys < 2 ^ 32 - 1" using Cons by auto
    moreover have "map (\<lambda>i. y + word_of_nat i) [0..<Suc (run_len y ys)] =
        map (\<lambda>i. x + word_of_nat i) [Suc 0..<Suc (Suc (run_len y ys))]"
      unfolding map_Suc_upt [symmetric] by (simp add: y algebra_simps del: upt_Suc)
    moreover have "[0..<Suc (Suc (run_len y ys))] = 0 # [Suc 0..<Suc (Suc (run_len y ys))]"
      by (rule upt_conv_Cons) simp
    moreover have "run_len x (y # ys) = Suc (run_len y ys)" using True by simp
    ultimately show ?thesis using uy by (simp del: upt_Suc run_len.simps)
  qed (use Cons.prems in simp)
qed simp

lemma run_len_le: "run_len x xs \<le> length xs"
  by (induction x xs rule: run_len.induct) auto

lemma fold_set_rows:
  assumes "length rs = n" "set ps = {0..<n}"
  shows "fold (\<lambda>p rs. rs[p := f p]) ps rs = map f [0..<n]"
proof (rule nth_equalityI)
  have len: "length (fold (\<lambda>p rs. rs[p := f p]) ps rs) = length rs" for ps and rs :: "'a list"
    by (induction ps arbitrary: rs) simp_all
  then show "length (fold (\<lambda>p rs. rs[p := f p]) ps rs) = length (map f [0..<n])" using assms(1) by simp
  have "i < length rs \<Longrightarrow> fold (\<lambda>p rs. rs[p := f p]) ps rs ! i = (if i \<in> set ps then f i else rs ! i)" for ps i and rs :: "'a list"
    by (induction ps arbitrary: rs) (auto simp: nth_list_update)
  then show "fold (\<lambda>p rs. rs[p := f p]) ps rs ! i = map f [0..<n] ! i"
    if "i < length (fold (\<lambda>p rs. rs[p := f p]) ps rs)" for i
    using that assms len by auto
qed

lemma scatter_rows_ok:
  assumes "\<forall>r \<in> set wrows. length r = w" "\<forall>r \<in> set orows. length r = w"
    and "\<forall>op \<in> set ops. unat (so_off op) < length wrows \<and> so_pos op < length orows \<and>
      wrows ! unat (so_off op) = f (so_pos op)"
  shows "scatter_rows w (concat wrows) ops (concat orows) =
    Inr (concat (fold (\<lambda>p rs. rs[p := f p]) (map so_pos ops) orows)) \<and>
    (\<forall>r \<in> set (fold (\<lambda>p rs. rs[p := f p]) (map so_pos ops) orows). length r = w) \<and>
    length (fold (\<lambda>p rs. rs[p := f p]) (map so_pos ops) orows) = length orows"
  using assms(2,3)
proof (induction ops arbitrary: orows)
  case (Cons op ops)
  let ?o = "unat (so_off op)" and ?p = "so_pos op"
  have op: "?o < length wrows" "?p < length orows" "wrows ! ?o = f ?p" using Cons.prems by auto
  have wf: "length (f ?p) = w" using op assms(1) by (metis nth_mem)
  have src: "slice (?o * w) (?o * w + w) (concat wrows) = f ?p" using slice_row [OF op(1) assms(1)] op(3) by simp
  have dst: "put_slice (?p * w) (f ?p) (concat orows) = concat (orows[?p := f ?p])"
    by (rule put_slice_row [OF op(2) Cons.prems(1) wf])
  have "Suc ?o * w \<le> length wrows * w" "Suc ?p * w \<le> length orows * w" using op by (intro mult_le_mono1; simp)+
  then have room: "\<not> (length (concat wrows) < ?o * w + w \<or> length (concat orows) < ?p * w + w)"
    unfolding length_concat_rows [OF assms(1)] length_concat_rows [OF Cons.prems(1)] by simp
  have "\<forall>r \<in> set (orows[?p := f ?p]). length r = w"
    using Cons.prems(1) wf by (auto dest!: set_update_subset_insert [THEN subsetD])
  from Cons.IH [OF this] Cons.prems(2) room show ?case
    by (simp add: Let_def src dst del: length_concat)
qed simp

locale point_store =
  fixes dim :: nat
    and present :: "u32 \<Rightarrow> bool"
    and row :: "u32 \<Rightarrow> f32 list"
    and read_range :: range_reader
  assumes row_width: "present p \<Longrightarrow> length (row p) = dim"
    and present_small: "present p \<Longrightarrow> unat p < 2 ^ 32 - 1"
    and read_range_ok: "0 < n \<Longrightarrow> length out = n * dim \<Longrightarrow> n * dim \<le> usize_max \<Longrightarrow>
      unat p + n \<le> 2 ^ 32 - 1 \<Longrightarrow> \<forall>i < n. present (p + word_of_nat i) \<Longrightarrow>
      read_range p n out = Inr (concat (map (\<lambda>i. row (p + word_of_nat i)) [0..<n]))"
begin

lemma run_present:
  assumes "\<forall>y \<in> set (x # xs). present y"
  shows "\<forall>i < Suc (run_len x xs). present (x + word_of_nat i)"
    "concat (map (\<lambda>i. row (x + word_of_nat i)) [0..<Suc (run_len x xs)]) = concat (map row (x # take (run_len x xs) xs))"
    "unat x + Suc (run_len x xs) \<le> 2 ^ 32 - 1"
proof -
  have small: "\<forall>y \<in> set (x # xs). unat y < 2 ^ 32 - 1" using assms present_small by blast
  note ids = run_len_ids [OF small]
  show "unat x + Suc (run_len x xs) \<le> 2 ^ 32 - 1" using ids by simp
  have mem: "present y" if "y \<in> set (x # take (run_len x xs) xs)" for y
    using that assms by (auto dest: in_set_takeD)
  then show "\<forall>i < Suc (run_len x xs). present (x + word_of_nat i)"
  proof (intro allI impI)
    fix i assume "i < Suc (run_len x xs)"
    then have "x + word_of_nat i \<in> set (map (\<lambda>i. x + word_of_nat i) [0..<Suc (run_len x xs)])"
      by (auto simp del: upt_Suc)
    then show "present (x + word_of_nat i)" using ids mem by metis
  qed
  show "concat (map (\<lambda>i. row (x + word_of_nat i)) [0..<Suc (run_len x xs)]) = concat (map row (x # take (run_len x xs) xs))"
    using ids by (simp only: map_map comp_def)
qed

lemma length_rows: "\<forall>y \<in> set ids. present y \<Longrightarrow> length (concat (map row ids)) = length ids * dim"
  using length_concat_rows [of "map row ids" dim] row_width by simp

lemma read_runs_step:
  assumes "length out = (pos + length (x # xs)) * dim" "\<forall>y \<in> set (x # xs). present y"
    and "(pos + length (x # xs)) * dim \<le> usize_max"
  defines "k \<equiv> run_len x xs"
  defines "rows \<equiv> concat (map row (x # take k xs))"
  shows "\<not> length out < (pos + Suc k) * dim"
    "read_range x (Suc k) (slice (pos * dim) ((pos + Suc k) * dim) out) = Inr rows"
    "length (put_slice (pos * dim) rows out) = ((pos + Suc k) + length (drop k xs)) * dim"
    "take ((pos + Suc k) * dim) (put_slice (pos * dim) rows out) = take (pos * dim) out @ rows"
proof -
  have k: "k \<le> length xs" by (simp add: k_def run_len_le)
  have le: "(pos + Suc k) * dim \<le> (pos + length (x # xs)) * dim" using k by (intro mult_le_mono1) simp
  then show "\<not> length out < (pos + Suc k) * dim" using assms(1) by (simp only: not_less)
  note run = run_present [OF assms(2), folded k_def]
  have "length (slice (pos * dim) ((pos + Suc k) * dim) out) = Suc k * dim"
    using le assms(1) by (simp add: length_slice algebra_simps)
  moreover have "Suc k * dim \<le> usize_max" using le assms(3) mult_le_mono1 [of "Suc k" "pos + Suc k" dim] by linarith
  ultimately show "read_range x (Suc k) (slice (pos * dim) ((pos + Suc k) * dim) out) = Inr rows"
    unfolding rows_def run(2) [symmetric] by (intro read_range_ok run(1,3)) simp_all
  have rl: "length rows = Suc k * dim"
    unfolding rows_def using assms(2) k by (subst length_rows) (auto dest: in_set_takeD)
  then show "length (put_slice (pos * dim) rows out) = ((pos + Suc k) + length (drop k xs)) * dim"
    using assms(1) k le by (subst length_put_slice) (simp_all add: algebra_simps)
  show "take ((pos + Suc k) * dim) (put_slice (pos * dim) rows out) = take (pos * dim) out @ rows"
    using rl le assms(1) by (simp add: put_slice_def algebra_simps min_def)
qed

lemma read_runs_ok:
  "length out = (pos + length ids) * dim \<Longrightarrow> \<forall>y \<in> set ids. present y \<Longrightarrow>
   (pos + length ids) * dim \<le> usize_max \<Longrightarrow>
   read_runs read_range dim pos ids out = Inr (take (pos * dim) out @ concat (map row ids))"
proof (induction "length ids" arbitrary: ids pos out rule: less_induct)
  case less
  show ?case
  proof (cases ids)
    case Nil
    then show ?thesis using less.prems by simp
  next
    case (Cons x xs)
    define k where "k = run_len x xs"
    define rows where "rows = concat (map row (x # take k xs))"
    note step = read_runs_step [OF less.prems [unfolded Cons], folded k_def, folded rows_def]
    have k: "k \<le> length xs" by (simp add: k_def run_len_le)
    have "read_runs read_range dim (pos + Suc k) (drop k xs) (put_slice (pos * dim) rows out) =
        Inr (take ((pos + Suc k) * dim) (put_slice (pos * dim) rows out) @ concat (map row (drop k xs)))"
      using less.prems Cons step(3) k by (intro less.hyps) (auto dest: in_set_dropD)
    moreover have "concat (map row (x # xs)) = rows @ concat (map row (drop k xs))"
      unfolding rows_def by (simp add: concat_append [symmetric] map_append [symmetric] del: concat_append map_append)
    ultimately show ?thesis using step(1,2,4) Cons
      by (simp add: read_runs.simps(2) Let_def k_def [symmetric])
  qed
qed

lemma read_points_coalesced_ok:
  assumes "length out = length ids * dim" "\<forall>y \<in> set ids. present y" "length ids * dim \<le> usize_max"
  shows "read_points_coalesced read_range dim ids out = Inr (concat (map row ids))"
  using assms read_runs_ok [of out 0 ids] by (cases "ids = []") (simp_all add: read_points_coalesced_def)

lemma read_runs_stats_fst:
  "map_sum id fst (read_runs_stats rr d pos ids out s) = read_runs rr d pos ids out"
proof (induction rr d pos ids out s rule: read_runs_stats.induct)
  case (2 rr d pos x xs out s)
  show ?case
  proof (cases "rr x (Suc (run_len x xs)) (slice (pos * d) ((pos + Suc (run_len x xs)) * d) out)")
    case (Inl f)
    then show ?thesis by (simp add: read_runs_stats.simps(2) read_runs.simps(2) Let_def)
  next
    case (Inr rows)
    show ?thesis
      using "2.IH" [OF refl refl refl _ Inr] Inr
      by (simp add: read_runs_stats.simps(2) read_runs.simps(2) Let_def)
  qed
qed simp

lemma read_windows_ok:
  assumes "\<forall>y \<in> set ids. present y"
  shows "\<forall>(w, ops) \<in> set ws. window_ok ids w \<and> (\<forall>op \<in> set ops. op_ok ids w op) \<and>
      (\<forall>i < unat (rw_count w). present (rw_start w + word_of_nat i)) \<and>
      unat (rw_count w) * dim \<le> length buf \<Longrightarrow> length buf \<le> usize_max \<Longrightarrow>
    length orows = length ids \<Longrightarrow> \<forall>r \<in> set orows. length r = dim \<Longrightarrow>
    read_windows read_range dim ws buf (concat orows) =
      Inr (concat (fold (\<lambda>p rs. rs[p := row (ids ! p)]) (map so_pos (concat (map snd ws))) orows))"
proof (induction ws arbitrary: buf orows)
  case (Cons wo ws)
  obtain w ops where wo: "wo = (w, ops)" by (cases wo)
  let ?n = "unat (rw_count w)" and ?f = "\<lambda>p. row (ids ! p)"
  let ?wrows = "map (\<lambda>i. row (rw_start w + word_of_nat i)) [0..<?n]"
  have w: "window_ok ids w" "\<forall>op \<in> set ops. op_ok ids w op" "?n * dim \<le> length buf"
    "\<forall>i < ?n. present (rw_start w + word_of_nat i)" using Cons.prems(1) wo by auto
  have "unat (rw_start w) + ?n \<le> 2 ^ 32 - 1"
    using w(1) assms present_small by (fastforce simp: window_ok_def)
  moreover have "?n * dim \<le> usize_max" using w(3) Cons.prems(2) by simp
  ultimately have rd: "read_range (rw_start w) ?n (take (?n * dim) buf) = Inr (concat ?wrows)"
    using w by (intro read_range_ok) (auto simp: window_ok_def)
  have ww: "\<forall>r \<in> set ?wrows. length r = dim" using w(4) row_width by auto
  have ops: "\<forall>op \<in> set ops. unat (so_off op) < length ?wrows \<and> so_pos op < length orows \<and>
      ?wrows ! unat (so_off op) = ?f (so_pos op)"
  proof
    fix op assume "op \<in> set ops"
    then have o: "so_pos op < length ids" "unat (rw_start w) + unat (so_off op) = unat (ids ! so_pos op)"
      "unat (so_off op) < ?n" using w(2) by (auto simp: op_ok_def)
    have "rw_start w + word_of_nat (unat (so_off op)) = ids ! so_pos op"
      using o(2) by (metis of_nat_add of_nat_unat ucast_id)
    then show "unat (so_off op) < length ?wrows \<and> so_pos op < length orows \<and> ?wrows ! unat (so_off op) = ?f (so_pos op)"
      using o Cons.prems(3) by simp
  qed
  note sc = scatter_rows_ok [OF ww Cons.prems(4) ops]
  let ?buf = "put_slice 0 (concat ?wrows) buf" and ?or = "fold (\<lambda>p rs. rs[p := ?f p]) (map so_pos ops) orows"
  have "length ?buf = length buf"
    using w(3) length_concat_rows [OF ww] by (intro length_put_slice) simp
  then have "read_windows read_range dim ws ?buf (concat ?or) =
      Inr (concat (fold (\<lambda>p rs. rs[p := ?f p]) (map so_pos (concat (map snd ws))) ?or))"
    using sc Cons.prems wo by (intro Cons.IH) auto
  then show ?case using rd sc wo by (simp add: Let_def)
qed simp

end

text \<open>Stores whose ids form an interval also serve windowed reads, which touch rows between requests.\<close>

locale dense_point_store = point_store +
  assumes dim_small: "present a \<Longrightarrow> dim < 2 ^ 32"
    and present_between: "present a \<Longrightarrow> present c \<Longrightarrow> a \<le> b \<Longrightarrow> b \<le> c \<Longrightarrow> present b"
begin

lemma window_present:
  assumes "window_ok ids w" "\<forall>y \<in> set ids. present y"
  shows "\<forall>i < unat (rw_count w). present (rw_start w + word_of_nat i)"
proof (intro allI impI)
  fix i assume i: "i < unat (rw_count w)"
  obtain c where c: "c \<in> set ids" "unat (rw_start w) + unat (rw_count w) = unat c + 1"
    using assms(1) by (auto simp: window_ok_def)
  have "unat (rw_start w) + i < 2 ^ 32" using c(2) i unat_lt_u32 [of c] by simp
  then have "unat (rw_start w + word_of_nat i) = unat (rw_start w) + i"
    by (simp add: unat_word_ariths unsigned_of_nat take_bit_eq_mod)
  then have "rw_start w \<le> rw_start w + word_of_nat i" "rw_start w + word_of_nat i \<le> c"
    using c(2) i by (simp_all add: word_le_nat_alt)
  moreover have "present (rw_start w)" "present c" using assms c(1) by (auto simp: window_ok_def)
  ultimately show "present (rw_start w + word_of_nat i)" using present_between by blast
qed

lemma foldr_max_ge: "x \<in> set xs \<Longrightarrow> x \<le> foldr max xs (0 :: nat)"
  by (induction xs) auto

lemma foldr_max_le: "\<forall>x \<in> set xs. x \<le> b \<Longrightarrow> foldr max xs (0 :: nat) \<le> b"
  by (induction xs) auto

lemma read_points_windowed_ok:
  assumes "unstable_sort srt" "go_sort_ids opts"
    and "length out = length ids * dim" "\<forall>y \<in> set ids. present y" "length ids * dim \<le> usize_max"
  shows "\<exists>s'. read_points_windowed srt read_range dim rb ids out opts s = Inr (concat (map row ids), s')"
proof (cases "ids = []")
  case True
  then show ?thesis using assms(3) by (simp add: read_points_windowed_def)
next
  case False
  obtain plan s' where b: "build_gather_plan srt ids rb opts s = (plan, s')" by fastforce
  have small: "\<forall>i \<in> set ids. unat i < 2 ^ 32 - 1" using assms(4) present_small by blast
  have dim: "dim < 2 ^ 32" using False assms(4) dim_small by (metis hd_in_set)
  have cov: "covers ids (zip (gp_windows plan) (gp_scatter plan))"
      and len: "length (gp_windows plan) = length (gp_scatter plan)"
    using build_gather_plan_cover [OF assms(1,2) small b] by (simp_all add: plan_view_def)
  let ?ws = "zip (gp_windows plan) (gp_scatter plan)" and ?buf = "windows_buffer dim (gp_windows plan)"
  have wok: "\<forall>(w, ops) \<in> set ?ws. window_ok ids w \<and> (\<forall>op \<in> set ops. op_ok ids w op)"
      and pos: "mset (map so_pos (concat (map snd ?ws))) = mset [0..<length ids]"
    using cov by (auto simp: covers_def)
  have "\<forall>w \<in> set (gp_windows plan). unat (rw_count w) \<le> 2 ^ 32 - 1"
  proof
    fix w show "unat (rw_count w) \<le> 2 ^ 32 - 1" using unat_lt_u32 [of "rw_count w"] by simp
  qed
  then have "foldr max (map (\<lambda>w. unat (rw_count w)) (gp_windows plan)) 0 \<le> 2 ^ 32 - 1"
    by (intro foldr_max_le) auto
  then have "foldr max (map (\<lambda>w. unat (rw_count w)) (gp_windows plan)) 0 * dim \<le> (2 ^ 32 - 1) * (2 ^ 32 - 1)"
    using dim by (intro mult_le_mono) simp_all
  then have buf: "length ?buf \<le> usize_max" by (simp add: windows_buffer_def usize_max_def)
  have "\<forall>(w, ops) \<in> set ?ws. window_ok ids w \<and> (\<forall>op \<in> set ops. op_ok ids w op) \<and>
      (\<forall>i < unat (rw_count w). present (rw_start w + word_of_nat i)) \<and> unat (rw_count w) * dim \<le> length ?buf"
    using wok window_present [OF _ assms(4)]
    by (fastforce simp: windows_buffer_def intro!: mult_le_mono1 foldr_max_ge dest: set_zip_leftD)
  from read_windows_ok [OF assms(4) this buf, of "rows_of (length ids) dim out"]
    rows_of_props [OF assms(3)]
  have "read_windows read_range dim ?ws ?buf out =
      Inr (concat (fold (\<lambda>p rs. rs[p := row (ids ! p)]) (map so_pos (concat (map snd ?ws))) (rows_of (length ids) dim out)))"
    by simp
  also have "fold (\<lambda>p rs. rs[p := row (ids ! p)]) (map so_pos (concat (map snd ?ws))) (rows_of (length ids) dim out) =
      map (\<lambda>p. row (ids ! p)) [0..<length ids]"
    using rows_of_props(1) [OF assms(3)] mset_eq_setD [OF pos] by (intro fold_set_rows) simp_all
  also have "map (\<lambda>p. row (ids ! p)) [0..<length ids] = map row ids"
    by (intro nth_equalityI) simp_all
  finally show ?thesis using False assms(3,5) b by (simp add: read_points_windowed_def)
qed

end

end
