(* ===== verification/FileStore.thy ===== *)
theory FileStore
  imports PointStore DirectIo
begin

text \<open>
  The point stores backed by an fbin file (\<^verbatim>\<open>ForgeANN/src/forgeann/point_store.rs\<close>):
  \<open>DirectPointStore\<close> (system calls, buffered or O_DIRECT), \<open>MmapPointStore\<close> (the mapped file)
  and \<open>LimitedPointStore\<close> (a prefix of another store). An fbin file is an 8-byte header (number
  of points, dimension) followed by the rows of little-endian 32-bit floats. The \<open>io_uring\<close> path
  of the windowed read and the page-cache advice are not modelled.
\<close>

section \<open>fbin files\<close>

text \<open>\<open>read_i32 as usize\<close>: a negative value is sign-extended to 64 bits.\<close>

definition i32_as_usize :: "u32 \<Rightarrow> usize" where
  "i32_as_usize w = (if unat w < 2 ^ 31 then unat w else 2 ^ 64 - 2 ^ 32 + unat w)"

definition load_metadata_from_file :: "u8 list \<Rightarrow> (usize \<times> usize) result" where
  "load_metadata_from_file f =
     res_bind (read_u32 f) (\<lambda>(n, r1). res_bind (read_u32 r1) (\<lambda>(d, r2).
       Inr (i32_as_usize n, i32_as_usize d)))"

fun f32s_of_bytes :: "u8 list \<Rightarrow> f32 list" where
  "f32s_of_bytes (a # b # c # d # bs) = of_le32 [a, b, c, d] # f32s_of_bytes bs"
| "f32s_of_bytes _ = []"

definition FBIN_HEADER_BYTES :: nat where
  "FBIN_HEADER_BYTES = 8"

record file_store =
  fs_file :: "u8 list"
  fs_num_points :: usize
  fs_dim :: usize
  fs_row_bytes :: usize

definition buffer_mismatch :: fault where
  "buffer_mismatch = Err (Index ''Point buffer width mismatch'')"

definition range_mismatch :: fault where
  "range_mismatch = Err (Index ''Range buffer size mismatch'')"

section \<open>\<open>DirectPointStore\<close>\<close>

definition direct_open :: "u8 list \<Rightarrow> file_store result" where
  "direct_open f =
     res_bind (load_metadata_from_file f) (\<lambda>(num_points, dim).
       Inr \<lparr>fs_file = f, fs_num_points = num_points, fs_dim = dim, fs_row_bytes = sat_mul dim 4\<rparr>)"

definition point_offset :: "file_store \<Rightarrow> u32 \<Rightarrow> nat result" where
  "point_offset st pid =
     (if fs_num_points st \<le> unat pid then Inl (Err (Index ''Point id out of bounds''))
      else Inr (FBIN_HEADER_BYTES + sat_mul (unat pid) (fs_row_bytes st)))"

definition store_read_exact_at :: "(nat \<Rightarrow> nat \<Rightarrow> nat) \<Rightarrow> direct_io_config \<Rightarrow> file_store \<Rightarrow> nat \<Rightarrow> nat \<Rightarrow> u8 list result" where
  "store_read_exact_at give c st n offset =
     (if n = 0 then Inr [] else direct_read_exact_at give c (fs_file st) n offset)"

definition direct_read_point_into :: "(nat \<Rightarrow> nat \<Rightarrow> nat) \<Rightarrow> direct_io_config \<Rightarrow> file_store \<Rightarrow> u32 \<Rightarrow> f32 list \<Rightarrow> f32 list result" where
  "direct_read_point_into give c st pid out =
     (if length out \<noteq> fs_dim st then Inl buffer_mismatch
      else res_bind (point_offset st pid) (\<lambda>offset.
        res_bind (store_read_exact_at give c st (length out * 4) offset) (\<lambda>bs. Inr (f32s_of_bytes bs))))"

definition direct_read_range_into :: "(nat \<Rightarrow> nat \<Rightarrow> nat) \<Rightarrow> direct_io_config \<Rightarrow> file_store \<Rightarrow> range_reader" where
  "direct_read_range_into give c st start_pid n out =
     (if n = 0 then Inr out
      else if length out \<noteq> sat_mul n (fs_dim st) then Inl range_mismatch
      else
        let start = unat start_pid; stop = sat_add start n in
        if fs_num_points st < stop then Inl (Err (Index ''Range out of bounds''))
        else
          res_bind (store_read_exact_at give c st (length out * 4)
                      (FBIN_HEADER_BYTES + sat_mul start (fs_row_bytes st)))
            (\<lambda>bs. Inr (f32s_of_bytes bs)))"

definition direct_read_points_into where
  "direct_read_points_into give c st ids out =
     read_points_coalesced (direct_read_range_into give c st) (fs_dim st) ids out"

definition direct_read_points_into_stats where
  "direct_read_points_into_stats give c st ids out s =
     read_points_coalesced_stats (direct_read_range_into give c st) (fs_dim st) ids out s"

definition direct_read_points_windowed where
  "direct_read_points_windowed srt give c st ids out opts s =
     read_points_windowed srt (direct_read_range_into give c st) (fs_dim st) (fs_row_bytes st) ids out opts s"

section \<open>\<open>MmapPointStore\<close>\<close>

definition mmap_open :: "u8 list \<Rightarrow> file_store result" where
  "mmap_open f =
     res_bind (load_metadata_from_file f) (\<lambda>(num_points, dim).
       let row_bytes = sat_mul dim 4 in
       if length f < FBIN_HEADER_BYTES + num_points * row_bytes
       then Inl (Err (Index ''Mmap point store file is too small''))
       else Inr \<lparr>fs_file = f, fs_num_points = num_points, fs_dim = dim, fs_row_bytes = row_bytes\<rparr>)"

definition row_byte_range :: "file_store \<Rightarrow> u32 \<Rightarrow> usize \<Rightarrow> (nat \<times> nat) result" where
  "row_byte_range st start_pid n =
     (let start = unat start_pid; stop = sat_add start n in
      if fs_num_points st < stop then Inl (Err (Index ''Range out of bounds''))
      else
        (case checked_mul start (fs_row_bytes st) of
           None \<Rightarrow> Inl (Err (Index ''Mmap point store byte offset overflow''))
         | Some off \<Rightarrow>
             (case checked_add FBIN_HEADER_BYTES off of
                None \<Rightarrow> Inl (Err (Index ''Mmap point store byte offset overflow''))
              | Some byte_start \<Rightarrow>
                  (case checked_mul n (fs_row_bytes st) of
                     None \<Rightarrow> Inl (Err (Index ''Mmap point store byte length overflow''))
                   | Some byte_len \<Rightarrow>
                       (case checked_add byte_start byte_len of
                          None \<Rightarrow> Inl (Err (Index ''Mmap point store byte range overflow''))
                        | Some byte_end \<Rightarrow>
                            if length (fs_file st) < byte_end
                            then Inl (Err (Index ''Mmap point store byte range exceeds mapped length''))
                            else Inr (byte_start, byte_end))))))"

text \<open>\<open>bytemuck::try_cast_slice\<close>: the mapping is page-aligned, so the address is 4-aligned iff the offset is.\<close>

definition mapped_rows_as_f32 :: "file_store \<Rightarrow> nat \<times> nat \<Rightarrow> f32 list result" where
  "mapped_rows_as_f32 st r =
     (if fst r mod 4 \<noteq> 0 \<or> (snd r - fst r) mod 4 \<noteq> 0
      then Inl (Err (Index ''Mmap point store row alignment error''))
      else Inr (f32s_of_bytes (slice (fst r) (snd r) (fs_file st))))"

definition copy_from_slice :: "f32 list \<Rightarrow> f32 list \<Rightarrow> f32 list result" where
  "copy_from_slice src out =
     (if length src \<noteq> length out then Inl (Panic ''source slice length does not match'') else Inr src)"

definition mmap_read_point_into :: "file_store \<Rightarrow> u32 \<Rightarrow> f32 list \<Rightarrow> f32 list result" where
  "mmap_read_point_into st pid out =
     (if length out \<noteq> fs_dim st then Inl buffer_mismatch
      else res_bind (row_byte_range st pid 1) (\<lambda>r. res_bind (mapped_rows_as_f32 st r) (\<lambda>src. copy_from_slice src out)))"

definition mmap_read_range_into :: "file_store \<Rightarrow> range_reader" where
  "mmap_read_range_into st start_pid n out =
     (if n = 0 then Inr out
      else if length out \<noteq> sat_mul n (fs_dim st) then Inl range_mismatch
      else res_bind (row_byte_range st start_pid n) (\<lambda>r.
             res_bind (mapped_rows_as_f32 st r) (\<lambda>src. copy_from_slice src out)))"

definition mmap_read_points_into where
  "mmap_read_points_into st ids out = read_points_coalesced (mmap_read_range_into st) (fs_dim st) ids out"

definition mmap_read_points_into_stats where
  "mmap_read_points_into_stats st ids out s =
     read_points_coalesced_stats (mmap_read_range_into st) (fs_dim st) ids out s"

text \<open>The windowed read scatters straight from the mapping.\<close>

fun mmap_read_windows :: "file_store \<Rightarrow> (read_window \<times> scatter_op list) list \<Rightarrow> f32 list \<Rightarrow> f32 list result" where
  "mmap_read_windows st [] out = Inr out"
| "mmap_read_windows st ((w, ops) # ws) out =
     res_bind (row_byte_range st (rw_start w) (unat (rw_count w))) (\<lambda>r.
     res_bind (mapped_rows_as_f32 st r) (\<lambda>win.
     res_bind (scatter_rows (fs_dim st) win ops out) (\<lambda>out'. mmap_read_windows st ws out')))"

definition mmap_read_points_windowed ::
  "((planned_row \<Rightarrow> u32) \<Rightarrow> planned_row list \<Rightarrow> planned_row list) \<Rightarrow> file_store \<Rightarrow> u32 list \<Rightarrow> f32 list \<Rightarrow>
   gather_options \<Rightarrow> gather_stats \<Rightarrow> (f32 list \<times> gather_stats) result" where
  "mmap_read_points_windowed srt st ids out opts s =
     (if ids = [] then Inr (out, s)
      else if length out \<noteq> sat_mul (length ids) (fs_dim st) then Inl matrix_mismatch
      else
        let (plan, s') = build_gather_plan srt ids (fs_row_bytes st) opts s
        in res_bind (mmap_read_windows st (zip (gp_windows plan) (gp_scatter plan)) out)
             (\<lambda>out'. Inr (out', s')))"

section \<open>\<open>LimitedPointStore\<close>\<close>

definition check_pid :: "usize \<Rightarrow> u32 \<Rightarrow> unit result" where
  "check_pid n pid =
     (if n \<le> unat pid then Inl (Err (Index ''Point id out of bounds for limited store'')) else Inr ())"

definition limited_read_point_into where
  "limited_read_point_into n inner pid out = res_bind (check_pid n pid) (\<lambda>_. inner pid out)"

definition limited_read_range_into :: "usize \<Rightarrow> range_reader \<Rightarrow> range_reader" where
  "limited_read_range_into k inner start_pid n out =
     (if n = 0 then Inr out
      else if k < sat_add (unat start_pid) n
      then Inl (Err (Index ''Range out of bounds for limited store''))
      else inner start_pid n out)"

fun check_pids :: "usize \<Rightarrow> u32 list \<Rightarrow> unit result" where
  "check_pids n [] = Inr ()"
| "check_pids n (p # ps) = res_bind (check_pid n p) (\<lambda>_. check_pids n ps)"

definition limited_read_points_into :: "usize \<Rightarrow> (u32 list \<Rightarrow> f32 list \<Rightarrow> f32 list result) \<Rightarrow> u32 list \<Rightarrow>
    f32 list \<Rightarrow> f32 list result" where
  "limited_read_points_into n inner ids out = res_bind (check_pids n ids) (\<lambda>_. inner ids out)"

section \<open>Rows of a file\<close>

lemma f32s_append: "length xs mod 4 = 0 \<Longrightarrow> f32s_of_bytes (xs @ ys) = f32s_of_bytes xs @ f32s_of_bytes ys"
  by (induction xs rule: f32s_of_bytes.induct) auto

lemma length_f32s: "length (f32s_of_bytes bs) = length bs div 4"
  by (induction bs rule: f32s_of_bytes.induct) auto

lemma f32s_le32s: "f32s_of_bytes (le32s ws) = ws"
  by (induction ws) (simp_all add: le32_def [of _] of_le32_le32 [unfolded le32_def] del: of_le32.simps)

lemma slice_split: "a \<le> m \<Longrightarrow> m \<le> b \<Longrightarrow> slice a b f = slice a m f @ slice m b f"
proof -
  assume "a \<le> m" "m \<le> b"
  then have "b - a = (m - a) + (b - m)" "m - a + a = m" by simp_all
  then show ?thesis unfolding slice_def by (metis drop_drop take_add)
qed

lemma f32s_slice_rows:
  assumes "a + n * (d * 4) \<le> length f"
  shows "f32s_of_bytes (slice a (a + n * (d * 4)) f) =
    concat (map (\<lambda>i. f32s_of_bytes (slice (a + i * (d * 4)) (a + i * (d * 4) + d * 4) f)) [0..<n])"
  using assms
proof (induction n)
  case (Suc n)
  let ?m = "a + n * (d * 4)"
  have "slice a (a + Suc n * (d * 4)) f = slice a ?m f @ slice ?m (?m + d * 4) f"
    using slice_split [of a ?m "?m + d * 4" f] by (simp add: algebra_simps)
  moreover have "length (slice a ?m f) mod 4 = 0" using Suc.prems by (subst length_slice) auto
  ultimately show ?case using Suc by (simp add: f32s_append)
qed (simp add: slice_def)

definition fs_ok :: "file_store \<Rightarrow> bool" where
  [inv_defs]: "fs_ok st \<longleftrightarrow> fs_row_bytes st = fs_dim st * 4 \<and> fs_dim st < 2 ^ 32 \<and>
     fs_num_points st < 2 ^ 32 \<and> FBIN_HEADER_BYTES + fs_num_points st * fs_row_bytes st \<le> length (fs_file st) \<and>
     length (fs_file st) \<le> usize_max"

definition fs_row :: "file_store \<Rightarrow> u32 \<Rightarrow> f32 list" where
  "fs_row st p = (let a = FBIN_HEADER_BYTES + unat p * fs_row_bytes st
                  in f32s_of_bytes (slice a (a + fs_row_bytes st) (fs_file st)))"

definition fs_present :: "file_store \<Rightarrow> u32 \<Rightarrow> bool" where
  "fs_present st p \<longleftrightarrow> fs_ok st \<and> unat p < fs_num_points st"

lemma fs_row_end:
  assumes "fs_ok st" "k \<le> fs_num_points st"
  shows "FBIN_HEADER_BYTES + k * fs_row_bytes st \<le> length (fs_file st)"
    "FBIN_HEADER_BYTES + k * fs_row_bytes st \<le> usize_max"
proof -
  have "k * fs_row_bytes st \<le> fs_num_points st * fs_row_bytes st" using assms(2) by (rule mult_le_mono1)
  moreover have "FBIN_HEADER_BYTES + fs_num_points st * fs_row_bytes st \<le> length (fs_file st)"
    using assms(1) unfolding fs_ok_def by blast
  ultimately show "FBIN_HEADER_BYTES + k * fs_row_bytes st \<le> length (fs_file st)" by linarith
  then show "FBIN_HEADER_BYTES + k * fs_row_bytes st \<le> usize_max"
    using assms(1) by (simp add: fs_ok_def)
qed

lemma fs_row_width: "fs_present st p \<Longrightarrow> length (fs_row st p) = fs_dim st"
proof -
  assume p: "fs_present st p"
  let ?a = "FBIN_HEADER_BYTES + unat p * fs_row_bytes st"
  have "?a + fs_row_bytes st \<le> length (fs_file st)"
    using fs_row_end(1) [of st "Suc (unat p)"] p by (simp add: fs_present_def)
  then have "length (slice ?a (?a + fs_row_bytes st) (fs_file st)) = fs_row_bytes st"
    by (simp add: length_slice)
  then show ?thesis using p by (simp add: fs_row_def Let_def length_f32s fs_present_def fs_ok_def)
qed

lemma unat_add_small: "unat (p :: u32) + i < 2 ^ 32 \<Longrightarrow> unat (p + word_of_nat i) = unat p + i"
  by (simp add: unat_word_ariths unsigned_of_nat take_bit_eq_mod)

lemma fs_range_bytes:
  assumes "fs_ok st" "unat p + n \<le> fs_num_points st"
  shows "f32s_of_bytes (slice (FBIN_HEADER_BYTES + unat p * fs_row_bytes st)
      (FBIN_HEADER_BYTES + unat p * fs_row_bytes st + n * fs_row_bytes st) (fs_file st)) =
    concat (map (\<lambda>i. fs_row st (p + word_of_nat i)) [0..<n])"
proof -
  let ?a = "FBIN_HEADER_BYTES + unat p * fs_row_bytes st"
  have rb: "fs_row_bytes st = fs_dim st * 4" using assms(1) by (simp add: fs_ok_def)
  have "?a + n * (fs_dim st * 4) \<le> length (fs_file st)"
    using fs_row_end(1) [OF assms] by (simp add: rb algebra_simps)
  note rows = f32s_slice_rows [OF this]
  have "fs_row st (p + word_of_nat i) = f32s_of_bytes (slice (?a + i * (fs_dim st * 4))
      (?a + i * (fs_dim st * 4) + fs_dim st * 4) (fs_file st))" if "i < n" for i
  proof -
    have "unat p + i < 2 ^ 32" using that assms by (simp add: fs_ok_def)
    then show ?thesis by (simp add: fs_row_def Let_def unat_add_small rb algebra_simps)
  qed
  then have "map (\<lambda>i. fs_row st (p + word_of_nat i)) [0..<n] = map (\<lambda>i. f32s_of_bytes (slice (?a + i * (fs_dim st * 4))
      (?a + i * (fs_dim st * 4) + fs_dim st * 4) (fs_file st))) [0..<n]" by simp
  then show ?thesis using rows by (simp only: rb)
qed

lemma last_present:
  assumes "\<forall>i < n. fs_present st (p + word_of_nat i)" "0 < n" "unat p + n \<le> 2 ^ 32 - 1"
  shows "fs_ok st" "unat p + n \<le> fs_num_points st"
proof -
  have l: "fs_present st (p + word_of_nat (n - 1))"
    by (rule assms(1) [rule_format]) (use assms(2) in simp)
  then show "fs_ok st" by (simp add: fs_present_def)
  have "unat (p + word_of_nat (n - 1)) = unat p + (n - 1)" using assms(2,3) by (intro unat_add_small) simp
  with l have "unat p + (n - 1) < fs_num_points st" by (simp add: fs_present_def)
  then show "unat p + n \<le> fs_num_points st" using assms(2) by linarith
qed

section \<open>The stores meet the contract\<close>

lemma direct_read_range_ok:
  assumes "gives give" "dc_alignment c \<le> 2 ^ 63" "fs_ok st" "0 < n" "length out = n * fs_dim st"
    and "n * fs_dim st \<le> usize_max" "unat p + n \<le> fs_num_points st"
  shows "direct_read_range_into give c st p n out = Inr (concat (map (\<lambda>i. fs_row st (p + word_of_nat i)) [0..<n]))"
proof -
  let ?off = "FBIN_HEADER_BYTES + unat p * fs_row_bytes st"
  have rb: "fs_row_bytes st = fs_dim st * 4" using assms(3) by (simp add: fs_ok_def)
  have e: "?off + n * fs_row_bytes st \<le> length (fs_file st)" "?off + n * fs_row_bytes st \<le> usize_max"
    using fs_row_end [OF assms(3,7)] by (simp_all add: algebra_simps)
  have sat: "sat_mul (unat p) (fs_row_bytes st) = unat p * fs_row_bytes st" "sat_add (unat p) n = unat p + n"
    using e(2) assms(3,7) by (simp_all add: sat_mul_def sat_add_def usize_max_def fs_ok_def)
  have rd: "store_read_exact_at give c st (n * fs_row_bytes st) ?off =
      Inr (slice ?off (?off + n * fs_row_bytes st) (fs_file st))"
  proof (cases "n * fs_row_bytes st = 0")
    case False
    then show ?thesis using direct_read_exact_bytes [OF assms(1,2) e]
      by (simp add: store_read_exact_at_def slice_def)
  qed (simp add: store_read_exact_at_def slice_def)
  have "direct_read_range_into give c st p n out =
      res_bind (store_read_exact_at give c st (n * fs_row_bytes st) ?off) (\<lambda>bs. Inr (f32s_of_bytes bs))"
    using assms(4-7) sat by (simp add: direct_read_range_into_def Let_def rb mult.assoc)
  then show ?thesis using rd fs_range_bytes [OF assms(3,7)] by simp
qed

lemma row_byte_range_ok:
  assumes "fs_ok st" "unat p + n \<le> fs_num_points st"
  shows "row_byte_range st p n = Inr (FBIN_HEADER_BYTES + unat p * fs_row_bytes st,
    FBIN_HEADER_BYTES + unat p * fs_row_bytes st + n * fs_row_bytes st)"
    "mapped_rows_as_f32 st (FBIN_HEADER_BYTES + unat p * fs_row_bytes st,
      FBIN_HEADER_BYTES + unat p * fs_row_bytes st + n * fs_row_bytes st) =
      Inr (concat (map (\<lambda>i. fs_row st (p + word_of_nat i)) [0..<n]))"
proof -
  have rb: "fs_row_bytes st = fs_dim st * 4" using assms(1) by (simp add: fs_ok_def)
  have e: "FBIN_HEADER_BYTES + (unat p * fs_row_bytes st + n * fs_row_bytes st) \<le> length (fs_file st)"
    "FBIN_HEADER_BYTES + (unat p * fs_row_bytes st + n * fs_row_bytes st) \<le> usize_max"
    using fs_row_end [OF assms] by (simp_all add: algebra_simps)
  have "unat p + n \<le> usize_max" using assms by (simp add: fs_ok_def usize_max_def)
  then show "row_byte_range st p n = Inr (FBIN_HEADER_BYTES + unat p * fs_row_bytes st,
    FBIN_HEADER_BYTES + unat p * fs_row_bytes st + n * fs_row_bytes st)"
    using assms(2) e by (simp add: row_byte_range_def checked_mul_def checked_add_def Let_def add.assoc)
  show "mapped_rows_as_f32 st (FBIN_HEADER_BYTES + unat p * fs_row_bytes st,
      FBIN_HEADER_BYTES + unat p * fs_row_bytes st + n * fs_row_bytes st) =
      Inr (concat (map (\<lambda>i. fs_row st (p + word_of_nat i)) [0..<n]))"
    using fs_range_bytes [OF assms] rb
    by (simp add: mapped_rows_as_f32_def FBIN_HEADER_BYTES_def mod_mult_right_eq [symmetric])
qed

definition direct_present :: "(nat \<Rightarrow> nat \<Rightarrow> nat) \<Rightarrow> direct_io_config \<Rightarrow> file_store \<Rightarrow> u32 \<Rightarrow> bool" where
  "direct_present give c st p \<longleftrightarrow> gives give \<and> dc_alignment c \<le> 2 ^ 63 \<and> fs_present st p"

lemma fs_present_small: "fs_present st p \<Longrightarrow> unat p < 2 ^ 32 - 1"
  by (simp add: fs_present_def fs_ok_def)

interpretation direct: dense_point_store "fs_dim st" "direct_present give c st" "fs_row st"
    "direct_read_range_into give c st" for give c st
proof
  show "direct_read_range_into give c st p n out = Inr (concat (map (\<lambda>i. fs_row st (p + word_of_nat i)) [0..<n]))"
    if "0 < n" "length out = n * fs_dim st" "n * fs_dim st \<le> usize_max" "unat p + n \<le> 2 ^ 32 - 1"
      "\<forall>i < n. direct_present give c st (p + word_of_nat i)" for p n out
  proof -
    have "\<forall>i < n. fs_present st (p + word_of_nat i)" "gives give" "dc_alignment c \<le> 2 ^ 63"
      using that(1,5) by (auto simp: direct_present_def)
    with that last_present [of n st p] show ?thesis by (intro direct_read_range_ok) auto
  qed
qed (auto simp: direct_present_def fs_row_width fs_present_def fs_ok_def word_le_nat_alt)

lemma mmap_read_range_ok:
  assumes "fs_ok st" "0 < n" "length out = n * fs_dim st" "n * fs_dim st \<le> usize_max" "unat p + n \<le> fs_num_points st"
  shows "mmap_read_range_into st p n out = Inr (concat (map (\<lambda>i. fs_row st (p + word_of_nat i)) [0..<n]))"
proof -
  have "\<forall>i < n. fs_present st (p + word_of_nat i)"
  proof (intro allI impI)
    fix i assume "i < n"
    then have "unat p + i < 2 ^ 32" using assms(1,5) by (simp add: fs_ok_def)
    then show "fs_present st (p + word_of_nat i)" using \<open>i < n\<close> assms(1,5) by (simp add: fs_present_def unat_add_small)
  qed
  then have "length (concat (map (\<lambda>i. fs_row st (p + word_of_nat i)) [0..<n])) = n * fs_dim st"
    using length_concat_rows [of "map (\<lambda>i. fs_row st (p + word_of_nat i)) [0..<n]" "fs_dim st"] fs_row_width by auto
  then show ?thesis using assms row_byte_range_ok [OF assms(1,5)]
    by (simp add: mmap_read_range_into_def copy_from_slice_def)
qed

interpretation mmap: dense_point_store "fs_dim st" "fs_present st" "fs_row st" "mmap_read_range_into st" for st
proof
  show "mmap_read_range_into st p n out = Inr (concat (map (\<lambda>i. fs_row st (p + word_of_nat i)) [0..<n]))"
    if "0 < n" "length out = n * fs_dim st" "n * fs_dim st \<le> usize_max" "unat p + n \<le> 2 ^ 32 - 1"
      "\<forall>i < n. fs_present st (p + word_of_nat i)" for p n out
    using that last_present [of n st p] by (intro mmap_read_range_ok) auto
qed (auto simp: fs_row_width fs_present_def fs_ok_def word_le_nat_alt)

lemma mmap_read_windows_eq:
  assumes "\<forall>(w, ops) \<in> set ws. 0 < unat (rw_count w) \<and> unat (rw_start w) + unat (rw_count w) \<le> fs_num_points st \<and>
      unat (rw_count w) * fs_dim st \<le> length buf" "fs_ok st" "length buf \<le> usize_max"
  shows "mmap_read_windows st ws out = read_windows (mmap_read_range_into st) (fs_dim st) ws buf out"
  using assms
proof (induction ws arbitrary: buf out)
  case (Cons wo ws)
  obtain w ops where wo: "wo = (w, ops)" by (cases wo)
  let ?n = "unat (rw_count w)" and ?rows = "concat (map (\<lambda>i. fs_row st (rw_start w + word_of_nat i)) [0..<unat (rw_count w)])"
  have w: "0 < ?n" "unat (rw_start w) + ?n \<le> fs_num_points st" "?n * fs_dim st \<le> length buf"
    using Cons.prems(1) wo by auto
  have rd: "mmap_read_range_into st (rw_start w) ?n (take (?n * fs_dim st) buf) = Inr ?rows"
    using w Cons.prems by (intro mmap_read_range_ok) auto
  then have "length ?rows = ?n * fs_dim st"
    using row_byte_range_ok [OF Cons.prems(2) w(2)] w Cons.prems(3)
    by (auto simp: mmap_read_range_into_def copy_from_slice_def split: if_splits)
  then have "length (put_slice 0 ?rows buf) = length buf" using w(3) by (intro length_put_slice) simp
  then have "mmap_read_windows st ws = read_windows (mmap_read_range_into st) (fs_dim st) ws (put_slice 0 ?rows buf)"
    using Cons.prems by (intro ext Cons.IH) auto
  then show ?case using rd row_byte_range_ok [OF Cons.prems(2) w(2)] wo by (simp add: Let_def)
qed simp

text \<open>The direct store and the mapped store are interchangeable: on the same well-formed file, for every
  list of ids in range (in any order, with repetitions), both return the requested rows one after
  the other, for every O_DIRECT configuration and however the operating system splits the reads.\<close>

theorem direct_mmap_agree:
  assumes "fs_ok st" "gives give" "dc_alignment c \<le> 2 ^ 63"
    and "\<forall>p \<in> set ids. unat p < fs_num_points st"
    and "length out = length ids * fs_dim st" "length ids * fs_dim st \<le> usize_max"
  shows "direct_read_points_into give c st ids out = Inr (concat (map (fs_row st) ids)) \<and>
    mmap_read_points_into st ids out = Inr (concat (map (fs_row st) ids))"
proof
  show "direct_read_points_into give c st ids out = Inr (concat (map (fs_row st) ids))"
    unfolding direct_read_points_into_def using assms
    by (intro direct.read_points_coalesced_ok) (auto simp: direct_present_def fs_present_def)
  show "mmap_read_points_into st ids out = Inr (concat (map (fs_row st) ids))"
    unfolding mmap_read_points_into_def using assms
    by (intro mmap.read_points_coalesced_ok) (auto simp: fs_present_def)
qed

definition sample_store :: file_store where
  "sample_store = \<lparr>fs_file = le32 3 @ le32 2 @ le32s [1, 2, 3, 4, 5, 6], fs_num_points = 3, fs_dim = 2, fs_row_bytes = 8\<rparr>"

lemma sample_store_ok: "fs_ok sample_store"
  by (simp add: fs_ok_def sample_store_def FBIN_HEADER_BYTES_def usize_max_def)

theorem direct_mmap_agree_witness:
  "direct_read_points_into (\<lambda>off n. 3) \<lparr>dc_enabled = True, dc_alignment = 512\<rparr> sample_store [2, 0, 1, 2] (replicate 8 0) =
     Inr (concat (map (fs_row sample_store) [2, 0, 1, 2])) \<and>
   mmap_read_points_into sample_store [2, 0, 1, 2] (replicate 8 0) =
     Inr (concat (map (fs_row sample_store) [2, 0, 1, 2]))"
  by (rule direct_mmap_agree [OF sample_store_ok]) (simp_all add: sample_store_def gives_def usize_max_def)

lemma windowed_rows:
  assumes "fs_ok st" "gives give" "dc_alignment c \<le> 2 ^ 63" "unstable_sort srt" "go_sort_ids opts"
    and "\<forall>p \<in> set ids. unat p < fs_num_points st"
    and "length out = length ids * fs_dim st" "length ids * fs_dim st \<le> usize_max"
  shows "(\<exists>s'. direct_read_points_windowed srt give c st ids out opts s = Inr (concat (map (fs_row st) ids), s')) \<and>
    (\<exists>s'. mmap_read_points_windowed srt st ids out opts s = Inr (concat (map (fs_row st) ids), s'))"
proof
  have pres: "\<forall>p \<in> set ids. fs_present st p" using assms by (simp add: fs_present_def)
  show "\<exists>s'. direct_read_points_windowed srt give c st ids out opts s = Inr (concat (map (fs_row st) ids), s')"
    unfolding direct_read_points_windowed_def using assms pres
    by (intro direct.read_points_windowed_ok) (auto simp: direct_present_def)
  obtain plan s1 where b: "build_gather_plan srt ids (fs_row_bytes st) opts s = (plan, s1)" by fastforce
  let ?ws = "zip (gp_windows plan) (gp_scatter plan)" and ?buf = "windows_buffer (fs_dim st) (gp_windows plan)"
  have "\<forall>i \<in> set ids. unat i < 2 ^ 32 - 1" using assms(1,6) by (auto simp: fs_ok_def)
  from build_gather_plan_cover(1) [OF assms(4,5) this b] have cov: "\<forall>(w, ops) \<in> set ?ws. window_ok ids w"
    by (auto simp: plan_view_def covers_def)
  have buf: "unat (rw_count w) * fs_dim st \<le> length ?buf" if "w \<in> set (gp_windows plan)" for w
    using that mmap.foldr_max_ge [of "unat (rw_count w)" "map (\<lambda>w. unat (rw_count w)) (gp_windows plan)"]
    by (auto simp: windows_buffer_def intro: mult_le_mono1)
  have "unat x \<le> 2 ^ 32 - 1" for x :: u32 using unat_lt_u32 [of x] by simp
  then have "foldr max (map (\<lambda>w. unat (rw_count w)) (gp_windows plan)) 0 \<le> 2 ^ 32 - 1"
    by (intro mmap.foldr_max_le) auto
  then have "foldr max (map (\<lambda>w. unat (rw_count w)) (gp_windows plan)) 0 * fs_dim st \<le> (2 ^ 32 - 1) * (2 ^ 32 - 1)"
    using assms(1) by (intro mult_le_mono) (auto simp: fs_ok_def)
  then have "length ?buf \<le> usize_max" by (simp add: windows_buffer_def usize_max_def)
  moreover have "\<forall>(w, ops) \<in> set ?ws. 0 < unat (rw_count w) \<and> unat (rw_start w) + unat (rw_count w) \<le> fs_num_points st \<and>
      unat (rw_count w) * fs_dim st \<le> length ?buf"
    using cov buf assms(6) by (fastforce simp: window_ok_def dest: set_zip_leftD)
  ultimately have "mmap_read_windows st ?ws out = read_windows (mmap_read_range_into st) (fs_dim st) ?ws ?buf out"
    using assms(1) by (intro mmap_read_windows_eq)
  then have "mmap_read_points_windowed srt st ids out opts s =
      read_points_windowed srt (mmap_read_range_into st) (fs_dim st) (fs_row_bytes st) ids out opts s"
    by (simp add: mmap_read_points_windowed_def read_points_windowed_def b)
  then show "\<exists>s'. mmap_read_points_windowed srt st ids out opts s = Inr (concat (map (fs_row st) ids), s')"
    using mmap.read_points_windowed_ok [OF assms(4,5,7) pres assms(8)] by simp
qed

text \<open>C27: The windowed gather returns the same rows: for every sorted gather plan (any gap, window and
  alignment options), the direct store in buffered mode and the mapped store fill the output with
  the requested rows in request order, although the windows read rows nobody asked for.\<close>

theorem windowed_read_rows:
  assumes "fs_ok st" "gives give" "dc_alignment c \<le> 2 ^ 63" "unstable_sort srt" "go_sort_ids opts"
    and "\<forall>p \<in> set ids. unat p < fs_num_points st"
    and "length out = length ids * fs_dim st" "length ids * fs_dim st \<le> usize_max"
  shows "(\<exists>s'. direct_read_points_windowed srt give c st ids out opts s = Inr (concat (map (fs_row st) ids), s')) \<and>
    (\<exists>s'. mmap_read_points_windowed srt st ids out opts s = Inr (concat (map (fs_row st) ids), s'))"
  using assms by (rule windowed_rows)

theorem windowed_read_rows_witness:
  "(\<exists>s'. direct_read_points_windowed sort_key (\<lambda>off n. 3) \<lparr>dc_enabled = False, dc_alignment = 512\<rparr> sample_store
      [2, 0, 2] (replicate 6 0) gather_options_default gather_stats_zero = Inr (concat (map (fs_row sample_store) [2, 0, 2]), s')) \<and>
   (\<exists>s'. mmap_read_points_windowed sort_key sample_store
      [2, 0, 2] (replicate 6 0) gather_options_default gather_stats_zero = Inr (concat (map (fs_row sample_store) [2, 0, 2]), s'))"
  by (rule windowed_read_rows [OF sample_store_ok])
    (simp_all add: sample_store_def gives_def usize_max_def unstable_sort_sort_key gather_options_default_def)

section \<open>Opening a file\<close>

definition fbin_bytes :: "nat \<Rightarrow> f32 list list \<Rightarrow> u8 list" where
  "fbin_bytes d rows = le32 (word_of_nat (length rows)) @ le32 (word_of_nat d) @ le32s (concat rows)"

lemma i32_as_usize_small: "n < 2 ^ 31 \<Longrightarrow> i32_as_usize (word_of_nat n) = n"
  using unat_word_of_nat_u32 [of n] by (simp add: i32_as_usize_def)

lemma slice_le32s: "slice (a * 4) (b * 4) (le32s ws) = le32s (slice a b ws)"
proof -
  have "drop (a * 4) (le32s ws) = le32s (drop a ws)" for a ws
  proof (induction ws arbitrary: a)
    case (Cons w ws)
    then show ?case by (cases a) simp_all
  qed simp
  moreover have "take (n * 4) (le32s ws) = le32s (take n ws)" for n ws
    by (induction ws arbitrary: n) (simp_all add: take_Cons split: nat.split)
  moreover have "b * 4 - a * 4 = (b - a) * 4" by simp
  ultimately show ?thesis by (simp only: slice_def)
qed

lemma slice_after: "length h = k \<Longrightarrow> slice (k + a) (k + b) (h @ x) = slice a b x"
  by (auto simp: slice_def)

text \<open>A file with a header for \<open>n\<close> points of dimension \<open>d\<close> followed by the \<open>n\<close> rows is opened by both
  stores, the store is well-formed, and its row \<open>p\<close> is row \<open>p\<close> of the data.\<close>

theorem fbin_roundtrip:
  assumes "\<forall>r \<in> set rows. length r = d" "length rows < 2 ^ 31" "d < 2 ^ 31"
  shows "\<exists>st. mmap_open (fbin_bytes d rows) = Inr st \<and> direct_open (fbin_bytes d rows) = Inr st \<and> fs_ok st \<and>
    fs_num_points st = length rows \<and> fs_dim st = d \<and>
    (\<forall>p. unat p < length rows \<longrightarrow> fs_row st p = rows ! unat p)"
proof -
  let ?f = "fbin_bytes d rows" and ?h = "le32 (word_of_nat (length rows)) @ le32 (word_of_nat d)"
  have f: "?f = ?h @ le32s (concat rows)" by (simp add: fbin_bytes_def)
  have len: "length ?f = FBIN_HEADER_BYTES + length rows * (d * 4)"
    using length_concat_rows [OF assms(1)] by (simp add: f FBIN_HEADER_BYTES_def del: length_concat)
  have meta: "load_metadata_from_file ?f = Inr (length rows, d)"
    using assms(2,3) by (simp add: load_metadata_from_file_def fbin_bytes_def i32_as_usize_small)
  have rb: "sat_mul d 4 = d * 4" using assms(3) by (simp add: sat_mul_def usize_max_def)
  define st where "st = \<lparr>fs_file = ?f, fs_num_points = length rows, fs_dim = d, fs_row_bytes = d * 4\<rparr>"
  have "length rows * (d * 4) \<le> (2 ^ 31 - 1) * ((2 ^ 31 - 1) * 4)"
    using assms(2,3) by (intro mult_le_mono) simp_all
  also have "8 + \<dots> \<le> usize_max" by (simp add: usize_max_def)
  finally have "length ?f \<le> usize_max" by (simp only: len FBIN_HEADER_BYTES_def)
  then have ok: "fs_ok st" using assms(2,3) len by (simp add: fs_ok_def st_def)
  have "fs_row st p = rows ! unat p" if "unat p < length rows" for p
  proof -
    have "fs_row st p = f32s_of_bytes (slice (8 + unat p * (d * 4)) (8 + (unat p * (d * 4) + d * 4)) (?h @ le32s (concat rows)))"
      by (simp add: fs_row_def Let_def st_def FBIN_HEADER_BYTES_def f add.assoc)
    also have "\<dots> = f32s_of_bytes (slice (unat p * d * 4) ((unat p * d + d) * 4) (le32s (concat rows)))"
      by (subst slice_after) (simp_all add: algebra_simps)
    also have "\<dots> = slice (unat p * d) (unat p * d + d) (concat rows)" by (simp only: slice_le32s f32s_le32s)
    also have "\<dots> = rows ! unat p" by (rule slice_row [OF that assms(1)])
    finally show ?thesis .
  qed
  moreover have "mmap_open ?f = Inr st" "direct_open ?f = Inr st"
    by (simp_all add: mmap_open_def direct_open_def meta rb len st_def)
  ultimately show ?thesis using ok by (intro exI [of _ st]) (simp add: st_def)
qed

theorem fbin_roundtrip_witness:
  "\<exists>st. mmap_open (fbin_bytes 2 [[1, 2], [3, 4]]) = Inr st \<and> direct_open (fbin_bytes 2 [[1, 2], [3, 4]]) = Inr st \<and> fs_ok st \<and>
    fs_num_points st = length [[1, 2], [3, 4 :: f32]] \<and> fs_dim st = 2 \<and>
    (\<forall>p. unat p < length [[1, 2], [3, 4 :: f32]] \<longrightarrow> fs_row st p = [[1, 2], [3, 4]] ! unat p)"
  by (rule fbin_roundtrip) simp_all

text \<open>\<open>MmapPointStore::open\<close> only accepts files it can serve: if it succeeds on a file below
  \<open>2 ^ 63\<close> bytes with at least one point of positive dimension, the store is well-formed (the header
  was not a negative number, the rows fit the file, no offset overflows).\<close>

theorem mmap_open_sound:
  assumes "mmap_open f = Inr st" "length f < 2 ^ 63" "0 < fs_num_points st" "0 < fs_dim st"
  shows "fs_ok st \<and> fs_file st = f"
proof -
  from assms(1) obtain n d where nd: "load_metadata_from_file f = Inr (n, d)"
    by (auto simp: mmap_open_def res_bind_Inr_iff)
  then obtain wn wd where w: "n = i32_as_usize wn" "d = i32_as_usize wd"
    by (auto simp: load_metadata_from_file_def res_bind_Inr_iff)
  have st: "st = \<lparr>fs_file = f, fs_num_points = n, fs_dim = d, fs_row_bytes = sat_mul d 4\<rparr>"
      and fit: "FBIN_HEADER_BYTES + n * sat_mul d 4 \<le> length f"
    using assms(1) nd by (auto simp: mmap_open_def Let_def split: if_splits)
  have "sat_mul d 4 \<le> n * sat_mul d 4" using assms(3) by (simp add: st)
  then have "sat_mul d 4 < 2 ^ 63" using fit assms(2) by linarith
  then have d: "sat_mul d 4 = d * 4" "d < 2 ^ 31"
    using unat_lt_u32 [of wd] by (auto simp: sat_mul_def usize_max_def w(2) i32_as_usize_def min_def split: if_splits)
  have "n * 4 \<le> n * (d * 4)" using assms(4) by (simp add: st)
  then have "n * 4 < 2 ^ 63" using fit assms(2) unfolding d(1) by linarith
  then have "n < 2 ^ 61" by simp
  then have "n < 2 ^ 31" by (auto simp: w(1) i32_as_usize_def split: if_splits)
  then show ?thesis using d fit assms(2) by (simp add: fs_ok_def st usize_max_def)
qed

theorem mmap_open_sound_witness:
  "\<exists>st. mmap_open (fbin_bytes 1 [[7], [9]]) = Inr st \<and> fs_ok st \<and> fs_file st = fbin_bytes 1 [[7], [9]]"
proof -
  let ?f = "fbin_bytes 1 [[7], [9]]"
  let ?st = "\<lparr>fs_file = ?f, fs_num_points = 2, fs_dim = 1, fs_row_bytes = 4\<rparr>"
  have "mmap_open ?f = Inr ?st"
    by (simp add: mmap_open_def load_metadata_from_file_def fbin_bytes_def i32_as_usize_def sat_mul_def
        usize_max_def FBIN_HEADER_BYTES_def)
  then show ?thesis using mmap_open_sound [of ?f ?st] by (simp add: fbin_bytes_def)
qed

section \<open>The limited store\<close>

lemma check_pids_ok: "check_pids k ids = Inr () \<longleftrightarrow> (\<forall>p \<in> set ids. unat p < k)"
  by (induction ids) (auto simp: check_pid_def)

lemma check_pids_error: "p \<in> set ids \<Longrightarrow> k \<le> unat p \<Longrightarrow> \<exists>f. check_pids k ids = Inl f"
  by (induction ids) (auto simp: check_pid_def)

interpretation limited_mmap: point_store "fs_dim st" "\<lambda>p. fs_present st p \<and> unat p < k" "fs_row st"
    "limited_read_range_into k (mmap_read_range_into st)" for st k
proof
  show "limited_read_range_into k (mmap_read_range_into st) p n out =
      Inr (concat (map (\<lambda>i. fs_row st (p + word_of_nat i)) [0..<n]))"
    if n: "0 < n" "length out = n * fs_dim st" "n * fs_dim st \<le> usize_max" "unat p + n \<le> 2 ^ 32 - 1"
      "\<forall>i < n. fs_present st (p + word_of_nat i) \<and> unat (p + word_of_nat i) < k" for p n out
  proof -
    have "unat (p + word_of_nat (n - 1)) < k" by (rule n(5) [rule_format, THEN conjunct2]) (use n(1) in simp)
    moreover have "unat (p + word_of_nat (n - 1)) = unat p + (n - 1)" using n(1,4) by (intro unat_add_small) simp
    ultimately have "unat p + n \<le> k" using n(1) by linarith
    moreover have "sat_add (unat p) n = unat p + n" using n(4) by (simp add: sat_add_def usize_max_def)
    ultimately show ?thesis using n mmap.read_range_ok [OF n(1-4)] by (simp add: limited_read_range_into_def)
  qed
qed (auto simp: fs_row_width dest: fs_present_small)

text \<open>A limited store shows exactly the first \<open>k\<close> points of the store below it: if all ids are below
  \<open>k\<close> the read returns their rows, and one id at or above \<open>k\<close> makes the whole read fail.\<close>

theorem limited_store_reads:
  assumes "fs_ok st" "k \<le> fs_num_points st" "length out = length ids * fs_dim st" "length ids * fs_dim st \<le> usize_max"
  shows "if \<forall>p \<in> set ids. unat p < k
    then limited_read_points_into k (mmap_read_points_into st) ids out = Inr (concat (map (fs_row st) ids))
    else \<exists>f. limited_read_points_into k (mmap_read_points_into st) ids out = Inl f"
proof (cases "\<forall>p \<in> set ids. unat p < k")
  case True
  have "mmap_read_points_into st ids out = Inr (concat (map (fs_row st) ids))"
    unfolding mmap_read_points_into_def using assms True
    by (intro mmap.read_points_coalesced_ok) (auto simp: fs_present_def)
  then show ?thesis using True check_pids_ok [of k ids] by (simp add: limited_read_points_into_def)
next
  case False
  then obtain p where "p \<in> set ids" "k \<le> unat p" by (auto simp: not_less)
  then obtain f where "check_pids k ids = Inl f" using check_pids_error by blast
  with False show ?thesis by (simp add: limited_read_points_into_def)
qed

theorem limited_store_reads_witness:
  "if \<forall>p \<in> set [1, 2]. unat (p :: u32) < 2
   then limited_read_points_into 2 (mmap_read_points_into sample_store) [1, 2] (replicate 4 0) =
     Inr (concat (map (fs_row sample_store) [1, 2]))
   else \<exists>f. limited_read_points_into 2 (mmap_read_points_into sample_store) [1, 2] (replicate 4 0) = Inl f"
  by (rule limited_store_reads [OF sample_store_ok]) (simp_all add: sample_store_def usize_max_def)

end
