(* ===== verification/SubsetStore.thy ===== *)
theory SubsetStore
  imports PointStore
begin

text \<open>
  Stores that hold a subset of the rows in memory and are addressed by global id:
  \<open>ResidentSubsetPointStore\<close> (\<^verbatim>\<open>ForgeANN/src/forgeann/point_store.rs\<close>) and
  \<open>ResidentSubsetSketchAccessor\<close> (\<^verbatim>\<open>hash_prune.rs\<close>), which have the same table and the same
  lookups and differ in their messages. The in-memory \<open>SketchStore\<close> is here too.

  \<open>binary_search\<close> runs on strictly increasing keys only, where it finds the position of the key
  if there is one; it is \<open>position\<close>.
\<close>

section \<open>The table\<close>

record subset_store =
  ss_ids :: "u32 list"
  ss_id_to_row :: "(u32 \<times> usize) list"
  ss_data :: "f32 list"
  ss_dim :: usize
  ss_sorted :: bool

type_synonym id_sort = "(u32 \<times> usize \<Rightarrow> u32) \<Rightarrow> (u32 \<times> usize) list \<Rightarrow> (u32 \<times> usize) list"

definition is_strictly_increasing :: "u32 list \<Rightarrow> bool" where
  "is_strictly_increasing ids = windows2_all (<) ids"

definition is_nondecreasing :: "u32 list \<Rightarrow> bool" where
  "is_nondecreasing ids = windows2_all (\<le>) ids"

definition build_id_to_row :: "id_sort \<Rightarrow> u32 list \<Rightarrow> (u32 \<times> usize) list" where
  "build_id_to_row srt ids =
     dedup_by_key fst (srt fst (map (\<lambda>(row, i). (i, row)) (enumerate 0 ids)))"

definition subset_table :: "id_sort \<Rightarrow> u32 list \<Rightarrow> usize \<Rightarrow> f32 list \<Rightarrow> subset_store" where
  "subset_table srt ids dim data =
     (let sorted_unique = is_strictly_increasing ids
      in \<lparr>ss_ids = ids, ss_id_to_row = (if sorted_unique then [] else build_id_to_row srt ids),
          ss_data = data, ss_dim = dim, ss_sorted = sorted_unique\<rparr>)"

definition local_row_for_global_id :: "fault \<Rightarrow> subset_store \<Rightarrow> u32 \<Rightarrow> usize result" where
  "local_row_for_global_id missing st pid =
     (if ss_sorted st
      then (case position (\<lambda>g. g = pid) (ss_ids st) of None \<Rightarrow> Inl missing | Some i \<Rightarrow> Inr i)
      else (case position (\<lambda>e. fst e = pid) (ss_id_to_row st) of
              None \<Rightarrow> Inl missing | Some idx \<Rightarrow> Inr (snd (ss_id_to_row st ! idx))))"

definition local_row_data :: "subset_store \<Rightarrow> usize \<Rightarrow> f32 list" where
  "local_row_data st local_row = slice (local_row * ss_dim st) (local_row * ss_dim st + ss_dim st) (ss_data st)"

text \<open>
  The two loops that fill the output row by row: with a cursor over the sorted ids, and with a
  lookup per id. \<open>row\<close> is the position in the output.
\<close>

fun read_sorted_rows :: "fault \<Rightarrow> subset_store \<Rightarrow> nat \<Rightarrow> nat \<Rightarrow> u32 list \<Rightarrow> f32 list \<Rightarrow> f32 list result" where
  "read_sorted_rows missing st row local_row [] out = Inr out"
| "read_sorted_rows missing st row local_row (pid # ids) out =
     (let l = local_row + length (takeWhile (\<lambda>g. g < pid) (drop local_row (ss_ids st))) in
      if l < length (ss_ids st) \<and> ss_ids st ! l = pid
      then read_sorted_rows missing st (Suc row) l ids
             (put_slice (row * ss_dim st) (local_row_data st l) out)
      else Inl missing)"

fun read_looked_up_rows :: "fault \<Rightarrow> subset_store \<Rightarrow> nat \<Rightarrow> u32 list \<Rightarrow> f32 list \<Rightarrow> f32 list result" where
  "read_looked_up_rows missing st row [] out = Inr out"
| "read_looked_up_rows missing st row (pid # ids) out =
     res_bind (local_row_for_global_id missing st pid) (\<lambda>l.
       read_looked_up_rows missing st (Suc row) ids (put_slice (row * ss_dim st) (local_row_data st l) out))"

definition subset_read_rows :: "fault \<Rightarrow> fault \<Rightarrow> subset_store \<Rightarrow> u32 list \<Rightarrow> f32 list \<Rightarrow> f32 list result" where
  "subset_read_rows missing mismatch st ids out =
     (if length out \<noteq> sat_mul (length ids) (ss_dim st) then Inl mismatch
      else if ids = [] then Inr out
      else if ids = ss_ids st then Inr (ss_data st)
      else if ss_sorted st \<and> is_nondecreasing ids then read_sorted_rows missing st 0 0 ids out
      else read_looked_up_rows missing st 0 ids out)"

section \<open>\<open>ResidentSubsetPointStore\<close>\<close>

definition res_missing :: fault where
  "res_missing = Err (Index ''Point id not present in resident subset point store'')"

definition res_new :: "id_sort \<Rightarrow> u32 list \<Rightarrow> usize \<Rightarrow> f32 list \<Rightarrow> subset_store result" where
  "res_new srt global_ids dim data =
     (if dim = 0 then Inl (Err (Index ''Resident subset point store requires nonzero dimension''))
      else if length data \<noteq> sat_mul (length global_ids) dim
      then Inl (Err (Index ''Resident subset point matrix size mismatch''))
      else Inr (subset_table srt global_ids dim data))"

definition res_point_id_capacity :: "u32 list \<Rightarrow> usize" where
  "res_point_id_capacity ids = (if ids = [] then 0 else foldr max (map unat ids) 0 + 1)"

definition res_read_point_into :: "subset_store \<Rightarrow> u32 \<Rightarrow> f32 list \<Rightarrow> f32 list result" where
  "res_read_point_into st pid out =
     (if length out \<noteq> ss_dim st then Inl (Err (Index ''Point buffer width mismatch''))
      else res_bind (local_row_for_global_id res_missing st pid) (\<lambda>l. Inr (local_row_data st l)))"

definition sat_add32 :: "u32 \<Rightarrow> usize \<Rightarrow> u32" where
  "sat_add32 a n = (let k = unat (word_of_nat n :: u32) in if unat a + k < 2 ^ 32 then a + word_of_nat k else - 1)"

fun res_read_rows_from :: "subset_store \<Rightarrow> u32 \<Rightarrow> nat list \<Rightarrow> f32 list \<Rightarrow> f32 list result" where
  "res_read_rows_from st start_pid [] out = Inr out"
| "res_read_rows_from st start_pid (row # rows) out =
     res_bind (res_read_point_into st (sat_add32 start_pid row)
                 (slice (row * ss_dim st) (row * ss_dim st + ss_dim st) out))
       (\<lambda>r. res_read_rows_from st start_pid rows (put_slice (row * ss_dim st) r out))"

definition res_read_range_into :: "subset_store \<Rightarrow> range_reader" where
  "res_read_range_into st start_pid n out =
     (if n = 0 then Inr out
      else if length out \<noteq> sat_mul n (ss_dim st) then Inl matrix_mismatch
      else
        (case (if ss_sorted st then position (\<lambda>g. g = start_pid) (ss_ids st) else None) of
           Some local_start \<Rightarrow>
             let local_end = sat_add local_start n in
             if local_end \<le> length (ss_ids st) \<and> ss_ids st ! (local_end - 1) = sat_add32 start_pid (n - 1)
             then Inr (slice (local_start * ss_dim st) (local_start * ss_dim st + n * ss_dim st) (ss_data st))
             else res_read_rows_from st start_pid [0..<n] out
         | None \<Rightarrow> res_read_rows_from st start_pid [0..<n] out))"

definition res_read_points_into :: "subset_store \<Rightarrow> u32 list \<Rightarrow> f32 list \<Rightarrow> f32 list result" where
  "res_read_points_into st ids out = subset_read_rows res_missing matrix_mismatch st ids out"

section \<open>Sketch accessors\<close>

definition sketch_missing :: fault where
  "sketch_missing = Err (Index ''Sketch row not present in resident subset'')"

definition sketch_subset_new :: "id_sort \<Rightarrow> u32 list \<Rightarrow> usize \<Rightarrow> f32 list \<Rightarrow> subset_store result" where
  "sketch_subset_new srt global_ids width data =
     (if width = 0 then Inl (Err (Index ''Resident subset sketch accessor requires nonzero width''))
      else if length data \<noteq> sat_mul (length global_ids) width
      then Inl (Err (Index ''Resident subset sketch matrix size mismatch''))
      else Inr (subset_table srt global_ids width data))"

definition sketch_subset_row_copy_into :: "subset_store \<Rightarrow> usize \<Rightarrow> f32 list \<Rightarrow> f32 list result" where
  "sketch_subset_row_copy_into st idx dst =
     (if length dst \<noteq> ss_dim st then Inl (Err (Index ''Sketch row copy width mismatch''))
      else res_bind (local_row_for_global_id sketch_missing st (word_of_nat idx)) (\<lambda>l. Inr (local_row_data st l)))"

definition sketch_subset_read_rows_into :: "subset_store \<Rightarrow> u32 list \<Rightarrow> f32 list \<Rightarrow> f32 list result" where
  "sketch_subset_read_rows_into st ids out =
     subset_read_rows sketch_missing (Err (Index ''Resident subset sketch matrix size mismatch'')) st ids out"

record sketch_store =
  sk_data :: "f32 list"
  sk_width :: usize

definition sketch_row :: "sketch_store \<Rightarrow> usize \<Rightarrow> f32 list result" where
  "sketch_row s idx =
     (let start = idx * sk_width s; stop = start + sk_width s in
      if length (sk_data s) < stop then Inl (Panic ''range end index out of range'')
      else Inr (slice start stop (sk_data s)))"

definition sketch_rows :: "sketch_store \<Rightarrow> usize" where
  "sketch_rows s = (if sk_width s = 0 then 0 else length (sk_data s) div sk_width s)"

definition sketch_row_copy_into :: "sketch_store \<Rightarrow> usize \<Rightarrow> f32 list \<Rightarrow> f32 list result" where
  "sketch_row_copy_into s idx dst =
     (if length dst \<noteq> sk_width s then Inl (Err (Index ''Sketch row copy width mismatch''))
      else sketch_row s idx)"

fun sketch_read_rows_from :: "sketch_store \<Rightarrow> nat \<Rightarrow> u32 list \<Rightarrow> f32 list \<Rightarrow> f32 list result" where
  "sketch_read_rows_from s i [] out = Inr out"
| "sketch_read_rows_from s i (x # xs) out =
     (if length out < (i + 1) * sk_width s then Inl (Panic ''range end index out of range'')
      else res_bind (sketch_row s (unat x)) (\<lambda>r.
        sketch_read_rows_from s (Suc i) xs (put_slice (i * sk_width s) r out)))"

definition sketch_read_rows_into :: "sketch_store \<Rightarrow> u32 list \<Rightarrow> f32 list \<Rightarrow> f32 list result" where
  "sketch_read_rows_into s ids out = sketch_read_rows_from s 0 ids out"

text \<open>
  The bit test of \<open>compute_hash\<close>: \<open>c - p >= 0.0\<close> in f32. IEEE subtraction has gradual underflow, so the
  difference of two finite numbers is zero only if they are equal and has the sign of the exact
  difference otherwise; infinities of one sign and NaNs give NaN, which is not \<open>>= 0.0\<close>.
\<close>

definition f32_is_infinite :: "f32 \<Rightarrow> bool" where
  "f32_is_infinite x \<longleftrightarrow> \<not> f32_is_nan x \<and> \<not> f32_is_finite x"

definition f32_diff_nonneg :: "f32 \<Rightarrow> f32 \<Rightarrow> bool" where
  "f32_diff_nonneg c p \<longleftrightarrow> f32_le p c \<and> \<not> (f32_is_infinite c \<and> f32_is_infinite p \<and> f32_eq c p)"

fun hash_bits :: "f32 list \<Rightarrow> f32 list \<Rightarrow> nat list \<Rightarrow> u16 \<Rightarrow> u16 result" where
  "hash_bits p c [] h = Inr h"
| "hash_bits p c (i # is) h =
     (if length c \<le> i \<or> length p \<le> i then Inl (Panic ''index out of bounds'')
      else hash_bits p c is (or h (push_bit i (if f32_diff_nonneg (c ! i) (p ! i) then 1 else 0))))"

definition compute_hash :: "f32 list \<Rightarrow> f32 list \<Rightarrow> nat \<Rightarrow> u16 result" where
  "compute_hash sketch_p sketch_c m_bits =
     (if 16 < m_bits then Inl (Panic ''m_bits must be <= 16'')
      else hash_bits sketch_p sketch_c [0..<m_bits] 0)"

section \<open>Lookups\<close>

definition subset_ok :: "subset_store \<Rightarrow> bool" where
  [inv_defs]: "subset_ok st \<longleftrightarrow> 0 < ss_dim st \<and> length (ss_data st) = length (ss_ids st) * ss_dim st \<and>
     (ss_sorted st \<longleftrightarrow> sorted_wrt (<) (ss_ids st)) \<and>
     (\<not> ss_sorted st \<longrightarrow> fst ` set (ss_id_to_row st) = set (ss_ids st) \<and>
        (\<forall>e \<in> set (ss_id_to_row st). snd e < length (ss_ids st) \<and> ss_ids st ! snd e = fst e))"

lemma build_id_to_row_props:
  assumes "unstable_sort srt"
  shows "fst ` set (build_id_to_row srt ids) = set ids"
    "\<forall>e \<in> set (build_id_to_row srt ids). snd e < length ids \<and> ids ! snd e = fst e"
    "sorted_wrt (<) (map fst (build_id_to_row srt ids))"
proof -
  let ?es = "map (\<lambda>(row, i). (i, row)) (enumerate 0 ids)"
  have m: "mset (srt fst ?es) = mset ?es" and s: "sorted (map fst (srt fst ?es))"
    using assms by (simp_all add: unstable_sortD)
  have set: "set (srt fst ?es) = set ?es" using m by (rule mset_eq_setD)
  have "map fst ?es = ids" by (simp add: comp_def case_prod_unfold)
  then have "fst ` set ?es = set ids" by (metis list.set_map)
  then show "fst ` set (build_id_to_row srt ids) = set ids"
    unfolding build_id_to_row_def keys_dedup_by_key set .
  have "\<forall>e \<in> set ?es. snd e < length ids \<and> ids ! snd e = fst e" by (auto simp: in_set_enumerate_eq)
  then show "\<forall>e \<in> set (build_id_to_row srt ids). snd e < length ids \<and> ids ! snd e = fst e"
    using set_dedup_by_key_subset [of fst "srt fst ?es"] unfolding build_id_to_row_def set by blast
  show "sorted_wrt (<) (map fst (build_id_to_row srt ids))"
    unfolding build_id_to_row_def by (rule dedup_by_key_strict [OF s])
qed

lemma subset_table_ok:
  assumes "unstable_sort srt" "0 < dim" "length data = length ids * dim"
  shows "subset_ok (subset_table srt ids dim data)"
  using assms build_id_to_row_props [OF assms(1), of ids]
  by (simp add: subset_ok_def subset_table_def Let_def is_strictly_increasing_def windows2_all_less)

lemma position_found:
  assumes "x \<in> set xs"
  obtains i where "position (\<lambda>g. g = x) xs = Some i" "i < length xs" "xs ! i = x"
proof (cases "position (\<lambda>g. g = x) xs")
  case None
  then have "\<forall>y \<in> set xs. y \<noteq> x" by (simp add: position_None)
  then show thesis using assms by blast
next
  case (Some i)
  then show thesis using that [of i] position_Some [OF Some] by simp
qed

lemma local_row_present:
  assumes "subset_ok st" "pid \<in> set (ss_ids st)"
  obtains l where "local_row_for_global_id missing st pid = Inr l" "l < length (ss_ids st)" "ss_ids st ! l = pid"
proof (cases "ss_sorted st")
  case True
  obtain i where "position (\<lambda>g. g = pid) (ss_ids st) = Some i" "i < length (ss_ids st)" "ss_ids st ! i = pid"
    using assms(2) by (rule position_found)
  then show thesis using that [of i] True by (simp add: local_row_for_global_id_def)
next
  case False
  have "\<exists>e \<in> set (ss_id_to_row st). fst e = pid"
    using assms False by (force simp: subset_ok_def)
  then obtain idx where idx: "position (\<lambda>e. fst e = pid) (ss_id_to_row st) = Some idx"
    by (metis (mono_tags, lifting) not_None_eq position_None)
  note pos = position_Some [OF idx]
  then have "ss_id_to_row st ! idx \<in> set (ss_id_to_row st)" by simp
  then have "snd (ss_id_to_row st ! idx) < length (ss_ids st)" "ss_ids st ! snd (ss_id_to_row st ! idx) = pid"
    using assms(1) False pos by (auto simp: subset_ok_def)
  then show thesis using that [of "snd (ss_id_to_row st ! idx)"] idx False
    by (simp add: local_row_for_global_id_def)
qed

lemma local_row_missing:
  assumes "subset_ok st" "pid \<notin> set (ss_ids st)"
  shows "local_row_for_global_id missing st pid = Inl missing"
proof -
  have "\<forall>e \<in> set (ss_id_to_row st). fst e \<noteq> pid" if "\<not> ss_sorted st"
    using assms that by (force simp: subset_ok_def)
  moreover have "\<forall>g \<in> set (ss_ids st). g \<noteq> pid" using assms(2) by auto
  ultimately show ?thesis
    by (cases "ss_sorted st") (simp_all add: local_row_for_global_id_def position_case_None)
qed

text \<open>The row of an id: the first row of the table with that id. Equal ids must carry equal rows.\<close>

definition table_rows :: "subset_store \<Rightarrow> f32 list list" where
  "table_rows st = rows_of (length (ss_ids st)) (ss_dim st) (ss_data st)"

definition table_row :: "subset_store \<Rightarrow> u32 \<Rightarrow> f32 list" where
  "table_row st p = (case position (\<lambda>g. g = p) (ss_ids st) of None \<Rightarrow> [] | Some i \<Rightarrow> table_rows st ! i)"

definition consistent :: "subset_store \<Rightarrow> bool" where
  "consistent st \<longleftrightarrow> (\<forall>i < length (ss_ids st). table_rows st ! i = table_row st (ss_ids st ! i))"

lemma distinct_consistent: "distinct (ss_ids st) \<Longrightarrow> consistent st"
  unfolding consistent_def table_row_def
proof (intro allI impI)
  fix i assume d: "distinct (ss_ids st)" and i: "i < length (ss_ids st)"
  obtain j where j: "position (\<lambda>g. g = ss_ids st ! i) (ss_ids st) = Some j"
    and "j < length (ss_ids st)" "ss_ids st ! j = ss_ids st ! i" using nth_mem [OF i] by (rule position_found)
  then have "j = i" using d i by (simp add: nth_eq_iff_index_eq)
  with j show "table_rows st ! i =
      (case position (\<lambda>g. g = ss_ids st ! i) (ss_ids st) of None \<Rightarrow> [] | Some i \<Rightarrow> table_rows st ! i)" by simp
qed

lemma table_rows_props:
  assumes "subset_ok st"
  shows "length (table_rows st) = length (ss_ids st)" "\<forall>r \<in> set (table_rows st). length r = ss_dim st"
    "concat (table_rows st) = ss_data st"
proof -
  have "length (ss_data st) = length (ss_ids st) * ss_dim st" using assms by (simp add: subset_ok_def)
  note r = rows_of_props [OF this, folded table_rows_def]
  show "length (table_rows st) = length (ss_ids st)" "\<forall>r \<in> set (table_rows st). length r = ss_dim st"
    "concat (table_rows st) = ss_data st" by (rule r)+
qed

lemma local_row_data_row:
  assumes "subset_ok st" "consistent st" "l < length (ss_ids st)"
  shows "local_row_data st l = table_row st (ss_ids st ! l)" "length (local_row_data st l) = ss_dim st"
proof -
  note t = table_rows_props [OF assms(1)]
  have l: "l < length (table_rows st)" using assms(3) t(1) by simp
  have "local_row_data st l = table_rows st ! l"
    using slice_row [OF l t(2)] t(3) by (simp add: local_row_data_def)
  then show "local_row_data st l = table_row st (ss_ids st ! l)" "length (local_row_data st l) = ss_dim st"
    using assms(2,3) t(2) nth_mem [OF l] by (simp add: consistent_def, metis)
qed

section \<open>The two reading loops\<close>

lemma put_row_step:
  assumes "length out = (row + Suc n) * w" "length r = w"
  shows "length (put_slice (row * w) r out) = (Suc row + n) * w"
    "take (Suc row * w) (put_slice (row * w) r out) = take (row * w) out @ r"
proof -
  have "row * w + w \<le> length out" using assms(1) by (simp add: algebra_simps)
  then show "length (put_slice (row * w) r out) = (Suc row + n) * w"
    using assms by (subst length_put_slice) (simp_all add: algebra_simps)
  show "take (Suc row * w) (put_slice (row * w) r out) = take (row * w) out @ r"
    using \<open>row * w + w \<le> length out\<close> assms(2) by (simp add: put_slice_def min_def)
qed

lemma read_looked_up_ok:
  assumes "subset_ok st" "consistent st"
  shows "set ids \<subseteq> set (ss_ids st) \<Longrightarrow> length out = (row + length ids) * ss_dim st \<Longrightarrow>
    read_looked_up_rows missing st row ids out = Inr (take (row * ss_dim st) out @ concat (map (table_row st) ids))"
proof (induction ids arbitrary: row out)
  case (Cons pid ids)
  obtain l where l: "local_row_for_global_id missing st pid = Inr l" "l < length (ss_ids st)" "ss_ids st ! l = pid"
    using local_row_present [OF assms(1), of pid missing] Cons.prems(1) by auto
  note d = local_row_data_row [OF assms l(2)]
  have "length out = (row + Suc (length ids)) * ss_dim st" using Cons.prems(2) by simp
  note p = put_row_step [OF this d(2)]
  show ?case using Cons.IH [OF _ p(1)] Cons.prems(1) l p(2) d(1) by simp
qed simp

lemma read_looked_up_missing:
  assumes "subset_ok st" "\<not> set ids \<subseteq> set (ss_ids st)"
  shows "read_looked_up_rows missing st row ids out = Inl missing"
  using assms(2)
proof (induction ids arbitrary: row out)
  case (Cons pid ids)
  show ?case
  proof (cases "pid \<in> set (ss_ids st)")
    case True
    then obtain l where "local_row_for_global_id missing st pid = Inr l"
      using local_row_present [OF assms(1)] by metis
    then show ?thesis using Cons True by simp
  next
    case False
    then show ?thesis by (simp add: local_row_missing [OF assms(1)])
  qed
qed simp

lemma takeWhile_skip:
  "\<forall>x \<in> set (take k xs). P x \<Longrightarrow> k \<le> length xs \<Longrightarrow> k + length (takeWhile P (drop k xs)) = length (takeWhile P xs)"
  by (metis append_take_drop_id length_append length_take min.absorb2 takeWhile_append2)

lemma sorted_find:
  fixes xs :: "u32 list" and p :: u32
  assumes "sorted_wrt (<) xs"
  defines "n \<equiv> length (takeWhile (\<lambda>g. g < p) xs)"
  shows "p \<in> set xs \<longleftrightarrow> n < length xs \<and> xs ! n = p"
proof
  assume "p \<in> set xs"
  then obtain k where k: "k < length xs" "xs ! k = p" by (auto simp: in_set_conv_nth)
  have "n \<le> k"
  proof (rule ccontr)
    assume "\<not> n \<le> k"
    then have "xs ! k < p" using nth_length_takeWhile set_takeWhileD
      by (metis (mono_tags, lifting) n_def not_less nth_mem takeWhile_nth)
    then show False using k by simp
  qed
  then have n: "n < length xs" using k by simp
  then have "\<not> xs ! n < p" unfolding n_def by (rule nth_length_takeWhile)
  moreover have "n < k \<Longrightarrow> xs ! n < xs ! k" using assms(1) k(1) by (simp add: sorted_wrt_nth_less)
  ultimately show "n < length xs \<and> xs ! n = p" using n k \<open>n \<le> k\<close> by (cases "n = k") auto
qed auto

lemma read_sorted_ok:
  assumes "subset_ok st" "consistent st" "ss_sorted st"
  shows "sorted ids \<Longrightarrow> (ids \<noteq> [] \<Longrightarrow> \<forall>g \<in> set (take k (ss_ids st)). g < hd ids) \<Longrightarrow> k \<le> length (ss_ids st) \<Longrightarrow>
    length out = (row + length ids) * ss_dim st \<Longrightarrow>
    read_sorted_rows missing st row k ids out =
      (if set ids \<subseteq> set (ss_ids st) then Inr (take (row * ss_dim st) out @ concat (map (table_row st) ids))
       else Inl missing)"
proof (induction ids arbitrary: row k out)
  case (Cons pid ids)
  let ?n = "length (takeWhile (\<lambda>g. g < pid) (ss_ids st))"
  have srt: "sorted_wrt (<) (ss_ids st)" using assms(1,3) by (simp add: subset_ok_def)
  have n: "k + length (takeWhile (\<lambda>g. g < pid) (drop k (ss_ids st))) = ?n"
    using Cons.prems(2,3) by (intro takeWhile_skip) auto
  show ?case
  proof (cases "pid \<in> set (ss_ids st)")
    case False
    then have "\<not> (?n < length (ss_ids st) \<and> ss_ids st ! ?n = pid)" using sorted_find [OF srt] by blast
    with n False show ?thesis by (auto simp: Let_def)
  next
    case True
    then have l: "?n < length (ss_ids st)" "ss_ids st ! ?n = pid" using sorted_find [OF srt, of pid] by auto
    note d = local_row_data_row [OF assms(1,2) l(1)]
    have "length out = (row + Suc (length ids)) * ss_dim st" using Cons.prems(4) by simp
    note p = put_row_step [OF this d(2)]
    have "\<forall>g \<in> set (take ?n (ss_ids st)). g < pid"
      by (metis set_takeWhileD takeWhile_eq_take)
    moreover have "ids \<noteq> [] \<Longrightarrow> pid \<le> hd ids" using Cons.prems(1) by (cases ids) auto
    ultimately have "ids \<noteq> [] \<Longrightarrow> \<forall>g \<in> set (take ?n (ss_ids st)). g < hd ids" by fastforce
    from Cons.IH [OF _ this _ p(1)] Cons.prems(1) l
    have "read_sorted_rows missing st (Suc row) ?n ids (put_slice (row * ss_dim st) (local_row_data st ?n) out) =
      (if set ids \<subseteq> set (ss_ids st)
       then Inr (take (Suc row * ss_dim st) (put_slice (row * ss_dim st) (local_row_data st ?n) out) @
              concat (map (table_row st) ids))
       else Inl missing)" by simp
    then show ?thesis using n l True p(2) d(1) by (simp add: Let_def)
  qed
qed simp

lemma subset_read_rows_ok:
  assumes "subset_ok st" "consistent st" "length out = length ids * ss_dim st" "length ids * ss_dim st \<le> usize_max"
  shows "subset_read_rows missing mismatch st ids out =
    (if set ids \<subseteq> set (ss_ids st) then Inr (concat (map (table_row st) ids)) else Inl missing)"
proof -
  consider (empty) "ids = []" | (same) "ids \<noteq> []" "ids = ss_ids st"
    | (sorted) "ids \<noteq> []" "ids \<noteq> ss_ids st" "ss_sorted st \<and> is_nondecreasing ids"
    | (other) "ids \<noteq> []" "ids \<noteq> ss_ids st" "\<not> (ss_sorted st \<and> is_nondecreasing ids)" by blast
  then show ?thesis
  proof cases
    case empty
    then show ?thesis using assms(3) by (simp add: subset_read_rows_def)
  next
    case same
    note t = table_rows_props [OF assms(1)]
    have "map (table_row st) (ss_ids st) = table_rows st"
      using assms(2) t(1) by (intro nth_equalityI) (auto simp: consistent_def)
    then show ?thesis using same assms(3,4) t(3) by (simp add: subset_read_rows_def)
  next
    case sorted
    then have "sorted ids" "ss_sorted st" by (auto simp: is_nondecreasing_def windows2_all_le)
    then show ?thesis using sorted assms read_sorted_ok [of st ids 0 out 0 missing]
      by (simp add: subset_read_rows_def)
  next
    case other
    then have "subset_read_rows missing mismatch st ids out = read_looked_up_rows missing st 0 ids out"
      using assms(3,4) by (auto simp: subset_read_rows_def)
    then show ?thesis using assms read_looked_up_ok [of st ids out 0 missing] read_looked_up_missing [of st ids missing 0 out]
      by simp
  qed
qed

text \<open>C36: A resident subset store serves the rows it was built from. Whatever the order of the ids it was
  built with, and whichever of its three code paths a request takes (the whole table, the merge over
  sorted ids, one lookup per id), it returns the requested rows in request order, and it fails if
  and only if an id is not in the table.\<close>

theorem resident_subset_reads:
  assumes "unstable_sort srt" "res_new srt global_ids dim data = Inr st" "length global_ids * dim \<le> usize_max"
    and "consistent st" "length out = length ids * dim" "length ids * dim \<le> usize_max"
  shows "res_read_points_into st ids out =
    (if set ids \<subseteq> set global_ids then Inr (concat (map (table_row st) ids)) else Inl res_missing)"
proof -
  have st: "st = subset_table srt global_ids dim data" "0 < dim" "length data = length global_ids * dim"
    using assms(2,3) by (auto simp: res_new_def split: if_splits)
  have "subset_ok st" unfolding st(1) by (rule subset_table_ok [OF assms(1) st(2,3)])
  moreover have "ss_ids st = global_ids" "ss_dim st = dim" by (simp_all add: st(1) subset_table_def Let_def)
  ultimately show ?thesis using subset_read_rows_ok [of st out ids] assms(4-6)
    by (simp add: res_read_points_into_def)
qed

definition sample_subset :: subset_store where
  "sample_subset = subset_table sort_key [7, 3, 9] 2 [1, 2, 3, 4, 5, 6]"

lemma sample_subset_consistent: "consistent sample_subset"
  by (rule distinct_consistent) (simp add: sample_subset_def subset_table_def Let_def)

theorem resident_subset_reads_witness:
  "res_read_points_into sample_subset [9, 3, 9] (replicate 6 0) =
    (if set [9 :: u32, 3, 9] \<subseteq> set [7, 3, 9] then Inr (concat (map (table_row sample_subset) [9, 3, 9])) else Inl res_missing)"
  by (rule resident_subset_reads [OF unstable_sort_sort_key _ _ sample_subset_consistent, where dim = 2 and data = "[1, 2, 3, 4, 5, 6]"])
    (simp_all add: res_new_def sample_subset_def sat_mul_def usize_max_def)

lemma rows_of_concat: "\<forall>r \<in> set rows. length r = w \<Longrightarrow> rows_of (length rows) w (concat rows) = rows"
  by (intro nth_equalityI) (simp_all add: rows_of_def slice_row)

lemma sketch_read_rows_ok:
  assumes "\<forall>x \<in> set ids. (unat x + 1) * sk_width s \<le> length (sk_data s)"
  shows "length out = (i + length ids) * sk_width s \<Longrightarrow> sketch_read_rows_from s i ids out =
    Inr (take (i * sk_width s) out @ concat (map (\<lambda>x. slice (unat x * sk_width s) (unat x * sk_width s + sk_width s) (sk_data s)) ids))"
  using assms
proof (induction ids arbitrary: i out)
  case (Cons x xs)
  let ?r = "slice (unat x * sk_width s) (unat x * sk_width s + sk_width s) (sk_data s)"
  have x: "(unat x + 1) * sk_width s \<le> length (sk_data s)" using Cons.prems(2) by simp
  then have r: "sketch_row s (unat x) = Inr ?r" "length ?r = sk_width s"
    by (simp_all add: sketch_row_def Let_def algebra_simps length_slice)
  have "length out = (i + Suc (length xs)) * sk_width s" using Cons.prems(1) by simp
  note p = put_row_step [OF this r(2)]
  have "\<not> length out < (i + 1) * sk_width s" using Cons.prems(1) by (simp add: algebra_simps)
  then show ?case using Cons.IH [OF p(1)] Cons.prems(2) r p(2) by simp
qed simp

text \<open>The sketch accessor over a subset and the full \<open>SketchStore\<close> agree: if the subset's rows are
  the rows of the full store at its ids, reading any ids of the subset in any order gives the same
  sketches through either.\<close>

theorem sketch_subset_agrees:
  assumes "unstable_sort srt" "sketch_subset_new srt global_ids (sk_width s) data = Inr st"
    and "length global_ids * sk_width s \<le> usize_max" "length ids * sk_width s \<le> usize_max"
    and "sketch_read_rows_into s global_ids (replicate (length global_ids * sk_width s) 0) = Inr data"
    and "\<forall>x \<in> set global_ids. (unat x + 1) * sk_width s \<le> length (sk_data s)"
    and "set ids \<subseteq> set global_ids" "length out = length ids * sk_width s"
  shows "sketch_subset_read_rows_into st ids out = sketch_read_rows_into s ids out"
proof -
  let ?r = "\<lambda>x. slice (unat x * sk_width s) (unat x * sk_width s + sk_width s) (sk_data s)"
  have st: "st = subset_table srt global_ids (sk_width s) data" "0 < sk_width s"
    "length data = length global_ids * sk_width s"
    using assms(2,3) by (auto simp: sketch_subset_new_def split: if_splits)
  have ok: "subset_ok st" unfolding st(1) by (rule subset_table_ok [OF assms(1) st(2,3)])
  have st': "ss_ids st = global_ids" "ss_dim st = sk_width s" "ss_data st = data"
    by (simp_all add: st(1) subset_table_def Let_def)
  have "data = concat (map ?r global_ids)"
    using sketch_read_rows_ok [OF assms(6), of "replicate (length global_ids * sk_width s) 0" 0] assms(5)
    by (simp add: sketch_read_rows_into_def)
  moreover have "\<forall>r \<in> set (map ?r global_ids). length r = sk_width s"
    using assms(6) by (auto simp: length_slice algebra_simps)
  from rows_of_concat [OF this] have "rows_of (length global_ids) (sk_width s) (concat (map ?r global_ids)) = map ?r global_ids"
    by simp
  ultimately have rows: "table_rows st = map ?r global_ids" by (simp add: table_rows_def st')
  have row: "table_row st x = ?r x" if x: "x \<in> set global_ids" for x
  proof -
    obtain i where "position (\<lambda>g. g = x) global_ids = Some i" "i < length global_ids" "global_ids ! i = x"
      by (rule position_found [OF x])
    then show ?thesis by (simp add: table_row_def st' rows)
  qed
  then have "consistent st" by (simp add: consistent_def rows st')
  then have "sketch_subset_read_rows_into st ids out = Inr (concat (map (table_row st) ids))"
    using subset_read_rows_ok [OF ok, of out ids] assms(4,7,8) by (simp add: sketch_subset_read_rows_into_def st')
  also have "map (table_row st) ids = map ?r ids" using row assms(7) by auto
  also have "Inr (concat (map ?r ids)) = sketch_read_rows_into s ids out"
    using sketch_read_rows_ok [of ids s out 0] assms(8) subsetD [OF assms(7)] assms(6)
    by (simp add: sketch_read_rows_into_def)
  finally show ?thesis .
qed

lemma replicate_4: "replicate 4 x = [x, x, x, x]"
  by (simp add: numeral_eq_Suc)

definition sample_sketches :: sketch_store where
  "sample_sketches = \<lparr>sk_data = [1, 2, 3, 4, 5, 6], sk_width = 2\<rparr>"

theorem sketch_subset_agrees_witness:
  "sketch_subset_read_rows_into (subset_table sort_key [2, 0] 2 [5, 6, 1, 2]) [0, 2, 2] (replicate 6 0) =
    sketch_read_rows_into sample_sketches [0, 2, 2] (replicate 6 0)"
  by (rule sketch_subset_agrees [OF unstable_sort_sort_key, where global_ids = "[2, 0]" and data = "[5, 6, 1, 2]"])
    (simp_all add: sketch_subset_new_def sample_sketches_def sat_mul_def usize_max_def sketch_read_rows_into_def
      sketch_row_def slice_def put_slice_def Let_def replicate_4)

section \<open>\<open>compute_hash\<close>\<close>

lemma bit_u16_or_push: "bit (or h (push_bit i (if b then 1 else 0)) :: u16) j \<longleftrightarrow> bit h j \<or> (b \<and> j = i \<and> i < 16)"
  by (auto simp: bit_simps)

lemma hash_bits_ok:
  assumes "\<forall>i \<in> set is. i < length c \<and> i < length p \<and> i < 16"
  shows "\<exists>r. hash_bits p c is h = Inr r \<and>
    (\<forall>j. bit r j \<longleftrightarrow> bit h j \<or> (j \<in> set is \<and> f32_diff_nonneg (c ! j) (p ! j)))"
  using assms
proof (induction "is" arbitrary: h)
  case (Cons i "is")
  let ?h = "or h (push_bit i (if f32_diff_nonneg (c ! i) (p ! i) then 1 else 0)) :: u16"
  obtain r where r: "hash_bits p c is ?h = Inr r"
    "\<forall>j. bit r j \<longleftrightarrow> bit ?h j \<or> (j \<in> set is \<and> f32_diff_nonneg (c ! j) (p ! j))" using Cons by force
  then have "bit r j \<longleftrightarrow> bit h j \<or> (j \<in> set (i # is) \<and> f32_diff_nonneg (c ! j) (p ! j))" for j
    unfolding r(2) [rule_format] bit_u16_or_push using Cons.prems by auto
  with r(1) show ?case using Cons.prems by (simp add: not_le)
qed simp

text \<open>A pair's hash is its vector of signs. For at most 16 planes that both sketches cover,
  \<open>compute_hash\<close> returns the 16-bit word whose bit i says, for i below the number of planes, that
  sketch coordinate i of the candidate minus that of the point is not negative; the other bits are
  zero. More than 16 planes, or a sketch shorter than the number of planes, panics.\<close>

theorem compute_hash_spec:
  "m \<le> 16 \<Longrightarrow> m \<le> length p \<Longrightarrow> m \<le> length c \<Longrightarrow>
     \<exists>h. compute_hash p c m = Inr h \<and> (\<forall>i. bit h i \<longleftrightarrow> i < m \<and> f32_diff_nonneg (c ! i) (p ! i))"
  using hash_bits_ok [of "[0..<m]" c p 0] by (auto simp: compute_hash_def)

theorem compute_hash_spec_witness:
  "\<exists>h. compute_hash [0, 0x40000000] [0x3F800000, 0x3F800000] 2 = Inr h \<and>
    (\<forall>i. bit h i \<longleftrightarrow> i < 2 \<and> f32_diff_nonneg ([0x3F800000, 0x3F800000] ! i) ([0, 0x40000000] ! i))"
  by (rule compute_hash_spec) simp_all

section \<open>Ranges\<close>

lemma sat_add32_less: "unat a + n < 2 ^ 32 \<Longrightarrow> sat_add32 a n = a + word_of_nat n"
  by (simp add: sat_add32_def Let_def unat_word_of_nat_u32)

lemma res_rows_from_ok:
  assumes "subset_ok st" "consistent st" "unat a + (k + n) < 2 ^ 32 \<or> n = 0"
    and "\<forall>i < k + n. k \<le> i \<longrightarrow> a + word_of_nat i \<in> set (ss_ids st)"
  shows "length out = (k + n) * ss_dim st \<Longrightarrow> res_read_rows_from st a [k..<k + n] out =
    Inr (take (k * ss_dim st) out @ concat (map (\<lambda>i. table_row st (a + word_of_nat i)) [k..<k + n]))"
  using assms(3,4)
proof (induction n arbitrary: k out)
  case (Suc n)
  let ?p = "a + word_of_nat k"
  have in_set: "?p \<in> set (ss_ids st)" using Suc.prems(3) by simp
  then obtain l where l: "local_row_for_global_id res_missing st ?p = Inr l" "l < length (ss_ids st)" "ss_ids st ! l = ?p"
    using local_row_present [OF assms(1), of ?p res_missing] by blast
  note d = local_row_data_row [OF assms(1,2) l(2)]
  have out: "length out = (k + Suc n) * ss_dim st" using Suc.prems(1) .
  note p = put_row_step [OF out d(2)]
  have "length (slice (k * ss_dim st) (k * ss_dim st + ss_dim st) out) = ss_dim st"
    using out by (simp add: length_slice algebra_simps)
  moreover have "sat_add32 a k = ?p" using Suc.prems(2) by (intro sat_add32_less) simp
  ultimately have step: "res_read_point_into st (sat_add32 a k) (slice (k * ss_dim st) (k * ss_dim st + ss_dim st) out) =
      Inr (local_row_data st l)" using l(1) by (simp add: res_read_point_into_def)
  have ks: "[k..<k + Suc n] = k # [Suc k..<Suc k + n]" by (simp add: upt_rec)
  have "res_read_rows_from st a [Suc k..<Suc k + n] (put_slice (k * ss_dim st) (local_row_data st l) out) =
    Inr (take (Suc k * ss_dim st) (put_slice (k * ss_dim st) (local_row_data st l) out) @
      concat (map (\<lambda>i. table_row st (a + word_of_nat i)) [Suc k..<Suc k + n]))"
    using Suc.prems(2,3) by (intro Suc.IH p(1)) auto
  then show ?case unfolding ks using step p(2) d(1) l(3) by simp
qed simp

lemma strict_run:
  fixes xs :: "u32 list"
  assumes "sorted_wrt (<) xs" "l + n < length xs" "unat (xs ! (l + n)) = unat (xs ! l) + n" "i \<le> n"
  shows "unat (xs ! (l + i)) = unat (xs ! l) + i"
proof -
  have up: "unat (xs ! a) + d \<le> unat (xs ! (a + d))" if "a + d < length xs" for a d
    using that
  proof (induction d)
    case (Suc d)
    then have "xs ! (a + d) < xs ! (a + Suc d)" using assms(1) by (simp add: sorted_wrt_nth_less)
    then show ?case using Suc by (simp add: word_less_nat_alt)
  qed simp
  have "unat (xs ! l) + i \<le> unat (xs ! (l + i))" using up [of l i] assms(2,4) by simp
  moreover have "unat (xs ! (l + i)) + (n - i) \<le> unat (xs ! (l + n))" using up [of "l + i" "n - i"] assms(2,4) by simp
  ultimately show ?thesis using assms(3,4) by linarith
qed

lemma slice_rows:
  assumes "a + n \<le> length rs" "\<forall>r \<in> set rs. length r = w"
  shows "slice (a * w) (a * w + n * w) (concat rs) = concat (map (\<lambda>i. rs ! (a + i)) [0..<n])"
proof -
  have rs: "rs = take a rs @ take n (drop a rs) @ drop (a + n) rs"
    by (metis append_take_drop_id take_add append.assoc)
  have "\<forall>r \<in> set (take a rs). length r = w" "\<forall>r \<in> set (take n (drop a rs)). length r = w"
    using assms(2) by (meson in_set_takeD in_set_dropD)+
  then have "length (concat (take a rs)) = a * w" "length (concat (take n (drop a rs))) = n * w"
    using assms(1) length_concat_rows [of "take a rs" w] length_concat_rows [of "take n (drop a rs)" w] by simp_all
  then have "slice (a * w) (a * w + n * w) (concat rs) = concat (take n (drop a rs))"
    by (subst rs) (simp add: slice_def)
  also have "take n (drop a rs) = map (\<lambda>i. rs ! (a + i)) [0..<n]"
    using assms(1) by (intro nth_equalityI) simp_all
  finally show ?thesis .
qed

lemma strict_ids_short: "sorted_wrt (<) (xs :: u32 list) \<Longrightarrow> length xs \<le> 2 ^ 32"
  using card_mono [of "UNIV :: u32 set" "set xs"] distinct_card [of xs]
  by (simp add: strict_sorted_iff card_word)

definition res_present :: "subset_store \<Rightarrow> u32 \<Rightarrow> bool" where
  "res_present st p \<longleftrightarrow> subset_ok st \<and> consistent st \<and> p \<in> set (ss_ids st) \<and> unat p < 2 ^ 32 - 1"

lemma res_fast_range:
  assumes "subset_ok st" "consistent st" "ss_sorted st" "position (\<lambda>g. g = p) (ss_ids st) = Some l"
    and "l + n \<le> length (ss_ids st)" "0 < n" "unat p + n \<le> 2 ^ 32 - 1"
    and "ss_ids st ! (l + n - 1) = p + word_of_nat (n - 1)"
  shows "slice (l * ss_dim st) (l * ss_dim st + n * ss_dim st) (ss_data st) =
    concat (map (\<lambda>i. table_row st (p + word_of_nat i)) [0..<n])"
proof -
  have srt: "sorted_wrt (<) (ss_ids st)" using assms(1,3) by (simp add: subset_ok_def)
  have l: "ss_ids st ! l = p" using position_Some [OF assms(4)] by simp
  have un: "unat (p + word_of_nat i) = unat p + i" if "i < n" for i
    using that assms(7) by (simp add: unat_word_ariths unat_word_of_nat_u32)
  have "ss_ids st ! (l + i) = p + word_of_nat i" if "i < n" for i
  proof -
    have "unat (ss_ids st ! (l + i)) = unat (ss_ids st ! l) + i"
    proof (rule strict_run [OF srt])
      show "l + (n - 1) < length (ss_ids st)" using assms(5,6) by linarith
      show "i \<le> n - 1" using that by simp
      show "unat (ss_ids st ! (l + (n - 1))) = unat (ss_ids st ! l) + (n - 1)"
        using assms(6,8) l un [of "n - 1"] by simp
    qed
    then show ?thesis using un [OF that] l by (simp add: word_unat_eq_iff)
  qed
  then have "table_rows st ! (l + i) = table_row st (p + word_of_nat i)" if "i < n" for i
    using that assms(2,5) by (simp add: consistent_def)
  then have eq: "map (\<lambda>i. table_rows st ! (l + i)) [0..<n] = map (\<lambda>i. table_row st (p + word_of_nat i)) [0..<n]"
    by simp
  note t = table_rows_props [OF assms(1)]
  have "slice (l * ss_dim st) (l * ss_dim st + n * ss_dim st) (concat (table_rows st)) =
      concat (map (\<lambda>i. table_rows st ! (l + i)) [0..<n])"
    using assms(5) t(1) by (intro slice_rows [OF _ t(2)]) simp
  then show ?thesis unfolding t(3) eq .
qed

lemma res_read_range_ok:
  assumes "subset_ok st" "consistent st" "0 < n" "length out = n * ss_dim st" "n * ss_dim st \<le> usize_max"
    and "unat p + n \<le> 2 ^ 32 - 1" "\<forall>i < n. p + word_of_nat i \<in> set (ss_ids st)"
  shows "res_read_range_into st p n out = Inr (concat (map (\<lambda>i. table_row st (p + word_of_nat i)) [0..<n]))"
proof -
  have slow: "res_read_rows_from st p [0..<n] out = Inr (concat (map (\<lambda>i. table_row st (p + word_of_nat i)) [0..<n]))"
    using res_rows_from_ok [OF assms(1,2), of p 0 n out] assms(4,6,7) by simp
  have last: "sat_add32 p (n - 1) = p + word_of_nat (n - 1)" using assms(3,6) by (intro sat_add32_less) simp
  show ?thesis
  proof (cases "if ss_sorted st then position (\<lambda>g. g = p) (ss_ids st) else None")
    case None
    then show ?thesis using assms(3-5) slow by (simp add: res_read_range_into_def)
  next
    case (Some l)
    then have l: "ss_sorted st" "position (\<lambda>g. g = p) (ss_ids st) = Some l" by (simp_all split: if_splits)
    have "length (ss_ids st) \<le> 2 ^ 32" using assms(1) l(1) by (intro strict_ids_short) (simp add: subset_ok_def)
    then have "sat_add l n = l + n" using position_Some [OF l(2)] assms(6)
      by (simp add: sat_add_def usize_max_def)
    then show ?thesis
      using assms(3-5) l slow last res_fast_range [OF assms(1,2) l, of n] assms(6)
      by (simp add: res_read_range_into_def Let_def)
  qed
qed

interpretation resident: point_store "ss_dim st" "res_present st" "table_row st" "res_read_range_into st" for st
proof
  show "res_read_range_into st p n out = Inr (concat (map (\<lambda>i. table_row st (p + word_of_nat i)) [0..<n]))"
    if "0 < n" "length out = n * ss_dim st" "n * ss_dim st \<le> usize_max" "unat p + n \<le> 2 ^ 32 - 1"
      "\<forall>i < n. res_present st (p + word_of_nat i)" for p n out
    using that by (intro res_read_range_ok) (auto simp: res_present_def)
  show "length (table_row st p) = ss_dim st" if "res_present st p" for p
  proof -
    have ok: "subset_ok st" "consistent st" "p \<in> set (ss_ids st)" using that by (auto simp: res_present_def)
    obtain l where "l < length (ss_ids st)" "ss_ids st ! l = p" using ok(3) by (auto simp: in_set_conv_nth)
    then show ?thesis using local_row_data_row [OF ok(1,2), of l] by simp
  qed
qed (simp add: res_present_def)

text \<open>Reading through a resident subset store in coalesced runs, which is what the default
  \<open>read_points_into\<close> of the \<open>PointStore\<close> trait does, gives the same rows as the store's own reading of
  single ids.\<close>

theorem resident_coalesced_reads:
  assumes "subset_ok st" "consistent st" "set ids \<subseteq> set (ss_ids st)" "\<forall>x \<in> set ids. unat x < 2 ^ 32 - 1"
    and "length out = length ids * ss_dim st" "length ids * ss_dim st \<le> usize_max"
  shows "read_points_coalesced (res_read_range_into st) (ss_dim st) ids out = res_read_points_into st ids out"
proof -
  have "\<forall>x \<in> set ids. res_present st x" using assms(1-4) by (auto simp: res_present_def)
  then have "read_points_coalesced (res_read_range_into st) (ss_dim st) ids out = Inr (concat (map (table_row st) ids))"
    using resident.read_points_coalesced_ok [where ids = ids and st = st and out = out] assms(5,6) by simp
  then show ?thesis using subset_read_rows_ok [OF assms(1,2,5,6)] assms(3) by (simp add: res_read_points_into_def)
qed

theorem resident_coalesced_reads_witness:
  "read_points_coalesced (res_read_range_into sample_subset) (ss_dim sample_subset) [9, 3, 9] (replicate 6 0) =
    res_read_points_into sample_subset [9, 3, 9] (replicate 6 0)"
  by (rule resident_coalesced_reads [OF _ sample_subset_consistent])
    (use subset_table_ok [OF unstable_sort_sort_key, of 2 "[1, 2, 3, 4, 5, 6]" "[7, 3, 9]"] in
      \<open>simp_all add: sample_subset_def subset_table_def Let_def usize_max_def\<close>)

end
