(* ===== verification/Search.thy ===== *)
theory Search
  imports GraphFile FileStore
begin

text \<open>
  The search driver \<^verbatim>\<open>cmd_drivers/search_mem_index/src/main.rs\<close>: the visit tracker, the greedy
  search on the graph (\<open>search_one\<close>), the sequential loop over the queries and
  \<open>parallel_search\<close>, the entry selector, the mapped vectors, the ground-truth reader and the
  result writer.

  Floating-point subtraction, multiplication and addition are parameters (\<open>f32_ops\<close>): only the
  comparisons of the distances matter to the control flow. \<open>BinaryHeap\<close> is the list of its
  elements; which element \<open>pop\<close> and \<open>peek\<close> choose is a parameter (\<open>pick\<close>) whose contract
  (\<open>picks_max\<close>) is that of the library: a greatest element, provided that the order is total,
  that is, no distance is a NaN. The final \<open>sort_by\<close> is a parameter with the same proviso.
\<close>

section \<open>\<open>VisitTracker\<close>\<close>

record visit_tracker =
  vt_marks :: "u16 list"
  vt_generation :: u16

definition vt_new :: "usize \<Rightarrow> visit_tracker" where
  "vt_new n = \<lparr>vt_marks = replicate n 0, vt_generation = 0\<rparr>"

definition vt_reset :: "visit_tracker \<Rightarrow> visit_tracker" where
  "vt_reset vt =
     (if vt_generation vt = - 1 then vt\<lparr>vt_marks := map (\<lambda>_. 0) (vt_marks vt), vt_generation := 1\<rparr>
      else vt\<lparr>vt_generation := vt_generation vt + 1\<rparr>)"

definition vt_mark :: "usize \<Rightarrow> visit_tracker \<Rightarrow> visit_tracker result" where
  "vt_mark i vt =
     (if i < length (vt_marks vt) then Inr (vt\<lparr>vt_marks := (vt_marks vt)[i := vt_generation vt]\<rparr>)
      else Inl index_panic)"

definition vt_mark_if_new :: "usize \<Rightarrow> visit_tracker \<Rightarrow> (bool \<times> visit_tracker) result" where
  "vt_mark_if_new i vt =
     (if i < length (vt_marks vt) then
        (if vt_marks vt ! i = vt_generation vt then Inr (False, vt)
         else Inr (True, vt\<lparr>vt_marks := (vt_marks vt)[i := vt_generation vt]\<rparr>))
      else Inl index_panic)"

section \<open>Vectors and distances\<close>

record f32_ops =
  fo_sub :: "f32 \<Rightarrow> f32 \<Rightarrow> f32"
  fo_mul :: "f32 \<Rightarrow> f32 \<Rightarrow> f32"
  fo_add :: "f32 \<Rightarrow> f32 \<Rightarrow> f32"
  fo_sum0 :: f32

definition l2_distance :: "f32_ops \<Rightarrow> f32 list \<Rightarrow> f32 list \<Rightarrow> f32" where
  "l2_distance F a b =
     foldl (fo_add F) (fo_sum0 F) (map (\<lambda>(x, y). fo_mul F (fo_sub F x y) (fo_sub F x y)) (zip a b))"

record mmap_data =
  md_mmap :: "u8 list"
  md_rows :: usize
  md_dim :: usize

definition mmap_data_open :: "u8 list \<Rightarrow> mmap_data result" where
  "mmap_data_open f =
     (if length f < 8 then Inl (Err (Io ''fbin file is too small''))
      else
        let rows = unat (of_le32 (take 4 f)); dim = unat (of_le32 (take 4 (drop 4 f))) in
        (case (case checked_mul rows dim of None \<Rightarrow> None | Some v \<Rightarrow> checked_mul v 4) of
           None \<Rightarrow> Inl (Err (Io ''fbin dimensions overflow''))
         | Some bytes \<Rightarrow>
             (case checked_add 8 bytes of
                None \<Rightarrow> Inl (Err (Io ''fbin byte length overflow''))
              | Some expected_len \<Rightarrow>
                  if length f < expected_len then Inl (Err (Io ''fbin file is truncated''))
                  else Inr \<lparr>md_mmap = f, md_rows = rows, md_dim = dim\<rparr>)))"

definition md_row :: "mmap_data \<Rightarrow> usize \<Rightarrow> f32 list result" where
  "md_row D row =
     (let start = 8 + row * md_dim D * 4; stop = start + md_dim D * 4 in
      if length (md_mmap D) < stop then Inl (Panic ''range end index out of range'')
      else Inr (f32s_of_bytes (slice start stop (md_mmap D))))"

section \<open>Heaps\<close>

type_synonym scored = "f32 \<times> u32"

text \<open>\<open>OrderedF32\<close> with the derived order of pairs.\<close>

definition scored_cmp :: "scored \<Rightarrow> scored \<Rightarrow> ordering" where
  "scored_cmp a b = then_with (f32_cmp_or_equal (fst a) (fst b)) (cmp (snd a) (snd b))"

type_synonym pick = "scored list \<Rightarrow> nat"

definition heap_pop :: "pick \<Rightarrow> scored list \<Rightarrow> (scored \<times> scored list) option" where
  "heap_pop pick xs =
     (if xs = [] then None
      else let i = pick xs mod length xs in Some (xs ! i, take i xs @ drop (Suc i) xs))"

record heaps =
  hp_best :: pick
  hp_candidates :: pick
  hp_sort :: "scored list \<Rightarrow> scored list"

lemma heap_pop_length: "heap_pop pick xs = Some (x, ys) \<Longrightarrow> length xs = Suc (length ys)"
  by (auto simp: heap_pop_def Let_def min_def split: if_splits)
     (metis Suc_le_mono Suc_pred add.commute add_diff_inverse_nat length_greater_0_conv less_Suc_eq_le mod_less_divisor not_less_eq)

function (sequential) trim :: "pick \<Rightarrow> nat \<Rightarrow> scored list \<Rightarrow> scored list" where
  "trim pick l best =
     (if l < length best then (case heap_pop pick best of None \<Rightarrow> best | Some (x, rest) \<Rightarrow> trim pick l rest)
      else best)"
  by pat_completeness auto
termination
  by (relation "measure (\<lambda>(pick, l, best). length best)") (auto dest: heap_pop_length)

declare trim.simps [simp del]

section \<open>\<open>search_one\<close>\<close>

type_synonym graph = "u32 list list"

record search_state =
  ss_visited :: visit_tracker
  ss_candidates :: "scored list"
  ss_best :: "scored list"

fun expand :: "heaps \<Rightarrow> (usize \<Rightarrow> f32 result) \<Rightarrow> graph \<Rightarrow> nat \<Rightarrow> u32 list \<Rightarrow> search_state \<Rightarrow> search_state result" where
  "expand H dist graph l_eff [] s = Inr s"
| "expand H dist graph l_eff (nbr # nbrs) s =
     (let ni = unat nbr in
      if length graph \<le> ni then expand H dist graph l_eff nbrs s
      else res_bind (vt_mark_if_new ni (ss_visited s)) (\<lambda>(new, vt).
        if \<not> new then expand H dist graph l_eff nbrs (s\<lparr>ss_visited := vt\<rparr>)
        else res_bind (dist ni) (\<lambda>d.
          expand H dist graph l_eff nbrs
            \<lparr>ss_visited = vt, ss_candidates = (d, nbr) # ss_candidates s,
             ss_best = trim (hp_best H) l_eff ((d, nbr) # ss_best s)\<rparr>)))"

text \<open>The nodes a tracker does not hold yet bound the number of iterations.\<close>

definition unvisited :: "visit_tracker \<Rightarrow> nat" where
  "unvisited vt = length (filter (\<lambda>m. m \<noteq> vt_generation vt) (vt_marks vt))"

lemma mark_unvisited:
  assumes "vt_mark_if_new i vt = Inr (new, vt')"
  shows "unvisited vt = unvisited vt' + (if new then 1 else 0)"
proof (cases new)
  case True
  then have i: "i < length (vt_marks vt)" "vt_marks vt ! i \<noteq> vt_generation vt"
      "vt' = vt\<lparr>vt_marks := (vt_marks vt)[i := vt_generation vt]\<rparr>"
    using assms by (auto simp: vt_mark_if_new_def split: if_splits)
  let ?p = "\<lambda>m. m \<noteq> vt_generation vt"
  have "length (filter ?p xs) = Suc (length (filter ?p (xs[j := vt_generation vt])))"
    if "j < length xs" "?p (xs ! j)" for xs j
    using that by (induction xs arbitrary: j) (auto split: nat.split simp: less_Suc_eq_0_disj)
  from this [OF i(1,2)] True show ?thesis by (simp add: unvisited_def i(3))
qed (use assms in \<open>auto simp: vt_mark_if_new_def split: if_splits\<close>)

lemma expand_measure:
  "expand H dist graph l nbrs s = Inr s' \<Longrightarrow>
   length (ss_candidates s') + unvisited (ss_visited s') = length (ss_candidates s) + unvisited (ss_visited s)"
proof (induction nbrs arbitrary: s)
  case (Cons n ns)
  show ?case
  proof (cases "length graph \<le> unat n")
    case False
    with Cons.prems obtain new vt where m: "vt_mark_if_new (unat n) (ss_visited s) = Inr (new, vt)"
      by (auto simp: Let_def res_bind_Inr_iff)
    show ?thesis using False m Cons.prems mark_unvisited [OF m] Cons.IH
      by (cases new) (fastforce simp: Let_def res_bind_Inr_iff)+
  qed (use Cons in \<open>simp add: Let_def\<close>)
qed simp

function (sequential) search_loop :: "heaps \<Rightarrow> (usize \<Rightarrow> f32 result) \<Rightarrow> graph \<Rightarrow> nat \<Rightarrow> search_state \<Rightarrow> search_state result" where
  "search_loop H dist graph l_eff s =
     (case heap_pop (hp_candidates H) (ss_candidates s) of
        None \<Rightarrow> Inr s
      | Some ((cd, cid), rest) \<Rightarrow>
          let s1 = s\<lparr>ss_candidates := rest\<rparr> in
          if l_eff \<le> length (ss_best s) \<and>
             (case heap_pop (hp_best H) (ss_best s) of None \<Rightarrow> False | Some ((worst, wid), _) \<Rightarrow> f32_lt worst cd)
          then Inr s1
          else if length graph \<le> unat cid then Inl index_panic
          else
            (case expand H dist graph l_eff (graph ! unat cid) s1 of
               Inl e \<Rightarrow> Inl e
             | Inr s2 \<Rightarrow> search_loop H dist graph l_eff s2))"
  by pat_completeness auto
termination
  by (relation "measure (\<lambda>(H, dist, graph, l, s). length (ss_candidates s) + unvisited (ss_visited s))")
     (auto dest!: heap_pop_length expand_measure)

declare search_loop.simps [simp del]

definition search_one :: "heaps \<Rightarrow> f32_ops \<Rightarrow> f32 list \<Rightarrow> mmap_data \<Rightarrow> graph \<Rightarrow> u32 \<Rightarrow> usize \<Rightarrow> usize \<Rightarrow> visit_tracker \<Rightarrow>
    (u32 list \<times> visit_tracker) result" where
  "search_one H F query D graph start k l visited =
     (let l_eff = max l (k + 1);
          dist = (\<lambda>i. res_bind (md_row D i) (\<lambda>row. Inr (l2_distance F query row)))
      in res_bind (vt_mark (unat start) (vt_reset visited)) (\<lambda>vt.
         res_bind (dist (unat start)) (\<lambda>d0.
         res_bind (search_loop H dist graph l_eff \<lparr>ss_visited = vt, ss_candidates = [(d0, start)], ss_best = [(d0, start)]\<rparr>) (\<lambda>s.
           Inr (map snd (take k (hp_sort H (ss_best s))), ss_visited s)))))"

section \<open>The queries\<close>

definition query_at :: "f32 list \<Rightarrow> usize \<Rightarrow> usize \<Rightarrow> f32 list result" where
  "query_at queries dim qi =
     (if length queries < (qi + 1) * dim then Inl (Panic ''range end index out of range'')
      else Inr (slice (qi * dim) ((qi + 1) * dim) queries))"

definition start_at :: "u32 list \<Rightarrow> usize \<Rightarrow> u32 result" where
  "start_at starts qi = (if qi < length starts then Inr (starts ! qi) else Inl index_panic)"

fun search_queries :: "heaps \<Rightarrow> f32_ops \<Rightarrow> f32 list \<Rightarrow> mmap_data \<Rightarrow> usize \<Rightarrow> graph \<Rightarrow> u32 list \<Rightarrow> usize \<Rightarrow> usize \<Rightarrow>
    visit_tracker \<Rightarrow> usize list \<Rightarrow> u32 list list result" where
  "search_queries H F queries D dim graph starts k l vt [] = Inr []"
| "search_queries H F queries D dim graph starts k l vt (qi # qis) =
     res_bind (query_at queries dim qi) (\<lambda>query.
     res_bind (start_at starts qi) (\<lambda>start.
     res_bind (search_one H F query D graph start k l vt) (\<lambda>(ids, vt').
     res_bind (search_queries H F queries D dim graph starts k l vt' qis) (\<lambda>rest. Inr (ids # rest)))))"

definition sequential_search :: "heaps \<Rightarrow> f32_ops \<Rightarrow> f32 list \<Rightarrow> mmap_data \<Rightarrow> usize \<Rightarrow> graph \<Rightarrow> u32 list \<Rightarrow> usize \<Rightarrow> usize \<Rightarrow>
    usize \<Rightarrow> u32 list list result" where
  "sequential_search H F queries D dim graph starts k l query_count =
     search_queries H F queries D dim graph starts k l (vt_new (length graph)) [0..<query_count]"

text \<open>
  \<open>parallel_search\<close>: each thread searches its own range of queries with a tracker of its own and
  stores the results by query number. A panic of a thread is a panic of the scope.
\<close>

definition thread_range :: "usize \<Rightarrow> usize \<Rightarrow> usize \<Rightarrow> usize list" where
  "thread_range num_queries num_threads tid =
     (let chunk = (num_queries + num_threads - 1) div num_threads;
          lo = tid * chunk; hi = min (lo + chunk) num_queries
      in [lo..<hi])"

fun run_threads :: "(usize list \<Rightarrow> u32 list list result) \<Rightarrow> usize list list \<Rightarrow> u32 list option list \<Rightarrow> u32 list option list result" where
  "run_threads search [] results = Inr results"
| "run_threads search (qis # ranges) results =
     (case search qis of
        Inl e \<Rightarrow> Inl (Panic ''a scoped thread panicked'')
      | Inr rs \<Rightarrow> run_threads search ranges (fold (\<lambda>(qi, r) out. out[qi := Some r]) (zip qis rs) results))"

definition unwrap_all :: "'a option list \<Rightarrow> 'a list result" where
  "unwrap_all xs = (if None \<in> set xs then Inl (Panic ''called Option::unwrap() on a None value'') else Inr (map the xs))"

definition parallel_search :: "heaps \<Rightarrow> f32_ops \<Rightarrow> f32 list \<Rightarrow> mmap_data \<Rightarrow> usize \<Rightarrow> graph \<Rightarrow> u32 list \<Rightarrow> usize \<Rightarrow> usize \<Rightarrow>
    usize \<Rightarrow> usize \<Rightarrow> u32 list list result" where
  "parallel_search H F queries D dim graph starts k l num_queries num_threads =
     res_bind (run_threads (search_queries H F queries D dim graph starts k l (vt_new (length graph)))
                 (map (thread_range num_queries num_threads) [0..<num_threads])
                 (replicate num_queries None))
       unwrap_all"

definition effective_query_count :: "usize \<Rightarrow> usize option \<Rightarrow> usize" where
  "effective_query_count total_queries max_queries =
     (case max_queries of None \<Rightarrow> total_queries | Some limit \<Rightarrow> min limit total_queries)"

section \<open>The entry selector\<close>

record entry_selector =
  es_medoids :: "u32 list"
  es_centroids :: "f32 list"
  es_dim :: usize

definition load_fbin_f32 :: "u8 list \<Rightarrow> f32 list result" where
  "load_fbin_f32 f =
     res_bind (load_metadata_from_file f) (\<lambda>(n, d).
     res_bind (read_exact 8 f) (\<lambda>(hd8, rest).
     res_bind (read_exact (n * d * 4) rest) (\<lambda>(bs, _). Inr (f32s_of_bytes bs))))"

definition es_open :: "u8 list \<Rightarrow> u8 list \<Rightarrow> usize \<Rightarrow> entry_selector result" where
  "es_open medoids_file centroids_file dim =
     res_bind (load_metadata_from_file medoids_file) (\<lambda>(num_medoids, medoid_cols).
       if medoid_cols \<noteq> 1 then Inl (Err (Io ''medoids file has cols, expected 1''))
       else
         res_bind (read_exact 8 medoids_file) (\<lambda>(hd8, rest).
         res_bind (read_u32s num_medoids rest) (\<lambda>(medoids, _).
         res_bind (load_metadata_from_file centroids_file) (\<lambda>(num_centroids, centroid_dim).
           if centroid_dim \<noteq> dim then Inl (Err (Io ''centroids file has dim, expected query dim''))
           else if num_centroids \<noteq> length medoids then Inl (Err (Io ''centroids count does not match medoids count''))
           else res_bind (load_fbin_f32 centroids_file) (\<lambda>centroids.
             Inr \<lparr>es_medoids = medoids, es_centroids = centroids, es_dim = dim\<rparr>)))))"

fun select_loop :: "(usize \<Rightarrow> f32 result) \<Rightarrow> usize list \<Rightarrow> usize \<Rightarrow> f32 \<Rightarrow> usize result" where
  "select_loop dist [] best best_dist = Inr best"
| "select_loop dist (c # cs) best best_dist =
     res_bind (dist c) (\<lambda>d.
       if f32_lt d best_dist then select_loop dist cs c d else select_loop dist cs best best_dist)"

definition es_select :: "f32_ops \<Rightarrow> entry_selector \<Rightarrow> f32 list \<Rightarrow> u32 result" where
  "es_select F es query =
     res_bind (select_loop (\<lambda>c. res_bind (query_at (es_centroids es) (es_dim es) c) (\<lambda>v. Inr (l2_distance F query v)))
                 [0..<length (es_medoids es)] 0 f32_infinity)
       (start_at (es_medoids es))"

section \<open>Ground truth and results\<close>

definition load_gt :: "u8 list \<Rightarrow> usize \<Rightarrow> usize \<Rightarrow> u32 list result" where
  "load_gt f num_queries recall_at =
     res_bind (load_metadata_from_file f) (\<lambda>(n, d).
     res_bind (read_exact 8 f) (\<lambda>(hd8, rest).
     res_bind (read_u32s (n * d) rest) (\<lambda>(ids, _).
       let nq = min num_queries n in
       Inr (concat (map (\<lambda>qi. map (\<lambda>ki. if ki < min recall_at d then ids ! (qi * d + ki) else 0) [0..<recall_at])
              [0..<nq])))))"

definition save_result_fbin :: "u32 list list \<Rightarrow> usize \<Rightarrow> u8 list" where
  "save_result_fbin results k =
     le32 (word_of_nat (length results)) @ le32 (word_of_nat k) @
     le32s (concat (map (\<lambda>r. map (\<lambda>i. if i < length r then r ! i else 0) [0..<k]) results))"

text \<open>The hits that \<open>compute_recall\<close> counts for each query; the quotients are \<open>f64\<close> arithmetic.\<close>

fun recall_hits :: "u32 list list \<Rightarrow> u32 list \<Rightarrow> usize \<Rightarrow> usize \<Rightarrow> nat list result" where
  "recall_hits [] gt recall_at qi = Inr []"
| "recall_hits (r # rs) gt recall_at qi =
     (if length gt < (qi + 1) * recall_at then Inl (Panic ''range end index out of range'')
      else
        let gt_set = set (slice (qi * recall_at) ((qi + 1) * recall_at) gt) in
        res_bind (recall_hits rs gt recall_at (qi + 1)) (\<lambda>hits. Inr (length (filter (\<lambda>id. id \<in> gt_set) r) # hits)))"

section \<open>The tracker is a set\<close>

definition marked :: "visit_tracker \<Rightarrow> nat set" where
  "marked vt = {i. i < length (vt_marks vt) \<and> vt_marks vt ! i = vt_generation vt}"

definition vt_ok :: "visit_tracker \<Rightarrow> bool" where
  [inv_defs]: "vt_ok vt \<longleftrightarrow> (\<forall>m \<in> set (vt_marks vt). m \<le> vt_generation vt)"

lemma vt_new_ok: "vt_ok (vt_new n)" "length (vt_marks (vt_new n)) = n"
  by (simp_all add: vt_ok_def vt_new_def)

lemma le_less_succ16:
  assumes "(m :: u16) \<le> g" "g \<noteq> - 1" shows "m < g + 1"
proof -
  have "unat g \<noteq> unat (- 1 :: u16)" using assms(2) by (simp only: word_unat_eq_iff [symmetric] not_False_eq_True)
  moreover have "unat g < 65536" using unsigned_less [of g, where ?'a = nat] by simp
  moreover have "unat (- 1 :: u16) = 65535" by (simp add: unsigned_minus_1_eq_mask mask_eq_exp_minus_1)
  ultimately have "unat g < 65535" by simp
  then have "unat (g + 1) = unat g + 1" by (simp add: unat_word_ariths)
  then show ?thesis using assms(1) by (simp add: word_le_nat_alt word_less_nat_alt)
qed

lemma vt_reset_ok:
  assumes "vt_ok vt"
  shows "vt_ok (vt_reset vt)" "marked (vt_reset vt) = {}" "length (vt_marks (vt_reset vt)) = length (vt_marks vt)"
proof -
  have "m < vt_generation vt + 1" if "m \<in> set (vt_marks vt)" "vt_generation vt \<noteq> - 1" for m
    using le_less_succ16 assms that by (auto simp: vt_ok_def)
  note less = this
  show "vt_ok (vt_reset vt)" using less by (fastforce simp: vt_ok_def vt_reset_def)
  show "marked (vt_reset vt) = {}" 
  proof (cases "vt_generation vt = - 1")
    case False
    then have "vt_marks vt ! i \<noteq> vt_generation vt + 1" if "i < length (vt_marks vt)" for i
      using less [OF nth_mem [OF that]] by auto
    then show ?thesis using False by (auto simp: marked_def vt_reset_def)
  qed (auto simp: marked_def vt_reset_def)
  show "length (vt_marks (vt_reset vt)) = length (vt_marks vt)" by (simp add: vt_reset_def)
qed

lemma vt_mark_new:
  assumes "i < length (vt_marks vt)"
  obtains vt' where "vt_mark_if_new i vt = Inr (i \<notin> marked vt, vt')" "vt_mark i vt = Inr vt'"
    "marked vt' = insert i (marked vt)" "length (vt_marks vt') = length (vt_marks vt)" "vt_ok vt \<Longrightarrow> vt_ok vt'"
proof -
  let ?vt = "vt\<lparr>vt_marks := (vt_marks vt)[i := vt_generation vt]\<rparr>"
  have "marked ?vt = insert i (marked vt)" using assms by (auto simp: marked_def nth_list_update split: if_splits)
  moreover have "vt_ok vt \<Longrightarrow> vt_ok ?vt" by (auto simp: vt_ok_def dest!: set_update_subset_insert [THEN subsetD])
  moreover have "vt_mark_if_new i vt = Inr (i \<notin> marked vt, ?vt)"
  proof (cases "i \<in> marked vt")
    case True
    then have "?vt = vt" by (cases vt) (auto simp: marked_def list_update_same_conv)
    then show ?thesis using True assms by (simp add: vt_mark_if_new_def marked_def)
  qed (use assms in \<open>simp add: vt_mark_if_new_def marked_def\<close>)
  ultimately show thesis using assms by (intro that) (simp_all add: vt_mark_def)
qed

section \<open>Results do not depend on earlier queries\<close>

definition same_marks :: "visit_tracker \<Rightarrow> visit_tracker \<Rightarrow> bool" where
  "same_marks vt vt' \<longleftrightarrow> length (vt_marks vt) = length (vt_marks vt') \<and> marked vt = marked vt' \<and> vt_ok vt \<and> vt_ok vt'"

definition sim :: "search_state \<Rightarrow> search_state \<Rightarrow> bool" where
  "sim s t \<longleftrightarrow> same_marks (ss_visited s) (ss_visited t) \<and> ss_candidates s = ss_candidates t \<and> ss_best s = ss_best t"

lemma mark_if_new_sim:
  assumes "same_marks vt vt'"
  shows "rel_sum (=) (rel_prod (=) same_marks) (vt_mark_if_new i vt) (vt_mark_if_new i vt')"
proof (cases "i < length (vt_marks vt)")
  case True
  moreover have "i < length (vt_marks vt')" using True assms by (simp add: same_marks_def)
  ultimately show ?thesis using assms
    by (elim vt_mark_new) (auto simp: same_marks_def)
qed (use assms in \<open>simp add: vt_mark_if_new_def same_marks_def\<close>)

lemma rel_sum_bind:
  "rel_sum (=) R m m' \<Longrightarrow> (\<And>x y. R x y \<Longrightarrow> rel_sum (=) Q (f x) (g y)) \<Longrightarrow> rel_sum (=) Q (res_bind m f) (res_bind m' g)"
  by (auto elim!: rel_sum.cases)

lemma expand_sim:
  "sim s t \<Longrightarrow> rel_sum (=) sim (expand H dist graph l nbrs s) (expand H dist graph l nbrs t)"
proof (induction nbrs arbitrary: s t)
  case (Cons n ns)
  have m: "rel_sum (=) (rel_prod (=) same_marks) (vt_mark_if_new (unat n) (ss_visited s)) (vt_mark_if_new (unat n) (ss_visited t))"
    using Cons.prems by (intro mark_if_new_sim) (simp add: sim_def)
  have "rel_sum (=) sim (res_bind (dist (unat n)) f) (res_bind (dist (unat n)) g)"
    if "\<And>d. rel_sum (=) sim (f d) (g d)" for f g
    using that by (intro rel_sum_bind [where R = "(=)"]) (auto simp: sum.rel_eq)
  note dist = this
  have upd: "sim (s\<lparr>ss_visited := vt\<rparr>) (t\<lparr>ss_visited := vt'\<rparr>)"
    "sim \<lparr>ss_visited = vt, ss_candidates = x # ss_candidates s, ss_best = trim p l (x # ss_best s)\<rparr>
         \<lparr>ss_visited = vt', ss_candidates = x # ss_candidates t, ss_best = trim p l (x # ss_best t)\<rparr>"
    if "same_marks vt vt'" for vt vt' x p
    using that Cons.prems by (simp_all add: sim_def)
  show ?case
  proof (cases "length graph \<le> unat n")
    case False
    then show ?thesis unfolding expand.simps Let_def
      by (simp only: if_False, intro rel_sum_bind [OF m]) (auto intro!: Cons.IH upd dist)
  qed (use Cons in simp)
qed simp

lemma search_loop_sim:
  "sim s t \<Longrightarrow> rel_sum (=) sim (search_loop H dist graph l s) (search_loop H dist graph l t)"
proof (induction H dist graph l s arbitrary: t rule: search_loop.induct)
  case (1 H dist graph l s)
  have eq: "ss_candidates t = ss_candidates s" "ss_best t = ss_best s" using "1.prems" by (simp_all add: sim_def)
  show ?case
  proof (cases "heap_pop (hp_candidates H) (ss_candidates s)")
    case None
    then show ?thesis using "1.prems" eq by (simp add: search_loop.simps [of H dist graph l s] search_loop.simps [of H dist graph l t])
  next
    case (Some p)
    obtain cd cid rest where p: "p = ((cd, cid), rest)" by (metis prod.collapse)
    let ?s = "s\<lparr>ss_candidates := rest\<rparr>" and ?t = "t\<lparr>ss_candidates := rest\<rparr>"
    let ?stop = "l \<le> length (ss_best s) \<and>
       (case heap_pop (hp_best H) (ss_best s) of None \<Rightarrow> False | Some ((worst, wid), _) \<Rightarrow> f32_lt worst cd)"
    have st: "sim ?s ?t" using "1.prems" by (simp add: sim_def)
    note unf = search_loop.simps [of H dist graph l s] search_loop.simps [of H dist graph l t]
    show ?thesis
    proof (cases "?stop \<or> length graph \<le> unat cid")
      case True
      then show ?thesis using Some p st eq by (auto simp: unf Let_def)
    next
      case False
      note IH = "1.IH" [OF Some, unfolded p, OF refl refl refl]
      have "rel_sum (=) sim (expand H dist graph l (graph ! unat cid) ?s) (expand H dist graph l (graph ! unat cid) ?t)"
        by (rule expand_sim [OF st])
      then show ?thesis using False Some p eq IH
        by (cases rule: rel_sum.cases) (auto simp: unf Let_def)
    qed
  qed
qed

definition fit :: "graph \<Rightarrow> visit_tracker \<Rightarrow> bool" where
  "fit graph vt \<longleftrightarrow> vt_ok vt \<and> length (vt_marks vt) = length graph"

lemma search_one_sim:
  assumes "fit graph vt" "fit graph vt'"
  shows "rel_sum (=) (rel_prod (=) same_marks) (search_one H F query D graph start k l vt) (search_one H F query D graph start k l vt')"
proof -
  have reset: "same_marks (vt_reset vt) (vt_reset vt')"
    using assms vt_reset_ok [of vt] vt_reset_ok [of vt'] by (simp add: same_marks_def fit_def)
  have mark: "rel_sum (=) same_marks (vt_mark i (vt_reset vt)) (vt_mark i (vt_reset vt'))" for i
  proof (cases "i < length (vt_marks (vt_reset vt))")
    case True
    moreover have "i < length (vt_marks (vt_reset vt'))" using True reset by (simp add: same_marks_def)
    ultimately show ?thesis using reset by (elim vt_mark_new) (auto simp: same_marks_def)
  qed (use reset in \<open>simp add: vt_mark_def same_marks_def\<close>)
  show ?thesis unfolding search_one_def Let_def
    by (intro rel_sum_bind [OF mark] rel_sum_bind [where R = "(=)"] rel_sum_bind [where R = sim] search_loop_sim)
       (auto simp: sim_def sum.rel_eq)
qed

lemma search_one_fit:
  assumes "fit graph vt" "search_one H F query D graph start k l vt = Inr (ids, vt')"
  shows "fit graph vt'"
proof -
  from search_one_sim [OF assms(1,1), of H F query D start k l] have ok: "vt_ok vt'"
    by (auto simp: assms(2) same_marks_def)
  have "length (vt_marks (ss_visited s')) = length (vt_marks (ss_visited s))" if "expand H dist graph l nbrs s = Inr s'" for dist l nbrs s s'
    using that by (induction nbrs arbitrary: s) (auto simp: Let_def res_bind_Inr_iff vt_mark_if_new_def split: if_splits)
  then have "search_loop H dist graph l s = Inr s' \<Longrightarrow> length (vt_marks (ss_visited s')) = length (vt_marks (ss_visited s))" for dist l s s'
    by (induction H dist graph l s rule: search_loop.induct)
       (subst (asm) (2) search_loop.simps, auto simp: Let_def split: option.splits prod.splits if_splits sum.splits)
  with ok assms show ?thesis
    by (auto simp: search_one_def Let_def res_bind_Inr_iff fit_def vt_mark_def vt_reset_ok(3) split: if_splits)
qed

lemma search_one_cases:
  assumes "fit graph vt" "fit graph vt'"
  obtains e where "search_one H F query D graph start k l vt = Inl e" "search_one H F query D graph start k l vt' = Inl e"
  | ids v v' where "search_one H F query D graph start k l vt = Inr (ids, v)" "search_one H F query D graph start k l vt' = Inr (ids, v')"
      "fit graph v" "fit graph v'"
proof -
  show thesis
    using search_one_sim [OF assms, of H F query D start k l]
  proof (cases rule: rel_sum.cases)
    case (1 e e')
    then show thesis using that(1) by simp
  next
    case (2 p p')
    obtain ids v v' where "p = (ids, v)" "p' = (ids, v')" using 2(3) by (cases p; cases p') auto
    then show thesis using that(2) 2(1,2) search_one_fit [OF assms(1)] search_one_fit [OF assms(2)] by metis
  qed
qed

lemma search_queries_sim:
  assumes "fit graph vt" "fit graph vt'"
  shows "search_queries H F queries D dim graph starts k l vt qis = search_queries H F queries D dim graph starts k l vt' qis"
  using assms
proof (induction qis arbitrary: vt vt')
  case (Cons qi qis)
  have "res_bind (search_one H F query D graph start k l vt)
        (\<lambda>(ids, v). res_bind (search_queries H F queries D dim graph starts k l v qis) (\<lambda>rest. Inr (ids # rest))) =
      res_bind (search_one H F query D graph start k l vt')
        (\<lambda>(ids, v). res_bind (search_queries H F queries D dim graph starts k l v qis) (\<lambda>rest. Inr (ids # rest)))" for query start
  proof (rule search_one_cases [OF Cons.prems, of H F query D start k l])
    fix ids v v' assume v: "search_one H F query D graph start k l vt = Inr (ids, v)"
      "search_one H F query D graph start k l vt' = Inr (ids, v')" "fit graph v" "fit graph v'"
    from Cons.IH [OF v(3,4)] v(1,2) show ?thesis by simp
  qed simp
  then show ?case by simp
qed simp

lemma search_queries_append:
  assumes "fit graph vt"
  shows "search_queries H F queries D dim graph starts k l vt (xs @ ys) =
    res_bind (search_queries H F queries D dim graph starts k l vt xs) (\<lambda>rs.
    res_bind (search_queries H F queries D dim graph starts k l vt ys) (\<lambda>rs'. Inr (rs @ rs')))"
  using assms
proof (induction xs arbitrary: vt)
  case Nil
  then show ?case by (simp add: res_bind_Inr)
next
  case (Cons x xs)
  have "res_bind (search_one H F query D graph start k l vt)
        (\<lambda>(ids, v). res_bind (search_queries H F queries D dim graph starts k l v (xs @ ys)) (\<lambda>rest. Inr (ids # rest))) =
      res_bind (search_one H F query D graph start k l vt)
        (\<lambda>(ids, v). res_bind (search_queries H F queries D dim graph starts k l v xs) (\<lambda>rs.
          res_bind (search_queries H F queries D dim graph starts k l vt ys) (\<lambda>rs'. Inr (ids # rs @ rs'))))" for query start
  proof (rule search_one_cases [OF Cons.prems Cons.prems, of H F query D start k l])
    fix ids v assume v: "search_one H F query D graph start k l vt = Inr (ids, v)" "fit graph v"
    have "search_queries H F queries D dim graph starts k l v ys = search_queries H F queries D dim graph starts k l vt ys"
      by (rule search_queries_sim [OF v(2) Cons.prems])
    then show ?thesis using v by (simp add: Cons.IH res_bind_assoc)
  qed simp
  then show ?case by (simp add: res_bind_assoc case_prod_unfold)
qed

section \<open>Sample data\<close>

text \<open>Heaps that search their list, and an arithmetic in which every distance is the second operand.\<close>

definition pick_first :: "(scored \<Rightarrow> scored \<Rightarrow> bool) \<Rightarrow> pick" where
  "pick_first le xs = length (takeWhile (\<lambda>x. \<not> (\<forall>y \<in> set xs. le y x)) xs)"

definition list_heaps :: heaps where
  "list_heaps = \<lparr>hp_best = pick_first (\<lambda>y x. scored_cmp y x \<noteq> Greater),
     hp_candidates = pick_first (\<lambda>y x. scored_cmp x y \<noteq> Greater), hp_sort = sort_key (\<lambda>x. f32_key (fst x))\<rparr>"

text \<open>A cycle of three nodes with an out-of-range neighbour; vectors of dimension 1.\<close>

definition sample_ops :: f32_ops where
  "sample_ops = \<lparr>fo_sub = (\<lambda>x y. y), fo_mul = (\<lambda>x y. x), fo_add = (\<lambda>x y. y), fo_sum0 = 0\<rparr>"

definition sample_data :: mmap_data where
  "sample_data = \<lparr>md_mmap = le32 3 @ le32 1 @ le32s [0x40a00000, 0x3f800000, 0x40000000], md_rows = 3, md_dim = 1\<rparr>"

definition sample_graph :: graph where
  "sample_graph = [[1, 7], [2, 0], [0, 1]]"

section \<open>Parallel search\<close>

lemma fold_store:
  "length out \<le> k \<Longrightarrow>
   fold (\<lambda>(qi, r) acc. acc[qi := Some r]) (zip [length done..<length done + length out] out) (map Some done @ replicate k None) =
     map Some (done @ out) @ replicate (k - length out) None"
proof (induction out arbitrary: "done" k)
  case (Cons x out)
  obtain k' where k: "k = Suc k'" using Cons.prems by (cases k) auto
  have "fold (\<lambda>(qi, r) acc. acc[qi := Some r]) (zip [length (done @ [x])..<length (done @ [x]) + length out] out)
      (map Some (done @ [x]) @ replicate k' None) = map Some ((done @ [x]) @ out) @ replicate (k' - length out) None"
    using Cons.prems k by (intro Cons.IH) simp
  moreover have "[length done..<length done + length (x # out)] =
      length done # [length (done @ [x])..<length (done @ [x]) + length out]"
    by (simp add: upt_conv_Cons del: upt_Suc)
  ultimately show ?case by (simp add: k list_update_append del: upt_Suc)
qed simp

lemma search_queries_length:
  "search_queries H F queries D dim graph starts k l vt qis = Inr rs \<Longrightarrow> length rs = length qis"
  by (induction qis arbitrary: vt rs) (auto simp: res_bind_Inr_iff)

lemma run_threads_prefix:
  fixes H :: heaps and F :: f32_ops and queries :: "f32 list" and D :: mmap_data and dim k l :: usize and starts :: "u32 list"
  assumes "fit graph vt"
  defines "S \<equiv> search_queries H F queries D dim graph starts k l vt"
  shows "concat ranges = [length done..<nq] \<Longrightarrow> length done \<le> nq \<Longrightarrow>
    run_threads S ranges (map Some done @ replicate (nq - length done) None) =
      (case S (concat ranges) of Inl e \<Rightarrow> Inl (Panic ''a scoped thread panicked'') | Inr rs \<Rightarrow> Inr (map Some (done @ rs)))"
proof (induction ranges arbitrary: "done")
  case (Cons r ranges)
  let ?m = "length done + length r"
  have all: "r @ concat ranges = [length done..<nq]" using Cons.prems(1) by simp
  then have len: "length r + length (concat ranges) = nq - length done" by (metis length_append length_upt)
  have r: "r = [length done..<?m]" "concat ranges = [?m..<nq]"
    using all len Cons.prems(2) by (metis append_eq_conv_conj take_upt Nat.le_diff_conv2 add.commute le_add1 drop_upt)+
  have S: "S (r @ concat ranges) = res_bind (S r) (\<lambda>a. res_bind (S (concat ranges)) (\<lambda>b. Inr (a @ b)))"
    unfolding S_def by (rule search_queries_append [OF assms(1)])
  show ?case
  proof (cases "S r")
    case (Inr out)
    then have out: "length out = length r" unfolding S_def by (rule search_queries_length)
    have "run_threads S (r # ranges) (map Some done @ replicate (nq - length done) None) =
        run_threads S ranges (map Some (done @ out) @ replicate (nq - length (done @ out)) None)"
      using fold_store [of out "nq - length done" "done"] Inr out len r(1) by (simp add: diff_diff_add)
    also have "\<dots> = (case S (concat ranges) of Inl e \<Rightarrow> Inl (Panic ''a scoped thread panicked'')
        | Inr rs \<Rightarrow> Inr (map Some ((done @ out) @ rs)))"
      using r(2) out len Cons.prems(2) by (intro Cons.IH) simp_all
    finally show ?thesis using Inr S by (simp split: sum.split)
  qed (simp add: S)
qed (auto simp: S_def eq_commute [of "[]"])

lemma ranges_cover:
  assumes "0 < t" "nq \<le> t * c"
  shows "concat (map (\<lambda>i. [i * c..<min (i * c + c) nq]) [0..<t]) = [0..<nq]"
proof -
  have "concat (map (\<lambda>i. [i * c..<min (i * c + c) nq]) [0..<m]) = [0..<min (m * c) nq]" for m
  proof (induction m)
    case (Suc m)
    have "[0..<min (m * c) nq] @ [m * c..<min (m * c + c) nq] = [0..<min (Suc m * c) nq]"
    proof (cases "m * c \<le> nq")
      case True
      then have "min (m * c) nq = m * c" "m * c \<le> min (m * c + c) nq" by auto
      then show ?thesis using upt_add_eq_append [of 0 "m * c" "min (m * c + c) nq - m * c"] by (simp add: add.commute)
    next
      case False
      then have "min (m * c) nq = nq" "min (m * c + c) nq = nq" "min (Suc m * c) nq = nq" by auto
      then show ?thesis using False by simp
    qed
    then show ?case using Suc by simp
  qed simp
  from this [of t] assms(2) show ?thesis by simp
qed

text \<open>Searching the queries on several threads gives the results of the sequential loop. The query
  ranges of the threads cover every query once, each result lands at its query's place, and the
  result of a query does not depend on the queries its tracker has served before, not even when the
  tracker's generation counter has wrapped around. If some query panics, so does the parallel search.\<close>

theorem parallel_search_equals_sequential:
  assumes "0 < num_threads"
  shows "parallel_search H F queries D dim graph starts k l num_queries num_threads =
    (case sequential_search H F queries D dim graph starts k l num_queries of
       Inl e \<Rightarrow> Inl (Panic ''a scoped thread panicked'') | Inr rs \<Rightarrow> Inr rs)"
proof -
  let ?c = "(num_queries + num_threads - 1) div num_threads"
  have "num_queries \<le> num_threads * ?c"
  proof -
    have "num_queries + num_threads - 1 = num_threads * ?c + (num_queries + num_threads - 1) mod num_threads" by simp
    moreover have "(num_queries + num_threads - 1) mod num_threads < num_threads" using assms by simp
    ultimately show ?thesis using assms by linarith
  qed
  then have cover: "concat (map (thread_range num_queries num_threads) [0..<num_threads]) = [0..<num_queries]"
    using ranges_cover [OF assms, of num_queries ?c] by (simp only: thread_range_def [abs_def] Let_def)
  have fit: "fit graph (vt_new (length graph))" by (simp add: fit_def vt_new_ok)
  have "None \<notin> set (map Some rs)" "map the (map Some rs) = rs" for rs :: "u32 list list" by (auto simp: map_idI)
  then show ?thesis
    using run_threads_prefix [OF fit, of "map (thread_range num_queries num_threads) [0..<num_threads]" "[]" num_queries
        H F queries D dim starts k l] cover
    by (simp add: parallel_search_def sequential_search_def unwrap_all_def split: sum.split)
qed

theorem parallel_search_equals_sequential_witness:
  "parallel_search list_heaps sample_ops [0x3f800000, 0x3f800000, 0x40000000] sample_data 1 sample_graph [0, 1, 2] 1 4 3 2 =
    (case sequential_search list_heaps sample_ops [0x3f800000, 0x3f800000, 0x40000000] sample_data 1 sample_graph [0, 1, 2] 1 4 3 of
       Inl e \<Rightarrow> Inl (Panic ''a scoped thread panicked'') | Inr rs \<Rightarrow> Inr rs)"
  by (rule parallel_search_equals_sequential) simp

section \<open>Ground truth and results\<close>

lemma result_row: "length r = k \<Longrightarrow> map (\<lambda>i. if i < length r then r ! i else 0) [0..<k] = r"
  by (auto intro: nth_equalityI)

lemma concat_nth:
  "\<forall>r \<in> set rows. length r = d \<Longrightarrow> q < length rows \<Longrightarrow> i < d \<Longrightarrow> concat rows ! (q * d + i) = rows ! q ! i"
proof (induction rows arbitrary: q)
  case (Cons r rows)
  then show ?case by (cases q) (auto simp: nth_append add.assoc)
qed simp

lemma concat_eq_length: "\<forall>r \<in> set rows. length r = d \<Longrightarrow> length (concat rows) = length rows * d"
  by (induction rows) simp_all

text \<open>The result file is a ground-truth file: what \<open>save_result_fbin\<close> writes, \<open>load_gt\<close> reads back,
  the rows of the first \<open>num_queries\<close> queries, each cut to \<open>recall_at\<close> ids. Where the file has fewer
  columns than \<open>recall_at\<close>, the missing ids are filled with 0, which \<open>compute_recall\<close> takes for the
  point 0.\<close>

theorem ground_truth_roundtrip:
  assumes "\<forall>r \<in> set results. length r = k" "length results < 2 ^ 31" "k < 2 ^ 31"
  shows "load_gt (save_result_fbin results k) num_queries recall_at =
    Inr (concat (map (\<lambda>r. take recall_at r @ replicate (recall_at - k) 0) (take num_queries results)))"
proof -
  have rows: "map (\<lambda>r. map (\<lambda>i. if i < length r then r ! i else 0) [0..<k]) results = results"
    using assms(1) by (intro map_idI result_row) blast
  have bytes: "save_result_fbin results k = le32 (word_of_nat (length results)) @ le32 (word_of_nat k) @ le32s (concat results)"
    by (simp only: save_result_fbin_def rows)
  have meta: "load_metadata_from_file (save_result_fbin results k) = Inr (length results, k)"
    unfolding bytes using assms(2,3) by (simp add: load_metadata_from_file_def i32_as_usize_small)
  have header: "read_exact 8 (save_result_fbin results k) = Inr (le32 (word_of_nat (length results)) @ le32 (word_of_nat k), le32s (concat results))"
    unfolding bytes by (simp add: read_exact_def)
  have ids: "read_u32s (length results * k) (le32s (concat results)) = Inr (concat results, [])"
    using read_u32s_append [of "concat results" "[]"] concat_eq_length [OF assms(1)] by simp
  have "map (\<lambda>qi. map (\<lambda>ki. if ki < min recall_at k then concat results ! (qi * k + ki) else 0) [0..<recall_at])
      [0..<min num_queries (length results)] =
    map (\<lambda>r. take recall_at r @ replicate (recall_at - k) 0) (take num_queries results)" (is "?a = ?b")
  proof (rule nth_equalityI)
    fix q assume "q < length ?a"
    then have q: "q < num_queries" "q < length results" by auto
    then have len: "length (results ! q) = k" using assms(1) by simp
    have "map (\<lambda>ki. if ki < min recall_at k then concat results ! (q * k + ki) else 0) [0..<recall_at] =
        take recall_at (results ! q) @ replicate (recall_at - k) 0"
      using len concat_nth [OF assms(1) q(2)] by (intro nth_equalityI) (auto simp: nth_append min_def)
    then show "?a ! q = ?b ! q" using q by (simp cong: if_cong)
  qed simp
  then show ?thesis by (simp add: load_gt_def meta header ids Let_def del: min_less_iff_conj)
qed

theorem ground_truth_roundtrip_witness:
  "load_gt (save_result_fbin [[5, 7], [1, 2]] 2) 1 3 = Inr [5, 7, 0]"
  using ground_truth_roundtrip [of "[[5, 7], [1, 2]]" 2 1 3] by simp

end
