(* ===== verification/SearchCorrect.thy ===== *)
theory SearchCorrect
  imports Search
begin

text \<open>
  What \<open>search_one\<close> of \<^verbatim>\<open>cmd_drivers/search_mem_index/src/main.rs\<close> returns: the contracts of the
  heaps and of the final sort, the invariant of the search loop (\<open>best\<close> holds the \<open>l\<close> nearest of the
  nodes seen so far, nodes that left the candidates have only seen neighbours), its preservation, and
  the properties of the result: termination and safety for all inputs, local optimality on the graph,
  exactness with a long enough search list.
\<close>

section \<open>Heaps by their contract\<close>

definition skey :: "scored \<Rightarrow> int \<times> u32" where
  "skey x = (f32_key (fst x), snd x)"

definition no_nan :: "scored list \<Rightarrow> bool" where
  "no_nan xs \<longleftrightarrow> (\<forall>x \<in> set xs. \<not> f32_is_nan (fst x))"

text \<open>
  What the library promises of \<open>BinaryHeap::pop\<close> and of \<open>sort_by\<close>. Without a total order (with a
  NaN among the distances) an arbitrary element is popped and the order after sorting is arbitrary.
\<close>

definition picks_max :: "pick \<Rightarrow> bool" where
  "picks_max p \<longleftrightarrow> (\<forall>xs. xs \<noteq> [] \<and> no_nan xs \<longrightarrow> (\<forall>x \<in> set xs. scored_cmp x (xs ! (p xs mod length xs)) \<noteq> Greater))"

definition picks_min :: "pick \<Rightarrow> bool" where
  "picks_min p \<longleftrightarrow> (\<forall>xs. xs \<noteq> [] \<and> no_nan xs \<longrightarrow> (\<forall>x \<in> set xs. scored_cmp (xs ! (p xs mod length xs)) x \<noteq> Greater))"

definition sorts_scored :: "(scored list \<Rightarrow> scored list) \<Rightarrow> bool" where
  "sorts_scored srt \<longleftrightarrow> (\<forall>xs. mset (srt xs) = mset xs \<and> (no_nan xs \<longrightarrow> sorted (map (\<lambda>x. f32_key (fst x)) (srt xs))))"

definition heaps_ok :: "heaps \<Rightarrow> bool" where
  "heaps_ok H \<longleftrightarrow> picks_max (hp_best H) \<and> picks_min (hp_candidates H) \<and> sorts_scored (hp_sort H)"

lemma scored_cmp_key:
  "\<not> f32_is_nan (fst x) \<Longrightarrow> \<not> f32_is_nan (fst y) \<Longrightarrow> scored_cmp x y \<noteq> Greater \<longleftrightarrow> skey x \<le> skey y"
  by (auto simp: scored_cmp_def f32_cmp_or_equal_key then_with_simps skey_def less_eq_prod_def)

lemma heap_pop_mset: "heap_pop p xs = Some (y, rest) \<Longrightarrow> mset xs = add_mset y (mset rest)"
proof -
  assume pop: "heap_pop p xs = Some (y, rest)"
  define i where "i = p xs mod length xs"
  have i: "i < length xs" "y = xs ! i" "rest = take i xs @ drop (Suc i) xs"
    using pop by (auto simp: heap_pop_def Let_def i_def split: if_splits)
  then have "xs = take i xs @ y # drop (Suc i) xs" by (simp add: id_take_nth_drop)
  then have "mset xs = mset (take i xs @ y # drop (Suc i) xs)" by simp
  then show ?thesis by (simp add: i(3))
qed

lemma heap_pop_set: "heap_pop p xs = Some (y, rest) \<Longrightarrow> set xs = insert y (set rest)"
  using heap_pop_mset by (metis set_mset_add_mset_insert set_mset_mset)

lemma heap_pop_None: "heap_pop p xs = None \<longleftrightarrow> xs = []"
  by (simp add: heap_pop_def Let_def)

lemma heap_pop_extreme:
  assumes "no_nan xs" "heap_pop p xs = Some (y, rest)" "x \<in> set xs"
  shows "picks_max p \<Longrightarrow> skey x \<le> skey y" "picks_min p \<Longrightarrow> skey y \<le> skey x"
proof -
  have y: "y \<in> set xs" "y = xs ! (p xs mod length xs)" "xs \<noteq> []"
    using assms(2) heap_pop_set [OF assms(2)] by (auto simp: heap_pop_def Let_def split: if_splits)
  have "\<not> f32_is_nan (fst x)" "\<not> f32_is_nan (fst y)" using assms(1,3) y(1) by (auto simp: no_nan_def)
  note key = scored_cmp_key [OF this] scored_cmp_key [OF this(2,1)]
  show "picks_max p \<Longrightarrow> skey x \<le> skey y" "picks_min p \<Longrightarrow> skey y \<le> skey x"
    using assms(1,3) y(2,3) key by (auto simp: picks_max_def picks_min_def)
qed

lemma trim_le [simp]: "length best \<le> l \<Longrightarrow> trim p l best = best"
  by (simp add: trim.simps)

lemma trim_pop:
  assumes "length best = Suc l" "heap_pop p best = Some (y, rest)"
  shows "trim p l best = rest"
proof -
  have "length rest \<le> l" using heap_pop_length [OF assms(2)] assms(1) by simp
  then show ?thesis using assms by (simp add: trim.simps [of p l best])
qed

section \<open>The nodes a search sees\<close>

definition edge :: "graph \<Rightarrow> u32 \<Rightarrow> u32 \<Rightarrow> bool" where
  "edge graph u w \<longleftrightarrow> unat u < length graph \<and> unat w < length graph \<and> w \<in> set (graph ! unat u)"

definition reachable :: "graph \<Rightarrow> u32 \<Rightarrow> u32 set" where
  "reachable graph root = {v. (edge graph)\<^sup>*\<^sup>* root v}"

definition seen :: "search_state \<Rightarrow> u32 set" where
  "seen s = {u. unat u \<in> marked (ss_visited s)}"

lemma finite_seen [simp]: "finite (seen s)"
  by simp

definition score :: "(nat \<Rightarrow> f32) \<Rightarrow> u32 \<Rightarrow> scored" where
  "score \<delta> v = (\<delta> (unat v), v)"

lemma score_simps [simp]: "fst (score \<delta> v) = \<delta> (unat v)" "snd (score \<delta> v) = v"
  by (simp_all add: score_def)

definition nan_free :: "graph \<Rightarrow> (nat \<Rightarrow> f32) \<Rightarrow> bool" where
  "nan_free graph \<delta> \<longleftrightarrow> (\<forall>i < length graph. \<not> f32_is_nan (\<delta> i))"

text \<open>
  The invariant of the search: every entry of both heaps is a seen node with its distance, \<open>best\<close>
  holds the \<open>l\<close> nearest of the seen nodes.
\<close>

definition search_inv :: "graph \<Rightarrow> (nat \<Rightarrow> f32) \<Rightarrow> nat \<Rightarrow> u32 \<Rightarrow> search_state \<Rightarrow> bool" where
  "search_inv graph \<delta> l root s \<longleftrightarrow>
     fit graph (ss_visited s) \<and> set (ss_candidates s) \<subseteq> score \<delta> ` seen s \<and> set (ss_best s) \<subseteq> score \<delta> ` seen s \<and>
     distinct (map snd (ss_best s)) \<and> length (ss_best s) = min l (card (seen s)) \<and>
     root \<in> seen s \<and> seen s \<subseteq> reachable graph root \<and>
     (nan_free graph \<delta> \<longrightarrow>
        (\<forall>x \<in> set (ss_best s). \<forall>v \<in> seen s. v \<notin> snd ` set (ss_best s) \<longrightarrow> skey x \<le> skey (score \<delta> v)))"

lemma seen_bound: "fit graph (ss_visited s) \<Longrightarrow> v \<in> seen s \<Longrightarrow> unat v < length graph"
  by (simp add: seen_def marked_def fit_def)

lemma inv_no_nan:
  assumes "search_inv graph \<delta> l root s" "nan_free graph \<delta>" "set xs \<subseteq> score \<delta> ` seen s"
  shows "no_nan xs"
  using assms seen_bound [of graph s] by (auto simp: search_inv_def no_nan_def nan_free_def)

text \<open>Pushing a newly seen node keeps \<open>best\<close> the nearest of the seen nodes.\<close>

lemma push_best:
  assumes "picks_max p" "0 < l" "set best \<subseteq> score \<delta> ` V" "distinct (map snd best)" "length best = min l (card V)"
    and "finite V" "n \<notin> V"
  defines "best' \<equiv> trim p l (score \<delta> n # best)"
  shows "set best' \<subseteq> score \<delta> ` insert n V" "distinct (map snd best')" "length best' = min l (card (insert n V))"
    "no_nan (score \<delta> n # best) \<Longrightarrow> \<forall>x \<in> set best. \<forall>v \<in> V. v \<notin> snd ` set best \<longrightarrow> skey x \<le> skey (score \<delta> v) \<Longrightarrow>
     \<forall>x \<in> set best'. \<forall>v \<in> insert n V. v \<notin> snd ` set best' \<longrightarrow> skey x \<le> skey (score \<delta> v)"
proof -
  let ?xs = "score \<delta> n # best"
  have xs: "set ?xs \<subseteq> score \<delta> ` insert n V" "distinct (map snd ?xs)" "card (insert n V) = Suc (card V)"
    using assms(3,4,6,7) by (auto simp: score_def)
  have "set best' \<subseteq> score \<delta> ` insert n V \<and> distinct (map snd best') \<and> length best' = min l (card (insert n V)) \<and>
    (no_nan ?xs \<longrightarrow> (\<forall>x \<in> set best. \<forall>v \<in> V. v \<notin> snd ` set best \<longrightarrow> skey x \<le> skey (score \<delta> v)) \<longrightarrow>
     (\<forall>x \<in> set best'. \<forall>v \<in> insert n V. v \<notin> snd ` set best' \<longrightarrow> skey x \<le> skey (score \<delta> v)))"
  proof (cases "card V < l")
    case True
    then have best': "best' = ?xs" "length best = card V" using assms(5) by (simp_all add: best'_def)
    have "snd ` set best = V"
    proof (rule card_subset_eq [OF assms(6)])
      show "snd ` set best \<subseteq> V" using assms(3) by auto
      show "card (snd ` set best) = card V" using assms(4) best'(2) distinct_card by fastforce
    qed
    then show ?thesis using xs True best' by auto
  next
    case False
    then have len: "length ?xs = Suc l" using assms(5) by simp
    then obtain y rest where pop: "heap_pop p ?xs = Some (y, rest)"
      using heap_pop_None [of p ?xs] by (cases "heap_pop p ?xs") auto
    then have best': "best' = rest" using trim_pop [OF len] by (simp add: best'_def)
    note m = heap_pop_mset [OF pop] and st = heap_pop_set [OF pop]
    have "mset (map snd ?xs) = add_mset (snd y) (mset (map snd rest))" using m by (metis image_mset_add_mset mset_map)
    then have d: "distinct (map snd rest)" "snd y \<notin> snd ` set rest"
      using xs(2) by (metis distinct.simps(2) distinct_count_atmost_1 mset.simps(2) mset_eq_imp_distinct_iff, metis (no_types, lifting) distinct.simps(2) list.set_map mset.simps(2) mset_eq_imp_distinct_iff)
    have "\<forall>x \<in> set rest. \<forall>v \<in> insert n V. v \<notin> snd ` set rest \<longrightarrow> skey x \<le> skey (score \<delta> v)"
      if nn: "no_nan ?xs" and old: "\<forall>x \<in> set best. \<forall>v \<in> V. v \<notin> snd ` set best \<longrightarrow> skey x \<le> skey (score \<delta> v)"
    proof (intro ballI impI)
      fix x v assume x: "x \<in> set rest" and v: "v \<in> insert n V" "v \<notin> snd ` set rest"
      have max: "skey z \<le> skey y" if "z \<in> set ?xs" for z using heap_pop_extreme(1) [OF nn pop that assms(1)] .
      have x': "x \<in> set ?xs" using st x by blast
      show "skey x \<le> skey (score \<delta> v)"
      proof (cases "v = snd y")
        case True
        have "y \<in> score \<delta> ` insert n V" using st xs(1) by blast
        then have "score \<delta> v = y" using True by (auto simp: score_def)
        then show ?thesis using max [OF x'] by simp
      next
        case False
        moreover have "snd ` set ?xs = insert (snd y) (snd ` set rest)" using st by (metis image_insert)
        ultimately have "v \<notin> snd ` set ?xs" using v(2) by blast
        then have vb: "v \<in> V" "v \<notin> snd ` set best" using v(1) by auto
        show ?thesis
        proof (cases "x \<in> set best")
          case True
          then show ?thesis using old vb by blast
        next
          case False
          then have "x = score \<delta> n" using x' by simp
          have "y \<noteq> x" using d(2) x by auto
          then have "y \<in> set best" using st \<open>x = score \<delta> n\<close> by auto
          then show ?thesis using max [OF x'] old vb by fastforce
        qed
      qed
    qed
    moreover have "set rest \<subseteq> score \<delta> ` insert n V" using st xs(1) by blast
    moreover have "length rest = min l (card (insert n V))" using heap_pop_length [OF pop] len False xs(3) by simp
    ultimately show ?thesis using d(1) by (simp add: best')
  qed
  then show "set best' \<subseteq> score \<delta> ` insert n V" "distinct (map snd best')" "length best' = min l (card (insert n V))"
    "no_nan ?xs \<Longrightarrow> \<forall>x \<in> set best. \<forall>v \<in> V. v \<notin> snd ` set best \<longrightarrow> skey x \<le> skey (score \<delta> v) \<Longrightarrow>
     \<forall>x \<in> set best'. \<forall>v \<in> insert n V. v \<notin> snd ` set best' \<longrightarrow> skey x \<le> skey (score \<delta> v)"
    by simp_all
qed

section \<open>The search loop\<close>

lemma mark_seen:
  assumes "fit graph (ss_visited s)" "unat n < length graph"
  obtains vt where "vt_mark_if_new (unat n) (ss_visited s) = Inr (n \<notin> seen s, vt)" "fit graph vt"
    "\<And>c b. seen \<lparr>ss_visited = vt, ss_candidates = c, ss_best = b\<rparr> = insert n (seen s)" "n \<in> seen s \<Longrightarrow> vt = ss_visited s"
proof -
  have "unat n < length (vt_marks (ss_visited s))" using assms by (simp add: fit_def)
  from vt_mark_new [OF this] obtain vt where
    vt: "vt_mark_if_new (unat n) (ss_visited s) = Inr (unat n \<notin> marked (ss_visited s), vt)"
      "marked vt = insert (unat n) (marked (ss_visited s))"
      "length (vt_marks vt) = length (vt_marks (ss_visited s))" "vt_ok (ss_visited s) \<Longrightarrow> vt_ok vt" by metis
  have "n \<in> seen s \<Longrightarrow> vt = ss_visited s"
    using vt(1) by (auto simp: seen_def vt_mark_if_new_def split: if_splits)
  moreover have "fit graph vt" using vt(3,4) assms(1) by (simp add: fit_def)
  moreover have "vt_mark_if_new (unat n) (ss_visited s) = Inr (n \<notin> seen s, vt)" using vt(1) by (simp add: seen_def)
  moreover have "seen \<lparr>ss_visited = vt, ss_candidates = c, ss_best = b\<rparr> = insert n (seen s)" for c b
    using vt(2) by (auto simp: seen_def word_unat_eq_iff)
  ultimately show thesis using that by blast
qed

lemma expand_inv:
  assumes "heaps_ok H" "0 < l" "\<forall>i < length graph. dist i = Inr (\<delta> i)" "u \<in> reachable graph root" "unat u < length graph"
  shows "search_inv graph \<delta> l root s \<Longrightarrow> set nbrs \<subseteq> set (graph ! unat u) \<Longrightarrow>
    \<exists>s'. expand H dist graph l nbrs s = Inr s' \<and> search_inv graph \<delta> l root s' \<and>
      seen s' = seen s \<union> {n \<in> set nbrs. unat n < length graph} \<and>
      set (ss_candidates s') = set (ss_candidates s) \<union> score \<delta> ` (seen s' - seen s)"
proof (induction nbrs arbitrary: s)
  case (Cons n ns)
  note inv = Cons.prems(1) [unfolded search_inv_def]
  show ?case
  proof (cases "unat n < length graph")
    case True
    obtain vt where vt: "vt_mark_if_new (unat n) (ss_visited s) = Inr (n \<notin> seen s, vt)" "fit graph vt"
      "\<And>c b. seen \<lparr>ss_visited = vt, ss_candidates = c, ss_best = b\<rparr> = insert n (seen s)" "n \<in> seen s \<Longrightarrow> vt = ss_visited s"
      using mark_seen [of graph s n] inv True by blast
    show ?thesis
    proof (cases "n \<in> seen s")
      case old: True
      then have "expand H dist graph l (n # ns) s = expand H dist graph l ns s"
        using vt(1,4) True by simp
      then show ?thesis using Cons.IH [OF Cons.prems(1)] Cons.prems(2) old True by auto
    next
      case new: False
      let ?s = "\<lparr>ss_visited = vt, ss_candidates = score \<delta> n # ss_candidates s,
        ss_best = trim (hp_best H) l (score \<delta> n # ss_best s)\<rparr>"
      have step: "expand H dist graph l (n # ns) s = expand H dist graph l ns ?s"
        using vt(1) new True assms(3) by (simp add: score_def Let_def)
      have "edge graph u n" using True assms(5) Cons.prems(2) by (simp add: edge_def)
      then have reach: "n \<in> reachable graph root" using assms(4) by (auto simp: reachable_def)
      have nn: "nan_free graph \<delta> \<Longrightarrow> no_nan (score \<delta> n # ss_best s)"
        using inv_no_nan [OF Cons.prems(1), of "ss_best s"] inv True by (auto simp: no_nan_def nan_free_def)
      note pb = push_best [of "hp_best H" l "ss_best s" \<delta> "seen s" n]
      have "search_inv graph \<delta> l root ?s"
        unfolding search_inv_def vt(3) using pb assms(1,2) inv new nn vt(2) reach by (auto simp: heaps_ok_def)
      moreover have "seen ?s = insert n (seen s)" by (rule vt(3))
      ultimately show ?thesis using Cons.IH [of ?s] Cons.prems(2) new True unfolding step by auto
    qed
  next
    case False
    then show ?thesis using Cons.IH [OF Cons.prems(1)] Cons.prems(2) by auto
  qed
qed auto

text \<open>Nodes that left the candidates have only seen neighbours.\<close>

definition closed_but :: "graph \<Rightarrow> u32 set \<Rightarrow> search_state \<Rightarrow> bool" where
  "closed_but graph C s \<longleftrightarrow> (\<forall>u \<in> seen s. u \<notin> C \<longrightarrow> (\<forall>w. edge graph u w \<longrightarrow> w \<in> seen s))"

lemma closed_reachable:
  assumes "closed_but graph {} s" "root \<in> seen s"
  shows "reachable graph root \<subseteq> seen s"
proof -
  have "v \<in> seen s" if "(edge graph)\<^sup>*\<^sup>* root v" for v
    using that assms by (induction rule: rtranclp_induct) (auto simp: closed_but_def)
  then show ?thesis by (auto simp: reachable_def)
qed

text \<open>What holds when the loop ends.\<close>

definition search_done :: "graph \<Rightarrow> (nat \<Rightarrow> f32) \<Rightarrow> nat \<Rightarrow> search_state \<Rightarrow> bool" where
  "search_done graph \<delta> l s \<longleftrightarrow>
     (card (seen s) < l \<longrightarrow> closed_but graph {} s) \<and>
     (nan_free graph \<delta> \<longrightarrow> (\<forall>x \<in> set (ss_best s). \<forall>w. edge graph (snd x) w \<longrightarrow> w \<in> seen s))"

lemma seen_candidates [simp]: "seen (s\<lparr>ss_candidates := c\<rparr>) = seen s"
  by (simp add: seen_def)

lemma break_done:
  assumes "heaps_ok H" "search_inv graph \<delta> l root s" "closed_but graph (snd ` set (ss_candidates s)) s"
    and "heap_pop (hp_candidates H) (ss_candidates s) = Some ((cd, cid), rest)" "l \<le> length (ss_best s)"
    and "heap_pop (hp_best H) (ss_best s) = Some ((worst, wid), others)" "f32_lt worst cd"
  shows "search_done graph \<delta> l (s\<lparr>ss_candidates := rest\<rparr>)"
proof -
  note inv = assms(2) [unfolded search_inv_def]
  have "w \<in> seen s" if nf: "nan_free graph \<delta>" and x: "x \<in> set (ss_best s)" and e: "edge graph (snd x) w" for x w
  proof -
    have "skey x \<le> skey (worst, wid)"
      using heap_pop_extreme(1) [OF inv_no_nan [OF assms(2) nf] assms(6) x] inv assms(1) by (simp add: heaps_ok_def)
    moreover have "f32_key worst < f32_key cd" using assms(7) by (simp add: f32_lt_def)
    ultimately have less: "f32_key (fst x) < f32_key cd" by (auto simp: skey_def less_eq_prod_def)
    have "snd x \<notin> snd ` set (ss_candidates s)"
    proof
      assume "snd x \<in> snd ` set (ss_candidates s)"
      then obtain y where y: "y \<in> set (ss_candidates s)" "snd y = snd x" by auto
      have "z = score \<delta> (snd z)" if "z \<in> score \<delta> ` seen s" for z using that by auto
      moreover have "y \<in> score \<delta> ` seen s" "x \<in> score \<delta> ` seen s" using y(1) x inv by blast+
      ultimately have "y = x" using y(2) by metis
      then have "skey (cd, cid) \<le> skey x"
        using heap_pop_extreme(2) [OF inv_no_nan [OF assms(2) nf] assms(4) y(1)] inv assms(1) by (simp add: heaps_ok_def)
      then show False using less by (auto simp: skey_def less_eq_prod_def)
    qed
    moreover have "snd x \<in> seen s" using x inv by auto
    ultimately show ?thesis using assms(3) e by (auto simp: closed_but_def)
  qed
  then show ?thesis using inv assms(5) by (auto simp: search_done_def)
qed

lemma search_loop_inv:
  assumes "heaps_ok H" "0 < l" "\<forall>i < length graph. dist i = Inr (\<delta> i)"
  shows "search_inv graph \<delta> l root s \<Longrightarrow> closed_but graph (snd ` set (ss_candidates s)) s \<Longrightarrow>
    \<exists>s'. search_loop H dist graph l s = Inr s' \<and> search_inv graph \<delta> l root s' \<and> search_done graph \<delta> l s'"
  using assms
proof (induction H dist graph l s rule: search_loop.induct)
  case (1 H dist graph l s)
  note inv = "1.prems"(1) [unfolded search_inv_def]
  show ?case
  proof (cases "heap_pop (hp_candidates H) (ss_candidates s)")
    case None
    then have "closed_but graph {} s" using "1.prems"(2) by (simp add: heap_pop_None)
    then have "search_done graph \<delta> l s" using inv by (auto simp: search_done_def closed_but_def)
    then show ?thesis using None "1.prems"(1) by (simp add: search_loop.simps [of H dist graph l s])
  next
    case (Some p)
    obtain cd cid rest where p: "p = ((cd, cid), rest)" by (metis prod.collapse)
    note pop = Some [unfolded p]
    let ?s = "s\<lparr>ss_candidates := rest\<rparr>"
    let ?stop = "l \<le> length (ss_best s) \<and>
       (case heap_pop (hp_best H) (ss_best s) of None \<Rightarrow> False | Some ((worst, wid), _) \<Rightarrow> f32_lt worst cd)"
    have cid: "(cd, cid) = score \<delta> cid" "cid \<in> seen s" "set rest \<subseteq> score \<delta> ` seen s"
      using heap_pop_set [OF pop] inv by (auto simp: score_def)
    have inv': "search_inv graph \<delta> l root ?s" using inv cid(3) by (simp add: search_inv_def)
    show ?thesis
    proof (cases ?stop)
      case True
      then obtain worst wid others where w: "heap_pop (hp_best H) (ss_best s) = Some ((worst, wid), others)" "f32_lt worst cd"
        by (auto split: option.splits)
      have "search_loop H dist graph l s = Inr ?s" using True pop by (simp add: search_loop.simps [of H dist graph l s] Let_def)
      then show ?thesis using inv' break_done [OF "1.prems"(3,1,2) pop _ w] True by blast
    next
      case False
      have "unat cid < length graph" using seen_bound [OF _ cid(2)] inv by blast
      note u = this
      have "cid \<in> reachable graph root" using cid(2) inv by blast
      from expand_inv [OF "1.prems"(3-5) this u inv' order.refl] obtain s2 where
        s2: "expand H dist graph l (graph ! unat cid) ?s = Inr s2" "search_inv graph \<delta> l root s2"
          "seen s2 = seen s \<union> {n \<in> set (graph ! unat cid). unat n < length graph}"
          "set (ss_candidates s2) = set rest \<union> score \<delta> ` (seen s2 - seen s)" by auto
      have "closed_but graph (snd ` set (ss_candidates s2)) s2"
        unfolding closed_but_def
      proof (intro ballI impI allI)
        fix v w assume v: "v \<in> seen s2" "v \<notin> snd ` set (ss_candidates s2)" and e: "edge graph v w"
        have "v \<in> seen s" "v \<notin> snd ` set rest" using v s2(4) by (auto simp: image_Un image_iff score_def)
        show "w \<in> seen s2"
        proof (cases "v = cid")
          case True
          then show ?thesis using e s2(3) by (auto simp: edge_def)
        next
          case False
          then have "v \<notin> snd ` set (ss_candidates s)" using \<open>v \<notin> snd ` set rest\<close> heap_pop_set [OF pop] by auto
          then show ?thesis using "1.prems"(2) \<open>v \<in> seen s\<close> e s2(3) by (auto simp: closed_but_def)
        qed
      qed
      from "1.IH" [OF Some, unfolded p, OF refl refl refl False _ s2(1,2) this "1.prems"(3-5)] u
      have "\<exists>s'. search_loop H dist graph l s2 = Inr s' \<and> search_inv graph \<delta> l root s' \<and> search_done graph \<delta> l s'" by simp
      moreover have "search_loop H dist graph l s = search_loop H dist graph l s2"
        using pop u s2(1) by (simp add: search_loop.simps [of H dist graph l s] Let_def if_not_P [OF False])
      ultimately show ?thesis by simp
    qed
  qed
qed

section \<open>What a search returns\<close>

definition node_dist :: "f32_ops \<Rightarrow> f32 list \<Rightarrow> mmap_data \<Rightarrow> nat \<Rightarrow> f32" where
  "node_dist F query D i = (case md_row D i of Inl e \<Rightarrow> 0 | Inr row \<Rightarrow> l2_distance F query row)"

definition covers :: "mmap_data \<Rightarrow> graph \<Rightarrow> bool" where
  "covers D graph \<longleftrightarrow> 8 + length graph * md_dim D * 4 \<le> length (md_mmap D)"

lemma covers_row:
  assumes "covers D graph" "i < length graph"
  obtains row where "md_row D i = Inr row"
proof -
  have "Suc i * (md_dim D * 4) \<le> length graph * (md_dim D * 4)" using assms(2) by (intro mult_le_mono1) simp
  then have "8 + i * md_dim D * 4 + md_dim D * 4 \<le> length (md_mmap D)" using assms(1) by (simp add: covers_def algebra_simps)
  then show thesis using that by (simp add: md_row_def Let_def)
qed

text \<open>
  The search as a whole: it ends in a state that satisfies the invariant, and the ids returned are
  the first \<open>k\<close> of the sorted \<open>best\<close>.
\<close>

lemma search_one_run:
  fixes F :: f32_ops and query :: "f32 list"
  assumes "heaps_ok H" "fit graph vt" "covers D graph" "unat start < length graph"
  defines "\<delta> \<equiv> node_dist F query D"
  obtains s where "search_one H F query D graph start k l vt = Inr (map snd (take k (hp_sort H (ss_best s))), ss_visited s)"
    "search_inv graph \<delta> (max l (k + 1)) start s" "search_done graph \<delta> (max l (k + 1)) s"
proof -
  let ?dist = "\<lambda>i. res_bind (md_row D i) (\<lambda>row. Inr (l2_distance F query row))" and ?l = "max l (k + 1)"
  have dist: "\<forall>i < length graph. ?dist i = Inr (\<delta> i)"
    using covers_row [OF assms(3)] by (metis \<delta>_def node_dist_def res_bind_simps(2) sum.case(2))
  have reset: "fit graph (vt_reset vt)" "marked (vt_reset vt) = {}"
    using vt_reset_ok [of vt] assms(2) by (simp_all add: fit_def)
  then have "unat start < length (vt_marks (vt_reset vt))" using assms(4) by (simp add: fit_def)
  from vt_mark_new [OF this] reset obtain v where v: "vt_mark (unat start) (vt_reset vt) = Inr v" "fit graph v" "marked v = {unat start}"
    by (metis fit_def)
  let ?s = "\<lparr>ss_visited = v, ss_candidates = [score \<delta> start], ss_best = [score \<delta> start]\<rparr>"
  have seen: "seen ?s = {start}" by (auto simp: seen_def v(3) word_unat_eq_iff)
  have "search_inv graph \<delta> ?l start ?s"
    unfolding search_inv_def seen using v(2) by (simp add: reachable_def)
  moreover have "closed_but graph (snd ` set (ss_candidates ?s)) ?s" by (simp add: closed_but_def seen)
  moreover have "0 < ?l" by simp
  ultimately obtain s where "search_loop H ?dist graph ?l ?s = Inr s" "search_inv graph \<delta> ?l start s" "search_done graph \<delta> ?l s"
    using search_loop_inv [OF assms(1) _ dist] by blast
  then show thesis using v(1) dist assms(4) by (intro that) (simp_all add: search_one_def Let_def score_def)
qed

text \<open>The returned ids against the seen nodes.\<close>

lemma result_nearest:
  assumes "heaps_ok H" "search_inv graph \<delta> l root s" "k < l"
  defines "ids \<equiv> map snd (take k (hp_sort H (ss_best s)))"
  shows "distinct ids" "length ids = min k (card (seen s))" "set ids \<subseteq> snd ` set (ss_best s)" "set ids \<subseteq> seen s"
    "nan_free graph \<delta> \<Longrightarrow> sorted (map (\<lambda>u. f32_key (\<delta> (unat u))) ids)"
    "nan_free graph \<delta> \<Longrightarrow> v \<in> set ids \<Longrightarrow> w \<in> seen s - set ids \<Longrightarrow> f32_key (\<delta> (unat v)) \<le> f32_key (\<delta> (unat w))"
proof -
  note inv = assms(2) [unfolded search_inv_def]
  define xs where "xs = hp_sort H (ss_best s)"
  have m: "mset xs = mset (ss_best s)" using assms(1) by (simp add: xs_def heaps_ok_def sorts_scored_def)
  then have set_xs: "set xs = set (ss_best s)" and len: "length xs = length (ss_best s)" by (auto dest: mset_eq_setD mset_eq_length)
  have d: "distinct (map snd xs)" using m inv by (metis mset_eq_imp_distinct_iff mset_map)
  have split: "map snd xs = ids @ map snd (drop k xs)" unfolding ids_def xs_def by (metis append_take_drop_id map_append)
  show "distinct ids" using d split by simp
  show "length ids = min k (card (seen s))" using inv len assms(3) by (simp add: ids_def xs_def [symmetric] min_def)
  show sub: "set ids \<subseteq> snd ` set (ss_best s)" unfolding ids_def xs_def [symmetric] using set_xs by (auto dest: in_set_takeD)
  have "snd ` set (ss_best s) \<subseteq> snd ` score \<delta> ` seen s" using inv by (intro image_mono) blast
  then show seen: "set ids \<subseteq> seen s" using sub by (auto simp: image_image)
  have sc: "z \<in> set xs \<Longrightarrow> z = score \<delta> (snd z)" for z using set_xs inv by (auto simp: score_def)
  assume nf: "nan_free graph \<delta>"
  have srt: "sorted (map (\<lambda>x. f32_key (fst x)) xs)"
    using assms(1) inv_no_nan [OF assms(2) nf] inv by (simp add: xs_def heaps_ok_def sorts_scored_def)
  have keys: "map (\<lambda>u. f32_key (\<delta> (unat u))) (map snd ys) = map (\<lambda>x. f32_key (fst x)) ys" if "set ys \<subseteq> set xs" for ys
  proof -
    have "\<delta> (unat (snd x)) = fst x" if x: "x \<in> set ys" for x
    proof -
      have "x = score \<delta> (snd x)" using sc \<open>set ys \<subseteq> set xs\<close> x by blast
      then have "fst x = fst (score \<delta> (snd x))" by (rule arg_cong)
      then show ?thesis by simp
    qed
    then show ?thesis by simp
  qed
  show "sorted (map (\<lambda>u. f32_key (\<delta> (unat u))) ids)"
    unfolding ids_def xs_def [symmetric] keys [OF set_take_subset] using sorted_wrt_take [OF srt, of k] by (simp add: take_map)
  assume v: "v \<in> set ids" and w: "w \<in> seen s - set ids"
  show "f32_key (\<delta> (unat v)) \<le> f32_key (\<delta> (unat w))"
  proof (cases "w \<in> snd ` set (ss_best s)")
    case True
    then have "w \<in> set (map snd (drop k xs))" using w split set_xs by (metis DiffD2 UnE list.set_map set_append)
    moreover have "sorted (map (\<lambda>u. f32_key (\<delta> (unat u))) (ids @ map snd (drop k xs)))"
      using keys [of xs] srt split by simp
    ultimately show ?thesis using v by (auto simp: sorted_append)
  next
    case False
    have "score \<delta> v \<in> set (ss_best s)" using sub v sc set_xs by fastforce
    then have "skey (score \<delta> v) \<le> skey (score \<delta> w)" using inv nf w False by blast
    then show ?thesis by (auto simp: skey_def less_eq_prod_def)
  qed
qed


text \<open>C1: The result is a local optimum of the graph. If no distance is a NaN, the ids come in order of
  distance, and every neighbour of a returned node is returned too, or \<open>k\<close> ids were returned and none
  of them is farther than that neighbour.\<close>

theorem search_one_local_optimum:
  assumes "heaps_ok H" "fit graph vt" "covers D graph" "unat start < length graph" "nan_free graph (node_dist F query D)"
    and "search_one H F query D graph start k l vt = Inr (ids, vt')"
  shows "sorted (map (\<lambda>u. f32_key (node_dist F query D (unat u))) ids) \<and>
    (\<forall>u w. u \<in> set ids \<and> edge graph u w \<and> w \<notin> set ids \<longrightarrow>
      length ids = k \<and> (\<forall>v \<in> set ids. f32_key (node_dist F query D (unat v)) \<le> f32_key (node_dist F query D (unat w))))"
proof -
  obtain s where s: "ids = map snd (take k (hp_sort H (ss_best s)))"
    "search_inv graph (node_dist F query D) (max l (k + 1)) start s" "search_done graph (node_dist F query D) (max l (k + 1)) s"
    using search_one_run [OF assms(1-4), where F = F and query = query and k = k and l = l] assms(6) by (metis Inr_inject Pair_inject)
  have "k < max l (k + 1)" by simp
  note r = result_nearest [OF assms(1) s(2) this, folded s(1)]
  have "w \<in> seen s" if "u \<in> set ids" "edge graph u w" for u w
    using that s(3) r(3) assms(5) by (auto simp: search_done_def)
  moreover have "length ids = k" if "w \<in> seen s" "w \<notin> set ids" for w
  proof (rule ccontr)
    assume "length ids \<noteq> k"
    then have "card (set ids) = card (seen s)" using r(1,2) distinct_card [of ids] by (auto simp: min_def split: if_splits)
    then have "set ids = seen s" using r(4) by (intro card_subset_eq) auto
    then show False using that by simp
  qed
  ultimately show ?thesis using r(5,6) [OF assms(5)] by blast
qed

text \<open>C2: With a search list at least as long as the number of reachable nodes the search is exact: it
  returns the \<open>k\<close> nearest of all nodes reachable from the entry point (all of them if there are
  fewer).\<close>

theorem search_one_exhaustive:
  assumes "heaps_ok H" "fit graph vt" "covers D graph" "unat start < length graph" "nan_free graph (node_dist F query D)"
    and "card (reachable graph start) \<le> max l (k + 1)" "search_one H F query D graph start k l vt = Inr (ids, vt')"
  shows "length ids = min k (card (reachable graph start)) \<and> set ids \<subseteq> reachable graph start \<and>
    (\<forall>v \<in> set ids. \<forall>w \<in> reachable graph start - set ids.
      f32_key (node_dist F query D (unat v)) \<le> f32_key (node_dist F query D (unat w)))"
proof -
  obtain s where s: "ids = map snd (take k (hp_sort H (ss_best s)))"
    "search_inv graph (node_dist F query D) (max l (k + 1)) start s" "search_done graph (node_dist F query D) (max l (k + 1)) s"
    using search_one_run [OF assms(1-4), where F = F and query = query and k = k and l = l] assms(7) by (metis Inr_inject Pair_inject)
  have "k < max l (k + 1)" by simp
  note r = result_nearest [OF assms(1) s(2) this, folded s(1)]
  have sub: "seen s \<subseteq> reachable graph start" "start \<in> seen s" using s(2) by (simp_all add: search_inv_def)
  have "seen s = reachable graph start"
  proof (cases "card (seen s) < max l (k + 1)")
    case True
    then show ?thesis using closed_reachable s(3) sub by (simp add: search_done_def subset_antisym)
  next
    case False
    then show ?thesis using assms(6) sub(1) by (intro card_seteq) auto
  qed
  then show ?thesis using r(2,4,6) assms(5) by auto
qed

section \<open>Witnesses\<close>

lemma takeWhile_less: "x \<in> set xs \<Longrightarrow> \<not> P x \<Longrightarrow> length (takeWhile P xs) < length xs"
  by (induction xs) auto

lemma pick_first_ok:
  assumes "\<exists>x \<in> set xs. \<forall>y \<in> set xs. le y x"
  shows "\<forall>y \<in> set xs. le y (xs ! (pick_first le xs mod length xs))"
proof -
  let ?P = "\<lambda>x. \<not> (\<forall>y \<in> set xs. le y x)"
  obtain x where "x \<in> set xs" "\<not> ?P x" using assms by auto
  then have less: "length (takeWhile ?P xs) < length xs" by (rule takeWhile_less)
  then have "\<not> ?P (xs ! length (takeWhile ?P xs))" by (rule nth_length_takeWhile)
  then show ?thesis using less by (simp add: pick_first_def)
qed

lemma scored_extreme:
  assumes "xs \<noteq> [] \<and> no_nan xs"
  shows "\<exists>x \<in> set xs. \<forall>y \<in> set xs. scored_cmp y x \<noteq> Greater" "\<exists>x \<in> set xs. \<forall>y \<in> set xs. scored_cmp x y \<noteq> Greater"
proof -
  have key: "scored_cmp x y \<noteq> Greater \<longleftrightarrow> skey x \<le> skey y" if "x \<in> set xs" "y \<in> set xs" for x y
    using that scored_cmp_key [of x y] assms by (simp add: no_nan_def)
  have fin: "finite (skey ` set xs)" "skey ` set xs \<noteq> {}" using assms by auto
  obtain a where a: "a \<in> set xs" "Max (skey ` set xs) = skey a" using Max_in [OF fin] by (rule imageE) auto
  obtain b where b: "b \<in> set xs" "Min (skey ` set xs) = skey b" using Min_in [OF fin] by (rule imageE) auto
  have ab: "a \<in> set xs" "\<forall>y \<in> set xs. skey y \<le> skey a" "b \<in> set xs" "\<forall>y \<in> set xs. skey b \<le> skey y"
    using a b Max_ge [OF fin(1)] Min_le [OF fin(1)] by auto
  show "\<exists>x \<in> set xs. \<forall>y \<in> set xs. scored_cmp y x \<noteq> Greater"
    by (rule bexI [OF _ ab(1)], intro ballI, subst key) (use ab in auto)
  show "\<exists>x \<in> set xs. \<forall>y \<in> set xs. scored_cmp x y \<noteq> Greater"
    by (rule bexI [OF _ ab(3)], intro ballI, subst key) (use ab in auto)
qed

lemma list_heaps_ok: "heaps_ok list_heaps"
proof -
  have "picks_max (hp_best list_heaps)" unfolding picks_max_def list_heaps_def heaps.simps
    by (intro allI impI pick_first_ok scored_extreme(1))
  moreover have "picks_min (hp_candidates list_heaps)" unfolding picks_min_def list_heaps_def heaps.simps
    by (intro allI impI pick_first_ok [of _ "\<lambda>y x. scored_cmp x y \<noteq> Greater"] scored_extreme(2))
  moreover have "sorts_scored (hp_sort list_heaps)" by (simp add: sorts_scored_def list_heaps_def)
  ultimately show ?thesis by (simp add: heaps_ok_def)
qed

lemma less_3: "(\<forall>i < 3. P i) \<longleftrightarrow> P (0 :: nat) \<and> P 1 \<and> P 2"
  by (auto simp: less_Suc_eq numeral_3_eq_3 numeral_2_eq_2)

lemma sample_search:
  "heaps_ok list_heaps" "fit sample_graph (vt_new 3)" "covers sample_data sample_graph" "unat (0 :: u32) < length sample_graph"
  "nan_free sample_graph (node_dist sample_ops [0x3f800000] sample_data)" "card (reachable sample_graph 0) \<le> max 10 (2 + 1)"
proof -
  show "heaps_ok list_heaps" by (rule list_heaps_ok)
  show "fit sample_graph (vt_new 3)" by (simp add: fit_def vt_new_ok sample_graph_def)
  show "covers sample_data sample_graph" by (simp add: covers_def sample_data_def sample_graph_def)
  show "unat (0 :: u32) < length sample_graph" by (simp add: sample_graph_def)
  have "node_dist sample_ops [0x3f800000] sample_data 0 = 0x40a00000" "node_dist sample_ops [0x3f800000] sample_data 1 = 0x3f800000"
    "node_dist sample_ops [0x3f800000] sample_data 2 = 0x40000000" by code_simp+
  moreover have len: "length sample_graph = 3" by (simp add: sample_graph_def)
  moreover have "\<not> f32_is_nan 0x40a00000" "\<not> f32_is_nan 0x3f800000" "\<not> f32_is_nan 0x40000000" by code_simp+
  ultimately show "nan_free sample_graph (node_dist sample_ops [0x3f800000] sample_data)"
    unfolding nan_free_def len less_3 by simp
  have "v \<in> {0, 1, 2}" if "(edge sample_graph)\<^sup>*\<^sup>* 0 v" for v
    using that by (induction rule: rtranclp_induct) (auto simp: edge_def sample_graph_def)
  then have "reachable sample_graph 0 \<subseteq> {0, 1, 2}" by (auto simp: reachable_def)
  then have "card (reachable sample_graph 0) \<le> card {0, 1, 2 :: u32}" by (intro card_mono) auto
  also have "\<dots> \<le> 3" by (simp add: card_insert_if)
  finally show "card (reachable sample_graph 0) \<le> max 10 (2 + 1)" by simp
qed


lemma sample_search_run:
  obtains vt' where "search_one list_heaps sample_ops [0x3f800000] sample_data sample_graph 0 2 10 (vt_new 3) = Inr ([1, 2], vt')"
proof -
  have "(case search_one list_heaps sample_ops [0x3f800000] sample_data sample_graph 0 2 10 (vt_new 3) of
      Inl e \<Rightarrow> False | Inr p \<Rightarrow> fst p = [1, 2])" by code_simp
  then show thesis using that by (auto split: sum.splits)
qed

theorem search_one_local_optimum_witness:
  "sorted (map (\<lambda>u. f32_key (node_dist sample_ops [0x3f800000] sample_data (unat u))) [1, 2 :: u32]) \<and>
    (\<exists>u w :: u32. edge sample_graph u w)"
proof
  obtain vt' where run: "search_one list_heaps sample_ops [0x3f800000] sample_data sample_graph 0 2 10 (vt_new 3) = Inr ([1, 2], vt')"
    by (rule sample_search_run)
  show "sorted (map (\<lambda>u. f32_key (node_dist sample_ops [0x3f800000] sample_data (unat u))) [1, 2 :: u32])"
    using search_one_local_optimum [OF sample_search(1-5) run] by (rule conjunct1)
  show "\<exists>u w :: u32. edge sample_graph u w" by (rule exI [of _ 0], rule exI [of _ 1]) (simp add: edge_def sample_graph_def)
qed

theorem search_one_exhaustive_witness:
  "length [1, 2 :: u32] = min 2 (card (reachable sample_graph 0)) \<and> set [1, 2] \<subseteq> reachable sample_graph 0 \<and>
    \<not> (\<exists>v \<in> set [1, 2 :: u32]. \<exists>w \<in> reachable sample_graph 0 - set [1, 2].
      f32_key (node_dist sample_ops [0x3f800000] sample_data (unat w)) < f32_key (node_dist sample_ops [0x3f800000] sample_data (unat v)))"
proof -
  obtain vt' where run: "search_one list_heaps sample_ops [0x3f800000] sample_data sample_graph 0 2 10 (vt_new 3) = Inr ([1, 2], vt')"
    by (rule sample_search_run)
  show ?thesis using search_one_exhaustive [OF sample_search run] by (simp add: not_less)
qed

end
