(* ===== verification/Sampling.thy ===== *)
theory Sampling
  imports Prelude "HOL-Library.Product_Lexorder"
begin

unbundle bit_operations_syntax

text \<open>
  Bottom-k sampling, \<^verbatim>\<open>ForgeANN/src/forgeann/sampling.rs\<close>: every id gets a score that depends only
  on the id and the seed, and the sample is the \<open>k\<close> ids of smallest score. The leaders of every level
  of the partition are chosen this way.
\<close>

section \<open>The score\<close>

definition splitmix64 :: "u64 \<Rightarrow> u64" where
  "splitmix64 value =
     (let v1 = value + 0x9e3779b97f4a7c15;
          v2 = (v1 XOR drop_bit 30 v1) * 0xbf58476d1ce4e5b9;
          v3 = (v2 XOR drop_bit 27 v2) * 0x94d049bb133111eb
      in v3 XOR drop_bit 31 v3)"

definition stable_sample_score :: "u32 \<Rightarrow> u64 \<Rightarrow> u64" where
  "stable_sample_score point_id seed = splitmix64 (seed XOR (ucast point_id * 0x9e3779b97f4a7c15))"

section \<open>The sample\<close>

text \<open>
  The library calls: the two unstable sorts, and \<open>select_nth_unstable_by(k, ..)\<close>, which moves the \<open>k\<close>
  smallest elements before position \<open>k\<close> in some order.
\<close>

record sample_sorts =
  by_id :: "(u32 \<times> usize \<Rightarrow> u32 \<times> usize) \<Rightarrow> (u32 \<times> usize) list \<Rightarrow> (u32 \<times> usize) list"
  select_nth :: "nat \<Rightarrow> (u64 \<times> u32 \<times> usize) list \<Rightarrow> (u64 \<times> u32 \<times> usize) list"
  by_score :: "(u64 \<times> u32 \<times> usize \<Rightarrow> u64 \<times> u32) \<Rightarrow> (u64 \<times> u32 \<times> usize) list \<Rightarrow> (u64 \<times> u32 \<times> usize) list"

definition score_key :: "u64 \<times> u32 \<times> usize \<Rightarrow> u64 \<times> u32" where
  "score_key = (\<lambda>(score, id, _). (score, id))"

definition sample_positions_bottomk :: "sample_sorts \<Rightarrow> u32 list \<Rightarrow> usize \<Rightarrow> u64 \<Rightarrow> usize list" where
  "sample_positions_bottomk S ids k seed =
     (if k = 0 \<or> ids = [] then []
      else
        let unique = dedup_by_key fst (by_id S (\<lambda>x. x) (map (\<lambda>(idx, id). (id, idx)) (enumerate 0 ids)))
        in if length unique \<le> k then map snd unique
           else
             let scored = map (\<lambda>(id, idx). (stable_sample_score id seed, id, idx)) unique;
                 cut = take k (select_nth S k scored)
             in map (\<lambda>(_, _, idx). idx) (by_score S score_key cut))"

definition sample_set_bottomk :: "sample_sorts \<Rightarrow> u32 list \<Rightarrow> usize \<Rightarrow> u64 \<Rightarrow> u32 list" where
  "sample_set_bottomk S ids k seed = map (\<lambda>idx. ids ! idx) (sample_positions_bottomk S ids k seed)"

section \<open>What the library promises\<close>

definition selects_nth :: "(nat \<Rightarrow> (u64 \<times> u32 \<times> usize) list \<Rightarrow> (u64 \<times> u32 \<times> usize) list) \<Rightarrow> bool" where
  "selects_nth sel \<longleftrightarrow>
     (\<forall>k xs. mset (sel k xs) = mset xs \<and>
        (\<forall>x \<in> set (take k (sel k xs)). \<forall>y \<in> set (drop k (sel k xs)). score_key x \<le> score_key y))"

definition sample_sorts_ok :: "sample_sorts \<Rightarrow> bool" where
  "sample_sorts_ok S \<longleftrightarrow> unstable_sort (by_id S) \<and> unstable_sort (by_score S) \<and> selects_nth (select_nth S)"

definition std_sorts :: sample_sorts where
  "std_sorts = \<lparr>by_id = sort_key, select_nth = \<lambda>k. sort_key score_key, by_score = sort_key\<rparr>"

lemma std_sorts_ok: "sample_sorts_ok std_sorts"
proof -
  have "score_key x \<le> score_key y"
    if "x \<in> set (take k (sort_key score_key xs))" "y \<in> set (drop k (sort_key score_key xs))" for k x y xs
  proof -
    have "sorted (map score_key (take k (sort_key score_key xs)) @ map score_key (drop k (sort_key score_key xs)))"
      by (simp flip: map_append)
    with that show ?thesis by (auto simp: sorted_append)
  qed
  then show ?thesis
    by (auto simp: sample_sorts_ok_def std_sorts_def unstable_sort_sort_key selects_nth_def)
qed

section \<open>The sample is the k smallest scores\<close>

text \<open>The reference: all ids in ascending order when they fit, else the first \<open>k\<close> in the order of the scores.\<close>

definition bottomk :: "u32 set \<Rightarrow> usize \<Rightarrow> u64 \<Rightarrow> u32 list" where
  "bottomk A k seed =
     (if card A \<le> k then sorted_list_of_set A
      else take k (sort_key (\<lambda>id. (stable_sample_score id seed, id)) (sorted_list_of_set A)))"

text \<open>Taking the \<open>k\<close> smallest and sorting them is sorting and taking the first \<open>k\<close>.\<close>

lemma select_then_sort:
  assumes "selects_nth sel" "unstable_sort srt" "distinct (map score_key xs)"
  shows "srt score_key (take k (sel k xs)) = take k (sort_key score_key xs)"
proof -
  let ?a = "take k (sel k xs)" and ?b = "drop k (sel k xs)"
  let ?s = "srt score_key ?a @ sort_key score_key ?b"
  have ms: "mset (sel k xs) = mset xs"
    and le: "\<forall>x \<in> set ?a. \<forall>y \<in> set ?b. score_key x \<le> score_key y"
    using assms(1) by (auto simp: selects_nth_def)
  have a: "mset (srt score_key ?a) = mset ?a" "sorted (map score_key (srt score_key ?a))"
    using assms(2) by (simp_all add: unstable_sort_def)
  have "mset ?s = mset ?a + mset ?b" by (simp add: a)
  also have "\<dots> = mset xs" by (metis append_take_drop_id mset_append ms)
  finally have m: "mset ?s = mset xs" .
  then have "mset (map score_key ?s) = mset (map score_key xs)" by (simp only: mset_map)
  then have d: "distinct (map score_key ?s)" using assms(3) mset_eq_imp_distinct_iff by blast
  have "set (srt score_key ?a) = set ?a" by (metis a(1) set_mset_mset)
  then have "sorted (map score_key ?s)" using le a(2) by (auto simp: sorted_append)
  then have "?s = sort_key score_key xs" using sort_key_unique m d by blast
  moreover have "length (srt score_key ?a) = min k (length xs)"
    by (metis a(1) length_take ms min.commute size_mset)
  moreover have "length (sort_key score_key xs) = length xs" by simp
  moreover have "length xs \<le> k \<Longrightarrow> ?b = []" using ms by (metis drop_all size_mset)
  ultimately show ?thesis
    by (cases "length xs \<le> k") (auto dest: sym)
qed

lemma unique_ids:
  fixes ids :: "u32 list"
  assumes "unstable_sort srt"
  defines "u \<equiv> dedup_by_key fst (srt (\<lambda>x. x) (map (\<lambda>(idx, id). (id, idx)) (enumerate 0 ids)))"
  shows "map fst u = sorted_list_of_set (set ids)" and "map ((!) ids) (map snd u) = map fst u"
proof -
  let ?p = "map (\<lambda>(idx, id). (id, idx)) (enumerate 0 ids)"
  let ?s = "srt (\<lambda>x. x) ?p"
  have ms: "mset ?s = mset ?p" and so: "sorted ?s"
    using assms(1) unstable_sortD [of srt "\<lambda>x. x" ?p] by simp_all
  have st: "set ?s = set ?p" by (metis ms set_mset_mset)
  have "sorted (map fst ?s)" using so by (auto simp: sorted_map less_eq_prod_def elim!: sorted_wrt_mono_rel [rotated])
  then have "sorted_wrt (<) (map fst u)" unfolding u_def by (rule dedup_by_key_strict)
  moreover have "fst ` set ?p = set ids" by (simp add: image_image case_prod_unfold) (metis list.set_map map_snd_enumerate)
  then have "set (map fst u) = set ids" by (simp add: u_def keys_dedup_by_key st)
  ultimately show "map fst u = sorted_list_of_set (set ids)"
    using sorted_list_of_set.idem_if_sorted_distinct strict_sorted_iff by metis
  have "set u \<subseteq> set ?p" using set_dedup_by_key_subset [of fst ?s] st by (auto simp: u_def)
  then show "map ((!) ids) (map snd u) = map fst u" by (auto simp: in_set_enumerate_eq)
qed

lemma sample_eq_bottomk:
  assumes "sample_sorts_ok S"
  shows "sample_set_bottomk S ids k seed = bottomk (set ids) k seed"
proof -
  define u where "u = dedup_by_key fst (by_id S (\<lambda>x. x) (map (\<lambda>(idx, id). (id, idx)) (enumerate 0 ids)))"
  let ?score = "\<lambda>(id, idx). (stable_sample_score id seed, id, idx :: usize)"
  let ?key = "\<lambda>id. (stable_sample_score id seed, id)"
  have S: "unstable_sort (by_id S)" "unstable_sort (by_score S)" "selects_nth (select_nth S)"
    using assms by (simp_all add: sample_sorts_ok_def)
  have fst: "map fst u = sorted_list_of_set (set ids)" and nth: "map ((!) ids) (map snd u) = map fst u"
    using unique_ids [OF S(1), of ids] by (simp_all add: u_def)
  have len: "length u = card (set ids)"
    using arg_cong [OF fst, of length] by simp
  show ?thesis
  proof (cases "k = 0 \<or> ids = []")
    case True
    then show ?thesis by (auto simp: sample_set_bottomk_def sample_positions_bottomk_def bottomk_def)
  next
    case ne: False
    show ?thesis
    proof (cases "length u \<le> k")
      case True
      then show ?thesis
        using ne nth fst len by (simp add: sample_set_bottomk_def sample_positions_bottomk_def bottomk_def flip: u_def)
    next
      case False
      have keys: "map score_key (map ?score u) = map ?key (map fst u)"
        by (auto simp: score_key_def)
      have "inj ?key" by (auto simp: inj_def)
      then have "distinct (map ?key (map fst u))"
        unfolding fst by (auto simp: distinct_map intro: inj_on_subset)
      then have dist: "distinct (map score_key (map ?score u))" by (simp only: keys)
      have cut: "by_score S score_key (take k (select_nth S k (map ?score u))) = take k (sort_key score_key (map ?score u))"
        by (rule select_then_sort [OF S(3,2) dist])
      have sub: "ids ! idx = id" if "(sc, id, idx) \<in> set (sort_key score_key (map ?score u))" for sc id idx
        using that nth by (auto simp: map_eq_conv)
      have "map (\<lambda>(_, id, _). id) (sort_key score_key (map ?score u)) = sort_key ?key (map fst u)"
      proof (rule sort_key_unique)
        show "mset (map (\<lambda>(_, id, _). id) (sort_key score_key (map ?score u))) = mset (map fst u)"
          by (simp add: image_mset.compositionality comp_def case_prod_unfold)
        have "map ?key (map (\<lambda>(_, id, _). id) (sort_key score_key (map ?score u))) =
            map score_key (sort_key score_key (map ?score u))"
          by (auto simp: score_key_def)
        moreover have "distinct (map score_key (sort_key score_key (map ?score u)))"
          using dist by (rule stable.distinct_map_srt [THEN iffD2])
        ultimately show "distinct (map ?key (map (\<lambda>(_, id, _). id) (sort_key score_key (map ?score u))))"
          and "sorted (map ?key (map (\<lambda>(_, id, _). id) (sort_key score_key (map ?score u))))"
          by (simp_all del: map_map)
      qed
      moreover have "map (\<lambda>idx. ids ! idx) (map (\<lambda>(_, _, idx). idx) (take k (sort_key score_key (map ?score u)))) =
          map (\<lambda>(_, id, _). id) (take k (sort_key score_key (map ?score u)))"
        using sub by (auto dest!: in_set_takeD)
      ultimately show ?thesis
        using ne False cut fst len
        by (simp add: sample_set_bottomk_def sample_positions_bottomk_def bottomk_def del: map_map flip: u_def take_map)
    qed
  qed
qed

text \<open>C31: A bottom-k sample depends only on the set of the ids and the seed: whatever the library's
  unstable sorts and selection do, it is the set itself, ascending, when it has at most \<open>k\<close> elements,
  and else the \<open>k\<close> ids with the smallest scores, in the order of their scores.\<close>

theorem sample_is_bottomk:
  assumes "sample_sorts_ok S"
  shows "sample_set_bottomk S ids k seed = bottomk (set ids) k seed"
  using assms by (rule sample_eq_bottomk)

theorem sample_is_bottomk_witness:
  "sample_set_bottomk std_sorts [9, 7, 9, 3] 2 17 = bottomk (set [9, 7, 9, 3]) 2 17 \<and>
   sample_set_bottomk std_sorts [9, 7, 9, 3] 2 17 = [9, 3]"
proof
  show "sample_set_bottomk std_sorts [9, 7, 9, 3] 2 17 = bottomk (set [9, 7, 9, 3]) 2 17"
    by (rule sample_is_bottomk) (rule std_sorts_ok)
  show "sample_set_bottomk std_sorts [9, 7, 9, 3] 2 17 = [9, 3]" by code_simp
qed

lemma set_bottomk: "finite A \<Longrightarrow> set (bottomk A k seed) \<subseteq> A"
  by (auto simp: bottomk_def dest!: in_set_takeD)

lemma length_bottomk: "finite A \<Longrightarrow> length (bottomk A k seed) = min k (card A)"
  by (auto simp: bottomk_def)

lemma distinct_bottomk: "finite A \<Longrightarrow> distinct (bottomk A k seed)"
  by (simp add: bottomk_def distinct_take)

end
