(* ===== verification/Merge.thy ===== *)
theory Merge
  imports Prelude
begin

text \<open>
  Merging of small clusters in the ball-carving partition: \<open>merge_clusters\<close> of
  \<^verbatim>\<open>ForgeANN/src/forgeann/rbc_partition/mod.rs\<close> merges the clusters themselves, \<open>merge_cluster_plan\<close>
  of \<^verbatim>\<open>rbc_partition/child_run_io.rs\<close> decides the same merge from the cluster sizes alone, for clusters
  that are still a spool of assignments on disk.
\<close>

type_synonym cluster = "u32 list"

section \<open>Merging clusters\<close>

text \<open>The loop body: the result so far and the small cluster that waits for a partner.\<close>

fun merge_cluster :: "usize \<Rightarrow> usize \<Rightarrow> cluster \<Rightarrow> cluster list \<times> cluster option \<Rightarrow> cluster list \<times> cluster option" where
  "merge_cluster c_min c_max cluster (result, current_small) =
     (let size = length cluster in
      if c_min \<le> size then
        (case current_small of
           Some small \<Rightarrow>
             if length small + size \<le> c_max then (result @ [cluster @ small], None)
             else (result @ [small, cluster], None)
         | None \<Rightarrow> (result @ [cluster], None))
      else
        (case current_small of
           Some small \<Rightarrow>
             if length small + size \<le> c_max then (result, Some (small @ cluster))
             else (result @ [small], Some cluster)
         | None \<Rightarrow> (result, Some cluster)))"

text \<open>What remains small at the end joins the last cluster when it fits.\<close>

definition merge_last :: "usize \<Rightarrow> cluster list \<times> cluster option \<Rightarrow> cluster list" where
  "merge_last c_max = (\<lambda>(result, current_small).
     case current_small of
       None \<Rightarrow> result
     | Some small \<Rightarrow>
         if result \<noteq> [] \<and> length (last result) + length small \<le> c_max
         then butlast result @ [last result @ small]
         else result @ [small])"

definition merge_clusters :: "cluster list \<Rightarrow> usize \<Rightarrow> usize \<Rightarrow> cluster list" where
  "merge_clusters clusters c_min c_max =
     (let cs = filter (\<lambda>c. c \<noteq> []) clusters in
      if cs = [] then cs
      else merge_last c_max (fold (merge_cluster c_min c_max) (sort_key length cs) ([], None)))"

section \<open>Merging from the sizes\<close>

record merged_raw_group =
  raw_children :: "u16 list"
  raw_len :: usize

fun merge_raw :: "usize \<Rightarrow> usize \<Rightarrow> u16 \<times> usize \<Rightarrow> merged_raw_group list \<times> merged_raw_group option \<Rightarrow>
    merged_raw_group list \<times> merged_raw_group option" where
  "merge_raw c_min c_max (raw_child, sz) (result, current_small) =
     (let cluster = \<lparr>raw_children = [raw_child], raw_len = sz\<rparr> in
      if c_min \<le> sz then
        (case current_small of
           Some small \<Rightarrow>
             if raw_len small + sz \<le> c_max
             then (result @ [\<lparr>raw_children = [raw_child] @ raw_children small, raw_len = sz + raw_len small\<rparr>], None)
             else (result @ [small, cluster], None)
         | None \<Rightarrow> (result @ [cluster], None))
      else
        (case current_small of
           Some small \<Rightarrow>
             if raw_len small + sz \<le> c_max
             then (result, Some \<lparr>raw_children = raw_children small @ [raw_child], raw_len = raw_len small + sz\<rparr>)
             else (result @ [small], Some cluster)
         | None \<Rightarrow> (result, Some cluster)))"

definition merge_raw_last :: "usize \<Rightarrow> merged_raw_group list \<times> merged_raw_group option \<Rightarrow> merged_raw_group list" where
  "merge_raw_last c_max = (\<lambda>(result, current_small).
     case current_small of
       None \<Rightarrow> result
     | Some small \<Rightarrow>
         if result \<noteq> [] \<and> raw_len (last result) + raw_len small \<le> c_max
         then butlast result @
           [\<lparr>raw_children = raw_children (last result) @ raw_children small,
             raw_len = raw_len (last result) + raw_len small\<rparr>]
         else result @ [small])"

definition raw_clusters :: "usize list \<Rightarrow> (u16 \<times> usize) list" where
  "raw_clusters raw_counts =
     map (\<lambda>(i, len). (word_of_nat i, len)) (filter (\<lambda>(i, len). 0 < len) (enumerate 0 raw_counts))"

definition merge_cluster_plan :: "usize list \<Rightarrow> usize \<Rightarrow> usize \<Rightarrow> merged_raw_group list" where
  "merge_cluster_plan raw_counts c_min c_max =
     (let clusters = raw_clusters raw_counts in
      if clusters = [] then []
      else merge_raw_last c_max (fold (merge_raw c_min c_max) (sort_key snd clusters) ([], None)))"

section \<open>What merging keeps\<close>

text \<open>The clusters of a state of the loop: the result and the waiting one.\<close>

definition merge_all :: "cluster list \<times> cluster option \<Rightarrow> cluster list" where
  "merge_all = (\<lambda>(result, current_small). result @ (case current_small of None \<Rightarrow> [] | Some small \<Rightarrow> [small]))"

lemma merge_all_simps [simp]:
  "merge_all (result, None) = result" "merge_all (result, Some small) = result @ [small]"
  by (simp_all add: merge_all_def)

lemma merge_cluster_all:
  "mset (concat (merge_all (merge_cluster c_min c_max c s))) = mset (concat (merge_all s)) + mset c"
  by (cases s) (auto simp: Let_def split: option.split)

lemma fold_merge_all:
  "mset (concat (merge_all (fold (merge_cluster c_min c_max) cs s))) = mset (concat (merge_all s)) + mset (concat cs)"
  by (induction cs arbitrary: s) (simp_all add: merge_cluster_all del: merge_cluster.simps)

lemma concat_butlast_last: "xs \<noteq> [] \<Longrightarrow> mset (concat (butlast xs)) + mset (last xs) = mset (concat xs)"
  by (induction xs) (auto simp: ac_simps)

lemma merge_last_all: "mset (concat (merge_last c_max s)) = mset (concat (merge_all s))"
  by (cases s) (auto simp: merge_last_def concat_butlast_last [symmetric] split: option.split)

lemma concat_filter_ne [simp]: "concat (filter (\<lambda>c. c \<noteq> []) cs) = concat cs"
  by (induction cs) simp_all

lemma mset_concat_sort_key: "mset (concat (sort_key f cs)) = mset (concat cs)"
  by (metis mset_concat mset_map mset_sort sum_mset_sum_list)

theorem mset_merge_clusters: "mset (concat (merge_clusters clusters c_min c_max)) = mset (concat clusters)"
proof (cases "filter (\<lambda>c. c \<noteq> []) clusters = []")
  case True
  then have "concat clusters = []" by (metis concat.simps(1) concat_filter_ne)
  with True show ?thesis by (simp add: merge_clusters_def Let_def)
next
  case False
  then show ?thesis
    by (simp add: merge_clusters_def Let_def merge_last_all fold_merge_all mset_concat_sort_key del: filter_False)
qed

text \<open>A cluster is either one of the given ones or fits into \<open>c_max\<close>; none is empty.\<close>

definition mergeable :: "usize \<Rightarrow> cluster list \<Rightarrow> cluster \<Rightarrow> bool" where
  "mergeable c_max cs c \<longleftrightarrow> c \<noteq> [] \<and> (c \<in> set cs \<or> length c \<le> c_max)"

lemma merge_cluster_ok:
  assumes "\<forall>c \<in> set (merge_all s). mergeable c_max cs c" "c \<in> set cs" "c \<noteq> []"
  shows "\<forall>c \<in> set (merge_all (merge_cluster c_min c_max c s)). mergeable c_max cs c"
  using assms by (cases s) (auto simp: Let_def mergeable_def split: option.split)

declare merge_cluster.simps [simp del]

lemma fold_merge_ok:
  assumes "\<forall>c \<in> set (merge_all s). mergeable c_max cs c" "set ds \<subseteq> set cs" "[] \<notin> set ds"
  shows "\<forall>c \<in> set (merge_all (fold (merge_cluster c_min c_max) ds s)). mergeable c_max cs c"
  using assms
proof (induction ds arbitrary: s)
  case (Cons d ds)
  have "d \<in> set cs" "d \<noteq> []" using Cons.prems(2,3) by auto
  from Cons.IH [OF merge_cluster_ok [OF Cons.prems(1) this]] Cons.prems(2,3) show ?case by simp
qed simp

lemma merge_last_ok:
  assumes "\<forall>c \<in> set (merge_all s). mergeable c_max cs c"
  shows "\<forall>c \<in> set (merge_last c_max s). mergeable c_max cs c"
proof -
  obtain r small where s: "s = (r, small)" by (cases s)
  have "\<forall>c \<in> set (butlast r). mergeable c_max cs c" using assms by (auto simp: s merge_all_def dest: in_set_butlastD)
  moreover have "small = Some x \<Longrightarrow> mergeable c_max cs x" for x using assms by (simp add: s)
  ultimately show ?thesis
    using assms by (cases small) (auto simp: s merge_last_def mergeable_def)
qed

theorem merge_clusters_ok:
  "c \<in> set (merge_clusters clusters c_min c_max) \<Longrightarrow> mergeable c_max clusters c"
proof -
  assume c: "c \<in> set (merge_clusters clusters c_min c_max)"
  let ?cs = "sort_key length (filter (\<lambda>c. c \<noteq> []) clusters)"
  have "\<forall>c \<in> set (merge_all (fold (merge_cluster c_min c_max) ?cs ([], None))). mergeable c_max clusters c"
    by (rule fold_merge_ok) auto
  from merge_last_ok [OF this] c show ?thesis
    by (auto simp: merge_clusters_def Let_def split: if_splits)
qed

section \<open>At most one cluster stays small\<close>

text \<open>
  While the clusters arrive in ascending order: everything in the result has \<open>c_min\<close> points, but for at
  most one that was closed when the first large cluster arrived; after that nothing waits.
\<close>

abbreviation smalls :: "usize \<Rightarrow> cluster list \<Rightarrow> nat" where
  "smalls c_min cs \<equiv> length (filter (\<lambda>c. length c < c_min) cs)"

lemma fold_merge_large:
  assumes "\<forall>c \<in> set cs. c_min \<le> length c"
  shows "fold (merge_cluster c_min c_max) cs (result, None) = (result @ cs, None)"
  using assms by (induction cs arbitrary: result) (simp_all add: merge_cluster.simps Let_def)

lemma fold_merge_small:
  assumes "\<forall>c \<in> set cs. length c < c_min" "2 * c_min \<le> c_max" "smalls c_min result = 0"
  shows "smalls c_min (fst (fold (merge_cluster c_min c_max) cs (result, small))) = 0"
  using assms
proof (induction cs arbitrary: result small)
  case (Cons c cs)
  then have le: "length c < c_min" and hyp: "\<forall>c \<in> set cs. length c < c_min" by auto
  consider "small = None" | s where "small = Some s" "length s + length c \<le> c_max"
    | s where "small = Some s" "\<not> length s + length c \<le> c_max" by (cases small) auto
  then show ?case
  proof cases
    case 3
    then have "smalls c_min (result @ [s]) = 0" using le Cons.prems(2,3) by simp
    then show ?thesis using 3 le Cons.IH [OF hyp Cons.prems(2)] by (simp add: merge_cluster.simps Let_def)
  qed (use le Cons.IH [OF hyp Cons.prems(2)] Cons.prems(3) in \<open>simp_all add: merge_cluster.simps Let_def\<close>)
qed simp

lemma sorted_split_small:
  assumes "sorted (map length cs)"
  shows "\<exists>as bs. cs = as @ bs \<and> (\<forall>c \<in> set as. length c < m) \<and> (\<forall>c \<in> set bs. m \<le> length c)"
proof (intro exI conjI)
  show "cs = takeWhile (\<lambda>c. length c < m) cs @ dropWhile (\<lambda>c. length c < m) cs" by simp
  show "\<forall>c \<in> set (takeWhile (\<lambda>c. length c < m) cs). length c < m" by (auto dest: set_takeWhileD)
  show "\<forall>c \<in> set (dropWhile (\<lambda>c. length c < m) cs). m \<le> length c"
    using assms by (induction cs) (auto simp: not_less)
qed

theorem merge_clusters_smalls:
  assumes "2 * c_min \<le> c_max"
  shows "smalls c_min (merge_clusters clusters c_min c_max) \<le> 1"
proof -
  let ?cs = "sort_key length (filter (\<lambda>c. c \<noteq> []) clusters)"
  obtain as bs where cs: "?cs = as @ bs" and as: "\<forall>c \<in> set as. length c < c_min" and bs: "\<forall>c \<in> set bs. c_min \<le> length c"
    using sorted_split_small [of ?cs c_min] by auto
  obtain r s where st: "fold (merge_cluster c_min c_max) as ([], None) = (r, s)" by fastforce
  have r: "smalls c_min r = 0"
    using fold_merge_small [OF as assms, of "[]" None] st by simp
  have "smalls c_min (merge_last c_max (fold (merge_cluster c_min c_max) ?cs ([], None))) \<le> 1"
  proof (cases bs)
    case Nil
    have "filter (\<lambda>c. length c < c_min) (butlast r) = []" using r by (auto simp: filter_empty_conv dest: in_set_butlastD)
    then show ?thesis
      using r st Nil cs by (auto simp: merge_last_def filter_empty_conv split: option.split)
  next
    case (Cons b bs')
    have b: "c_min \<le> length b" and bs': "\<forall>c \<in> set bs'. c_min \<le> length c" using bs Cons by auto
    have rest: "filter (\<lambda>c. length c < c_min) bs' = []" using bs' by (auto simp: filter_empty_conv)
    show ?thesis
      using r b rest fold_merge_large [OF bs'] unfolding cs Cons
      by (cases s) (auto simp: st merge_cluster.simps Let_def merge_last_def)
  qed
  then show ?thesis by (auto simp: merge_clusters_def Let_def)
qed

section \<open>The plan decides the same merge\<close>

text \<open>The points of a group: its raw children's clusters, in the group's order.\<close>

definition group_points :: "cluster list \<Rightarrow> merged_raw_group \<Rightarrow> cluster" where
  "group_points clusters g = concat (map (\<lambda>i. clusters ! unat i) (raw_children g))"

definition group_of :: "cluster list \<Rightarrow> merged_raw_group \<Rightarrow> cluster \<Rightarrow> bool" where
  "group_of clusters g c \<longleftrightarrow> group_points clusters g = c \<and> raw_len g = length c"

definition plan_sim :: "cluster list \<Rightarrow> merged_raw_group list \<times> merged_raw_group option \<Rightarrow> cluster list \<times> cluster option \<Rightarrow> bool" where
  "plan_sim clusters p s \<longleftrightarrow> list_all2 (group_of clusters) (fst p) (fst s) \<and> rel_option (group_of clusters) (snd p) (snd s)"

lemma group_of_append:
  "group_of clusters g c \<Longrightarrow> group_of clusters h d \<Longrightarrow>
   group_of clusters \<lparr>raw_children = raw_children g @ raw_children h, raw_len = raw_len g + raw_len h\<rparr> (c @ d)"
  by (auto simp: group_of_def group_points_def)

lemma merge_raw_sim:
  assumes "plan_sim clusters p s" "clusters ! unat i = c"
  shows "plan_sim clusters (merge_raw c_min c_max (i, length c) p) (merge_cluster c_min c_max c s)"
proof -
  have i: "group_of clusters \<lparr>raw_children = [i], raw_len = length c\<rparr> c"
    using assms(2) by (simp add: group_of_def group_points_def)
  obtain gs g cs d where p: "p = (gs, g)" and s: "s = (cs, d)" by (cases p; cases s)
  have all: "list_all2 (group_of clusters) gs cs" using assms(1) by (simp add: plan_sim_def p s)
  show ?thesis
  proof (cases g)
    case None
    then show ?thesis using assms(1) i all
      by (auto simp: plan_sim_def p s merge_cluster.simps Let_def intro!: list_all2_appendI)
  next
    case (Some h)
    then obtain x where d: "d = Some x" and h: "group_of clusters h x"
      using assms(1) by (auto simp: plan_sim_def p s option_rel_Some1)
    have len: "raw_len h = length x" using h by (simp add: group_of_def)
    show ?thesis using i all h group_of_append [OF i h] group_of_append [OF h i]
      by (auto simp: plan_sim_def p s Some d merge_cluster.simps Let_def len intro!: list_all2_appendI)
  qed
qed

lemma fold_merge_raw_sim:
  assumes "plan_sim clusters p s" "list_all2 (\<lambda>(i, n) c. clusters ! unat i = c \<and> n = length c) is cs"
  shows "plan_sim clusters (fold (merge_raw c_min c_max) is p) (fold (merge_cluster c_min c_max) cs s)"
  using assms(2,1)
proof (induction arbitrary: p s rule: list_all2_induct)
  case (Cons x xs y ys)
  obtain i n where x: "x = (i, n)" by (cases x)
  then have "clusters ! unat i = y" "n = length y" using Cons.hyps by auto
  then have "plan_sim clusters (merge_raw c_min c_max x p) (merge_cluster c_min c_max y s)"
    using merge_raw_sim [OF Cons.prems] by (simp add: x del: merge_raw.simps)
  then show ?case using Cons.IH by (simp del: merge_raw.simps)
qed simp

lemma merge_raw_last_sim:
  assumes "plan_sim clusters p s"
  shows "list_all2 (group_of clusters) (merge_raw_last c_max p) (merge_last c_max s)"
proof -
  obtain gs g cs d where p: "p = (gs, g)" and s: "s = (cs, d)" by (cases p; cases s)
  have all: "list_all2 (group_of clusters) gs cs" and opt: "rel_option (group_of clusters) g d"
    using assms by (simp_all add: plan_sim_def p s)
  show ?thesis
  proof (cases g)
    case None
    then show ?thesis using all opt by (auto simp: p s merge_raw_last_def merge_last_def)
  next
    case (Some h)
    then obtain x where d: "d = Some x" and h: "group_of clusters h x"
      using opt by (auto simp: option_rel_Some1)
    show ?thesis
    proof (cases "gs = []")
      case True
      then show ?thesis using all h by (simp add: p s Some d merge_raw_last_def merge_last_def)
    next
      case False
      then have ne: "cs \<noteq> []" using all by auto
      have l: "group_of clusters (last gs) (last cs)" "list_all2 (group_of clusters) (butlast gs) (butlast cs)"
        using all False ne by (auto simp: last_conv_nth list_all2_conv_all_nth nth_butlast)
      then show ?thesis using all h group_of_append [OF l(1) h] False ne
        by (auto simp: p s Some d merge_raw_last_def merge_last_def group_of_def intro!: list_all2_appendI)
    qed
  qed
qed

lemma map_sort_key_comp: "map f (sort_key (g \<circ> f) xs) = sort_key g (map f xs)"
proof (rule sym, induction xs)
  case (Cons x xs)
  have "insort_key g (f x) (map f ys) = map f (insort_key (g \<circ> f) x ys)" for ys by (induction ys) auto
  then show ?case by (simp add: Cons del: comp_apply)
qed simp

lemma sort_key_cong_on: "\<forall>x \<in> set xs. f x = g x \<Longrightarrow> sort_key f xs = sort_key g xs"
proof (induction xs)
  case (Cons x xs)
  have "\<forall>y \<in> insert x (set ys). f y = g y \<Longrightarrow> insort_key f x ys = insort_key g x ys" for ys
    by (induction ys) auto
  then show ?case using Cons by simp
qed simp

lemma raw_clusters_map:
  assumes "length clusters \<le> 2 ^ 16"
  shows "map (\<lambda>p. clusters ! unat (fst p)) (raw_clusters (map length clusters)) = filter (\<lambda>c. c \<noteq> []) clusters"
    and "\<forall>p \<in> set (raw_clusters (map length clusters)). snd p = length (clusters ! unat (fst p))"
proof -
  have idx: "unat (word_of_nat i :: u16) = i" if "i < length clusters" for i
    using that assms by (simp add: unsigned_of_nat take_bit_nat_eq_self_iff)
  have en: "enumerate 0 (map length clusters) = map (\<lambda>i. (i, length (clusters ! i))) [0..<length clusters]"
    by (rule nth_equalityI) (auto simp: nth_enumerate_eq)
  show "\<forall>p \<in> set (raw_clusters (map length clusters)). snd p = length (clusters ! unat (fst p))"
    unfolding raw_clusters_def en by (auto simp: idx)
  have "map (\<lambda>p. clusters ! unat (fst p)) (raw_clusters (map length clusters)) =
      map ((!) clusters) (filter (\<lambda>i. clusters ! i \<noteq> []) [0..<length clusters])"
    unfolding raw_clusters_def en by (auto simp: filter_map comp_def idx intro!: map_cong filter_cong)
  also have "\<dots> = filter (\<lambda>c. c \<noteq> []) (map ((!) clusters) [0..<length clusters])"
    by (simp add: filter_map comp_def)
  finally show "map (\<lambda>p. clusters ! unat (fst p)) (raw_clusters (map length clusters)) = filter (\<lambda>c. c \<noteq> []) clusters"
    by (simp add: map_nth)
qed

lemma sort_raw_clusters:
  assumes "length clusters \<le> 2 ^ 16"
  shows "list_all2 (\<lambda>(i, n) c. clusters ! unat i = c \<and> n = length c)
    (sort_key snd (raw_clusters (map length clusters))) (sort_key length (filter (\<lambda>c. c \<noteq> []) clusters))"
proof -
  let ?r = "raw_clusters (map length clusters)" and ?f = "\<lambda>p. clusters ! unat (fst p)"
  have snd: "\<forall>p \<in> set ?r. snd p = length (?f p)" by (rule raw_clusters_map(2) [OF assms])
  have "sort_key snd ?r = sort_key (length \<circ> ?f) ?r"
    using snd by (intro sort_key_cong_on) (simp add: comp_def)
  moreover have "map ?f (sort_key (length \<circ> ?f) ?r) = sort_key length (filter (\<lambda>c. c \<noteq> []) clusters)"
    unfolding map_sort_key_comp raw_clusters_map(1) [OF assms] ..
  ultimately have "sort_key length (filter (\<lambda>c. c \<noteq> []) clusters) = map ?f (sort_key snd ?r)" by simp
  then show ?thesis
    using snd by (auto simp: list_all2_map2 list_all2_same split_beta)
qed

theorem merge_plan_groups:
  assumes "length clusters \<le> 2 ^ 16"
  shows "list_all2 (group_of clusters) (merge_cluster_plan (map length clusters) c_min c_max)
    (merge_clusters clusters c_min c_max)"
proof -
  have "raw_clusters (map length clusters) = [] \<longleftrightarrow> filter (\<lambda>c. c \<noteq> []) clusters = []"
    using raw_clusters_map(1) [OF assms] by (metis map_is_Nil_conv)
  moreover have "plan_sim clusters ([], None) ([], None)" by (simp add: plan_sim_def)
  from merge_raw_last_sim [OF fold_merge_raw_sim [OF this sort_raw_clusters [OF assms]]]
  have "list_all2 (group_of clusters)
      (merge_raw_last c_max (fold (merge_raw c_min c_max) (sort_key snd (raw_clusters (map length clusters))) ([], None)))
      (merge_last c_max (fold (merge_cluster c_min c_max) (sort_key length (filter (\<lambda>c. c \<noteq> []) clusters)) ([], None)))" .
  ultimately show ?thesis
    unfolding merge_cluster_plan_def merge_clusters_def Let_def by simp
qed

end
