(* ===== verification/Assign.thy ===== *)
theory Assign
  imports Merge Float32 Bytes
begin

text \<open>
  Assignment of points to leaders, \<^verbatim>\<open>ForgeANN/src/forgeann/rbc_partition\<close>: \<open>StackTopK\<close>
  (\<^verbatim>\<open>prefetch_pipeline.rs\<close>), the scalar assignment in memory (\<open>rbc_recurse_parallel\<close>,
  \<open>forced_split_oversized_leaf\<close>), the one that spools records to disk
  (\<open>compute_clusters_scalar_to_spool\<close>), and the records (\<^verbatim>\<open>child_run_io.rs\<close>). \<open>get_distance\<close>
  of the point store is the parameter \<open>dist\<close>.
\<close>

type_synonym distance = "u32 \<Rightarrow> u32 \<Rightarrow> f32 result"

section \<open>\<open>StackTopK\<close>\<close>

record top_k =
  tk_buf :: "(f32 \<times> usize) list"
  tk_len :: usize
  tk_k :: usize

definition tk_new :: "usize \<Rightarrow> top_k" where
  "tk_new k = \<lparr>tk_buf = replicate 32 (f32_max_value, 0), tk_len = 0, tk_k = min k 32\<rparr>"

text \<open>The loop \<open>while i > 0\<close> that moves the entry at \<open>i\<close> forward.\<close>

fun bubble :: "nat \<Rightarrow> (f32 \<times> usize) list \<Rightarrow> (f32 \<times> usize) list" where
  "bubble 0 buf = buf"
| "bubble (Suc i) buf =
     (if f32_lt (fst (buf ! Suc i)) (fst (buf ! i)) then bubble i (buf[Suc i := buf ! i, i := buf ! Suc i])
      else buf)"

definition tk_push :: "f32 \<Rightarrow> usize \<Rightarrow> top_k \<Rightarrow> top_k result" where
  "tk_push d lid t =
     (if tk_len t < tk_k t then
        Inr (t\<lparr>tk_buf := bubble (tk_len t) ((tk_buf t)[tk_len t := (d, lid)]), tk_len := tk_len t + 1\<rparr>)
      else if tk_k t = 0 then Inl index_panic
      else if f32_lt d (fst (tk_buf t ! (tk_k t - 1))) then
        Inr (t\<lparr>tk_buf := bubble (tk_k t - 1) ((tk_buf t)[tk_k t - 1 := (d, lid)])\<rparr>)
      else Inr t)"

definition tk_iter :: "top_k \<Rightarrow> (f32 \<times> usize) list" where
  "tk_iter t = take (tk_len t) (tk_buf t)"

section \<open>The leaders of a point\<close>

fun push_leaders :: "distance \<Rightarrow> u32 \<Rightarrow> usize \<Rightarrow> u32 list \<Rightarrow> top_k \<Rightarrow> top_k result" where
  "push_leaders dist idx lid [] t = Inr t"
| "push_leaders dist idx lid (l # ls) t =
     res_bind (dist idx l) (\<lambda>d. res_bind (tk_push d lid t) (push_leaders dist idx (lid + 1) ls))"

definition assign_top_k :: "distance \<Rightarrow> u32 list \<Rightarrow> usize \<Rightarrow> u32 \<Rightarrow> usize list result" where
  "assign_top_k dist leaders fanout idx =
     res_bind (push_leaders dist idx 0 leaders (tk_new fanout)) (\<lambda>t. Inr (map snd (tk_iter t)))"

fun nearest_leader :: "distance \<Rightarrow> u32 \<Rightarrow> usize \<Rightarrow> u32 list \<Rightarrow> f32 \<Rightarrow> usize \<Rightarrow> usize result" where
  "nearest_leader dist idx lid [] best_dist best_lid = Inr best_lid"
| "nearest_leader dist idx lid (l # ls) best_dist best_lid =
     res_bind (dist idx l) (\<lambda>d.
       if f32_lt d best_dist then nearest_leader dist idx (lid + 1) ls d lid
       else nearest_leader dist idx (lid + 1) ls best_dist best_lid)"

definition assign_nearest :: "distance \<Rightarrow> u32 list \<Rightarrow> u32 \<Rightarrow> usize list result" where
  "assign_nearest dist leaders idx =
     res_bind (nearest_leader dist idx 0 leaders f32_infinity 0) (\<lambda>best_lid. Inr [best_lid])"

section \<open>Assignment in memory\<close>

fun push_clusters :: "u32 \<Rightarrow> usize list \<Rightarrow> cluster list \<Rightarrow> cluster list result" where
  "push_clusters idx [] cs = Inr cs"
| "push_clusters idx (lid # lids) cs =
     (if lid < length cs then push_clusters idx lids (cs[lid := cs ! lid @ [idx]]) else Inl index_panic)"

fun assign_points :: "(u32 \<Rightarrow> usize list result) \<Rightarrow> u32 list \<Rightarrow> cluster list \<Rightarrow> cluster list result" where
  "assign_points assign [] cs = Inr cs"
| "assign_points assign (idx # idxs) cs =
     res_bind (assign idx) (\<lambda>lids. res_bind (push_clusters idx lids cs) (assign_points assign idxs))"

text \<open>\<open>avg_cluster_size = n / num_leaders\<close> panics without leaders; otherwise it only sizes the vectors.\<close>

definition empty_clusters :: "usize \<Rightarrow> cluster list result" where
  "empty_clusters num_leaders =
     (if num_leaders = 0 then Inl (Panic ''attempt to divide by zero'') else Inr (replicate num_leaders []))"

definition top_k_clusters :: "distance \<Rightarrow> u32 list \<Rightarrow> usize \<Rightarrow> usize \<Rightarrow> u32 list \<Rightarrow> cluster list result" where
  "top_k_clusters dist leaders num_leaders local_fanout leaf =
     res_bind (empty_clusters num_leaders) (assign_points (assign_top_k dist leaders local_fanout) leaf)"

definition scalar_clusters :: "distance \<Rightarrow> u32 list \<Rightarrow> usize \<Rightarrow> usize \<Rightarrow> u32 list \<Rightarrow> cluster list result" where
  "scalar_clusters dist leaders num_leaders local_fanout cur =
     res_bind (empty_clusters num_leaders)
       (assign_points (if local_fanout = 1 then assign_nearest dist leaders
                       else assign_top_k dist leaders local_fanout) cur)"

section \<open>Assignment records\<close>

definition assign_record_fanout :: "usize \<Rightarrow> usize" where
  "assign_record_fanout local_fanout = min (max local_fanout 1) 32"

definition assign_record_width :: "usize \<Rightarrow> usize" where
  "assign_record_width record_cap = 1 + 2 * assign_record_fanout record_cap"

text \<open>What a call appends to the writer, and what \<open>append_assign_record_bytes\<close> appends to the buffer.\<close>

definition write_assign_record :: "u16 list \<Rightarrow> usize \<Rightarrow> u8 list result" where
  "write_assign_record leaders record_cap =
     (let record_cap = assign_record_fanout record_cap in
      if record_cap < length leaders
      then Inl (Err (Index ''Assignment record contains leaders above cap''))
      else Inr ([word_of_nat (length leaders)] @ concat (map le16 leaders) @
                concat (replicate (record_cap - length leaders) (le16 0))))"

definition append_assign_record_bytes :: "u8 list \<Rightarrow> u16 list \<Rightarrow> usize \<Rightarrow> u8 list result" where
  "append_assign_record_bytes buf leaders record_cap =
     (let record_cap = assign_record_fanout record_cap in
      if record_cap < length leaders
      then Inl (Err (Index ''Assignment record contains leaders above cap''))
      else
        let buf1 = buf @ [word_of_nat (length leaders)];
            buf2 = fold (\<lambda>leader buf. buf @ le16 leader) leaders buf1
        in Inr (fold (\<lambda>_ buf. buf @ le16 0) [length leaders..<record_cap] buf2))"

text \<open>The slots of a record; the reader is the bytes still to come.\<close>

primrec read_slots :: "nat \<Rightarrow> u8 list \<Rightarrow> (u16 list \<times> u8 list) result" where
  "read_slots 0 reader = Inr ([], reader)"
| "read_slots (Suc n) reader =
     res_bind (read_exact 2 reader) (\<lambda>(buf, reader).
     res_bind (read_slots n reader) (\<lambda>(slots, reader). Inr (of_le16 buf # slots, reader)))"

definition read_assign_record :: "usize \<Rightarrow> u8 list \<Rightarrow> (usize \<times> u16 list \<times> u8 list) result" where
  "read_assign_record cap reader =
     res_bind (read_exact 1 reader) (\<lambda>(count_buf, reader).
       let count = unat (count_buf ! 0) in
       if cap < count then Inl (Err (Index ''Assignment record count exceeds record cap''))
       else res_bind (read_slots cap reader) (\<lambda>(out, reader). Inr (count, out, reader)))"

section \<open>Assignment to a spool\<close>

text \<open>\<open>raw_counts[lid] += 1\<close> for every leader of the point.\<close>

fun count_leaders :: "usize list \<Rightarrow> usize list \<Rightarrow> usize list result" where
  "count_leaders [] raw_counts = Inr raw_counts"
| "count_leaders (lid # lids) raw_counts =
     (if lid < length raw_counts then count_leaders lids (raw_counts[lid := raw_counts ! lid + 1])
      else Inl index_panic)"

fun spool_points :: "(u32 \<Rightarrow> usize list result) \<Rightarrow> usize \<Rightarrow> u32 list \<Rightarrow> usize list \<Rightarrow> u8 list \<Rightarrow> (usize list \<times> u8 list) result" where
  "spool_points assign fanout [] raw_counts spool = Inr (raw_counts, spool)"
| "spool_points assign fanout (idx # idxs) raw_counts spool =
     res_bind (assign idx) (\<lambda>lids.
     res_bind (count_leaders lids raw_counts) (\<lambda>raw_counts.
     res_bind (write_assign_record (map word_of_nat lids) fanout) (\<lambda>rec.
       spool_points assign fanout idxs raw_counts (spool @ rec))))"

definition compute_clusters_scalar_to_spool ::
  "distance \<Rightarrow> u32 list \<Rightarrow> u32 list \<Rightarrow> usize \<Rightarrow> usize list \<Rightarrow> u8 list \<Rightarrow> (usize list \<times> u8 list) result" where
  "compute_clusters_scalar_to_spool dist cur leaders local_fanout raw_counts spool =
     (let fanout = assign_record_fanout (min local_fanout (max (length leaders) 1)) in
      spool_points (if fanout = 1 then assign_nearest dist leaders else assign_top_k dist leaders fanout)
        fanout cur raw_counts spool)"

section \<open>\<open>StackTopK\<close> keeps the nearest\<close>

text \<open>Insertion behind the entries that are not farther.\<close>

fun insert_after :: "('a \<Rightarrow> 'k::linorder) \<Rightarrow> 'a \<Rightarrow> 'a list \<Rightarrow> 'a list" where
  "insert_after f x [] = [x]"
| "insert_after f x (y # ys) = (if f y \<le> f x then y # insert_after f x ys else x # y # ys)"

lemma set_insert_after [simp]: "set (insert_after f x ys) = insert x (set ys)"
  by (induction ys) auto

lemma mset_insert_after [simp]: "mset (insert_after f x ys) = add_mset x (mset ys)"
  by (induction ys) auto

lemma sorted_insert_after: "sorted (map f ys) \<Longrightarrow> sorted (map f (insert_after f x ys))"
  by (induction ys) auto

lemma filter_insert_after:
  "sorted (map f ys) \<Longrightarrow> filter (\<lambda>z. f z = k) (insert_after f x ys) = filter (\<lambda>z. f z = k) (ys @ [x])"
proof (induction ys)
  case (Cons y ys)
  show ?case
  proof (cases "f y \<le> f x")
    case False
    then have "\<forall>z \<in> set (y # ys). f z \<noteq> f x" using Cons.prems by auto
    then have "f x = k \<Longrightarrow> filter (\<lambda>z. f z = k) (y # ys) = []" by (auto simp: filter_empty_conv)
    then show ?thesis using False by auto
  qed (use Cons in auto)
qed simp

lemma sort_key_snoc: "sort_key f (xs @ [x]) = insert_after f x (sort_key f xs)"
proof (rule properties_for_sort_key)
  show "mset (insert_after f x (sort_key f xs)) = mset (xs @ [x])" by simp
  show "sorted (map f (insert_after f x (sort_key f xs)))" by (simp add: sorted_insert_after)
  fix k
  have "(\<lambda>z. f k = f z) = (\<lambda>z. f z = f k)" by auto
  then show "filter (\<lambda>z. f k = f z) (insert_after f x (sort_key f xs)) = filter (\<lambda>z. f k = f z) (xs @ [x])"
    by (simp only: filter_insert_after sorted_sort_key filter_append sort_key_stable)
qed

lemma insert_after_append:
  "sorted (map f (ys @ [y])) \<Longrightarrow>
   insert_after f x (ys @ [y]) = (if f x < f y then insert_after f x ys @ [y] else ys @ [y, x])"
  by (induction ys) (auto simp: sorted_append)

lemma take_insert_after:
  assumes "sorted (map f ys)" "0 < k" "k \<le> length ys"
  shows "take k (insert_after f x ys) =
    (if f x < f (ys ! (k - 1)) then insert_after f x (take (k - 1) ys) else take k ys)"
  using assms
proof (induction ys arbitrary: k)
  case (Cons y ys)
  obtain k' where k: "k = Suc k'" using Cons.prems(2) by (cases k) auto
  show ?case
  proof (cases k')
    case 0
    then show ?thesis using Cons.prems by (auto simp: k)
  next
    case (Suc j)
    have "f y \<le> f (ys ! j)" using Cons.prems by (auto simp: k Suc)
    then have "\<not> f y \<le> f x \<Longrightarrow> f x < f (ys ! j)" by auto
    then show ?thesis using Cons.IH [of k'] Cons.prems by (auto simp: k Suc)
  qed
qed simp

definition dkey :: "f32 \<times> usize \<Rightarrow> int" where
  "dkey e = f32_key (fst e)"

definition no_nans :: "(f32 \<times> usize) list \<Rightarrow> bool" where
  "no_nans es \<longleftrightarrow> (\<forall>e \<in> set es. \<not> f32_is_nan (fst e))"

lemma lt_dkey: "\<not> f32_is_nan (fst a) \<Longrightarrow> \<not> f32_is_nan (fst b) \<Longrightarrow> f32_lt (fst a) (fst b) \<longleftrightarrow> dkey a < dkey b"
  by (simp add: f32_lt_def dkey_def)

lemma bubble_insert:
  assumes "sorted (map dkey L)" "no_nans (x # L)"
  shows "bubble (length L) (L @ x # R) = insert_after dkey x L @ R"
  using assms
proof (induction L arbitrary: R rule: rev_induct)
  case (snoc y L)
  have lt: "f32_lt (fst x) (fst y) \<longleftrightarrow> dkey x < dkey y"
    using snoc.prems(2) by (intro lt_dkey) (auto simp: no_nans_def)
  have "bubble (length L) (L @ x # y # R) = insert_after dkey x L @ y # R"
    using snoc by (auto simp: sorted_append no_nans_def)
  then show ?case
    using lt insert_after_append [OF snoc.prems(1)] by (simp add: nth_append list_update_append)
qed simp

text \<open>After the entries \<open>es\<close>: the buffer starts with the \<open>k\<close> nearest of them, in a stable order.\<close>

definition tk_holds :: "usize \<Rightarrow> (f32 \<times> usize) list \<Rightarrow> top_k \<Rightarrow> bool" where
  "tk_holds k es t \<longleftrightarrow> tk_k t = k \<and> length (tk_buf t) = 32 \<and> tk_len t = min k (length es) \<and>
     tk_iter t = take k (sort_key dkey es)"

lemma tk_holds_new: "k \<le> 32 \<Longrightarrow> tk_holds k [] (tk_new k)"
  by (simp add: tk_holds_def tk_new_def tk_iter_def)

lemma tk_push_holds:
  assumes t: "tk_holds k es t" and k: "0 < k" "k \<le> 32" and nan: "no_nans ((d, i) # es)"
  shows "\<exists>t'. tk_push d i t = Inr t' \<and> tk_holds k (es @ [(d, i)]) t'"
proof -
  define S where "S = sort_key dkey es"
  have S: "sorted (map dkey S)" "length S = length es" "no_nans S" using nan by (simp_all add: S_def no_nans_def)
  have buf: "length (tk_buf t) = 32" "tk_k t = k" "tk_len t = min k (length es)" "take (tk_len t) (tk_buf t) = take k S"
    using t unfolding tk_holds_def tk_iter_def S_def by blast+
  have split: "(tk_buf t)[m := (d, i)] = take m (tk_buf t) @ (d, i) # drop (Suc m) (tk_buf t)" if "m < 32" for m
    using that buf(1) by (simp add: upd_conv_take_nth_drop)
  have sub: "sorted (map dkey (take m S))" "no_nans ((d, i) # take m S)" for m
    using S nan by (auto simp: no_nans_def sorted_wrt_take dest: in_set_takeD simp flip: take_map)
  show ?thesis
  proof (cases "length es < k")
    case True
    then have m: "tk_len t = length es" "take (length es) (tk_buf t) = S" using buf S(2) by auto
    have "bubble (length S) (S @ (d, i) # drop (Suc (length es)) (tk_buf t)) =
        insert_after dkey (d, i) S @ drop (Suc (length es)) (tk_buf t)"
      using bubble_insert [OF S(1), of "(d, i)"] sub(2) [of "length S"] by simp
    moreover have "length (insert_after dkey (d, i) S) = Suc (length es)"
      by (metis S(2) mset_insert_after size_add_mset size_mset)
    ultimately show ?thesis
      using True k m buf S(2) split [of "length es"]
      by (simp add: tk_push_def tk_holds_def tk_iter_def sort_key_snoc S_def [symmetric])
  next
    case False
    then have m: "tk_len t = k" "take k (tk_buf t) = take k S" using buf by auto
    have last: "tk_buf t ! (k - 1) = S ! (k - 1)"
      using m(2) k by (metis diff_less less_one nth_take)
    have lt: "f32_lt d (fst (S ! (k - 1))) \<longleftrightarrow> dkey (d, i) < dkey (S ! (k - 1))"
      using lt_dkey [of "(d, i)" "S ! (k - 1)"] nan S False k by (auto simp: no_nans_def)
    have tk: "take k (insert_after dkey (d, i) S) =
        (if dkey (d, i) < dkey (S ! (k - 1)) then insert_after dkey (d, i) (take (k - 1) S) else take k S)"
      using False S k by (intro take_insert_after) auto
    have pre: "take (k - 1) (tk_buf t) = take (k - 1) S"
      using arg_cong [OF m(2), of "take (k - 1)"] by (simp add: min_def)
    have "bubble (k - 1) (take (k - 1) S @ (d, i) # drop k (tk_buf t)) =
        insert_after dkey (d, i) (take (k - 1) S) @ drop k (tk_buf t)"
    proof -
      have "length (take (k - 1) S) = k - 1" using False S(2) by simp
      then show ?thesis using bubble_insert [OF sub, of "k - 1"] by (simp only:)
    qed
    moreover have "length (insert_after dkey (d, i) (take (k - 1) S)) = k"
      using k S(2) False size_mset [of "insert_after dkey (d, i) (take (k - 1) S)"] by simp
    ultimately show ?thesis
      using False k m buf split [of "k - 1"] last lt tk pre
      by (auto simp: tk_push_def tk_holds_def tk_iter_def sort_key_snoc S_def [symmetric])
  qed
qed

section \<open>What an assignment returns\<close>

text \<open>The distances of a point to the leaders, all defined and none a NaN.\<close>

definition leader_dists :: "distance \<Rightarrow> u32 \<Rightarrow> u32 list \<Rightarrow> f32 list \<Rightarrow> bool" where
  "leader_dists dist idx leaders ds \<longleftrightarrow> map (dist idx) leaders = map Inr ds \<and> (\<forall>d \<in> set ds. \<not> f32_is_nan d)"

text \<open>The leaders in order of distance, the earlier one first among equals.\<close>

definition by_distance :: "f32 list \<Rightarrow> usize list" where
  "by_distance ds = map snd (sort_key dkey (zip ds [0..<length ds]))"

lemma push_leaders_holds:
  assumes "tk_holds k es t" "0 < k" "k \<le> 32" "leader_dists dist idx ls ds" "no_nans es"
  shows "\<exists>t'. push_leaders dist idx lid ls t = Inr t' \<and> tk_holds k (es @ zip ds [lid..<lid + length ds]) t'"
  using assms
proof (induction ls arbitrary: lid es t ds)
  case (Cons l ls)
  obtain d ds' where ds: "ds = d # ds'" using Cons.prems(4) by (cases ds) (auto simp: leader_dists_def)
  have d: "dist idx l = Inr d" "\<not> f32_is_nan d" and ds': "leader_dists dist idx ls ds'"
    using Cons.prems(4) by (simp_all add: ds leader_dists_def)
  have nan: "no_nans ((d, lid) # es)" "no_nans (es @ [(d, lid)])" using d(2) Cons.prems(5) by (auto simp: no_nans_def)
  obtain t1 where t1: "tk_push d lid t = Inr t1" "tk_holds k (es @ [(d, lid)]) t1"
    using tk_push_holds [OF Cons.prems(1-3) nan(1)] by auto
  have "zip ds [lid..<lid + length ds] = (d, lid) # zip ds' [lid + 1..<lid + 1 + length ds']"
    using upt_conv_Cons [of lid "lid + length ds"] by (simp add: ds del: upt_Suc)
  then show ?case
    using Cons.IH [OF t1(2) Cons.prems(2,3) ds' nan(2), of "lid + 1"] d(1) t1(1)
    by (simp del: upt_Suc)
qed (auto simp: leader_dists_def)

lemma assign_top_k_eq:
  assumes "leader_dists dist idx leaders ds" "0 < fanout"
  shows "assign_top_k dist leaders fanout idx = Inr (take (min fanout 32) (by_distance ds))"
proof -
  obtain t where "push_leaders dist idx 0 leaders (tk_new fanout) = Inr t" "tk_holds (min fanout 32) (zip ds [0..<length ds]) t"
    using push_leaders_holds [OF _ _ _ assms(1), of "min fanout 32" "[]" "tk_new fanout" 0] assms(2)
    by (auto simp: no_nans_def tk_holds_def tk_new_def tk_iter_def)
  then show ?thesis by (simp add: assign_top_k_def tk_holds_def by_distance_def take_map)
qed

text \<open>\<open>StackTopK\<close>, fed with the distances of a point to every leader, ends with the nearest
  \<open>fanout\<close> leaders (32 at most), in order of distance, the earlier leader first among equals.\<close>

theorem top_k_nearest:
  assumes "leader_dists dist idx leaders ds" "0 < fanout"
  shows "assign_top_k dist leaders fanout idx = Inr (take (min fanout 32) (by_distance ds))"
  using assms by (rule assign_top_k_eq)

theorem top_k_nearest_witness:
  "assign_top_k (\<lambda>p l. Inr (if l = 7 then 0x40000000 else 0x3f800000)) [7, 8, 9] 2 5 = Inr [1, 2]"
proof -
  have "leader_dists (\<lambda>p l. Inr (if l = 7 then 0x40000000 else 0x3f800000)) 5 [7, 8, 9] [0x40000000, 0x3f800000, 0x3f800000]"
    by (simp add: leader_dists_def f32_is_nan_code)
  moreover have "by_distance [0x40000000, 0x3f800000, 0x3f800000] = [1, 2, 0]" by code_simp
  ultimately show ?thesis using top_k_nearest [of _ 5 "[7, 8, 9]" _ 2] by simp
qed

lemma distinct_by_distance: "distinct (by_distance ds)"
  unfolding by_distance_def stable.distinct_map_srt by simp

lemma set_by_distance: "set (by_distance ds) = {..<length ds}"
proof -
  have "set (by_distance ds) = snd ` set (zip ds [0..<length ds])" by (simp add: by_distance_def)
  also have "\<dots> = set (map snd (zip ds [0..<length ds]))" by (simp only: list.set_map)
  also have "\<dots> = {..<length ds}" by (auto simp: atLeast_upt)
  finally show ?thesis .
qed

lemma length_by_distance [simp]: "length (by_distance ds) = length ds"
  by (simp add: by_distance_def)

text \<open>The loop for a fan-out of one finds the same leader, as long as some distance is finite.\<close>

lemma nearest_leader_in:
  assumes "leader_dists dist idx ls ds" "\<not> f32_is_nan b"
  shows "nearest_leader dist idx lid ls b best = Inr (snd (hd (sort_key dkey ((b, best) # zip ds [lid..<lid + length ds]))))"
  using assms
proof (induction ls arbitrary: lid ds b best)
  case (Cons l ls)
  obtain d ds' where ds: "ds = d # ds'" using Cons.prems(1) by (cases ds) (auto simp: leader_dists_def)
  have d: "dist idx l = Inr d" "\<not> f32_is_nan d" and ds': "leader_dists dist idx ls ds'"
    using Cons.prems(1) by (simp_all add: ds leader_dists_def)
  have z: "zip ds [lid..<lid + length ds] = (d, lid) # zip ds' [lid + 1..<lid + 1 + length ds']"
    using upt_conv_Cons [of lid "lid + length ds"] by (simp add: ds del: upt_Suc)
  have ins: "insort_key dkey e xs \<noteq> []" for e xs by (cases xs) auto
  have hd: "hd (insort_key dkey e xs) = (if xs = [] \<or> dkey e \<le> dkey (hd xs) then e else hd xs)" for e xs
    by (cases xs) auto
  have lt: "f32_lt d b \<longleftrightarrow> dkey (d, lid) < dkey (b, best)" using lt_dkey [of "(d, lid)" "(b, best)"] d Cons.prems(2) by simp
  show ?case
    using d lt Cons.IH [OF ds' d(2), of "lid + 1" lid] Cons.IH [OF ds' Cons.prems(2), of "lid + 1" best]
    by (auto simp: z hd ins)
qed (auto simp: leader_dists_def)

lemma nearest_is_top_1:
  assumes "leader_dists dist idx leaders ds" "\<exists>d \<in> set ds. f32_lt d f32_infinity"
  shows "assign_nearest dist leaders idx = Inr (take 1 (by_distance ds))"
proof -
  let ?es = "zip ds [0..<length ds]"
  obtain d where d: "d \<in> set ds" "f32_lt d f32_infinity" using assms(2) by auto
  then obtain i where e: "(d, i) \<in> set ?es" by (metis in_set_impl_in_set_zip1 length_upt minus_nat.diff_0)
  have ne: "sort_key dkey ?es \<noteq> []" using e by (metis length_pos_if_in_set length_sort list.size(3) not_less_zero)
  have "dkey (hd (sort_key dkey ?es)) \<le> dkey (d, i)"
  proof -
    have "sorted (map dkey (sort_key dkey ?es))" by simp
    moreover have "(d, i) \<in> set (sort_key dkey ?es)" using e by simp
    ultimately show ?thesis using ne by (cases "sort_key dkey ?es") auto
  qed
  also have "\<dots> < dkey (f32_infinity, 0)" using d(2) by (simp add: dkey_def f32_lt_def)
  finally have "hd (insort_key dkey (f32_infinity, 0) (sort_key dkey ?es)) = hd (sort_key dkey ?es)"
    by (cases "sort_key dkey ?es") (use ne in auto)
  then show ?thesis
    using nearest_leader_in [OF assms(1), of f32_infinity 0 0] ne
    by (cases "sort_key dkey ?es") (auto simp: assign_nearest_def by_distance_def)
qed

section \<open>The clusters of an assignment\<close>

text \<open>
  An assignment as both paths use it: for every point of \<open>cur\<close> a list of different leader numbers
  below \<open>n\<close>, at most \<open>cap\<close> of them. The cluster of a leader is the points assigned to it.
\<close>

definition assigns :: "(u32 \<Rightarrow> usize list result) \<Rightarrow> (u32 \<Rightarrow> usize list) \<Rightarrow> nat \<Rightarrow> nat \<Rightarrow> u32 list \<Rightarrow> bool" where
  "assigns assign ids n cap cur \<longleftrightarrow>
     (\<forall>p \<in> set cur. assign p = Inr (ids p) \<and> distinct (ids p) \<and> set (ids p) \<subseteq> {..<n} \<and> length (ids p) \<le> cap)"

definition cluster_of :: "(u32 \<Rightarrow> usize list) \<Rightarrow> u32 list \<Rightarrow> usize \<Rightarrow> cluster" where
  "cluster_of ids cur i = filter (\<lambda>p. i \<in> set (ids p)) cur"

definition clusters_of :: "(u32 \<Rightarrow> usize list) \<Rightarrow> nat \<Rightarrow> u32 list \<Rightarrow> cluster list" where
  "clusters_of ids n cur = map (cluster_of ids cur) [0..<n]"

lemma length_clusters_of [simp]: "length (clusters_of ids n cur) = n"
  by (simp add: clusters_of_def)

text \<open>Where every distance is a number, both assignments are functions of the point.\<close>

definition ids_of :: "distance \<Rightarrow> u32 list \<Rightarrow> usize \<Rightarrow> u32 \<Rightarrow> usize list" where
  "ids_of dist leaders fanout p =
     (case (if fanout = 1 then assign_nearest dist leaders p else assign_top_k dist leaders fanout p) of
        Inr lids \<Rightarrow> lids | Inl _ \<Rightarrow> [])"

definition all_numbers :: "distance \<Rightarrow> u32 list \<Rightarrow> u32 list \<Rightarrow> bool" where
  "all_numbers dist leaders cur \<longleftrightarrow>
     (\<forall>p \<in> set cur. \<forall>l \<in> set leaders. case dist p l of Inr d \<Rightarrow> \<not> f32_is_nan d | Inl _ \<Rightarrow> False)"

lemma all_numbers_dists:
  assumes "all_numbers dist leaders cur" "p \<in> set cur"
  shows "\<exists>ds. leader_dists dist p leaders ds \<and> length ds = length leaders"
proof -
  let ?ds = "map (\<lambda>l. projr (dist p l)) leaders"
  have "\<forall>l \<in> set leaders. dist p l = Inr (projr (dist p l)) \<and> \<not> f32_is_nan (projr (dist p l))"
  proof
    fix l assume "l \<in> set leaders"
    then show "dist p l = Inr (projr (dist p l)) \<and> \<not> f32_is_nan (projr (dist p l))"
      using assms by (cases "dist p l") (fastforce simp: all_numbers_def)+
  qed
  then have "leader_dists dist p leaders ?ds" by (simp add: leader_dists_def)
  then show ?thesis by (intro exI [of _ ?ds]) simp
qed

lemma snd_in_zip: "e \<in> set (zip xs ys) \<Longrightarrow> snd e \<in> set ys"
  by (cases e) (auto dest: set_zip_rightD)

lemma assigns_ids:
  assumes num: "all_numbers dist leaders cur" and f: "0 < fanout" "leaders \<noteq> []"
  shows "assigns (if fanout = 1 then assign_nearest dist leaders else assign_top_k dist leaders fanout)
    (ids_of dist leaders fanout) (length leaders) (min fanout 32) cur"
  unfolding assigns_def
proof (intro ballI)
  fix p assume "p \<in> set cur"
  then obtain ds where ds: "leader_dists dist p leaders ds" "length ds = length leaders"
    using all_numbers_dists [OF num] by auto
  show "(if fanout = 1 then assign_nearest dist leaders else assign_top_k dist leaders fanout) p = Inr (ids_of dist leaders fanout p) \<and>
    distinct (ids_of dist leaders fanout p) \<and> set (ids_of dist leaders fanout p) \<subseteq> {..<length leaders} \<and>
    length (ids_of dist leaders fanout p) \<le> min fanout 32"
  proof (cases "fanout = 1")
    case True
    let ?es = "(f32_infinity, 0) # zip ds [0..<0 + length ds]"
    have "hd (sort_key dkey ?es) \<in> set (sort_key dkey ?es)"
      by (rule hd_in_set) (metis length_0_conv length_sort list.distinct(1))
    then have "hd (sort_key dkey ?es) \<in> set ?es" by (simp only: set_sort)
    then have "snd (hd (sort_key dkey ?es)) < length leaders"
      using ds(2) f snd_in_zip [of "hd (sort_key dkey ?es)" ds "[0..<length ds]"] by (auto simp del: sort_key_simps)
    moreover have "assign_nearest dist leaders p = Inr [snd (hd (sort_key dkey ?es))]"
      using nearest_leader_in [OF ds(1), of f32_infinity 0 0] by (simp add: assign_nearest_def f32_is_nan_code f32_infinity_def)
    ultimately show ?thesis using True by (simp add: ids_of_def)
  next
    case False
    have "assign_top_k dist leaders fanout p = Inr (take (min fanout 32) (by_distance ds))"
      by (rule assign_top_k_eq [OF ds(1) f(1)])
    moreover have "set (take n (by_distance ds)) \<subseteq> {..<length leaders}" for n
      using set_by_distance [of ds] ds(2) set_take_subset [of n "by_distance ds"] by simp
    ultimately show ?thesis using False by (simp add: ids_of_def distinct_by_distance distinct_take min.coboundedI2)
  qed
qed

lemma push_clusters_ok:
  assumes "distinct lids" "set lids \<subseteq> {..<length cs}"
  shows "push_clusters idx lids cs = Inr (map (\<lambda>i. if i \<in> set lids then cs ! i @ [idx] else cs ! i) [0..<length cs])"
  using assms
proof (induction lids arbitrary: cs)
  case (Cons l lids)
  then show ?case by (auto simp: nth_list_update intro!: nth_equalityI)
qed (simp add: map_nth)

lemma assign_points_ok:
  assumes "assigns assign ids (length cs) cap cur"
  shows "assign_points assign cur cs = Inr (map (\<lambda>i. cs ! i @ cluster_of ids cur i) [0..<length cs])"
  using assms
proof (induction cur arbitrary: cs)
  case (Cons p cur)
  let ?cs = "map (\<lambda>i. if i \<in> set (ids p) then cs ! i @ [p] else cs ! i) [0..<length cs]"
  have p: "assign p = Inr (ids p)" "push_clusters p (ids p) cs = Inr ?cs" and cur: "assigns assign ids (length ?cs) cap cur"
    using Cons.prems by (auto simp: assigns_def push_clusters_ok)
  show ?case using Cons.IH [OF cur] p by (auto simp: cluster_of_def)
qed (simp add: cluster_of_def map_nth)

lemma clusters_ok:
  assumes "assigns assign ids n cap cur" "0 < n"
  shows "res_bind (empty_clusters n) (assign_points assign cur) = Inr (clusters_of ids n cur)"
  using assign_points_ok [of assign ids "replicate n []" cap cur] assms
  by (auto simp: empty_clusters_def clusters_of_def)

lemma count_leaders_ok:
  assumes "distinct lids" "set lids \<subseteq> {..<length rc}"
  shows "count_leaders lids rc = Inr (map (\<lambda>i. if i \<in> set lids then rc ! i + 1 else rc ! i) [0..<length rc])"
  using assms
proof (induction lids arbitrary: rc)
  case (Cons l lids)
  then show ?case by (auto simp: nth_list_update intro!: nth_equalityI)
qed (simp add: map_nth)

section \<open>Records on the spool\<close>

definition assign_record :: "usize \<Rightarrow> u16 list \<Rightarrow> u8 list" where
  "assign_record cap leaders =
     [word_of_nat (length leaders)] @ concat (map le16 leaders) @ concat (replicate (cap - length leaders) (le16 0))"

lemma write_assign_record_eq:
  "write_assign_record leaders cap =
     (if assign_record_fanout cap < length leaders then Inl (Err (Index ''Assignment record contains leaders above cap''))
      else Inr (assign_record (assign_record_fanout cap) leaders))"
  by (simp add: write_assign_record_def assign_record_def Let_def)

lemma fold_append_le16: "fold (\<lambda>w buf. buf @ f w) ws buf = buf @ concat (map f ws)"
  by (induction ws arbitrary: buf) simp_all

lemma append_is_write:
  "append_assign_record_bytes buf leaders cap = res_bind (write_assign_record leaders cap) (\<lambda>b. Inr (buf @ b))"
  by (simp add: append_assign_record_bytes_def write_assign_record_def Let_def fold_append_le16 map_replicate_const)

lemma length_assign_record: "length leaders \<le> cap \<Longrightarrow> length (assign_record cap leaders) = 1 + 2 * cap"
proof -
  have "length (concat (map le16 ws)) = 2 * length ws" for ws by (induction ws) simp_all
  moreover have "concat (replicate n (le16 0)) = concat (map le16 (replicate n 0))" for n by simp
  ultimately have "length (concat (replicate n (le16 0))) = 2 * n" for n by (metis length_replicate)
  then show "length leaders \<le> cap \<Longrightarrow> length (assign_record cap leaders) = 1 + 2 * cap"
    using \<open>\<And>ws. length (concat (map le16 ws)) = 2 * length ws\<close> by (simp add: assign_record_def)
qed

lemma read_slots_append: "read_slots (length ws) (concat (map le16 ws) @ rest) = Inr (ws, rest)"
  by (induction ws) simp_all

lemma read_assign_record_ok:
  assumes "length leaders \<le> cap" "cap \<le> 32"
  shows "read_assign_record cap (assign_record cap leaders @ rest) =
    Inr (length leaders, leaders @ replicate (cap - length leaders) 0, rest)"
proof -
  let ?ws = "leaders @ replicate (cap - length leaders) 0"
  have "unat (word_of_nat (length leaders) :: u8) = length leaders"
    using assms by (simp add: unsigned_of_nat take_bit_nat_eq_self_iff)
  moreover have "read_slots cap (concat (map le16 ?ws) @ rest) = Inr (?ws, rest)"
    using read_slots_append [of ?ws rest] assms(1) by simp
  ultimately show ?thesis
    using assms(1) by (simp add: read_assign_record_def assign_record_def read_exact_def)
qed

text \<open>An assignment record is read back as written, padded with zeros to the record cap, and both
  writers produce the same bytes; a point with more leaders than the cap is refused.\<close>

theorem assign_record_roundtrip:
  assumes "length leaders \<le> assign_record_fanout cap"
  shows "\<exists>bytes. write_assign_record leaders cap = Inr bytes \<and>
    append_assign_record_bytes buf leaders cap = Inr (buf @ bytes) \<and> length bytes = assign_record_width cap \<and>
    read_assign_record (assign_record_fanout cap) (bytes @ rest) =
      Inr (length leaders, leaders @ replicate (assign_record_fanout cap - length leaders) 0, rest)"
proof -
  have "assign_record_fanout cap \<le> 32" by (simp add: assign_record_fanout_def)
  then show ?thesis
    using assms
    by (auto simp: append_is_write write_assign_record_eq read_assign_record_ok length_assign_record assign_record_width_def)
qed

theorem assign_record_roundtrip_witness:
  "\<exists>bytes. write_assign_record [3, 1] 3 = Inr bytes \<and> append_assign_record_bytes [9] [3, 1] 3 = Inr ([9] @ bytes) \<and>
    length bytes = assign_record_width 3 \<and>
    read_assign_record (assign_record_fanout 3) (bytes @ [7]) = Inr (length [3, 1 :: u16], [3, 1] @ replicate (assign_record_fanout 3 - length [3, 1 :: u16]) 0, [7])"
  by (rule assign_record_roundtrip) (simp add: assign_record_fanout_def)

lemma spool_points_ok:
  assumes "assigns assign ids (length rc) fanout cur" "assign_record_fanout fanout = fanout"
  shows "spool_points assign fanout cur rc spool =
    Inr (map (\<lambda>i. rc ! i + length (cluster_of ids cur i)) [0..<length rc],
         spool @ concat (map (\<lambda>p. assign_record fanout (map word_of_nat (ids p))) cur))"
  using assms(1)
proof (induction cur arbitrary: rc spool)
  case (Cons p cur)
  let ?rc = "map (\<lambda>i. if i \<in> set (ids p) then rc ! i + 1 else rc ! i) [0..<length rc]"
  have p: "assign p = Inr (ids p)" "count_leaders (ids p) rc = Inr ?rc" "length (ids p) \<le> fanout"
    and cur: "assigns assign ids (length ?rc) fanout cur"
    using Cons.prems by (auto simp: assigns_def count_leaders_ok)
  show ?case using Cons.IH [OF cur] p assms(2) by (auto simp: cluster_of_def write_assign_record_eq)
qed (simp add: cluster_of_def map_nth)

lemma raw_counts_ok:
  assumes "assigns assign ids n fanout cur" "assign_record_fanout fanout = fanout"
  shows "spool_points assign fanout cur (replicate n 0) [] =
    Inr (map length (clusters_of ids n cur), concat (map (\<lambda>p. assign_record fanout (map word_of_nat (ids p))) cur))"
  using spool_points_ok [of assign ids "replicate n 0" fanout cur "[]"] assms
  by (auto simp: clusters_of_def)

end
