(* ===== verification/Gemm.thy ===== *)
theory Gemm
  imports Assign Search FileStore SubsetStore
begin

text \<open>
  Assignment by matrix products, \<^verbatim>\<open>ForgeANN/src/forgeann/rbc_partition\<close>: the tile and batch sizes
  (\<^verbatim>\<open>gemm_tile.rs\<close>, \<^verbatim>\<open>prefetch_pipeline.rs\<close>) and \<open>compute_clusters_gemm_budgeted_with_context\<close> with
  its spooling twin (\<^verbatim>\<open>child_run_io.rs\<close>), both without \<open>ADSampling\<close>. The product of two matrices
  (\<open>ndarray::linalg::general_mat_mul\<close>) is the parameter \<open>mm\<close>, the rounded operations on \<open>f32\<close> are \<open>F\<close>,
  and the windowed read of the point store is \<open>gather\<close>.
\<close>

section \<open>Tile and batch sizes\<close>

text \<open>\<open>Ord::clamp\<close> panics when the bounds are swapped.\<close>

definition clamp :: "nat \<Rightarrow> nat \<Rightarrow> nat \<Rightarrow> nat result" where
  "clamp x lo hi = (if hi < lo then Inl (Panic ''assertion failed: min <= max'') else Inr (max lo (min hi x)))"

text \<open>Between two constants in order.\<close>

definition within :: "nat \<Rightarrow> nat \<Rightarrow> nat \<Rightarrow> nat" where
  "within x lo hi = max lo (min hi x)"

definition target_bytes :: "usize option \<Rightarrow> usize" where
  "target_bytes memory_budget_bytes =
     (case memory_budget_bytes of
        None \<Rightarrow> 64 * 1024 * 1024
      | Some budget \<Rightarrow>
          if 0 < budget then max (within (budget div 256) (8 * 1024 * 1024) (32 * 1024 * 1024)) (8 * 1024 * 1024)
          else 64 * 1024 * 1024)"

definition bytes_per_point :: "usize \<Rightarrow> usize \<Rightarrow> usize" where
  "bytes_per_point dim leader_tile = sat_add (sat_mul (sat_mul dim 4) 2) (sat_mul leader_tile 4)"

definition choose_gemm_tile_sizes_for_budget :: "usize \<Rightarrow> usize \<Rightarrow> usize option \<Rightarrow> usize \<times> usize" where
  "choose_gemm_tile_sizes_for_budget num_leaders dim memory_budget_bytes =
     (let num_leaders = max num_leaders 1;
          leader_tile = min num_leaders 512;
          bpp = bytes_per_point dim leader_tile;
          point_tile = (if bpp = 0 then 8192 else within (target_bytes memory_budget_bytes div bpp) 256 8192)
      in (point_tile, leader_tile))"

text \<open>The override is the value of \<open>FORGEANN_GEMM_TILE\<close>, parsed: two positive numbers.\<close>

definition choose_gemm_tile_sizes_with_override ::
  "(usize \<times> usize) option \<Rightarrow> usize \<Rightarrow> usize \<Rightarrow> usize option \<Rightarrow> usize \<times> usize" where
  "choose_gemm_tile_sizes_with_override override num_leaders dim memory_budget_bytes =
     (case override of
        Some (point_tile, leader_tile) \<Rightarrow>
          (within point_tile 256 8192, max (min (min leader_tile (max num_leaders 1)) 512) 1)
      | None \<Rightarrow> choose_gemm_tile_sizes_for_budget num_leaders dim memory_budget_bytes)"

definition choose_prefetch_batch_points_for_budget :: "usize \<Rightarrow> usize \<Rightarrow> usize \<Rightarrow> usize option \<Rightarrow> usize" where
  "choose_prefetch_batch_points_for_budget point_tile_size dim num_workers memory_budget_bytes =
     (let row_bytes = max (sat_mul dim 4) 1;
          target = within (case memory_budget_bytes of
                             None \<Rightarrow> 64 * 1024 * 1024
                           | Some budget \<Rightarrow>
                               if 0 < budget then within (budget div 32) (8 * 1024 * 1024) (1024 * 1024 * 1024)
                               else 64 * 1024 * 1024)
                     (8 * 1024 * 1024) (1024 * 1024 * 1024);
          max_points_by_bytes = max (target div row_bytes) point_tile_size;
          worker_scaled_points = max (sat_mul point_tile_size (max num_workers 1)) point_tile_size
      in max (min worker_scaled_points max_points_by_bytes) point_tile_size)"

definition choose_spool_prefetch_workers :: "usize \<Rightarrow> usize option \<Rightarrow> usize" where
  "choose_spool_prefetch_workers num_workers memory_budget_bytes =
     (let num_workers = max num_workers 1 in
      if memory_budget_bytes \<noteq> None then num_workers else max (sat_mul num_workers 2) 1)"

definition choose_compute_block_points_for_batch :: "usize \<Rightarrow> usize \<Rightarrow> usize \<Rightarrow> usize result" where
  "choose_compute_block_points_for_batch point_tile_size batch_points num_workers =
     (let point_tile_size = max point_tile_size 1;
          batch_points = max batch_points 1;
          num_workers = max num_workers 1;
          max_blocks_by_min_tile = max (div_ceil batch_points 256) 1;
          target_blocks = min num_workers max_blocks_by_min_tile;
          target_tile = div_ceil batch_points target_blocks
      in clamp target_tile 256 point_tile_size)"

definition choose_prefetch_queue_depth_for_budget :: "usize \<Rightarrow> usize \<Rightarrow> usize option \<Rightarrow> usize" where
  "choose_prefetch_queue_depth_for_budget batch_points dim memory_budget_bytes =
     (case memory_budget_bytes of
        None \<Rightarrow> 1
      | Some budget \<Rightarrow>
          if budget = 0 then 1
          else
            let batch_bytes = max (sat_mul (sat_mul (max batch_points 1) (max dim 1)) 4) 1;
                queue_budget = budget div 4
            in within (queue_budget div batch_bytes) 1 8)"

section \<open>One tile\<close>

definition f32_two :: f32 where
  "f32_two = 0x40000000"

text \<open>\<open>f32::max\<close> with zero: zero for a NaN. The sign of a zero result is never looked at.\<close>

definition f32_max_zero :: "f32 \<Rightarrow> f32" where
  "f32_max_zero d = (if f32_is_nan d \<or> f32_key d < 0 then f32_zero else d)"

definition row_norm :: "f32_ops \<Rightarrow> f32 list \<Rightarrow> f32" where
  "row_norm F r = foldl (fo_add F) (fo_sum0 F) (map (\<lambda>v. fo_mul F v v) r)"

definition gram_dist :: "f32_ops \<Rightarrow> f32 \<Rightarrow> f32 \<Rightarrow> f32 \<Rightarrow> f32" where
  "gram_dist F x_norm l_norm gram = f32_max_zero (fo_sub F (fo_add F x_norm l_norm) (fo_mul F f32_two gram))"

fun topk_row :: "f32_ops \<Rightarrow> f32 \<Rightarrow> f32 list \<Rightarrow> usize \<Rightarrow> f32 list \<Rightarrow> top_k \<Rightarrow> top_k result" where
  "topk_row F x_norm l_norms leader_idx [] topk = Inr topk"
| "topk_row F x_norm l_norms leader_idx (gram # grams) topk =
     (if length l_norms \<le> leader_idx then Inl index_panic
      else res_bind (tk_push (gram_dist F x_norm (l_norms ! leader_idx) gram) leader_idx topk)
             (topk_row F x_norm l_norms (leader_idx + 1) grams))"

fun update_block_topk_from_gram_tile ::
  "f32_ops \<Rightarrow> top_k list \<Rightarrow> f32 list \<Rightarrow> f32 list \<Rightarrow> f32 list list \<Rightarrow> usize \<Rightarrow> top_k list result" where
  "update_block_topk_from_gram_tile F [] x_norms l_norms gram_tile leader_offset = Inr []"
| "update_block_topk_from_gram_tile F (topk # topk_rows) (x_norm # x_norms) l_norms (row # gram_tile) leader_offset =
     res_bind (topk_row F x_norm l_norms leader_offset row topk) (\<lambda>topk.
     res_bind (update_block_topk_from_gram_tile F topk_rows x_norms l_norms gram_tile leader_offset) (\<lambda>topk_rows.
       Inr (topk # topk_rows)))"
| "update_block_topk_from_gram_tile F topk_rows x_norms l_norms gram_tile leader_offset = Inl index_panic"

text \<open>A point's best distance and leader.\<close>

fun best_row :: "f32_ops \<Rightarrow> f32 \<Rightarrow> f32 list \<Rightarrow> usize \<Rightarrow> f32 list \<Rightarrow> f32 \<times> usize \<Rightarrow> (f32 \<times> usize) result" where
  "best_row F x_norm l_norms leader_idx [] best = Inr best"
| "best_row F x_norm l_norms leader_idx (gram # grams) best =
     (if length l_norms \<le> leader_idx then Inl index_panic
      else
        let dist2 = gram_dist F x_norm (l_norms ! leader_idx) gram
        in best_row F x_norm l_norms (leader_idx + 1) grams (if f32_lt dist2 (fst best) then (dist2, leader_idx) else best))"

fun update_block_best_from_gram_tile ::
  "f32_ops \<Rightarrow> (f32 \<times> usize) list \<Rightarrow> f32 list \<Rightarrow> f32 list \<Rightarrow> f32 list list \<Rightarrow> usize \<Rightarrow> (f32 \<times> usize) list result" where
  "update_block_best_from_gram_tile F [] x_norms l_norms gram_tile leader_offset = Inr []"
| "update_block_best_from_gram_tile F (best # bests) (x_norm # x_norms) l_norms (row # gram_tile) leader_offset =
     res_bind (best_row F x_norm l_norms leader_offset row best) (\<lambda>best.
     res_bind (update_block_best_from_gram_tile F bests x_norms l_norms gram_tile leader_offset) (\<lambda>bests.
       Inr (best # bests)))"
| "update_block_best_from_gram_tile F bests x_norms l_norms gram_tile leader_offset = Inl index_panic"

text \<open>The loop over the leader tiles: \<open>update\<close> is one of the two above.\<close>

type_synonym mat_mul = "f32 list list \<Rightarrow> f32 list list \<Rightarrow> f32 list list"

fun leader_tiles ::
  "('a list \<Rightarrow> f32 list list \<Rightarrow> usize \<Rightarrow> 'a list result) \<Rightarrow> mat_mul \<Rightarrow> f32 list list \<Rightarrow> usize \<Rightarrow> f32 list list list \<Rightarrow>
   'a list \<Rightarrow> 'a list result" where
  "leader_tiles update mm x_mat leader_offset [] rows = Inr rows"
| "leader_tiles update mm x_mat leader_offset (leader_view # views) rows =
     res_bind (update rows (mm x_mat leader_view) leader_offset)
       (leader_tiles update mm x_mat (leader_offset + length leader_view) views)"

section \<open>A block of points\<close>

definition block_leaders ::
  "f32_ops \<Rightarrow> mat_mul \<Rightarrow> f32 list list \<Rightarrow> usize \<Rightarrow> usize \<Rightarrow> f32 list list \<Rightarrow> usize list list result" where
  "block_leaders F mm l_rows leader_tile_size fanout x_mat =
     (let x_norms = map (row_norm F) x_mat;
          l_norms = map (row_norm F) l_rows
      in if fanout = 1 then
           res_bind (leader_tiles (\<lambda>bests tile. update_block_best_from_gram_tile F bests x_norms l_norms tile) mm x_mat 0
                       (chunks leader_tile_size l_rows) (replicate (length x_mat) (f32_infinity, 0)))
             (\<lambda>bests. Inr (map (\<lambda>best. [snd best]) bests))
         else
           res_bind (leader_tiles (\<lambda>topks tile. update_block_topk_from_gram_tile F topks x_norms l_norms tile) mm x_mat 0
                       (chunks leader_tile_size l_rows) (replicate (length x_mat) (tk_new fanout)))
             (\<lambda>topks. Inr (map (\<lambda>topk. map snd (tk_iter topk)) topks)))"

fun push_block :: "u32 list \<Rightarrow> usize list list \<Rightarrow> cluster list \<Rightarrow> cluster list result" where
  "push_block (p # ps) (lids # lidss) cs = res_bind (push_clusters p lids cs) (push_block ps lidss)"
| "push_block [] lidss cs = Inr cs"
| "push_block (p # ps) [] cs = Inl index_panic"

definition merge_cluster_buffers :: "cluster list \<Rightarrow> cluster list \<Rightarrow> cluster list result" where
  "merge_cluster_buffers dst src =
     (if length dst \<noteq> length src then Inl (Panic ''assertion `left == right` failed'')
      else Inr (map2 (@) dst src))"

text \<open>The blocks of a batch: ids with their rows.\<close>

definition batch_blocks :: "usize \<Rightarrow> usize \<Rightarrow> u32 list \<Rightarrow> f32 list \<Rightarrow> (u32 list \<times> f32 list list) list" where
  "batch_blocks dim block_points ids data =
     zip (chunks block_points ids) (map (chunks dim) (chunks (block_points * dim) data))"

fun gemm_blocks ::
  "(f32 list list \<Rightarrow> usize list list result) \<Rightarrow> usize \<Rightarrow> (u32 list \<times> f32 list list) list \<Rightarrow> cluster list \<Rightarrow> cluster list result" where
  "gemm_blocks leaders_of nl [] cs = Inr cs"
| "gemm_blocks leaders_of nl ((block, x_mat) # blocks) cs =
     res_bind (leaders_of x_mat) (\<lambda>lidss.
     res_bind (push_block block lidss (replicate nl [])) (\<lambda>local_clusters.
     res_bind (merge_cluster_buffers (replicate nl []) local_clusters) (\<lambda>local_clusters.
     res_bind (merge_cluster_buffers cs local_clusters) (gemm_blocks leaders_of nl blocks))))"

section \<open>The assignment\<close>

record gemm_env =
  ge_workers :: usize
  ge_override :: "(usize \<times> usize) option"
  ge_strict_budget :: "usize option"

type_synonym gather = "u32 list \<Rightarrow> f32 list \<Rightarrow> f32 list result"

text \<open>
  \<open>default_rbc_windowed_options\<close>: how a tile of rows is read; \<open>window_env\<close> and \<open>gap_env\<close> are the
  values of the environment variables, where they are set and numbers. A read of points is given the
  number of rows of the tile: \<open>gather tile_rows\<close>.
\<close>

definition default_rbc_windowed_options :: "usize \<Rightarrow> bool \<Rightarrow> usize option \<Rightarrow> u32 option \<Rightarrow> usize \<Rightarrow> gather_options" where
  "default_rbc_windowed_options dim prefers_coalesced window_env gap_env tile_rows =
     (let row_bytes = sat_mul dim 4;
          max_window_bytes = max (min (sat_mul row_bytes (max tile_rows 1)) (4 * 1024 * 1024)) (256 * 1024);
          max_gap_rows = (if row_bytes \<le> 4096 then 1 else 0)
      in if prefers_coalesced then
           \<lparr>go_max_gap_rows = (case gap_env of None \<Rightarrow> 4 | Some v \<Rightarrow> v),
            go_max_window_bytes = max (case window_env of None \<Rightarrow> max_window_bytes | Some v \<Rightarrow> v) max_window_bytes,
            go_alignment_bytes = 4096, go_sort_ids = True\<rparr>
         else
           \<lparr>go_max_gap_rows = max_gap_rows, go_max_window_bytes = max_window_bytes,
            go_alignment_bytes = 4096, go_sort_ids = True\<rparr>)"

text \<open>
  The batches of \<open>for_each_prefetched_point_batch_profiled\<close>: chunks of the ids, of at most the budget of
  the strict pipeline when there is one (\<open>None\<close> also stands for a store that turns prefetching off).
\<close>

definition pipeline_batch_points :: "usize \<Rightarrow> usize option \<Rightarrow> usize \<Rightarrow> usize" where
  "pipeline_batch_points dim strict_budget batch_points =
     (let row_bytes = max (sat_mul dim 4) 1; batch_points = max batch_points 1 in
      case strict_budget of
        None \<Rightarrow> batch_points
      | Some budget_bytes \<Rightarrow>
          if 0 < budget_bytes then min batch_points (max (budget_bytes div row_bytes) 1) else batch_points)"

definition load_leaders :: "gather \<Rightarrow> usize \<Rightarrow> u32 list \<Rightarrow> f32 list list result" where
  "load_leaders gather dim leaders =
     res_bind (gather leaders (replicate (length leaders * dim) f32_zero)) (\<lambda>l_data.
       if dim = 0 then Inl (Panic ''chunk size must be non-zero'') else Inr (chunks dim l_data))"

fun gemm_batches ::
  "(f32 list list \<Rightarrow> usize list list result) \<Rightarrow> gather \<Rightarrow> usize \<Rightarrow> usize \<Rightarrow> usize \<Rightarrow> usize \<Rightarrow> u32 list list \<Rightarrow> cluster list \<Rightarrow>
   cluster list result" where
  "gemm_batches leaders_of gather dim nl point_tile_size num_workers [] cs = Inr cs"
| "gemm_batches leaders_of gather dim nl point_tile_size num_workers (ids # batches) cs =
     res_bind (gather ids (replicate (sat_mul (length ids) dim) f32_zero)) (\<lambda>data.
     res_bind (choose_compute_block_points_for_batch point_tile_size (length ids) num_workers) (\<lambda>block_points.
     res_bind (gemm_blocks leaders_of nl (batch_blocks dim block_points ids data) (replicate nl [])) (\<lambda>batch_clusters.
     res_bind (merge_cluster_buffers cs batch_clusters)
       (gemm_batches leaders_of gather dim nl point_tile_size num_workers batches))))"

definition compute_clusters_gemm_budgeted ::
  "f32_ops \<Rightarrow> mat_mul \<Rightarrow> (usize \<Rightarrow> gather) \<Rightarrow> gemm_env \<Rightarrow> usize \<Rightarrow> u32 list \<Rightarrow> u32 list \<Rightarrow> usize \<Rightarrow> usize option \<Rightarrow> cluster list result" where
  "compute_clusters_gemm_budgeted F mm gather env dim cur leaders local_fanout memory_budget_bytes =
     (let nl = length leaders;
          (point_tile_size, leader_tile_size) = choose_gemm_tile_sizes_with_override (ge_override env) nl dim memory_budget_bytes;
          num_workers = max (ge_workers env) 1;
          batch_points = choose_prefetch_batch_points_for_budget point_tile_size dim num_workers memory_budget_bytes
      in res_bind (load_leaders (gather (min nl (max leader_tile_size 1))) dim leaders) (\<lambda>l_rows.
           gemm_batches (block_leaders F mm l_rows leader_tile_size local_fanout) (gather point_tile_size) dim nl point_tile_size num_workers
             (chunks (pipeline_batch_points dim (ge_strict_budget env) batch_points) cur) (replicate nl [])))"

section \<open>The assignment to a spool\<close>

fun spool_block :: "usize \<Rightarrow> usize list list \<Rightarrow> usize list \<Rightarrow> u8 list \<Rightarrow> (usize list \<times> u8 list) result" where
  "spool_block fanout [] raw_counts assign_buf = Inr (raw_counts, assign_buf)"
| "spool_block fanout (lids # lidss) raw_counts assign_buf =
     res_bind (count_leaders lids raw_counts) (\<lambda>raw_counts.
     res_bind (append_assign_record_bytes assign_buf (map word_of_nat lids) fanout) (\<lambda>assign_buf.
       spool_block fanout lidss raw_counts assign_buf))"

fun spool_blocks ::
  "(f32 list list \<Rightarrow> usize list list result) \<Rightarrow> usize \<Rightarrow> usize \<Rightarrow> (u32 list \<times> f32 list list) list \<Rightarrow> usize list \<Rightarrow> u8 list \<Rightarrow>
   (usize list \<times> u8 list) result" where
  "spool_blocks leaders_of fanout nl [] merged_raw_counts spool = Inr (merged_raw_counts, spool)"
| "spool_blocks leaders_of fanout nl ((block, x_mat) # blocks) merged_raw_counts spool =
     res_bind (leaders_of x_mat) (\<lambda>lidss.
     res_bind (spool_block fanout lidss (replicate nl 0) []) (\<lambda>(raw_counts, bytes).
       spool_blocks leaders_of fanout nl blocks (map2 (+) merged_raw_counts raw_counts) (spool @ bytes)))"

fun spool_batches ::
  "(f32 list list \<Rightarrow> usize list list result) \<Rightarrow> gather \<Rightarrow> usize \<Rightarrow> usize \<Rightarrow> usize \<Rightarrow> usize \<Rightarrow> usize \<Rightarrow> u32 list list \<Rightarrow>
   usize list \<Rightarrow> u8 list \<Rightarrow> (usize list \<times> u8 list) result" where
  "spool_batches leaders_of gather dim fanout nl point_tile_size num_workers [] counts spool = Inr (counts, spool)"
| "spool_batches leaders_of gather dim fanout nl point_tile_size num_workers (ids # batches) counts spool =
     res_bind (gather ids (replicate (sat_mul (length ids) dim) f32_zero)) (\<lambda>data.
     res_bind (choose_compute_block_points_for_batch point_tile_size (length ids) num_workers) (\<lambda>block_points.
     res_bind (spool_blocks leaders_of fanout nl (batch_blocks dim block_points ids data) counts spool) (\<lambda>(counts, spool).
       spool_batches leaders_of gather dim fanout nl point_tile_size num_workers batches counts spool)))"

definition compute_clusters_gemm_to_spool ::
  "f32_ops \<Rightarrow> mat_mul \<Rightarrow> (usize \<Rightarrow> gather) \<Rightarrow> gemm_env \<Rightarrow> usize \<Rightarrow> usize option \<Rightarrow> u32 list \<Rightarrow> usize \<Rightarrow> u32 list \<Rightarrow> usize list \<Rightarrow>
   (usize list \<times> u8 list) result" where
  "compute_clusters_gemm_to_spool F mm gather env dim memory_budget_bytes leaders local_fanout cur raw_counts =
     (let nl = length leaders;
          fanout = assign_record_fanout (min local_fanout (max nl 1));
          (point_tile_size, leader_tile_size) = choose_gemm_tile_sizes_with_override (ge_override env) nl dim memory_budget_bytes;
          num_workers = max (ge_workers env) 1;
          batch_points = choose_prefetch_batch_points_for_budget point_tile_size dim
                           (choose_spool_prefetch_workers num_workers memory_budget_bytes) memory_budget_bytes
      in res_bind (load_leaders (gather (min nl (max leader_tile_size 1))) dim leaders) (\<lambda>l_rows.
         res_bind (spool_batches (block_leaders F mm l_rows leader_tile_size fanout) (gather point_tile_size) dim fanout nl point_tile_size num_workers
                     (chunks (pipeline_batch_points dim (ge_strict_budget env) batch_points) cur) (replicate nl 0) [])
           (\<lambda>(merged_raw_counts, spool).
             if length raw_counts \<noteq> length merged_raw_counts
             then Inl (Panic ''source slice length does not match destination slice length'')
             else Inr (merged_raw_counts, spool))))"

section \<open>Sizes\<close>

lemma within_bounds: "lo \<le> hi \<Longrightarrow> lo \<le> within x lo hi" "lo \<le> hi \<Longrightarrow> within x lo hi \<le> hi" "within x lo hi \<le> max lo x"
  by (auto simp: within_def)

lemma gemm_tile_bounds:
  assumes "choose_gemm_tile_sizes_with_override override nl dim budget = (point_tile, leader_tile)"
  shows "256 \<le> point_tile" "point_tile \<le> 8192" "1 \<le> leader_tile" "leader_tile \<le> 512" "leader_tile \<le> max nl 1"
  using assms within_bounds(1,2) [of 256 8192]
  by (auto simp: choose_gemm_tile_sizes_with_override_def choose_gemm_tile_sizes_for_budget_def Let_def min.coboundedI1 min.coboundedI2
      split: option.splits prod.splits if_splits)

lemma max_div_times: "max a (t div b) * b \<le> max t (a * b :: nat)"
proof (cases "t div b \<le> a")
  case True
  then have "max a (t div b) = a" by (rule max_absorb1)
  then show ?thesis by simp
next
  case False
  then have "max a (t div b) = t div b" by (intro max_absorb2) simp
  then show ?thesis using div_times_less_eq_dividend [of t b] by (simp add: le_max_iff_disj)
qed

lemma gemm_tile_memory:
  assumes "choose_gemm_tile_sizes_for_budget nl dim budget = (point_tile, leader_tile)"
  shows "point_tile * bytes_per_point dim leader_tile \<le> max (target_bytes budget) (256 * bytes_per_point dim leader_tile)"
proof -
  let ?bpp = "bytes_per_point dim leader_tile"
  have "point_tile \<le> max 256 (target_bytes budget div ?bpp)" if "?bpp \<noteq> 0"
    using assms that within_bounds(3) [of "target_bytes budget div ?bpp" 256 8192]
    by (auto simp: choose_gemm_tile_sizes_for_budget_def Let_def)
  then have "point_tile * ?bpp \<le> max 256 (target_bytes budget div ?bpp) * ?bpp" by (cases "?bpp = 0") simp_all
  also have "\<dots> \<le> max (target_bytes budget) (256 * ?bpp)" by (rule max_div_times)
  finally show ?thesis .
qed

lemma block_points_ok:
  assumes "256 \<le> point_tile"
  shows "\<exists>k. choose_compute_block_points_for_batch point_tile n workers = Inr k \<and> 256 \<le> k \<and> k \<le> point_tile"
  using assms by (auto simp: choose_compute_block_points_for_batch_def Let_def clamp_def)

lemma div_ceil_leI:
  assumes "0 < b" "a \<le> c * b"
  shows "div_ceil a b \<le> c"
proof (rule ccontr)
  assume "\<not> div_ceil a b \<le> c"
  then have "Suc c * b \<le> div_ceil a b * b" by (intro mult_le_mono1) simp
  then show False using div_ceil_mult_less [OF assms(1), of a] assms(2) by simp
qed

text \<open>A batch is cut into at most one block per worker, unless the point tile is too small for that.\<close>

lemma block_count:
  assumes "choose_compute_block_points_for_batch point_tile n workers = Inr k" "256 \<le> point_tile" "0 < n"
  shows "div_ceil n k \<le> max (max workers 1) (div_ceil n point_tile)"
proof -
  let ?tb = "min (max workers 1) (max (div_ceil n 256) 1)"
  have k: "k = max 256 (min point_tile (div_ceil n ?tb))"
    using assms by (auto simp: choose_compute_block_points_for_batch_def Let_def clamp_def split: if_splits)
  then have "256 \<le> k" by (simp only: max.cobounded1)
  then have "0 < k" by linarith
  have "n \<le> max (max workers 1) (div_ceil n point_tile) * k"
  proof (cases "div_ceil n ?tb \<le> point_tile")
    case True
    have "0 < ?tb" unfolding min_less_iff_conj less_max_iff_disj by simp
    then have "n \<le> div_ceil n ?tb * ?tb" by (rule div_ceil_mult_ge)
    also have "\<dots> \<le> k * max (max workers 1) (div_ceil n point_tile)"
      using True by (intro mult_le_mono) (auto simp: k)
    finally show ?thesis by (simp add: mult.commute)
  next
    case False
    have "n \<le> div_ceil n point_tile * point_tile" using assms(2) by (intro div_ceil_mult_ge) simp
    also have "\<dots> \<le> max (max workers 1) (div_ceil n point_tile) * k"
      using False assms(2) by (intro mult_le_mono) (auto simp: k)
    finally show ?thesis .
  qed
  then show ?thesis by (rule div_ceil_leI [OF \<open>0 < k\<close>])
qed

lemma batch_points_bounds:
  assumes "0 < dim" "dim * 4 \<le> usize_max"
  shows "point_tile \<le> choose_prefetch_batch_points_for_budget point_tile dim workers budget"
    "choose_prefetch_batch_points_for_budget point_tile dim workers budget * (4 * dim) \<le> max (1024 * 1024 * 1024) (point_tile * (4 * dim))"
proof -
  define target where "target = within (case budget of None \<Rightarrow> 64 * 1024 * 1024
      | Some budget \<Rightarrow> if 0 < budget then within (budget div 32) (8 * 1024 * 1024) (1024 * 1024 * 1024) else 64 * 1024 * 1024)
    (8 * 1024 * 1024) (1024 * 1024 * 1024)"
  have t: "target \<le> 1024 * 1024 * 1024" unfolding target_def by (rule within_bounds) simp
  have row: "max (sat_mul dim 4) 1 = 4 * dim" using assms by simp
  let ?b = "choose_prefetch_batch_points_for_budget point_tile dim workers budget"
  have b: "?b = max (min (max (sat_mul point_tile (max workers 1)) point_tile) (max (target div (4 * dim)) point_tile)) point_tile"
    unfolding choose_prefetch_batch_points_for_budget_def Let_def row target_def ..
  show "point_tile \<le> ?b" unfolding b by simp
  have "?b \<le> max (target div (4 * dim)) point_tile" unfolding b by simp
  then have "?b * (4 * dim) \<le> max (target div (4 * dim)) point_tile * (4 * dim)" by (rule mult_le_mono1)
  also have "\<dots> \<le> max target (point_tile * (4 * dim))" using max_div_times [of point_tile target "4 * dim"] by (simp only: max.commute)
  also have "\<dots> \<le> max (1024 * 1024 * 1024) (point_tile * (4 * dim))" using t by simp
  finally show "?b * (4 * dim) \<le> max (1024 * 1024 * 1024) (point_tile * (4 * dim))" .
qed

lemma queue_depth_bounds:
  "1 \<le> choose_prefetch_queue_depth_for_budget bp dim budget" "choose_prefetch_queue_depth_for_budget bp dim budget \<le> 8"
  "budget = Some m \<Longrightarrow> 1 < choose_prefetch_queue_depth_for_budget bp dim budget \<Longrightarrow>
     choose_prefetch_queue_depth_for_budget bp dim budget * max (sat_mul (sat_mul (max bp 1) (max dim 1)) 4) 1 \<le> m div 4"
proof -
  let ?d = "choose_prefetch_queue_depth_for_budget bp dim budget" and ?bytes = "max (sat_mul (sat_mul (max bp 1) (max dim 1)) 4) 1"
  show "1 \<le> ?d" "?d \<le> 8"
    using within_bounds [of 1 8] by (auto simp: choose_prefetch_queue_depth_for_budget_def Let_def split: option.split)
  assume b: "budget = Some m" "1 < ?d"
  have "?d = (if m = 0 then 1 else within (m div 4 div ?bytes) 1 8)"
    unfolding choose_prefetch_queue_depth_for_budget_def Let_def b(1) by (simp only: option.case)
  then have d: "?d = within (m div 4 div ?bytes) 1 8" using b(2) by (cases "m = 0") (simp_all only: if_True if_False less_irrefl simp_thms)
  then have "1 < within (m div 4 div ?bytes) 1 8" using b(2) by (simp only:)
  then have "?d \<le> m div 4 div ?bytes" unfolding d using within_bounds(3) [of "m div 4 div ?bytes" 1 8] by linarith
  then have "?d * ?bytes \<le> m div 4 div ?bytes * ?bytes" by (rule mult_le_mono1)
  also have "\<dots> \<le> m div 4" by (rule div_times_less_eq_dividend)
  finally show "?d * ?bytes \<le> m div 4" .
qed

text \<open>C30: The sizes of the matrix assignment: point tiles of 256 to 8192 points and leader tiles of at most
  512 leaders whose buffers stay within the target unless 256 points alone exceed it; a prefetched batch holds
  at least a tile and at most one GiB of rows (or a tile); the clamp that cuts a batch into blocks never panics and gives
  at most one block per worker unless the tile is too small; the queue holds one to eight batches, within a
  quarter of the budget when more than one.\<close>

theorem gemm_size_bounds:
  fixes workers bp :: usize
  assumes "choose_gemm_tile_sizes_with_override override nl dim budget = (point_tile, leader_tile)"
    and "0 < dim" "dim * 4 \<le> usize_max" "0 < n"
  defines "batch \<equiv> choose_prefetch_batch_points_for_budget point_tile dim workers budget"
    and "depth \<equiv> choose_prefetch_queue_depth_for_budget bp dim budget"
  shows "256 \<le> point_tile \<and> point_tile \<le> 8192 \<and> 1 \<le> leader_tile \<and> leader_tile \<le> 512 \<and>
    (override = None \<longrightarrow> point_tile * bytes_per_point dim leader_tile \<le> max (target_bytes budget) (256 * bytes_per_point dim leader_tile)) \<and>
    point_tile \<le> batch \<and> batch * (4 * dim) \<le> max (1024 * 1024 * 1024) (point_tile * (4 * dim)) \<and>
    (\<exists>k. choose_compute_block_points_for_batch point_tile n workers = Inr k \<and> 256 \<le> k \<and> k \<le> point_tile \<and>
       div_ceil n k \<le> max (max workers 1) (div_ceil n point_tile)) \<and>
    1 \<le> depth \<and> depth \<le> 8 \<and>
    (\<forall>m. budget = Some m \<longrightarrow> 1 < depth \<longrightarrow> depth * max (sat_mul (sat_mul (max bp 1) (max dim 1)) 4) 1 \<le> m div 4)"
proof -
  note tile = gemm_tile_bounds [OF assms(1)]
  obtain k where "choose_compute_block_points_for_batch point_tile n workers = Inr k" "256 \<le> k" "k \<le> point_tile"
    using block_points_ok [OF tile(1)] by blast
  moreover have "override = None \<longrightarrow> point_tile * bytes_per_point dim leader_tile \<le> max (target_bytes budget) (256 * bytes_per_point dim leader_tile)"
    using gemm_tile_memory [of nl dim budget point_tile leader_tile] assms(1) by (auto simp: choose_gemm_tile_sizes_with_override_def)
  ultimately show ?thesis
    using tile block_count [OF _ tile(1) assms(4)] batch_points_bounds [OF assms(2,3)] queue_depth_bounds
    unfolding batch_def depth_def by blast
qed

theorem gemm_size_bounds_witness:
  "choose_gemm_tile_sizes_with_override None 1000 128 (Some (4 * 1024 * 1024 * 1024)) = (5461, 512) \<and> 256 \<le> (5461 :: nat) \<and>
   (\<exists>k. choose_compute_block_points_for_batch 5461 10000 8 = Inr k \<and> 256 \<le> k \<and> k \<le> 5461)"
proof -
  have sizes: "choose_gemm_tile_sizes_with_override None 1000 128 (Some (4 * 1024 * 1024 * 1024)) = (5461, 512)"
    by (simp add: choose_gemm_tile_sizes_with_override_def choose_gemm_tile_sizes_for_budget_def Let_def bytes_per_point_def
        target_bytes_def within_def usize_max_def)
  show ?thesis
    using gemm_size_bounds [OF sizes, of 10000 8 1] sizes by (auto simp: usize_max_def)
qed

section \<open>Tiles compute the scalar assignment\<close>

text \<open>The distance the matrix path uses, as a function of two points; \<open>dot\<close> is an entry of the product.\<close>

definition matrix_distance :: "f32_ops \<Rightarrow> (f32 list \<Rightarrow> f32 list \<Rightarrow> f32) \<Rightarrow> (u32 \<Rightarrow> f32 list) \<Rightarrow> distance" where
  "matrix_distance F dot row p l = Inr (gram_dist F (row_norm F (row p)) (row_norm F (row l)) (dot (row p) (row l)))"

text \<open>What the code relies on of \<open>general_mat_mul\<close>: an entry depends on its two rows only.\<close>

definition entrywise :: "mat_mul \<Rightarrow> (f32 list \<Rightarrow> f32 list \<Rightarrow> f32) \<Rightarrow> bool" where
  "entrywise mm dot \<longleftrightarrow> (\<forall>X L. mm X L = map (\<lambda>x. map (dot x) L) X)"

lemma gram_dist_not_nan: "\<not> f32_is_nan (gram_dist F a b g)"
  by (simp add: gram_dist_def f32_max_zero_def)

lemma matrix_all_numbers: "all_numbers (matrix_distance F dot row) leaders cur"
  by (simp add: all_numbers_def matrix_distance_def gram_dist_not_nan)

lemma push_leaders_append:
  "push_leaders dist p lid (xs @ ys) t = res_bind (push_leaders dist p lid xs t) (push_leaders dist p (lid + length xs) ys)"
proof (induction xs arbitrary: lid t)
  case (Cons x xs)
  show ?case
  proof (cases "dist p x")
    case (Inr d)
    then show ?thesis by (cases "tk_push d lid t") (simp_all add: Cons)
  qed simp
qed simp

lemma topk_row_push:
  "topk_row F (row_norm F (row p)) (map (\<lambda>l. row_norm F (row l)) (pre @ ls @ post)) (length pre) (map (\<lambda>l. dot (row p) (row l)) ls) t =
   push_leaders (matrix_distance F dot row) p (length pre) ls t"
proof (induction ls arbitrary: pre t)
  case (Cons l ls)
  show ?case
    using Cons.IH [of "pre @ [l]"]
    by (cases "tk_push (gram_dist F (row_norm F (row p)) (row_norm F (row l)) (dot (row p) (row l))) (length pre) t")
      (simp_all add: matrix_distance_def nth_append)
qed simp

lemma update_topk_map:
  "\<forall>p \<in> set ps. topk_row F (nrm p) l_norms off (grow p) (f p) = Inr (g p) \<Longrightarrow>
   update_block_topk_from_gram_tile F (map f ps) (map nrm ps) l_norms (map grow ps) off = Inr (map g ps)"
  by (induction ps) auto

lemma update_best_map:
  "\<forall>p \<in> set ps. best_row F (nrm p) l_norms off (grow p) (f p) = Inr (g p) \<Longrightarrow>
   update_block_best_from_gram_tile F (map f ps) (map nrm ps) l_norms (map grow ps) off = Inr (map g ps)"
  by (induction ps) auto

text \<open>Row states that follow the leaders seen so far are carried through all tiles.\<close>

lemma leader_tiles_follow:
  assumes "\<And>pre ls post. leaders = pre @ ls @ post \<Longrightarrow> update (S pre) (mm X (map row ls)) (length pre) = Inr (S (pre @ ls))"
  shows "leaders = pre @ concat tiles @ post \<Longrightarrow>
    leader_tiles update mm X (length pre) (map (map row) tiles) (S pre) = Inr (S (pre @ concat tiles))"
proof (induction tiles arbitrary: pre)
  case (Cons t ts)
  have "update (S pre) (mm X (map row t)) (length pre) = Inr (S (pre @ t))"
    using assms [of pre t "concat ts @ post"] Cons.prems by simp
  then show ?case using Cons.IH [of "pre @ t"] Cons.prems by simp
qed simp

lemma chunks_map: "chunks n (map f xs) = map (map f) (chunks n xs)"
proof (induction n xs rule: chunks.induct)
  case (1 n xs)
  then show ?case by (cases "n = 0 \<or> xs = []") (auto simp: chunks.simps [of n xs] chunks.simps [of n "map f xs"] take_map drop_map)
qed

text \<open>The states: the nearest leader so far, with its distance, and the \<open>StackTopK\<close> so far.\<close>

fun nearer :: "distance \<Rightarrow> u32 \<Rightarrow> nat \<times> u32 \<Rightarrow> f32 \<times> usize \<Rightarrow> f32 \<times> usize" where
  "nearer dist p (lid, l) best =
     (if f32_lt (projr (dist p l)) (fst best) then (projr (dist p l), lid) else best)"

definition best_after :: "distance \<Rightarrow> u32 \<Rightarrow> u32 list \<Rightarrow> f32 \<times> usize" where
  "best_after dist p seen =
     fold (nearer dist p) (enumerate 0 seen) (f32_infinity, 0)"

definition topk_after :: "distance \<Rightarrow> usize \<Rightarrow> u32 \<Rightarrow> u32 list \<Rightarrow> top_k" where
  "topk_after dist fanout p seen = projr (push_leaders dist p 0 seen (tk_new fanout))"

lemma enumerate_snoc: "enumerate k (xs @ [x]) = enumerate k xs @ [(k + length xs, x)]"
  by (simp add: enumerate_append_eq)

lemma best_row_fold:
  "best_row F (row_norm F (row p)) (map (\<lambda>l. row_norm F (row l)) (pre @ ls @ post)) (length pre) (map (\<lambda>l. dot (row p) (row l)) ls)
     (best_after (matrix_distance F dot row) p pre) = Inr (best_after (matrix_distance F dot row) p (pre @ ls))"
proof (induction ls arbitrary: pre)
  case (Cons l ls)
  let ?D = "matrix_distance F dot row"
  have "best_after ?D p (pre @ [l]) = nearer ?D p (length pre, l) (best_after ?D p pre)"
    by (simp add: best_after_def enumerate_snoc)
  then have "best_after ?D p (pre @ [l]) =
      (if f32_lt (gram_dist F (row_norm F (row p)) (row_norm F (row l)) (dot (row p) (row l))) (fst (best_after ?D p pre))
       then (gram_dist F (row_norm F (row p)) (row_norm F (row l)) (dot (row p) (row l)), length pre) else best_after ?D p pre)"
    by (simp add: matrix_distance_def)
  then show ?case using Cons.IH [of "pre @ [l]"] by (simp add: nth_append Let_def)
qed simp

lemma nearest_leader_fold:
  "nearest_leader (matrix_distance F dot row) p lid ls bd bl =
     Inr (snd (fold (nearer (matrix_distance F dot row) p) (enumerate lid ls) (bd, bl)))"
  by (induction ls arbitrary: lid bd bl) (simp_all add: matrix_distance_def Let_def)

lemma topk_after_Inr:
  assumes "0 < fanout"
  shows "push_leaders (matrix_distance F dot row) p 0 seen (tk_new fanout) = Inr (topk_after (matrix_distance F dot row) fanout p seen)"
proof -
  obtain ds where ds: "leader_dists (matrix_distance F dot row) p seen ds"
    using all_numbers_dists [OF matrix_all_numbers, of p "[p]"] by force
  have k: "tk_holds (min fanout 32) [] (tk_new fanout)" by (simp add: tk_holds_def tk_new_def tk_iter_def)
  show ?thesis
    using push_leaders_holds [OF k _ _ ds, of 0] assms by (auto simp: topk_after_def no_nans_def)
qed

lemma block_leaders_ok:
  assumes mm: "entrywise mm dot" and tile: "0 < tile" and f: "0 < fanout"
  shows "block_leaders F mm (map row leaders) tile fanout (map row ps) = Inr (map (ids_of (matrix_distance F dot row) leaders fanout) ps)"
proof -
  let ?D = "matrix_distance F dot row" and ?lns = "map (\<lambda>l. row_norm F (row l)) leaders" and ?xns = "map (\<lambda>p. row_norm F (row p)) ps"
  have gram: "mm (map row ps) (map row ls) = map (\<lambda>p. map (\<lambda>l. dot (row p) (row l)) ls) ps" for ls
    using mm by (simp add: entrywise_def comp_def)
  have views: "chunks tile (map row leaders) = map (map row) (chunks tile leaders)" by (rule chunks_map)
  have all: "leaders = [] @ concat (chunks tile leaders) @ []" using tile by simp
  show ?thesis
  proof (cases "fanout = 1")
    case True
    let ?upd = "\<lambda>bests tile. update_block_best_from_gram_tile F bests ?xns ?lns tile"
    have step: "?upd (map (\<lambda>p. best_after ?D p pre) ps) (mm (map row ps) (map row ls)) (length pre) = Inr (map (\<lambda>p. best_after ?D p (pre @ ls)) ps)"
      if "leaders = pre @ ls @ post" for pre ls post
      unfolding gram that by (rule update_best_map) (simp only: best_row_fold simp_thms ball_triv)
    have "leader_tiles ?upd mm (map row ps) (length ([] :: u32 list)) (map (map row) (chunks tile leaders)) (map (\<lambda>p. best_after ?D p []) ps) =
        Inr (map (\<lambda>p. best_after ?D p ([] @ concat (chunks tile leaders))) ps)"
      by (rule leader_tiles_follow [of leaders ?upd "\<lambda>pre. map (\<lambda>p. best_after ?D p pre) ps" mm "map row ps" row "[]" "chunks tile leaders" "[]"], erule step, rule all)
    then have tiles: "leader_tiles ?upd mm (map row ps) 0 (map (map row) (chunks tile leaders)) (replicate (length ps) (f32_infinity, 0)) =
        Inr (map (\<lambda>p. best_after ?D p leaders) ps)"
      using tile by (simp add: best_after_def map_replicate_const)
    have "[snd (best_after ?D p leaders)] = ids_of ?D leaders fanout p" for p
      using True by (simp add: ids_of_def assign_nearest_def nearest_leader_fold best_after_def)
    then show ?thesis using True tiles by (simp add: block_leaders_def Let_def views comp_def)
  next
    case False
    let ?upd = "\<lambda>topks tile. update_block_topk_from_gram_tile F topks ?xns ?lns tile"
    have step: "?upd (map (\<lambda>p. topk_after ?D fanout p pre) ps) (mm (map row ps) (map row ls)) (length pre) = Inr (map (\<lambda>p. topk_after ?D fanout p (pre @ ls)) ps)"
      if "leaders = pre @ ls @ post" for pre ls post
      unfolding gram that
    proof (rule update_topk_map, rule ballI, unfold topk_row_push)
      fix p
      show "push_leaders ?D p (length pre) ls (topk_after ?D fanout p pre) = Inr (topk_after ?D fanout p (pre @ ls))"
        using push_leaders_append [of ?D p 0 pre ls "tk_new fanout"] by (simp add: topk_after_Inr [OF f])
    qed
    have "leader_tiles ?upd mm (map row ps) (length ([] :: u32 list)) (map (map row) (chunks tile leaders)) (map (\<lambda>p. topk_after ?D fanout p []) ps) =
        Inr (map (\<lambda>p. topk_after ?D fanout p ([] @ concat (chunks tile leaders))) ps)"
      by (rule leader_tiles_follow [of leaders ?upd "\<lambda>pre. map (\<lambda>p. topk_after ?D fanout p pre) ps" mm "map row ps" row "[]" "chunks tile leaders" "[]"], erule step, rule all)
    then have tiles: "leader_tiles ?upd mm (map row ps) 0 (map (map row) (chunks tile leaders)) (replicate (length ps) (tk_new fanout)) =
        Inr (map (\<lambda>p. topk_after ?D fanout p leaders) ps)"
      using tile by (simp add: topk_after_def map_replicate_const)
    have "map snd (tk_iter (topk_after ?D fanout p leaders)) = ids_of ?D leaders fanout p" for p
      using False by (simp add: ids_of_def assign_top_k_def topk_after_Inr [OF f])
    then show ?thesis using False tiles by (simp add: block_leaders_def Let_def views comp_def)
  qed
qed

section \<open>Batches\<close>

lemma take_concat_rows: "\<forall>r \<in> set rows. length r = d \<Longrightarrow> take (k * d) (concat rows) = concat (take k rows)"
proof (induction k arbitrary: rows)
  case (Suc k)
  then show ?case by (cases rows) simp_all
qed simp

lemma drop_concat_rows: "\<forall>r \<in> set rows. length r = d \<Longrightarrow> drop (k * d) (concat rows) = concat (drop k rows)"
proof (induction k arbitrary: rows)
  case (Suc k)
  then show ?case by (cases rows) simp_all
qed simp

lemma chunks_concat_rows:
  "0 < d \<Longrightarrow> \<forall>r \<in> set rows. length r = d \<Longrightarrow> chunks (k * d) (concat rows) = map concat (chunks k rows)"
proof (induction k rows rule: chunks.induct)
  case (1 k rows)
  have ne: "concat rows = [] \<longleftrightarrow> rows = []" using "1.prems" by (cases rows) auto
  show ?case
  proof (cases "k = 0 \<or> rows = []")
    case False
    have "chunks (k * d) (concat (drop k rows)) = map concat (chunks k (drop k rows))"
      using 1 False by (auto dest: in_set_dropD)
    then show ?thesis
      using False ne "1.prems" take_concat_rows [OF "1.prems"(2), of k] drop_concat_rows [OF "1.prems"(2), of k]
      by (simp add: chunks.simps [of "k * d"] chunks.simps [of k rows])
  qed (auto simp: chunks.simps [of "k * d"] chunks.simps [of k rows])
qed

lemma chunks_1: "chunks 1 xs = map (\<lambda>x. [x]) xs"
  by (induction xs) (simp_all add: chunks.simps)

lemma chunks_rows: "0 < d \<Longrightarrow> \<forall>r \<in> set rows. length r = d \<Longrightarrow> chunks d (concat rows) = rows"
  using chunks_concat_rows [of d rows 1] chunks_1 [of rows] by (simp add: comp_def)

lemma batch_blocks_rows:
  assumes "0 < dim" "\<forall>p \<in> set ids. length (row p) = dim"
  shows "batch_blocks dim k ids (concat (map row ids)) = map (\<lambda>b. (b, map row b)) (chunks k ids)"
proof -
  have rows: "\<forall>r \<in> set (map row ids). length r = dim" using assms(2) by simp
  have "chunks (k * dim) (concat (map row ids)) = map (\<lambda>b. concat (map row b)) (chunks k ids)"
    using chunks_concat_rows [OF assms(1) rows, of k] by (simp add: chunks_map comp_def)
  moreover have "chunks dim (concat (map row b)) = map row b" if "b \<in> set (chunks k ids)" for b
  proof -
    have "set b \<subseteq> set ids" using that
    proof (cases "k = 0")
      case False
      then have "set ids = (\<Union>b \<in> set (chunks k ids). set b)" by (metis concat_chunks neq0_conv set_concat)
      then show ?thesis using that by auto
    qed (simp add: chunks.simps)
    then show ?thesis using assms by (intro chunks_rows) auto
  qed
  ultimately have "map (chunks dim) (chunks (k * dim) (concat (map row ids))) = map (map row) (chunks k ids)" by simp
  then show ?thesis by (simp add: batch_blocks_def zip_map2 zip_same_conv_map)
qed

lemma push_block_ok:
  assumes "assigns (\<lambda>p. Inr (ids p)) ids (length cs) cap block"
  shows "push_block block (map ids block) cs = Inr (map (\<lambda>i. cs ! i @ cluster_of ids block i) [0..<length cs])"
proof -
  have "push_block block (map ids block) cs = assign_points (\<lambda>p. Inr (ids p)) block cs" for cs
    by (induction block arbitrary: cs) (simp_all add: res_bind_def split: sum.split)
  then show ?thesis using assign_points_ok [OF assms] by simp
qed

lemma merge_buffers_map:
  "length cs = n \<Longrightarrow> merge_cluster_buffers cs (map f [0..<n]) = Inr (map (\<lambda>i. cs ! i @ f i) [0..<n])"
  by (auto simp: merge_cluster_buffers_def intro!: nth_equalityI)

lemma assigns_subset: "assigns assign ids n cap cur \<Longrightarrow> set block \<subseteq> set cur \<Longrightarrow> assigns assign ids n cap block"
  by (auto simp: assigns_def)

lemma map_nth_upt: "i < n \<Longrightarrow> map f [0..<n] ! i = f i"
  by simp

lemma cluster_of_append [simp]: "cluster_of ids (xs @ ys) i = cluster_of ids xs i @ cluster_of ids ys i"
  by (simp add: cluster_of_def)

lemma cluster_of_Nil [simp]: "cluster_of ids [] i = []"
  by (simp add: cluster_of_def)

lemma gemm_blocks_ok:
  assumes "\<And>b. set b \<subseteq> set cur \<Longrightarrow> leaders_of (map row b) = Inr (map ids b)" "assigns (\<lambda>p. Inr (ids p)) ids n cap cur"
  shows "set (concat bs) \<subseteq> set cur \<Longrightarrow> length cs = n \<Longrightarrow> gemm_blocks leaders_of n (map (\<lambda>b. (b, map row b)) bs) cs =
    Inr (map (\<lambda>i. cs ! i @ cluster_of ids (concat bs) i) [0..<n])"
proof (induction bs arbitrary: cs)
  case Nil
  then show ?case by (auto simp: map_nth)
next
  case (Cons b bs)
  have b: "set b \<subseteq> set cur" and bs: "set (concat bs) \<subseteq> set cur" using Cons.prems(1) by auto
  have a: "assigns (\<lambda>p. Inr (ids p)) ids (length (replicate n [])) cap b" using assigns_subset [OF assms(2) b] by simp
  have "map (\<lambda>i. replicate n [] ! i @ cluster_of ids b i) [0..<n] = map (cluster_of ids b) [0..<n]" by simp
  then have "push_block b (map ids b) (replicate n []) = Inr (map (cluster_of ids b) [0..<n])"
    using push_block_ok [OF a] by simp
  moreover have "merge_cluster_buffers (replicate n []) (map (cluster_of ids b) [0..<n]) = Inr (map (cluster_of ids b) [0..<n])"
    using merge_buffers_map [of "replicate n []" n] by simp
  moreover have "merge_cluster_buffers cs (map (cluster_of ids b) [0..<n]) = Inr (map (\<lambda>i. cs ! i @ cluster_of ids b i) [0..<n])"
    by (rule merge_buffers_map [OF Cons.prems(2)])
  ultimately show ?case using Cons.IH [OF bs, of "map (\<lambda>i. cs ! i @ cluster_of ids b i) [0..<n]"] assms(1) [OF b] by simp
qed

text \<open>The interface to the point store: a read of present ids fills the buffer with their rows.\<close>

locale row_reader =
  fixes gather :: "usize \<Rightarrow> gather" and dim :: nat and present :: "u32 \<Rightarrow> bool" and row :: "u32 \<Rightarrow> f32 list"
  assumes gather_ok: "\<forall>p \<in> set ids. present p \<Longrightarrow> length out = length ids * dim \<Longrightarrow> length ids * dim \<le> usize_max \<Longrightarrow>
      gather tile_rows ids out = Inr (concat (map row ids))"
    and gather_width: "present p \<Longrightarrow> length (row p) = dim"
begin

lemma load_leaders_ok:
  assumes "0 < dim" "\<forall>l \<in> set leaders. present l" "length leaders * dim \<le> usize_max"
  shows "load_leaders (gather tile_rows) dim leaders = Inr (map row leaders)"
  using assms gather_ok [of leaders _ tile_rows] gather_width chunks_rows [of dim "map row leaders"] by (simp add: load_leaders_def)

lemma batch_ok:
  assumes "0 < dim" "\<forall>p \<in> set b. present p" "length b * dim \<le> usize_max"
  shows "gather tile_rows b (replicate (sat_mul (length b) dim) f32_zero) = Inr (concat (map row b))"
    "batch_blocks dim k b (concat (map row b)) = map (\<lambda>b. (b, map row b)) (chunks k b)"
  using assms gather_ok [of b _ tile_rows] gather_width batch_blocks_rows [OF assms(1), of b row k] by simp_all

lemma gemm_batches_ok:
  assumes lo: "\<And>b. set b \<subseteq> set cur \<Longrightarrow> leaders_of (map row b) = Inr (map ids b)" and a: "assigns (\<lambda>p. Inr (ids p)) ids n cap cur"
    and store: "0 < dim" "\<forall>p \<in> set cur. present p" "length cur * dim \<le> usize_max" and tile: "256 \<le> tile"
  shows "set (concat bs) \<subseteq> set cur \<Longrightarrow> \<forall>b \<in> set bs. length b \<le> length cur \<Longrightarrow> length cs = n \<Longrightarrow>
    gemm_batches leaders_of (gather tile_rows) dim n tile workers bs cs = Inr (map (\<lambda>i. cs ! i @ cluster_of ids (concat bs) i) [0..<n])"
proof (induction bs arbitrary: cs)
  case Nil
  then show ?case by (auto simp: map_nth)
next
  case (Cons b bs)
  have b: "set b \<subseteq> set cur" and bs: "set (concat bs) \<subseteq> set cur" using Cons.prems(1) by auto
  have "length b * dim \<le> length cur * dim" using Cons.prems(2) by (intro mult_le_mono1) simp
  then have fit: "length b * dim \<le> usize_max" using store(3) by linarith
  have pres: "\<forall>p \<in> set b. present p" using b store(2) by auto
  obtain k where k: "choose_compute_block_points_for_batch tile (length b) workers = Inr k" "256 \<le> k"
    using block_points_ok [OF tile] by blast
  have cc: "concat (chunks k b) = b" using k(2) by simp
  have "gemm_blocks leaders_of n (map (\<lambda>b. (b, map row b)) (chunks k b)) (replicate n []) =
      Inr (map (\<lambda>i. replicate n [] ! i @ cluster_of ids (concat (chunks k b)) i) [0..<n])"
    by (rule gemm_blocks_ok [OF lo a]) (simp_all add: cc b del: set_concat)
  also have "map (\<lambda>i. replicate n [] ! i @ cluster_of ids (concat (chunks k b)) i) [0..<n] = map (cluster_of ids b) [0..<n]"
    unfolding cc by simp
  finally have "gemm_blocks leaders_of n (map (\<lambda>b. (b, map row b)) (chunks k b)) (replicate n []) = Inr (map (cluster_of ids b) [0..<n])" .
  moreover have "merge_cluster_buffers cs (map (cluster_of ids b) [0..<n]) = Inr (map (\<lambda>i. cs ! i @ cluster_of ids b i) [0..<n])"
    by (rule merge_buffers_map [OF Cons.prems(3)])
  moreover have "gemm_batches leaders_of (gather tile_rows) dim n tile workers bs (map (\<lambda>i. cs ! i @ cluster_of ids b i) [0..<n]) =
      Inr (map (\<lambda>i. map (\<lambda>i. cs ! i @ cluster_of ids b i) [0..<n] ! i @ cluster_of ids (concat bs) i) [0..<n])"
    using Cons.prems(2) bs by (intro Cons.IH) simp_all
  ultimately show ?case
    using k(1) batch_ok [OF store(1) pres fit] by simp
qed

end

lemma chunks_length: "b \<in> set (chunks n xs) \<Longrightarrow> length b \<le> length xs"
proof (induction n xs rule: chunks.induct)
  case (1 n xs)
  then show ?case by (cases "n = 0 \<or> xs = []") (auto simp: chunks.simps [of n xs] dest: le_trans)
qed

lemma pipeline_batch_pos: "0 < pipeline_batch_points dim strict bp"
  by (auto simp: pipeline_batch_points_def Let_def split: option.split)

lemma assigns_pure:
  assumes "all_numbers dist leaders cur" "0 < fanout" "leaders \<noteq> []"
  shows "assigns (\<lambda>p. Inr (ids_of dist leaders fanout p)) (ids_of dist leaders fanout) (length leaders) (min fanout 32) cur"
  using assigns_ids [OF assms] by (simp add: assigns_def)

lemma spool_block_ok:
  assumes a: "assigns (\<lambda>p. Inr (ids p)) ids n cap block" and cap: "cap \<le> fanout" "assign_record_fanout fanout = fanout"
  shows "length rc = n \<Longrightarrow> spool_block fanout (map ids block) rc buf =
    Inr (map (\<lambda>i. rc ! i + length (cluster_of ids block i)) [0..<n], buf @ concat (map (\<lambda>p. assign_record fanout (map word_of_nat (ids p))) block))"
  using a
proof (induction block arbitrary: rc buf)
  case Nil
  then show ?case by (auto simp: map_nth)
next
  case (Cons p block)
  let ?rc = "map (\<lambda>i. if i \<in> set (ids p) then rc ! i + 1 else rc ! i) [0..<n]"
  have p: "count_leaders (ids p) rc = Inr ?rc" "length (ids p) \<le> fanout" and block: "assigns (\<lambda>p. Inr (ids p)) ids n cap block"
    using Cons.prems cap(1) count_leaders_ok [of "ids p" rc] by (auto simp: assigns_def)
  have "length ?rc = n" by simp
  note IH = Cons.IH [OF this block]
  show ?case using IH p cap(2)
    by (auto simp: append_is_write write_assign_record_eq cluster_of_def)
qed

lemma spool_blocks_ok:
  assumes "\<And>b. set b \<subseteq> set cur \<Longrightarrow> leaders_of (map row b) = Inr (map ids b)" "assigns (\<lambda>p. Inr (ids p)) ids n cap cur"
    and cap: "cap \<le> fanout" "assign_record_fanout fanout = fanout"
  shows "set (concat bs) \<subseteq> set cur \<Longrightarrow> length counts = n \<Longrightarrow> spool_blocks leaders_of fanout n (map (\<lambda>b. (b, map row b)) bs) counts spool =
    Inr (map (\<lambda>i. counts ! i + length (cluster_of ids (concat bs) i)) [0..<n],
         spool @ concat (map (\<lambda>p. assign_record fanout (map word_of_nat (ids p))) (concat bs)))"
proof (induction bs arbitrary: counts spool)
  case Nil
  then show ?case by (auto simp: map_nth)
next
  case (Cons b bs)
  have b: "set b \<subseteq> set cur" and bs: "set (concat bs) \<subseteq> set cur" using Cons.prems(1) by auto
  have blk: "spool_block fanout (map ids b) (replicate n 0) [] =
      Inr (map (\<lambda>i. replicate n 0 ! i + length (cluster_of ids b i)) [0..<n], [] @ concat (map (\<lambda>p. assign_record fanout (map word_of_nat (ids p))) b))"
    using assigns_subset [OF assms(2) b] cap by (rule spool_block_ok) simp
  have add: "map2 (+) counts (map (\<lambda>i. replicate n 0 ! i + length (cluster_of ids b i)) [0..<n]) =
      map (\<lambda>i. counts ! i + length (cluster_of ids b i)) [0..<n]"
    using Cons.prems(2) by (auto intro!: nth_equalityI)
  show ?case
    using Cons.IH [OF bs, of "map (\<lambda>i. counts ! i + length (cluster_of ids b i)) [0..<n]"] assms(1) [OF b] blk add by simp
qed

context row_reader
begin

lemma spool_batches_ok:
  assumes lo: "\<And>b. set b \<subseteq> set cur \<Longrightarrow> leaders_of (map row b) = Inr (map ids b)" and a: "assigns (\<lambda>p. Inr (ids p)) ids n cap cur"
    and cap: "cap \<le> fanout" "assign_record_fanout fanout = fanout"
    and store: "0 < dim" "\<forall>p \<in> set cur. present p" "length cur * dim \<le> usize_max" and tile: "256 \<le> tile"
  shows "set (concat bs) \<subseteq> set cur \<Longrightarrow> \<forall>b \<in> set bs. length b \<le> length cur \<Longrightarrow> length counts = n \<Longrightarrow>
    spool_batches leaders_of (gather tile_rows) dim fanout n tile workers bs counts spool =
      Inr (map (\<lambda>i. counts ! i + length (cluster_of ids (concat bs) i)) [0..<n],
           spool @ concat (map (\<lambda>p. assign_record fanout (map word_of_nat (ids p))) (concat bs)))"
proof (induction bs arbitrary: counts spool)
  case Nil
  then show ?case by (auto simp: map_nth)
next
  case (Cons b bs)
  have b: "set b \<subseteq> set cur" and bs: "set (concat bs) \<subseteq> set cur" using Cons.prems(1) by auto
  have "length b * dim \<le> length cur * dim" using Cons.prems(2) by (intro mult_le_mono1) simp
  then have fit: "length b * dim \<le> usize_max" using store(3) by linarith
  have pres: "\<forall>p \<in> set b. present p" using b store(2) by auto
  obtain k where k: "choose_compute_block_points_for_batch tile (length b) workers = Inr k" "256 \<le> k"
    using block_points_ok [OF tile] by blast
  have cc: "concat (chunks k b) = b" using k(2) by simp
  have "spool_blocks leaders_of fanout n (map (\<lambda>b. (b, map row b)) (chunks k b)) counts spool =
      Inr (map (\<lambda>i. counts ! i + length (cluster_of ids (concat (chunks k b)) i)) [0..<n],
           spool @ concat (map (\<lambda>p. assign_record fanout (map word_of_nat (ids p))) (concat (chunks k b))))"
    by (rule spool_blocks_ok [OF lo a cap]) (simp_all add: cc b Cons.prems(3) del: set_concat)
  then have blk: "spool_blocks leaders_of fanout n (map (\<lambda>b. (b, map row b)) (chunks k b)) counts spool =
      Inr (map (\<lambda>i. counts ! i + length (cluster_of ids b i)) [0..<n],
           spool @ concat (map (\<lambda>p. assign_record fanout (map word_of_nat (ids p))) b))" unfolding cc .
  show ?case
    using Cons.IH [OF bs, of "map (\<lambda>i. counts ! i + length (cluster_of ids b i)) [0..<n]"] Cons.prems(2) k(1)
      batch_ok [OF store(1) pres fit] blk by simp
qed

lemma gemm_leaders_of:
  assumes "entrywise mm dot" "0 < fanout" "choose_gemm_tile_sizes_with_override override nl dim budget = (pt, lt)"
  shows "block_leaders F mm (map row leaders) lt fanout (map row b) = Inr (map (ids_of (matrix_distance F dot row) leaders fanout) b)"
  using gemm_tile_bounds [OF assms(3)] by (intro block_leaders_ok assms) simp

lemma gemm_ok:
  assumes mm: "entrywise mm dot" and f: "0 < local_fanout" "leaders \<noteq> []"
    and store: "0 < dim" "\<forall>p \<in> set cur. present p" "\<forall>l \<in> set leaders. present l"
      "length cur * dim \<le> usize_max" "length leaders * dim \<le> usize_max"
  shows "compute_clusters_gemm_budgeted F mm gather env dim cur leaders local_fanout budget =
    Inr (clusters_of (ids_of (matrix_distance F dot row) leaders local_fanout) (length leaders) cur)"
proof -
  let ?ids = "ids_of (matrix_distance F dot row) leaders local_fanout"
  obtain pt lt where sz: "choose_gemm_tile_sizes_with_override (ge_override env) (length leaders) dim budget = (pt, lt)" by fastforce
  let ?bp = "pipeline_batch_points dim (ge_strict_budget env)
    (choose_prefetch_batch_points_for_budget pt dim (max (ge_workers env) 1) budget)"
  have cc: "concat (chunks ?bp cur) = cur" by (rule concat_chunks) (rule pipeline_batch_pos)
  have sub: "set (concat (chunks ?bp cur)) \<subseteq> set cur" unfolding cc ..
  have len: "\<forall>b \<in> set (chunks ?bp cur). length b \<le> length cur" by (blast intro: chunks_length)
  have a: "assigns (\<lambda>p. Inr (?ids p)) ?ids (length leaders) (min local_fanout 32) cur"
    by (rule assigns_pure [OF matrix_all_numbers f])
  have "gemm_batches (block_leaders F mm (map row leaders) lt local_fanout) (gather pt) dim (length leaders) pt (max (ge_workers env) 1)
      (chunks ?bp cur) (replicate (length leaders) []) =
    Inr (map (\<lambda>i. replicate (length leaders) [] ! i @ cluster_of ?ids (concat (chunks ?bp cur)) i) [0..<length leaders])"
    by (rule gemm_batches_ok [OF gemm_leaders_of [OF mm f(1) sz] a store(1,2,4) gemm_tile_bounds(1) [OF sz] sub len length_replicate])
  also have "map (\<lambda>i. replicate (length leaders) [] ! i @ cluster_of ?ids (concat (chunks ?bp cur)) i) [0..<length leaders] =
      clusters_of ?ids (length leaders) cur"
    unfolding cc by (simp add: clusters_of_def)
  finally show ?thesis
    using sz load_leaders_ok [OF store(1,3,5)] by (simp add: compute_clusters_gemm_budgeted_def Let_def)
qed

lemma gemm_spool_ok:
  assumes mm: "entrywise mm dot" and f: "0 < local_fanout" "leaders \<noteq> []" "length raw_counts = length leaders"
    and fo: "fanout = assign_record_fanout (min local_fanout (length leaders))"
    and store: "0 < dim" "\<forall>p \<in> set cur. present p" "\<forall>l \<in> set leaders. present l"
      "length cur * dim \<le> usize_max" "length leaders * dim \<le> usize_max"
  shows "compute_clusters_gemm_to_spool F mm gather env dim budget leaders local_fanout cur raw_counts =
    Inr (map length (clusters_of (ids_of (matrix_distance F dot row) leaders fanout) (length leaders) cur),
         concat (map (\<lambda>p. assign_record fanout (map word_of_nat (ids_of (matrix_distance F dot row) leaders fanout p))) cur))"
proof -
  let ?ids = "ids_of (matrix_distance F dot row) leaders fanout"
  obtain pt lt where sz: "choose_gemm_tile_sizes_with_override (ge_override env) (length leaders) dim budget = (pt, lt)" by fastforce
  let ?bp = "pipeline_batch_points dim (ge_strict_budget env)
    (choose_prefetch_batch_points_for_budget pt dim (choose_spool_prefetch_workers (max (ge_workers env) 1) budget) budget)"
  have cc: "concat (chunks ?bp cur) = cur" by (rule concat_chunks) (rule pipeline_batch_pos)
  have sub: "set (concat (chunks ?bp cur)) \<subseteq> set cur" unfolding cc ..
  have len: "\<forall>b \<in> set (chunks ?bp cur). length b \<le> length cur" by (blast intro: chunks_length)
  have nl: "max (length leaders) 1 = length leaders" using f(2) by (cases leaders) simp_all
  have fo': "0 < fanout" "min fanout 32 \<le> fanout" "assign_record_fanout fanout = fanout" by (auto simp: fo assign_record_fanout_def)
  have a: "assigns (\<lambda>p. Inr (?ids p)) ?ids (length leaders) (min fanout 32) cur"
    by (rule assigns_pure [OF matrix_all_numbers fo'(1) f(2)])
  have "spool_batches (block_leaders F mm (map row leaders) lt fanout) (gather pt) dim fanout (length leaders) pt (max (ge_workers env) 1)
      (chunks ?bp cur) (replicate (length leaders) 0) [] =
    Inr (map (\<lambda>i. replicate (length leaders) 0 ! i + length (cluster_of ?ids (concat (chunks ?bp cur)) i)) [0..<length leaders],
         [] @ concat (map (\<lambda>p. assign_record fanout (map word_of_nat (?ids p))) (concat (chunks ?bp cur))))"
    by (rule spool_batches_ok [OF gemm_leaders_of [OF mm fo'(1) sz] a fo'(2,3) store(1,2,4) gemm_tile_bounds(1) [OF sz] sub len length_replicate])
  also have "map (\<lambda>i. replicate (length leaders) 0 ! i + length (cluster_of ?ids (concat (chunks ?bp cur)) i)) [0..<length leaders] =
      map length (clusters_of ?ids (length leaders) cur)"
    unfolding cc by (simp add: clusters_of_def)
  finally show ?thesis
    using sz load_leaders_ok [OF store(1,3,5)] f(3) cc nl by (simp add: compute_clusters_gemm_to_spool_def Let_def fo [symmetric])
qed

end

section \<open>The point stores as readers\<close>

definition direct_gather ::
  "((planned_row \<Rightarrow> u32) \<Rightarrow> planned_row list \<Rightarrow> planned_row list) \<Rightarrow> (nat \<Rightarrow> nat \<Rightarrow> nat) \<Rightarrow> direct_io_config \<Rightarrow> file_store \<Rightarrow>
   (usize \<Rightarrow> gather_options) \<Rightarrow> usize \<Rightarrow> gather" where
  "direct_gather srt give c st options tile_rows ids out =
     map_sum id fst (direct_read_points_windowed srt give c st ids out (options tile_rows) gather_stats_zero)"

definition mmap_gather ::
  "((planned_row \<Rightarrow> u32) \<Rightarrow> planned_row list \<Rightarrow> planned_row list) \<Rightarrow> file_store \<Rightarrow> (usize \<Rightarrow> gather_options) \<Rightarrow> usize \<Rightarrow> gather" where
  "mmap_gather srt st options tile_rows ids out =
     map_sum id fst (mmap_read_points_windowed srt st ids out (options tile_rows) gather_stats_zero)"

lemma rbc_options_sort [simp]: "go_sort_ids (default_rbc_windowed_options dim pc we ge t)"
  by (simp add: default_rbc_windowed_options_def Let_def)

interpretation direct_rows: row_reader "direct_gather srt give c st (default_rbc_windowed_options (fs_dim st) pc we ge)" "fs_dim st"
  "\<lambda>p. unstable_sort srt \<and> direct_present give c st p" "fs_row st" for srt give c st pc we ge
proof
  show "direct_gather srt give c st (default_rbc_windowed_options (fs_dim st) pc we ge) t ids out = Inr (concat (map (fs_row st) ids))"
    if "\<forall>p \<in> set ids. unstable_sort srt \<and> direct_present give c st p" "length out = length ids * fs_dim st" "length ids * fs_dim st \<le> usize_max" for ids out t
  proof (cases "ids = []")
    case False
    then have "unstable_sort srt" "fs_ok st" "gives give" "dc_alignment c \<le> 2 ^ 63" "\<forall>p \<in> set ids. unat p < fs_num_points st"
      using that(1) by (auto simp: direct_present_def fs_present_def neq_Nil_conv)
    then show ?thesis
      using windowed_rows [of st give c srt "default_rbc_windowed_options (fs_dim st) pc we ge t" ids out gather_stats_zero] that(2,3)
      by (auto simp: direct_gather_def)
  qed (use that(2) in \<open>simp add: direct_gather_def direct_read_points_windowed_def read_points_windowed_def\<close>)
  show "length (fs_row st p) = fs_dim st" if "unstable_sort srt \<and> direct_present give c st p" for p
    using that by (auto simp: direct_present_def fs_row_width)
qed

interpretation mmap_rows: row_reader "mmap_gather srt st (default_rbc_windowed_options (fs_dim st) pc we ge)" "fs_dim st"
  "\<lambda>p. unstable_sort srt \<and> fs_present st p" "fs_row st" for srt st pc we ge
proof
  show "mmap_gather srt st (default_rbc_windowed_options (fs_dim st) pc we ge) t ids out = Inr (concat (map (fs_row st) ids))"
    if "\<forall>p \<in> set ids. unstable_sort srt \<and> fs_present st p" "length out = length ids * fs_dim st" "length ids * fs_dim st \<le> usize_max" for ids out t
  proof (cases "ids = []")
    case False
    then have "unstable_sort srt" "fs_ok st" "\<forall>p \<in> set ids. unat p < fs_num_points st"
      using that(1) by (auto simp: fs_present_def neq_Nil_conv)
    moreover have "gives (\<lambda>off n. n)" by (simp add: gives_def)
    ultimately show ?thesis
      using windowed_rows [of st "\<lambda>off n. n" "\<lparr>dc_enabled = False, dc_alignment = 512\<rparr>" srt
          "default_rbc_windowed_options (fs_dim st) pc we ge t" ids out gather_stats_zero] that(2,3)
      by (auto simp: mmap_gather_def)
  qed (use that(2) in \<open>simp add: mmap_gather_def mmap_read_points_windowed_def\<close>)
  show "length (fs_row st p) = fs_dim st" if "unstable_sort srt \<and> fs_present st p" for p
    using that by (auto simp: fs_row_width)
qed

interpretation resident_rows: row_reader "\<lambda>tile_rows. res_read_points_into st" "ss_dim st" "res_present st" "table_row st" for st
proof
  show "res_read_points_into st ids out = Inr (concat (map (table_row st) ids))"
    if "\<forall>p \<in> set ids. res_present st p" "length out = length ids * ss_dim st" "length ids * ss_dim st \<le> usize_max" for ids out
  proof (cases "ids = []")
    case False
    then have ok: "subset_ok st" "consistent st" "set ids \<subseteq> set (ss_ids st)" using that(1) by (auto simp: res_present_def neq_Nil_conv)
    then show ?thesis using subset_read_rows_ok [OF ok(1,2) that(2,3)] by (simp add: res_read_points_into_def)
  qed (use that(2) in \<open>simp add: res_read_points_into_def subset_read_rows_def\<close>)
  show "length (table_row st p) = ss_dim st" if "res_present st p" for p
    using that by (rule resident.row_width)
qed

section \<open>The matrix assignment is the scalar assignment\<close>

lemma gemm_is_scalar:
  assumes "0 < local_fanout" "leaders \<noteq> []"
  shows "scalar_clusters (matrix_distance F dot row) leaders (length leaders) local_fanout cur =
    Inr (clusters_of (ids_of (matrix_distance F dot row) leaders local_fanout) (length leaders) cur)"
  unfolding scalar_clusters_def using assms
  by (intro clusters_ok [OF assigns_ids [OF matrix_all_numbers assms]]) (simp add: neq_Nil_conv)

lemma gemm_spool_is_scalar:
  assumes "leaders \<noteq> []" and fo: "fanout = assign_record_fanout (min local_fanout (length leaders))"
  shows "compute_clusters_scalar_to_spool (matrix_distance F dot row) cur leaders local_fanout (replicate (length leaders) 0) [] =
    Inr (map length (clusters_of (ids_of (matrix_distance F dot row) leaders fanout) (length leaders) cur),
         concat (map (\<lambda>p. assign_record fanout (map word_of_nat (ids_of (matrix_distance F dot row) leaders fanout p))) cur))"
proof -
  have f: "0 < fanout" "assign_record_fanout fanout = fanout" "min fanout 32 = fanout" by (auto simp: fo assign_record_fanout_def)
  have nl: "max (length leaders) 1 = length leaders" using assms(1) by (cases leaders) simp_all
  have a: "assigns (if fanout = 1 then assign_nearest (matrix_distance F dot row) leaders else assign_top_k (matrix_distance F dot row) leaders fanout)
      (ids_of (matrix_distance F dot row) leaders fanout) (length leaders) fanout cur"
    using assigns_ids [OF matrix_all_numbers f(1) assms(1), of F dot row cur] f(3) by simp
  show ?thesis
    using raw_counts_ok [OF a f(2)] unfolding compute_clusters_scalar_to_spool_def Let_def nl fo [symmetric] .
qed



definition demo_f32 :: f32_ops where
  "demo_f32 = \<lparr>fo_sub = \<lambda>a b. a - b, fo_mul = \<lambda>a b. a * b, fo_add = \<lambda>a b. a + b, fo_sum0 = 0\<rparr>"

definition demo_dot :: "f32 list \<Rightarrow> f32 list \<Rightarrow> f32" where
  "demo_dot a b = sum_list (map (\<lambda>(x, y). x * y) (zip a b))"



end
