(* ===== verification/ChildRuns.thy ===== *)
theory ChildRuns
  imports SpillFile Assign
begin

text \<open>
  Child runs of the partition on disk, \<^verbatim>\<open>ForgeANN/src/forgeann/rbc_partition/child_run_io.rs\<close>: a run
  store appends lists of points, each behind its length, to one file per depth, buffered or through
  direct I/O, and reads them back one by one or in coalesced batches.
\<close>

section \<open>The run store\<close>

record run_extent =
  re_byte_offset :: nat
  re_len :: usize

record child_run =
  cr_extents :: "run_extent list"
  cr_len :: usize
  cr_seed :: u64

datatype run_appender = AppendBuffered | AppendDirect nat

text \<open>The directories are the strings that \<open>join\<close> puts in front of a file name.\<close>

record run_store =
  rs_base_dir :: path
  rs_vector_dir :: path
  rs_io_cfg :: direct_io_config
  rs_writers :: "(usize \<times> run_appender) list"
  rs_files :: files

definition RUN_EXTENT_HEADER_BYTES :: usize where
  "RUN_EXTENT_HEADER_BYTES = 8"

definition rs_new_with_vector_dir :: "path \<Rightarrow> path \<Rightarrow> direct_io_config \<Rightarrow> files \<Rightarrow> run_store" where
  "rs_new_with_vector_dir base_dir vector_dir io_cfg fs =
     \<lparr>rs_base_dir = base_dir, rs_vector_dir = vector_dir, rs_io_cfg = io_cfg, rs_writers = [], rs_files = fs\<rparr>"

definition rs_new :: "path \<Rightarrow> direct_io_config \<Rightarrow> files \<Rightarrow> run_store" where
  "rs_new base_dir io_cfg fs = rs_new_with_vector_dir base_dir base_dir io_cfg fs"

definition runs_path :: "path \<Rightarrow> usize \<Rightarrow> path" where
  "runs_path base_dir depth = base_dir @ ''partition_d'' @ zero_pad 2 (dec depth) @ ''_runs.bin''"

definition vector_path :: "run_store \<Rightarrow> usize \<Rightarrow> usize \<Rightarrow> path" where
  "vector_path st depth ordinal =
     rs_vector_dir st @ ''partition_d'' @ zero_pad 2 (dec depth) @ ''_vectors_'' @ zero_pad 8 (dec ordinal) @ ''.bin''"

definition run_bytes :: "u32 list \<Rightarrow> u8 list" where
  "run_bytes points = le64 (word_of_nat (length points)) @ le32s points"

text \<open>\<open>self.writers.entry(depth).or_insert_with(..)\<close>: opening the file creates it.\<close>

definition appender_for :: "usize \<Rightarrow> run_store \<Rightarrow> run_appender \<times> files" where
  "appender_for depth st =
     (case map_of (rs_writers st) depth of
        Some w \<Rightarrow> (w, rs_files st)
      | None \<Rightarrow>
          let path = runs_path (rs_base_dir st) depth; f = file_at (rs_files st) path
          in (if dc_enabled (rs_io_cfg st) then AppendDirect (length f) else AppendBuffered, (rs_files st)(path \<mapsto> f)))"

definition append_points :: "os \<Rightarrow> usize \<Rightarrow> u32 list \<Rightarrow> run_store \<Rightarrow> (run_extent \<times> run_store) result" where
  "append_points sys depth points st =
     (let path = runs_path (rs_base_dir st) depth;
          (writer, fs) = appender_for depth st;
          f = file_at fs path;
          put = (\<lambda>w f'. st\<lparr>rs_writers := (depth, w) # filter (\<lambda>e. fst e \<noteq> depth) (rs_writers st), rs_files := fs(path \<mapsto> f')\<rparr>)
      in case writer of
           AppendBuffered \<Rightarrow>
             Inr (\<lparr>re_byte_offset = length f, re_len = length points\<rparr>, put AppendBuffered (f @ run_bytes points))
         | AppendDirect offset \<Rightarrow>
             res_bind (direct_write_all_at (os_give sys) (os_accept sys) (rs_io_cfg st) f (run_bytes points) offset)
               (\<lambda>f'. Inr (\<lparr>re_byte_offset = offset, re_len = length points\<rparr>,
                          put (AppendDirect (offset + length (run_bytes points))) f')))"

definition rs_finalize_one :: "path \<Rightarrow> usize \<times> run_appender \<Rightarrow> files \<Rightarrow> files" where
  "rs_finalize_one base_dir entry fs =
     (case snd entry of
        AppendBuffered \<Rightarrow> fs
      | AppendDirect offset \<Rightarrow>
          fs(runs_path base_dir (fst entry) \<mapsto> set_len offset (file_at fs (runs_path base_dir (fst entry)))))"

definition rs_finalize :: "run_store \<Rightarrow> run_store" where
  "rs_finalize st = st\<lparr>rs_files := fold (rs_finalize_one (rs_base_dir st)) (rs_writers st) (rs_files st)\<rparr>"

section \<open>Reading a run\<close>

definition read_run_points_from_path :: "os \<Rightarrow> files \<Rightarrow> path \<Rightarrow> direct_io_config \<Rightarrow> run_extent \<Rightarrow> u32 list result" where
  "read_run_points_from_path sys fs path io_cfg extent =
     (case fs path of
        None \<Rightarrow> Inl (Err (Io ''No such file or directory''))
      | Some f \<Rightarrow>
          if dc_enabled io_cfg then
            res_bind (direct_read_exact_at (os_give sys) io_cfg f RUN_EXTENT_HEADER_BYTES (re_byte_offset extent)) (\<lambda>header.
            let len = unat (of_le64 header) in
            res_bind (direct_read_exact_at (os_give sys) io_cfg f (len * 4) (re_byte_offset extent + RUN_EXTENT_HEADER_BYTES)) (\<lambda>bytes.
              Inr (map (\<lambda>idx. of_le32 (take 4 (drop (idx * 4) bytes))) [0..<len])))
          else
            res_bind (read_exact RUN_EXTENT_HEADER_BYTES (drop (re_byte_offset extent) f)) (\<lambda>(header, reader).
            res_bind (read_u32s (unat (of_le64 header)) reader) (\<lambda>(points, _). Inr points)))"

definition read_points :: "os \<Rightarrow> usize \<Rightarrow> run_extent \<Rightarrow> run_store \<Rightarrow> u32 list result" where
  "read_points sys depth extent st =
     read_run_points_from_path sys (rs_files st) (runs_path (rs_base_dir st) depth) (rs_io_cfg st) extent"

fun read_chain :: "(run_extent \<Rightarrow> u32 list result) \<Rightarrow> run_extent list \<Rightarrow> u32 list result" where
  "read_chain read [] = Inr []"
| "read_chain read (e # es) =
     res_bind (read e) (\<lambda>chunk. res_bind (read_chain read es) (\<lambda>rest. Inr (chunk @ rest)))"

definition read_child_run_chain :: "os \<Rightarrow> usize \<Rightarrow> run_extent list \<Rightarrow> run_store \<Rightarrow> u32 list result" where
  "read_child_run_chain sys depth extents st = read_chain (\<lambda>e. read_points sys depth e st) extents"

definition read_child_run_chain_from_path ::
  "os \<Rightarrow> files \<Rightarrow> path \<Rightarrow> direct_io_config \<Rightarrow> usize \<Rightarrow> run_extent list \<Rightarrow> u32 list result" where
  "read_child_run_chain_from_path sys fs base_dir io_cfg depth extents =
     read_chain (read_run_points_from_path sys fs (runs_path base_dir depth) io_cfg) extents"

section \<open>Reading many runs at once\<close>

record extent_read =
  er_run_idx :: usize
  er_extent_idx :: usize
  er_extent :: run_extent
  er_start :: nat
  er_end :: nat

record extent_batch_stats =
  bs_logical_extents :: usize
  bs_coalesced_reads :: usize
  bs_logical_bytes :: nat
  bs_physical_bytes :: nat
  bs_header_read_savings :: usize

type_synonym read_sort = "(extent_read \<Rightarrow> nat \<times> nat) \<Rightarrow> extent_read list \<Rightarrow> extent_read list"

definition extent_read_of :: "usize \<Rightarrow> usize \<times> run_extent \<Rightarrow> extent_read" where
  "extent_read_of run_idx = (\<lambda>(extent_idx, extent).
     let logical_bytes = RUN_EXTENT_HEADER_BYTES + sat_mul (re_len extent) 4; start = re_byte_offset extent
     in \<lparr>er_run_idx = run_idx, er_extent_idx = extent_idx, er_extent = extent, er_start = start,
         er_end = sat_add start logical_bytes\<rparr>)"

definition extent_reads :: "child_run list \<Rightarrow> extent_read list" where
  "extent_reads runs =
     concat (map (\<lambda>(run_idx, run). map (extent_read_of run_idx) (enumerate 0 (cr_extents run))) (enumerate 0 runs))"

text \<open>The inner loop: how far the group reaches, and how many more reads join it.\<close>

fun group_run :: "nat \<Rightarrow> extent_read list \<Rightarrow> nat \<times> nat" where
  "group_run group_end [] = (group_end, 0)"
| "group_run group_end (r # rs) =
     (if er_start r \<le> group_end then map_prod id Suc (group_run (max group_end (er_end r)) rs)
      else (group_end, 0))"

definition read_group :: "os \<Rightarrow> files \<Rightarrow> path \<Rightarrow> direct_io_config \<Rightarrow> nat \<Rightarrow> nat \<Rightarrow> u8 list result" where
  "read_group sys fs path io_cfg group_start group_end =
     (case fs path of
        None \<Rightarrow> Inl (Err (Io ''No such file or directory''))
      | Some f \<Rightarrow>
          if dc_enabled io_cfg then direct_read_exact_at (os_give sys) io_cfg f (group_end - group_start) group_start
          else read_loop (Err (Index ''Unexpected EOF while reading'')) (os_give sys) f group_start (group_end - group_start))"

definition decode_read :: "nat \<Rightarrow> u8 list \<Rightarrow> extent_read \<Rightarrow> u32 list result" where
  "decode_read group_start bytes read =
     (let offset = er_start read - group_start; header_end = offset + RUN_EXTENT_HEADER_BYTES in
      if length bytes < header_end then Inl (Panic ''range end index out of range'')
      else
        let len = unat (of_le64 (take RUN_EXTENT_HEADER_BYTES (drop offset bytes)));
            payload_end = header_end + sat_mul len 4
        in if length bytes < payload_end then Inl (Panic ''range end index out of range'')
           else Inr (map (\<lambda>i. of_le32 (take 4 (drop (header_end + 4 * i) bytes))) [0..<(payload_end - header_end) div 4]))"

fun apply_reads :: "nat \<Rightarrow> u8 list \<Rightarrow> extent_read list \<Rightarrow> u32 list list \<Rightarrow> u32 list list result" where
  "apply_reads group_start bytes [] output = Inr output"
| "apply_reads group_start bytes (r # rs) output =
     res_bind (decode_read group_start bytes r) (\<lambda>payload.
       if er_run_idx r < length output
       then apply_reads group_start bytes rs (output[er_run_idx r := output ! er_run_idx r @ payload])
       else Inl index_panic)"

function (sequential) read_groups ::
  "read_sort \<Rightarrow> os \<Rightarrow> files \<Rightarrow> path \<Rightarrow> direct_io_config \<Rightarrow> extent_read list \<Rightarrow> u32 list list \<Rightarrow> extent_batch_stats \<Rightarrow>
   (u32 list list \<times> extent_batch_stats) result" where
  "read_groups srt sys fs path io_cfg [] output stats = Inr (output, stats)"
| "read_groups srt sys fs path io_cfg (r # rs) output stats =
     (let group_start = er_start r; (group_end, n) = group_run (er_end r) rs in
      res_bind (read_group sys fs path io_cfg group_start group_end) (\<lambda>bytes.
      let stats = stats\<lparr>bs_coalesced_reads := bs_coalesced_reads stats + 1,
                        bs_physical_bytes := sat_add (bs_physical_bytes stats) (group_end - group_start)\<rparr>;
          group_reads = srt (\<lambda>read. (er_run_idx read, er_extent_idx read)) (r # take n rs)
      in res_bind (apply_reads group_start bytes group_reads output) (\<lambda>output.
           read_groups srt sys fs path io_cfg (drop n rs) output stats)))"
  by pat_completeness auto
termination
  by (relation "measure (\<lambda>(srt, sys, fs, path, io_cfg, reads, output, stats). length reads)") auto

definition read_child_runs_batched_from_path ::
  "read_sort \<Rightarrow> os \<Rightarrow> files \<Rightarrow> path \<Rightarrow> direct_io_config \<Rightarrow> usize \<Rightarrow> child_run list \<Rightarrow> (u32 list list \<times> extent_batch_stats) result" where
  "read_child_runs_batched_from_path srt sys fs base_dir io_cfg depth runs =
     (let path = runs_path base_dir depth;
          reads = srt (\<lambda>read. (er_start read, er_end read)) (extent_reads runs);
          stats = \<lparr>bs_logical_extents = length reads, bs_coalesced_reads = 0,
                   bs_logical_bytes = (\<Sum>read\<leftarrow>reads. er_end read - er_start read), bs_physical_bytes = 0,
                   bs_header_read_savings = 0\<rparr>
      in res_bind (read_groups srt sys fs path io_cfg reads (replicate (length runs) []) stats) (\<lambda>(output, stats).
           Inr (output, stats\<lparr>bs_header_read_savings := bs_logical_extents stats - bs_coalesced_reads stats\<rparr>)))"

section \<open>The store as one append-only log per depth\<close>

definition runs_file :: "run_store \<Rightarrow> usize \<Rightarrow> u8 list" where
  "runs_file st depth = file_at (rs_files st) (runs_path (rs_base_dir st) depth)"

text \<open>The log: behind the offset of a direct appender the file holds only alignment padding.\<close>

definition run_log :: "run_store \<Rightarrow> usize \<Rightarrow> u8 list" where
  "run_log st depth =
     (case map_of (rs_writers st) depth of
        Some (AppendDirect offset) \<Rightarrow> take offset (runs_file st depth)
      | _ \<Rightarrow> runs_file st depth)"

definition appender_ok :: "run_store \<Rightarrow> usize \<times> run_appender \<Rightarrow> bool" where
  "appender_ok st = (\<lambda>(depth, w).
     rs_files st (runs_path (rs_base_dir st) depth) \<noteq> None \<and>
     (case w of AppendBuffered \<Rightarrow> \<not> dc_enabled (rs_io_cfg st)
      | AppendDirect offset \<Rightarrow> dc_enabled (rs_io_cfg st) \<and> offset \<le> length (runs_file st depth)))"

definition run_inv :: "run_store \<Rightarrow> bool" where
  "run_inv st \<longleftrightarrow> dc_alignment (rs_io_cfg st) \<le> 2 ^ 63 \<and> distinct (map fst (rs_writers st)) \<and>
     (\<forall>e \<in> set (rs_writers st). appender_ok st e)"

lemma runs_path_eq [simp]: "runs_path base a = runs_path base b \<longleftrightarrow> a = b"
proof
  assume "runs_path base a = runs_path base b"
  then have "zero_pad 2 (dec a) @ CHR ''_'' # ''runs.bin'' = zero_pad 2 (dec b) @ CHR ''_'' # ''runs.bin''"
    by (simp add: runs_path_def)
  then show "a = b" by (rule zero_pad_inj(1)) (simp add: digit_def)
qed simp

lemma length_run_bytes [simp]: "length (run_bytes points) = 8 + 4 * length points"
  by (simp add: run_bytes_def)

lemma run_inv_map_of: "run_inv st \<Longrightarrow> map_of (rs_writers st) depth = Some w \<Longrightarrow> appender_ok st (depth, w)"
  by (auto simp: run_inv_def dest: map_of_SomeD)

lemma run_inv_new:
  "dc_alignment cfg \<le> 2 ^ 63 \<Longrightarrow> run_inv (rs_new_with_vector_dir base vdir cfg fs)"
  "run_log (rs_new_with_vector_dir base vdir cfg fs) depth = file_at fs (runs_path base depth)"
  by (simp_all add: run_inv_def rs_new_with_vector_dir_def run_log_def runs_file_def)

text \<open>One append, whatever the mode: the run goes to the end of its log, the other logs stay.\<close>

definition appended :: "usize \<Rightarrow> u32 list \<Rightarrow> run_store \<Rightarrow> run_extent \<Rightarrow> run_store \<Rightarrow> bool" where
  "appended depth points st e st' \<longleftrightarrow>
     run_inv st' \<and> e = \<lparr>re_byte_offset = length (run_log st depth), re_len = length points\<rparr> \<and>
     (\<forall>d. run_log st' d = run_log st d @ (if d = depth then run_bytes points else [])) \<and>
     map_of (rs_writers st') depth \<noteq> None \<and> (\<forall>d. map_of (rs_writers st) d \<noteq> None \<longrightarrow> map_of (rs_writers st') d \<noteq> None) \<and>
     rs_base_dir st' = rs_base_dir st \<and> rs_io_cfg st' = rs_io_cfg st"

lemma map_of_filter_key: "map_of (filter (\<lambda>e. fst e \<noteq> k) ws) d = (if d = k then None else map_of ws d)"
  by (induction ws) auto

lemma distinct_filter_key: "distinct (map fst ws) \<Longrightarrow> distinct (k # map fst (filter (\<lambda>e. fst e \<noteq> k) ws))"
  by (induction ws) auto

lemma run_log_put:
  assumes inv: "run_inv st" and f: "fs = (rs_files st)(path \<mapsto> f)"
    and path: "path = runs_path (rs_base_dir st) depth"
    and w: "case w of AppendBuffered \<Rightarrow> \<not> dc_enabled (rs_io_cfg st) \<and> f = run_log st depth @ run_bytes points
            | AppendDirect offset \<Rightarrow> dc_enabled (rs_io_cfg st) \<and> offset \<le> length f \<and> take offset f = run_log st depth @ run_bytes points"
  defines "st' \<equiv> st\<lparr>rs_writers := (depth, w) # filter (\<lambda>e. fst e \<noteq> depth) (rs_writers st), rs_files := fs\<rparr>"
  shows "appended depth points st \<lparr>re_byte_offset = length (run_log st depth), re_len = length points\<rparr> st'"
proof -
  have fil: "runs_file st' d = (if d = depth then f else runs_file st d)" for d
    by (simp add: st'_def runs_file_def f path)
  have log: "run_log st' d = run_log st d @ (if d = depth then run_bytes points else [])" for d
  proof -
    have ws: "map_of (rs_writers st') d = (if d = depth then Some w else map_of (rs_writers st) d)"
      by (simp add: st'_def map_of_filter_key)
    show ?thesis
    proof (cases "d = depth")
      case True
      then show ?thesis using w ws fil [of depth] unfolding run_log_def [of st' d] by (cases w) auto
    next
      case False
      then show ?thesis using ws fil [of d] unfolding run_log_def [of _ d] by (simp split: option.split run_appender.split)
    qed
  qed
  have ok: "appender_ok st' e" if "e \<in> set (rs_writers st')" for e
  proof (cases "fst e = depth")
    case True
    then have "e = (depth, w)" using that by (cases e) (auto simp: st'_def)
    then show ?thesis using w fil [of depth] by (auto simp: appender_ok_def st'_def f path split: run_appender.splits)
  next
    case False
    then have "e \<in> set (rs_writers st)" using that by (auto simp: st'_def)
    then have "appender_ok st e" using inv by (simp add: run_inv_def)
    then show ?thesis using False fil [of "fst e"]
      by (cases e) (auto simp: appender_ok_def st'_def f path split: run_appender.splits)
  qed
  have "run_inv st'"
    using inv ok distinct_filter_key [of "rs_writers st" depth] by (simp add: run_inv_def) (simp add: st'_def)
  with log show ?thesis by (simp add: appended_def st'_def map_of_filter_key)
qed

lemma append_points_ok:
  assumes sys: "os_ok sys" and inv: "run_inv st" and room: "length (run_log st depth) + length (run_bytes points) \<le> usize_max"
  shows "\<exists>e st'. append_points sys depth points st = Inr (e, st') \<and> appended depth points st e st'"
proof -
  let ?path = "runs_path (rs_base_dir st) depth" and ?f = "runs_file st depth"
  obtain w fs where w: "appender_for depth st = (w, fs)" by fastforce
  have fs: "fs(?path \<mapsto> g) = (rs_files st)(?path \<mapsto> g)" "file_at fs ?path = ?f" for g
    using w by (auto simp: appender_for_def runs_file_def Let_def split: option.splits)
  have wlog: "case w of AppendBuffered \<Rightarrow> \<not> dc_enabled (rs_io_cfg st) \<and> run_log st depth = ?f
      | AppendDirect off \<Rightarrow> dc_enabled (rs_io_cfg st) \<and> off \<le> length ?f \<and> run_log st depth = take off ?f"
  proof (cases "map_of (rs_writers st) depth")
    case None
    then show ?thesis using w by (auto simp: appender_for_def run_log_def runs_file_def Let_def)
  next
    case (Some v)
    then have "w = v" using w by (simp add: appender_for_def)
    then show ?thesis using Some run_inv_map_of [OF inv Some]
      by (auto simp: appender_ok_def run_log_def split: run_appender.splits)
  qed
  show ?thesis
  proof (cases w)
    case AppendBuffered
    then have "appended depth points st \<lparr>re_byte_offset = length (run_log st depth), re_len = length points\<rparr>
        (st\<lparr>rs_writers := (depth, AppendBuffered) # filter (\<lambda>e. fst e \<noteq> depth) (rs_writers st),
            rs_files := (rs_files st)(?path \<mapsto> ?f @ run_bytes points)\<rparr>)"
      using wlog by (intro run_log_put [OF inv refl refl]) simp
    then show ?thesis using AppendBuffered wlog w fs by (auto simp: append_points_def Let_def)
  next
    case (AppendDirect off)
    then have off: "dc_enabled (rs_io_cfg st)" "off \<le> length ?f" "run_log st depth = take off ?f" using wlog by auto
    have len: "length (run_log st depth) = off" using off by simp
    have al: "dc_alignment (rs_io_cfg st) \<le> 2 ^ 63" using inv by (simp add: run_inv_def)
    have ne: "run_bytes points \<noteq> []" by (metis length_run_bytes add_is_0 list.size(3) zero_neq_numeral)
    obtain k where k: "direct_write_all_at (os_give sys) (os_accept sys) (rs_io_cfg st) ?f (run_bytes points) off =
        Inr (write_at off (run_bytes points) ?f @ replicate k 0)"
      using direct_write_enabled [OF _ _ al off(1) _ ne, of "os_give sys" "os_accept sys" off ?f] sys room len
      by (auto simp: os_ok_def)
    let ?g = "write_at off (run_bytes points) ?f @ replicate k 0"
    have "take (off + length (run_bytes points)) ?g = run_log st depth @ run_bytes points"
      using write_at_take [OF off(2), of "run_bytes points" "replicate k 0"] off(3) by (simp del: take_append)
    moreover have "off + length (run_bytes points) \<le> length ?g" using ne by (simp add: length_write_at)
    ultimately have "appended depth points st \<lparr>re_byte_offset = length (run_log st depth), re_len = length points\<rparr>
        (st\<lparr>rs_writers := (depth, AppendDirect (off + length (run_bytes points))) # filter (\<lambda>e. fst e \<noteq> depth) (rs_writers st),
            rs_files := (rs_files st)(?path \<mapsto> ?g)\<rparr>)"
      using off(1) by (intro run_log_put [OF inv refl refl]) simp
    then show ?thesis using AppendDirect w fs k len by (auto simp: append_points_def Let_def)
  qed
qed

section \<open>Reading back\<close>

text \<open>The bytes of a log at an extent are those of a run.\<close>

definition log_holds :: "u8 list \<Rightarrow> run_extent \<Rightarrow> u32 list \<Rightarrow> bool" where
  "log_holds log e points \<longleftrightarrow>
     re_len e = length points \<and> (\<exists>a b. log = a @ run_bytes points @ b \<and> length a = re_byte_offset e) \<and>
     length log \<le> usize_max"

lemma log_holds_append: "log_holds log e points \<Longrightarrow> length (log @ x) \<le> usize_max \<Longrightarrow> log_holds (log @ x) e points"
  by (force simp: log_holds_def)

lemma log_holds_points: "log_holds log e points \<Longrightarrow> unat (word_of_nat (length points) :: u64) = length points"
  by (auto simp: log_holds_def usize_max_def unsigned_of_nat take_bit_nat_eq_self_iff)

lemma decode_points:
  "map (\<lambda>idx. of_le32 (take 4 (drop (idx * 4) (le32s points @ x)))) [0..<length points] = points"
proof (induction points)
  case (Cons p ps)
  have "[0..<length (p # ps)] = 0 # map Suc [0..<length ps]"
    by (simp add: map_Suc_upt upt_conv_Cons del: upt_Suc)
  then have "map (\<lambda>idx. of_le32 (take 4 (drop (idx * 4) (le32s (p # ps) @ x)))) [0..<length (p # ps)] =
      p # map (\<lambda>idx. of_le32 (take 4 (drop (idx * 4) (le32s ps @ x)))) [0..<length ps]"
    by (simp del: upt_Suc)
  then show ?case using Cons by simp
qed simp

text \<open>A file that starts with the log, as every file of a well-formed store does.\<close>

lemma read_run_ok:
  assumes sys: "os_ok sys" and al: "dc_alignment cfg \<le> 2 ^ 63" and fil: "fs path = Some (log @ pad)"
    and holds: "log_holds log e points"
  shows "read_run_points_from_path sys fs path cfg e = Inr points"
proof -
  obtain a b where log: "log = a @ run_bytes points @ b" "length a = re_byte_offset e"
    using holds by (auto simp: log_holds_def)
  have n: "unat (word_of_nat (length points) :: u64) = length points" by (rule log_holds_points [OF holds])
  have bound: "re_byte_offset e + 8 + length points * 4 \<le> usize_max"
    using holds log by (simp add: log_holds_def)
  show ?thesis
  proof (cases "dc_enabled cfg")
    case False
    have "read_u32s (length points) (le32s points @ b @ pad) = Inr (points, b @ pad)" by (rule read_u32s_append)
    then show ?thesis
      using False fil log n by (simp add: read_run_points_from_path_def RUN_EXTENT_HEADER_BYTES_def run_bytes_def)
  next
    case True
    have gives: "gives (os_give sys)" using sys by (simp add: os_ok_def)
    have h: "direct_read_exact_at (os_give sys) cfg (log @ pad) 8 (re_byte_offset e) = Inr (le64 (word_of_nat (length points)))"
      using direct_read_exact_bytes [OF gives al, of "re_byte_offset e" 8 "log @ pad"] log bound
      by (simp add: run_bytes_def)
    have p: "direct_read_exact_at (os_give sys) cfg (log @ pad) (length points * 4) (re_byte_offset e + 8) = Inr (le32s points)"
      using direct_read_exact_bytes [OF gives al, of "re_byte_offset e + 8" "length points * 4" "log @ pad"] log bound
      by (simp add: run_bytes_def)
    show ?thesis
      using True fil h p n decode_points [of points "[]"]
      by (simp add: read_run_points_from_path_def RUN_EXTENT_HEADER_BYTES_def)
  qed
qed

lemma run_log_file:
  assumes "run_inv st" "map_of (rs_writers st) depth \<noteq> None"
  shows "\<exists>pad. rs_files st (runs_path (rs_base_dir st) depth) = Some (run_log st depth @ pad)"
proof -
  obtain w where w: "map_of (rs_writers st) depth = Some w" using assms(2) by auto
  obtain f where f: "rs_files st (runs_path (rs_base_dir st) depth) = Some f"
    using run_inv_map_of [OF assms(1) w] by (auto simp: appender_ok_def)
  then have "runs_file st depth = f" by (simp add: runs_file_def file_at_def)
  then have "run_log st depth = f \<or> (\<exists>off. run_log st depth = take off f)"
    by (auto simp: run_log_def w split: run_appender.splits)
  then show ?thesis using f by (metis append_Nil2 append_take_drop_id)
qed

lemma read_points_ok:
  assumes "os_ok sys" "run_inv st" "map_of (rs_writers st) depth \<noteq> None" "log_holds (run_log st depth) e points"
  shows "read_points sys depth e st = Inr points"
proof -
  have "dc_alignment (rs_io_cfg st) \<le> 2 ^ 63" using assms(2) by (simp add: run_inv_def)
  then show ?thesis
    using run_log_file [OF assms(2,3)] read_run_ok [OF assms(1) _ _ assms(4)] by (auto simp: read_points_def)
qed

lemma read_chain_ok:
  "list_all2 (\<lambda>e pts. read e = Inr pts) es ptss \<Longrightarrow> read_chain read es = Inr (concat ptss)"
  by (induction rule: list_all2_induct) simp_all

section \<open>Any sequence of appends is read back\<close>

fun append_runs :: "os \<Rightarrow> (usize \<times> u32 list) list \<Rightarrow> run_store \<Rightarrow> (run_extent list \<times> run_store) result" where
  "append_runs sys [] st = Inr ([], st)"
| "append_runs sys ((depth, points) # rs) st =
     res_bind (append_points sys depth points st) (\<lambda>(e, st).
     res_bind (append_runs sys rs st) (\<lambda>(es, st). Inr (e # es, st)))"

definition runs_size :: "(usize \<times> u32 list) list \<Rightarrow> nat" where
  "runs_size rs = (\<Sum>(depth, points)\<leftarrow>rs. 8 + 4 * length points)"

definition run_stored :: "run_store \<Rightarrow> usize \<times> u32 list \<Rightarrow> run_extent \<Rightarrow> bool" where
  "run_stored st = (\<lambda>(depth, points) e.
     map_of (rs_writers st) depth \<noteq> None \<and> log_holds (run_log st depth) e points)"

lemma appended_stored:
  assumes "appended depth points st e st'" "length (run_log st depth) + length (run_bytes points) \<le> usize_max"
  shows "run_stored st' (depth, points) e"
proof -
  have log: "run_log st' depth = run_log st depth @ run_bytes points @ []"
    and e: "e = \<lparr>re_byte_offset = length (run_log st depth), re_len = length points\<rparr>"
    and w: "map_of (rs_writers st') depth \<noteq> None" using assms(1) by (simp_all add: appended_def)
  have "log_holds (run_log st' depth) e points"
    unfolding log_holds_def using log e assms(2)
    by (intro conjI exI [of _ "run_log st depth"] exI [of _ "[]"]) simp_all
  then show ?thesis using w by (simp add: run_stored_def)
qed

lemma append_runs_ok:
  assumes "os_ok sys" "run_inv st" "\<forall>d. length (run_log st d) + runs_size rs \<le> usize_max"
  shows "\<exists>es st'. append_runs sys rs st = Inr (es, st') \<and> run_inv st' \<and> list_all2 (run_stored st') rs es \<and>
    (\<forall>d. \<exists>x. run_log st' d = run_log st d @ x \<and> length (run_log st' d) \<le> usize_max) \<and>
    (\<forall>d. map_of (rs_writers st) d \<noteq> None \<longrightarrow> map_of (rs_writers st') d \<noteq> None)"
  using assms(2,3)
proof (induction rs arbitrary: st)
  case Nil
  then show ?case by (simp add: runs_size_def)
next
  case (Cons r rs)
  obtain depth points where r: "r = (depth, points)" by (cases r)
  have size: "runs_size (r # rs) = length (run_bytes points) + runs_size rs" by (simp add: r runs_size_def)
  have room: "length (run_log st depth) + length (run_bytes points) \<le> usize_max"
    using Cons.prems(2) size by (metis add.assoc add_leD1)
  obtain e st1 where e: "append_points sys depth points st = Inr (e, st1)" "appended depth points st e st1"
    using append_points_ok [OF assms(1) Cons.prems(1) room] by auto
  have inv1: "run_inv st1" and log1: "\<And>d. run_log st1 d = run_log st d @ (if d = depth then run_bytes points else [])"
    using e(2) by (simp_all add: appended_def)
  have "length (run_log st1 d) + runs_size rs \<le> usize_max" for d
    using size spec [OF Cons.prems(2), of d] by (cases "d = depth") (simp_all add: log1)
  from Cons.IH [OF inv1 allI [OF this]] obtain es st' where
    st': "append_runs sys rs st1 = Inr (es, st')" "run_inv st'" "list_all2 (run_stored st') rs es"
      "\<And>d. \<exists>x. run_log st' d = run_log st1 d @ x \<and> length (run_log st' d) \<le> usize_max"
      "\<And>d. map_of (rs_writers st1) d \<noteq> None \<Longrightarrow> map_of (rs_writers st') d \<noteq> None" by blast
  have stored: "run_stored st1 (depth, points) e" by (rule appended_stored [OF e(2) room])
  obtain x where x: "run_log st' depth = run_log st1 depth @ x" "length (run_log st' depth) \<le> usize_max" using st'(4) by blast
  have "log_holds (run_log st1 depth @ x) e points"
    using stored x log_holds_append [of "run_log st1 depth" e points x] by (simp add: run_stored_def)
  then have "run_stored st' r e" using stored st'(5) x(1) by (simp add: run_stored_def r)
  moreover have "\<exists>x. run_log st' d = run_log st d @ x \<and> length (run_log st' d) \<le> usize_max" for d
    using st'(4) [of d] log1 [of d] by auto
  moreover have "map_of (rs_writers st) d \<noteq> None \<Longrightarrow> map_of (rs_writers st') d \<noteq> None" for d
    using st'(5) e(2) by (auto simp: appended_def)
  ultimately show ?case using e(1) st'(1-3) by (simp add: r)
qed

text \<open>Finalizing cuts the padding off; the logs stay as they are.\<close>

lemma finalize_step:
  assumes "run_inv st" "(depth, w) \<in> set (rs_writers st)"
  defines "st' \<equiv> st\<lparr>rs_files := rs_finalize_one (rs_base_dir st) (depth, w) (rs_files st)\<rparr>"
  shows "run_inv st' \<and> (\<forall>d. run_log st' d = run_log st d)"
proof (cases w)
  case AppendBuffered
  then show ?thesis using assms by (simp add: rs_finalize_one_def)
next
  case (AppendDirect off)
  have m: "map_of (rs_writers st) depth = Some w" using assms(1,2) by (simp add: run_inv_def)
  have off: "off \<le> length (runs_file st depth)" using run_inv_map_of [OF assms(1) m] AppendDirect by (simp add: appender_ok_def)
  then have g: "set_len off (runs_file st depth) = take off (runs_file st depth)" by (simp add: set_len_def)
  have fil: "runs_file st' d = (if d = depth then take off (runs_file st depth) else runs_file st d)" for d
    using g by (simp add: st'_def runs_file_def rs_finalize_one_def AppendDirect)
  have "run_log st' d = run_log st d" for d
    using m fil by (auto simp: run_log_def st'_def AppendDirect split: option.split run_appender.split)
  moreover have "appender_ok st' e" if "e \<in> set (rs_writers st)" for e
  proof (cases "fst e = depth")
    case True
    then have "e = (depth, w)" using m that assms(1) by (metis map_of_is_SomeI option.inject prod.collapse run_inv_def)
    then show ?thesis using run_inv_map_of [OF assms(1) m] fil [of depth] off
      by (simp add: appender_ok_def AppendDirect) (simp add: st'_def rs_finalize_one_def AppendDirect)
  next
    case False
    have "appender_ok st e" using that assms(1) by (simp add: run_inv_def)
    then show ?thesis using False fil [of "fst e"]
      by (cases e) (simp add: appender_ok_def st'_def rs_finalize_one_def AppendDirect split: run_appender.splits)
  qed
  ultimately show ?thesis using assms(1) by (simp add: run_inv_def) (simp add: st'_def)
qed

lemma finalize_fold:
  assumes "run_inv st" "set ws \<subseteq> set (rs_writers st)"
  defines "st' \<equiv> st\<lparr>rs_files := fold (rs_finalize_one (rs_base_dir st)) ws (rs_files st)\<rparr>"
  shows "run_inv st' \<and> (\<forall>d. run_log st' d = run_log st d)"
  using assms(1,2) unfolding st'_def
proof (induction ws arbitrary: st)
  case (Cons w ws)
  let ?st1 = "st\<lparr>rs_files := rs_finalize_one (rs_base_dir st) w (rs_files st)\<rparr>"
  have "run_inv ?st1 \<and> (\<forall>d. run_log ?st1 d = run_log st d)"
    using finalize_step [OF Cons.prems(1), of "fst w" "snd w"] Cons.prems(2) by simp
  then show ?case using Cons.IH [of ?st1] Cons.prems(2) by simp
qed simp

lemma finalize_stored:
  assumes "run_inv st" "run_stored st r e"
  shows "run_inv (rs_finalize st)" "run_stored (rs_finalize st) r e"
  using finalize_fold [OF assms(1) subset_refl] assms(2)
  by (auto simp: rs_finalize_def run_stored_def split: prod.splits)

lemma run_stored_read:
  assumes "os_ok sys" "run_inv st" "run_stored st (depth, points) e"
  shows "read_points sys depth e st = Inr points"
  using assms by (intro read_points_ok) (simp_all add: run_stored_def)

text \<open>C28: Whatever runs are appended to a run store, in whatever order of depths, buffered or with direct
  I/O, every append succeeds, and every run is read back unchanged from the extent its append
  returned, before and after the store is finalized.\<close>

theorem child_runs_roundtrip:
  assumes "os_ok sys" "dc_alignment cfg \<le> 2 ^ 63"
    and "\<forall>d. length (file_at fs (runs_path base d)) + runs_size runs \<le> usize_max"
  shows "\<exists>es st. append_runs sys runs (rs_new_with_vector_dir base vdir cfg fs) = Inr (es, st) \<and>
    list_all2 (\<lambda>(depth, points) e. read_points sys depth e st = Inr points \<and>
      read_points sys depth e (rs_finalize st) = Inr points) runs es"
proof -
  obtain es st where st: "append_runs sys runs (rs_new_with_vector_dir base vdir cfg fs) = Inr (es, st)"
      "run_inv st" "list_all2 (run_stored st) runs es"
    using append_runs_ok [OF assms(1) run_inv_new(1) [OF assms(2)], of base vdir fs runs] assms(3)
    by (auto simp: run_inv_new(2))
  have "list_all2 (\<lambda>(depth, points) e. read_points sys depth e st = Inr points \<and>
      read_points sys depth e (rs_finalize st) = Inr points) runs es"
    using st(3) by (rule list_all2_mono)
      (auto intro: run_stored_read [OF assms(1)] finalize_stored [OF st(2)] st(2))
  with st(1) show ?thesis by blast
qed

theorem child_runs_roundtrip_witness:
  "\<exists>es st. append_runs \<lparr>os_give = \<lambda>off n. n, os_accept = \<lambda>off b. 5\<rparr> [(1, [7, 8]), (0, []), (1, [9])]
      (rs_new_with_vector_dir ''t/'' ''v/'' \<lparr>dc_enabled = True, dc_alignment = 512\<rparr> Map.empty) = Inr (es, st) \<and>
    list_all2 (\<lambda>(depth, points) e. read_points \<lparr>os_give = \<lambda>off n. n, os_accept = \<lambda>off b. 5\<rparr> depth e st = Inr points \<and>
      read_points \<lparr>os_give = \<lambda>off n. n, os_accept = \<lambda>off b. 5\<rparr> depth e (rs_finalize st) = Inr points) [(1, [7, 8]), (0, []), (1, [9])] es"
  by (rule child_runs_roundtrip)
     (simp_all add: os_ok_def gives_def accepts_def file_at_def runs_size_def usize_max_def)

section \<open>Batched reads are chains of single reads\<close>

text \<open>A stable view of an unstable sort: where the key orders a sublist strictly, the sort keeps it.\<close>

lemma filter_srt:
  fixes g :: "'a \<Rightarrow> 'b::linorder" and key :: "'a \<Rightarrow> 'c::linorder"
  assumes srt: "unstable_sort srt" and ys: "sorted_wrt (<) (map g (filter P ys))"
    and key: "\<And>x y. P x \<Longrightarrow> P y \<Longrightarrow> key x \<le> key y \<Longrightarrow> g x \<le> g y"
  shows "filter P (srt key ys) = filter P ys"
proof -
  let ?a = "filter P (srt key ys)" and ?b = "filter P ys"
  have m: "mset ?a = mset ?b" using srt by (simp add: unstable_sort_def mset_filter)
  have b: "sorted (map g ?b)" "distinct (map g ?b)" using ys by (simp_all add: strict_sorted_iff)
  have "mset (map g ?a) = mset (map g ?b)" using m by simp
  then have "distinct (map g ?a)" using b(2) mset_eq_imp_distinct_iff by blast
  moreover have "sorted_wrt (\<lambda>x y. key x \<le> key y) (srt key ys)" using srt by (simp add: unstable_sort_def sorted_map)
  then have "sorted_wrt (\<lambda>x y. key x \<le> key y) ?a" by (rule sorted_wrt_filter)
  then have "sorted_wrt (\<lambda>x y. g x \<le> g y) ?a" by (rule sorted_wrt_mono_rel [rotated]) (auto intro: key)
  ultimately have "?a = sort_key g ?b" using sort_key_unique [OF m] by (simp add: sorted_map)
  moreover have "?b = sort_key g ?b" using sort_key_unique [OF refl b(2,1)] .
  ultimately show ?thesis by simp
qed

definition read_ok :: "u8 list \<Rightarrow> (extent_read \<Rightarrow> u32 list) \<Rightarrow> extent_read \<Rightarrow> bool" where
  "read_ok f pts r \<longleftrightarrow> er_end r = er_start r + 8 + 4 * length (pts r) \<and> length (pts r) < 2 ^ 62 \<and> er_end r \<le> usize_max \<and>
     (\<exists>a b. f = a @ run_bytes (pts r) @ b \<and> length a = er_start r)"

lemma read_ok_end: "read_ok f pts r \<Longrightarrow> er_end r \<le> length f"
  by (auto simp: read_ok_def)

lemma group_run_bounds:
  "group_run e rs = (e', n) \<Longrightarrow> e \<le> e' \<and> n \<le> length rs \<and> (\<forall>r \<in> set (take n rs). er_end r \<le> e') \<and>
     (\<forall>l. e \<le> l \<longrightarrow> (\<forall>r \<in> set rs. er_end r \<le> l) \<longrightarrow> e' \<le> l)"
proof (induction e rs arbitrary: e' n rule: group_run.induct)
  case (2 e r rs)
  show ?case
  proof (cases "er_start r \<le> e")
    case True
    then obtain m where "group_run (max e (er_end r)) rs = (e', m)" "n = Suc m" using "2.prems" by (auto simp: map_prod_def split: prod.splits)
    then show ?thesis using "2.IH" [OF True, of e' m] by auto
  qed (use "2.prems" in auto)
qed simp

lemma decode_read_ok:
  assumes r: "read_ok f pts r" and g: "gs \<le> er_start r" "er_end r \<le> ge"
  shows "decode_read gs (take (ge - gs) (drop gs f)) r = Inr (pts r)"
proof -
  obtain a b where f: "f = a @ run_bytes (pts r) @ b" "length a = er_start r" using r by (auto simp: read_ok_def)
  have e: "er_end r = er_start r + 8 + 4 * length (pts r)" "length (pts r) < 2 ^ 62" using r by (simp_all add: read_ok_def)
  define c where "c = drop gs a"
  define d where "d = take (ge - er_end r) b"
  have c: "length c = er_start r - gs" by (simp add: c_def f)
  have bytes: "take (ge - gs) (drop gs f) = c @ run_bytes (pts r) @ d"
    using g e f by (simp add: c_def d_def add.assoc)
  have n: "unat (word_of_nat (length (pts r)) :: u64) = length (pts r)" and s: "sat_mul (length (pts r)) 4 = length (pts r) * 4"
    using e(2) by (simp_all add: unsigned_of_nat take_bit_nat_eq_self_iff sat_mul_def usize_max_def)
  have len: "take 8 (drop (er_start r - gs) (c @ run_bytes (pts r) @ d)) = le64 (word_of_nat (length (pts r)))"
    using c by (simp add: run_bytes_def)
  have pay: "drop (er_start r - gs + 8 + 4 * i) (c @ run_bytes (pts r) @ d) = drop (i * 4) (le32s (pts r) @ d)" for i
    using c by (simp add: run_bytes_def mult.commute)
  have "length c + 8 + length (pts r) * 4 \<le> length (c @ run_bytes (pts r) @ d)" by simp
  then show ?thesis
    unfolding decode_read_def bytes RUN_EXTENT_HEADER_BYTES_def Let_def len pay of_le64_le64 n s
    using c decode_points [of "pts r" d] by simp
qed

lemma apply_reads_ok:
  assumes "\<forall>r \<in> set rs. decode_read gs bytes r = Inr (pts r) \<and> er_run_idx r < length out"
  shows "apply_reads gs bytes rs out =
    Inr (map (\<lambda>i. out ! i @ concat (map pts (filter (\<lambda>r. er_run_idx r = i) rs))) [0..<length out])"
  using assms
proof (induction rs arbitrary: out)
  case (Cons r rs)
  let ?out = "out[er_run_idx r := out ! er_run_idx r @ pts r]"
  have "apply_reads gs bytes rs ?out =
      Inr (map (\<lambda>i. ?out ! i @ concat (map pts (filter (\<lambda>r. er_run_idx r = i) rs))) [0..<length ?out])"
    using Cons by simp
  then show ?case using Cons.prems by (auto simp: nth_list_update)
qed (simp add: map_nth)

lemma read_group_ok:
  assumes "os_ok sys" "dc_alignment cfg \<le> 2 ^ 63" "fs path = Some f" "gs \<le> ge" "ge \<le> length f" "ge \<le> usize_max"
  shows "read_group sys fs path cfg gs ge = Inr (take (ge - gs) (drop gs f))"
proof -
  have "read_group sys fs path cfg gs ge = direct_read_exact_at (os_give sys) cfg f (ge - gs) gs"
    using assms(3) by (simp add: read_group_def direct_read_exact_at_def)
  also have "\<dots> = Inr (take (ge - gs) (drop gs f))"
    using assms by (intro direct_read_exact_bytes) (simp_all add: os_ok_def)
  finally show ?thesis .
qed

definition reads_ok :: "u8 list \<Rightarrow> (extent_read \<Rightarrow> u32 list) \<Rightarrow> nat \<Rightarrow> extent_read list \<Rightarrow> bool" where
  "reads_ok f pts n reads \<longleftrightarrow> (\<forall>r \<in> set reads. read_ok f pts r \<and> er_run_idx r < n) \<and> sorted (map er_start reads) \<and>
     (\<forall>i. sorted_wrt (<) (map er_extent_idx (filter (\<lambda>r. er_run_idx r = i) reads)))"

lemma reads_ok_split:
  assumes "reads_ok f pts n (xs @ ys)" shows "reads_ok f pts n xs" "reads_ok f pts n ys"
  using assms by (auto simp: reads_ok_def sorted_wrt_append)

lemma group_ok:
  assumes sys: "os_ok sys" "dc_alignment cfg \<le> 2 ^ 63" and srt: "unstable_sort srt" and f: "fs path = Some f"
    and reads: "reads_ok f pts (length out) (r # rs)" and g: "group_run (er_end r) rs = (ge, n)"
  shows "\<exists>bytes. read_group sys fs path cfg (er_start r) ge = Inr bytes \<and>
    apply_reads (er_start r) bytes (srt (\<lambda>read. (er_run_idx read, er_extent_idx read)) (r # take n rs)) out =
      Inr (map (\<lambda>i. out ! i @ concat (map pts (filter (\<lambda>x. er_run_idx x = i) (r # take n rs)))) [0..<length out])"
proof -
  let ?G = "r # take n rs" and ?key = "\<lambda>read. (er_run_idx read, er_extent_idx read)"
  have G: "reads_ok f pts (length out) ?G"
    using reads_ok_split(1) [of f pts "length out" ?G "drop n rs"] reads by simp
  have b: "er_end r \<le> ge" "\<forall>x \<in> set (take n rs). er_end x \<le> ge" "\<And>l. er_end r \<le> l \<Longrightarrow> \<forall>x \<in> set rs. er_end x \<le> l \<Longrightarrow> ge \<le> l"
    using group_run_bounds [OF g] by auto
  have ok: "\<forall>x \<in> set (r # rs). read_ok f pts x" using reads by (simp add: reads_ok_def)
  have ge: "ge \<le> length f" "ge \<le> usize_max" "er_start r \<le> ge"
  proof -
    have e: "er_end x \<le> length f \<and> er_end x \<le> usize_max \<and> er_start x \<le> er_end x" if "x \<in> set (r # rs)" for x
    proof -
      have x: "read_ok f pts x" using ok that by blast
      show ?thesis using read_ok_end [OF x] x by (simp add: read_ok_def)
    qed
    show "ge \<le> length f" "ge \<le> usize_max" using e by (auto intro!: b(3))
    show "er_start r \<le> ge" using e [of r] b(1) by simp
  qed
  let ?bytes = "take (ge - er_start r) (drop (er_start r) f)"
  have "set (srt ?key ?G) = set ?G" using srt by (metis set_mset_mset unstable_sortD(1))
  moreover have "er_start r \<le> er_start x \<and> er_end x \<le> ge \<and> read_ok f pts x \<and> er_run_idx x < length out" if "x \<in> set ?G" for x
    using that G b by (auto simp: reads_ok_def)
  ultimately have "\<forall>x \<in> set (srt ?key ?G). decode_read (er_start r) ?bytes x = Inr (pts x) \<and> er_run_idx x < length out"
    using decode_read_ok by metis
  from apply_reads_ok [OF this] have "apply_reads (er_start r) ?bytes (srt ?key ?G) out =
      Inr (map (\<lambda>i. out ! i @ concat (map pts (filter (\<lambda>x. er_run_idx x = i) (srt ?key ?G)))) [0..<length out])" .
  moreover have "filter (\<lambda>x. er_run_idx x = i) (srt ?key ?G) = filter (\<lambda>x. er_run_idx x = i) ?G" for i
    using G by (intro filter_srt [OF srt, where g = er_extent_idx]) (auto simp: reads_ok_def)
  ultimately show ?thesis using read_group_ok [where fs = fs and path = path, OF sys f ge(3,1,2)] by simp
qed

lemma read_groups_ok:
  assumes sys: "os_ok sys" "dc_alignment cfg \<le> 2 ^ 63" and srt: "unstable_sort srt" and f: "fs path = Some f"
  shows "reads_ok f pts (length out) reads \<Longrightarrow>
    \<exists>stats'. read_groups srt sys fs path cfg reads out stats =
      Inr (map (\<lambda>i. out ! i @ concat (map pts (filter (\<lambda>r. er_run_idx r = i) reads))) [0..<length out], stats') \<and>
      bs_logical_extents stats' = bs_logical_extents stats \<and>
      bs_coalesced_reads stats' \<le> bs_coalesced_reads stats + length reads"
proof (induction "length reads" arbitrary: reads out stats rule: less_induct)
  case less
  show ?case
  proof (cases reads)
    case Nil
    then show ?thesis by (auto simp: map_nth)
  next
    case (Cons r rs)
    obtain ge n where g: "group_run (er_end r) rs = (ge, n)" by fastforce
    let ?out = "map (\<lambda>i. out ! i @ concat (map pts (filter (\<lambda>x. er_run_idx x = i) (r # take n rs)))) [0..<length out]"
    let ?stats = "stats\<lparr>bs_coalesced_reads := bs_coalesced_reads stats + 1,
                        bs_physical_bytes := sat_add (bs_physical_bytes stats) (ge - er_start r)\<rparr>"
    have n: "n \<le> length rs" using group_run_bounds [OF g] by simp
    have lt: "length (drop n rs) < length reads" by (simp add: Cons)
    have rest: "reads_ok f pts (length ?out) (drop n rs)"
      using reads_ok_split(2) [of f pts "length out" "r # take n rs" "drop n rs"] less.prems Cons by simp
    from less.hyps [OF lt rest, of ?stats] obtain stats' where st: "read_groups srt sys fs path cfg (drop n rs) ?out ?stats =
        Inr (map (\<lambda>i. ?out ! i @ concat (map pts (filter (\<lambda>r. er_run_idx r = i) (drop n rs)))) [0..<length ?out], stats')"
        "bs_logical_extents stats' = bs_logical_extents ?stats" "bs_coalesced_reads stats' \<le> bs_coalesced_reads ?stats + length (drop n rs)"
      by blast
    have cat: "filter P reads = filter P (r # take n rs) @ filter P (drop n rs)" for P
      unfolding Cons by (metis append_Cons append_take_drop_id filter_append)
    have "map (\<lambda>i. ?out ! i @ concat (map pts (filter (\<lambda>r. er_run_idx r = i) (drop n rs)))) [0..<length ?out] =
        map (\<lambda>i. out ! i @ concat (map pts (filter (\<lambda>r. er_run_idx r = i) reads))) [0..<length out]"
      by (simp add: cat del: filter.simps(2))
    with st(1) have rec: "read_groups srt sys fs path cfg (drop n rs) ?out ?stats =
        Inr (map (\<lambda>i. out ! i @ concat (map pts (filter (\<lambda>r. er_run_idx r = i) reads))) [0..<length out], stats')"
      by (simp only:)
    obtain bytes where "read_group sys fs path cfg (er_start r) ge = Inr bytes"
      "apply_reads (er_start r) bytes (srt (\<lambda>read. (er_run_idx read, er_extent_idx read)) (r # take n rs)) out = Inr ?out"
      using group_ok [where pts = pts and out = out and fs = fs and path = path, OF sys srt f less.prems [unfolded Cons] g] by blast
    then have "read_groups srt sys fs path cfg reads out stats = read_groups srt sys fs path cfg (drop n rs) ?out ?stats"
      by (simp add: Cons g Let_def del: filter.simps(2))
    then show ?thesis using rec st(2,3) n by (auto simp: Cons)
  qed
qed

text \<open>The reads of one run, in the order of its extents.\<close>

lemma filter_extent_reads:
  "filter (\<lambda>r. er_run_idx r = i) (concat (map (\<lambda>(run_idx, run). map (extent_read_of run_idx) (enumerate 0 (cr_extents run))) (enumerate m runs))) =
   (if m \<le> i \<and> i < m + length runs then map (extent_read_of i) (enumerate 0 (cr_extents (runs ! (i - m)))) else [])"
proof (induction runs arbitrary: m)
  case (Cons run runs)
  have idx: "er_run_idx (extent_read_of k e) = k" for k e by (simp add: extent_read_of_def Let_def split: prod.split)
  have "filter (\<lambda>r. er_run_idx r = i) (map (extent_read_of m) es) = (if i = m then map (extent_read_of m) es else [])" for es
    by (auto simp: filter_map comp_def idx)
  then show ?case using Cons [of "Suc m"] by (auto simp: nth_Cons' split: if_splits)
qed auto

text \<open>What the caller knows of the runs: every extent holds points, the extents of a run lie in ascending order.\<close>

definition runs_hold :: "u8 list \<Rightarrow> child_run list \<Rightarrow> u32 list list list \<Rightarrow> bool" where
  "runs_hold log runs ptsss \<longleftrightarrow>
     list_all2 (\<lambda>run ptss. list_all2 (log_holds log) (cr_extents run) ptss \<and>
       sorted_wrt (<) (map re_byte_offset (cr_extents run))) runs ptsss"

definition read_points_of :: "u32 list list list \<Rightarrow> extent_read \<Rightarrow> u32 list" where
  "read_points_of ptsss r = ptsss ! er_run_idx r ! er_extent_idx r"

lemma extent_read_ok:
  assumes "log_holds log e points" "read_points_of ptsss (extent_read_of i (j, e)) = points"
  shows "read_ok (log @ pad) (read_points_of ptsss) (extent_read_of i (j, e))"
proof -
  obtain a b where log: "log = a @ run_bytes points @ b" "length a = re_byte_offset e" and len: "re_len e = length points"
    and max: "length log \<le> usize_max"
    using assms(1) by (auto simp: log_holds_def)
  have "length points < 2 ^ 62" using log(1) max by (simp add: usize_max_def)
  moreover have "sat_mul (length points) 4 = length points * 4" "sat_add (re_byte_offset e) (8 + length points * 4) = re_byte_offset e + (8 + length points * 4)"
    using log max by (simp_all add: sat_mul_def sat_add_def)
  moreover have "log @ pad = a @ run_bytes points @ (b @ pad)" by (simp add: log)
  ultimately show ?thesis
    unfolding read_ok_def assms(2) using log max len
    by (auto simp: extent_read_of_def RUN_EXTENT_HEADER_BYTES_def Let_def)
qed

lemma filter_extent_reads0:
  "filter (\<lambda>r. er_run_idx r = i) (extent_reads runs) =
     (if i < length runs then map (extent_read_of i) (enumerate 0 (cr_extents (runs ! i))) else [])"
  using filter_extent_reads [of i 0 runs] by (simp add: extent_reads_def)

lemma extent_of_simps [simp]:
  "er_run_idx (extent_read_of i x) = i" "er_extent_idx (extent_read_of i x) = fst x"
  "er_start (extent_read_of i x) = re_byte_offset (snd x)"
  by (simp_all add: extent_read_of_def Let_def split: prod.split)

lemma map_snd_enumerate_comp: "map (f \<circ> snd) (enumerate n xs) = map f xs"
  by (metis map_map map_snd_enumerate)

lemma extent_reads_sorted:
  assumes srt: "unstable_sort srt" and runs: "runs_hold log runs ptsss"
  shows "reads_ok (log @ pad) (read_points_of ptsss) (length runs) (srt (\<lambda>read. (er_start read, er_end read)) (extent_reads runs))"
    and "filter (\<lambda>r. er_run_idx r = i) (srt (\<lambda>read. (er_start read, er_end read)) (extent_reads runs)) =
      filter (\<lambda>r. er_run_idx r = i) (extent_reads runs)"
proof -
  let ?key = "\<lambda>read. (er_start read, er_end read)"
  have asc: "sorted_wrt (<) (map re_byte_offset (cr_extents (runs ! i)))" if "i < length runs" for i
    using that runs by (auto simp: runs_hold_def list_all2_conv_all_nth)
  have "sorted_wrt (<) (map er_start (filter (\<lambda>r. er_run_idx r = i) (extent_reads runs)))" for i
    using asc [of i] by (simp add: filter_extent_reads0 comp_def map_snd_enumerate_comp [unfolded comp_def])
  then show flt: "filter (\<lambda>r. er_run_idx r = i) (srt ?key (extent_reads runs)) = filter (\<lambda>r. er_run_idx r = i) (extent_reads runs)" for i
    by (intro filter_srt [OF srt, where g = er_start]) (auto simp: less_eq_prod_def)
  have set: "set (srt ?key (extent_reads runs)) = set (extent_reads runs)"
    using srt by (metis set_mset_mset unstable_sortD(1))
  have "read_ok (log @ pad) (read_points_of ptsss) r \<and> er_run_idx r < length runs" if "r \<in> set (extent_reads runs)" for r
  proof -
    have "r \<in> set (filter (\<lambda>x. er_run_idx x = er_run_idx r) (extent_reads runs))" using that by simp
    then obtain j e where i: "er_run_idx r < length runs" and r: "r = extent_read_of (er_run_idx r) (j, e)"
      and je: "(j, e) \<in> set (enumerate 0 (cr_extents (runs ! er_run_idx r)))"
      by (auto simp: filter_extent_reads0 split: if_splits)
    have "list_all2 (log_holds log) (cr_extents (runs ! er_run_idx r)) (ptsss ! er_run_idx r)"
      using i runs by (auto simp: runs_hold_def list_all2_conv_all_nth)
    then have "log_holds log e (ptsss ! er_run_idx r ! j)"
      using je by (auto simp: in_set_enumerate_eq list_all2_conv_all_nth)
    moreover have "read_points_of ptsss (extent_read_of (er_run_idx r) (j, e)) = ptsss ! er_run_idx r ! j"
      by (simp add: read_points_of_def)
    ultimately show ?thesis using extent_read_ok i r by metis
  qed
  moreover have "sorted (map er_start (srt ?key (extent_reads runs)))"
  proof -
    have "sorted (map ?key (srt ?key (extent_reads runs)))" by (rule unstable_sortD(2) [OF srt])
    then have "sorted_wrt (\<lambda>x y. ?key x \<le> ?key y) (srt ?key (extent_reads runs))" by (simp only: sorted_map)
    then have "sorted_wrt (\<lambda>x y. er_start x \<le> er_start y) (srt ?key (extent_reads runs))"
      by (rule sorted_wrt_mono_rel [rotated]) (auto simp: less_eq_prod_def)
    then show ?thesis by (simp add: sorted_map)
  qed
  moreover have "sorted_wrt (<) (map er_extent_idx (filter (\<lambda>r. er_run_idx r = i) (extent_reads runs)))" for i
    by (simp add: filter_extent_reads0 comp_def)
  ultimately show "reads_ok (log @ pad) (read_points_of ptsss) (length runs) (srt ?key (extent_reads runs))"
    by (simp add: reads_ok_def set flt)
qed

text \<open>C29: Reading many child runs at once, in reads that are coalesced over neighbouring extents of all
  runs, gives every run exactly the points that reading its extents one by one gives, and never takes
  more reads than there are extents.\<close>

theorem batched_reads_equal_chains:
  assumes "os_ok sys" "unstable_sort srt" "run_inv st" "map_of (rs_writers st) depth \<noteq> None"
    and "runs_hold (run_log st depth) runs ptsss"
  shows "\<exists>rows stats.
    read_child_runs_batched_from_path srt sys (rs_files st) (rs_base_dir st) (rs_io_cfg st) depth runs = Inr (rows, stats) \<and>
    list_all2 (\<lambda>run row. read_child_run_chain sys depth (cr_extents run) st = Inr row) runs rows \<and>
    bs_coalesced_reads stats \<le> bs_logical_extents stats"
proof -
  let ?reads = "srt (\<lambda>read. (er_start read, er_end read)) (extent_reads runs)"
  have al: "dc_alignment (rs_io_cfg st) \<le> 2 ^ 63" using assms(3) by (simp add: run_inv_def)
  obtain pad where f: "rs_files st (runs_path (rs_base_dir st) depth) = Some (run_log st depth @ pad)"
    using run_log_file [OF assms(3,4)] by auto
  let ?stats = "\<lparr>bs_logical_extents = length ?reads, bs_coalesced_reads = 0,
    bs_logical_bytes = (\<Sum>read\<leftarrow>?reads. er_end read - er_start read), bs_physical_bytes = 0, bs_header_read_savings = 0\<rparr>"
  have ok: "reads_ok (run_log st depth @ pad) (read_points_of ptsss) (length (replicate (length runs) ([] :: u32 list))) ?reads"
    using extent_reads_sorted(1) [OF assms(2,5), of pad] by simp
  obtain stats' where g: "read_groups srt sys (rs_files st) (runs_path (rs_base_dir st) depth) (rs_io_cfg st) ?reads (replicate (length runs) []) ?stats =
      Inr (map (\<lambda>i. replicate (length runs) [] ! i @ concat (map (read_points_of ptsss) (filter (\<lambda>r. er_run_idx r = i) ?reads))) [0..<length (replicate (length runs) ([] :: u32 list))], stats')"
      "bs_logical_extents stats' = bs_logical_extents ?stats" "bs_coalesced_reads stats' \<le> bs_coalesced_reads ?stats + length ?reads"
    using read_groups_ok [where fs = "rs_files st" and path = "runs_path (rs_base_dir st) depth", OF assms(1) al assms(2) f ok, of ?stats]
    by blast
  have row: "concat (map (read_points_of ptsss) (filter (\<lambda>r. er_run_idx r = i) ?reads)) = concat (ptsss ! i)"
    and chain: "read_child_run_chain sys depth (cr_extents (runs ! i)) st = Inr (concat (ptsss ! i))" if "i < length runs" for i
  proof -
    have all: "list_all2 (log_holds (run_log st depth)) (cr_extents (runs ! i)) (ptsss ! i)"
      using that assms(5) by (auto simp: runs_hold_def list_all2_conv_all_nth)
    then have len: "length (cr_extents (runs ! i)) = length (ptsss ! i)" by (rule list_all2_lengthD)
    have "map (read_points_of ptsss) (filter (\<lambda>r. er_run_idx r = i) ?reads) = map (\<lambda>x. ptsss ! i ! fst x) (enumerate 0 (cr_extents (runs ! i)))"
      using that by (simp add: extent_reads_sorted(2) [OF assms(2,5)] filter_extent_reads0 read_points_of_def)
    also have "\<dots> = ptsss ! i" by (rule nth_equalityI) (simp_all add: len nth_enumerate_eq)
    finally show "concat (map (read_points_of ptsss) (filter (\<lambda>r. er_run_idx r = i) ?reads)) = concat (ptsss ! i)" by simp
    have "list_all2 (\<lambda>e pts. read_points sys depth e st = Inr pts) (cr_extents (runs ! i)) (ptsss ! i)"
      using all by (rule list_all2_mono) (rule read_points_ok [OF assms(1,3,4)])
    then show "read_child_run_chain sys depth (cr_extents (runs ! i)) st = Inr (concat (ptsss ! i))"
      unfolding read_child_run_chain_def by (rule read_chain_ok)
  qed
  let ?rows = "map (\<lambda>i. replicate (length runs) [] ! i @ concat (map (read_points_of ptsss) (filter (\<lambda>r. er_run_idx r = i) ?reads))) [0..<length (replicate (length runs) ([] :: u32 list))]"
  have "list_all2 (\<lambda>run row. read_child_run_chain sys depth (cr_extents run) st = Inr row) runs ?rows"
    by (rule list_all2_all_nthI) (simp_all add: row chain)
  moreover have "read_child_runs_batched_from_path srt sys (rs_files st) (rs_base_dir st) (rs_io_cfg st) depth runs =
      Inr (?rows, stats'\<lparr>bs_header_read_savings := bs_logical_extents stats' - bs_coalesced_reads stats'\<rparr>)"
    by (simp only: read_child_runs_batched_from_path_def Let_def g(1) res_bind_simps prod.case)
  ultimately show ?thesis using g(2,3) by (intro exI conjI) auto
qed

text \<open>A small store: one file of depth 1 with two runs.\<close>

definition demo_store :: run_store where
  "demo_store = \<lparr>rs_base_dir = ''t/'', rs_vector_dir = ''t/'', rs_io_cfg = \<lparr>dc_enabled = False, dc_alignment = 4096\<rparr>,
     rs_writers = [(1, AppendBuffered)],
     rs_files = Map.empty(runs_path ''t/'' 1 \<mapsto> run_bytes [7, 8] @ run_bytes [9])\<rparr>"

definition demo_runs :: "child_run list" where
  "demo_runs = [\<lparr>cr_extents = [\<lparr>re_byte_offset = 16, re_len = 1\<rparr>], cr_len = 1, cr_seed = 0\<rparr>,
                \<lparr>cr_extents = [\<lparr>re_byte_offset = 0, re_len = 2\<rparr>], cr_len = 2, cr_seed = 0\<rparr>]"

lemma demo_store_ok: "run_inv demo_store" "run_log demo_store 1 = run_bytes [7, 8] @ run_bytes [9]"
  by (simp_all add: run_inv_def demo_store_def appender_ok_def run_log_def runs_file_def file_at_def)

lemma demo_runs_hold: "runs_hold (run_log demo_store 1) demo_runs [[[9]], [[7, 8]]]"
proof -
  have "log_holds (run_log demo_store 1) \<lparr>re_byte_offset = 16, re_len = 1\<rparr> [9]"
    unfolding log_holds_def demo_store_ok(2)
    by (intro conjI exI [of _ "run_bytes [7, 8]"] exI [of _ "[]"]) (simp_all add: usize_max_def)
  moreover have "log_holds (run_log demo_store 1) \<lparr>re_byte_offset = 0, re_len = 2\<rparr> [7, 8]"
    unfolding log_holds_def demo_store_ok(2)
    by (intro conjI exI [of _ "[]"] exI [of _ "run_bytes [9]"]) (simp_all add: usize_max_def)
  ultimately show ?thesis by (simp add: runs_hold_def demo_runs_def)
qed

theorem batched_reads_equal_chains_witness:
  "\<exists>rows stats.
    read_child_runs_batched_from_path sort_key \<lparr>os_give = \<lambda>off n. n, os_accept = \<lambda>off b. 5\<rparr> (rs_files demo_store)
      (rs_base_dir demo_store) (rs_io_cfg demo_store) 1 demo_runs = Inr (rows, stats) \<and>
    list_all2 (\<lambda>run row. read_child_run_chain \<lparr>os_give = \<lambda>off n. n, os_accept = \<lambda>off b. 5\<rparr> 1 (cr_extents run) demo_store = Inr row)
      demo_runs rows \<and>
    bs_coalesced_reads stats \<le> bs_logical_extents stats"
proof (rule batched_reads_equal_chains [OF _ unstable_sort_sort_key demo_store_ok(1) _ demo_runs_hold])
  show "os_ok \<lparr>os_give = \<lambda>off n. n, os_accept = \<lambda>off b. 5\<rparr>" by (simp add: os_ok_def gives_def accepts_def)
  show "map_of (rs_writers demo_store) 1 \<noteq> None" by (simp add: demo_store_def)
qed


end
