(* ===== verification/Materialize.thy ===== *)
theory Materialize
  imports ChildRuns
begin

text \<open>
  From a spool of assignment records to the child clusters on disk,
  \<^verbatim>\<open>ForgeANN/src/forgeann/rbc_partition/child_run_io.rs\<close>: the record sources, the materialization of
  the merged groups, and one step of the external partition.
\<close>

section \<open>Record sources\<close>

text \<open>A source reads one record of \<open>cap\<close> slots.\<close>

type_synonym 's source = "usize \<Rightarrow> 's \<Rightarrow> (usize \<times> u16 list \<times> 's) result"

text \<open>\<open>ContiguousAssignmentRecordSource\<close>: the state is the bytes still to come.\<close>

definition contiguous_read :: "u8 list source" where
  "contiguous_read cap reader = read_assign_record cap reader"

record spool_segment =
  ss_offset :: nat
  ss_seg_len :: nat

record segmented_source =
  sg_file :: "u8 list"
  sg_reader :: "u8 list"
  sg_segments :: "spool_segment list"
  sg_next_segment_idx :: usize
  sg_remaining_bytes :: nat
  sg_record_width :: nat

definition segmented_new :: "u8 list \<Rightarrow> spool_segment list \<Rightarrow> usize \<Rightarrow> segmented_source" where
  "segmented_new spool segments record_cap =
     \<lparr>sg_file = spool, sg_reader = spool, sg_segments = segments, sg_next_segment_idx = 0,
      sg_remaining_bytes = 0, sg_record_width = assign_record_width record_cap\<rparr>"

function (sequential) seek_next_segment :: "segmented_source \<Rightarrow> (bool \<times> segmented_source) result" where
  "seek_next_segment s =
     (if sg_remaining_bytes s \<noteq> 0 then Inr (True, s)
      else if length (sg_segments s) \<le> sg_next_segment_idx s then Inr (False, s)
      else
        let segment = sg_segments s ! sg_next_segment_idx s;
            s1 = s\<lparr>sg_next_segment_idx := sg_next_segment_idx s + 1\<rparr>
        in if ss_seg_len segment = 0 then seek_next_segment s1
           else if ss_seg_len segment mod sg_record_width s1 \<noteq> 0
           then Inl (Err (Index ''Assignment spool segment length is not aligned to record width''))
           else Inr (True, s1\<lparr>sg_reader := drop (ss_offset segment) (sg_file s1), sg_remaining_bytes := ss_seg_len segment\<rparr>))"
  by pat_completeness auto
termination
  by (relation "measure (\<lambda>s. length (sg_segments s) - sg_next_segment_idx s)") auto

declare seek_next_segment.simps [simp del]

definition segmented_read :: "segmented_source source" where
  "segmented_read cap s =
     res_bind (seek_next_segment s) (\<lambda>(found, s).
       if \<not> found then Inl (Err (Index ''Assignment spool segments ended before all points were materialized''))
       else res_bind (read_assign_record cap (sg_reader s)) (\<lambda>(len, out, reader).
         Inr (len, out, s\<lparr>sg_reader := reader, sg_remaining_bytes := sg_remaining_bytes s - sg_record_width s\<rparr>)))"

section \<open>Materialization\<close>

record buffered_child =
  bc_extents :: "run_extent list"
  bc_buffer :: "u32 list"
  bc_inline :: bool

record materialized_child =
  mc_extents :: "run_extent list"
  mc_points :: "u32 list option"

definition MATERIALIZE_CHILD_BUFFER_POINTS :: usize where
  "MATERIALIZE_CHILD_BUFFER_POINTS = 4096"

definition MATERIALIZE_BATCH_POINTS :: usize where
  "MATERIALIZE_BATCH_POINTS = 16384"

definition flush_materialized_child_buffer ::
  "os \<Rightarrow> usize \<Rightarrow> buffered_child \<Rightarrow> run_store \<Rightarrow> (buffered_child \<times> run_store) result" where
  "flush_materialized_child_buffer sys depth child st =
     (if bc_buffer child = [] then Inr (child, st)
      else res_bind (append_points sys depth (bc_buffer child) st) (\<lambda>(extent, st).
        Inr (child\<lparr>bc_extents := bc_extents child @ [extent], bc_buffer := []\<rparr>, st)))"

text \<open>The table from raw children to groups: \<open>u16::MAX\<close> where no group has the child.\<close>

definition raw_child_count :: "merged_raw_group list \<Rightarrow> usize" where
  "raw_child_count groups =
     (let children = concat (map raw_children groups) in
      if children = [] then 0 else unat (Max (set children)) + 1)"

definition raw_to_merged :: "merged_raw_group list \<Rightarrow> u16 list" where
  "raw_to_merged groups =
     fold (\<lambda>(merged_idx, group) table.
             fold (\<lambda>raw_child table. table[unat raw_child := word_of_nat merged_idx]) (raw_children group) table)
       (enumerate 0 groups) (replicate (raw_child_count groups) (- 1))"

text \<open>The groups of one point, each once.\<close>

fun merged_for_point :: "u16 list \<Rightarrow> u16 list \<Rightarrow> u16 list \<Rightarrow> u16 list result" where
  "merged_for_point table [] merged = Inr merged"
| "merged_for_point table (raw_child # record) merged =
     (if length table \<le> unat raw_child then Inl index_panic
      else
        let merged_idx = table ! unat raw_child in
        if merged_idx \<in> set merged then merged_for_point table record merged
        else merged_for_point table record (merged @ [merged_idx]))"

fun read_records :: "'s source \<Rightarrow> usize \<Rightarrow> u32 list \<Rightarrow> 's \<Rightarrow> (u16 list list \<times> 's) result" where
  "read_records source cap [] s = Inr ([], s)"
| "read_records source cap (p # ps) s =
     res_bind (source cap s) (\<lambda>(len, record, s).
     res_bind (read_records source cap ps s) (\<lambda>(records, s). Inr (take len record # records, s)))"

fun merge_records :: "u16 list \<Rightarrow> u16 list list \<Rightarrow> u16 list list result" where
  "merge_records table [] = Inr []"
| "merge_records table (r # rs) =
     res_bind (merged_for_point table r []) (\<lambda>m. res_bind (merge_records table rs) (\<lambda>ms. Inr (m # ms)))"

type_synonym mat_state = "buffered_child list \<times> run_store"

fun push_point :: "os \<Rightarrow> usize \<Rightarrow> usize \<Rightarrow> u32 \<Rightarrow> u16 list \<Rightarrow> mat_state \<Rightarrow> mat_state result" where
  "push_point sys depth buffer_cap point [] s = Inr s"
| "push_point sys depth buffer_cap point (merged_idx # merged) (children, st) =
     (if length children \<le> unat merged_idx then Inl index_panic
      else
        let child = children ! unat merged_idx;
            child = child\<lparr>bc_buffer := bc_buffer child @ [point]\<rparr>
        in res_bind
             (if \<not> bc_inline child \<and> buffer_cap \<le> length (bc_buffer child)
              then flush_materialized_child_buffer sys depth child st else Inr (child, st))
             (\<lambda>(child, st). push_point sys depth buffer_cap point merged (children[unat merged_idx := child], st)))"

fun push_points :: "os \<Rightarrow> usize \<Rightarrow> usize \<Rightarrow> u32 list \<Rightarrow> u16 list list \<Rightarrow> mat_state \<Rightarrow> mat_state result" where
  "push_points sys depth buffer_cap (p # ps) (m # ms) s =
     res_bind (push_point sys depth buffer_cap p m s) (push_points sys depth buffer_cap ps ms)"
| "push_points sys depth buffer_cap _ _ s = Inr s"

fun materialize_batches ::
  "'s source \<Rightarrow> os \<Rightarrow> usize \<Rightarrow> usize \<Rightarrow> usize \<Rightarrow> u16 list \<Rightarrow> u32 list list \<Rightarrow> 's \<Rightarrow> mat_state \<Rightarrow> mat_state result" where
  "materialize_batches source sys depth cap buffer_cap table [] src s = Inr s"
| "materialize_batches source sys depth cap buffer_cap table (point_batch # batches) src s =
     res_bind (read_records source cap point_batch src) (\<lambda>(records, src).
     res_bind (merge_records table records) (\<lambda>merged.
     res_bind (push_points sys depth buffer_cap point_batch merged s) (\<lambda>s.
       materialize_batches source sys depth cap buffer_cap table batches src s)))"

fun finish_children :: "os \<Rightarrow> usize \<Rightarrow> buffered_child list \<Rightarrow> run_store \<Rightarrow> (materialized_child list \<times> run_store) result" where
  "finish_children sys depth [] st = Inr ([], st)"
| "finish_children sys depth (child # children) st =
     res_bind (if bc_inline child then Inr (child, st) else flush_materialized_child_buffer sys depth child st) (\<lambda>(child, st).
     res_bind (finish_children sys depth children st) (\<lambda>(ms, st).
       Inr (\<lparr>mc_extents = bc_extents child, mc_points = (if bc_inline child then Some (bc_buffer child) else None)\<rparr> # ms, st)))"

definition materialize_merged_children ::
  "'s source \<Rightarrow> os \<Rightarrow> u32 list \<Rightarrow> usize \<Rightarrow> usize \<Rightarrow> merged_raw_group list \<Rightarrow> 's \<Rightarrow> usize option \<Rightarrow> run_store \<Rightarrow>
   (materialized_child list \<times> run_store) result" where
  "materialize_merged_children source sys cur depth fanout merge_groups src inline_limit st =
     (let table = raw_to_merged merge_groups;
          cap = assign_record_fanout fanout;
          buffer_cap = max MATERIALIZE_CHILD_BUFFER_POINTS cap;
          children = map (\<lambda>group. \<lparr>bc_extents = [], bc_buffer = [],
                            bc_inline = (case inline_limit of None \<Rightarrow> False | Some limit \<Rightarrow> raw_len group \<le> limit)\<rparr>) merge_groups;
          batch_points = max MATERIALIZE_BATCH_POINTS buffer_cap
      in res_bind (materialize_batches source sys depth cap buffer_cap table (chunks batch_points cur) src (children, st))
           (\<lambda>(children, st). finish_children sys depth children st))"

definition materialize_from_spool ::
  "os \<Rightarrow> u32 list \<Rightarrow> usize \<Rightarrow> usize \<Rightarrow> merged_raw_group list \<Rightarrow> u8 list \<Rightarrow> usize option \<Rightarrow> run_store \<Rightarrow>
   (materialized_child list \<times> run_store) result" where
  "materialize_from_spool sys cur depth fanout merge_groups spool inline_limit st =
     materialize_merged_children contiguous_read sys cur depth fanout merge_groups spool inline_limit st"

definition materialize_from_segments ::
  "os \<Rightarrow> u32 list \<Rightarrow> usize \<Rightarrow> usize \<Rightarrow> merged_raw_group list \<Rightarrow> u8 list \<Rightarrow> spool_segment list \<Rightarrow> usize option \<Rightarrow> run_store \<Rightarrow>
   (materialized_child list \<times> run_store) result" where
  "materialize_from_segments sys cur depth fanout merge_groups spool segments inline_limit st =
     materialize_merged_children segmented_read sys cur depth fanout merge_groups
       (segmented_new spool segments (assign_record_fanout fanout)) inline_limit st"

section \<open>One external partition step\<close>

text \<open>
  \<open>partition_external_once\<close>: spool the assignment, count, plan the merge. With \<open>use_gemm\<close> the spool
  comes from the matrix product path, which is the parameter \<open>gemm_spool\<close>.
\<close>

record external_attempt =
  ea_spool :: "u8 list"
  ea_fanout :: usize
  ea_merge_groups :: "merged_raw_group list"

type_synonym gemm_spool = "u32 list \<Rightarrow> usize \<Rightarrow> u32 list \<Rightarrow> usize list \<Rightarrow> (usize list \<times> u8 list) result"

definition partition_external_once ::
  "gemm_spool \<Rightarrow> distance \<Rightarrow> bool \<Rightarrow> u32 list \<Rightarrow> usize \<Rightarrow> usize \<Rightarrow> u32 list \<Rightarrow> usize \<Rightarrow> external_attempt result" where
  "partition_external_once gemm_spool dist metric_l2 cur c_min adaptive_c_max leaders local_fanout =
     (let fanout = assign_record_fanout (min (max local_fanout 1) (max (length leaders) 1));
          raw_counts = replicate (max (length leaders) 1) 0;
          use_gemm = metric_l2 \<and> 256 \<le> length cur
      in res_bind
           (if use_gemm then gemm_spool leaders fanout cur raw_counts
            else compute_clusters_scalar_to_spool dist cur leaders fanout raw_counts [])
           (\<lambda>(raw_counts, spool).
             Inr \<lparr>ea_spool = spool, ea_fanout = fanout,
                  ea_merge_groups = merge_cluster_plan raw_counts c_min adaptive_c_max\<rparr>))"

text \<open>\<open>sort_unstable\<close> and \<open>dedup\<close> of a cluster of ids; equal ids cannot be told apart.\<close>

definition sort_dedup :: "cluster \<Rightarrow> cluster" where
  "sort_dedup c = dedup_by_key (\<lambda>x. x) (sort c)"

text \<open>The clusters of an attempt: inline points or the chain of extents, then dedup.\<close>

fun load_children :: "os \<Rightarrow> usize \<Rightarrow> bool \<Rightarrow> materialized_child list \<Rightarrow> run_store \<Rightarrow> cluster list result" where
  "load_children sys depth dedup_merged [] st = Inr []"
| "load_children sys depth dedup_merged (m # ms) st =
     res_bind (case mc_points m of Some points \<Rightarrow> Inr points | None \<Rightarrow> read_child_run_chain sys depth (mc_extents m) st) (\<lambda>cluster.
     res_bind (load_children sys depth dedup_merged ms st) (\<lambda>rest.
       Inr ((if dedup_merged then sort_dedup cluster else cluster) # rest)))"

section \<open>The table of groups\<close>

definition in_group :: "merged_raw_group list \<Rightarrow> nat \<Rightarrow> u16 \<Rightarrow> bool" where
  "in_group groups m c \<longleftrightarrow> m < length groups \<and> c \<in> set (raw_children (groups ! m))"

lemma in_group_Cons: "in_group (g # gs) m c \<longleftrightarrow> (m = 0 \<and> c \<in> set (raw_children g)) \<or> (\<exists>k. m = Suc k \<and> in_group gs k c)"
  by (cases m) (auto simp: in_group_def)

lemma unat_image: "unat c \<in> unat ` A \<longleftrightarrow> c \<in> A"
  by (rule inj_image_mem_iff) (simp add: inj_def word_unat_eq_iff)

lemma fold_set_table:
  "length (fold (\<lambda>c t. t[unat c := v]) cs t) = length t"
  "i < length t \<Longrightarrow> fold (\<lambda>c t. t[unat c := v]) cs t ! i = (if i \<in> unat ` set cs then v else t ! i)"
  by (induction cs arbitrary: t) (auto simp: nth_list_update)

definition fill_table :: "nat \<Rightarrow> merged_raw_group list \<Rightarrow> u16 list \<Rightarrow> u16 list" where
  "fill_table n groups t = fold (\<lambda>(merged_idx, group) table.
     fold (\<lambda>raw_child table. table[unat raw_child := word_of_nat merged_idx]) (raw_children group) table) (enumerate n groups) t"

lemma fill_table_simps [simp]:
  "fill_table n [] t = t"
  "fill_table n (g # gs) t = fill_table (Suc n) gs (fold (\<lambda>c t. t[unat c := word_of_nat n]) (raw_children g) t)"
  by (simp_all add: fill_table_def)

lemma length_fill_table [simp]: "length (fill_table n groups t) = length t"
  by (induction groups arbitrary: n t) (simp_all add: fold_set_table)

lemma fill_table_other:
  "unat c < length t \<Longrightarrow> \<forall>m. \<not> in_group groups m c \<Longrightarrow> fill_table n groups t ! unat c = t ! unat c"
proof (induction groups arbitrary: n t)
  case (Cons g gs)
  have "c \<notin> set (raw_children g)" "\<forall>m. \<not> in_group gs m c" using Cons.prems(2) by (auto simp: in_group_Cons)
  then show ?case using Cons.IH Cons.prems(1) by (auto simp: fold_set_table unat_image)
qed simp

lemma fill_table_group:
  assumes "distinct (concat (map raw_children groups))" "in_group groups m c" "unat c < length t"
  shows "fill_table n groups t ! unat c = word_of_nat (n + m)"
  using assms
proof (induction groups arbitrary: n m t)
  case (Cons g gs)
  let ?t = "fold (\<lambda>c t. t[unat c := word_of_nat n]) (raw_children g) t"
  show ?case
  proof (cases m)
    case 0
    then have c: "c \<in> set (raw_children g)" using Cons.prems(2) by (simp add: in_group_def)
    then have "\<forall>m. \<not> in_group gs m c" using Cons.prems(1) by (auto simp: in_group_def dest!: nth_mem)
    then show ?thesis using c 0 Cons.prems(3) by (simp add: fill_table_other fold_set_table)
  next
    case (Suc k)
    then have "in_group gs k c" using Cons.prems(2) by (simp add: in_group_def)
    then show ?thesis using Suc Cons.IH [of k ?t "Suc n"] Cons.prems by (simp add: fold_set_table)
  qed
qed (simp add: in_group_def)

lemma in_group_count: "in_group groups m c \<Longrightarrow> unat c < raw_child_count groups"
proof -
  assume "in_group groups m c"
  then have c: "c \<in> set (concat (map raw_children groups))" by (auto simp: in_group_def)
  then have "c \<le> Max (set (concat (map raw_children groups)))" by (intro Max_ge) auto
  moreover have "concat (map raw_children groups) \<noteq> []" using c by (metis empty_iff empty_set)
  ultimately show ?thesis by (simp add: raw_child_count_def Let_def word_le_nat_alt less_Suc_eq_le del: set_concat)
qed

lemma raw_to_merged_group:
  assumes "distinct (concat (map raw_children groups))" "in_group groups m c"
  shows "unat c < length (raw_to_merged groups)" "raw_to_merged groups ! unat c = word_of_nat m"
proof -
  have eq: "raw_to_merged groups = fill_table 0 groups (replicate (raw_child_count groups) (- 1))"
    by (simp add: raw_to_merged_def fill_table_def)
  show "unat c < length (raw_to_merged groups)" using in_group_count [OF assms(2)] by (simp add: eq)
  show "raw_to_merged groups ! unat c = word_of_nat m"
    using fill_table_group [OF assms, of "replicate (raw_child_count groups) (- 1)" 0] in_group_count [OF assms(2)] by (simp add: eq)
qed

lemma merged_for_point_ok:
  "\<forall>c \<in> set rec. unat c < length table \<Longrightarrow> distinct acc \<Longrightarrow>
   \<exists>ms. merged_for_point table rec acc = Inr ms \<and> set ms = set acc \<union> (\<lambda>c. table ! unat c) ` set rec \<and>
     distinct ms \<and> length ms \<le> length acc + length rec"
proof (induction rec arbitrary: acc)
  case (Cons c rec)
  show ?case
  proof (cases "table ! unat c \<in> set acc")
    case True
    then show ?thesis using Cons.IH [of acc] Cons.prems by (auto simp: not_le)
  next
    case False
    then show ?thesis using Cons.IH [of "acc @ [table ! unat c]"] Cons.prems by (auto simp: not_le)
  qed
qed simp

section \<open>Pushing points to children\<close>

definition child_ok :: "usize \<Rightarrow> run_store \<Rightarrow> buffered_child \<Rightarrow> cluster \<Rightarrow> bool" where
  "child_ok depth st child row \<longleftrightarrow>
     (\<exists>ptss. list_all2 (\<lambda>e pts. run_stored st (depth, pts) e) (bc_extents child) ptss \<and> row = concat ptss @ bc_buffer child) \<and>
     (bc_inline child \<longrightarrow> bc_extents child = [])"

text \<open>A later store holds what an earlier one held.\<close>

definition store_ext :: "usize \<Rightarrow> run_store \<Rightarrow> run_store \<Rightarrow> bool" where
  "store_ext depth st st' \<longleftrightarrow> (\<exists>x. run_log st' depth = run_log st depth @ x) \<and> length (run_log st' depth) \<le> usize_max \<and>
     (map_of (rs_writers st) depth \<noteq> None \<longrightarrow> map_of (rs_writers st') depth \<noteq> None)"

lemma store_ext_stored: "store_ext depth st st' \<Longrightarrow> run_stored st (depth, pts) e \<Longrightarrow> run_stored st' (depth, pts) e"
  using log_holds_append by (force simp: store_ext_def run_stored_def)

lemma store_ext_child: "store_ext depth st st' \<Longrightarrow> child_ok depth st c row \<Longrightarrow> child_ok depth st' c row"
proof -
  assume ext: "store_ext depth st st'" and c: "child_ok depth st c row"
  obtain ptss where p: "list_all2 (\<lambda>e pts. run_stored st (depth, pts) e) (bc_extents c) ptss" "row = concat ptss @ bc_buffer c"
    using c by (auto simp: child_ok_def)
  have "list_all2 (\<lambda>e pts. run_stored st' (depth, pts) e) (bc_extents c) ptss"
    using p(1) by (rule list_all2_mono) (rule store_ext_stored [OF ext])
  then show "child_ok depth st' c row" using p(2) c by (auto simp: child_ok_def)
qed

lemma appended_ext:
  assumes "appended depth points st e st'" "length (run_log st depth) + length (run_bytes points) \<le> usize_max"
  shows "store_ext depth st st'"
  using assms by (auto simp: appended_def store_ext_def)

lemma flush_ok:
  assumes sys: "os_ok sys" and inv: "run_inv st" and child: "child_ok depth st c row" "\<not> bc_inline c"
    and room: "length (run_log st depth) + 12 * length (bc_buffer c) \<le> usize_max"
  shows "\<exists>c' st'. flush_materialized_child_buffer sys depth c st = Inr (c', st') \<and> run_inv st' \<and> child_ok depth st' c' row \<and>
    bc_buffer c' = [] \<and> bc_inline c' = bc_inline c \<and>
    length (run_log st' depth) \<le> length (run_log st depth) + 12 * length (bc_buffer c) \<and>
    (\<forall>d r. child_ok depth st d r \<longrightarrow> child_ok depth st' d r)"
proof (cases "bc_buffer c = []")
  case True
  then show ?thesis using inv child by (auto simp: flush_materialized_child_buffer_def)
next
  case False
  then have len: "length (run_bytes (bc_buffer c)) \<le> 12 * length (bc_buffer c)" by (cases "bc_buffer c") simp_all
  then have room': "length (run_log st depth) + length (run_bytes (bc_buffer c)) \<le> usize_max" using room by linarith
  obtain e st' where e: "append_points sys depth (bc_buffer c) st = Inr (e, st')" "appended depth (bc_buffer c) st e st'"
    using append_points_ok [OF sys inv room'] by auto
  have ext: "store_ext depth st st'" by (rule appended_ext [OF e(2) room'])
  have st': "run_stored st' (depth, bc_buffer c) e" by (rule appended_stored [OF e(2) room'])
  obtain ptss where p: "list_all2 (\<lambda>e pts. run_stored st (depth, pts) e) (bc_extents c) ptss" "row = concat ptss @ bc_buffer c"
    using child(1) by (auto simp: child_ok_def)
  have "list_all2 (\<lambda>e pts. run_stored st' (depth, pts) e) (bc_extents c) ptss"
    using p(1) by (rule list_all2_mono) (rule store_ext_stored [OF ext])
  then have "list_all2 (\<lambda>e pts. run_stored st' (depth, pts) e) (bc_extents c @ [e]) (ptss @ [bc_buffer c])"
    using st' by (intro list_all2_appendI) simp_all
  then have "child_ok depth st' (c\<lparr>bc_extents := bc_extents c @ [e], bc_buffer := []\<rparr>) row"
    using p(2) child(2) unfolding child_ok_def by (intro conjI exI [of _ "ptss @ [bc_buffer c]"]) simp_all
  moreover have "length (run_log st' depth) \<le> length (run_log st depth) + 12 * length (bc_buffer c)"
    using e(2) len by (simp add: appended_def)
  ultimately show ?thesis
    using False e store_ext_child [OF ext] by (auto simp: flush_materialized_child_buffer_def appended_def)
qed

definition buffered :: "buffered_child list \<Rightarrow> nat" where
  "buffered children = (\<Sum>c\<leftarrow>children. length (bc_buffer c))"

definition mat_inv :: "usize \<Rightarrow> bool list \<Rightarrow> cluster list \<Rightarrow> mat_state \<Rightarrow> nat \<Rightarrow> bool" where
  "mat_inv depth inl rows s budget \<longleftrightarrow>
     run_inv (snd s) \<and> list_all2 (child_ok depth (snd s)) (fst s) rows \<and> map bc_inline (fst s) = inl \<and>
     length (run_log (snd s) depth) + 12 * buffered (fst s) + 12 * budget \<le> usize_max"

lemma buffered_update:
  "i < length cs \<Longrightarrow> buffered (cs[i := c]) + length (bc_buffer (cs ! i)) = buffered cs + length (bc_buffer c)"
proof -
  assume i: "i < length cs"
  then have "length (bc_buffer (cs ! i)) \<le> buffered cs"
    unfolding buffered_def by (intro member_le_sum_list) auto
  then show ?thesis using i by (simp add: buffered_def map_update sum_list_update)
qed

text \<open>One push to one child.\<close>

lemma push_one:
  fixes point :: u32
  assumes sys: "os_ok sys" and inv: "mat_inv depth inl rows (children, st) (Suc budget)" and i: "i < length children"
  defines "child \<equiv> (children ! i)\<lparr>bc_buffer := bc_buffer (children ! i) @ [point]\<rparr>"
  shows "\<exists>c' st'. (if \<not> bc_inline child \<and> cap \<le> length (bc_buffer child)
      then flush_materialized_child_buffer sys depth child st else Inr (child, st)) = Inr (c', st') \<and>
    mat_inv depth inl (rows[i := rows ! i @ [point]]) (children[i := c'], st') budget"
proof -
  have st: "run_inv st" and all: "list_all2 (child_ok depth st) children rows" and inl: "map bc_inline children = inl"
    and room: "length (run_log st depth) + 12 * buffered children + 12 * Suc budget \<le> usize_max"
    using inv by (simp_all add: mat_inv_def)
  have len: "length children = length rows" using all by (rule list_all2_lengthD)
  have buf: "length (bc_buffer child) = Suc (length (bc_buffer (children ! i)))" "bc_inline child = bc_inline (children ! i)"
    by (simp_all add: child_def)
  have "child_ok depth st (children ! i) (rows ! i)" using all i by (simp add: list_all2_conv_all_nth)
  then have ok: "child_ok depth st child (rows ! i @ [point])" unfolding child_ok_def child_def by auto
  have inl': "map bc_inline (children[i := c]) = inl" if "bc_inline c = bc_inline (children ! i)" for c
    using that i unfolding inl [symmetric] map_update by (simp add: list_update_same_conv)
  show ?thesis
  proof (cases "\<not> bc_inline child \<and> cap \<le> length (bc_buffer child)")
    case False
    have "buffered (children[i := child]) = Suc (buffered children)"
      using buffered_update [OF i, of child] buf(1) by simp
    moreover have "list_all2 (child_ok depth st) (children[i := child]) (rows[i := rows ! i @ [point]])"
      using all ok by (rule list_all2_update_cong)
    ultimately have "mat_inv depth inl (rows[i := rows ! i @ [point]]) (children[i := child], st) budget"
      using st room inl' [OF buf(2)] by (simp add: mat_inv_def)
    then show ?thesis using False by auto
  next
    case True
    have "length (bc_buffer (children ! i)) \<le> buffered children"
      using i unfolding buffered_def by (intro member_le_sum_list) auto
    then have "length (run_log st depth) + 12 * length (bc_buffer child) \<le> usize_max" using room buf(1) by simp
    then obtain c' st' where f: "flush_materialized_child_buffer sys depth child st = Inr (c', st')" "run_inv st'"
        "child_ok depth st' c' (rows ! i @ [point])" "bc_buffer c' = []" "bc_inline c' = bc_inline child"
        "length (run_log st' depth) \<le> length (run_log st depth) + 12 * length (bc_buffer child)"
        "\<And>d r. child_ok depth st d r \<Longrightarrow> child_ok depth st' d r"
      using flush_ok [OF sys st ok conjunct1 [OF True]] by blast
    have "buffered (children[i := c']) + length (bc_buffer (children ! i)) = buffered children"
      using buffered_update [OF i, of c'] f(4) by simp
    moreover have "list_all2 (child_ok depth st') children rows" using all f(7) by (rule list_all2_mono)
    then have "list_all2 (child_ok depth st') (children[i := c']) (rows[i := rows ! i @ [point]])"
      using f(3) by (rule list_all2_update_cong)
    moreover have "length (run_log st' depth) \<le> length (run_log st depth) + 12 * Suc (length (bc_buffer (children ! i)))"
      using f(6) buf(1) by simp
    ultimately have "mat_inv depth inl (rows[i := rows ! i @ [point]]) (children[i := c'], st') budget"
      using f(2,5) room inl' [of c'] buf(2) by (simp add: mat_inv_def)
    then show ?thesis using True f(1) by simp
  qed
qed

definition add_point :: "u32 \<Rightarrow> u16 list \<Rightarrow> cluster list \<Rightarrow> cluster list" where
  "add_point p ms rows = map (\<lambda>i. if i \<in> unat ` set ms then rows ! i @ [p] else rows ! i) [0..<length rows]"

lemma length_add_point [simp]: "length (add_point p ms rows) = length rows"
  by (simp add: add_point_def)

lemma nth_add_point: "i < length rows \<Longrightarrow> add_point p ms rows ! i = (if i \<in> unat ` set ms then rows ! i @ [p] else rows ! i)"
  by (simp add: add_point_def)

lemma add_point_Cons:
  assumes "m \<notin> set ms" "unat m < length rows"
  shows "add_point p (m # ms) rows = add_point p ms (rows[unat m := rows ! unat m @ [p]])"
proof -
  have "unat m \<notin> unat ` set ms" using assms(1) by (simp add: unat_image)
  then show ?thesis using assms(2) by (intro nth_equalityI) (auto simp: nth_add_point nth_list_update)
qed

lemma mat_inv_lengths:
  "mat_inv depth inl rows s b \<Longrightarrow> length (fst s) = length inl" "mat_inv depth inl rows s b \<Longrightarrow> length rows = length inl"
  by (auto simp: mat_inv_def dest: list_all2_lengthD)

lemma mat_inv_budget: "mat_inv depth inl rows s b \<Longrightarrow> b' \<le> b \<Longrightarrow> mat_inv depth inl rows s b'"
  by (simp add: mat_inv_def)

lemma push_point_ok:
  assumes "os_ok sys" "mat_inv depth inl rows s (length ms + budget)" "distinct ms" "\<forall>m \<in> set ms. unat m < length inl"
  shows "\<exists>s'. push_point sys depth cap p ms s = Inr s' \<and> mat_inv depth inl (add_point p ms rows) s' budget"
  using assms(2-4)
proof (induction ms arbitrary: s rows)
  case Nil
  have "add_point p [] rows = rows" by (simp add: add_point_def map_nth)
  then show ?case using Nil by (cases s) auto
next
  case (Cons m ms)
  obtain children st where s: "s = (children, st)" by (cases s)
  have m: "unat m < length children" "unat m < length rows"
    using mat_inv_lengths [OF Cons.prems(1)] Cons.prems(3) by (auto simp: s)
  let ?child = "(children ! unat m)\<lparr>bc_buffer := bc_buffer (children ! unat m) @ [p]\<rparr>"
  have "mat_inv depth inl rows (children, st) (Suc (length ms + budget))" using Cons.prems(1) by (simp add: s)
  then obtain c' st' where c': "(if \<not> bc_inline ?child \<and> cap \<le> length (bc_buffer ?child)
      then flush_materialized_child_buffer sys depth ?child st else Inr (?child, st)) = Inr (c', st')"
      "mat_inv depth inl (rows[unat m := rows ! unat m @ [p]]) (children[unat m := c'], st') (length ms + budget)"
    using push_one [OF assms(1) _ m(1), of depth inl rows st "length ms + budget" p cap] by blast
  have "\<exists>s'. push_point sys depth cap p ms (children[unat m := c'], st') = Inr s' \<and>
      mat_inv depth inl (add_point p ms (rows[unat m := rows ! unat m @ [p]])) s' budget"
    using Cons.IH [OF c'(2)] Cons.prems(2,3) by simp
  moreover have "push_point sys depth cap p (m # ms) s = push_point sys depth cap p ms (children[unat m := c'], st')"
    using m(1) c'(1) by (simp add: s not_le Let_def)
  ultimately show ?case using add_point_Cons [of m ms rows p] Cons.prems(2) m(2) by simp
qed

text \<open>The rows after some points, each in the children \<open>mm p\<close>.\<close>

definition add_points :: "(u32 \<Rightarrow> u16 list) \<Rightarrow> u32 list \<Rightarrow> cluster list \<Rightarrow> cluster list" where
  "add_points mm ps rows = map (\<lambda>i. rows ! i @ filter (\<lambda>p. i \<in> unat ` set (mm p)) ps) [0..<length rows]"

lemma add_points_simps [simp]:
  "add_points mm [] rows = rows"
  "length (add_points mm ps rows) = length rows"
  "add_points mm (p # ps) rows = add_points mm ps (add_point p (mm p) rows)"
  "add_points mm qs (add_points mm ps rows) = add_points mm (ps @ qs) rows"
  by (auto simp: add_points_def map_nth nth_add_point intro!: nth_equalityI)

definition merged_ok :: "nat \<Rightarrow> nat \<Rightarrow> (u32 \<Rightarrow> u16 list) \<Rightarrow> u32 list \<Rightarrow> bool" where
  "merged_ok n cap mm ps \<longleftrightarrow> (\<forall>p \<in> set ps. distinct (mm p) \<and> length (mm p) \<le> cap \<and> (\<forall>m \<in> set (mm p). unat m < n))"

lemma push_points_ok:
  assumes "os_ok sys" "mat_inv depth inl rows s (cap * length ps + budget)" "merged_ok (length inl) cap mm ps"
  shows "\<exists>s'. push_points sys depth bcap ps (map mm ps) s = Inr s' \<and> mat_inv depth inl (add_points mm ps rows) s' budget"
  using assms(2,3)
proof (induction ps arbitrary: s rows)
  case (Cons p ps)
  have p: "distinct (mm p)" "length (mm p) \<le> cap" "\<forall>m \<in> set (mm p). unat m < length inl" and ps: "merged_ok (length inl) cap mm ps"
    using Cons.prems(2) by (simp_all add: merged_ok_def)
  have "mat_inv depth inl rows s (length (mm p) + (cap * length ps + budget))"
    using Cons.prems(1) by (rule mat_inv_budget) (use p(2) in simp)
  then obtain s1 where s1: "push_point sys depth bcap p (mm p) s = Inr s1"
      "mat_inv depth inl (add_point p (mm p) rows) s1 (cap * length ps + budget)"
    using push_point_ok [OF assms(1) _ p(1,3)] by blast
  show ?case using Cons.IH [OF s1(2) ps] s1(1) by simp
qed simp

section \<open>Materialization from any record source\<close>

text \<open>
  The interface of \<open>AssignmentRecordSource\<close>: a source that holds a list of records hands out the next
  one, and then holds the rest.
\<close>

locale record_source =
  fixes source :: "'s source" and holds :: "usize \<Rightarrow> 's \<Rightarrow> u16 list list \<Rightarrow> bool"
  assumes read_next: "holds cap s (r # rs) \<Longrightarrow> \<exists>pad s'. source cap s = Inr (length r, r @ pad, s') \<and> holds cap s' rs"
begin

lemma read_records_ok:
  "holds cap s (map f ps @ rs) \<Longrightarrow> \<exists>s'. read_records source cap ps s = Inr (map f ps, s') \<and> holds cap s' rs"
proof (induction ps arbitrary: s)
  case (Cons p ps)
  then obtain pad s1 where s1: "source cap s = Inr (length (f p), f p @ pad, s1)" "holds cap s1 (map f ps @ rs)"
    using read_next [of cap s "f p" "map f ps @ rs"] by auto
  then show ?case using Cons.IH [OF s1(2)] by auto
qed simp

lemma batches_ok:
  assumes sys: "os_ok sys" and mm: "\<forall>p \<in> set (concat batches). merged_for_point table (f p) [] = Inr (mm p)"
    and ok: "merged_ok (length inl) cap mm (concat batches)"
    and s: "mat_inv depth inl rows s (cap * length (concat batches))" and src: "holds rcap src (map f (concat batches))"
  shows "\<exists>s'. materialize_batches source sys depth rcap bcap table batches src s = Inr s' \<and>
    mat_inv depth inl (add_points mm (concat batches) rows) s' 0"
  using mm ok s src
proof (induction batches arbitrary: s src rows)
  case (Cons b batches)
  have ok: "merged_ok (length inl) cap mm b" "merged_ok (length inl) cap mm (concat batches)"
    using Cons.prems(2) by (auto simp: merged_ok_def)
  obtain src1 where src1: "read_records source rcap b src = Inr (map f b, src1)" "holds rcap src1 (map f (concat batches))"
    using read_records_ok [of rcap src f b] Cons.prems(4) by auto
  have "\<forall>p \<in> set b. merged_for_point table (f p) [] = Inr (mm p)" using Cons.prems(1) by simp
  then have mr: "merge_records table (map f b) = Inr (map mm b)" by (induction b) auto
  have "mat_inv depth inl rows s (cap * length b + cap * length (concat batches))"
    using Cons.prems(3) by (simp add: distrib_left)
  then obtain s1 where s1: "push_points sys depth bcap b (map mm b) s = Inr s1"
      "mat_inv depth inl (add_points mm b rows) s1 (cap * length (concat batches))"
    using push_points_ok [OF sys _ ok(1)] by blast
  show ?case using Cons.IH [OF _ ok(2) s1(2) src1(2)] Cons.prems(1) src1(1) mr s1(1) by simp
qed (auto intro: mat_inv_budget)

end

interpretation contiguous: record_source contiguous_read
  "\<lambda>cap reader rs. cap \<le> 32 \<and> (\<forall>r \<in> set rs. length r \<le> cap) \<and> (\<exists>rest. reader = concat (map (assign_record cap) rs) @ rest)"
  by unfold_locales (auto simp: contiguous_read_def read_assign_record_ok)

text \<open>The segmented source: what is left of the current segment, then the segments to come.\<close>

definition seg_bytes :: "segmented_source \<Rightarrow> u8 list" where
  "seg_bytes s = take (sg_remaining_bytes s) (sg_reader s) @
     concat (map (\<lambda>seg. take (ss_seg_len seg) (drop (ss_offset seg) (sg_file s))) (drop (sg_next_segment_idx s) (sg_segments s)))"

definition seg_inv :: "usize \<Rightarrow> segmented_source \<Rightarrow> bool" where
  "seg_inv cap s \<longleftrightarrow> sg_record_width s = 1 + 2 * cap \<and> sg_remaining_bytes s mod (1 + 2 * cap) = 0 \<and>
     sg_remaining_bytes s \<le> length (sg_reader s) \<and>
     (\<forall>seg \<in> set (sg_segments s). ss_seg_len seg mod (1 + 2 * cap) = 0 \<and> ss_offset seg + ss_seg_len seg \<le> length (sg_file s))"

lemma seek_ok:
  "seg_inv cap s \<Longrightarrow> seg_bytes s \<noteq> [] \<Longrightarrow>
   \<exists>s'. seek_next_segment s = Inr (True, s') \<and> seg_inv cap s' \<and> seg_bytes s' = seg_bytes s \<and> sg_remaining_bytes s' \<noteq> 0"
proof (induction s rule: seek_next_segment.induct)
  case (1 s)
  let ?i = "sg_next_segment_idx s"
  show ?case
  proof (cases "sg_remaining_bytes s = 0")
    case False
    then show ?thesis using 1 by (simp add: seek_next_segment.simps [of s])
  next
    case rem: True
    have i: "?i < length (sg_segments s)"
      by (rule ccontr) (use "1.prems"(2) rem in \<open>auto simp: seg_bytes_def not_less\<close>)
    let ?seg = "sg_segments s ! ?i" and ?s1 = "s\<lparr>sg_next_segment_idx := sg_next_segment_idx s + 1\<rparr>"
    have seg: "ss_seg_len ?seg mod (1 + 2 * cap) = 0" "ss_offset ?seg + ss_seg_len ?seg \<le> length (sg_file s)"
      using "1.prems"(1) i by (simp_all add: seg_inv_def)
    have fit: "ss_seg_len ?seg \<le> length (sg_file s) - ss_offset ?seg" using seg(2) by linarith
    have dr: "drop ?i (sg_segments s) = ?seg # drop (Suc ?i) (sg_segments s)" using i by (rule Cons_nth_drop_Suc [symmetric])
    show ?thesis
    proof (cases "ss_seg_len ?seg = 0")
      case True
      have "seg_inv cap ?s1" "seg_bytes ?s1 = seg_bytes s"
        using "1.prems"(1) rem True by (simp_all add: seg_inv_def seg_bytes_def dr)
      then show ?thesis
        using "1.IH" [OF _ _ refl refl True] rem i "1.prems"(2) True by (simp add: seek_next_segment.simps [of s] not_le Let_def)
    next
      case False
      then show ?thesis
        using "1.prems"(1) rem i seg(1) fit by (auto simp: seek_next_segment.simps [of s] not_le Let_def seg_inv_def seg_bytes_def dr)
    qed
  qed
qed

definition seg_holds :: "usize \<Rightarrow> segmented_source \<Rightarrow> u16 list list \<Rightarrow> bool" where
  "seg_holds cap s rs \<longleftrightarrow> cap \<le> 32 \<and> (\<forall>r \<in> set rs. length r \<le> cap) \<and> seg_inv cap s \<and>
     seg_bytes s = concat (map (assign_record cap) rs)"

lemma segmented_next:
  assumes "seg_holds cap s (r # rs)"
  shows "\<exists>pad s'. segmented_read cap s = Inr (length r, r @ pad, s') \<and> seg_holds cap s' rs"
proof -
  have len: "length (assign_record cap r) = 1 + 2 * cap" and r: "length r \<le> cap" "cap \<le> 32"
    using assms by (simp_all add: seg_holds_def length_assign_record)
  have ne: "seg_bytes s \<noteq> []" "seg_inv cap s" using assms len by (auto simp: seg_holds_def)
  obtain s1 where s1: "seek_next_segment s = Inr (True, s1)" "seg_inv cap s1" "seg_bytes s1 = seg_bytes s" "sg_remaining_bytes s1 \<noteq> 0"
    using seek_ok [OF ne(2,1)] by auto
  have w: "1 + 2 * cap \<le> sg_remaining_bytes s1"
    using s1(2,4) by (metis dvd_imp_le dvd_eq_mod_eq_0 neq0_conv seg_inv_def)
  have bytes: "take (sg_remaining_bytes s1) (sg_reader s1) @ concat (map (\<lambda>seg. take (ss_seg_len seg) (drop (ss_offset seg) (sg_file s1)))
      (drop (sg_next_segment_idx s1) (sg_segments s1))) = assign_record cap r @ concat (map (assign_record cap) rs)"
    using s1(3) assms by (simp add: seg_holds_def seg_bytes_def)
  have rl: "sg_remaining_bytes s1 \<le> length (sg_reader s1)" using s1(2) by (simp add: seg_inv_def)
  have "take (1 + 2 * cap) (sg_reader s1) = assign_record cap r"
    using arg_cong [OF bytes, of "take (1 + 2 * cap)"] w rl len by (simp add: min_def)
  then have reader: "sg_reader s1 = assign_record cap r @ drop (1 + 2 * cap) (sg_reader s1)" by (metis append_take_drop_id)
  let ?s' = "s1\<lparr>sg_reader := drop (1 + 2 * cap) (sg_reader s1), sg_remaining_bytes := sg_remaining_bytes s1 - (1 + 2 * cap)\<rparr>"
  have "read_assign_record cap (sg_reader s1) = Inr (length r, r @ replicate (cap - length r) 0, drop (1 + 2 * cap) (sg_reader s1))"
    by (subst reader) (rule read_assign_record_ok [OF r])
  then have "segmented_read cap s = Inr (length r, r @ replicate (cap - length r) 0, ?s')"
    using s1(1,2) by (simp add: segmented_read_def seg_inv_def)
  moreover have "seg_bytes ?s' = concat (map (assign_record cap) rs)"
    using arg_cong [OF bytes, of "drop (1 + 2 * cap)"] w rl len by (simp add: seg_bytes_def drop_take)
  moreover have "seg_inv cap ?s'" using s1(2) w rl by (auto simp: seg_inv_def mod_if le_mod_geq [symmetric])
  ultimately show ?thesis using assms by (auto simp: seg_holds_def)
qed

interpretation segmented: record_source segmented_read seg_holds
  by unfold_locales (rule segmented_next)

lemma seg_holds_new:
  assumes "cap = assign_record_fanout fanout" "\<forall>r \<in> set rs. length r \<le> cap"
    and "\<forall>seg \<in> set segments. ss_seg_len seg mod (1 + 2 * cap) = 0 \<and> ss_offset seg + ss_seg_len seg \<le> length spool"
    and "concat (map (\<lambda>seg. take (ss_seg_len seg) (drop (ss_offset seg) spool)) segments) = concat (map (assign_record cap) rs)"
  shows "seg_holds cap (segmented_new spool segments cap) rs"
proof -
  have "assign_record_fanout cap = cap" "cap \<le> 32" by (simp_all add: assms(1) assign_record_fanout_def)
  then show ?thesis
    using assms(2-4) by (simp add: seg_holds_def seg_inv_def seg_bytes_def segmented_new_def assign_record_width_def)
qed

section \<open>What materialization delivers\<close>

definition group_row :: "(u32 \<Rightarrow> usize list) \<Rightarrow> u32 list \<Rightarrow> merged_raw_group \<Rightarrow> cluster" where
  "group_row ids cur g = filter (\<lambda>p. \<exists>i \<in> set (ids p). word_of_nat i \<in> set (raw_children g)) cur"

definition materialized_ok :: "usize \<Rightarrow> run_store \<Rightarrow> materialized_child \<Rightarrow> cluster \<Rightarrow> bool" where
  "materialized_ok depth st m row \<longleftrightarrow>
     (case mc_points m of
        Some points \<Rightarrow> points = row
      | None \<Rightarrow> \<exists>ptss. list_all2 (\<lambda>e pts. run_stored st (depth, pts) e) (mc_extents m) ptss \<and> row = concat ptss)"

lemma finish_ok:
  assumes "os_ok sys" "run_inv st" "list_all2 (child_ok depth st) children rows"
    and "length (run_log st depth) + 12 * buffered children \<le> usize_max"
  shows "\<exists>ms st'. finish_children sys depth children st = Inr (ms, st') \<and> run_inv st' \<and>
    list_all2 (materialized_ok depth st') ms rows \<and> (\<forall>m r. materialized_ok depth st m r \<longrightarrow> materialized_ok depth st' m r)"
  using assms(2-4)
proof (induction children arbitrary: rows st)
  case Nil
  then show ?case by simp
next
  case (Cons c cs)
  obtain row rows' where rows: "rows = row # rows'" using Cons.prems(2) by (cases rows) auto
  have c: "child_ok depth st c row" and cs: "list_all2 (child_ok depth st) cs rows'" using Cons.prems(2) by (simp_all add: rows)
  have room: "length (run_log st depth) + 12 * length (bc_buffer c) + 12 * buffered cs \<le> usize_max"
    using Cons.prems(3) by (simp add: buffered_def)
  have "\<exists>c' st1. (if bc_inline c then Inr (c, st) else flush_materialized_child_buffer sys depth c st) = Inr (c', st1) \<and>
      run_inv st1 \<and> child_ok depth st1 c' row \<and> bc_inline c' = bc_inline c \<and> (bc_inline c \<or> bc_buffer c' = []) \<and>
      length (run_log st1 depth) \<le> length (run_log st depth) + 12 * length (bc_buffer c) \<and>
      (\<forall>d r. child_ok depth st d r \<longrightarrow> child_ok depth st1 d r)"
  proof (cases "bc_inline c")
    case True
    then show ?thesis using Cons.prems(1) c by auto
  next
    case False
    then show ?thesis using flush_ok [OF assms(1) Cons.prems(1) c False] room by auto
  qed
  then obtain c' st1 where c': "(if bc_inline c then Inr (c, st) else flush_materialized_child_buffer sys depth c st) = Inr (c', st1)"
      "run_inv st1" "child_ok depth st1 c' row" "bc_inline c' = bc_inline c" "bc_inline c \<or> bc_buffer c' = []"
      "length (run_log st1 depth) \<le> length (run_log st depth) + 12 * length (bc_buffer c)"
      and keep: "\<And>d r. child_ok depth st d r \<Longrightarrow> child_ok depth st1 d r" by blast
  have "list_all2 (child_ok depth st1) cs rows'" using cs keep by (rule list_all2_mono)
  moreover have "length (run_log st1 depth) + 12 * buffered cs \<le> usize_max" using room c'(6) by linarith
  ultimately obtain ms st' where ms: "finish_children sys depth cs st1 = Inr (ms, st')" "run_inv st'"
      "list_all2 (materialized_ok depth st') ms rows'" "\<And>m r. materialized_ok depth st1 m r \<Longrightarrow> materialized_ok depth st' m r"
    using Cons.IH [OF c'(2)] by blast
  let ?m = "\<lparr>mc_extents = bc_extents c', mc_points = (if bc_inline c' then Some (bc_buffer c') else None)\<rparr>"
  have "materialized_ok depth st1 ?m row"
    using c'(3-5) by (cases "bc_inline c") (auto simp: materialized_ok_def child_ok_def)
  moreover have "materialized_ok depth st m r \<Longrightarrow> materialized_ok depth st1 m r" for m r
    using keep [of "\<lparr>bc_extents = mc_extents m, bc_buffer = [], bc_inline = False\<rparr>" r]
    by (auto simp: materialized_ok_def child_ok_def split: option.splits)
  ultimately show ?case using ms c'(1) by (auto simp: rows)
qed

definition groups_ok :: "merged_raw_group list \<Rightarrow> (u32 \<Rightarrow> usize list) \<Rightarrow> usize \<Rightarrow> u32 list \<Rightarrow> bool" where
  "groups_ok groups ids cap cur \<longleftrightarrow>
     distinct (concat (map raw_children groups)) \<and> length groups \<le> 2 ^ 16 \<and>
     (\<forall>p \<in> set cur. length (ids p) \<le> cap \<and> (\<forall>i \<in> set (ids p). \<exists>m. in_group groups m (word_of_nat i)))"

definition point_groups :: "merged_raw_group list \<Rightarrow> (u32 \<Rightarrow> usize list) \<Rightarrow> u32 \<Rightarrow> u16 list" where
  "point_groups groups ids p =
     (case merged_for_point (raw_to_merged groups) (map word_of_nat (ids p)) [] of Inr ms \<Rightarrow> ms | Inl _ \<Rightarrow> [])"

lemma unat_group_idx: "in_group groups m c \<Longrightarrow> length groups \<le> 2 ^ 16 \<Longrightarrow> unat (word_of_nat m :: u16) = m"
  by (simp add: in_group_def unsigned_of_nat take_bit_nat_eq_self_iff)

lemma point_groups_ok:
  assumes "groups_ok groups ids cap cur" "p \<in> set cur"
  shows "merged_for_point (raw_to_merged groups) (map word_of_nat (ids p)) [] = Inr (point_groups groups ids p)"
    and "distinct (point_groups groups ids p)" "length (point_groups groups ids p) \<le> cap"
    and "unat ` set (point_groups groups ids p) = {m. \<exists>i \<in> set (ids p). in_group groups m (word_of_nat i)}"
proof -
  let ?t = "raw_to_merged groups"
  have G: "distinct (concat (map raw_children groups))" "length groups \<le> 2 ^ 16" "length (ids p) \<le> cap"
    and g: "\<forall>i \<in> set (ids p). \<exists>m. in_group groups m (word_of_nat i)"
    using assms by (auto simp: groups_ok_def)
  have "\<forall>c \<in> set (map word_of_nat (ids p) :: u16 list). unat c < length ?t"
  proof
    fix c :: u16 assume "c \<in> set (map word_of_nat (ids p))"
    then obtain m where "in_group groups m c" using g by auto
    then show "unat c < length ?t" by (rule raw_to_merged_group(1) [OF G(1)])
  qed
  from merged_for_point_ok [OF this, of "[]"]
  obtain ms where ms: "merged_for_point ?t (map word_of_nat (ids p)) [] = Inr ms" "distinct ms" "length ms \<le> length (ids p)"
      "set ms = (\<lambda>c. ?t ! unat c) ` set (map word_of_nat (ids p) :: u16 list)" by auto
  then have eq: "point_groups groups ids p = ms" by (simp add: point_groups_def)
  show "merged_for_point ?t (map word_of_nat (ids p)) [] = Inr (point_groups groups ids p)"
    "distinct (point_groups groups ids p)" "length (point_groups groups ids p) \<le> cap"
    using ms G(3) by (simp_all add: eq)
  have val: "unat (?t ! unat (word_of_nat i :: u16)) = m" if "in_group groups m (word_of_nat i)" for i m
    using raw_to_merged_group(2) [OF G(1) that] unat_group_idx [OF that G(2)] by simp
  have img: "unat ` set ms = (\<lambda>i. unat (?t ! unat (word_of_nat i :: u16))) ` set (ids p)"
    by (simp add: ms(4) image_image)
  have "unat ` set ms = {m. \<exists>i \<in> set (ids p). in_group groups m (word_of_nat i)}"
  proof (intro equalityI subsetI)
    fix m assume "m \<in> unat ` set ms"
    then obtain i where i: "i \<in> set (ids p)" "m = unat (?t ! unat (word_of_nat i :: u16))" using img by auto
    then show "m \<in> {m. \<exists>i \<in> set (ids p). in_group groups m (word_of_nat i)}" using g val by auto
  next
    fix m assume "m \<in> {m. \<exists>i \<in> set (ids p). in_group groups m (word_of_nat i)}"
    then show "m \<in> unat ` set ms" using img val by force
  qed
  then show "unat ` set (point_groups groups ids p) = {m. \<exists>i \<in> set (ids p). in_group groups m (word_of_nat i)}"
    by (simp add: eq)
qed

lemma add_points_rows:
  assumes "groups_ok groups ids cap cur"
  shows "add_points (point_groups groups ids) cur (replicate (length groups) []) = map (group_row ids cur) groups"
proof (rule nth_equalityI)
  fix k assume "k < length (add_points (point_groups groups ids) cur (replicate (length groups) []))"
  then have k: "k < length groups" by simp
  have "k \<in> unat ` set (point_groups groups ids p) \<longleftrightarrow> (\<exists>i \<in> set (ids p). word_of_nat i \<in> set (raw_children (groups ! k)))"
    if "p \<in> set cur" for p
    using point_groups_ok(4) [OF assms that] k by (simp add: in_group_def)
  then have "filter (\<lambda>p. k \<in> unat ` set (point_groups groups ids p)) cur = group_row ids cur (groups ! k)"
    unfolding group_row_def by (rule filter_cong [OF refl])
  then show "add_points (point_groups groups ids) cur (replicate (length groups) []) ! k = map (group_row ids cur) groups ! k"
    using k by (simp add: add_points_def)
qed simp

lemma groups_merged_ok:
  assumes "groups_ok groups ids cap cur"
  shows "merged_ok (length groups) cap (point_groups groups ids) cur"
proof -
  have "unat m < length groups" if "p \<in> set cur" "m \<in> set (point_groups groups ids p)" for p m
    using that point_groups_ok(4) [OF assms that(1)] by (auto simp: in_group_def)
  then show ?thesis using point_groups_ok(2,3) [OF assms] by (auto simp: merged_ok_def)
qed

context record_source
begin

lemma materialize_ok:
  assumes sys: "os_ok sys" and inv: "run_inv st" and g: "groups_ok groups ids cap cur"
    and cap: "cap = assign_record_fanout fanout" and src: "holds cap src (map (\<lambda>p. map word_of_nat (ids p)) cur)"
    and room: "length (run_log st depth) + 12 * cap * length cur \<le> usize_max"
  shows "\<exists>ms st'. materialize_merged_children source sys cur depth fanout groups src inline_limit st = Inr (ms, st') \<and>
    run_inv st' \<and> list_all2 (materialized_ok depth st') ms (map (group_row ids cur) groups)"
proof -
  let ?inline = "\<lambda>group. case inline_limit of None \<Rightarrow> False | Some limit \<Rightarrow> raw_len group \<le> limit"
  let ?children = "map (\<lambda>group. \<lparr>bc_extents = [], bc_buffer = [], bc_inline = ?inline group\<rparr>) groups"
  let ?bcap = "max MATERIALIZE_CHILD_BUFFER_POINTS (assign_record_fanout fanout)"
  let ?batches = "chunks (max MATERIALIZE_BATCH_POINTS ?bcap) cur"
  have cc: "concat ?batches = cur" by (rule concat_chunks) (simp add: MATERIALIZE_BATCH_POINTS_def)
  have "buffered ?children = 0" by (simp add: buffered_def comp_def)
  moreover have "list_all2 (child_ok depth st) ?children (replicate (length groups) [])"
    by (simp add: list_all2_conv_all_nth child_ok_def)
  ultimately have s: "mat_inv depth (map ?inline groups) (replicate (length groups) []) (?children, st) (cap * length (concat ?batches))"
    using inv room by (simp add: mat_inv_def cc comp_def)
  have mm: "\<forall>p \<in> set (concat ?batches). merged_for_point (raw_to_merged groups) (map word_of_nat (ids p)) [] = Inr (point_groups groups ids p)"
    unfolding cc using point_groups_ok(1) [OF g] by simp
  have ok: "merged_ok (length (map ?inline groups)) cap (point_groups groups ids) (concat ?batches)"
    unfolding cc using groups_merged_ok [OF g] by simp
  have src': "holds (assign_record_fanout fanout) src (map (\<lambda>p. map word_of_nat (ids p)) (concat ?batches))"
    unfolding cc using src by (simp add: cap)
  obtain children st1 where b: "materialize_batches source sys depth (assign_record_fanout fanout) ?bcap (raw_to_merged groups)
        ?batches src (?children, st) = Inr (children, st1)"
      "mat_inv depth (map ?inline groups) (map (group_row ids cur) groups) (children, st1) 0"
    using batches_ok [OF sys mm ok s src', of ?bcap] add_points_rows [OF g] unfolding cc by auto
  have c: "run_inv st1" "list_all2 (child_ok depth st1) children (map (group_row ids cur) groups)"
    "length (run_log st1 depth) + 12 * buffered children \<le> usize_max"
    using b(2) by (simp_all add: mat_inv_def)
  show ?thesis
    using finish_ok [OF sys c] b(1) unfolding materialize_merged_children_def Let_def by auto
qed

end

lemma load_children_ok:
  assumes "os_ok sys" "run_inv st" "list_all2 (materialized_ok depth st) ms rows"
  shows "load_children sys depth True ms st = Inr (map sort_dedup rows)"
  using assms(3)
proof (induction rule: list_all2_induct)
  case (Cons m ms row rows)
  have "(case mc_points m of Some points \<Rightarrow> Inr points | None \<Rightarrow> read_child_run_chain sys depth (mc_extents m) st) = Inr row"
  proof (cases "mc_points m")
    case None
    then obtain ptss where p: "list_all2 (\<lambda>e pts. run_stored st (depth, pts) e) (mc_extents m) ptss" "row = concat ptss"
      using Cons.hyps(1) by (auto simp: materialized_ok_def)
    have "list_all2 (\<lambda>e pts. read_points sys depth e st = Inr pts) (mc_extents m) ptss"
      using p(1) by (rule list_all2_mono) (rule run_stored_read [OF assms(1,2)])
    then show ?thesis using read_chain_ok p(2) None by (simp add: read_child_run_chain_def)
  qed (use Cons.hyps(1) in \<open>simp add: materialized_ok_def\<close>)
  then show ?case using Cons.IH by simp
qed simp

lemma sort_dedup_set: "set c = set d \<Longrightarrow> sort_dedup c = sort_dedup d"
proof -
  assume eq: "set c = set d"
  have "sorted_wrt (<) (sort_dedup c)" for c
    using dedup_by_key_strict [of "\<lambda>x. x" "sort c"] by (simp add: sort_dedup_def)
  moreover have "set (sort_dedup c) = set c" for c
    using keys_dedup_by_key [of "\<lambda>x. x" "sort c"] by (simp add: sort_dedup_def)
  ultimately show ?thesis using eq by (metis sorted_list_of_set.idem_if_sorted_distinct strict_sorted_iff)
qed

section \<open>The raw children of a plan\<close>

definition raw_all :: "merged_raw_group list \<times> merged_raw_group option \<Rightarrow> u16 list" where
  "raw_all = (\<lambda>(result, small). concat (map raw_children result) @ (case small of None \<Rightarrow> [] | Some g \<Rightarrow> raw_children g))"

lemma merge_raw_all: "mset (raw_all (merge_raw c_min c_max (i, n) s)) = add_mset i (mset (raw_all s))"
  by (cases s) (auto simp: raw_all_def Let_def split: option.split)

lemma fold_merge_raw_all: "mset (raw_all (fold (merge_raw c_min c_max) is s)) = mset (map fst is) + mset (raw_all s)"
proof (induction "is" arbitrary: s)
  case (Cons x xs)
  then show ?case by (cases x) (simp add: merge_raw_all del: merge_raw.simps)
qed simp

lemma concat_map_butlast: "xs \<noteq> [] \<Longrightarrow> concat (map f (butlast xs)) @ f (last xs) = concat (map f xs)"
  by (induction xs) auto

lemma merge_raw_last_all: "mset (concat (map raw_children (merge_raw_last c_max s))) = mset (raw_all s)"
proof -
  obtain gs g where s: "s = (gs, g)" by (cases s)
  have "gs \<noteq> [] \<Longrightarrow> mset (concat (map raw_children (butlast gs))) + mset (raw_children (last gs)) = mset (concat (map raw_children gs))"
    using concat_map_butlast [of gs raw_children] by (metis mset_append)
  then show ?thesis by (auto simp: s merge_raw_last_def raw_all_def add.assoc [symmetric] split: option.split)
qed

lemma mset_merge_plan:
  "mset (concat (map raw_children (merge_cluster_plan counts c_min c_max))) = mset (map fst (raw_clusters counts))"
  by (simp add: merge_cluster_plan_def Let_def merge_raw_last_all fold_merge_raw_all) (simp add: raw_all_def)

lemma word_of_unat16: "word_of_nat (unat c) = (c :: u16)"
  by simp

lemma raw_clusters_ids:
  assumes "length counts \<le> 2 ^ 16"
  shows "distinct (map fst (raw_clusters counts))" "c \<in> set (map fst (raw_clusters counts)) \<longleftrightarrow> unat c < length counts \<and> 0 < counts ! unat c"
    "length (raw_clusters counts) \<le> length counts"
proof -
  have idx: "unat (word_of_nat i :: u16) = i" if "i < length counts" for i
    using that assms by (simp add: unsigned_of_nat take_bit_nat_eq_self_iff)
  have fst: "map fst (raw_clusters counts) = map word_of_nat (map fst (filter (\<lambda>(i, len). 0 < len) (enumerate 0 counts)))"
    by (auto simp: raw_clusters_def)
  have sub: "set (map fst (filter (\<lambda>(i, len). 0 < len) (enumerate 0 counts))) \<subseteq> {..<length counts}"
    by (auto simp: in_set_enumerate_eq)
  have "inj_on (word_of_nat :: nat \<Rightarrow> u16) {..<length counts}" by (rule inj_on_inverseI [of _ unat]) (simp add: idx)
  then have "inj_on (word_of_nat :: nat \<Rightarrow> u16) (set (map fst (filter (\<lambda>(i, len). 0 < len) (enumerate 0 counts))))"
    using sub by (rule inj_on_subset)
  moreover have "distinct (map fst (filter (\<lambda>(i, len). 0 < len) (enumerate 0 counts)))"
    by (rule distinct_map_filter) simp
  ultimately show "distinct (map fst (raw_clusters counts))" unfolding fst distinct_map [of word_of_nat] by (rule conjI [rotated])
  have "c \<in> set (map fst (raw_clusters counts)) \<longleftrightarrow> (\<exists>i < length counts. 0 < counts ! i \<and> c = word_of_nat i)"
    unfolding raw_clusters_def by (force simp: in_set_enumerate_eq image_iff)
  also have "\<dots> \<longleftrightarrow> unat c < length counts \<and> 0 < counts ! unat c" using idx by (metis word_of_unat16)
  finally show "c \<in> set (map fst (raw_clusters counts)) \<longleftrightarrow> unat c < length counts \<and> 0 < counts ! unat c" .
  show "length (raw_clusters counts) \<le> length counts" unfolding raw_clusters_def by (metis length_enumerate length_filter_le length_map)
qed

section \<open>External and in-memory partition agree\<close>

lemma length_le_concat: "[] \<notin> set xss \<Longrightarrow> length xss \<le> length (concat xss)"
  by (induction xss) (auto simp: Suc_le_eq add_strict_increasing less_eq_Suc_le [symmetric])

lemma plan_groups_ok:
  fixes c_min c_max :: nat
  assumes "n \<le> 2 ^ 16" "\<forall>p \<in> set cur. set (ids p) \<subseteq> {..<n} \<and> length (ids p) \<le> cap"
  defines "groups \<equiv> merge_cluster_plan (map length (clusters_of ids n cur)) c_min c_max"
  shows "groups_ok groups ids cap cur"
proof -
  let ?counts = "map length (clusters_of ids n cur)"
  have ids: "length ?counts \<le> 2 ^ 16" using assms(1) by simp
  note raw = raw_clusters_ids [OF ids]
  have m: "mset (concat (map raw_children groups)) = mset (map fst (raw_clusters ?counts))"
    unfolding groups_def by (rule mset_merge_plan)
  have "distinct (concat (map raw_children groups))" using raw(1) m mset_eq_imp_distinct_iff by blast
  moreover have set: "set (concat (map raw_children groups)) = set (map fst (raw_clusters ?counts))"
    using m by (metis set_mset_mset)
  have "\<exists>m. in_group groups m (word_of_nat i)" if p: "p \<in> set cur" "i \<in> set (ids p)" for p i
  proof -
    have i: "i < n" using p assms(2) by auto
    then have u: "unat (word_of_nat i :: u16) = i" using assms(1) by (simp add: unsigned_of_nat take_bit_nat_eq_self_iff)
    have "p \<in> set (cluster_of ids cur i)" using p by (simp add: cluster_of_def)
    then have "0 < ?counts ! i" using i by (auto simp: clusters_of_def)
    then have "(word_of_nat i :: u16) \<in> set (concat (map raw_children groups))" using set raw(2) u i by simp
    then obtain g where "g \<in> set groups" "word_of_nat i \<in> set (raw_children g)" by auto
    then show ?thesis by (metis in_group_def in_set_conv_nth)
  qed
  moreover have "length groups \<le> 2 ^ 16"
  proof -
    have "list_all2 (group_of (clusters_of ids n cur)) groups (merge_clusters (clusters_of ids n cur) c_min c_max)"
      unfolding groups_def using assms(1) by (intro merge_plan_groups) simp
    then have "raw_children g \<noteq> []" if "g \<in> set groups" for g
      using that merge_clusters_ok by (force simp: list_all2_conv_all_nth in_set_conv_nth group_of_def group_points_def mergeable_def)
    then have "[] \<notin> set (map raw_children groups)" by (metis in_set_conv_nth length_map nth_map nth_mem)
    then have "length (map raw_children groups) \<le> length (concat (map raw_children groups))" by (rule length_le_concat)
    also have "\<dots> = length (raw_clusters ?counts)" using m by (metis length_map size_mset)
    finally show ?thesis using raw(3) assms(1) by simp
  qed
  ultimately show ?thesis using assms(2) by (auto simp: groups_ok_def)
qed

lemma group_row_set:
  assumes n: "n \<le> 2 ^ 16" and ids: "\<forall>p \<in> set cur. set (ids p) \<subseteq> {..<n}"
    and g: "group_of (clusters_of ids n cur) g c" "\<forall>i \<in> set (raw_children g). unat i < n"
  shows "set (group_row ids cur g) = set c"
proof -
  have "set c = (\<Union>i \<in> set (raw_children g). set (clusters_of ids n cur ! unat i))"
    using g(1) by (auto simp: group_of_def group_points_def)
  also have "\<dots> = {p \<in> set cur. \<exists>i \<in> set (raw_children g). unat i \<in> set (ids p)}"
    using g(2) by (auto simp: clusters_of_def cluster_of_def)
  also have "\<dots> = set (group_row ids cur g)"
  proof -
    have "(\<exists>i \<in> set (raw_children g). unat i \<in> set (ids p)) \<longleftrightarrow> (\<exists>k \<in> set (ids p). word_of_nat k \<in> set (raw_children g))"
      if "p \<in> set cur" for p
    proof -
      have "unat (word_of_nat k :: u16) = k" if "k \<in> set (ids p)" for k
      proof -
        have "k < 2 ^ 16" using that ids n \<open>p \<in> set cur\<close> by fastforce
        then show ?thesis by (simp add: unsigned_of_nat take_bit_nat_eq_self_iff)
      qed
      then show ?thesis by (metis word_of_unat16)
    qed
    then show ?thesis by (auto simp: group_row_def)
  qed
  finally show ?thesis by simp
qed

lemma rows_sort_dedup:
  assumes n: "n \<le> 2 ^ 16" and ids: "\<forall>p \<in> set cur. set (ids p) \<subseteq> {..<n}"
  defines "clusters \<equiv> clusters_of ids n cur"
  shows "map sort_dedup (map (group_row ids cur) (merge_cluster_plan (map length clusters) c_min c_max)) =
    map sort_dedup (merge_clusters clusters c_min c_max)"
proof -
  let ?groups = "merge_cluster_plan (map length clusters) c_min c_max" and ?merged = "merge_clusters clusters c_min c_max"
  have all: "list_all2 (group_of clusters) ?groups ?merged"
    unfolding clusters_def using n by (intro merge_plan_groups) simp
  have len: "length (map length clusters) \<le> 2 ^ 16" using n by (simp add: clusters_def)
  have "unat i < n" if "g \<in> set ?groups" "i \<in> set (raw_children g)" for g i
  proof -
    have "i \<in> set (concat (map raw_children ?groups))" using that by auto
    then have "i \<in> set (map fst (raw_clusters (map length clusters)))" by (metis mset_merge_plan set_mset_mset)
    then show ?thesis using raw_clusters_ids(2) [OF len] by (simp add: clusters_def)
  qed
  then have "set (group_row ids cur g) = set c" if "g \<in> set ?groups" "group_of clusters g c" for g c
    using that group_row_set [OF n ids] unfolding clusters_def by blast
  then have "list_all2 (\<lambda>g c. sort_dedup (group_row ids cur g) = sort_dedup c) ?groups ?merged"
    using all by (auto simp: list_all2_conv_all_nth intro!: sort_dedup_set)
  then show ?thesis by (auto simp: list_all2_conv_all_nth intro!: nth_equalityI)
qed


text \<open>From the spool of an assignment to the clusters that the step in memory computes.\<close>

lemma spool_children_ok:
  assumes sys: "os_ok sys" and inv: "run_inv st" and n: "n \<le> 2 ^ 16"
    and ids: "\<forall>p \<in> set cur. set (ids p) \<subseteq> {..<n} \<and> length (ids p) \<le> fo" and fo: "assign_record_fanout fo = fo"
    and room: "length (run_log st depth) + 12 * 32 * length cur \<le> usize_max"
  defines "clusters \<equiv> clusters_of ids n cur"
    and "spool \<equiv> concat (map (\<lambda>p. assign_record fo (map word_of_nat (ids p))) cur)"
  shows "\<exists>ms st'. materialize_from_spool sys cur depth fo (merge_cluster_plan (map length clusters) c_min c_max) spool inline_limit st = Inr (ms, st') \<and>
    load_children sys depth True ms st' = Inr (map sort_dedup (merge_clusters clusters c_min c_max))"
proof -
  let ?groups = "merge_cluster_plan (map length clusters) c_min c_max"
  have g: "groups_ok ?groups ids fo cur" unfolding clusters_def by (rule plan_groups_ok [OF n ids])
  have fo32: "fo \<le> 32" by (metis fo assign_record_fanout_def min.cobounded2)
  have src: "fo \<le> 32 \<and> (\<forall>r \<in> set (map (\<lambda>p. map word_of_nat (ids p) :: u16 list) cur). length r \<le> fo) \<and>
      (\<exists>rest. spool = concat (map (assign_record fo) (map (\<lambda>p. map word_of_nat (ids p)) cur)) @ rest)"
    using ids fo32 by (simp add: spool_def comp_def)
  have "12 * fo * length cur \<le> 12 * 32 * length cur" using fo32 by simp
  then have room': "length (run_log st depth) + 12 * fo * length cur \<le> usize_max" using room by linarith
  obtain ms st' where m: "materialize_from_spool sys cur depth fo ?groups spool inline_limit st = Inr (ms, st')"
      "run_inv st'" "list_all2 (materialized_ok depth st') ms (map (group_row ids cur) ?groups)"
    unfolding materialize_from_spool_def using contiguous.materialize_ok [OF sys inv g fo [symmetric] src room'] by blast
  have "load_children sys depth True ms st' = Inr (map sort_dedup (merge_clusters clusters c_min c_max))"
    using load_children_ok [OF sys m(2,3)] rows_sort_dedup [OF n, of cur ids c_min c_max] ids by (simp add: clusters_def)
  then show ?thesis using m(1) by blast
qed

text \<open>Where every distance to a leader is a number, the external partition step (spool, plan,
  materialization, child runs read back) delivers the clusters the step in memory computes: the same
  clusters, in the same order, each as the sorted set of its points.\<close>

theorem external_equals_in_memory:
  assumes "os_ok sys" "run_inv st" and num: "all_numbers dist leaders cur"
    and n: "length leaders \<le> 2 ^ 16" and f: "0 < local_fanout" "local_fanout \<le> length leaders"
    and scalar: "\<not> (metric_l2 \<and> 256 \<le> length cur)"
    and room: "length (run_log st depth) + 12 * 32 * length cur \<le> usize_max"
  shows "\<exists>clusters ea ms st'.
    scalar_clusters dist leaders (length leaders) local_fanout cur = Inr clusters \<and>
    partition_external_once gemm_spool dist metric_l2 cur c_min adaptive_c_max leaders local_fanout = Inr ea \<and>
    materialize_from_spool sys cur depth (ea_fanout ea) (ea_merge_groups ea) (ea_spool ea) inline_limit st = Inr (ms, st') \<and>
    load_children sys depth True ms st' = Inr (map sort_dedup (merge_clusters clusters c_min adaptive_c_max))"
proof -
  let ?n = "length leaders" and ?fo = "min local_fanout 32" and ?ids = "ids_of dist leaders local_fanout"
  let ?clusters = "clusters_of ?ids ?n cur"
  let ?groups = "merge_cluster_plan (map length ?clusters) c_min adaptive_c_max"
  let ?spool = "concat (map (\<lambda>p. assign_record ?fo (map word_of_nat (?ids p))) cur)"
  have a: "assigns (if local_fanout = 1 then assign_nearest dist leaders else assign_top_k dist leaders local_fanout) ?ids ?n ?fo cur"
    using f by (intro assigns_ids [OF num]) auto
  have fo: "assign_record_fanout (min (max local_fanout 1) ?n) = ?fo" "assign_record_fanout (min ?fo ?n) = ?fo"
    "assign_record_fanout ?fo = ?fo" "max ?n 1 = ?n" using f by (auto simp: assign_record_fanout_def)
  have "assign_top_k dist leaders ?fo = assign_top_k dist leaders local_fanout" by (simp add: assign_top_k_def tk_new_def fun_eq_iff)
  then have same: "(if ?fo = 1 then assign_nearest dist leaders else assign_top_k dist leaders ?fo) =
      (if local_fanout = 1 then assign_nearest dist leaders else assign_top_k dist leaders local_fanout)" by (simp add: min_def)
  have "scalar_clusters dist leaders ?n local_fanout cur = Inr ?clusters"
    unfolding scalar_clusters_def using f by (intro clusters_ok [OF a]) linarith
  moreover have "partition_external_once gemm_spool dist metric_l2 cur c_min adaptive_c_max leaders local_fanout =
      Inr \<lparr>ea_spool = ?spool, ea_fanout = ?fo, ea_merge_groups = ?groups\<rparr>"
    unfolding partition_external_once_def compute_clusters_scalar_to_spool_def Let_def fo same if_not_P [OF scalar]
      raw_counts_ok [OF a fo(3)] by simp
  moreover have "\<forall>p \<in> set cur. set (?ids p) \<subseteq> {..<?n} \<and> length (?ids p) \<le> ?fo" using a by (simp add: assigns_def)
  from spool_children_ok [OF assms(1,2) n this fo(3) room]
  obtain ms st' where "materialize_from_spool sys cur depth ?fo ?groups ?spool inline_limit st = Inr (ms, st')"
    "load_children sys depth True ms st' = Inr (map sort_dedup (merge_clusters ?clusters c_min adaptive_c_max))" by blast
  ultimately show ?thesis by simp
qed

theorem external_equals_in_memory_witness:
  "\<exists>clusters ea ms st'.
    scalar_clusters (\<lambda>p l. Inr (if l = p then 0 else 0x3f800000)) [7, 8, 9] (length [7, 8, 9 :: u32]) 2 [7, 8, 9, 10] = Inr clusters \<and>
    partition_external_once (\<lambda>leaders fanout cur counts. Inl index_panic) (\<lambda>p l. Inr (if l = p then 0 else 0x3f800000))
      True [7, 8, 9, 10] 2 3 [7, 8, 9] 2 = Inr ea \<and>
    materialize_from_spool \<lparr>os_give = \<lambda>off n. n, os_accept = \<lambda>off b. 5\<rparr> [7, 8, 9, 10] 1 (ea_fanout ea) (ea_merge_groups ea) (ea_spool ea)
      (Some 3) demo_store = Inr (ms, st') \<and>
    load_children \<lparr>os_give = \<lambda>off n. n, os_accept = \<lambda>off b. 5\<rparr> 1 True ms st' = Inr (map sort_dedup (merge_clusters clusters 2 3))"
proof (rule external_equals_in_memory)
  show "os_ok \<lparr>os_give = \<lambda>off n. n, os_accept = \<lambda>off b. 5\<rparr>" by (simp add: os_ok_def gives_def accepts_def)
  show "run_inv demo_store" by (rule demo_store_ok(1))
  show "all_numbers (\<lambda>p l. Inr (if l = p then 0 else 0x3f800000)) [7, 8, 9] [7, 8, 9, 10]"
    by (simp add: all_numbers_def f32_is_nan_code)
  show "length (run_log demo_store 1) + 12 * 32 * length [7, 8, 9, 10 :: u32] \<le> usize_max"
    unfolding demo_store_ok(2) by (simp add: usize_max_def)
qed simp_all


end
