(* ===== verification/Leaves.thy ===== *)
theory Leaves
  imports Sampling Gemm Materialize
begin

text \<open>
  Emission of leaves, \<^verbatim>\<open>ForgeANN/src/forgeann/rbc_partition/mod.rs\<close>: \<open>emit_leaf\<close>,
  \<open>emit_leaf_with_safety\<close> and the forced split of a leaf that is too large, with the size and fan-out
  parameters of \<^verbatim>\<open>params.rs\<close>. A call returns the leaves it hands to the leaf emitter, in order; the
  counters of \<open>PartitionStats\<close> are left out.
\<close>

section \<open>Parameters\<close>

record part_params =
  pp_c_min :: usize
  pp_c_max :: usize
  pp_max_leaders :: usize
  pp_max_depth :: usize
  pp_fanout_top :: usize
  pp_fanout_second :: usize
  pp_max_full_matrix_leaf_size :: usize

definition fanout_for_depth :: "part_params \<Rightarrow> usize \<Rightarrow> usize" where
  "fanout_for_depth params depth =
     (if depth = 0 then pp_fanout_top params else if depth = 1 then pp_fanout_second params else 1)"

definition kernel_safe_leaf_size :: "part_params \<Rightarrow> usize" where
  "kernel_safe_leaf_size params = max (pp_max_full_matrix_leaf_size params) 1"

definition adaptive_c_max :: "part_params \<Rightarrow> usize \<Rightarrow> usize" where
  "adaptive_c_max params total_size =
     (if 5000000 \<le> total_size then sat_mul (pp_c_max params) 2 else pp_c_max params)"

definition should_dedup_cluster :: "usize \<Rightarrow> usize \<Rightarrow> bool" where
  "should_dedup_cluster depth local_fanout \<longleftrightarrow> depth \<le> 1 \<or> 1 < local_fanout"

text \<open>
  What the partition is given: the parameters, the library's sorts, the distance and the matrix
  assignment (\<open>cur\<close>, leaders, fan-out) of the point store, whether the metric is \<open>L2\<close>, and the seeded
  generator: \<open>pe_draw seed i\<close> is the \<open>i\<close>-th number of \<open>StdRng::seed_from_u64(seed)\<close>. The two comparisons of
  floating-point numbers are functions of the sizes: \<open>pe_psamp n depth\<close> is the rounded product of the sampling
  fraction and \<open>n\<close>, \<open>pe_shrink parent_n n\<close> tells whether \<open>parent_n / n\<close> is below the minimal ratio.
\<close>

record seeded_cluster =
  sc_points :: cluster
  sc_seed :: u64

record part_env =
  pe_params :: part_params
  pe_sample :: sample_sorts
  pe_cluster_sort :: "(seeded_cluster \<Rightarrow> int) \<Rightarrow> seeded_cluster list \<Rightarrow> seeded_cluster list"
  pe_dist :: distance
  pe_gemm :: "u32 list \<Rightarrow> u32 list \<Rightarrow> usize \<Rightarrow> cluster list result"
  pe_l2 :: bool
  pe_draw :: "u64 \<Rightarrow> nat \<Rightarrow> u64"
  pe_psamp :: "usize \<Rightarrow> usize \<Rightarrow> usize"
  pe_shrink :: "usize \<Rightarrow> usize \<Rightarrow> bool"

section \<open>Leaves\<close>

datatype leaf_reason = NaturalSize | MaxDepth | ShrinkRatio | SmallDeep | MinRecurse | PartitionFallback

record leaf =
  lf_depth :: usize
  lf_reason :: leaf_reason
  lf_points :: cluster

definition FORCED_LEAF_HARD_CAP :: usize where
  "FORCED_LEAF_HARD_CAP = 8000"

definition FORCED_LEAF_SPLIT_RETRY_LIMIT :: nat where
  "FORCED_LEAF_SPLIT_RETRY_LIMIT = 6"

fun reason_tag :: "leaf_reason \<Rightarrow> u64" where
  "reason_tag NaturalSize = 0"
| "reason_tag MaxDepth = 1"
| "reason_tag ShrinkRatio = 2"
| "reason_tag SmallDeep = 3"
| "reason_tag MinRecurse = 4"
| "reason_tag PartitionFallback = 5"

unbundle bit_operations_syntax

definition forced_leaf_split_seed :: "cluster \<Rightarrow> usize \<Rightarrow> leaf_reason \<Rightarrow> u64" where
  "forced_leaf_split_seed leaf depth reason =
     (let first = (case leaf of [] \<Rightarrow> 0 | p # _ \<Rightarrow> ucast p);
          final = (if leaf = [] then 0 else ucast (last leaf))
      in ((((word_of_nat depth * 0x9e3779b97f4a7c15) XOR (word_of_nat (length leaf) * 0xbf58476d1ce4e5b9))
            XOR word_rotl 17 first) XOR word_rotl 41 final) XOR reason_tag reason)"

section \<open>The forced split\<close>

definition max_len :: "cluster list \<Rightarrow> usize" where
  "max_len cs = foldr max (map length cs) 0"

text \<open>One attempt: the clusters after merging, dedup and removal of the empty ones.\<close>

definition forced_clusters :: "part_env \<Rightarrow> cluster \<Rightarrow> usize \<Rightarrow> usize \<Rightarrow> usize \<Rightarrow> u64 \<Rightarrow> usize \<Rightarrow> cluster list result" where
  "forced_clusters E leaf depth hard_cap local_fanout_base sample_seed num_leaders =
     (let leaders = sample_set_bottomk (pe_sample E) leaf num_leaders sample_seed;
          local_fanout = max (min local_fanout_base (length leaders)) 1
      in res_bind (if pe_l2 E \<and> 256 \<le> length leaf then pe_gemm E leaf leaders local_fanout
                   else top_k_clusters (pe_dist E) leaders num_leaders local_fanout leaf) (\<lambda>clusters.
           let merged = merge_clusters clusters (min (pp_c_min (pe_params E)) hard_cap) hard_cap;
               merged = (if should_dedup_cluster depth local_fanout then map sort_dedup merged else merged)
           in Inr (filter (\<lambda>c. c \<noteq> []) merged)))"

text \<open>The best split so far with the size of its largest part.\<close>

type_synonym best_split = "cluster list option \<times> usize"

definition splits :: "usize \<Rightarrow> cluster list \<Rightarrow> bool" where
  "splits n merged \<longleftrightarrow> 1 < length merged \<and> max_len merged < n"

definition keep_best :: "usize \<Rightarrow> cluster list \<Rightarrow> best_split \<Rightarrow> best_split" where
  "keep_best n merged best =
     (if splits n merged \<and> max_len merged < snd best then (Some merged, max_len merged) else best)"

text \<open>The loop over the attempts; \<open>next_leaders\<close> always differs from \<open>num_leaders\<close> (the code tests it again).\<close>

primrec forced_attempts ::
  "nat \<Rightarrow> part_env \<Rightarrow> cluster \<Rightarrow> usize \<Rightarrow> usize \<Rightarrow> usize \<Rightarrow> usize \<Rightarrow> u64 \<Rightarrow> nat \<Rightarrow> usize \<Rightarrow> best_split \<Rightarrow> cluster list option result" where
  "forced_attempts 0 E leaf depth hard_cap max_leaders local_fanout_base seed drawn num_leaders best = Inr (fst best)"
| "forced_attempts (Suc retries) E leaf depth hard_cap max_leaders local_fanout_base seed drawn num_leaders best =
     res_bind (forced_clusters E leaf depth hard_cap local_fanout_base (pe_draw E seed drawn) num_leaders) (\<lambda>merged.
       if splits (length leaf) merged \<and> max_len merged \<le> hard_cap then Inr (Some merged)
       else
         let best = keep_best (length leaf) merged best;
             next_leaders = max (min (sat_mul num_leaders 2) max_leaders) (num_leaders + 1)
         in if max_leaders \<le> num_leaders \<or> next_leaders = num_leaders then Inr (fst best)
            else forced_attempts retries E leaf depth hard_cap max_leaders local_fanout_base seed (drawn + 1) next_leaders best)"

definition forced_split_oversized_leaf :: "part_env \<Rightarrow> cluster \<Rightarrow> usize \<Rightarrow> usize \<Rightarrow> u64 \<Rightarrow> cluster list result" where
  "forced_split_oversized_leaf E leaf depth hard_cap seed =
     (let n = length leaf in
      if n \<le> hard_cap then Inr [leaf]
      else
        let max_leaders = min (max (pp_max_leaders (pe_params E)) 2) n
        in res_bind (clamp (div_ceil n hard_cap) 2 max_leaders) (\<lambda>num_leaders.
           res_bind (forced_attempts FORCED_LEAF_SPLIT_RETRY_LIMIT E leaf depth hard_cap max_leaders
                       (max (fanout_for_depth (pe_params E) depth) 1) seed 0 num_leaders (None, usize_max)) (\<lambda>best_split.
             Inr (case best_split of Some split \<Rightarrow> split | None \<Rightarrow> chunks hard_cap leaf))))"

section \<open>Emission\<close>

fun emit_all :: "('a \<Rightarrow> 'b list result) \<Rightarrow> 'a list \<Rightarrow> 'b list result" where
  "emit_all f [] = Inr []"
| "emit_all f (x # xs) = res_bind (f x) (\<lambda>ys. res_bind (emit_all f xs) (\<lambda>zs. Inr (ys @ zs)))"

lemma emit_all_cong [fundef_cong]:
  "xs = ys \<Longrightarrow> (\<And>x. x \<in> set ys \<Longrightarrow> f x = g x) \<Longrightarrow> emit_all f xs = emit_all g ys"
  by (induction ys arbitrary: xs) (auto intro!: res_bind_cong)

text \<open>A forced split makes strictly smaller parts, whatever the assignment does.\<close>

lemma max_len_ge: "c \<in> set cs \<Longrightarrow> length c \<le> max_len cs"
  by (induction cs) (auto simp: max_len_def)

definition smaller_parts :: "usize \<Rightarrow> cluster list option \<Rightarrow> bool" where
  "smaller_parts n best \<longleftrightarrow> (\<forall>split. best = Some split \<longrightarrow> (\<forall>c \<in> set split. length c < n))"

lemma splits_smaller: "splits n merged \<Longrightarrow> smaller_parts n (Some merged)"
  using max_len_ge le_less_trans by (fastforce simp: splits_def smaller_parts_def)

lemma keep_best_smaller: "smaller_parts n (fst best) \<Longrightarrow> smaller_parts n (fst (keep_best n merged best))"
  by (simp add: keep_best_def splits_smaller)

lemma forced_attempts_smaller:
  "forced_attempts retries E leaf depth hard_cap max_leaders base seed drawn num_leaders best = Inr r \<Longrightarrow>
   smaller_parts (length leaf) (fst best) \<Longrightarrow> smaller_parts (length leaf) r"
proof (induction retries arbitrary: drawn num_leaders best)
  case (Suc retries)
  obtain merged where "forced_clusters E leaf depth hard_cap base (pe_draw E seed drawn) num_leaders = Inr merged"
    using Suc.prems(1) by (auto simp: res_bind_Inr_iff)
  then show ?case
    using Suc.IH [OF _ keep_best_smaller [OF Suc.prems(2)]] Suc.prems(1) keep_best_smaller [OF Suc.prems(2)] splits_smaller
    by (auto simp: Let_def split: if_splits)
qed simp

lemma forced_split_smaller:
  assumes "forced_split_oversized_leaf E leaf depth hard_cap seed = Inr parts" "hard_cap < length leaf" "c \<in> set parts"
  shows "length c < length leaf"
proof -
  obtain num_leaders best where best: "forced_attempts FORCED_LEAF_SPLIT_RETRY_LIMIT E leaf depth hard_cap (min (max (pp_max_leaders (pe_params E)) 2) (length leaf))
      (max (fanout_for_depth (pe_params E) depth) 1) seed 0 num_leaders (None, usize_max) = Inr best"
    "parts = (case best of Some split \<Rightarrow> split | None \<Rightarrow> chunks hard_cap leaf)"
    using assms(1,2) by (auto simp: forced_split_oversized_leaf_def Let_def res_bind_Inr_iff)
  have "smaller_parts (length leaf) best"
    using forced_attempts_smaller [OF best(1)] by (simp add: smaller_parts_def)
  moreover have "length c < length leaf" if "best = None"
    using that best(2) assms(2,3) chunks_bounds [of c hard_cap leaf] by simp
  ultimately show ?thesis using best(2) assms(3) by (cases best) (auto simp: smaller_parts_def)
qed

function emit_leaf_with_safety :: "part_env \<Rightarrow> usize \<Rightarrow> leaf_reason \<Rightarrow> usize \<Rightarrow> cluster \<Rightarrow> leaf list result" where
  "emit_leaf_with_safety E depth reason max_leaf_size leaf =
     (if leaf = [] then Inr []
      else
        let forced_leaf_hard_cap = min FORCED_LEAF_HARD_CAP (max max_leaf_size 1) in
        if forced_leaf_hard_cap < length leaf then
          res_bind (forced_split_oversized_leaf E leaf depth forced_leaf_hard_cap (forced_leaf_split_seed leaf depth reason))
            (emit_all (emit_leaf_with_safety E depth reason max_leaf_size))
        else Inr [\<lparr>lf_depth = depth, lf_reason = reason, lf_points = leaf\<rparr>])"
  by pat_completeness auto
termination
  by (relation "measure (\<lambda>(E, depth, reason, max_leaf_size, leaf). length leaf)") (auto dest: forced_split_smaller)

declare emit_leaf_with_safety.simps [simp del]

definition emit_leaf :: "part_env \<Rightarrow> usize \<Rightarrow> leaf_reason \<Rightarrow> bool \<Rightarrow> usize \<Rightarrow> cluster \<Rightarrow> leaf list result" where
  "emit_leaf E depth reason dedup max_leaf_size leaf =
     (let leaf = (if dedup then sort_dedup leaf else leaf) in
      if leaf = [] then Inr [] else emit_leaf_with_safety E depth reason (max max_leaf_size 1) leaf)"

section \<open>Every point finds leaders\<close>

text \<open>At least one and at most \<open>fanout\<close> different leaders per point, whatever the distances are (NaN included).\<close>

definition topk_ids :: "(u32 \<Rightarrow> usize list) \<Rightarrow> nat \<Rightarrow> nat \<Rightarrow> u32 list \<Rightarrow> bool" where
  "topk_ids ids n fanout cur \<longleftrightarrow>
     (\<forall>p \<in> set cur. distinct (ids p) \<and> ids p \<noteq> [] \<and> set (ids p) \<subseteq> {..<n} \<and> length (ids p) \<le> fanout)"

lemma length_bubble [simp]: "length (bubble i buf) = length buf"
  by (induction i buf rule: bubble.induct) auto

lemma mset_take_swap: "i < m \<Longrightarrow> j < m \<Longrightarrow> m \<le> length xs \<Longrightarrow> mset (take m (xs[i := xs ! j, j := xs ! i])) = mset (take m xs)"
  using mset_swap [of j "take m xs" i] by (simp add: take_update_swap)

lemma mset_take_bubble: "i < m \<Longrightarrow> m \<le> length buf \<Longrightarrow> mset (take m (bubble i buf)) = mset (take m buf)"
proof (induction i buf rule: bubble.induct)
  case (2 i buf)
  then show ?case using mset_take_swap [of "Suc i" m i buf] by (simp add: mset_take_swap)
qed simp

definition tk_ids :: "nat \<Rightarrow> nat \<Rightarrow> top_k \<Rightarrow> bool" where
  "tk_ids k n t \<longleftrightarrow> tk_k t = k \<and> length (tk_buf t) = 32 \<and> tk_len t = min k n \<and>
     distinct (map snd (tk_iter t)) \<and> set (map snd (tk_iter t)) \<subseteq> {..<n}"

lemma tk_push_ids:
  assumes t: "tk_ids k n t" and k: "0 < k" "k \<le> 32"
  shows "\<exists>t'. tk_push d n t = Inr t' \<and> tk_ids k (Suc n) t'"
proof -
  let ?buf = "tk_buf t"
  have buf: "length ?buf = 32" "tk_k t = k" "tk_len t = min k n" "distinct (map snd (take (min k n) ?buf))"
      "set (map snd (take (min k n) ?buf)) \<subseteq> {..<n}"
    using t unfolding tk_ids_def tk_iter_def by (elim conjE, simp only:)+
  have bub: "mset (map snd (take (Suc m) (bubble m (?buf[m := (d, n)])))) = add_mset n (mset (map snd (take m ?buf)))" if "m < 32" for m
  proof -
    have "mset (take (Suc m) (bubble m (?buf[m := (d, n)]))) = mset (take (Suc m) (?buf[m := (d, n)]))"
      using that buf(1) by (intro mset_take_bubble) simp_all
    also have "take (Suc m) (?buf[m := (d, n)]) = take m ?buf @ [(d, n)]"
      using that buf(1) by (simp add: take_Suc_conv_app_nth)
    finally show ?thesis by (simp only: mset_map mset_append mset.simps image_mset_union image_mset_add_mset image_mset_empty snd_conv add_mset_add_single [symmetric])
  qed
  have ids: "tk_ids k (Suc n) (t\<lparr>tk_buf := bubble m (?buf[m := (d, n)]), tk_len := Suc m\<rparr>)"
    if "Suc m = min k (Suc n)" "m \<le> min k n" for m
  proof -
    let ?new = "map snd (take (Suc m) (bubble m (?buf[m := (d, n)])))" and ?old = "map snd (take m ?buf)"
    have m: "m < 32" using that k by simp
    have "?old = take m (map snd (take (min k n) ?buf))" using that(2) by (simp add: take_map min_def)
    then have old: "distinct ?old" "set ?old \<subseteq> {..<n}"
      using buf(4) subset_trans [OF set_take_subset buf(5)] by (simp_all only: distinct_take)
    have "distinct (n # ?old)" using old by auto
    then have "distinct ?new" using bub [OF m] by (metis mset.simps(2) mset_eq_imp_distinct_iff)
    moreover have "set ?new \<subseteq> {..<Suc n}"
      using mset_eq_setD [OF bub [OF m, folded mset.simps(2)]] old(2) by auto
    ultimately show ?thesis using that buf(1,2) by (simp add: tk_ids_def tk_iter_def)
  qed
  show ?thesis
  proof (cases "n < k")
    case True
    then show ?thesis using buf(2,3) ids [of n] by (simp add: tk_push_def)
  next
    case False
    then have len: "tk_len t = k" "Suc (k - 1) = k" using buf(3) k by simp_all
    have "tk_ids k (Suc n) (t\<lparr>tk_buf := bubble (k - 1) (?buf[k - 1 := (d, n)])\<rparr>)"
      using ids [of "k - 1"] False k len by (simp add: tk_ids_def tk_iter_def)
    moreover have "tk_ids k (Suc n) t"
      using t False unfolding tk_ids_def by auto
    ultimately show ?thesis using buf(2) len k by (simp add: tk_push_def)
  qed
qed

lemma push_leaders_ids:
  assumes "tk_ids k n t" "0 < k" "k \<le> 32" "\<forall>l \<in> set ls. \<exists>d. dist p l = Inr d"
  shows "\<exists>t'. push_leaders dist p n ls t = Inr t' \<and> tk_ids k (n + length ls) t'"
  using assms(1,4)
proof (induction ls arbitrary: n t)
  case (Cons l ls)
  obtain d where d: "dist p l = Inr d" using Cons.prems(2) by auto
  obtain t1 where t1: "tk_push d n t = Inr t1" "tk_ids k (Suc n) t1"
    using tk_push_ids [OF Cons.prems(1) assms(2,3)] by blast
  show ?case using Cons.IH [OF t1(2)] Cons.prems(2) d t1(1) by auto
qed simp

lemma nearest_leader_id:
  "\<forall>l \<in> set ls. \<exists>d. dist p l = Inr d \<Longrightarrow> \<exists>i. nearest_leader dist p lid ls bd best = Inr i \<and> (i = best \<or> i < lid + length ls)"
proof (induction ls arbitrary: lid bd best)
  case (Cons l ls)
  obtain d where d: "dist p l = Inr d" using Cons.prems by auto
  show ?case
    using Cons.IH [of "Suc lid" d lid] Cons.IH [of "Suc lid" bd best] Cons.prems d by auto
qed simp

lemma assign_top_k_ids:
  assumes "\<forall>l \<in> set leaders. \<exists>d. dist p l = Inr d" "leaders \<noteq> []" "0 < fanout"
  shows "\<exists>is. assign_top_k dist leaders fanout p = Inr is \<and> distinct is \<and> is \<noteq> [] \<and> set is \<subseteq> {..<length leaders} \<and> length is \<le> fanout"
proof -
  let ?k = "min fanout 32"
  have "tk_ids ?k 0 (tk_new fanout)" by (simp add: tk_ids_def tk_new_def tk_iter_def)
  then obtain t where t: "push_leaders dist p 0 leaders (tk_new fanout) = Inr t" "tk_ids ?k (length leaders) t"
    using push_leaders_ids [of ?k 0 "tk_new fanout" leaders dist p] assms by auto
  have "length (tk_iter t) = min ?k (length leaders)" using t(2) by (simp add: tk_ids_def tk_iter_def)
  moreover have "0 < length leaders" using assms(2) by simp
  ultimately have "0 < length (tk_iter t)" "length (tk_iter t) \<le> fanout" using assms(3) by linarith+
  then show ?thesis using t by (auto simp: assign_top_k_def tk_ids_def)
qed

lemma assign_nearest_ids:
  assumes "\<forall>l \<in> set leaders. \<exists>d. dist p l = Inr d" "leaders \<noteq> []"
  shows "\<exists>is. assign_nearest dist leaders p = Inr is \<and> distinct is \<and> is \<noteq> [] \<and> set is \<subseteq> {..<length leaders} \<and> length is \<le> 1"
  using nearest_leader_id [of leaders dist p 0 f32_infinity 0] assms by (auto simp: assign_nearest_def)

lemma clusters_by_ids:
  assumes "\<forall>p \<in> set cur. \<exists>is. asg p = Inr is \<and> distinct is \<and> is \<noteq> [] \<and> set is \<subseteq> {..<n} \<and> length is \<le> fanout" "0 < n"
  shows "\<exists>ids. res_bind (empty_clusters n) (assign_points asg cur) = Inr (clusters_of ids n cur) \<and> topk_ids ids n fanout cur"
proof -
  let ?ids = "\<lambda>p. projr (asg p)"
  have ids: "asg p = Inr (?ids p) \<and> distinct (?ids p) \<and> ?ids p \<noteq> [] \<and> set (?ids p) \<subseteq> {..<n} \<and> length (?ids p) \<le> fanout"
    if "p \<in> set cur" for p
    using bspec [OF assms(1) that] by auto
  then have "assigns asg ?ids n fanout cur" unfolding assigns_def by blast
  from clusters_ok [OF this assms(2)] show ?thesis using ids by (auto simp: topk_ids_def intro!: exI [of _ ?ids])
qed

lemma scalar_clusters_ids:
  assumes "\<forall>p \<in> set cur. \<forall>l \<in> set leaders. \<exists>d. dist p l = Inr d" "leaders \<noteq> []" "0 < fanout"
  shows "\<exists>ids. scalar_clusters dist leaders (length leaders) fanout cur = Inr (clusters_of ids (length leaders) cur) \<and>
    topk_ids ids (length leaders) fanout cur"
  unfolding scalar_clusters_def
proof (rule clusters_by_ids)
  show "\<forall>p \<in> set cur. \<exists>is. (if fanout = 1 then assign_nearest dist leaders else assign_top_k dist leaders fanout) p = Inr is \<and>
      distinct is \<and> is \<noteq> [] \<and> set is \<subseteq> {..<length leaders} \<and> length is \<le> fanout"
    using assms assign_nearest_ids [of leaders dist] assign_top_k_ids [of leaders dist _ fanout] by simp
qed (use assms in simp)

lemma top_k_clusters_ids:
  assumes "\<forall>p \<in> set cur. \<forall>l \<in> set leaders. \<exists>d. dist p l = Inr d" "leaders \<noteq> []" "0 < fanout"
  shows "\<exists>ids. top_k_clusters dist leaders (length leaders) fanout cur = Inr (clusters_of ids (length leaders) cur) \<and>
    topk_ids ids (length leaders) fanout cur"
  unfolding top_k_clusters_def
proof (rule clusters_by_ids)
  show "\<forall>p \<in> set cur. \<exists>is. assign_top_k dist leaders fanout p = Inr is \<and>
      distinct is \<and> is \<noteq> [] \<and> set is \<subseteq> {..<length leaders} \<and> length is \<le> fanout"
    using assms assign_top_k_ids [of leaders dist _ fanout] by simp
qed (use assms in simp)

section \<open>The clusters cover the points\<close>

lemma set_clusters:
  assumes "topk_ids ids n fanout cur"
  shows "set (concat (clusters_of ids n cur)) = set cur"
proof -
  have "\<exists>i < n. i \<in> set (ids p)" if "p \<in> set cur" for p
  proof -
    have "ids p \<noteq> []" "set (ids p) \<subseteq> {..<n}" using assms that by (auto simp: topk_ids_def)
    then show ?thesis by (metis hd_in_set lessThan_iff subsetD)
  qed
  then show ?thesis unfolding clusters_of_def cluster_of_def by (fastforce simp: Bex_def)
qed

lemma mset_concat_insert:
  "j < n \<Longrightarrow> mset (concat (map (\<lambda>i. if i = j then x # A i else A i) [0..<n])) = add_mset x (mset (concat (map A [0..<n])))"
proof (induction n)
  case (Suc n)
  show ?case
  proof (cases "j = n")
    case True
    have "map (\<lambda>i. if i = n then x # A i else A i) [0..<n] = map A [0..<n]" by (rule map_cong) auto
    then show ?thesis by (simp add: True del: map_eq_conv)
  qed (use Suc in simp)
qed simp

lemma mset_clusters:
  assumes "topk_ids ids n 1 cur"
  shows "mset (concat (clusters_of ids n cur)) = mset cur"
  using assms
proof (induction cur)
  case Nil
  have "concat (clusters_of ids n []) = []" by (simp add: clusters_of_def cluster_of_def)
  then show ?case by simp
next
  case (Cons p cur)
  have "length (ids p) \<le> 1" "ids p \<noteq> []" "set (ids p) \<subseteq> {..<n}" using Cons.prems by (simp_all add: topk_ids_def)
  then obtain j where j: "ids p = [j]" "j < n" by (cases "ids p") auto
  have "clusters_of ids n (p # cur) = map (\<lambda>i. if i = j then p # cluster_of ids cur i else cluster_of ids cur i) [0..<n]"
    using j(1) by (auto simp: clusters_of_def cluster_of_def)
  then have "mset (concat (clusters_of ids n (p # cur))) = add_mset p (mset (concat (map (cluster_of ids cur) [0..<n])))"
    using mset_concat_insert [OF j(2), of p "cluster_of ids cur"] by simp
  also have "mset (concat (map (cluster_of ids cur) [0..<n])) = mset cur"
    using Cons by (simp add: topk_ids_def clusters_of_def)
  finally show ?case by simp
qed

lemma sort_dedup_props [simp]: "set (sort_dedup c) = set c" "distinct (sort_dedup c)" "sort_dedup c = [] \<longleftrightarrow> c = []"
proof -
  show s: "set (sort_dedup c) = set c" using keys_dedup_by_key [of "\<lambda>x. x" "sort c"] by (simp add: sort_dedup_def)
  have "sorted_wrt (<) (sort_dedup c)" using dedup_by_key_strict [of "\<lambda>x. x" "sort c"] by (simp add: sort_dedup_def)
  then show "distinct (sort_dedup c)" by (rule sorted_wrt_less_distinct)
  show "sort_dedup c = [] \<longleftrightarrow> c = []" using s by (metis set_empty)
qed

text \<open>Parts of a set of points: none empty, none with a point twice, together all the points.\<close>

definition parts_ok :: "cluster \<Rightarrow> cluster list \<Rightarrow> bool" where
  "parts_ok cur parts \<longleftrightarrow> (\<forall>c \<in> set parts. c \<noteq> [] \<and> distinct c) \<and> set (concat parts) = set cur"

lemma set_concat_mset: "mset (concat xs) = mset (concat ys) \<Longrightarrow> set (concat xs) = set (concat ys)"
  by (rule mset_eq_setD)

lemma merged_parts:
  fixes c_min c_max :: usize
  assumes ids: "topk_ids ids n fanout cur" "distinct cur" and dedup: "dedup \<or> fanout \<le> 1"
  defines "merged \<equiv> merge_clusters (clusters_of ids n cur) c_min c_max"
  shows "parts_ok cur (filter (\<lambda>c. c \<noteq> []) (if dedup then map sort_dedup merged else merged))"
proof -
  have m: "mset (concat merged) = mset (concat (clusters_of ids n cur))" unfolding merged_def by (rule mset_merge_clusters)
  then have s: "set (concat merged) = set cur" using set_concat_mset set_clusters [OF ids(1)] by blast
  show ?thesis
  proof (cases dedup)
    case True
    have "set (concat (map sort_dedup merged)) = set (concat merged)" by simp
    then show ?thesis using True s by (auto simp: parts_ok_def)
  next
    case False
    then have "topk_ids ids n 1 cur" using ids(1) dedup by (auto simp: topk_ids_def)
    then have "mset (concat merged) = mset cur" using m mset_clusters by simp
    then have "distinct (concat merged)" using ids(2) mset_eq_imp_distinct_iff by blast
    then have "\<forall>c \<in> set merged. distinct c" by (simp add: distinct_concat_iff)
    then show ?thesis using False s by (auto simp: parts_ok_def)
  qed
qed

section \<open>Leaves are non-empty sets within the cap\<close>

text \<open>
  What the partition relies on: the library sorts, distances between the points of \<open>P\<close>, and
  for \<open>L2\<close> an assignment that gives every point of \<open>P\<close> between one and \<open>fanout\<close> leaders.
\<close>

definition assigns_topk :: "(u32 list \<Rightarrow> u32 list \<Rightarrow> usize \<Rightarrow> cluster list result) \<Rightarrow> u32 set \<Rightarrow> bool" where
  "assigns_topk asg P \<longleftrightarrow>
     (\<forall>cur leaders fanout. distinct cur \<and> set cur \<subseteq> P \<and> distinct leaders \<and> set leaders \<subseteq> set cur \<and> leaders \<noteq> [] \<and> 0 < fanout \<longrightarrow>
        (\<exists>ids. asg cur leaders fanout = Inr (clusters_of ids (length leaders) cur) \<and> topk_ids ids (length leaders) fanout cur))"

locale partitioner =
  fixes E :: part_env and P :: "u32 set"
  assumes sample_sorts: "sample_sorts_ok (pe_sample E)"
    and cluster_sort: "unstable_sort (pe_cluster_sort E)"
    and dist_total: "p \<in> P \<Longrightarrow> l \<in> P \<Longrightarrow> \<exists>d. pe_dist E p l = Inr d"
    and matrix_total: "pe_l2 E \<Longrightarrow> assigns_topk (pe_gemm E) P"
begin

lemma sample_props:
  fixes seed :: u64
  assumes "distinct cur" "0 < k" "k \<le> length cur"
  defines "leaders \<equiv> sample_set_bottomk (pe_sample E) cur k seed"
  shows "length leaders = k" "distinct leaders" "set leaders \<subseteq> set cur" "leaders \<noteq> []"
proof -
  have eq: "leaders = bottomk (set cur) k seed" unfolding leaders_def by (rule sample_eq_bottomk [OF sample_sorts])
  show l: "length leaders = k" using assms(1-3) by (simp add: eq length_bottomk distinct_card)
  show "distinct leaders" "set leaders \<subseteq> set cur" unfolding eq by (simp_all add: distinct_bottomk set_bottomk)
  show "leaders \<noteq> []" using l assms(2) by auto
qed

lemma dists: "set cur \<subseteq> P \<Longrightarrow> set leaders \<subseteq> P \<Longrightarrow> \<forall>p \<in> set cur. \<forall>l \<in> set leaders. \<exists>d. pe_dist E p l = Inr d"
  using dist_total by blast

lemma forced_clusters_ok:
  assumes "distinct leaf" "set leaf \<subseteq> P" "0 < k" "k \<le> length leaf" "0 < base"
  shows "\<exists>merged. forced_clusters E leaf depth hard_cap base seed k = Inr merged \<and> parts_ok leaf merged"
proof -
  define leaders where "leaders = sample_set_bottomk (pe_sample E) leaf k seed"
  define fanout where "fanout = max (min base (length leaders)) 1"
  note s = sample_props [OF assms(1,3,4), of seed, folded leaders_def]
  have f: "0 < fanout" by (simp add: fanout_def)
  have "set leaders \<subseteq> P" using s(3) assms(2) by blast
  have "\<exists>ids. (if pe_l2 E \<and> 256 \<le> length leaf then pe_gemm E leaf leaders fanout
      else top_k_clusters (pe_dist E) leaders k fanout leaf) = Inr (clusters_of ids (length leaders) leaf) \<and> topk_ids ids (length leaders) fanout leaf"
  proof (cases "pe_l2 E \<and> 256 \<le> length leaf")
    case True
    then have "\<exists>ids. pe_gemm E leaf leaders fanout = Inr (clusters_of ids (length leaders) leaf) \<and> topk_ids ids (length leaders) fanout leaf"
      using matrix_total s f assms(1,2) unfolding assigns_topk_def by blast
    then show ?thesis using True by simp
  next
    case False
    then show ?thesis
      using top_k_clusters_ids [OF dists [OF assms(2) \<open>set leaders \<subseteq> P\<close>] s(4) f] s(1) by (simp only: if_False)
  qed
  then obtain ids where ids: "(if pe_l2 E \<and> 256 \<le> length leaf then pe_gemm E leaf leaders fanout
      else top_k_clusters (pe_dist E) leaders k fanout leaf) = Inr (clusters_of ids (length leaders) leaf)" "topk_ids ids (length leaders) fanout leaf" by blast
  have "should_dedup_cluster depth fanout \<or> fanout \<le> 1" by (auto simp: should_dedup_cluster_def)
  from merged_parts [OF ids(2) assms(1) this] show ?thesis
    unfolding forced_clusters_def Let_def leaders_def [symmetric] fanout_def [symmetric] ids(1) res_bind_simps by blast
qed

lemma forced_attempts_ok:
  assumes leaf: "distinct leaf" "set leaf \<subseteq> P" "0 < base" and ml: "max_leaders \<le> length leaf"
  shows "0 < k \<Longrightarrow> k \<le> max_leaders \<Longrightarrow> \<forall>parts. fst best = Some parts \<longrightarrow> parts_ok leaf parts \<Longrightarrow>
    \<exists>r. forced_attempts retries E leaf depth hard_cap max_leaders base seed drawn k best = Inr r \<and> (\<forall>parts. r = Some parts \<longrightarrow> parts_ok leaf parts)"
proof (induction retries arbitrary: drawn k best)
  case (Suc retries)
  obtain merged where m: "forced_clusters E leaf depth hard_cap base (pe_draw E seed drawn) k = Inr merged" "parts_ok leaf merged"
    using forced_clusters_ok [OF leaf(1,2) Suc.prems(1) _ leaf(3)] Suc.prems(2) ml by (meson le_trans)
  have best: "\<forall>parts. fst (keep_best (length leaf) merged best) = Some parts \<longrightarrow> parts_ok leaf parts"
    using m(2) Suc.prems(3) by (simp add: keep_best_def)
  have "\<exists>r. forced_attempts retries E leaf depth hard_cap max_leaders base seed (drawn + 1) (max (min (sat_mul k 2) max_leaders) (k + 1))
      (keep_best (length leaf) merged best) = Inr r \<and> (\<forall>parts. r = Some parts \<longrightarrow> parts_ok leaf parts)" if "\<not> max_leaders \<le> k"
    using that by (intro Suc.IH best) simp_all
  then show ?case using m best by (auto simp: Let_def)
qed simp

lemma forced_split_ok:
  assumes leaf: "distinct leaf" "set leaf \<subseteq> P" and cap: "0 < hard_cap" "hard_cap < length leaf"
  shows "\<exists>parts. forced_split_oversized_leaf E leaf depth hard_cap seed = Inr parts \<and> parts_ok leaf parts"
proof -
  let ?ml = "min (max (pp_max_leaders (pe_params E)) 2) (length leaf)"
  have two: "2 \<le> ?ml" using cap by simp
  have "clamp (div_ceil (length leaf) hard_cap) 2 ?ml = Inr (max 2 (min ?ml (div_ceil (length leaf) hard_cap)))"
    using two unfolding clamp_def by (simp only: linorder_not_less [symmetric] if_False)
  moreover have "0 < max 2 (min ?ml (div_ceil (length leaf) hard_cap))" "max 2 (min ?ml (div_ceil (length leaf) hard_cap)) \<le> ?ml"
    using two by (simp_all add: min.coboundedI1)
  ultimately obtain k where k: "clamp (div_ceil (length leaf) hard_cap) 2 ?ml = Inr k" "0 < k" "k \<le> ?ml" by blast
  obtain r where r: "forced_attempts FORCED_LEAF_SPLIT_RETRY_LIMIT E leaf depth hard_cap ?ml (max (fanout_for_depth (pe_params E) depth) 1) seed 0 k (None, usize_max) = Inr r"
      "\<forall>parts. r = Some parts \<longrightarrow> parts_ok leaf parts"
    using forced_attempts_ok [OF leaf _ _ k(2,3), of "max (fanout_for_depth (pe_params E) depth) 1" "(None, usize_max)"] by fastforce
  have "parts_ok leaf (chunks hard_cap leaf)"
  proof -
    have cc: "concat (chunks hard_cap leaf) = leaf" using cap by simp
    then have "distinct (concat (chunks hard_cap leaf))" using leaf(1) by simp
    then have "\<forall>c \<in> set (chunks hard_cap leaf). distinct c" unfolding distinct_concat_iff by blast
    then show ?thesis using chunks_bounds [of _ hard_cap leaf] unfolding parts_ok_def cc by blast
  qed
  then have "parts_ok leaf (case r of Some parts \<Rightarrow> parts | None \<Rightarrow> chunks hard_cap leaf)" using r(2) by (cases r) simp_all
  then show ?thesis using cap k(1) r(1) by (simp add: forced_split_oversized_leaf_def Let_def)
qed

end

text \<open>Leaves that partition a set of points into sets within a cap; overlaps are allowed.\<close>

definition leaves_ok :: "nat \<Rightarrow> u32 set \<Rightarrow> leaf list \<Rightarrow> bool" where
  "leaves_ok cap A leaves \<longleftrightarrow>
     (\<forall>l \<in> set leaves. lf_points l \<noteq> [] \<and> distinct (lf_points l) \<and> length (lf_points l) \<le> cap) \<and>
     (\<Union>l \<in> set leaves. set (lf_points l)) = A"

lemma leaves_ok_append: "leaves_ok cap A xs \<Longrightarrow> leaves_ok cap B ys \<Longrightarrow> leaves_ok cap (A \<union> B) (xs @ ys)"
  by (auto simp: leaves_ok_def)

lemma leaves_ok_Nil [simp]: "leaves_ok cap A [] \<longleftrightarrow> A = {}"
  by (auto simp: leaves_ok_def)

lemma emit_all_leaves:
  assumes "\<forall>x \<in> set xs. \<exists>leaves. f x = Inr leaves \<and> leaves_ok cap (pts x) leaves"
  shows "\<exists>leaves. emit_all f xs = Inr leaves \<and> leaves_ok cap (\<Union>x \<in> set xs. pts x) leaves"
  using assms
proof (induction xs)
  case (Cons x xs)
  obtain a where a: "f x = Inr a" "leaves_ok cap (pts x) a" using Cons.prems by auto
  obtain b where b: "emit_all f xs = Inr b" "leaves_ok cap (\<Union>x \<in> set xs. pts x) b" using Cons by auto
  show ?case using a(1) b(1) leaves_ok_append [OF a(2) b(2)] by simp
qed simp

definition hard_cap :: "usize \<Rightarrow> usize" where
  "hard_cap max_leaf_size = min FORCED_LEAF_HARD_CAP (max max_leaf_size 1)"

lemma hard_cap_pos [simp]: "0 < hard_cap m"
  by (simp add: hard_cap_def FORCED_LEAF_HARD_CAP_def)

lemma hard_cap_max [simp]: "hard_cap (max m 1) = hard_cap m"
  by (simp add: hard_cap_def)

context partitioner
begin

lemma emit_with_safety_ok:
  "distinct leaf \<Longrightarrow> set leaf \<subseteq> P \<Longrightarrow>
   \<exists>leaves. emit_leaf_with_safety E depth reason max_leaf_size leaf = Inr leaves \<and> leaves_ok (hard_cap max_leaf_size) (set leaf) leaves"
proof (induction leaf rule: length_induct)
  case (1 leaf)
  let ?cap = "hard_cap max_leaf_size"
  have IH: "\<exists>leaves. emit_leaf_with_safety E depth reason max_leaf_size c = Inr leaves \<and> leaves_ok ?cap (set c) leaves"
    if "length c < length leaf" "distinct c" "set c \<subseteq> P" for c
    using "1.IH" that by blast
  show ?case
  proof (cases "?cap < length leaf")
    case False
    then show ?thesis
      using "1.prems" by (auto simp: emit_leaf_with_safety.simps [of E depth reason max_leaf_size leaf] hard_cap_def Let_def leaves_ok_def)
  next
    case True
    obtain parts where parts: "forced_split_oversized_leaf E leaf depth ?cap (forced_leaf_split_seed leaf depth reason) = Inr parts" "parts_ok leaf parts"
      using forced_split_ok [OF "1.prems" hard_cap_pos True] by blast
    have "\<exists>leaves. emit_leaf_with_safety E depth reason max_leaf_size c = Inr leaves \<and> leaves_ok ?cap (set c) leaves" if "c \<in> set parts" for c
    proof (rule IH)
      show "length c < length leaf" by (rule forced_split_smaller [OF parts(1) True that])
      show "distinct c" "set c \<subseteq> P" using parts(2) that "1.prems"(2) by (auto simp: parts_ok_def)
    qed
    then obtain leaves where leaves: "emit_all (emit_leaf_with_safety E depth reason max_leaf_size) parts = Inr leaves"
        "leaves_ok ?cap (\<Union>c \<in> set parts. set c) leaves"
      using emit_all_leaves [of parts "emit_leaf_with_safety E depth reason max_leaf_size" ?cap set] by blast
    have "(\<Union>c \<in> set parts. set c) = set leaf" using parts(2) by (simp add: parts_ok_def)
    moreover have "leaf \<noteq> []" using True by auto
    ultimately show ?thesis
      using True parts(1) leaves by (simp add: emit_leaf_with_safety.simps [of E depth reason max_leaf_size leaf] hard_cap_def Let_def)
  qed
qed

lemma emit_leaf_ok:
  assumes "dedup \<or> distinct leaf" "set leaf \<subseteq> P"
  shows "\<exists>leaves. emit_leaf E depth reason dedup max_leaf_size leaf = Inr leaves \<and> leaves_ok (hard_cap max_leaf_size) (set leaf) leaves"
proof -
  let ?leaf = "if dedup then sort_dedup leaf else leaf"
  have l: "distinct ?leaf" "set ?leaf \<subseteq> P" "set ?leaf = set leaf" using assms by auto
  from emit_with_safety_ok [OF l(1,2), of depth reason "max max_leaf_size 1", unfolded l(3) hard_cap_max]
  obtain leaves where "emit_leaf_with_safety E depth reason (max max_leaf_size 1) ?leaf = Inr leaves" "leaves_ok (hard_cap max_leaf_size) (set leaf) leaves"
    by blast
  then show ?thesis using l(3) by (cases "?leaf = []") (auto simp: emit_leaf_def Let_def)
qed

end


end
