(* ===== verification/Partition.thy ===== *)
theory Partition
  imports Leaves
begin

text \<open>
  The recursive ball-carving partition in memory, \<^verbatim>\<open>rbc_recurse_parallel\<close> and
  \<^verbatim>\<open>parallel_join_clusters\<close> (\<^verbatim>\<open>rbc_partition/child_run_io.rs\<close>, without an external run store),
  \<^verbatim>\<open>split_seeded_clusters_balanced\<close> (\<^verbatim>\<open>prefetch_pipeline.rs\<close>) and the root plan
  (\<^verbatim>\<open>rbc_partition/mod.rs\<close>, \<^verbatim>\<open>memory_context.rs\<close>). \<open>rayon::join\<close> runs both halves; the leaves are
  listed left half first, one of the orders they are emitted in.
\<close>

section \<open>Joining the clusters\<close>

fun balance :: "seeded_cluster list \<Rightarrow> seeded_cluster list \<Rightarrow> seeded_cluster list \<Rightarrow> nat \<Rightarrow> nat \<Rightarrow>
    seeded_cluster list \<times> seeded_cluster list" where
  "balance [] left right left_points right_points = (left, right)"
| "balance (c # clusters) left right left_points right_points =
     (if left_points \<le> right_points then balance clusters (left @ [c]) right (left_points + length (sc_points c)) right_points
      else balance clusters left (right @ [c]) left_points (right_points + length (sc_points c)))"

definition split_seeded_clusters_balanced ::
  "part_env \<Rightarrow> seeded_cluster list \<Rightarrow> seeded_cluster list \<times> seeded_cluster list" where
  "split_seeded_clusters_balanced E clusters =
     (let (left, right) = balance (pe_cluster_sort E (\<lambda>c. - int (length (sc_points c))) clusters) [] [] 0 0
      in if left = [] \<and> right \<noteq> [] then ([last right], butlast right)
         else if right = [] \<and> left \<noteq> [] then (butlast left, [last left])
         else (left, right))"

lemma balance_lengths:
  "balance cs l r lp rp = (l', r') \<Longrightarrow> length l' + length r' = length cs + length l + length r"
  by (induction cs l r lp rp rule: balance.induct) (auto split: if_splits)

text \<open>The halves: both non-empty when there are two clusters or more.\<close>

lemma split_lengths:
  assumes "split_seeded_clusters_balanced E clusters = (l, r)" "length (pe_cluster_sort E (\<lambda>c. - int (length (sc_points c))) clusters) = length clusters"
    and "1 < length clusters"
  shows "length l < length clusters" "length r < length clusters"
proof -
  obtain l0 r0 where b: "balance (pe_cluster_sort E (\<lambda>c. - int (length (sc_points c))) clusters) [] [] 0 0 = (l0, r0)" by fastforce
  have len: "length l0 + length r0 = length clusters" using balance_lengths [OF b] assms(2) by simp
  have lr: "(l, r) = (if l0 = [] \<and> r0 \<noteq> [] then ([last r0], butlast r0) else if r0 = [] \<and> l0 \<noteq> [] then (butlast l0, [last l0]) else (l0, r0))"
    using assms(1) b by (simp add: split_seeded_clusters_balanced_def)
  show "length l < length clusters" "length r < length clusters"
    using lr len assms(3) by (auto split: if_splits simp: length_greater_0_conv [symmetric] simp del: length_greater_0_conv)
qed

lemma halves_smaller:
  assumes "clusters \<noteq> []" "length clusters \<noteq> Suc 0" "length (pe_cluster_sort E (\<lambda>c. - int (length (sc_points c))) clusters) = length clusters"
  shows "length (fst (split_seeded_clusters_balanced E clusters)) < length clusters"
    "length (snd (split_seeded_clusters_balanced E clusters)) < length clusters"
proof -
  have "1 < length clusters" using assms(1,2) by (cases clusters) auto
  then show "length (fst (split_seeded_clusters_balanced E clusters)) < length clusters"
    "length (snd (split_seeded_clusters_balanced E clusters)) < length clusters"
    using split_lengths [OF prod.collapse [symmetric] assms(3)] by blast+
qed

text \<open>
  The recursion on halves. The guard stands for the sort of the standard library: it keeps the number of
  clusters, and where it did not the model stops.
\<close>

function parallel_join_clusters ::
  "part_env \<Rightarrow> (seeded_cluster \<Rightarrow> leaf list result) \<Rightarrow> seeded_cluster list \<Rightarrow> leaf list result" where
  "parallel_join_clusters E recurse clusters =
     (if clusters = [] then Inr []
      else if length clusters = 1 then recurse (hd clusters)
      else if length (pe_cluster_sort E (\<lambda>c. - int (length (sc_points c))) clusters) \<noteq> length clusters then Inl index_panic
      else
        let halves = split_seeded_clusters_balanced E clusters in
        res_bind (parallel_join_clusters E recurse (fst halves)) (\<lambda>left.
        res_bind (parallel_join_clusters E recurse (snd halves)) (\<lambda>right. Inr (left @ right))))"
  by pat_completeness auto
termination
  by (relation "measure (\<lambda>(E, recurse, clusters). length clusters)") (auto dest: halves_smaller)

declare parallel_join_clusters.simps [simp del]

section \<open>One step\<close>

definition ATTEMPTS :: nat where
  "ATTEMPTS = 6"

text \<open>The clusters of an attempt.\<close>

definition assign_clusters :: "part_env \<Rightarrow> cluster \<Rightarrow> u32 list \<Rightarrow> usize \<Rightarrow> cluster list result" where
  "assign_clusters E cur leaders local_fanout =
     (if pe_l2 E \<and> 256 \<le> length cur then pe_gemm E cur leaders local_fanout
      else scalar_clusters (pe_dist E) leaders (length leaders) local_fanout cur)"

text \<open>
  The loop over at most six attempts, which doubles the leaders while the clusters do not split. The root's
  first attempt takes the leaders that were chosen beforehand (\<open>forced\<close>) and draws no seed.
\<close>

primrec partition_attempts ::
  "nat \<Rightarrow> part_env \<Rightarrow> cluster \<Rightarrow> usize \<Rightarrow> usize \<Rightarrow> usize \<Rightarrow> u64 \<Rightarrow> u32 list option \<Rightarrow> nat \<Rightarrow> usize \<Rightarrow> cluster list \<Rightarrow> cluster list result" where
  "partition_attempts 0 E cur c_max max_leaders fanout rng_seed forced drawn num_leaders merged = Inr merged"
| "partition_attempts (Suc attempts) E cur c_max max_leaders fanout rng_seed forced drawn num_leaders merged =
     (let leaders = (case forced of Some ls \<Rightarrow> ls
                     | None \<Rightarrow> sample_set_bottomk (pe_sample E) cur num_leaders (pe_draw E rng_seed drawn));
          drawn = (case forced of Some _ \<Rightarrow> drawn | None \<Rightarrow> drawn + 1);
          num_leaders = length leaders;
          local_fanout = (if 1 < num_leaders then min fanout num_leaders else 1)
      in res_bind (assign_clusters E cur leaders local_fanout) (\<lambda>clusters.
           let merged = merge_clusters clusters (pp_c_min (pe_params E)) c_max in
           if length merged \<le> 1 \<and> num_leaders < max_leaders
           then partition_attempts attempts E cur c_max max_leaders fanout rng_seed None drawn
                  (min (sat_mul num_leaders 2) max_leaders) merged
           else Inr merged))"

definition child_seed :: "u64 \<Rightarrow> usize \<Rightarrow> nat \<Rightarrow> cluster \<Rightarrow> u64" where
  "child_seed seed depth cluster_idx cluster =
     (let child_seed_base = (seed + (word_of_nat depth + 1)) * 0x9e3779b97f4a7c15 in
      (child_seed_base XOR (word_of_nat cluster_idx * 0xbf58476d1ce4e5b9)) XOR word_rotl 17 (word_of_nat (length cluster)))"

text \<open>The last part of a step: small clusters become leaves one level down, the others are returned.\<close>

definition separate :: "part_env \<Rightarrow> usize \<Rightarrow> usize \<Rightarrow> u64 \<Rightarrow> cluster list \<Rightarrow> (leaf list \<times> seeded_cluster list) result" where
  "separate E depth c_max seed merged =
     (let to_recurse = map (\<lambda>(idx, c). \<lparr>sc_points = c, sc_seed = child_seed seed depth idx c\<rparr>)
                         (filter (\<lambda>(idx, c). c_max < length c) (enumerate 0 merged))
      in res_bind (emit_all (emit_leaf E (depth + 1) NaturalSize False (kernel_safe_leaf_size (pe_params E)))
                     (filter (\<lambda>c. length c \<le> c_max) merged)) (\<lambda>leaves.
           Inr (leaves, to_recurse)))"

text \<open>A step that ends with one leaf.\<close>

definition step_leaf :: "part_env \<Rightarrow> usize \<Rightarrow> usize \<Rightarrow> leaf_reason \<Rightarrow> cluster \<Rightarrow> (leaf list \<times> seeded_cluster list \<times> nat) result" where
  "step_leaf E n depth reason leaf =
     res_bind (emit_leaf E depth reason False (kernel_safe_leaf_size (pe_params E)) leaf) (\<lambda>leaves. Inr (leaves, [], n))"

text \<open>
  What happens to the points of a call below the depth limit: the leaves emitted at once, the clusters to
  recurse into, and the number of points for their shrink test.
\<close>

definition rbc_step ::
  "part_env \<Rightarrow> u32 list option \<Rightarrow> usize \<Rightarrow> usize \<Rightarrow> usize \<Rightarrow> u64 \<Rightarrow> cluster \<Rightarrow> (leaf list \<times> seeded_cluster list \<times> nat) result" where
  "rbc_step E root_leaders c_max min_recurse_size depth seed cur =
     (let local_fanout = fanout_for_depth (pe_params E) depth;
          cur = (if depth \<noteq> 0 \<and> should_dedup_cluster depth local_fanout then sort_dedup cur else cur);
          n = length cur
      in if n \<le> c_max then step_leaf E n depth NaturalSize cur
         else if 3 \<le> depth \<and> n \<le> min_recurse_size then step_leaf E n depth MinRecurse cur
         else if n < c_max * 3 \<and> 5 \<le> depth then step_leaf E n depth SmallDeep cur
         else
           let max_leaders = min (pp_max_leaders (pe_params E)) n;
               num_leaders = min (max (pe_psamp E n depth) 2) max_leaders;
               rng_seed = (seed XOR (word_of_nat depth * 6364136223846793005)) XOR word_of_nat n
           in res_bind (partition_attempts ATTEMPTS E cur c_max max_leaders local_fanout rng_seed
                          (if depth = 0 then root_leaders else None) 0 num_leaders []) (\<lambda>merged.
                let merged = (if should_dedup_cluster depth local_fanout then map sort_dedup merged else merged);
                    merged = filter (\<lambda>c. c \<noteq> []) merged
                in case merged of
                     [] \<Rightarrow> step_leaf E n depth PartitionFallback cur
                   | [leaf] \<Rightarrow> step_leaf E n depth PartitionFallback leaf
                   | _ \<Rightarrow> res_bind (separate E depth c_max seed merged) (\<lambda>(leaves, to_recurse). Inr (leaves, to_recurse, n))))"

section \<open>The recursion\<close>

function rbc_recurse_parallel ::
  "part_env \<Rightarrow> u32 list option \<Rightarrow> usize \<Rightarrow> usize \<Rightarrow> usize \<Rightarrow> nat \<Rightarrow> u64 \<Rightarrow> cluster \<Rightarrow> leaf list result" where
  "rbc_recurse_parallel E root_leaders c_max min_recurse_size depth parent_n seed cur =
     (if cur = [] then Inr []
      else if pp_max_depth (pe_params E) \<le> depth then
        emit_leaf E depth MaxDepth True (kernel_safe_leaf_size (pe_params E)) cur
      else if 3 \<le> depth \<and> pe_shrink E parent_n (length cur) then
        emit_leaf E depth ShrinkRatio True (kernel_safe_leaf_size (pe_params E)) cur
      else
        res_bind (rbc_step E root_leaders c_max min_recurse_size depth seed cur) (\<lambda>step.
        res_bind (parallel_join_clusters E
                    (\<lambda>c. rbc_recurse_parallel E root_leaders c_max min_recurse_size (depth + 1) (snd (snd step))
                           (sc_seed c) (sc_points c)) (fst (snd step))) (\<lambda>leaves.
          Inr (fst step @ leaves))))"
  by pat_completeness auto
termination
  by (relation "measure (\<lambda>(E, rl, cm, mr, depth, pn, s, cur). pp_max_depth (pe_params E) - depth)") auto

declare rbc_recurse_parallel.simps [simp del]

section \<open>The root\<close>

text \<open>\<open>select_root_leaders\<close>; \<open>psamp\<close> is the rounded product, \<open>sample_seed\<close> the number drawn.\<close>

definition select_root_leaders :: "part_env \<Rightarrow> usize \<Rightarrow> u64 \<Rightarrow> u32 list \<Rightarrow> u32 list" where
  "select_root_leaders E psamp sample_seed indices =
     (if indices = [] then []
      else
        let max_leaders = min (max (pp_max_leaders (pe_params E)) 1) (length indices);
            num_leaders = min (max psamp 1) max_leaders
        in sample_set_bottomk (pe_sample E) indices num_leaders sample_seed)"

text \<open>\<open>RootFanoutState\<close>: the leaders of the root's first attempt, when there are any.\<close>

definition forced_root_leaders :: "u32 list \<Rightarrow> u32 list option" where
  "forced_root_leaders root_leaders = (if root_leaders = [] then None else Some root_leaders)"

definition rbc_partition :: "part_env \<Rightarrow> usize \<Rightarrow> u64 \<Rightarrow> u64 \<Rightarrow> u32 list \<Rightarrow> leaf list result" where
  "rbc_partition E psamp sample_seed seed indices =
     (let total_size = length indices in
      if total_size = 0 then Inr []
      else
        let c_max = adaptive_c_max (pe_params E) total_size in
        if c_max = 0 then Inl (Panic ''attempt to divide by zero'')
        else rbc_recurse_parallel E (forced_root_leaders (select_root_leaders E psamp sample_seed indices))
               c_max (sat_mul c_max 2) 0 total_size seed indices)"

section \<open>The recursion covers its points\<close>

lemma balance_mset:
  "balance cs l r lp rp = (l', r') \<Longrightarrow> mset l' + mset r' = mset cs + mset l + mset r"
  by (induction cs l r lp rp rule: balance.induct) (auto split: if_splits)

lemma split_mset:
  assumes "split_seeded_clusters_balanced E clusters = (l, r)"
  shows "mset l + mset r = mset (pe_cluster_sort E (\<lambda>c. - int (length (sc_points c))) clusters)"
proof -
  let ?s = "pe_cluster_sort E (\<lambda>c. - int (length (sc_points c))) clusters"
  obtain l0 r0 where b: "balance ?s [] [] 0 0 = (l0, r0)" by fastforce
  have m: "mset l0 + mset r0 = mset ?s" using balance_mset [OF b] by simp
  have last: "xs \<noteq> [] \<Longrightarrow> add_mset (last xs) (mset (butlast xs)) = mset xs" for xs :: "seeded_cluster list"
    by (metis append_butlast_last_id mset.simps(1,2) mset_append union_mset_add_mset_right add.right_neutral)
  have lr: "(l, r) = (if l0 = [] \<and> r0 \<noteq> [] then ([last r0], butlast r0) else if r0 = [] \<and> l0 \<noteq> [] then (butlast l0, [last l0]) else (l0, r0))"
    using assms b by (simp add: split_seeded_clusters_balanced_def)
  then show ?thesis using m last [of l0] last [of r0] by (auto split: if_splits)
qed

lemma join_ok:
  assumes srt: "unstable_sort (pe_cluster_sort E)"
  shows "\<forall>c \<in> set clusters. \<exists>leaves. recurse c = Inr leaves \<and> leaves_ok cap (set (sc_points c)) leaves \<Longrightarrow>
    \<exists>leaves. parallel_join_clusters E recurse clusters = Inr leaves \<and> leaves_ok cap (\<Union>c \<in> set clusters. set (sc_points c)) leaves"
proof (induction clusters rule: length_induct)
  case (1 clusters)
  let ?s = "pe_cluster_sort E (\<lambda>c. - int (length (sc_points c))) clusters"
  have ms: "mset ?s = mset clusters" by (rule unstable_sortD [OF srt])
  then have len: "length ?s = length clusters" by (metis size_mset)
  show ?case
  proof (cases "clusters = [] \<or> length clusters = Suc 0")
    case True
    show ?thesis
    proof (cases clusters)
      case (Cons c cs)
      then have "clusters = [c]" using True by simp
      then show ?thesis using "1.prems" by (simp add: parallel_join_clusters.simps [of E recurse "[c]"])
    qed (simp add: parallel_join_clusters.simps)
  next
    case False
    obtain l r where lr: "split_seeded_clusters_balanced E clusters = (l, r)" by fastforce
    have m: "mset l + mset r = mset clusters" using split_mset [OF lr] ms by simp
    have set: "set clusters = set l \<union> set r" using arg_cong [OF m, of set_mset] by simp
    have small: "length l < length clusters" "length r < length clusters"
      using halves_smaller [OF _ _ len] False lr by auto
    obtain a where a: "parallel_join_clusters E recurse l = Inr a" "leaves_ok cap (\<Union>c \<in> set l. set (sc_points c)) a"
      using mp [OF mp [OF spec [OF "1.IH"] small(1)]] "1.prems" by (auto simp: set)
    obtain b where b: "parallel_join_clusters E recurse r = Inr b" "leaves_ok cap (\<Union>c \<in> set r. set (sc_points c)) b"
      using mp [OF mp [OF spec [OF "1.IH"] small(2)]] "1.prems" by (auto simp: set)
    have "(\<Union>c \<in> set clusters. set (sc_points c)) = (\<Union>c \<in> set l. set (sc_points c)) \<union> (\<Union>c \<in> set r. set (sc_points c))"
      using set by blast
    then show ?thesis
      using leaves_ok_append [OF a(2) b(2)] a(1) b(1) False len lr by (simp add: parallel_join_clusters.simps [of E recurse clusters])
  qed
qed

lemma map_snd_filter_enumerate: "map snd (filter (\<lambda>(i, x). Q x) (enumerate k xs)) = filter Q xs"
  by (induction xs arbitrary: k) auto

text \<open>What an attempt leaves: merged clusters of an assignment with at most \<open>fanout\<close> leaders per point.\<close>

definition attempt_of :: "cluster \<Rightarrow> usize \<Rightarrow> cluster list \<Rightarrow> bool" where
  "attempt_of cur fanout merged \<longleftrightarrow>
     (\<exists>ids n fo c_min c_max. topk_ids ids n fo cur \<and> fo \<le> max fanout 1 \<and> merged = merge_clusters (clusters_of ids n cur) c_min c_max)"

lemma attempt_parts:
  assumes "attempt_of cur fanout merged" "distinct cur"
  shows "parts_ok cur (filter (\<lambda>c. c \<noteq> []) (if should_dedup_cluster depth fanout then map sort_dedup merged else merged))"
proof -
  obtain ids n fo c_min c_max where m: "topk_ids ids n fo cur" "fo \<le> max fanout 1" "merged = merge_clusters (clusters_of ids n cur) c_min c_max"
    using assms(1) by (auto simp: attempt_of_def)
  have "should_dedup_cluster depth fanout \<or> fo \<le> 1" using m(2) by (auto simp: should_dedup_cluster_def)
  then show ?thesis unfolding m(3) by (rule merged_parts [OF m(1) assms(2)])
qed

text \<open>Parameters that let every call pick a leader and assign every point.\<close>

locale rbc = partitioner +
  assumes leaders_pos: "0 < pp_max_leaders (pe_params E)"
    and fanout_pos: "0 < pp_fanout_top (pe_params E)" "0 < pp_fanout_second (pe_params E)"
begin

lemma fanout_for_depth_pos: "0 < fanout_for_depth (pe_params E) depth"
  using fanout_pos by (simp add: fanout_for_depth_def)

lemma assign_clusters_ok:
  assumes "distinct cur" "set cur \<subseteq> P" "distinct leaders" "set leaders \<subseteq> set cur" "leaders \<noteq> []" "0 < fanout"
  shows "\<exists>ids. assign_clusters E cur leaders fanout = Inr (clusters_of ids (length leaders) cur) \<and> topk_ids ids (length leaders) fanout cur"
proof (cases "pe_l2 E \<and> 256 \<le> length cur")
  case True
  then have "\<exists>ids. pe_gemm E cur leaders fanout = Inr (clusters_of ids (length leaders) cur) \<and> topk_ids ids (length leaders) fanout cur"
    using matrix_total assms unfolding assigns_topk_def by blast
  then show ?thesis using True by (simp add: assign_clusters_def)
next
  case False
  have "set leaders \<subseteq> P" using assms(2,4) by blast
  then show ?thesis
    using scalar_clusters_ids [OF dists [OF assms(2)] assms(5,6)] False unfolding assign_clusters_def if_not_P [OF False] by blast
qed

lemma attempts_ok:
  assumes cur: "distinct cur" "set cur \<subseteq> P" and ml: "0 < max_leaders" "max_leaders \<le> length cur" and f: "0 < fanout"
  shows "0 < k \<Longrightarrow> k \<le> length cur \<Longrightarrow> \<forall>ls. forced = Some ls \<longrightarrow> distinct ls \<and> set ls \<subseteq> set cur \<and> ls \<noteq> [] \<Longrightarrow>
    0 < attempts \<or> attempt_of cur fanout merged \<Longrightarrow>
    \<exists>m. partition_attempts attempts E cur c_max max_leaders fanout rng_seed forced drawn k merged = Inr m \<and> attempt_of cur fanout m"
proof (induction attempts arbitrary: forced drawn k merged)
  case (Suc attempts)
  define leaders where "leaders = (case forced of Some ls \<Rightarrow> ls | None \<Rightarrow> sample_set_bottomk (pe_sample E) cur k (pe_draw E rng_seed drawn))"
  define lf where "lf = (if 1 < length leaders then min fanout (length leaders) else 1)"
  have l: "distinct leaders" "set leaders \<subseteq> set cur" "leaders \<noteq> []"
    using Suc.prems(3) sample_props [OF cur(1) Suc.prems(1,2)] by (auto simp: leaders_def split: option.split)
  have lf: "0 < lf" "lf \<le> max fanout 1" using f by (auto simp: lf_def)
  obtain ids where ids: "assign_clusters E cur leaders lf = Inr (clusters_of ids (length leaders) cur)" "topk_ids ids (length leaders) lf cur"
    using assign_clusters_ok [OF cur l lf(1)] by blast
  let ?m = "merge_clusters (clusters_of ids (length leaders) cur) (pp_c_min (pe_params E)) c_max"
  have m: "attempt_of cur fanout ?m" unfolding attempt_of_def using ids(2) lf(2) by blast
  have "length leaders \<le> length cur"
    using card_mono [OF finite_set l(2)] l(1) cur(1) by (simp add: distinct_card)
  moreover have "0 < length leaders" using l(3) by simp
  ultimately have next_k: "0 < min (sat_mul (length leaders) 2) max_leaders" "min (sat_mul (length leaders) 2) max_leaders \<le> length cur"
    using ml by (auto simp: sat_mul_def usize_max_def)
  have "\<exists>m'. partition_attempts attempts E cur c_max max_leaders fanout rng_seed None d (min (sat_mul (length leaders) 2) max_leaders) ?m = Inr m' \<and>
      attempt_of cur fanout m'" for d
    by (rule Suc.IH [OF next_k]) (simp_all add: m)
  then show ?case
    using ids(1) m unfolding partition_attempts.simps Let_def leaders_def [symmetric] lf_def [symmetric] by auto
qed simp

lemma separate_ok:
  assumes "\<forall>c \<in> set merged. c \<noteq> [] \<and> distinct c \<and> set c \<subseteq> P"
  shows "\<exists>leaves cs A. separate E depth c_max seed merged = Inr (leaves, cs) \<and> leaves_ok (hard_cap (kernel_safe_leaf_size (pe_params E))) A leaves \<and>
    (\<forall>c \<in> set cs. distinct (sc_points c) \<and> set (sc_points c) \<subseteq> P) \<and> A \<union> (\<Union>c \<in> set cs. set (sc_points c)) = set (concat merged)"
proof -
  let ?small = "filter (\<lambda>c. length c \<le> c_max) merged" and ?cap = "hard_cap (kernel_safe_leaf_size (pe_params E))"
  let ?cs = "map (\<lambda>(idx, c). \<lparr>sc_points = c, sc_seed = child_seed seed depth idx c\<rparr>) (filter (\<lambda>(idx, c). c_max < length c) (enumerate 0 merged))"
  have "\<forall>c \<in> set ?small. \<exists>leaves. emit_leaf E (depth + 1) NaturalSize False (kernel_safe_leaf_size (pe_params E)) c = Inr leaves \<and> leaves_ok ?cap (set c) leaves"
    using assms by (intro ballI emit_leaf_ok) auto
  from emit_all_leaves [OF this] obtain leaves where
    leaves: "emit_all (emit_leaf E (depth + 1) NaturalSize False (kernel_safe_leaf_size (pe_params E))) ?small = Inr leaves"
      "leaves_ok ?cap (\<Union>c \<in> set ?small. set c) leaves" by blast
  have pts: "sc_points ` set ?cs = {c \<in> set merged. c_max < length c}"
  proof -
    have "map sc_points ?cs = filter (\<lambda>c. c_max < length c) merged"
      using map_snd_filter_enumerate [of "\<lambda>c. c_max < length c" 0 merged] by (simp add: comp_def case_prod_unfold)
    then have "set (map sc_points ?cs) = set (filter (\<lambda>c. c_max < length c) merged)" by (rule arg_cong)
    then show ?thesis by (simp only: list.set_map set_filter)
  qed
  have "(\<Union>c \<in> set ?cs. set (sc_points c)) = (\<Union>c \<in> sc_points ` set ?cs. set c)" by (rule SUP_image [unfolded comp_def, symmetric])
  then have un: "(\<Union>c \<in> set ?small. set c) \<union> (\<Union>c \<in> set ?cs. set (sc_points c)) = set (concat merged)"
    unfolding pts by (fastforce simp: not_less)
  have "sc_points c \<in> set merged" if "c \<in> set ?cs" for c using pts that by blast
  then have "\<forall>c \<in> set ?cs. distinct (sc_points c) \<and> set (sc_points c) \<subseteq> P" using assms by blast
  moreover have "separate E depth c_max seed merged = Inr (leaves, ?cs)"
    unfolding separate_def Let_def leaves(1) by simp
  ultimately show ?thesis using leaves(2) un by blast
qed

end

context rbc
begin

lemma parts_cases:
  assumes "parts_ok cur parts" "cur \<noteq> []"
  shows "parts \<noteq> []" "parts = [leaf] \<Longrightarrow> distinct leaf \<and> set leaf = set cur"
    "c \<in> set parts \<Longrightarrow> c \<noteq> [] \<and> distinct c \<and> set c \<subseteq> set cur"
  using assms by (auto simp: parts_ok_def)

lemma rbc_step_ok:
  assumes cur: "distinct cur" "set cur \<subseteq> P" "cur \<noteq> []"
    and root: "\<forall>ls. root_leaders = Some ls \<longrightarrow> depth = 0 \<longrightarrow> distinct ls \<and> set ls \<subseteq> set cur \<and> ls \<noteq> []"
  shows "\<exists>leaves cs n A. rbc_step E root_leaders c_max min_rec depth seed cur = Inr (leaves, cs, n) \<and>
    leaves_ok (hard_cap (kernel_safe_leaf_size (pe_params E))) A leaves \<and>
    (\<forall>c \<in> set cs. distinct (sc_points c) \<and> set (sc_points c) \<subseteq> P) \<and> A \<union> (\<Union>c \<in> set cs. set (sc_points c)) = set cur"
proof -
  let ?fan = "fanout_for_depth (pe_params E) depth" and ?cap = "hard_cap (kernel_safe_leaf_size (pe_params E))"
  define cur' where "cur' = (if depth \<noteq> 0 \<and> should_dedup_cluster depth ?fan then sort_dedup cur else cur)"
  have c': "distinct cur'" "set cur' \<subseteq> P" "set cur' = set cur" "cur' \<noteq> []" using cur by (auto simp: cur'_def)
  have emit: "\<exists>leaves cs n' A. step_leaf E n depth reason leaf = Inr (leaves, cs, n') \<and> leaves_ok ?cap A leaves \<and>
      (\<forall>c \<in> set cs. distinct (sc_points c) \<and> set (sc_points c) \<subseteq> P) \<and> A \<union> (\<Union>c \<in> set cs. set (sc_points c)) = set cur"
    if leaf: "distinct leaf" "set leaf = set cur" for n reason leaf
  proof -
    obtain leaves where l: "emit_leaf E depth reason False (kernel_safe_leaf_size (pe_params E)) leaf = Inr leaves" "leaves_ok ?cap (set cur) leaves"
      using emit_leaf_ok [of False leaf depth reason "kernel_safe_leaf_size (pe_params E)"] leaf cur(2) by auto
    have "step_leaf E n depth reason leaf = Inr (leaves, [], n)" by (simp add: step_leaf_def l(1))
    then show ?thesis using l(2) by (intro exI [of _ leaves] exI [of _ "[]"] exI [of _ n] exI [of _ "set cur"]) simp
  qed
  let ?ml = "min (pp_max_leaders (pe_params E)) (length cur')"
  let ?k = "min (max (pe_psamp E (length cur') depth) 2) ?ml"
  let ?seed = "(seed XOR (word_of_nat depth * 6364136223846793005)) XOR word_of_nat (length cur')"
  have ml: "0 < ?ml" "?ml \<le> length cur'" using leaders_pos c'(4) by simp_all
  have k: "0 < ?k" "?k \<le> length cur'" using ml by simp_all
  have forced: "\<forall>ls. (if depth = 0 then root_leaders else None) = Some ls \<longrightarrow> distinct ls \<and> set ls \<subseteq> set cur' \<and> ls \<noteq> []"
    using root c'(3) by auto
  obtain merged where m: "partition_attempts ATTEMPTS E cur' c_max ?ml ?fan ?seed (if depth = 0 then root_leaders else None) 0 ?k [] = Inr merged"
      "attempt_of cur' ?fan merged"
    using attempts_ok [OF c'(1,2) ml fanout_for_depth_pos k forced, of ATTEMPTS depth "[]" c_max ?seed 0] by (auto simp: ATTEMPTS_def)
  define parts where "parts = filter (\<lambda>c. c \<noteq> []) (if should_dedup_cluster depth ?fan then map sort_dedup merged else merged)"
  have parts: "parts_ok cur' parts" unfolding parts_def by (rule attempt_parts [OF m(2) c'(1)])
  have step: "rbc_step E root_leaders c_max min_rec depth seed cur =
    (if length cur' \<le> c_max then step_leaf E (length cur') depth NaturalSize cur'
     else if 3 \<le> depth \<and> length cur' \<le> min_rec then step_leaf E (length cur') depth MinRecurse cur'
     else if length cur' < c_max * 3 \<and> 5 \<le> depth then step_leaf E (length cur') depth SmallDeep cur'
     else case parts of [] \<Rightarrow> step_leaf E (length cur') depth PartitionFallback cur' | [leaf] \<Rightarrow> step_leaf E (length cur') depth PartitionFallback leaf
          | _ \<Rightarrow> res_bind (separate E depth c_max seed parts) (\<lambda>(leaves, to_recurse). Inr (leaves, to_recurse, length cur')))"
    unfolding rbc_step_def Let_def cur'_def [symmetric] m(1) res_bind_simps parts_def [symmetric] ..
  show ?thesis
  proof (cases "length cur' \<le> c_max \<or> (3 \<le> depth \<and> length cur' \<le> min_rec) \<or> (length cur' < c_max * 3 \<and> 5 \<le> depth)")
    case True
    then show ?thesis unfolding step using emit [OF c'(1,3)] by auto
  next
    case False
    show ?thesis
    proof (cases "\<exists>leaf. parts = [leaf]")
      case True
      then obtain leaf where leaf: "parts = [leaf]" by blast
      have "rbc_step E root_leaders c_max min_rec depth seed cur = step_leaf E (length cur') depth PartitionFallback leaf"
        unfolding step using False leaf by auto
      then show ?thesis using emit [of leaf "length cur'"] parts_cases(2) [OF parts c'(4) leaf] c'(3) by simp
    next
      case many: False
      then obtain a b rest where abr: "parts = a # b # rest" using parts_cases(1) [OF parts c'(4)] by (metis neq_Nil_conv)
      have "\<forall>c \<in> set parts. c \<noteq> [] \<and> distinct c \<and> set c \<subseteq> P" using parts_cases(3) [OF parts c'(4)] c'(2) by blast
      from separate_ok [OF this] obtain leaves cs A where sep: "separate E depth c_max seed parts = Inr (leaves, cs)" "leaves_ok ?cap A leaves"
          "\<forall>c \<in> set cs. distinct (sc_points c) \<and> set (sc_points c) \<subseteq> P" "A \<union> (\<Union>c \<in> set cs. set (sc_points c)) = set (concat parts)" by blast
      have "set (concat parts) = set cur" using parts c'(3) by (simp add: parts_ok_def)
      moreover have "rbc_step E root_leaders c_max min_rec depth seed cur = Inr (leaves, cs, length cur')"
        unfolding step using False sep(1) by (auto simp: abr)
      ultimately show ?thesis using sep(2-4) by auto
    qed
  qed
qed

lemma rbc_recurse_ok:
  "distinct cur \<Longrightarrow> set cur \<subseteq> P \<Longrightarrow>
   \<forall>ls. root_leaders = Some ls \<longrightarrow> depth = 0 \<longrightarrow> distinct ls \<and> set ls \<subseteq> set cur \<and> ls \<noteq> [] \<Longrightarrow>
   \<exists>leaves. rbc_recurse_parallel E root_leaders c_max min_rec depth parent_n seed cur = Inr leaves \<and>
     leaves_ok (hard_cap (kernel_safe_leaf_size (pe_params E))) (set cur) leaves"
proof (induction "pp_max_depth (pe_params E) - depth" arbitrary: depth parent_n seed cur rule: less_induct)
  case less
  let ?cap = "hard_cap (kernel_safe_leaf_size (pe_params E))"
  show ?case
  proof (cases "cur = [] \<or> pp_max_depth (pe_params E) \<le> depth \<or> (3 \<le> depth \<and> pe_shrink E parent_n (length cur))")
    case True
    then show ?thesis
      using emit_leaf_ok [of True cur depth _ "kernel_safe_leaf_size (pe_params E)"] less.prems(2)
      by (auto simp: rbc_recurse_parallel.simps [of E root_leaders c_max min_rec depth parent_n seed cur])
  next
    case False
    then have "cur \<noteq> []" by simp
    from rbc_step_ok [OF less.prems(1,2) this less.prems(3)]
    obtain leaves cs n A where step: "rbc_step E root_leaders c_max min_rec depth seed cur = Inr (leaves, cs, n)" "leaves_ok ?cap A leaves"
        "\<forall>c \<in> set cs. distinct (sc_points c) \<and> set (sc_points c) \<subseteq> P" "A \<union> (\<Union>c \<in> set cs. set (sc_points c)) = set cur" by blast
    let ?rec = "\<lambda>c. rbc_recurse_parallel E root_leaders c_max min_rec (depth + 1) n (sc_seed c) (sc_points c)"
    have "\<exists>leaves. ?rec c = Inr leaves \<and> leaves_ok ?cap (set (sc_points c)) leaves" if "c \<in> set cs" for c
      using False step(3) that by (intro less.hyps) auto
    then obtain more where more: "parallel_join_clusters E ?rec cs = Inr more" "leaves_ok ?cap (\<Union>c \<in> set cs. set (sc_points c)) more"
      using join_ok [OF cluster_sort, of cs ?rec ?cap] by blast
    have "rbc_recurse_parallel E root_leaders c_max min_rec depth parent_n seed cur = Inr (leaves @ more)"
      using False step(1) more(1) by (auto simp: rbc_recurse_parallel.simps [of E root_leaders c_max min_rec depth parent_n seed cur])
    then show ?thesis using leaves_ok_append [OF step(2) more(2)] step(4) by simp
  qed
qed

lemma rbc_partition_ok:
  assumes "distinct indices" "set indices \<subseteq> P" "0 < pp_c_max (pe_params E)"
  shows "\<exists>leaves. rbc_partition E psamp sample_seed seed indices = Inr leaves \<and>
    leaves_ok (hard_cap (kernel_safe_leaf_size (pe_params E))) (set indices) leaves"
proof (cases "indices = []")
  case False
  let ?c_max = "adaptive_c_max (pe_params E) (length indices)"
  have c: "0 < ?c_max" using assms(3) by (simp add: adaptive_c_max_def sat_mul_def usize_max_def)
  let ?k = "min (max psamp 1) (min (max (pp_max_leaders (pe_params E)) 1) (length indices))"
  have k: "0 < ?k" "?k \<le> length indices" using False by auto
  have root: "\<forall>ls. forced_root_leaders (select_root_leaders E psamp sample_seed indices) = Some ls \<longrightarrow> (0 :: usize) = 0 \<longrightarrow>
      distinct ls \<and> set ls \<subseteq> set indices \<and> ls \<noteq> []"
    using sample_props [OF assms(1) k, of sample_seed] by (auto simp: forced_root_leaders_def select_root_leaders_def Let_def split: if_splits)
  show ?thesis
    using rbc_recurse_ok [OF assms(1,2) root, of ?c_max "sat_mul ?c_max 2" "length indices" seed] c False
    by (simp add: rbc_partition_def Let_def)
qed (simp add: rbc_partition_def Let_def)

end

section \<open>The partition of a point file\<close>

text \<open>\<open>PointStore::get_distance\<close>: two reads and the squared distance, for every metric.\<close>

definition get_distance :: "f32_ops \<Rightarrow> (u32 \<Rightarrow> f32 list \<Rightarrow> f32 list result) \<Rightarrow> usize \<Rightarrow> distance" where
  "get_distance F read_point dim lhs rhs =
     res_bind (read_point lhs (replicate dim f32_zero)) (\<lambda>a.
     res_bind (read_point rhs (replicate dim f32_zero)) (\<lambda>b. Inr (l2_distance F a b)))"

text \<open>The partition over a \<open>DirectPointStore\<close>, without a memory budget.\<close>

record store_setup =
  su_sample :: sample_sorts
  su_cluster_sort :: "(seeded_cluster \<Rightarrow> int) \<Rightarrow> seeded_cluster list \<Rightarrow> seeded_cluster list"
  su_row_sort :: "(planned_row \<Rightarrow> u32) \<Rightarrow> planned_row list \<Rightarrow> planned_row list"
  su_f32 :: f32_ops
  su_mat_mul :: mat_mul
  su_gemm :: gemm_env
  su_give :: "nat \<Rightarrow> nat \<Rightarrow> nat"
  su_direct :: direct_io_config
  su_options :: "usize \<Rightarrow> gather_options"
  su_draw :: "u64 \<Rightarrow> nat \<Rightarrow> u64"
  su_psamp :: "usize \<Rightarrow> usize \<Rightarrow> usize"
  su_shrink :: "usize \<Rightarrow> usize \<Rightarrow> bool"

definition direct_env :: "store_setup \<Rightarrow> part_params \<Rightarrow> bool \<Rightarrow> file_store \<Rightarrow> part_env" where
  "direct_env U params l2 st =
     \<lparr>pe_params = params, pe_sample = su_sample U, pe_cluster_sort = su_cluster_sort U,
      pe_dist = get_distance (su_f32 U) (direct_read_point_into (su_give U) (su_direct U) st) (fs_dim st),
      pe_gemm = \<lambda>cur leaders fanout.
        compute_clusters_gemm_budgeted (su_f32 U) (su_mat_mul U) (direct_gather (su_row_sort U) (su_give U) (su_direct U) st (su_options U))
          (su_gemm U) (fs_dim st) cur leaders fanout None,
      pe_l2 = l2, pe_draw = su_draw U, pe_psamp = su_psamp U, pe_shrink = su_shrink U\<rparr>"

definition setup_ok :: "store_setup \<Rightarrow> file_store \<Rightarrow> bool" where
  "setup_ok U st \<longleftrightarrow>
     sample_sorts_ok (su_sample U) \<and> unstable_sort (su_cluster_sort U) \<and> unstable_sort (su_row_sort U) \<and>
     (\<exists>dot. entrywise (su_mat_mul U) dot) \<and> gives (su_give U) \<and> dc_alignment (su_direct U) \<le> 2 ^ 63 \<and>
     (\<exists>pc we ge. su_options U = default_rbc_windowed_options (fs_dim st) pc we ge) \<and> fs_ok st \<and> 0 < fs_dim st"

lemma topk_ids_of:
  assumes "\<forall>p \<in> set cur. \<forall>l \<in> set leaders. \<exists>d. dist p l = Inr d" "leaders \<noteq> []" "0 < fanout"
  shows "topk_ids (ids_of dist leaders fanout) (length leaders) fanout cur"
  unfolding topk_ids_def
proof
  fix p assume p: "p \<in> set cur"
  have "\<exists>is. (if fanout = 1 then assign_nearest dist leaders p else assign_top_k dist leaders fanout p) = Inr is \<and>
      distinct is \<and> is \<noteq> [] \<and> set is \<subseteq> {..<length leaders} \<and> length is \<le> fanout"
    using assign_nearest_ids [of leaders dist p] assign_top_k_ids [of leaders dist p fanout] assms p by simp
  then show "distinct (ids_of dist leaders fanout p) \<and> ids_of dist leaders fanout p \<noteq> [] \<and>
      set (ids_of dist leaders fanout p) \<subseteq> {..<length leaders} \<and> length (ids_of dist leaders fanout p) \<le> fanout"
    unfolding ids_of_def by auto
qed

lemma distinct_u32_fit:
  assumes "distinct (xs :: u32 list)" "dim < 2 ^ 32"
  shows "length xs * dim \<le> usize_max"
proof -
  have "length xs = card (set xs)" using assms(1) by (simp add: distinct_card)
  also have "\<dots> \<le> card (UNIV :: u32 set)" by (rule card_mono) simp_all
  finally have "length xs \<le> 2 ^ 32" by (simp add: card_word)
  then have "length xs * dim \<le> 2 ^ 32 * (2 ^ 32 - 1)" using assms(2) by (intro mult_le_mono) simp_all
  then show ?thesis by (simp add: usize_max_def)
qed

lemma direct_assigns:
  assumes "setup_ok U st"
  shows "assigns_topk (pe_gemm (direct_env U params l2 st)) {p. unat p < fs_num_points st}"
  unfolding assigns_topk_def
proof (intro allI impI)
  fix cur leaders :: "u32 list" and fanout :: usize
  let ?P = "{p. unat p < fs_num_points st}"
  assume a: "distinct cur \<and> set cur \<subseteq> ?P \<and> distinct leaders \<and> set leaders \<subseteq> set cur \<and> leaders \<noteq> [] \<and> 0 < fanout"
  obtain dot pc we ge where dot: "entrywise (su_mat_mul U) dot" and opt: "su_options U = default_rbc_windowed_options (fs_dim st) pc we ge"
    using assms by (auto simp: setup_ok_def)
  have dim: "0 < fs_dim st" "fs_dim st < 2 ^ 32" using assms by (auto simp: setup_ok_def fs_ok_def)
  have pres: "\<forall>p \<in> set ps. unstable_sort (su_row_sort U) \<and> direct_present (su_give U) (su_direct U) st p" if "set ps \<subseteq> ?P" for ps
    using assms that by (auto simp: setup_ok_def direct_present_def fs_present_def)
  have lp: "set leaders \<subseteq> ?P" using a by blast
  let ?ids = "ids_of (matrix_distance (su_f32 U) dot (fs_row st)) leaders fanout"
  have "pe_gemm (direct_env U params l2 st) cur leaders fanout = Inr (clusters_of ?ids (length leaders) cur)"
    unfolding direct_env_def part_env.select_convs opt
    using a by (intro direct_rows.gemm_ok dot dim(1) pres lp distinct_u32_fit dim(2)) simp_all
  moreover have "topk_ids ?ids (length leaders) fanout cur"
    using a by (intro topk_ids_of) (simp_all add: matrix_distance_def)
  ultimately show "\<exists>ids. pe_gemm (direct_env U params l2 st) cur leaders fanout = Inr (clusters_of ids (length leaders) cur) \<and>
      topk_ids ids (length leaders) fanout cur" by blast
qed

lemma direct_env_params [simp]: "pe_params (direct_env U params l2 st) = params"
  by (simp add: direct_env_def)

lemma direct_point_ok:
  assumes "gives give" "dc_alignment c \<le> 2 ^ 63" "fs_ok st" "unat p < fs_num_points st" "length out = fs_dim st"
  shows "direct_read_point_into give c st p out = Inr (fs_row st p)"
proof -
  let ?off = "FBIN_HEADER_BYTES + unat p * fs_row_bytes st"
  have rb: "fs_dim st * 4 = fs_row_bytes st" using assms(3) by (simp add: fs_ok_def)
  have e: "?off + fs_row_bytes st \<le> length (fs_file st)" "?off + fs_row_bytes st \<le> usize_max"
    using fs_row_end [of st "Suc (unat p)"] assms(3,4) by (simp_all add: algebra_simps)
  have off: "point_offset st p = Inr ?off" using e(2) assms(4) by (simp add: point_offset_def sat_mul_def)
  have "store_read_exact_at give c st (fs_row_bytes st) ?off = Inr (slice ?off (?off + fs_row_bytes st) (fs_file st))"
    using direct_read_exact_bytes [OF assms(1,2) e] by (simp add: store_read_exact_at_def slice_def)
  then show ?thesis by (simp add: direct_read_point_into_def assms(5) rb off fs_row_def Let_def)
qed

lemma direct_partitioner:
  assumes "sample_sorts_ok (su_sample U)" "unstable_sort (su_cluster_sort U)"
  shows "partitioner (direct_env U params l2 st) {p. setup_ok U st \<and> unat p < fs_num_points st}"
proof
  show "sample_sorts_ok (pe_sample (direct_env U params l2 st))" "unstable_sort (pe_cluster_sort (direct_env U params l2 st))"
    using assms by (simp_all add: direct_env_def)
  show "\<exists>d. pe_dist (direct_env U params l2 st) p l = Inr d"
    if "p \<in> {p. setup_ok U st \<and> unat p < fs_num_points st}" "l \<in> {p. setup_ok U st \<and> unat p < fs_num_points st}" for p l
    using that direct_point_ok [of "su_give U" "su_direct U" st] by (simp add: direct_env_def get_distance_def setup_ok_def)
  show "assigns_topk (pe_gemm (direct_env U params l2 st)) {p. setup_ok U st \<and> unat p < fs_num_points st}"
  proof (cases "setup_ok U st")
    case True
    then show ?thesis using direct_assigns [of U st params l2] by simp
  next
    case False
    then show ?thesis by (auto simp: assigns_topk_def)
  qed
qed

lemma direct_rbc:
  assumes "sample_sorts_ok (su_sample U)" "unstable_sort (su_cluster_sort U)"
    and "0 < pp_max_leaders params" "0 < pp_fanout_top params" "0 < pp_fanout_second params"
  shows "rbc (direct_env U params l2 st) {p. setup_ok U st \<and> unat p < fs_num_points st}"
  using direct_partitioner [OF assms(1,2), of params l2 st] assms(3-5)
  by (simp add: rbc_def rbc_axioms_def direct_env_def)

section \<open>The parameter sets of the crate\<close>

text \<open>\<open>ForgeANNParams::default\<close> and \<open>production_sota_oom\<close>, the fields the partition reads.\<close>

definition default_params :: part_params where
  "default_params = \<lparr>pp_c_min = 256, pp_c_max = 2048, pp_max_leaders = 1000, pp_max_depth = 10, pp_fanout_top = 10,
     pp_fanout_second = 3, pp_max_full_matrix_leaf_size = 3500\<rparr>"

definition production_sota_oom :: part_params where
  "production_sota_oom = default_params\<lparr>pp_c_min := 256, pp_c_max := 1280, pp_max_leaders := 5000, pp_fanout_top := 8, pp_fanout_second := 3\<rparr>"

definition std_setup :: "store_setup \<Rightarrow> store_setup" where
  "std_setup U = U\<lparr>su_sample := std_sorts, su_cluster_sort := sort_key\<rparr>"

interpretation file_leaves: partitioner "direct_env (std_setup U) params l2 st"
  "{p. setup_ok (std_setup U) st \<and> unat p < fs_num_points st}" for U params l2 st
  by (rule direct_partitioner) (simp_all add: std_setup_def std_sorts_ok unstable_sort_sort_key)

interpretation default_rbc: rbc "direct_env (std_setup U) default_params l2 st"
  "{p. setup_ok (std_setup U) st \<and> unat p < fs_num_points st}" for U l2 st
  by (rule direct_rbc) (simp_all add: std_setup_def std_sorts_ok unstable_sort_sort_key default_params_def)

interpretation production_rbc: rbc "direct_env (std_setup U) production_sota_oom l2 st"
  "{p. setup_ok (std_setup U) st \<and> unat p < fs_num_points st}" for U l2 st
  by (rule direct_rbc) (simp_all add: std_setup_def std_sorts_ok unstable_sort_sort_key default_params_def production_sota_oom_def)

section \<open>Properties\<close>


definition demo_setup :: store_setup where
  "demo_setup = \<lparr>su_sample = std_sorts, su_cluster_sort = sort_key, su_row_sort = sort_key, su_f32 = demo_f32,
     su_mat_mul = \<lambda>X L. map (\<lambda>x. map (demo_dot x) L) X, su_gemm = \<lparr>ge_workers = 4, ge_override = None, ge_strict_budget = None\<rparr>,
     su_give = \<lambda>off n. 3, su_direct = \<lparr>dc_enabled = True, dc_alignment = 512\<rparr>,
     su_options = default_rbc_windowed_options (fs_dim sample_store) True None (Some 2), su_draw = \<lambda>seed i. seed + word_of_nat i,
     su_psamp = \<lambda>n depth. n div 1000, su_shrink = \<lambda>parent n. parent * 2 < n * 3\<rparr>"

lemma demo_setup_ok: "setup_ok demo_setup sample_store"
proof -
  have "\<exists>pc we ge. su_options demo_setup = default_rbc_windowed_options (fs_dim sample_store) pc we ge" by (auto simp: demo_setup_def)
  then show ?thesis
    by (auto simp: setup_ok_def demo_setup_def std_sorts_ok unstable_sort_sort_key entrywise_def gives_def sample_store_ok sample_store_def [THEN arg_cong, of fs_dim])
qed


lemma ids_of_min: "ids_of dist leaders (min fanout 32) = ids_of dist leaders fanout"
  by (auto simp: ids_of_def assign_top_k_def tk_new_def fun_eq_iff min_def)

lemma direct_pres:
  assumes "unstable_sort srt" "fs_ok st" "gives give" "dc_alignment c \<le> 2 ^ 63" "\<forall>p \<in> set ps. unat p < fs_num_points st"
  shows "\<forall>p \<in> set ps. unstable_sort srt \<and> direct_present give c st p"
  using assms by (simp add: direct_present_def fs_present_def)

text \<open>C5: For \<open>L2\<close> and at least 256 points, one external attempt whose assignments come from the
  tiled matrix kernel, spooled to records and materialized as runs on disk, loads back exactly the
  children the in-memory attempt builds with the same kernel: merged, sorted and without duplicates.\<close>

theorem external_gemm_equals_in_memory:
  fixes pc :: bool and we :: "usize option" and ge :: "u32 option"
  assumes sys: "os_ok sys" "run_inv run" and mm: "entrywise mm dot"
    and store: "unstable_sort srt" "fs_ok st" "gives give" "dc_alignment c \<le> 2 ^ 63" "0 < fs_dim st"
    and pts: "distinct cur" "\<forall>p \<in> set cur. unat p < fs_num_points st" "256 \<le> length cur"
    and leaders: "distinct leaders" "set leaders \<subseteq> set cur" "length leaders \<le> 2 ^ 16" "0 < local_fanout" "local_fanout \<le> length leaders"
    and room: "length (run_log run depth) + 12 * 32 * length cur \<le> usize_max"
  defines "reader \<equiv> direct_gather srt give c st (default_rbc_windowed_options (fs_dim st) pc we ge)"
  shows "\<exists>clusters ea ms run'.
    compute_clusters_gemm_budgeted F mm reader env (fs_dim st) cur leaders local_fanout budget = Inr clusters \<and>
    partition_external_once (compute_clusters_gemm_to_spool F mm reader env (fs_dim st) budget) dist True cur c_min c_max leaders local_fanout = Inr ea \<and>
    materialize_from_spool sys cur depth (ea_fanout ea) (ea_merge_groups ea) (ea_spool ea) inline_limit run = Inr (ms, run') \<and>
    load_children sys depth True ms run' = Inr (map sort_dedup (merge_clusters clusters c_min c_max))"
proof -
  let ?n = "length leaders" and ?fo = "min local_fanout 32" and ?ids = "ids_of (matrix_distance F dot (fs_row st)) leaders local_fanout"
  have ne: "leaders \<noteq> []" using leaders(4,5) by auto
  have dim: "fs_dim st < 2 ^ 32" using store(2) by (simp add: fs_ok_def)
  have lp: "\<forall>p \<in> set leaders. unat p < fs_num_points st" using leaders(2) pts(2) by blast
  note pres = direct_pres [OF store(1-4) pts(2)] direct_pres [OF store(1-4) lp]
  note fit = distinct_u32_fit [OF pts(1) dim] distinct_u32_fit [OF leaders(1) dim]
  have fo: "assign_record_fanout (min (max local_fanout 1) ?n) = ?fo" "?fo = assign_record_fanout (min ?fo ?n)"
    "assign_record_fanout ?fo = ?fo" "max ?n 1 = ?n" "0 < ?fo" using leaders(4,5) by (auto simp: assign_record_fanout_def)
  have gemm: "compute_clusters_gemm_budgeted F mm reader env (fs_dim st) cur leaders local_fanout budget = Inr (clusters_of ?ids ?n cur)"
    unfolding reader_def by (rule direct_rows.gemm_ok [OF mm leaders(4) ne store(5) pres fit])
  have spool: "compute_clusters_gemm_to_spool F mm reader env (fs_dim st) budget leaders ?fo cur (replicate ?n 0) =
      Inr (map length (clusters_of ?ids ?n cur), concat (map (\<lambda>p. assign_record ?fo (map word_of_nat (?ids p))) cur))"
    using direct_rows.gemm_spool_ok [OF mm fo(5) ne length_replicate fo(2) store(5) pres fit]
    unfolding reader_def ids_of_min .
  have ext: "partition_external_once (compute_clusters_gemm_to_spool F mm reader env (fs_dim st) budget) dist True cur c_min c_max leaders local_fanout =
      Inr \<lparr>ea_spool = concat (map (\<lambda>p. assign_record ?fo (map word_of_nat (?ids p))) cur), ea_fanout = ?fo,
           ea_merge_groups = merge_cluster_plan (map length (clusters_of ?ids ?n cur)) c_min c_max\<rparr>"
    using pts(3) unfolding partition_external_once_def Let_def fo(4) unfolding fo(1) by (simp add: spool)
  have "\<forall>p \<in> set cur. set (?ids p) \<subseteq> {..<?n} \<and> length (?ids p) \<le> ?fo"
    using assigns_ids [OF matrix_all_numbers leaders(4) ne, of F dot "fs_row st" cur] by (simp add: assigns_def)
  from spool_children_ok [OF sys leaders(3) this fo(3) room]
  obtain ms run' where run': "materialize_from_spool sys cur depth ?fo (merge_cluster_plan (map length (clusters_of ?ids ?n cur)) c_min c_max)
        (concat (map (\<lambda>p. assign_record ?fo (map word_of_nat (?ids p))) cur)) inline_limit run = Inr (ms, run')"
      "load_children sys depth True ms run' = Inr (map sort_dedup (merge_clusters (clusters_of ?ids ?n cur) c_min c_max))" by blast
  show ?thesis
    by (intro exI conjI, rule gemm, rule ext, unfold external_attempt.select_convs, rule run'(1), rule run'(2))
qed

definition wide_store :: file_store where
  "wide_store = \<lparr>fs_file = le32 300 @ le32 1 @ le32s (map word_of_nat [0..<300]), fs_num_points = 300, fs_dim = 1, fs_row_bytes = 4\<rparr>"

lemma wide_store_ok: "fs_ok wide_store"
  by (simp add: fs_ok_def wide_store_def FBIN_HEADER_BYTES_def usize_max_def length_concat comp_def sum_list_triv del: upt_rec_numeral upt_conv_Cons)

lemma distinct_u32s: "n \<le> 2 ^ 32 \<Longrightarrow> distinct (map (word_of_nat :: nat \<Rightarrow> u32) [0..<n])"
proof -
  assume n: "n \<le> 2 ^ 32"
  have "inj_on (word_of_nat :: nat \<Rightarrow> u32) {0..<n}"
    using n by (intro inj_on_inverseI [of _ unat]) (simp add: unsigned_of_nat take_bit_eq_mod)
  then show ?thesis by (simp add: distinct_map)
qed

theorem external_gemm_equals_in_memory_witness:
  "\<exists>clusters ea ms run'.
    compute_clusters_gemm_budgeted demo_f32 (\<lambda>X L. map (\<lambda>x. map (demo_dot x) L) X)
      (direct_gather sort_key (\<lambda>off n. 3) \<lparr>dc_enabled = False, dc_alignment = 512\<rparr> wide_store
        (default_rbc_windowed_options (fs_dim wide_store) True None (Some 2)))
      \<lparr>ge_workers = 4, ge_override = None, ge_strict_budget = Some 16\<rparr> (fs_dim wide_store) (map word_of_nat [0..<300]) [5, 200] 1 None = Inr clusters \<and>
    partition_external_once (compute_clusters_gemm_to_spool demo_f32 (\<lambda>X L. map (\<lambda>x. map (demo_dot x) L) X)
      (direct_gather sort_key (\<lambda>off n. 3) \<lparr>dc_enabled = False, dc_alignment = 512\<rparr> wide_store
        (default_rbc_windowed_options (fs_dim wide_store) True None (Some 2)))
      \<lparr>ge_workers = 4, ge_override = None, ge_strict_budget = Some 16\<rparr> (fs_dim wide_store) None) (\<lambda>p l. Inl index_panic) True
      (map word_of_nat [0..<300]) 2 100 [5, 200] 1 = Inr ea \<and>
    materialize_from_spool \<lparr>os_give = \<lambda>off n. n, os_accept = \<lambda>off b. 5\<rparr> (map word_of_nat [0..<300]) 1 (ea_fanout ea) (ea_merge_groups ea)
      (ea_spool ea) (Some 3) demo_store = Inr (ms, run') \<and>
    load_children \<lparr>os_give = \<lambda>off n. n, os_accept = \<lambda>off b. 5\<rparr> 1 True ms run' = Inr (map sort_dedup (merge_clusters clusters 2 100))"
proof (rule external_gemm_equals_in_memory [OF _ _ _ unstable_sort_sort_key wide_store_ok])
  show "os_ok \<lparr>os_give = \<lambda>off n. n, os_accept = \<lambda>off b. 5\<rparr>" by (simp add: os_ok_def gives_def accepts_def)
  show "run_inv demo_store" by (rule demo_store_ok(1))
  show "entrywise (\<lambda>X L. map (\<lambda>x. map (demo_dot x) L) X) demo_dot" by (simp add: entrywise_def)
  show "distinct (map word_of_nat [0..<300] :: u32 list)" by (rule distinct_u32s) simp
  show "\<forall>p \<in> set (map word_of_nat [0..<300]). unat (p :: u32) < fs_num_points wide_store"
    by (simp add: wide_store_def take_bit_eq_mod unsigned_of_nat del: upt_rec_numeral upt_conv_Cons)
  have "(word_of_nat 5 :: u32) \<in> word_of_nat ` {0..<300}" "(word_of_nat 200 :: u32) \<in> word_of_nat ` {0..<300}"
    by (rule imageI, simp)+
  then show "set [5, 200] \<subseteq> set (map word_of_nat [0..<300] :: u32 list)"
    by (simp del: upt_rec_numeral upt_conv_Cons)
  show "length (run_log demo_store 1) + 12 * 32 * length (map word_of_nat [0..<300] :: u32 list) \<le> usize_max"
    unfolding demo_store_ok(2) by (simp add: usize_max_def del: upt_rec_numeral upt_conv_Cons)
qed (simp_all add: gives_def wide_store_def del: upt_rec_numeral upt_conv_Cons)

end
