(* ===== verification/Prefetch.thy ===== *)
theory Prefetch
  imports Gemm
begin

text \<open>
  The prefetch pipeline of the partition, \<^verbatim>\<open>rbc_partition/prefetch_pipeline.rs\<close>: a producer thread
  loads batches of rows ahead of the consumer, through a bounded channel and under a byte budget
  (\<open>StrictPrefetchGate\<close>) that several pipelines may share. The threads are a step relation; wall-clock
  times are left out and counters do not wrap. A compare-and-swap of the gate together with its peak is one step, and a
  thread that spins takes no step until it can go on.
\<close>

section \<open>Batches and profiles\<close>

record prefetched_batch =
  pb_ids :: "u32 list"
  pb_data :: "f32 list"
  pb_len :: usize
  pb_io_stats :: batch_stats
  pb_logical_bytes :: nat
  pb_physical_bytes :: nat
  pb_permit_bytes :: usize

datatype pipeline_kind = Off | Local | Strict

record strict_config =
  st_queue_depth :: usize
  st_budget_bytes :: usize
  st_max_window_bytes :: usize
  st_max_gap_rows :: usize

record prefetch_profile =
  pf_pipeline :: pipeline_kind
  pf_queue_depth :: usize
  pf_budget_bytes :: usize
  pf_used_peak_bytes :: usize
  pf_batches :: usize
  pf_fallback_budget_exhausted :: usize
  pf_range_reads :: nat
  pf_point_reads :: nat
  pf_logical_bytes :: nat
  pf_physical_bytes :: nat

definition profile_default :: prefetch_profile where
  "profile_default = \<lparr>pf_pipeline = Off, pf_queue_depth = 0, pf_budget_bytes = 0, pf_used_peak_bytes = 0, pf_batches = 0,
     pf_fallback_budget_exhausted = 0, pf_range_reads = 0, pf_point_reads = 0, pf_logical_bytes = 0, pf_physical_bytes = 0\<rparr>"

definition profile_merge :: "prefetch_profile \<Rightarrow> prefetch_profile \<Rightarrow> prefetch_profile" where
  "profile_merge p q =
     \<lparr>pf_pipeline = (if pf_pipeline q \<noteq> Off then pf_pipeline q else pf_pipeline p),
      pf_queue_depth = max (pf_queue_depth p) (pf_queue_depth q),
      pf_budget_bytes = max (pf_budget_bytes p) (pf_budget_bytes q),
      pf_used_peak_bytes = max (pf_used_peak_bytes p) (pf_used_peak_bytes q),
      pf_batches = pf_batches p + pf_batches q,
      pf_fallback_budget_exhausted = pf_fallback_budget_exhausted p + pf_fallback_budget_exhausted q,
      pf_range_reads = pf_range_reads p + pf_range_reads q,
      pf_point_reads = pf_point_reads p + pf_point_reads q,
      pf_logical_bytes = pf_logical_bytes p + pf_logical_bytes q,
      pf_physical_bytes = pf_physical_bytes p + pf_physical_bytes q\<rparr>"

definition record_batch :: "prefetch_profile \<Rightarrow> prefetched_batch \<Rightarrow> prefetch_profile" where
  "record_batch p b =
     p\<lparr>pf_batches := pf_batches p + 1,
       pf_range_reads := pf_range_reads p + bs_range_calls (pb_io_stats b),
       pf_point_reads := pf_point_reads p + bs_point_calls (pb_io_stats b),
       pf_logical_bytes := pf_logical_bytes p + pb_logical_bytes b,
       pf_physical_bytes := pf_physical_bytes p + pb_physical_bytes b\<rparr>"

definition avg_read_size_bytes :: "prefetch_profile \<Rightarrow> nat" where
  "avg_read_size_bytes p =
     (let reads = pf_range_reads p + pf_point_reads p in if reads = 0 then 0 else pf_physical_bytes p div reads)"

text \<open>\<open>read\<close> is \<open>read_points_windowed_into_batch_stats\<close> of the store, with the options and fresh statistics.\<close>

definition prefetch_point_batch_windowed ::
  "(u32 list \<Rightarrow> f32 list \<Rightarrow> (f32 list \<times> batch_stats) result) \<Rightarrow> usize \<Rightarrow> u32 list \<Rightarrow> prefetched_batch result" where
  "prefetch_point_batch_windowed read dim ids =
     res_bind (read ids (replicate (sat_mul (length ids) dim) f32_zero)) (\<lambda>(data, io_stats).
       Inr \<lparr>pb_ids = ids, pb_data = data, pb_len = length ids, pb_io_stats = io_stats,
            pb_logical_bytes = sat_mul (sat_mul (length ids) dim) 4, pb_physical_bytes = bs_bytes_read io_stats,
            pb_permit_bytes = 0\<rparr>)"

definition strict_prefetch_windowed_options :: "usize \<Rightarrow> gather_options \<Rightarrow> strict_config \<Rightarrow> gather_options" where
  "strict_prefetch_windowed_options dim fallback config =
     \<lparr>go_max_gap_rows = word_of_nat (min (st_max_gap_rows config) (2 ^ 32 - 1)),
      go_max_window_bytes = max (st_max_window_bytes config) (max (sat_mul dim 4) 1),
      go_alignment_bytes = go_alignment_bytes fallback, go_sort_ids = go_sort_ids fallback\<rparr>"

definition should_use_strict_prefetch_for_gemm_assignment ::
  "bool \<Rightarrow> (usize \<times> usize) option \<Rightarrow> usize \<Rightarrow> usize \<Rightarrow> usize \<Rightarrow> usize option \<Rightarrow> usize \<Rightarrow> bool" where
  "should_use_strict_prefetch_for_gemm_assignment enabled override points leaders dim memory_budget_bytes num_workers =
     (if \<not> enabled \<or> points = 0 \<or> leaders = 0 \<or> dim = 0 then False
      else
        let point_tile_size = fst (choose_gemm_tile_sizes_with_override override leaders dim memory_budget_bytes);
            batch_points = choose_prefetch_batch_points_for_budget point_tile_size dim (max num_workers 1) memory_budget_bytes
        in batch_points < points)"

section \<open>The gate\<close>

record prefetch_gate =
  pg_capacity_bytes :: usize
  pg_used_bytes :: usize
  pg_peak_bytes :: usize

definition gate_new :: "usize \<Rightarrow> prefetch_gate" where
  "gate_new capacity_bytes = \<lparr>pg_capacity_bytes = capacity_bytes, pg_used_bytes = 0, pg_peak_bytes = 0\<rparr>"

text \<open>
  A try of \<open>acquire_blocking\<close>: the gate afterwards and the bytes of the permit (none for a batch above the
  capacity), or \<open>None\<close> while the caller has to wait.
\<close>

definition acquire :: "prefetch_gate \<Rightarrow> usize \<Rightarrow> (prefetch_gate \<times> usize) option" where
  "acquire g bytes =
     (if bytes = 0 then Some (g, bytes)
      else if pg_capacity_bytes g < bytes then Some (g, 0)
      else if sat_add (pg_used_bytes g) bytes \<le> pg_capacity_bytes g then
        let after = pg_used_bytes g + bytes
        in Some (g\<lparr>pg_used_bytes := after, pg_peak_bytes := max (pg_peak_bytes g) after\<rparr>, bytes)
      else None)"

text \<open>\<open>fetch_sub\<close> wraps.\<close>

definition release :: "usize \<Rightarrow> prefetch_gate \<Rightarrow> prefetch_gate" where
  "release bytes g =
     (if 0 < bytes then g\<lparr>pg_used_bytes := (pg_used_bytes g + (usize_max + 1) - bytes) mod (usize_max + 1)\<rparr> else g)"

section \<open>The threads\<close>

text \<open>
  What a pipeline is given: the width of a row, the capacity of the channel, the loads (which give a batch
  without a permit) and the closure of the consumer, which may change a state.
\<close>

record 's pipe_env =
  pe_row_dim :: usize
  pe_queue_depth :: usize
  pe_load :: "u32 list \<Rightarrow> prefetched_batch result"
  pe_consume :: "'s \<Rightarrow> prefetched_batch \<Rightarrow> 's result"

text \<open>
  The producer: about to ask for the permit of the next chunk, about to load a chunk with its permit, about to
  send a batch, or stopped (its end of the channel dropped).
\<close>

datatype producer =
    Acquiring "u32 list list"
  | Loading "u32 list" usize "u32 list list"
  | Sending "prefetched_batch result" "u32 list list"
  | Stopped

text \<open>
  The consumer: in \<open>recv\<close> with the number of batches to come, in the closure with a batch, or
  back from the closure of \<open>thread::scope\<close> with its value. The receiver lives as long as the scope, so a
  send never finds the channel disconnected.
\<close>

datatype 's consumer =
    Receiving nat "prefetch_profile \<times> 's"
  | Working prefetched_batch nat "prefetch_profile \<times> 's"
  | Returned "(prefetch_profile \<times> 's) result"

record 's pipeline =
  pl_env :: "'s pipe_env"
  pl_producer :: producer
  pl_queue :: "prefetched_batch result list"
  pl_consumer :: "'s consumer"

definition batch_bytes :: "usize \<Rightarrow> u32 list \<Rightarrow> usize" where
  "batch_bytes dim chunk = sat_mul (sat_mul (length chunk) dim) 4"

definition worker_terminated :: fault where
  "worker_terminated = Err (Index ''Prefetch worker terminated before delivering RBC point batch'')"

text \<open>One step of one of the two threads; \<open>None\<close> is a pipeline without a gate.\<close>

inductive pipe_step :: "prefetch_gate option \<Rightarrow> 's pipeline \<Rightarrow> prefetch_gate option \<Rightarrow> 's pipeline \<Rightarrow> bool" where
  no_gate:
    "pl_producer p = Acquiring (c # cs) \<Longrightarrow> pipe_step None p None (p\<lparr>pl_producer := Loading c 0 cs\<rparr>)"
| permit:
    "pl_producer p = Acquiring (c # cs) \<Longrightarrow> acquire g (batch_bytes (pe_row_dim (pl_env p)) c) = Some (g', bytes) \<Longrightarrow>
     pipe_step (Some g) p (Some g') (p\<lparr>pl_producer := Loading c bytes cs\<rparr>)"
| no_chunk:
    "pl_producer p = Acquiring [] \<Longrightarrow> pipe_step go p go (p\<lparr>pl_producer := Stopped\<rparr>)"
| loaded:
    "pl_producer p = Loading c bytes cs \<Longrightarrow> pe_load (pl_env p) c = Inr b \<Longrightarrow>
     pipe_step go p go (p\<lparr>pl_producer := Sending (Inr (b\<lparr>pb_permit_bytes := bytes\<rparr>)) cs\<rparr>)"
| load_failed:
    "pl_producer p = Loading c bytes cs \<Longrightarrow> pe_load (pl_env p) c = Inl (Err e) \<Longrightarrow>
     pipe_step go p (map_option (release bytes) go) (p\<lparr>pl_producer := Sending (Inl (Err e)) cs\<rparr>)"
| load_panicked:
    "pl_producer p = Loading c bytes cs \<Longrightarrow> pe_load (pl_env p) c = Inl (Panic m) \<Longrightarrow>
     pipe_step go p go (p\<lparr>pl_producer := Stopped\<rparr>)"
| sent:
    "pl_producer p = Sending b cs \<Longrightarrow> length (pl_queue p) < pe_queue_depth (pl_env p) \<Longrightarrow>
     pipe_step go p go (p\<lparr>pl_producer := Acquiring cs, pl_queue := pl_queue p @ [b]\<rparr>)"
| received:
    "pl_consumer p = Receiving (Suc k) s \<Longrightarrow> pl_queue p = Inr b # q \<Longrightarrow>
     pipe_step go p go (p\<lparr>pl_queue := q, pl_consumer := Working b k s\<rparr>)"
| received_error:
    "pl_consumer p = Receiving (Suc k) s \<Longrightarrow> pl_queue p = Inl e # q \<Longrightarrow>
     pipe_step go p go (p\<lparr>pl_queue := q, pl_consumer := Returned (Inl e)\<rparr>)"
| disconnected:
    "pl_consumer p = Receiving (Suc k) s \<Longrightarrow> pl_queue p = [] \<Longrightarrow> pl_producer p = Stopped \<Longrightarrow>
     pipe_step go p go (p\<lparr>pl_consumer := Returned (Inl worker_terminated)\<rparr>)"
| consumed:
    "pl_consumer p = Working b k (prof, s) \<Longrightarrow> pe_consume (pl_env p) s b = Inr s' \<Longrightarrow>
     pipe_step go p (map_option (release (pb_permit_bytes b)) go)
       (p\<lparr>pl_consumer := Receiving k (record_batch prof b, s')\<rparr>)"
| consume_failed:
    "pl_consumer p = Working b k (prof, s) \<Longrightarrow> pe_consume (pl_env p) s b = Inl (Err e) \<Longrightarrow>
     pipe_step go p (map_option (release (pb_permit_bytes b)) go) (p\<lparr>pl_consumer := Returned (Inl (Err e))\<rparr>)"
| consume_panicked:
    "pl_consumer p = Working b k (prof, s) \<Longrightarrow> pe_consume (pl_env p) s b = Inl (Panic m) \<Longrightarrow>
     pipe_step go p go (p\<lparr>pl_consumer := Returned (Inl (Panic m))\<rparr>)"
| all_received:
    "pl_consumer p = Receiving 0 s \<Longrightarrow> pipe_step go p go (p\<lparr>pl_consumer := Returned (Inr s)\<rparr>)"

text \<open>Pipelines that share a gate, and the steps of the whole system.\<close>

type_synonym 's pipes = "prefetch_gate option \<times> 's pipeline list"

inductive pipes_step :: "'s pipes \<Rightarrow> 's pipes \<Rightarrow> bool" where
  step: "i < length ps \<Longrightarrow> pipe_step go (ps ! i) go' p' \<Longrightarrow> pipes_step (go, ps) (go', ps[i := p'])"

section \<open>Set-up\<close>

text \<open>
  The sizes of a pipeline, from the caller's batch size, queue depth and the strict configuration (a
  configuration that is not enabled is \<open>None\<close>); the batch size is \<open>pipeline_batch_points\<close>.
\<close>

definition effective_queue_depth :: "strict_config option \<Rightarrow> usize \<Rightarrow> usize" where
  "effective_queue_depth strict queue_depth =
     max (case strict of None \<Rightarrow> max queue_depth 1 | Some config \<Rightarrow> max (st_queue_depth config) 1) 1"

definition local_profile :: "usize \<Rightarrow> strict_config option \<Rightarrow> usize \<Rightarrow> prefetch_profile" where
  "local_profile dim strict queue_depth =
     (case strict of
        None \<Rightarrow> profile_default\<lparr>pf_pipeline := Local, pf_queue_depth := max queue_depth 1\<rparr>
      | Some config \<Rightarrow> profile_default\<lparr>pf_pipeline := Strict, pf_queue_depth := max (st_queue_depth config) 1,
          pf_budget_bytes := st_budget_bytes config,
          pf_fallback_budget_exhausted :=
            (if 0 < st_budget_bytes config \<and> st_budget_bytes config < max (sat_mul dim 4) 1 then 1 else 0)\<rparr>)"

definition local_gate :: "strict_config option \<Rightarrow> prefetch_gate option" where
  "local_gate strict =
     (case strict of None \<Rightarrow> None
      | Some config \<Rightarrow> if 0 < st_budget_bytes config then Some (gate_new (st_budget_bytes config)) else None)"

definition read_options :: "usize \<Rightarrow> strict_config option \<Rightarrow> gather_options \<Rightarrow> gather_options" where
  "read_options dim strict options =
     (case strict of None \<Rightarrow> options | Some config \<Rightarrow> strict_prefetch_windowed_options dim options config)"

text \<open>The profile a finished pipeline merges into the caller's.\<close>

definition final_profile :: "strict_config option \<Rightarrow> prefetch_gate option \<Rightarrow> prefetch_profile \<Rightarrow> prefetch_profile" where
  "final_profile strict go prof =
     (let prof = (case go of None \<Rightarrow> prof | Some g \<Rightarrow> prof\<lparr>pf_used_peak_bytes := pg_peak_bytes g\<rparr>)
      in if strict \<noteq> None \<and> go = None then prof\<lparr>pf_fallback_budget_exhausted := 1\<rparr> else prof)"

definition pipeline_start :: "'s pipe_env \<Rightarrow> u32 list list \<Rightarrow> prefetch_profile \<times> 's \<Rightarrow> 's pipeline" where
  "pipeline_start D cs s =
     \<lparr>pl_env = D, pl_producer = Acquiring cs, pl_queue = [], pl_consumer = Receiving (length cs) s\<rparr>"

definition pipeline_finished :: "'s pipeline \<Rightarrow> bool" where
  "pipeline_finished p \<longleftrightarrow> pl_producer p = Stopped \<and> (\<exists>r. pl_consumer p = Returned r)"

section \<open>The plain loop\<close>

text \<open>The branch for a store that turns prefetching off: the batches one after the other.\<close>

fun plain_batches :: "'s pipe_env \<Rightarrow> u32 list list \<Rightarrow> prefetch_profile \<times> 's \<Rightarrow> (prefetch_profile \<times> 's) result" where
  "plain_batches D [] ps = Inr ps"
| "plain_batches D (chunk # cs) (prof, s) =
     res_bind (pe_load D chunk) (\<lambda>batch.
     res_bind (pe_consume D s batch) (\<lambda>s'. plain_batches D cs (record_batch prof batch, s')))"

section \<open>What the consumer sees\<close>

inductive_cases pipe_stepE: "pipe_step go p go' p'"

text \<open>Batches still to be consumed, and what becomes of them if nothing fails in between.\<close>

fun consume_all :: "'s pipe_env \<Rightarrow> prefetched_batch result list \<Rightarrow> prefetch_profile \<times> 's \<Rightarrow> (prefetch_profile \<times> 's) result" where
  "consume_all D [] ps = Inr ps"
| "consume_all D (x # xs) (prof, s) =
     res_bind x (\<lambda>b. res_bind (pe_consume D s b) (\<lambda>s'. consume_all D xs (record_batch prof b, s')))"

fun pending :: "'s pipe_env \<Rightarrow> producer \<Rightarrow> prefetched_batch result list" where
  "pending D (Acquiring cs) = map (pe_load D) cs"
| "pending D (Loading c bytes cs) = map (pe_load D) (c # cs)"
| "pending D (Sending x cs) = x # map (pe_load D) cs"
| "pending D Stopped = []"

definition todo :: "'s pipeline \<Rightarrow> prefetched_batch result list" where
  "todo p = pl_queue p @ pending (pl_env p) (pl_producer p)"

definition outcome :: "'s pipeline \<Rightarrow> (prefetch_profile \<times> 's) result" where
  "outcome p =
     (case pl_consumer p of
        Receiving k s \<Rightarrow> consume_all (pl_env p) (todo p) s
      | Working b k s \<Rightarrow> consume_all (pl_env p) (Inr b # todo p) s
      | Returned r \<Rightarrow> r)"

definition counted :: "'s pipeline \<Rightarrow> bool" where
  "counted p \<longleftrightarrow>
     (case pl_consumer p of
        Receiving k s \<Rightarrow> k = length (todo p)
      | Working b k s \<Rightarrow> k = length (todo p)
      | Returned (Inr s) \<Rightarrow> todo p = []
      | Returned (Inl e) \<Rightarrow> True)"

text \<open>The closure does not read the permit of its batch; loads fail with errors, not panics.\<close>

definition ignores_permit :: "'s pipe_env \<Rightarrow> bool" where
  "ignores_permit D \<longleftrightarrow> (\<forall>s b bytes. pe_consume D s (b\<lparr>pb_permit_bytes := bytes\<rparr>) = pe_consume D s b)"

definition loads_return :: "'s pipe_env \<Rightarrow> bool" where
  "loads_return D \<longleftrightarrow> (\<forall>c m. pe_load D c \<noteq> Inl (Panic m))"

lemma consume_all_plain: "consume_all D (map (pe_load D) cs) ps = plain_batches D cs ps"
  by (induction D cs ps rule: plain_batches.induct) (auto intro!: res_bind_cong)

lemma consume_all_error [simp]: "consume_all D (Inl e # xs) ps = Inl e"
  by (cases ps) simp

lemma record_batch_permit [simp]: "record_batch prof (b\<lparr>pb_permit_bytes := bytes\<rparr>) = record_batch prof b"
  by (simp add: record_batch_def)

lemma consume_all_permit:
  assumes "ignores_permit D"
  shows "consume_all D (xs @ Inr (b\<lparr>pb_permit_bytes := bytes\<rparr>) # ys) ps = consume_all D (xs @ Inr b # ys) ps"
proof (induction xs arbitrary: ps)
  case Nil
  then show ?case using assms by (cases ps) (simp add: ignores_permit_def)
next
  case (Cons x xs)
  then show ?case by (cases ps) simp
qed

lemma consume_all_fail: "x \<in> set xs \<Longrightarrow> x = Inl e \<Longrightarrow> consume_all D xs ps \<noteq> Inr r"
  by (induction D xs ps rule: consume_all.induct) (auto simp: res_bind_Inr_iff)

lemma failing_outcome:
  assumes "Inl e \<in> set (todo p)" "outcome p = Inr r"
  shows "\<exists>q. pl_consumer p = Returned q"
proof (cases "pl_consumer p")
  case (Receiving k s)
  then show ?thesis using consume_all_fail [OF assms(1) refl, of "pl_env p" s r] assms(2) by (simp add: outcome_def)
next
  case (Working b k s)
  have "Inl e \<in> set (Inr b # todo p)" using assms(1) by simp
  from consume_all_fail [OF this refl, of "pl_env p" s r] show ?thesis using assms(2) Working by (simp add: outcome_def)
qed simp

lemma step_env: "pipe_step go p go' p' \<Longrightarrow> pl_env p' = pl_env p"
  by (erule pipe_step.cases) auto

lemma step_outcome:
  assumes "pipe_step go p go' p'" "ignores_permit (pl_env p)" "loads_return (pl_env p) \<or> outcome p = Inr r" "counted p"
  shows "outcome p' = outcome p"
  using assms(1)
proof cases
  case (loaded c bytes cs b)
  have "consume_all (pl_env p) (xs @ pl_queue p @ Inr (b\<lparr>pb_permit_bytes := bytes\<rparr>) # ys) ps = consume_all (pl_env p) (xs @ pl_queue p @ Inr b # ys) ps"
    for xs ys ps using consume_all_permit [OF assms(2), of "xs @ pl_queue p" bytes b ys ps] by simp
  from this [of "[]"] this [of "[x]" for x] show ?thesis using loaded by (simp add: outcome_def todo_def split: consumer.split)
next
  case (load_panicked c bytes cs m)
  then have t: "Inl (Panic m) \<in> set (todo p)" by (simp add: todo_def)
  have "outcome p = Inr r" using assms(3) load_panicked(4) unfolding loads_return_def by blast
  then obtain q where "pl_consumer p = Returned q" using failing_outcome [OF t] by blast
  then show ?thesis using load_panicked(2) by (simp add: outcome_def)
next
  case (disconnected k s)
  then show ?thesis using assms(4) by (simp add: counted_def todo_def)
next
  case (all_received s)
  then show ?thesis using assms(4) by (simp add: counted_def outcome_def)
qed (simp_all add: outcome_def todo_def split: consumer.split)

lemma step_counted:
  assumes "pipe_step go p go' p'" "loads_return (pl_env p) \<or> outcome p = Inr r" "counted p"
  shows "counted p'"
  using assms(1)
proof cases
  case (load_panicked c bytes cs m)
  then have t: "Inl (Panic m) \<in> set (todo p)" by (simp add: todo_def)
  have "outcome p = Inr r" using assms(2) load_panicked(4) unfolding loads_return_def by blast
  then obtain q where q: "pl_consumer p = Returned q" using failing_outcome [OF t] by blast
  then have "todo p = []" using assms(3) \<open>outcome p = Inr r\<close> by (simp add: counted_def outcome_def)
  then show ?thesis using t by simp
qed (use assms(3) in \<open>simp_all add: counted_def todo_def split: consumer.splits sum.splits\<close>)

section \<open>The gate is never overdrawn\<close>

fun permit_of :: "prefetched_batch result \<Rightarrow> usize" where
  "permit_of (Inr b) = pb_permit_bytes b"
| "permit_of (Inl e) = 0"

fun producer_permit :: "producer \<Rightarrow> usize" where
  "producer_permit (Loading c bytes cs) = bytes"
| "producer_permit (Sending x cs) = permit_of x"
| "producer_permit (Acquiring cs) = 0"
| "producer_permit Stopped = 0"

fun consumer_permit :: "'s consumer \<Rightarrow> usize" where
  "consumer_permit (Working b k s) = pb_permit_bytes b"
| "consumer_permit (Receiving k s) = 0"
| "consumer_permit (Returned r) = 0"

definition permits :: "'s pipeline \<Rightarrow> usize" where
  "permits p = producer_permit (pl_producer p) + sum_list (map permit_of (pl_queue p)) + consumer_permit (pl_consumer p)"

text \<open>
  The bytes in use are the permits that are out (\<open>in_use\<close>), within the capacity; the peak is the largest number so far. A
  capacity of \<open>usize::MAX\<close> is left out: there the saturating comparison would let the sum overflow.
\<close>

definition gate_inv :: "prefetch_gate \<Rightarrow> usize \<Rightarrow> bool" where
  "gate_inv g in_use \<longleftrightarrow> pg_used_bytes g = in_use \<and> pg_used_bytes g \<le> pg_capacity_bytes g \<and> pg_capacity_bytes g < usize_max \<and>
     pg_used_bytes g \<le> pg_peak_bytes g \<and> pg_peak_bytes g \<le> pg_capacity_bytes g"

lemma release_ok:
  assumes "gate_inv g (in_use + bytes)"
  shows "gate_inv (release bytes g) in_use"
proof -
  have b: "bytes \<le> pg_used_bytes g" "pg_used_bytes g < Suc usize_max" using assms by (simp_all add: gate_inv_def)
  then have "pg_used_bytes g + Suc usize_max - bytes = (pg_used_bytes g - bytes) + Suc usize_max" by simp
  then have "(pg_used_bytes g + Suc usize_max - bytes) mod Suc usize_max = (pg_used_bytes g - bytes) mod Suc usize_max"
    by (simp only: mod_add_self2)
  also have "\<dots> = pg_used_bytes g - bytes" using b by (intro mod_less) linarith
  finally have "(pg_used_bytes g + Suc usize_max - bytes) mod Suc usize_max = pg_used_bytes g - bytes" .
  then show ?thesis using assms by (auto simp: gate_inv_def release_def)
qed

lemma acquire_ok:
  assumes "gate_inv g in_use" "acquire g bytes = Some (g', permit)"
  shows "gate_inv g' (in_use + permit)"
  using assms by (auto simp: gate_inv_def acquire_def sat_add_def Let_def split: if_splits)

text \<open>A panic leaks its permit; in a pipeline whose loop succeeds nothing panics.\<close>

lemma no_load_panic:
  assumes "pl_producer p = Loading c bytes cs" "pe_load (pl_env p) c = Inl e" "counted p"
  shows "outcome p \<noteq> Inr r"
proof
  assume o: "outcome p = Inr r"
  have t: "Inl e \<in> set (todo p)" using assms(1,2) by (simp add: todo_def)
  from failing_outcome [OF this o] obtain q where "pl_consumer p = Returned q" by blast
  then have "todo p = []" using assms(3) o by (simp add: counted_def outcome_def)
  then show False using t by simp
qed

lemma step_gate:
  assumes "pipe_step (Some g) p go' p'" "gate_inv g (others + permits p)"
  shows "\<exists>g' leak. go' = Some g' \<and> gate_inv g' (others + permits p' + leak) \<and> pg_capacity_bytes g' = pg_capacity_bytes g \<and>
    (\<forall>r. counted p \<longrightarrow> outcome p = Inr r \<longrightarrow> leak = 0)"
  using assms(1)
proof cases
  case (permit c cs g' bytes)
  then have "pg_capacity_bytes g' = pg_capacity_bytes g" by (auto simp: acquire_def Let_def split: if_splits)
  then show ?thesis using permit acquire_ok [OF assms(2) permit(4)]
    by (intro exI [of _ g'] exI [of _ 0]) (simp add: permits_def add.commute add.left_commute)
next
  case (load_failed c bytes cs e)
  then show ?thesis using release_ok [of g "others + permits p'" bytes] assms(2)
    by (intro exI [of _ "release bytes g"] exI [of _ 0]) (simp add: permits_def algebra_simps release_def)
next
  case (load_panicked c bytes cs m)
  then have "counted p \<longrightarrow> outcome p \<noteq> Inr r" for r using no_load_panic by blast
  then show ?thesis using load_panicked assms(2)
    by (intro exI [of _ g] exI [of _ bytes]) (auto simp: permits_def algebra_simps)
next
  case (consumed b k prof s s')
  then show ?thesis using release_ok [of g "others + permits p'" "pb_permit_bytes b"] assms(2)
    by (intro exI [of _ "release (pb_permit_bytes b) g"] exI [of _ 0]) (simp add: permits_def algebra_simps release_def)
next
  case (consume_failed b k prof s e)
  then show ?thesis using release_ok [of g "others + permits p'" "pb_permit_bytes b"] assms(2)
    by (intro exI [of _ "release (pb_permit_bytes b) g"] exI [of _ 0]) (simp add: permits_def algebra_simps release_def)
next
  case (consume_panicked b k prof s m)
  then show ?thesis using assms(2)
    by (intro exI [of _ g] exI [of _ "pb_permit_bytes b"]) (auto simp: permits_def algebra_simps outcome_def)
qed (use assms(2) in \<open>auto simp: permits_def gate_inv_def\<close>)

section \<open>Steps run out\<close>

fun producer_steps :: "producer \<Rightarrow> nat" where
  "producer_steps (Acquiring cs) = 3 * length cs + 1"
| "producer_steps (Loading c bytes cs) = 3 * length cs + 3"
| "producer_steps (Sending x cs) = 3 * length cs + 2"
| "producer_steps Stopped = 0"

fun consumer_steps :: "'s consumer \<Rightarrow> nat" where
  "consumer_steps (Receiving k s) = 2 * k + 1"
| "consumer_steps (Working b k s) = 2 * k + 2"
| "consumer_steps (Returned r) = 0"

definition steps_left :: "'s pipeline \<Rightarrow> nat" where
  "steps_left p = producer_steps (pl_producer p) + consumer_steps (pl_consumer p)"

lemma step_steps: "pipe_step go p go' p' \<Longrightarrow> steps_left p' < steps_left p"
  by (erule pipe_step.cases) (auto simp: steps_left_def)

section \<open>The system\<close>

text \<open>A job is a pipeline to start: what it is given, its chunks, and the profile and state of its consumer.\<close>

type_synonym 's job = "'s pipe_env \<times> u32 list list \<times> (prefetch_profile \<times> 's)"

fun job_start :: "'s job \<Rightarrow> 's pipeline" where
  "job_start (D, cs, s) = pipeline_start D cs s"

fun job_result :: "'s job \<Rightarrow> (prefetch_profile \<times> 's) result" where
  "job_result (D, cs, s) = plain_batches D cs s"

fun job_steps :: "'s job \<Rightarrow> nat" where
  "job_steps (D, cs, s) = 5 * length cs + 2"

lemma start_ok:
  "pl_env (job_start j) = fst j" "counted (job_start j)" "outcome (job_start j) = job_result j"
  "permits (job_start j) = 0" "steps_left (job_start j) = job_steps j"
  by (cases j; simp add: pipeline_start_def counted_def outcome_def todo_def consume_all_plain permits_def steps_left_def)+

text \<open>What a pipeline keeps of its job.\<close>

definition serves :: "'s job \<Rightarrow> 's pipeline \<Rightarrow> bool" where
  "serves j p \<longleftrightarrow> pl_env p = fst j \<and> counted p \<and> outcome p = job_result j"

definition job_ok :: "'s job \<Rightarrow> bool" where
  "job_ok j \<longleftrightarrow> ignores_permit (fst j) \<and> (loads_return (fst j) \<or> (\<exists>r. job_result j = Inr r))"

lemma step_serves:
  assumes "pipe_step go p go' p'" "job_ok j" "serves j p"
  shows "serves j p'"
proof -
  have env: "pl_env p = fst j" "counted p" "outcome p = job_result j" using assms(3) by (simp_all add: serves_def)
  obtain r where r: "loads_return (pl_env p) \<or> outcome p = Inr r" using assms(2) env by (auto simp: job_ok_def)
  have "ignores_permit (pl_env p)" using assms(2) env by (simp add: job_ok_def)
  from step_outcome [OF assms(1) this r env(2)] step_counted [OF assms(1) r env(2)] step_env [OF assms(1)] env
  show ?thesis by (simp add: serves_def)
qed

lemma list_all2_update_right: "list_all2 P xs ys \<Longrightarrow> i < length ys \<Longrightarrow> P (xs ! i) y \<Longrightarrow> list_all2 P xs (ys[i := y])"
  by (simp add: list_all2_conv_all_nth nth_list_update)

lemma nth_le_sum: "i < length xs \<Longrightarrow> f (xs ! i) \<le> sum_list (map f xs)" for f :: "'a \<Rightarrow> nat"
  using elem_le_sum_list [of i "map f xs"] by simp

lemma sum_list_map_update:
  fixes f :: "'a \<Rightarrow> nat"
  assumes "i < length xs"
  shows "sum_list (map f (xs[i := y])) + f (xs ! i) = sum_list (map f xs) + f y"
  using assms nth_le_sum [OF assms, of f] by (simp add: map_update sum_list_update)

lemma run_serves:
  assumes "pipes_step\<^sup>*\<^sup>* (go, map job_start jobs) (go', ps)" "\<forall>j \<in> set jobs. job_ok j"
  shows "list_all2 serves jobs ps"
  using assms(1)
proof (induction "(go', ps)" arbitrary: go' ps rule: rtranclp_induct)
  case base
  then show ?case by (simp add: list_all2_map2 list_all2_same serves_def start_ok)
next
  case (step y)
  obtain go1 ps1 where y: "y = (go1, ps1)" by fastforce
  from step(2) obtain i p' where i: "i < length ps1" "pipe_step go1 (ps1 ! i) go' p'" "ps = ps1[i := p']"
    unfolding y by (auto elim: pipes_step.cases)
  have s: "list_all2 serves jobs ps1" by (rule step(3) [OF y])
  then have l: "length jobs = length ps1" by (rule list_all2_lengthD)
  have "job_ok (jobs ! i)" "serves (jobs ! i) (ps1 ! i)" using s i(1) assms(2) l by (auto simp: list_all2_conv_all_nth)
  then show ?case using step_serves [OF i(2)] s i by (simp add: list_all2_update_right)
qed

lemma run_steps:
  assumes "(pipes_step ^^ n) (go, map job_start jobs) (go', ps)"
  shows "n + sum_list (map steps_left ps) \<le> sum_list (map job_steps jobs)"
  using assms
proof (induction n arbitrary: go' ps)
  case 0
  then have "ps = map job_start jobs" by simp
  then show ?case by (simp add: start_ok comp_def)
next
  case (Suc n)
  then obtain go1 ps1 where y: "(pipes_step ^^ n) (go, map job_start jobs) (go1, ps1)" "pipes_step (go1, ps1) (go', ps)" by auto
  from y(2) obtain i p' where i: "i < length ps1" "pipe_step go1 (ps1 ! i) go' p'" "ps = ps1[i := p']" by (auto elim: pipes_step.cases)
  have "n + sum_list (map steps_left ps1) \<le> sum_list (map job_steps jobs)" by (rule Suc.IH [OF y(1)])
  then show ?case using step_steps [OF i(2)] sum_list_map_update [OF i(1), of steps_left p'] i(3) by simp
qed

lemma run_gate:
  assumes "pipes_step\<^sup>*\<^sup>* (Some (gate_new capacity), map job_start jobs) (go', ps)" "capacity < usize_max"
  shows "\<exists>g leak. go' = Some g \<and> gate_inv g (sum_list (map permits ps) + leak) \<and> pg_capacity_bytes g = capacity \<and>
    ((\<forall>j \<in> set jobs. job_ok j \<and> (\<exists>r. job_result j = Inr r)) \<longrightarrow> leak = 0)"
  using assms(1)
proof (induction "(go', ps)" arbitrary: go' ps rule: rtranclp_induct)
  case base
  then show ?case using assms(2) by (simp add: gate_new_def gate_inv_def start_ok comp_def)
next
  case (step y)
  obtain go1 ps1 where y: "y = (go1, ps1)" by fastforce
  from step(2) obtain i p' where i: "i < length ps1" "pipe_step go1 (ps1 ! i) go' p'" "ps = ps1[i := p']"
    unfolding y by (auto elim: pipes_step.cases)
  from step(3) [OF y] obtain g leak where g: "go1 = Some g" "gate_inv g (sum_list (map permits ps1) + leak)" "pg_capacity_bytes g = capacity"
      "(\<forall>j \<in> set jobs. job_ok j \<and> (\<exists>r. job_result j = Inr r)) \<longrightarrow> leak = 0" by blast
  define others where "others = sum_list (map permits ps1) + leak - permits (ps1 ! i)"
  have "permits (ps1 ! i) \<le> sum_list (map permits ps1)" by (rule nth_le_sum [OF i(1)])
  then have o: "sum_list (map permits ps1) + leak = others + permits (ps1 ! i)" by (simp add: others_def)
  from step_gate [OF i(2) [unfolded g(1)] g(2) [unfolded o]] obtain g' leak' where g': "go' = Some g'" "gate_inv g' (others + permits p' + leak')"
      "pg_capacity_bytes g' = capacity" "\<forall>r. counted (ps1 ! i) \<longrightarrow> outcome (ps1 ! i) = Inr r \<longrightarrow> leak' = 0" using g(3) by auto
  have "others + permits p' = sum_list (map permits ps) + leak" using sum_list_map_update [OF i(1), of permits p'] o i(3) by simp
  then have inv: "gate_inv g' (sum_list (map permits ps) + (leak + leak'))" using g'(2) by (simp add: add.assoc)
  have "leak + leak' = 0" if ok: "\<forall>j \<in> set jobs. job_ok j \<and> (\<exists>r. job_result j = Inr r)"
  proof -
    have "list_all2 serves jobs ps1" using run_serves step(1) ok unfolding y by blast
    then have "serves (jobs ! i) (ps1 ! i)" "jobs ! i \<in> set jobs" using i(1) by (auto simp: list_all2_conv_all_nth)
    then show ?thesis using g(4) g'(4) ok by (auto simp: serves_def)
  qed
  then show ?case using g'(1,3) inv by blast
qed

section \<open>No deadlock\<close>

lemma finished_permits:
  assumes "pipeline_finished p" "counted p" "outcome p = Inr r"
  shows "permits p = 0"
proof -
  obtain q where q: "pl_producer p = Stopped" "pl_consumer p = Returned q" using assms(1) by (auto simp: pipeline_finished_def)
  then have "todo p = []" using assms(2,3) by (simp add: counted_def outcome_def)
  then show ?thesis using q by (simp add: permits_def todo_def)
qed

lemma waiting_for_gate:
  assumes stuck: "\<forall>go' p'. \<not> pipe_step go p go' p'" and p: "counted p" "outcome p = Inr r" "0 < pe_queue_depth (pl_env p)"
    and running: "\<not> pipeline_finished p"
  shows "permits p = 0 \<and> (\<exists>g c cs. go = Some g \<and> pl_producer p = Acquiring (c # cs) \<and>
    acquire g (batch_bytes (pe_row_dim (pl_env p)) c) = None)"
proof -
  have prod: "pl_producer p \<noteq> Acquiring []" "\<nexists>c bytes cs. pl_producer p = Loading c bytes cs"
    "\<And>x cs. pl_producer p = Sending x cs \<Longrightarrow> pe_queue_depth (pl_env p) \<le> length (pl_queue p)"
  proof -
    show "pl_producer p \<noteq> Acquiring []" using stuck pipe_step.no_chunk by blast
    show "\<nexists>c bytes cs. pl_producer p = Loading c bytes cs"
    proof
      assume "\<exists>c bytes cs. pl_producer p = Loading c bytes cs"
      then obtain c bytes cs where "pl_producer p = Loading c bytes cs" by blast
      then show False
        using stuck pipe_step.loaded [of p c bytes cs] pipe_step.load_failed [of p c bytes cs] pipe_step.load_panicked [of p c bytes cs]
        by (cases "pe_load (pl_env p) c") (metis fault.exhaust)+
    qed
    show "pe_queue_depth (pl_env p) \<le> length (pl_queue p)" if "pl_producer p = Sending x cs" for x cs
      using stuck pipe_step.sent [OF that] by (meson not_le)
  qed
  have cons: "(\<exists>q. pl_consumer p = Returned q) \<or> (\<exists>k s. pl_consumer p = Receiving (Suc k) s \<and> pl_queue p = [])"
  proof (cases "pl_consumer p")
    case (Receiving k s)
    show ?thesis
    proof (cases k)
      case 0
      then show ?thesis using stuck pipe_step.all_received Receiving by blast
    next
      case (Suc k')
      then show ?thesis using stuck pipe_step.received [of p k' s] pipe_step.received_error [of p k' s] Receiving
        by (cases "pl_queue p"; cases "hd (pl_queue p)") auto
    qed
  next
    case (Working b k ps)
    obtain prof s where ps: "ps = (prof, s)" by fastforce
    show ?thesis
      using stuck pipe_step.consumed [OF Working [unfolded ps]] pipe_step.consume_failed [OF Working [unfolded ps]]
        pipe_step.consume_panicked [OF Working [unfolded ps]]
      by (cases "pe_consume (pl_env p) s b") (metis fault.exhaust)+
  qed blast
  show ?thesis
  proof (cases "\<exists>q. pl_consumer p = Returned q")
    case True
    then have "todo p = []" using p(1,2) by (auto simp: counted_def outcome_def)
    then have "pl_producer p = Stopped" using prod(1,2) by (cases "pl_producer p") (auto simp: todo_def)
    then show ?thesis using True running by (simp add: pipeline_finished_def)
  next
    case False
    then obtain k s where rec: "pl_consumer p = Receiving (Suc k) s" "pl_queue p = []" using cons by blast
    have "pl_producer p \<noteq> Stopped" using stuck pipe_step.disconnected [OF rec] by blast
    moreover have "\<nexists>x cs. pl_producer p = Sending x cs" using prod(3) p(3) rec(2) by fastforce
    ultimately obtain c cs where a: "pl_producer p = Acquiring (c # cs)" using prod(1,2) by (cases "pl_producer p") (auto simp: neq_Nil_conv)
    obtain g where g: "go = Some g" using stuck pipe_step.no_gate [OF a] by (cases go) auto
    have "acquire g (batch_bytes (pe_row_dim (pl_env p)) c) = None"
      using stuck pipe_step.permit [OF a, of g] g by (cases "acquire g (batch_bytes (pe_row_dim (pl_env p)) c)") auto
    then show ?thesis using a g rec by (simp add: permits_def)
  qed
qed

lemma acquire_free: "gate_inv g 0 \<Longrightarrow> acquire g bytes \<noteq> None"
  by (auto simp: gate_inv_def acquire_def sat_add_def Let_def)

lemma no_deadlock:
  assumes serves: "list_all2 serves jobs ps" and jobs: "\<forall>j \<in> set jobs. 0 < pe_queue_depth (fst j) \<and> (\<exists>r. job_result j = Inr r)"
    and gate: "go = None \<or> (\<exists>g. go = Some g \<and> gate_inv g (sum_list (map permits ps)))"
    and stuck: "\<forall>\<sigma>. \<not> pipes_step (go, ps) \<sigma>" and p: "p \<in> set ps"
  shows "pipeline_finished p"
proof (rule ccontr)
  assume running: "\<not> pipeline_finished p"
  have local_stuck: "\<forall>go' q'. \<not> pipe_step go q go' q'" if "q \<in> set ps" for q
    using that stuck pipes_step.step by (metis in_set_conv_nth)
  have ok: "counted q \<and> 0 < pe_queue_depth (pl_env q) \<and> (\<exists>r. outcome q = Inr r)" if q: "q \<in> set ps" for q
  proof -
    obtain i where i: "i < length ps" "q = ps ! i" using q by (auto simp: in_set_conv_nth)
    then have "serves (jobs ! i) q" "jobs ! i \<in> set jobs" using serves by (auto simp: list_all2_conv_all_nth)
    then show ?thesis using jobs by (auto simp: serves_def)
  qed
  obtain g c cs where g: "go = Some g" "acquire g (batch_bytes (pe_row_dim (pl_env p)) c) = None"
    using waiting_for_gate [OF local_stuck [OF p]] ok [OF p] running by blast
  have "permits q = 0" if "q \<in> set ps" for q
    using finished_permits waiting_for_gate [OF local_stuck [OF that]] ok [OF that] by blast
  then have "sum_list (map permits ps) = 0" by (simp add: sum_list_eq_0_iff)
  moreover have "gate_inv g (sum_list (map permits ps))" using gate g(1) by auto
  ultimately have "gate_inv g 0" by metis
  then show False using acquire_free g(2) by blast
qed


text \<open>A concrete pipeline: batches of one id, a closure that collects the ids and fails at the id 9.\<close>

definition demo_pipe :: "u32 list pipe_env" where
  "demo_pipe = \<lparr>pe_row_dim = 2, pe_queue_depth = 1,
     pe_load = prefetch_point_batch_windowed (\<lambda>ids out. Inr (out, \<lparr>bs_point_calls = 1, bs_range_calls = 0, bs_range_rows_read = 0, bs_bytes_read = 8\<rparr>)) 2,
     pe_consume = \<lambda>s b. if 9 \<in> set (pb_ids b) then Inl (Err (Index ''9'')) else Inr (s @ pb_ids b)\<rparr>"

lemma demo_pipe_ok: "ignores_permit demo_pipe" "loads_return demo_pipe" "0 < pe_queue_depth demo_pipe"
  by (auto simp: ignores_permit_def loads_return_def demo_pipe_def prefetch_point_batch_windowed_def)

definition demo_job :: "u32 list job" where
  "demo_job = (demo_pipe, [[6]], (profile_default, [1]))"

lemma demo_job_ok: "\<forall>j \<in> set [demo_job]. ignores_permit (fst j) \<and> 0 < pe_queue_depth (fst j) \<and> (\<exists>r. job_result j = Inr r)"
  using demo_pipe_ok by (simp add: demo_job_def) (simp add: demo_pipe_def prefetch_point_batch_windowed_def)

lemma one_pipe_step: "pipe_step go p go' p' \<Longrightarrow> pipes_step (go, [p]) (go', [p'])"
  using pipes_step.step [of 0 "[p]" go go' p'] by simp

text \<open>The states of a run of the demonstration job under a gate of eight bytes.\<close>

definition demo_batch :: prefetched_batch where
  "demo_batch = \<lparr>pb_ids = [6], pb_data = [f32_zero, f32_zero], pb_len = 1, pb_io_stats = \<lparr>bs_point_calls = 1, bs_range_calls = 0,
     bs_range_rows_read = 0, bs_bytes_read = 8\<rparr>, pb_logical_bytes = 8, pb_physical_bytes = 8, pb_permit_bytes = 8\<rparr>"

definition demo_state :: "producer \<Rightarrow> prefetched_batch result list \<Rightarrow> u32 list consumer \<Rightarrow> u32 list pipeline" where
  "demo_state pr q c = \<lparr>pl_env = demo_pipe, pl_producer = pr, pl_queue = q, pl_consumer = c\<rparr>"

definition demo_gate :: "usize \<Rightarrow> prefetch_gate" where
  "demo_gate used = \<lparr>pg_capacity_bytes = 8, pg_used_bytes = used, pg_peak_bytes = 8\<rparr>"

lemma demo_load: "pe_load demo_pipe [6] = Inr (demo_batch\<lparr>pb_permit_bytes := 0\<rparr>)"
proof -
  have "replicate 2 f32_zero = [f32_zero, f32_zero]" by (simp add: numeral_2_eq_2)
  then show ?thesis by (simp add: demo_pipe_def demo_batch_def prefetch_point_batch_windowed_def sat_mul_def usize_max_def)
qed

lemma demo_run:
  fixes s0 s1 :: "prefetch_profile \<times> u32 list"
  defines "s0 \<equiv> (profile_default, [1])" and "s1 \<equiv> (record_batch profile_default demo_batch, [1, 6])"
  shows "(pipes_step ^^ 7) (Some (gate_new 8), map job_start [demo_job]) (Some (demo_gate 0), [demo_state Stopped [] (Returned (Inr s1))])"
proof -
  have start: "map job_start [demo_job] = [demo_state (Acquiring [[6]]) [] (Receiving 1 s0)]"
    by (simp add: demo_job_def demo_state_def pipeline_start_def s0_def)
  have 1: "pipe_step (Some (gate_new 8)) (demo_state (Acquiring [[6]]) [] (Receiving 1 s0))
      (Some (demo_gate 8)) (demo_state (Loading [6] 8 []) [] (Receiving 1 s0))"
    using pipe_step.permit [of "demo_state (Acquiring [[6]]) [] (Receiving 1 s0)" "[6]" "[]" "gate_new 8" "demo_gate 8" 8]
    by (simp add: demo_state_def demo_pipe_def acquire_def gate_new_def demo_gate_def batch_bytes_def sat_mul_def sat_add_def usize_max_def)
  have 2: "pipe_step (Some (demo_gate 8)) (demo_state (Loading [6] 8 []) [] (Receiving 1 s0))
      (Some (demo_gate 8)) (demo_state (Sending (Inr demo_batch) []) [] (Receiving 1 s0))"
    using pipe_step.loaded [of "demo_state (Loading [6] 8 []) [] (Receiving 1 s0)" "[6]" 8 "[]" "demo_batch\<lparr>pb_permit_bytes := 0\<rparr>" "Some (demo_gate 8)"]
    by (simp add: demo_load demo_state_def) (simp add: demo_batch_def)
  have 3: "pipe_step (Some (demo_gate 8)) (demo_state (Sending (Inr demo_batch) []) [] (Receiving 1 s0))
      (Some (demo_gate 8)) (demo_state (Acquiring []) [Inr demo_batch] (Receiving 1 s0))"
    using pipe_step.sent [of "demo_state (Sending (Inr demo_batch) []) [] (Receiving 1 s0)" "Inr demo_batch" "[]" "Some (demo_gate 8)"]
    by (simp add: demo_state_def demo_pipe_def)
  have 4: "pipe_step (Some (demo_gate 8)) (demo_state (Acquiring []) [Inr demo_batch] (Receiving 1 s0))
      (Some (demo_gate 8)) (demo_state (Acquiring []) [] (Working demo_batch 0 s0))"
    using pipe_step.received [of "demo_state (Acquiring []) [Inr demo_batch] (Receiving 1 s0)" 0 s0 demo_batch "[]" "Some (demo_gate 8)"]
    by (simp add: demo_state_def)
  have 5: "pipe_step (Some (demo_gate 8)) (demo_state (Acquiring []) [] (Working demo_batch 0 s0))
      (Some (demo_gate 0)) (demo_state (Acquiring []) [] (Receiving 0 s1))"
    using pipe_step.consumed [of "demo_state (Acquiring []) [] (Working demo_batch 0 s0)" demo_batch 0 profile_default "[1]" "[1, 6]" "Some (demo_gate 8)"]
    by (simp add: demo_state_def demo_pipe_def s0_def s1_def release_def demo_gate_def demo_batch_def usize_max_def)
  have 6: "pipe_step (Some (demo_gate 0)) (demo_state (Acquiring []) [] (Receiving 0 s1))
      (Some (demo_gate 0)) (demo_state Stopped [] (Receiving 0 s1))"
    using pipe_step.no_chunk [of "demo_state (Acquiring []) [] (Receiving 0 s1)" "Some (demo_gate 0)"] by (simp add: demo_state_def)
  have 7: "pipe_step (Some (demo_gate 0)) (demo_state Stopped [] (Receiving 0 s1))
      (Some (demo_gate 0)) (demo_state Stopped [] (Returned (Inr s1)))"
    using pipe_step.all_received [of "demo_state Stopped [] (Receiving 0 s1)" s1 "Some (demo_gate 0)"] by (simp add: demo_state_def)
  have seven: "(7 :: nat) = Suc (Suc (Suc (Suc (Suc (Suc (Suc 0))))))" by simp
  show ?thesis
    unfolding start seven
    by (rule relpowp_Suc_I2, rule one_pipe_step, fact 1, rule relpowp_Suc_I2, rule one_pipe_step, fact 2, rule relpowp_Suc_I2, rule one_pipe_step, fact 3,
      rule relpowp_Suc_I2, rule one_pipe_step, fact 4, rule relpowp_Suc_I2, rule one_pipe_step, fact 5, rule relpowp_Suc_I2, rule one_pipe_step, fact 6,
      rule relpowp_Suc_I2, rule one_pipe_step, fact 7, rule relpowp_0_I)
qed

lemma demo_stuck: "\<not> pipes_step (go, [demo_state Stopped [] (Returned r)]) \<sigma>"
  by (auto simp: demo_state_def elim!: pipes_step.cases pipe_step.cases)


text \<open>C19: Whatever the schedule, the queue depth, the gate and the other pipelines, a consumer that is back from its loop
  has the value of the plain loop over the same batches, errors of loads and of the closure included.\<close>

theorem prefetch_equals_plain:
  assumes "pipes_step\<^sup>*\<^sup>* (gate, map job_start jobs) (gate', ps)"
    and "\<forall>j \<in> set jobs. ignores_permit (fst j) \<and> loads_return (fst j)"
    and "i < length jobs" "pl_consumer (ps ! i) = Returned r"
  shows "r = job_result (jobs ! i)"
proof -
  have "list_all2 serves jobs ps" using run_serves [OF assms(1)] assms(2) by (simp add: job_ok_def)
  then show ?thesis using assms(3,4) by (auto simp: list_all2_conv_all_nth serves_def outcome_def)
qed

theorem prefetch_equals_plain_witness:
  "Inr (record_batch profile_default demo_batch, [1, 6]) = job_result ([demo_job] ! 0)"
  by (rule prefetch_equals_plain [OF relpowp_imp_rtranclp [OF demo_run]])
    (use demo_pipe_ok in \<open>simp_all add: demo_job_def demo_state_def\<close>)

text \<open>C20: The gate is never overdrawn: in every reachable state, errors and panics included, the permits of all
  pipelines together are within the bytes in use, and these and the recorded peak within the capacity.\<close>

theorem prefetch_gate_bound:
  assumes "pipes_step\<^sup>*\<^sup>* (Some (gate_new capacity), map job_start jobs) (gate', ps)" "capacity < usize_max"
  shows "\<exists>g. gate' = Some g \<and> sum_list (map permits ps) \<le> pg_used_bytes g \<and> pg_used_bytes g \<le> pg_peak_bytes g \<and>
    pg_peak_bytes g \<le> capacity"
  using run_gate [OF assms] by (auto simp: gate_inv_def)

theorem prefetch_gate_bound_witness:
  "\<exists>g. Some (demo_gate 0) = Some g \<and>
    sum_list (map permits [demo_state Stopped [] (Returned (Inr (record_batch profile_default demo_batch, [1, 6])))]) \<le> pg_used_bytes g \<and>
    pg_used_bytes g \<le> pg_peak_bytes g \<and> pg_peak_bytes g \<le> 8"
  by (rule prefetch_gate_bound [OF relpowp_imp_rtranclp [OF demo_run]]) (simp add: usize_max_def)

section \<open>An error leaves the producer behind\<close>

text \<open>
  The last \<open>m\<close> batches are out of reach: the consumer fails with \<open>e\<close> before it comes to them, and they stay in the
  channel or with the producer.
\<close>

definition unreached :: "nat \<Rightarrow> fault \<Rightarrow> 's pipeline \<Rightarrow> bool" where
  "unreached m e p \<longleftrightarrow> m \<le> length (todo p) \<and> length (pl_queue p) \<le> pe_queue_depth (pl_env p) \<and>
     (case pl_consumer p of
        Receiving k s \<Rightarrow> k = length (todo p) \<and> consume_all (pl_env p) (take (k - m) (todo p)) s = Inl e
      | Working b k s \<Rightarrow> k = length (todo p) \<and> consume_all (pl_env p) (Inr b # take (k - m) (todo p)) s = Inl e
      | Returned r \<Rightarrow> r = Inl e)"

lemma take_permit:
  assumes "ignores_permit D"
  shows "consume_all D (xs @ take n (ys @ Inr (b\<lparr>pb_permit_bytes := bytes\<rparr>) # zs)) s = consume_all D (xs @ take n (ys @ Inr b # zs)) s"
proof (cases "n \<le> length ys")
  case False
  then obtain k where "n - length ys = Suc k" by (cases "n - length ys") auto
  then show ?thesis using consume_all_permit [OF assms, of "xs @ take n ys" bytes b "take k zs" s] by simp
qed simp

lemma step_unreached:
  assumes "pipe_step go p go' p'" "ignores_permit (pl_env p)" "loads_return (pl_env p)" "unreached m e p"
  shows "unreached m e p'"
  using assms(1)
proof cases
  case (loaded c bytes cs b)
  let ?rest = "map (pe_load (pl_env p)) cs"
  have "length (todo p') = length (todo p)" using loaded by (simp add: todo_def)
  moreover have "consume_all (pl_env p) (xs @ take n (todo p')) s = consume_all (pl_env p) (xs @ take n (todo p)) s" for xs n s
    using take_permit [OF assms(2), of xs n "pl_queue p" bytes b ?rest s] loaded by (simp add: todo_def)
  from this [of "[]"] this [of "[Inr b]" for b]
  have "consume_all (pl_env p) (take n (todo p')) s = consume_all (pl_env p) (take n (todo p)) s"
    "consume_all (pl_env p) (Inr x # take n (todo p')) s = consume_all (pl_env p) (Inr x # take n (todo p)) s" for n s x
    by (simp_all del: consume_all.simps)
  ultimately show ?thesis using assms(4) loaded(2) by (auto simp: unreached_def simp del: consume_all.simps split: consumer.splits)
next
  case (load_panicked c bytes cs msg)
  then show ?thesis using assms(3) by (simp add: loads_return_def)
next
  case (received k s b q)
  have "m \<le> k"
  proof (rule ccontr)
    assume "\<not> m \<le> k"
    then show False using assms(4) received by (simp add: unreached_def)
  qed
  moreover have "todo p = Inr b # todo p'" using received by (simp add: todo_def)
  ultimately show ?thesis using assms(4) received by (simp add: unreached_def Suc_diff_le)
next
  case (received_error k s e' q)
  have "m \<le> k"
  proof (rule ccontr)
    assume "\<not> m \<le> k"
    then show False using assms(4) received_error by (simp add: unreached_def)
  qed
  moreover have "todo p = Inl e' # todo p'" using received_error by (simp add: todo_def)
  ultimately show ?thesis using assms(4) received_error by (simp add: unreached_def Suc_diff_le)
next
  case (disconnected k s)
  then show ?thesis using assms(4) by (simp add: unreached_def todo_def)
next
  case (all_received s)
  then show ?thesis using assms(4) by (simp add: unreached_def)
qed (use assms(4) in \<open>auto simp: unreached_def todo_def split: consumer.splits\<close>)

lemma unreached_running: "unreached m e p \<Longrightarrow> pe_queue_depth (pl_env p) < m \<Longrightarrow> pl_producer p \<noteq> Stopped"
  by (auto simp: unreached_def todo_def)

text \<open>C18: When a load or the closure fails and more batches remain than the channel holds, the pipeline hangs: the
  receiver outlives the failed consumer, so on every schedule the producer keeps trying to send (or to acquire) and
  \<open>thread::scope\<close> never returns the error.\<close>

theorem prefetch_error_hangs:
  assumes "pipes_step\<^sup>*\<^sup>* (gate, map job_start jobs) (gate', ps)"
    and "i < length jobs" "jobs ! i = (D, cs, s)" "ignores_permit D" "loads_return D"
    and "plain_batches D (take j cs) s = Inl e" "j + pe_queue_depth D < length cs"
  shows "pl_producer (ps ! i) \<noteq> Stopped"
proof -
  let ?m = "length cs - j"
  have "length ps = length jobs \<and> pl_env (ps ! i) = D \<and> unreached ?m e (ps ! i)"
    using assms(1)
  proof (induction "(gate', ps)" arbitrary: gate' ps rule: rtranclp_induct)
    case base
    have "consume_all D (take j (map (pe_load D) cs)) s = Inl e" using assms(6) by (simp add: take_map consume_all_plain)
    then show ?case using assms(2,3,7) by (simp add: unreached_def pipeline_start_def todo_def)
  next
    case (step y)
    obtain go1 ps1 where y: "y = (go1, ps1)" by fastforce
    from step(2) obtain k p' where k: "k < length ps1" "pipe_step go1 (ps1 ! k) gate' p'" "ps = ps1[k := p']"
      unfolding y by (auto elim: pipes_step.cases)
    have IH: "length ps1 = length jobs \<and> pl_env (ps1 ! i) = D \<and> unreached ?m e (ps1 ! i)" by (rule step(3) [OF y])
    show ?case
    proof (cases "k = i")
      case True
      then show ?thesis using IH k step_unreached [OF k(2)] step_env [OF k(2)] assms(4,5) by simp
    next
      case False
      then show ?thesis using IH k by simp
    qed
  qed
  then show ?thesis using unreached_running [of ?m e "ps ! i"] assms(7) by simp
qed

text \<open>The demonstration pipeline fails on its first batch, and two more do not fit its channel of one.\<close>

theorem prefetch_error_hangs_witness:
  "pl_producer (map job_start [(demo_pipe, [[9], [4], [5]], (profile_default, []))] ! 0) \<noteq> Stopped"
proof (rule prefetch_error_hangs [of None "[(demo_pipe, [[9], [4], [5]], (profile_default, []))]" None])
  show "plain_batches demo_pipe (take 1 [[9], [4], [5]]) (profile_default, []) = Inl (Err (Index ''9''))"
    by (simp add: demo_pipe_def prefetch_point_batch_windowed_def)
qed (use demo_pipe_ok in \<open>simp_all add: demo_pipe_def [THEN arg_cong, of pe_queue_depth]\<close>)

section \<open>The matrix assignment through the pipeline\<close>

text \<open>The closure of \<open>compute_clusters_gemm_budgeted\<close> on a pipeline; \<open>Gemm.gemm_batches\<close> is its plain loop.\<close>

definition gemm_pipe ::
  "(f32 list list \<Rightarrow> usize list list result) \<Rightarrow> (u32 list \<Rightarrow> f32 list \<Rightarrow> (f32 list \<times> batch_stats) result) \<Rightarrow> usize \<Rightarrow> usize \<Rightarrow> usize \<Rightarrow> usize \<Rightarrow> usize \<Rightarrow>
   cluster list pipe_env" where
  "gemm_pipe leaders_of read dim nl point_tile_size num_workers queue_depth =
     \<lparr>pe_row_dim = dim, pe_queue_depth = queue_depth, pe_load = prefetch_point_batch_windowed read dim,
      pe_consume = \<lambda>cs batch.
        res_bind (choose_compute_block_points_for_batch point_tile_size (pb_len batch) num_workers) (\<lambda>block_points.
        res_bind (gemm_blocks leaders_of nl (batch_blocks dim block_points (pb_ids batch) (pb_data batch)) (replicate nl [])) (\<lambda>batch_clusters.
          merge_cluster_buffers cs batch_clusters))\<rparr>"

lemma map_sum_bind: "map_sum id g (res_bind m f) = res_bind m (\<lambda>x. map_sum id g (f x))"
  by (cases m) simp_all

lemma gemm_pipe_plain:
  "map_sum id snd (plain_batches (gemm_pipe leaders_of read dim nl tile nw depth) batches (prof, cs)) =
   gemm_batches leaders_of (\<lambda>ids out. map_sum id fst (read ids out)) dim nl tile nw batches cs"
proof (induction batches arbitrary: prof cs)
  case Nil
  show ?case by simp
next
  case (Cons ids batches)
  show ?case
  proof (cases "read ids (replicate (sat_mul (length ids) dim) f32_zero)")
    case (Inl e)
    then show ?thesis by (simp add: gemm_pipe_def prefetch_point_batch_windowed_def)
  next
    case (Inr r)
    obtain data st where r: "r = (data, st)" by fastforce
    let ?D = "gemm_pipe leaders_of read dim nl tile nw depth"
    obtain b where b: "pe_load ?D ids = Inr b" "pb_ids b = ids" "pb_data b = data" "pb_len b = length ids"
      using Inr r by (simp add: gemm_pipe_def prefetch_point_batch_windowed_def)
    have cons: "pe_consume ?D cs b = res_bind (choose_compute_block_points_for_batch tile (length ids) nw) (\<lambda>block_points.
        res_bind (gemm_blocks leaders_of nl (batch_blocks dim block_points ids data) (replicate nl [])) (\<lambda>batch_clusters.
          merge_cluster_buffers cs batch_clusters))" by (simp add: gemm_pipe_def b)
    show ?thesis using Inr r by (simp add: b(1) map_sum_bind cons Cons.IH res_bind_assoc del: id_apply)
  qed
qed

theorem pipelined_gemm:
  assumes "pipes_step\<^sup>*\<^sup>* (gate, map job_start jobs) (gate', ps)" "\<forall>j \<in> set jobs. ignores_permit (fst j) \<and> loads_return (fst j)"
    and "i < length jobs" "jobs ! i = (gemm_pipe leaders_of read dim nl tile nw depth, batches, (prof, cs))"
    and "pl_consumer (ps ! i) = Returned r"
  shows "map_sum id snd r = gemm_batches leaders_of (\<lambda>ids out. map_sum id fst (read ids out)) dim nl tile nw batches cs"
proof -
  have "list_all2 serves jobs ps" using run_serves [OF assms(1)] assms(2) by (simp add: job_ok_def)
  then have "serves (jobs ! i) (ps ! i)" using assms(3) by (simp add: list_all2_conv_all_nth)
  then have "r = plain_batches (gemm_pipe leaders_of read dim nl tile nw depth) batches (prof, cs)"
    using assms(4,5) by (simp add: serves_def outcome_def)
  then show ?thesis by (simp add: gemm_pipe_plain)
qed

lemma gemm_pipe_ignores_permit: "ignores_permit (gemm_pipe leaders_of read dim nl tile nw depth)"
  by (simp add: ignores_permit_def gemm_pipe_def)

end
