(* ===== verification/SpineOverlay.thy ===== *)
theory SpineOverlay
  imports SpillReduce
begin

text \<open>
  The spine overlay of \<^verbatim>\<open>ForgeANN/src/forgeann/spine_overlay_prune.rs\<close>: while leaves are built, a
  recorder collects for every point the edges proposed by several view families in a row of at most
  16 candidates (\<open>RuntimeSpineOverlayAccumulator\<close>); afterwards each base row of the graph is merged
  with its best overlay candidates (\<open>select_spine_overlay_row_with_stats\<close>).

  The rows' locks serialise the insertions of one call; a call of \<open>write_edges\<close> is one step here. The
  wall time of the statistics is left out. \<open>sort_by\<close> is the stable insertion sort \<open>sort_by\<close>: for the
  total orders used here every stable sort gives the same list.
\<close>

section \<open>Options\<close>

datatype metric = L2 | Cosine | Ip

record overlay_options =
  oo_max_degree :: usize
  oo_metric :: metric
  oo_overlay_budget :: usize
  oo_spine_fraction :: f32

definition f32_one :: f32 where
  "f32_one = 0x3f800000"

definition validate_spine_overlay_options :: "overlay_options \<Rightarrow> unit result" where
  "validate_spine_overlay_options opts =
     (if oo_metric opts \<noteq> L2
      then Inl (Err (IndexConfig ''spine_overlay_prune_enable'' ''SpineOverlayPrune currently supports only L2''))
      else if oo_max_degree opts = 0
      then Inl (Err (IndexConfig ''max_degree'' ''SpineOverlayPrune requires positive max-degree''))
      else if oo_max_degree opts < oo_overlay_budget opts
      then Inl (Err (IndexConfig ''spine_overlay_budget'' ''spine-overlay-budget must be <= max-degree''))
      else if \<not> f32_is_finite (oo_spine_fraction opts) \<or> f32_lt (oo_spine_fraction opts) 0 \<or>
              f32_lt f32_one (oo_spine_fraction opts)
      then Inl (Err (IndexConfig ''spine_overlay_spine_fraction'' ''spine-overlay-spine-fraction must be in [0, 1]''))
      else Inr ())"

definition RUNTIME_OVERLAY_MAX_SLOTS :: usize where
  "RUNTIME_OVERLAY_MAX_SLOTS = 16"

definition runtime_overlay_capacity :: "overlay_options \<Rightarrow> usize" where
  "runtime_overlay_capacity opts =
     min (min (max (sat_mul (oo_overlay_budget opts) 8) RUNTIME_OVERLAY_MAX_SLOTS) RUNTIME_OVERLAY_MAX_SLOTS)
       (max (oo_max_degree opts) 1)"

section \<open>Candidates\<close>

record overlay_update =
  ou_dst :: u32
  ou_dist2 :: f32
  ou_family :: u32
  ou_local_rank :: u8
  ou_direct :: bool
  ou_reciprocal :: bool

record overlay_cand =
  oc_dst :: u32
  oc_dist2 :: f32
  oc_family_support :: u16
  oc_reciprocal_support :: u16
  oc_rank_mass :: u32
  oc_best_rank :: u8
  oc_family_bits :: u64
  oc_reciprocal_bits :: u64

definition rank_weight :: "u8 \<Rightarrow> u32" where
  "rank_weight rank = (if rank = 1 then 6 else if rank = 2 then 3 else if rank = 3 then 2 else 1)"

definition family_hash :: "u32 \<Rightarrow> u32" where
  "family_hash family = word_rotl 13 (family * 0x9E3779B1) * 0x85EBCA6B"

definition family_bit :: "u32 \<Rightarrow> u64" where
  "family_bit family = push_bit (unat (family_hash family AND 63)) 1"

definition sat_add16 :: "u16 \<Rightarrow> u16 \<Rightarrow> u16" where
  "sat_add16 a b = (if unat a + unat b < 2 ^ 16 then a + b else - 1)"

definition sat_add32 :: "u32 \<Rightarrow> u32 \<Rightarrow> u32" where
  "sat_add32 a b = (if unat a + unat b < 2 ^ 32 then a + b else - 1)"

definition cand_empty :: overlay_cand where
  "cand_empty = \<lparr>oc_dst = - 1, oc_dist2 = f32_infinity, oc_family_support = 0, oc_reciprocal_support = 0,
     oc_rank_mass = 0, oc_best_rank = - 1, oc_family_bits = 0, oc_reciprocal_bits = 0\<rparr>"

definition apply_direct :: "overlay_update \<Rightarrow> overlay_cand \<Rightarrow> overlay_cand" where
  "apply_direct u c =
     (let fb = family_bit (ou_family u) in
      if ou_direct u \<and> oc_family_bits c AND fb = 0
      then (let rank = max (ou_local_rank u) 1 in
            c\<lparr>oc_family_bits := oc_family_bits c OR fb,
              oc_family_support := sat_add16 (oc_family_support c) 1,
              oc_rank_mass := sat_add32 (oc_rank_mass c) (rank_weight rank),
              oc_best_rank := (if rank < oc_best_rank c then rank else oc_best_rank c)\<rparr>)
      else c)"

definition apply_reciprocal :: "overlay_update \<Rightarrow> overlay_cand \<Rightarrow> overlay_cand" where
  "apply_reciprocal u c =
     (let fb = family_bit (ou_family u) in
      if ou_reciprocal u \<and> oc_reciprocal_bits c AND fb = 0
      then c\<lparr>oc_reciprocal_bits := oc_reciprocal_bits c OR fb,
             oc_reciprocal_support := sat_add16 (oc_reciprocal_support c) 1\<rparr>
      else c)"

definition cand_apply :: "overlay_update \<Rightarrow> overlay_cand \<Rightarrow> overlay_cand" where
  "cand_apply u c = apply_reciprocal u (apply_direct u (c\<lparr>oc_dist2 := f32_min (oc_dist2 c) (ou_dist2 u)\<rparr>))"

definition cand_new :: "overlay_update \<Rightarrow> overlay_cand" where
  "cand_new u = cand_apply u (cand_empty\<lparr>oc_dst := ou_dst u\<rparr>)"

definition runtime_retention_cmp :: "overlay_cand \<Rightarrow> overlay_cand \<Rightarrow> ordering" where
  "runtime_retention_cmp a b =
     then_with (then_with (then_with (then_with (then_with
       (cmp (oc_family_support b) (oc_family_support a))
       (cmp (oc_rank_mass b) (oc_rank_mass a)))
       (cmp (oc_best_rank a) (oc_best_rank b)))
       (cmp (oc_reciprocal_support b) (oc_reciprocal_support a)))
       (f32_cmp_or_equal (oc_dist2 a) (oc_dist2 b)))
       (cmp (oc_dst a) (oc_dst b))"

section \<open>Rows\<close>

record overlay_row =
  or_len :: u8
  or_slots :: "overlay_cand list"

definition row_default :: overlay_row where
  "row_default = \<lparr>or_len = 0, or_slots = replicate RUNTIME_OVERLAY_MAX_SLOTS cand_empty\<rparr>"

definition sat_succ8 :: "u8 \<Rightarrow> u8" where
  "sat_succ8 n = (if n = - 1 then n else n + 1)"

text \<open>\<open>Iterator::max_by\<close> returns the last of several maximal elements.\<close>

fun max_by_from :: "('a \<Rightarrow> 'a \<Rightarrow> ordering) \<Rightarrow> nat \<times> 'a \<Rightarrow> nat \<Rightarrow> 'a list \<Rightarrow> nat \<times> 'a" where
  "max_by_from c best i [] = best"
| "max_by_from c best i (x # xs) =
     max_by_from c (if c (snd best) x = Greater then best else (i, x)) (Suc i) xs"

definition max_by :: "('a \<Rightarrow> 'a \<Rightarrow> ordering) \<Rightarrow> 'a list \<Rightarrow> (nat \<times> 'a) option" where
  "max_by c xs = (case xs of [] \<Rightarrow> None | x # ys \<Rightarrow> Some (max_by_from c (0, x) 1 ys))"

definition row_insert :: "overlay_update \<Rightarrow> usize \<Rightarrow> overlay_row \<Rightarrow> overlay_row" where
  "row_insert u capacity row =
     (let capacity = min capacity RUNTIME_OVERLAY_MAX_SLOTS in
      if capacity = 0 then row
      else
        let len = unat (or_len row); slots = or_slots row in
        (case position (\<lambda>c. oc_dst c = ou_dst u) (take len slots) of
           Some i \<Rightarrow> row\<lparr>or_slots := slots[i := cand_apply u (slots ! i)]\<rparr>
         | None \<Rightarrow>
             let cand = cand_new u in
             if len < capacity
             then row\<lparr>or_slots := slots[len := cand], or_len := sat_succ8 (or_len row)\<rparr>
             else
               (case max_by runtime_retention_cmp (take len slots) of
                  None \<Rightarrow> row
                | Some (worst_idx, worst) \<Rightarrow>
                    if runtime_retention_cmp cand worst = Less
                    then row\<lparr>or_slots := slots[worst_idx := cand]\<rparr> else row)))"

section \<open>The accumulator\<close>

record overlay_acc =
  oa_rows :: "overlay_row list"
  oa_capacity :: usize
  oa_records :: usize
  oa_direct_records :: usize
  oa_mirror_records :: usize

definition acc_create :: "usize \<Rightarrow> overlay_options \<Rightarrow> overlay_acc result" where
  "acc_create num_points opts =
     res_bind (validate_spine_overlay_options opts) (\<lambda>_.
       Inr \<lparr>oa_rows = replicate num_points row_default, oa_capacity = runtime_overlay_capacity opts,
            oa_records = 0, oa_direct_records = 0, oa_mirror_records = 0\<rparr>)"

definition direct_update :: "u32 \<Rightarrow> pending_edge \<Rightarrow> overlay_update" where
  "direct_update family e = \<lparr>ou_dst = e_c e, ou_dist2 = e_dist e, ou_family = family,
     ou_local_rank = max (e_local_rank e) 1, ou_direct = True, ou_reciprocal = False\<rparr>"

definition reciprocal_update :: "u32 \<Rightarrow> pending_edge \<Rightarrow> overlay_update" where
  "reciprocal_update family e = \<lparr>ou_dst = word_of_nat (e_p e), ou_dist2 = e_dist e, ou_family = family,
     ou_local_rank = max (e_local_rank e) 1, ou_direct = False, ou_reciprocal = True\<rparr>"

fun collect_updates :: "nat \<Rightarrow> u32 \<Rightarrow> pending_edge list \<Rightarrow> (nat \<times> overlay_update) list result" where
  "collect_updates rows family [] = Inr []"
| "collect_updates rows family (e # es) =
     (if e_flags e AND PENDING_EDGE_DIRECT \<noteq> 0
      then
        let direct = (if e_p e < rows then [(e_p e, direct_update family e)] else []) in
        if unat (e_c e) < rows
        then (if 2 ^ 32 \<le> e_p e
              then Inl (Err (Index ''SpineOverlay runtime accumulator supports only u32 source ids''))
              else res_bind (collect_updates rows family es) (\<lambda>us.
                     Inr (direct @ (unat (e_c e), reciprocal_update family e) # us)))
        else res_bind (collect_updates rows family es) (\<lambda>us. Inr (direct @ us))
      else collect_updates rows family es)"

definition count_flag :: "u8 \<Rightarrow> pending_edge list \<Rightarrow> nat" where
  "count_flag flag es = length (filter (\<lambda>e. e_flags e AND flag \<noteq> 0) es)"

text \<open>The grouped insertion: one lock per run of updates of the same row.\<close>

fun insert_updates :: "usize \<Rightarrow> (nat \<times> overlay_update) list \<Rightarrow> overlay_row list \<Rightarrow> overlay_row list result" where
  "insert_updates capacity [] rows = Inr rows"
| "insert_updates capacity ((p, u) # us) rows =
     (if p < length rows then insert_updates capacity us (rows[p := row_insert u capacity (rows ! p)])
      else Inl (Panic ''index out of bounds''))"

definition fetch_add :: "usize \<Rightarrow> usize \<Rightarrow> usize" where
  "fetch_add a n = (a + n) mod 2 ^ 64"

type_synonym update_sort = "(nat \<times> overlay_update \<Rightarrow> nat \<times> u32) \<Rightarrow> (nat \<times> overlay_update) list \<Rightarrow> (nat \<times> overlay_update) list"

definition write_edges :: "update_sort \<Rightarrow> u32 \<Rightarrow> pending_edge list \<Rightarrow> overlay_acc \<Rightarrow> overlay_acc result" where
  "write_edges srt family edges acc =
     (if edges = [] then Inr acc
      else res_bind (collect_updates (length (oa_rows acc)) family edges) (\<lambda>updates.
           res_bind (insert_updates (oa_capacity acc) (srt (\<lambda>(p, u). (p, ou_dst u)) updates) (oa_rows acc)) (\<lambda>rows.
             Inr (acc\<lparr>oa_rows := rows, oa_records := fetch_add (oa_records acc) (length edges),
                  oa_direct_records := fetch_add (oa_direct_records acc) (count_flag PENDING_EDGE_DIRECT edges),
                  oa_mirror_records := fetch_add (oa_mirror_records acc) (count_flag PENDING_EDGE_MIRROR edges)\<rparr>))))"

text \<open>\<open>SpineOverlayTaggedEdgeSink\<close>: record the edges, then hand them to the inner sink.\<close>

definition tagged_flush :: "update_sort \<Rightarrow> u32 \<Rightarrow> (pending_edge list \<Rightarrow> 'st \<Rightarrow> 'st result) \<Rightarrow> pending_edge list \<Rightarrow>
    overlay_acc \<times> 'st \<Rightarrow> (overlay_acc \<times> 'st) result" where
  "tagged_flush srt family inner edges s =
     res_bind (write_edges srt family edges (fst s)) (\<lambda>acc. res_bind (inner edges (snd s)) (\<lambda>st. Inr (acc, st)))"

section \<open>Merging a row\<close>

record overlay_candidate =
  sc_dst :: u32
  sc_dist2 :: f32
  sc_family_support :: u16
  sc_reciprocal_support :: u16
  sc_rank_mass :: u32
  sc_best_rank :: u8
  sc_distance_rank :: usize

definition into_candidate :: "overlay_cand \<Rightarrow> overlay_candidate" where
  "into_candidate c = \<lparr>sc_dst = oc_dst c, sc_dist2 = oc_dist2 c, sc_family_support = oc_family_support c,
     sc_reciprocal_support = oc_reciprocal_support c, sc_rank_mass = oc_rank_mass c, sc_best_rank = oc_best_rank c,
     sc_distance_rank = 0\<rparr>"

fun insort_by :: "('a \<Rightarrow> 'a \<Rightarrow> ordering) \<Rightarrow> 'a \<Rightarrow> 'a list \<Rightarrow> 'a list" where
  "insort_by c x [] = [x]"
| "insort_by c x (y # ys) = (if c x y = Greater then y # insort_by c x ys else x # y # ys)"

definition sort_by :: "('a \<Rightarrow> 'a \<Rightarrow> ordering) \<Rightarrow> 'a list \<Rightarrow> 'a list" where
  "sort_by c xs = foldr (insort_by c) xs []"

definition distance_cmp :: "overlay_cand \<Rightarrow> overlay_cand \<Rightarrow> ordering" where
  "distance_cmp a b = then_with (f32_cmp_or_equal (oc_dist2 a) (oc_dist2 b)) (cmp (oc_dst a) (oc_dst b))"

definition stability_cmp :: "overlay_candidate \<Rightarrow> overlay_candidate \<Rightarrow> ordering" where
  "stability_cmp a b =
     then_with (then_with (then_with (then_with (then_with
       (cmp (sc_family_support b) (sc_family_support a))
       (cmp (sc_reciprocal_support b) (sc_reciprocal_support a)))
       (cmp (sc_rank_mass b) (sc_rank_mass a)))
       (cmp (sc_best_rank a) (sc_best_rank b)))
       (f32_cmp_or_equal (sc_dist2 a) (sc_dist2 b)))
       (cmp (sc_dst a) (sc_dst b))"

definition ranked_candidates :: "overlay_cand list \<Rightarrow> overlay_candidate list" where
  "ranked_candidates cs =
     map (\<lambda>(rank, c). c\<lparr>sc_distance_rank := rank\<rparr>) (enumerate 0 (map into_candidate (sort_by distance_cmp cs)))"

definition select_runtime_spine_overlay_candidates :: "overlay_candidate list \<Rightarrow> usize \<Rightarrow> u32 list" where
  "select_runtime_spine_overlay_candidates row max_degree =
     map sc_dst (take max_degree (sort_by (\<lambda>a b. then_with (then_with (stability_cmp a b)
       (cmp (sc_distance_rank a) (sc_distance_rank b))) (cmp (sc_dst a) (sc_dst b))) row))"

definition push_unique_id :: "u32 \<Rightarrow> u32 list \<Rightarrow> bool \<times> u32 list" where
  "push_unique_id dst selected = (if dst \<in> set selected then (False, selected) else (True, selected @ [dst]))"

definition keep_base :: "u32 list \<Rightarrow> u32 list" where
  "keep_base ids = fold (\<lambda>dst selected. snd (push_unique_id dst selected)) ids []"

fun add_overlay :: "usize \<Rightarrow> usize \<Rightarrow> u32 list \<Rightarrow> u32 list \<Rightarrow> nat \<Rightarrow> u32 list \<times> nat" where
  "add_overlay max_degree budget [] selected added = (selected, added)"
| "add_overlay max_degree budget (dst # dsts) selected added =
     (if max_degree \<le> length selected \<or> budget \<le> added then (selected, added)
      else
        let (new, selected') = push_unique_id dst selected
        in add_overlay max_degree budget dsts selected' (if new then added + 1 else added))"

fun refill_base :: "usize \<Rightarrow> u32 list \<Rightarrow> u32 list \<Rightarrow> nat \<Rightarrow> u32 list \<times> nat" where
  "refill_base max_degree [] selected added = (selected, added)"
| "refill_base max_degree (dst # dsts) selected added =
     (if max_degree \<le> length selected then (selected, added)
      else
        let (new, selected') = push_unique_id dst selected
        in refill_base max_degree dsts selected' (if new then added + 1 else added))"

definition select_spine_overlay_row_with_stats :: "u32 list \<Rightarrow> u32 list \<Rightarrow> overlay_options \<Rightarrow> u32 list \<times> nat \<times> nat" where
  "select_spine_overlay_row_with_stats base_row overlay_row opts =
     (let max_degree = oo_max_degree opts;
          overlay_budget = min (oo_overlay_budget opts) max_degree;
          base_keep = max_degree - overlay_budget;
          selected = keep_base (take base_keep base_row);
          (selected, overlay_added) = add_overlay max_degree overlay_budget overlay_row selected 0;
          (selected, base_refill) = refill_base max_degree (drop base_keep base_row) selected 0
      in (selected, overlay_added, base_refill))"

section \<open>The whole graph\<close>

record overlay_stats =
  os_raw_edges :: usize
  os_merged_candidates :: usize
  os_overfull_rows :: usize
  os_final_edges :: usize
  os_direct_ballots :: usize
  os_mirror_candidates :: usize
  os_rows_with_overlay :: usize
  os_overlay_edges_added :: usize
  os_base_refill_edges :: usize

definition overlay_merge_row :: "overlay_options \<Rightarrow> overlay_row \<Rightarrow> u32 list \<Rightarrow> overlay_candidate list \<times> u32 list \<times> nat \<times> nat" where
  "overlay_merge_row opts row base =
     (let candidates = ranked_candidates (take (unat (or_len row)) (or_slots row));
          overlay = select_runtime_spine_overlay_candidates candidates (oo_max_degree opts)
      in (candidates, select_spine_overlay_row_with_stats base overlay opts))"

definition count_row :: "overlay_options \<Rightarrow> u32 list \<Rightarrow> overlay_candidate list \<times> u32 list \<times> nat \<times> nat \<Rightarrow> overlay_stats \<Rightarrow> overlay_stats" where
  "count_row opts base m stats =
     (let (candidates, selected, overlay_added, base_refill) = m in
      stats\<lparr>os_merged_candidates := sat_add (os_merged_candidates stats) (length candidates),
        os_overfull_rows := (if oo_max_degree opts < length base then sat_add (os_overfull_rows stats) 1 else os_overfull_rows stats),
        os_rows_with_overlay := (if 0 < overlay_added then sat_add (os_rows_with_overlay stats) 1 else os_rows_with_overlay stats),
        os_overlay_edges_added := sat_add (os_overlay_edges_added stats) overlay_added,
        os_base_refill_edges := sat_add (os_base_refill_edges stats) base_refill,
        os_final_edges := sat_add (os_final_edges stats) (length selected)\<rparr>)"

fun merge_rows :: "overlay_options \<Rightarrow> 'st callback \<Rightarrow> nat \<Rightarrow> overlay_row list \<Rightarrow> u32 list list \<Rightarrow> overlay_stats \<Rightarrow> 'st \<Rightarrow>
    ('st \<times> overlay_stats) result" where
  "merge_rows opts write_row vid [] bases stats st = Inr (st, stats)"
| "merge_rows opts write_row vid (row # rows) bases stats st =
     (let m = overlay_merge_row opts row (hd bases) in
      res_bind (write_row st (word_of_nat vid) (fst (snd m))) (\<lambda>st'.
        merge_rows opts write_row (vid + 1) rows (tl bases) (count_row opts (hd bases) m stats) st'))"

definition build_spine_overlay_prune_graph :: "overlay_acc \<Rightarrow> u32 list list \<Rightarrow> usize \<Rightarrow> overlay_options \<Rightarrow> 'st callback \<Rightarrow> 'st \<Rightarrow>
    ('st \<times> overlay_stats) result" where
  "build_spine_overlay_prune_graph acc base_rows num_points opts write_row st =
     res_bind (validate_spine_overlay_options opts) (\<lambda>_.
       if length base_rows \<noteq> num_points
       then Inl (Err (Index ''SpineOverlayPrune base row count does not match num_points''))
       else if length (oa_rows acc) \<noteq> num_points
       then Inl (Err (Index ''SpineOverlayPrune runtime row count does not match num_points''))
       else merge_rows opts write_row 0 (oa_rows acc) base_rows
              \<lparr>os_raw_edges = oa_records acc, os_merged_candidates = 0, os_overfull_rows = 0, os_final_edges = 0,
               os_direct_ballots = oa_direct_records acc, os_mirror_candidates = oa_mirror_records acc,
               os_rows_with_overlay = 0, os_overlay_edges_added = 0, os_base_refill_edges = 0\<rparr> st)"

section \<open>Comparators with a key\<close>

lemma cmp_pair: "cmp (a, x) (b, y) = then_with (cmp a b) (cmp x y)"
  by (auto simp: cmp_def less_prod_def')

lemma then_with_assoc: "then_with (then_with a b) c = then_with a (then_with b c)"
  by (cases a) simp_all

lemma cmp_neg: "cmp (- uint a) (- uint b) = cmp b a"
  by (auto simp: cmp_def word_less_def word_uint_eq_iff)

lemma sort_by_mset [simp]: "mset (sort_by c xs) = mset xs"
proof -
  have "mset (insort_by c x ys) = add_mset x (mset ys)" for x ys by (induction ys) auto
  then show ?thesis by (induction xs) (simp_all add: sort_by_def)
qed

lemma set_sort_by [simp]: "set (sort_by c xs) = set xs"
  by (metis set_mset_mset sort_by_mset)

lemma length_sort_by [simp]: "length (sort_by c xs) = length xs"
  by (metis size_mset sort_by_mset)

lemma sort_by_key:
  assumes "\<And>a b. a \<in> set xs \<Longrightarrow> b \<in> set xs \<Longrightarrow> c a b = cmp (f a) (f b)"
  shows "sort_by c xs = sort_key f xs"
proof -
  have ins: "insort_by c x ys = insort_key f x ys" if "\<And>y. y \<in> set ys \<Longrightarrow> c x y = cmp (f x) (f y)" for x ys
    using that by (induction ys) (auto simp: not_le)
  show ?thesis using assms
  proof (induction xs)
    case (Cons x xs)
    have "sort_by c xs = sort_key f xs" using Cons.prems by (intro Cons.IH) auto
    moreover have "insort_by c x (sort_key f xs) = insort_key f x (sort_key f xs)" using Cons.prems by (intro ins) auto
    ultimately show ?case by (simp add: sort_by_def sort_key_def)
  qed (simp add: sort_by_def)
qed

lemma max_by_Some:
  assumes "max_by c xs = Some (i, x)" "\<And>a b. a \<in> set xs \<Longrightarrow> b \<in> set xs \<Longrightarrow> c a b = cmp (f a) (f b)"
  shows "i < length xs \<and> xs ! i = x \<and> (\<forall>y \<in> set xs. f y \<le> f x)"
proof -
  have step: "max_by_from c best k ys = (i, x) \<Longrightarrow> xs = pre @ ys \<Longrightarrow> k = length pre \<Longrightarrow>
      fst best < k \<Longrightarrow> pre ! fst best = snd best \<Longrightarrow> \<forall>y \<in> set pre. f y \<le> f (snd best) \<Longrightarrow>
      i < length xs \<and> xs ! i = x \<and> (\<forall>y \<in> set xs. f y \<le> f x)" for best k ys pre
  proof (induction ys arbitrary: best k pre)
    case Nil
    then show ?case by (cases best) auto
  next
    case (Cons y ys)
    have "snd best \<in> set pre" using Cons.prems(3-5) by (metis nth_mem)
    then have c: "c (snd best) y = cmp (f (snd best)) (f y)" using assms(2) Cons.prems(2) by simp
    show ?case
    proof (cases "f y < f (snd best)")
      case True
      then show ?thesis using Cons.prems c
        by (intro Cons.IH [of best "Suc k" "pre @ [y]"]) (auto simp: nth_append)
    next
      case False
      then have "max_by_from c (k, y) (Suc k) ys = (i, x)" using Cons.prems(1) c by simp
      then show ?thesis using Cons.prems False
        by (intro Cons.IH [of "(k, y)" "Suc k" "pre @ [y]"]) (auto simp: nth_append not_less intro: order_trans)
    qed
  qed
  show ?thesis
  proof (cases xs)
    case (Cons a ys)
    then show ?thesis using assms(1) step [of "(0, a)" 1 ys "[a]"] by (simp add: max_by_def)
  qed (use assms(1) in \<open>simp add: max_by_def\<close>)
qed

lemma max_by_None: "max_by c xs = None \<longleftrightarrow> xs = []"
  by (cases xs) (simp_all add: max_by_def)

section \<open>A row as a list\<close>

definition row_list :: "overlay_row \<Rightarrow> overlay_cand list" where
  "row_list row = take (unat (or_len row)) (or_slots row)"

definition row_wf :: "overlay_row \<Rightarrow> bool" where
  [inv_defs]: "row_wf row \<longleftrightarrow> length (or_slots row) = 16 \<and> unat (or_len row) \<le> 16"

definition insert_cand :: "overlay_update \<Rightarrow> nat \<Rightarrow> overlay_cand list \<Rightarrow> overlay_cand list" where
  "insert_cand u m cs =
     (if m = 0 then cs
      else case position (\<lambda>c. oc_dst c = ou_dst u) cs of
        Some i \<Rightarrow> cs[i := cand_apply u (cs ! i)]
      | None \<Rightarrow>
          if length cs < m then cs @ [cand_new u]
          else case max_by runtime_retention_cmp cs of
            None \<Rightarrow> cs
          | Some (i, worst) \<Rightarrow> if runtime_retention_cmp (cand_new u) worst = Less then cs[i := cand_new u] else cs)"

lemma row_default_list [simp]: "row_wf row_default" "row_list row_default = []"
  by (simp_all add: row_wf_def row_default_def row_list_def RUNTIME_OVERLAY_MAX_SLOTS_def)

lemma row_insert_step:
  assumes "row_wf row" "min m 16 = m'"
  shows "row_wf (row_insert u m row) \<and> row_list (row_insert u m row) = insert_cand u m' (row_list row)"
proof -
  let ?len = "unat (or_len row)" and ?m = m'
  have m: "m' \<le> 16" using assms(2) by auto
  have len: "length (row_list row) = ?len" using assms by (simp add: row_list_def row_wf_def)
  note defs = row_insert_def insert_cand_def Let_def RUNTIME_OVERLAY_MAX_SLOTS_def row_list_def [symmetric] assms(2)
  have upd: "row_wf (row\<lparr>or_slots := (or_slots row)[i := x]\<rparr>) \<and> row_list (row\<lparr>or_slots := (or_slots row)[i := x]\<rparr>) = (row_list row)[i := x]" for i x
    using assms(1) by (simp add: row_wf_def row_list_def take_update_swap)
  show ?thesis
  proof (cases "?m = 0")
    case False
    show ?thesis
    proof (cases "position (\<lambda>c. oc_dst c = ou_dst u) (row_list row)")
      case (Some i)
      then have "i < ?len" using position_Some len by fastforce
      then have "or_slots row ! i = row_list row ! i" by (simp add: row_list_def)
      then show ?thesis using Some False upd by (simp add: defs)
    next
      case None
      show ?thesis
      proof (cases "?len < ?m")
        case True
        then have l: "or_len row \<noteq> - 1" "?len < 16" using m by (auto simp: unsigned_minus_1_eq_mask mask_eq_exp_minus_1)
        then have "unat (or_len row + 1) = Suc ?len" by (simp add: unat_word_ariths)
        then have "row_wf (row\<lparr>or_slots := (or_slots row)[?len := cand_new u], or_len := sat_succ8 (or_len row)\<rparr>) \<and>
            row_list (row\<lparr>or_slots := (or_slots row)[?len := cand_new u], or_len := sat_succ8 (or_len row)\<rparr>) = row_list row @ [cand_new u]"
          using assms(1) l by (simp add: row_wf_def row_list_def sat_succ8_def take_Suc_conv_app_nth)
        then show ?thesis using None True False len by (simp add: defs del: position_None)
      next
        case full: False
        show ?thesis
        proof (cases "max_by runtime_retention_cmp (row_list row)")
          case (Some p)
          then show ?thesis using None full False len upd assms(1)
            by (cases p) (simp add: defs del: position_None)
        qed (use None full False len assms(1) in \<open>simp add: defs del: position_None\<close>)
      qed
    qed
  qed (use assms(1) in \<open>simp add: defs\<close>)
qed

lemma row_insert_list:
  "row_wf row \<Longrightarrow> row_wf (row_insert u m row) \<and> row_list (row_insert u m row) = insert_cand u (min m 16) (row_list row)"
  by (rule row_insert_step) simp_all

section \<open>Ballots\<close>

definition family_slot :: "u32 \<Rightarrow> nat" where
  "family_slot family = unat (family_hash family AND 63)"

definition bit_set :: "u64 \<Rightarrow> nat set" where
  "bit_set b = {i. bit b i}"

lemma family_slot_less: "family_slot f < 64"
proof -
  have "family_hash f AND 63 = take_bit 6 (family_hash f)" by (simp add: take_bit_eq_mask mask_eq_exp_minus_1)
  then have "family_slot f = unat (family_hash f) mod 2 ^ 6"
    by (simp add: family_slot_def take_bit_eq_mod unat_mod_distrib)
  then show ?thesis by simp
qed

lemma bit_set_less: "bit_set b \<subseteq> {..<64}"
  using bit_imp_le_length [of b] by (auto simp: bit_set_def)

lemma finite_bit_set [simp]: "finite (bit_set b)" and card_bit_set: "card (bit_set b) \<le> 64"
  using bit_set_less [of b] finite_subset card_mono [of "{..<64}" "bit_set b"] by auto

lemma bit_family [simp]: "bit (family_bit f) i \<longleftrightarrow> i = family_slot f"
  using family_slot_less [of f] by (auto simp: family_bit_def family_slot_def [symmetric] bit_exp_iff)

lemma bit_set_simps [simp]: "bit_set 0 = {}" "bit_set (b OR family_bit f) = insert (family_slot f) (bit_set b)"
  by (auto simp: bit_set_def bit_or_iff)

lemma family_bit_clear: "b AND family_bit f = 0 \<longleftrightarrow> family_slot f \<notin> bit_set b"
proof
  show "family_slot f \<notin> bit_set b" if "b AND family_bit f = 0"
  proof -
    have "\<not> bit (b AND family_bit f) (family_slot f)" using that by simp
    then show ?thesis by (simp add: bit_and_iff bit_set_def)
  qed
  show "b AND family_bit f = 0" if "family_slot f \<notin> bit_set b"
    using that by (intro bit_word_eqI) (auto simp: bit_and_iff bit_set_def)
qed

definition cand_ok :: "overlay_cand \<Rightarrow> bool" where
  [inv_defs]: "cand_ok c \<longleftrightarrow> \<not> f32_is_nan (oc_dist2 c) \<and> unat (oc_family_support c) = card (bit_set (oc_family_bits c)) \<and>
     unat (oc_reciprocal_support c) = card (bit_set (oc_reciprocal_bits c))"

lemma f32_min_not_nan: "\<not> f32_is_nan a \<Longrightarrow> \<not> f32_is_nan (f32_min a b)"
  by (simp add: f32_min_def)

lemma sat_add16_small: "unat a \<le> 64 \<Longrightarrow> unat (sat_add16 a 1) = unat a + 1"
  by (simp add: sat_add16_def unat_word_ariths)

lemma cand_apply_facts:
  assumes "cand_ok c"
  shows "cand_ok (cand_apply u c)" "oc_dst (cand_apply u c) = oc_dst c"
    "bit_set (oc_family_bits (cand_apply u c)) = bit_set (oc_family_bits c) \<union> (if ou_direct u then {family_slot (ou_family u)} else {})"
    "bit_set (oc_reciprocal_bits (cand_apply u c)) =
      bit_set (oc_reciprocal_bits c) \<union> (if ou_reciprocal u then {family_slot (ou_family u)} else {})"
    "oc_dist2 (cand_apply u c) = f32_min (oc_dist2 c) (ou_dist2 u)"
proof -
  let ?c = "c\<lparr>oc_dist2 := f32_min (oc_dist2 c) (ou_dist2 u)\<rparr>"
  have c: "cand_ok ?c" using assms f32_min_not_nan by (simp add: cand_ok_def)
  have le: "unat (oc_family_support c') \<le> 64" "unat (oc_reciprocal_support c') \<le> 64" if "cand_ok c'" for c'
    using that card_bit_set by (simp_all add: cand_ok_def)
  have d: "cand_ok (apply_direct u c')" if "cand_ok c'" for c'
    using that le [OF that] by (simp add: apply_direct_def Let_def cand_ok_def family_bit_clear sat_add16_small)
  have r: "cand_ok (apply_reciprocal u c')" if "cand_ok c'" for c'
    using that le [OF that] by (simp add: apply_reciprocal_def Let_def cand_ok_def family_bit_clear sat_add16_small)
  show "cand_ok (cand_apply u c)" using r [OF d [OF c]] by (simp add: cand_apply_def)
  show "oc_dst (cand_apply u c) = oc_dst c"
    "bit_set (oc_family_bits (cand_apply u c)) = bit_set (oc_family_bits c) \<union> (if ou_direct u then {family_slot (ou_family u)} else {})"
    "bit_set (oc_reciprocal_bits (cand_apply u c)) =
      bit_set (oc_reciprocal_bits c) \<union> (if ou_reciprocal u then {family_slot (ou_family u)} else {})"
    "oc_dist2 (cand_apply u c) = f32_min (oc_dist2 c) (ou_dist2 u)"
    by (auto simp: cand_apply_def apply_direct_def apply_reciprocal_def Let_def family_bit_clear)
qed

definition blank :: "u32 \<Rightarrow> overlay_cand" where
  "blank dst = cand_empty\<lparr>oc_dst := dst\<rparr>"

lemma blank_facts [simp]: "cand_ok (blank d)" "oc_dst (blank d) = d" "bit_set (oc_family_bits (blank d)) = {}"
  "bit_set (oc_reciprocal_bits (blank d)) = {}" "oc_dist2 (blank d) = f32_infinity"
  by (simp_all add: blank_def cand_ok_def cand_empty_def)

lemma cand_new_blank: "cand_new u = cand_apply u (blank (ou_dst u))"
  by (simp add: cand_new_def blank_def)

section \<open>The invariant of a row\<close>

definition cands_ok :: "nat \<Rightarrow> overlay_cand list \<Rightarrow> bool" where
  [inv_defs]: "cands_ok m cs \<longleftrightarrow> length cs \<le> m \<and> distinct (map oc_dst cs) \<and> (\<forall>c \<in> set cs. cand_ok c)"

type_synonym retention_key = "int \<times> int \<times> u8 \<times> int \<times> int \<times> u32"

definition retention_key :: "overlay_cand \<Rightarrow> retention_key" where
  "retention_key c = (- uint (oc_family_support c), - uint (oc_rank_mass c), oc_best_rank c,
     - uint (oc_reciprocal_support c), f32_key (oc_dist2 c), oc_dst c)"

lemma retention_cmp_key: "cand_ok a \<Longrightarrow> cand_ok b \<Longrightarrow> runtime_retention_cmp a b = cmp (retention_key a) (retention_key b)"
  by (simp add: runtime_retention_cmp_def retention_key_def cmp_pair cmp_neg then_with_assoc f32_cmp_or_equal_key cand_ok_def)

lemma cand_new_ok: "cand_ok (cand_new u)" "oc_dst (cand_new u) = ou_dst u"
  using cand_apply_facts(1,2) [OF blank_facts(1), of u "ou_dst u"] by (simp_all add: cand_new_blank)

text \<open>An insertion updates the candidate of the same target, appends, or replaces the worst.\<close>

lemma insert_cand_cases [consumes 2]:
  assumes "cands_ok m cs" "0 < m"
  obtains (same) i where "i < length cs" "oc_dst (cs ! i) = ou_dst u" "insert_cand u m cs = cs[i := cand_apply u (cs ! i)]"
  | (push) "ou_dst u \<notin> oc_dst ` set cs" "length cs < m" "insert_cand u m cs = cs @ [cand_new u]"
  | (full) i where "ou_dst u \<notin> oc_dst ` set cs" "length cs = m" "i < length cs"
      "\<forall>c \<in> set cs. retention_key c \<le> retention_key (cs ! i)"
      "insert_cand u m cs = (if retention_key (cand_new u) < retention_key (cs ! i) then cs[i := cand_new u] else cs)"
proof (cases "position (\<lambda>c. oc_dst c = ou_dst u) cs")
  case (Some i)
  from position_Some [OF this] assms(2) Some show thesis by (intro same [of i]) (simp_all add: insert_cand_def)
next
  case None
  then have new: "ou_dst u \<notin> oc_dst ` set cs" by auto
  show thesis
  proof (cases "length cs < m")
    case True
    then show thesis using None assms(2) by (intro push [OF new]) (simp_all add: insert_cand_def del: position_None)
  next
    case False
    then have len: "length cs = m" "cs \<noteq> []" using assms by (auto simp: cands_ok_def)
    then obtain i w where w: "max_by runtime_retention_cmp cs = Some (i, w)"
      using max_by_None [of runtime_retention_cmp cs] by (cases "max_by runtime_retention_cmp cs") auto
    have "runtime_retention_cmp a b = cmp (retention_key a) (retention_key b)" if "a \<in> set cs" "b \<in> set cs" for a b
      using retention_cmp_key assms(1) that by (simp add: cands_ok_def)
    from max_by_Some [OF w this] have i: "i < length cs" "cs ! i = w" "\<forall>c \<in> set cs. retention_key c \<le> retention_key w" by auto
    have "cand_ok w" using i(1,2) assms(1) nth_mem by (fastforce simp: cands_ok_def)
    from retention_cmp_key [OF cand_new_ok(1) this, of u]
    show thesis using None assms(2) len w i
      by (intro full [OF new len(1) i(1)]) (simp_all add: insert_cand_def del: position_None)
  qed
qed

lemma insert_cand_ok:
  assumes "cands_ok m cs"
  shows "cands_ok m (insert_cand u m cs)"
proof (cases "m = 0")
  case False
  then have m: "0 < m" by simp
  have upd: "cands_ok m (cs[i := x])" if "i < length cs" "cand_ok x" "oc_dst x = oc_dst (cs ! i) \<or> oc_dst x \<notin> oc_dst ` set cs" for i x
  proof -
    have "distinct ((map oc_dst cs)[i := oc_dst x])"
      using that(1,3) assms by (intro distinct_list_update) (auto simp: cands_ok_def in_set_conv_nth distinct_conv_nth)
    then show ?thesis using that(2) assms by (auto simp: cands_ok_def map_update dest: set_update_subset_insert [THEN subsetD])
  qed
  from assms m show ?thesis
  proof (cases rule: insert_cand_cases [where u = u])
    case (same i)
    then have "cand_ok (cs ! i)" using assms by (simp add: cands_ok_def)
    from cand_apply_facts(1,2) [OF this, of u] same show ?thesis by (simp add: upd)
  next
    case push
    then show ?thesis using assms cand_new_ok by (auto simp: cands_ok_def)
  next
    case (full i)
    then show ?thesis using assms cand_new_ok [of u] upd [of i "cand_new u"] by auto
  qed
qed (use assms in \<open>simp add: insert_cand_def\<close>)

definition insert_cands :: "nat \<Rightarrow> overlay_update list \<Rightarrow> overlay_cand list \<Rightarrow> overlay_cand list" where
  "insert_cands m us cs = fold (\<lambda>u. insert_cand u m) us cs"

lemma insert_cands_ok: "cands_ok m cs \<Longrightarrow> cands_ok m (insert_cands m us cs)"
  by (induction us arbitrary: cs) (simp_all add: insert_cands_def insert_cand_ok)

lemma row_inserts_list:
  "row_wf row \<Longrightarrow> row_wf (fold (\<lambda>u. row_insert u m) us row) \<and>
   row_list (fold (\<lambda>u. row_insert u m) us row) = insert_cands (min m 16) us (row_list row)"
  by (induction us arbitrary: row) (simp_all add: insert_cands_def row_insert_list)

section \<open>Rows that never overflow\<close>

definition cand_of :: "overlay_update list \<Rightarrow> u32 \<Rightarrow> overlay_cand" where
  "cand_of us dst = fold cand_apply (filter (\<lambda>u. ou_dst u = dst) us) (blank dst)"

definition firsts :: "overlay_update list \<Rightarrow> u32 list" where
  "firsts us = rev (remdups (rev (map ou_dst us)))"

lemma firsts_simps [simp]: "firsts [] = []"
  "firsts (us @ [u]) = (if ou_dst u \<in> set (firsts us) then firsts us else firsts us @ [ou_dst u])"
  by (simp_all add: firsts_def)

lemma set_firsts: "set (firsts us) = ou_dst ` set us"
  by (simp add: firsts_def)

lemma distinct_firsts: "distinct (firsts us)"
  by (simp add: firsts_def)

lemma cand_of_facts:
  "cand_ok (cand_of us d)" "oc_dst (cand_of us d) = d"
  "bit_set (oc_family_bits (cand_of us d)) = {family_slot (ou_family u) |u. u \<in> set us \<and> ou_dst u = d \<and> ou_direct u}"
  "bit_set (oc_reciprocal_bits (cand_of us d)) = {family_slot (ou_family u) |u. u \<in> set us \<and> ou_dst u = d \<and> ou_reciprocal u}"
proof -
  have "cand_ok (cand_of us d) \<and> oc_dst (cand_of us d) = d \<and>
    bit_set (oc_family_bits (cand_of us d)) = {family_slot (ou_family u) |u. u \<in> set us \<and> ou_dst u = d \<and> ou_direct u} \<and>
    bit_set (oc_reciprocal_bits (cand_of us d)) = {family_slot (ou_family u) |u. u \<in> set us \<and> ou_dst u = d \<and> ou_reciprocal u}"
  proof (induction us rule: rev_induct)
    case (snoc u us)
    then have "cand_ok (cand_of us d)" by simp
    from cand_apply_facts(1-4) [OF this, of u] snoc show ?case
      by (auto simp: cand_of_def)
  qed (simp add: cand_of_def)
  then show "cand_ok (cand_of us d)" "oc_dst (cand_of us d) = d"
    "bit_set (oc_family_bits (cand_of us d)) = {family_slot (ou_family u) |u. u \<in> set us \<and> ou_dst u = d \<and> ou_direct u}"
    "bit_set (oc_reciprocal_bits (cand_of us d)) = {family_slot (ou_family u) |u. u \<in> set us \<and> ou_dst u = d \<and> ou_reciprocal u}"
    by simp_all
qed

lemma insert_cands_aggregate:
  "length (firsts us) \<le> m \<Longrightarrow> insert_cands m us [] = map (cand_of us) (firsts us)"
proof (induction us rule: rev_induct)
  case (snoc u us)
  have IH: "insert_cands m us [] = map (cand_of us) (firsts us)"
    using snoc.prems by (intro snoc.IH) (auto split: if_splits)
  have "ou_dst u \<in> set (firsts (us @ [u]))" by (simp only: set_firsts) simp
  then have m: "0 < m" using snoc.prems by (auto simp del: firsts_simps intro: gr0I)
  have step: "insert_cands m (us @ [u]) [] = insert_cand u m (map (cand_of us) (firsts us))"
    by (simp add: insert_cands_def IH [unfolded insert_cands_def])
  have ok: "cands_ok m (map (cand_of us) (firsts us))"
    using insert_cands_ok [of m "[]" us] by (simp add: IH cands_ok_def)
  have other: "cand_of (us @ [u]) d = cand_of us d" if "d \<noteq> ou_dst u" for d using that by (simp add: cand_of_def)
  have own: "cand_of (us @ [u]) (ou_dst u) = cand_apply u (cand_of us (ou_dst u))" by (simp add: cand_of_def)
  have dsts: "oc_dst ` set (map (cand_of us) (firsts us)) = set (firsts us)"
    using cand_of_facts(2) by (auto simp: image_image)
  from ok m show ?case
  proof (cases rule: insert_cand_cases [where u = u])
    case (same i)
    then have i: "i < length (firsts us)" "firsts us ! i = ou_dst u" by (simp_all add: cand_of_facts)
    have "(map (cand_of us) (firsts us))[i := cand_apply u (cand_of us (ou_dst u))] = map (cand_of (us @ [u])) (firsts us)"
    proof (rule nth_equalityI)
      fix j assume j: "j < length ((map (cand_of us) (firsts us))[i := cand_apply u (cand_of us (ou_dst u))])"
      then show "(map (cand_of us) (firsts us))[i := cand_apply u (cand_of us (ou_dst u))] ! j = map (cand_of (us @ [u])) (firsts us) ! j"
      proof (cases "j = i")
        case False
        then have "firsts us ! j \<noteq> ou_dst u" using i j distinct_firsts [of us] nth_eq_iff_index_eq by fastforce
        then show ?thesis using False j other by simp
      qed (use i own in simp)
    qed simp
    then show ?thesis using same(3) i step by (metis firsts_simps(2) nth_map nth_mem)
  next
    case push
    then have "ou_dst u \<notin> set (firsts us)" using dsts by simp
    moreover from this have "map (cand_of (us @ [u])) (firsts us) = map (cand_of us) (firsts us)"
      by (intro map_cong refl other) auto
    moreover have "cand_of us (ou_dst u) = blank (ou_dst u)"
    proof -
      have "filter (\<lambda>v. ou_dst v = ou_dst u) us = []"
        using calculation(1) unfolding set_firsts filter_empty_conv by (auto simp: image_iff)
      then show ?thesis by (simp only: cand_of_def fold_simps(1) id_apply)
    qed
    ultimately show ?thesis using push(3) own by (simp add: step cand_new_blank)
  next
    case (full i)
    then have "ou_dst u \<notin> set (firsts us)" "length (firsts us) = m" using dsts by simp_all
    then show ?thesis using snoc.prems by simp
  qed
qed (simp add: insert_cands_def)

section \<open>Rows that overflow\<close>

lemma insert_cands_top:
  assumes "0 < m"
  shows "distinct (map ou_dst us) \<Longrightarrow>
    cands_ok m (insert_cands m us []) \<and> oc_dst ` set (insert_cands m us []) \<subseteq> ou_dst ` set us \<and>
    image_mset retention_key (mset (insert_cands m us [])) = mset (take m (sort (map (\<lambda>u. retention_key (cand_new u)) us)))"
proof (induction us rule: rev_induct)
  case Nil
  then show ?case by (simp add: insert_cands_def cands_ok_def)
next
  case (snoc u us)
  let ?cs = "insert_cands m us []" and ?k = "retention_key (cand_new u)"
  have IH: "cands_ok m ?cs" "oc_dst ` set ?cs \<subseteq> ou_dst ` set us"
    "image_mset retention_key (mset ?cs) = mset (take m (sort (map (\<lambda>u. retention_key (cand_new u)) us)))" using snoc by auto
  have step: "insert_cands m (us @ [u]) [] = insert_cand u m ?cs" by (simp add: insert_cands_def)
  have sort: "sort (map (\<lambda>u. retention_key (cand_new u)) (us @ [u])) = insort ?k (sort (map (\<lambda>u. retention_key (cand_new u)) us))"
    by (rule properties_for_sort) (simp_all add: sorted_insort)
  have new: "ou_dst u \<notin> oc_dst ` set ?cs" using IH(2) snoc.prems by auto
  have keep: "image_mset retention_key (mset (insert_cand u m ?cs)) = keep_nearest m ?k (image_mset retention_key (mset ?cs))"
    "oc_dst ` set (insert_cand u m ?cs) \<subseteq> insert (ou_dst u) (oc_dst ` set ?cs)"
  proof -
    have "image_mset retention_key (mset (insert_cand u m ?cs)) = keep_nearest m ?k (image_mset retention_key (mset ?cs)) \<and>
        oc_dst ` set (insert_cand u m ?cs) \<subseteq> insert (ou_dst u) (oc_dst ` set ?cs)"
      using IH(1) assms
    proof (cases rule: insert_cand_cases [where u = u])
      case (same i)
      then show ?thesis using new by (metis imageI nth_mem)
    next
      case push
      then show ?thesis using cand_new_ok(2) [of u] by (simp add: keep_nearest_def)
    next
      case (full i)
      have mem: "retention_key (?cs ! i) \<in># image_mset retention_key (mset ?cs)" using full(3) by simp
      have max: "Max_mset (image_mset retention_key (mset ?cs)) = retention_key (?cs ! i)"
        using full(3,4) by (intro Max_eqI) auto
      have "image_mset retention_key (mset (?cs[i := cand_new u])) =
          add_mset ?k (image_mset retention_key (mset ?cs) - {#retention_key (?cs ! i)#})"
        using full(3) by (simp add: mset_update image_mset_Diff)
      moreover have "oc_dst ` set (?cs[i := cand_new u]) \<subseteq> insert (ou_dst u) (oc_dst ` set ?cs)"
        using set_update_subset_insert [of ?cs i "cand_new u"] cand_new_ok(2) [of u] by auto
      ultimately show ?thesis using full(2,5) max by (auto simp: keep_nearest_def)
    qed
    then show "image_mset retention_key (mset (insert_cand u m ?cs)) = keep_nearest m ?k (image_mset retention_key (mset ?cs))"
      "oc_dst ` set (insert_cand u m ?cs) \<subseteq> insert (ou_dst u) (oc_dst ` set ?cs)" by simp_all
  qed
  have "keep_nearest m ?k (image_mset retention_key (mset ?cs)) = mset (take m (insort ?k (sort (map (\<lambda>u. retention_key (cand_new u)) us))))"
    unfolding IH(3) using assms by (intro keep_nearest_take) simp_all
  then show ?case using keep insert_cand_ok [OF IH(1), of u] IH(2) unfolding step sort by auto
qed

section \<open>Selecting a row\<close>

lemma keep_base_facts: "distinct (keep_base ids) \<and> set (keep_base ids) = set ids \<and> length (keep_base ids) \<le> length ids"
proof -
  have "distinct sel \<Longrightarrow> distinct (fold (\<lambda>d s. snd (push_unique_id d s)) ids sel) \<and>
      set (fold (\<lambda>d s. snd (push_unique_id d s)) ids sel) = set ids \<union> set sel \<and>
      length (fold (\<lambda>d s. snd (push_unique_id d s)) ids sel) \<le> length ids + length sel" for sel
  proof (induction ids arbitrary: sel)
    case (Cons d ids)
    have "distinct (snd (push_unique_id d sel))" using Cons.prems by (simp add: push_unique_id_def)
    from Cons.IH [OF this] show ?case by (auto simp: push_unique_id_def)
  qed simp
  from this [of "[]"] show ?thesis by (simp add: keep_base_def)
qed

lemma add_overlay_facts:
  "add_overlay d b ids sel n = (sel', n') \<Longrightarrow> distinct sel \<Longrightarrow> length sel \<le> d \<Longrightarrow> n \<le> b \<Longrightarrow>
   distinct sel' \<and> length sel' \<le> d \<and> n \<le> n' \<and> n' \<le> b \<and> length sel' = length sel + (n' - n) \<and>
   set sel \<subseteq> set sel' \<and> set sel' \<subseteq> set sel \<union> set ids \<and> (length sel' < d \<and> n' < b \<longrightarrow> set ids \<subseteq> set sel')"
proof (induction d b ids sel n rule: add_overlay.induct)
  case (2 d b x ids sel n)
  show ?case
  proof (cases "d \<le> length sel \<or> b \<le> n")
    case False
    obtain new sel1 where p: "push_unique_id x sel = (new, sel1)" by force
    note IH = "2.IH" [OF False p [symmetric] refl]
    show ?thesis using False p "2.prems" IH by (cases new) (auto simp: push_unique_id_def split: if_splits)
  qed (use 2 in auto)
qed auto

lemma refill_base_facts:
  "refill_base d ids sel n = (sel', n') \<Longrightarrow> distinct sel \<Longrightarrow> length sel \<le> d \<Longrightarrow>
   distinct sel' \<and> length sel' \<le> d \<and> n \<le> n' \<and> length sel' = length sel + (n' - n) \<and>
   set sel \<subseteq> set sel' \<and> set sel' \<subseteq> set sel \<union> set ids \<and> (length sel' < d \<longrightarrow> set ids \<subseteq> set sel')"
proof (induction d ids sel n rule: refill_base.induct)
  case (2 d x ids sel n)
  show ?case
  proof (cases "d \<le> length sel")
    case False
    obtain new sel1 where p: "push_unique_id x sel = (new, sel1)" by force
    note IH = "2.IH" [OF False p [symmetric] refl]
    show ?thesis using False p "2.prems" IH by (cases new) (auto simp: push_unique_id_def split: if_splits)
  qed (use 2 in auto)
qed auto

text \<open>What the merge of a base row with an overlay row guarantees.\<close>

definition merged_row :: "overlay_options \<Rightarrow> u32 list \<Rightarrow> u32 list \<Rightarrow> u32 list \<Rightarrow> nat \<Rightarrow> nat \<Rightarrow> bool" where
  "merged_row opts base overlay row added refill \<longleftrightarrow>
     (let budget = min (oo_overlay_budget opts) (oo_max_degree opts); keep = oo_max_degree opts - budget in
      distinct row \<and> length row \<le> oo_max_degree opts \<and> set row \<subseteq> set base \<union> set overlay \<and>
      set (take keep base) \<subseteq> set row \<and> added \<le> budget \<and>
      length row = card (set (take keep base)) + added + refill \<and>
      (length row < oo_max_degree opts \<longrightarrow> set base \<subseteq> set row \<and> (added < budget \<longrightarrow> set overlay \<subseteq> set row)))"

lemma select_row_merged:
  assumes "select_spine_overlay_row_with_stats base overlay opts = (row, added, refill)"
  shows "merged_row opts base overlay row added refill"
proof -
  define budget where "budget = min (oo_overlay_budget opts) (oo_max_degree opts)"
  define keep where "keep = oo_max_degree opts - budget"
  define s0 where "s0 = keep_base (take keep base)"
  obtain s1 where s1: "add_overlay (oo_max_degree opts) budget overlay s0 0 = (s1, added)"
    "refill_base (oo_max_degree opts) (drop keep base) s1 0 = (row, refill)"
    using assms by (auto simp: select_spine_overlay_row_with_stats_def Let_def budget_def keep_def s0_def split: prod.splits)
  have s0: "distinct s0" "set s0 = set (take keep base)" "length s0 \<le> oo_max_degree opts"
    using keep_base_facts [of "take keep base"] by (auto simp: s0_def keep_def)
  have card: "card (set (take keep base)) = length s0" using s0(1,2) distinct_card by fastforce
  note a = add_overlay_facts [OF s1(1) s0(1,3) le0]
  then have "distinct s1" "length s1 \<le> oo_max_degree opts" by auto
  note r = refill_base_facts [OF s1(2) this]
  have base: "set base = set (take keep base) \<union> set (drop keep base)" by (metis append_take_drop_id set_append)
  show ?thesis
    unfolding merged_row_def Let_def budget_def [symmetric] keep_def [symmetric] card
  proof (intro conjI impI)
    show "distinct row" "length row \<le> oo_max_degree opts" "added \<le> budget" "length row = length s0 + added + refill"
      using a r by simp_all
    show "set row \<subseteq> set base \<union> set overlay" using a r s0(2) base by blast
    show "set (take keep base) \<subseteq> set row" using a r s0(2) by blast
    assume "length row < oo_max_degree opts"
    then show "set base \<subseteq> set row" using a r s0(2) base by blast
    assume "length row < oo_max_degree opts" "added < budget"
    moreover from this have "length s1 < oo_max_degree opts" using r by simp
    ultimately show "set overlay \<subseteq> set row" using a r by blast
  qed
qed

lemma ranked_dsts: "map sc_dst (ranked_candidates cs) = map oc_dst (sort_by distance_cmp cs)"
proof -
  have "map sc_dst (map (\<lambda>(rank, c). c\<lparr>sc_distance_rank := rank\<rparr>) (enumerate n xs)) = map sc_dst xs" for n and xs :: "overlay_candidate list"
    by (induction xs arbitrary: n) simp_all
  then show ?thesis by (simp add: ranked_candidates_def into_candidate_def comp_def)
qed

section \<open>The accumulator over a whole build\<close>

definition acc_ok :: "overlay_acc \<Rightarrow> bool" where
  [inv_defs]: "acc_ok acc \<longleftrightarrow> (\<forall>row \<in> set (oa_rows acc). row_wf row \<and> cands_ok (min (oa_capacity acc) 16) (row_list row))"

definition proposals :: "nat \<Rightarrow> pending_edge list \<Rightarrow> u32 set" where
  "proposals p es = {e_c e |e. e \<in> set es \<and> e_flags e AND PENDING_EDGE_DIRECT \<noteq> 0 \<and> e_p e = p} \<union>
     {word_of_nat (e_p e) |e. e \<in> set es \<and> e_flags e AND PENDING_EDGE_DIRECT \<noteq> 0 \<and> unat (e_c e) = p}"

lemma proposals_mono: "set es \<subseteq> set es' \<Longrightarrow> proposals p es \<subseteq> proposals p es'"
  unfolding proposals_def by blast

lemma insert_cand_dsts: "cands_ok m cs \<Longrightarrow> oc_dst ` set (insert_cand u m cs) \<subseteq> insert (ou_dst u) (oc_dst ` set cs)"
proof (cases "m = 0")
  case False
  assume ok: "cands_ok m cs"
  from False have "0 < m" by simp
  with ok show ?thesis
  proof (cases rule: insert_cand_cases [where u = u])
    case (same i)
    then have "oc_dst (cand_apply u (cs ! i)) = ou_dst u" using ok cand_apply_facts(2) by (simp add: cands_ok_def)
    then show ?thesis using same(3) set_update_subset_insert [of cs i "cand_apply u (cs ! i)"] by auto
  next
    case push
    then show ?thesis using cand_new_ok(2) [of u] by simp
  next
    case (full i)
    then show ?thesis using cand_new_ok(2) [of u] set_update_subset_insert [of cs i "cand_new u"] by auto
  qed
qed (simp add: insert_cand_def image_subset_iff)

lemma collect_updates_ok:
  assumes "\<forall>e \<in> set es. e_p e < 2 ^ 32"
  shows "\<exists>us. collect_updates n family es = Inr us \<and> (\<forall>(p, u) \<in> set us. p < n \<and> ou_dst u \<in> proposals p es)"
  using assms
proof (induction es)
  case (Cons e es)
  then obtain us where us: "collect_updates n family es = Inr us" "\<forall>(p, u) \<in> set us. p < n \<and> ou_dst u \<in> proposals p es" by auto
  have "\<forall>(p, u) \<in> set us. p < n \<and> ou_dst u \<in> proposals p (e # es)" using us(2) by (auto simp: proposals_def)
  then show ?case using us(1) Cons.prems
    by (auto simp: Let_def direct_update_def reciprocal_update_def proposals_def not_le)
qed simp

lemma insert_updates_ok:
  assumes "\<forall>(p, u) \<in> set us. p < length rows \<and> ou_dst u \<in> Q p"
    and "\<forall>p < length rows. row_wf (rows ! p) \<and> cands_ok (min c 16) (row_list (rows ! p)) \<and> oc_dst ` set (row_list (rows ! p)) \<subseteq> Q p"
  shows "\<exists>rows'. insert_updates c us rows = Inr rows' \<and> length rows' = length rows \<and>
    (\<forall>p < length rows. row_wf (rows' ! p) \<and> cands_ok (min c 16) (row_list (rows' ! p)) \<and> oc_dst ` set (row_list (rows' ! p)) \<subseteq> Q p)"
  using assms
proof (induction us arbitrary: rows)
  case (Cons x us)
  obtain p u where x: "x = (p, u)" by force
  let ?rows = "rows[p := row_insert u c (rows ! p)]"
  have p: "p < length rows" "ou_dst u \<in> Q p" using Cons.prems(1) by (simp_all add: x)
  then have row: "row_wf (rows ! p)" "cands_ok (min c 16) (row_list (rows ! p))" "oc_dst ` set (row_list (rows ! p)) \<subseteq> Q p"
    using Cons.prems(2) by simp_all
  note ins = row_insert_list [OF row(1), of u c]
  have "oc_dst ` set (row_list (row_insert u c (rows ! p))) \<subseteq> Q p"
  proof -
    have "oc_dst ` set (row_list (row_insert u c (rows ! p))) \<subseteq> insert (ou_dst u) (oc_dst ` set (row_list (rows ! p)))"
      using insert_cand_dsts [OF row(2), of u] ins by simp
    also have "\<dots> \<subseteq> Q p" using row(3) p(2) by (simp only: insert_subset simp_thms)
    finally show ?thesis .
  qed
  note own = this
  have "row_wf (?rows ! q) \<and> cands_ok (min c 16) (row_list (?rows ! q)) \<and> oc_dst ` set (row_list (?rows ! q)) \<subseteq> Q q"
    if q: "q < length ?rows" for q
  proof (cases "q = p")
    case True
    then have "?rows ! q = row_insert u c (rows ! p)" using p(1) by simp
    then show ?thesis using own ins insert_cand_ok [OF row(2), of u] True by metis
  next
    case False
    then show ?thesis using Cons.prems(2) q by simp
  qed
  then have "\<forall>q < length ?rows. row_wf (?rows ! q) \<and> cands_ok (min c 16) (row_list (?rows ! q)) \<and> oc_dst ` set (row_list (?rows ! q)) \<subseteq> Q q"
    by blast
  from Cons.IH [OF _ this] Cons.prems(1) p(1) show ?case by (simp add: x)
qed simp

fun record_batches :: "update_sort \<Rightarrow> (u32 \<times> pending_edge list) list \<Rightarrow> overlay_acc \<Rightarrow> overlay_acc result" where
  "record_batches srt [] acc = Inr acc"
| "record_batches srt ((family, es) # batches) acc = res_bind (write_edges srt family es acc) (record_batches srt batches)"

definition rows_from :: "nat \<Rightarrow> (nat \<Rightarrow> u32 set) \<Rightarrow> overlay_acc \<Rightarrow> bool" where
  "rows_from c Q acc \<longleftrightarrow> oa_capacity acc = c \<and> (\<forall>p < length (oa_rows acc). row_wf (oa_rows acc ! p) \<and>
     cands_ok (min c 16) (row_list (oa_rows acc ! p)) \<and> oc_dst ` set (row_list (oa_rows acc ! p)) \<subseteq> Q p)"

lemma write_edges_ok:
  assumes "unstable_sort srt" "\<forall>e \<in> set es. e_p e < 2 ^ 32" "rows_from c Q acc" "\<And>p. proposals p es \<subseteq> Q p"
  shows "\<exists>acc'. write_edges srt family es acc = Inr acc' \<and> length (oa_rows acc') = length (oa_rows acc) \<and> rows_from c Q acc'"
proof (cases "es = []")
  case False
  obtain us where us: "collect_updates (length (oa_rows acc)) family es = Inr us"
    "\<forall>(p, u) \<in> set us. p < length (oa_rows acc) \<and> ou_dst u \<in> proposals p es" using collect_updates_ok [OF assms(2)] by blast
  let ?us = "srt (\<lambda>(p, u). (p, ou_dst u)) us"
  have "set ?us = set us" using unstable_sortD(1) [OF assms(1)] by (rule mset_eq_setD)
  then have "\<forall>(p, u) \<in> set ?us. p < length (oa_rows acc) \<and> ou_dst u \<in> Q p" using us(2) assms(4) by fastforce
  from insert_updates_ok [OF this, of c] assms(3) obtain rows' where
    "insert_updates c ?us (oa_rows acc) = Inr rows'" "length rows' = length (oa_rows acc)"
    "\<forall>p < length (oa_rows acc). row_wf (rows' ! p) \<and> cands_ok (min c 16) (row_list (rows' ! p)) \<and> oc_dst ` set (row_list (rows' ! p)) \<subseteq> Q p"
    by (auto simp: rows_from_def)
  then show ?thesis using False us(1) assms(3) by (simp add: write_edges_def rows_from_def)
qed (use assms in \<open>simp add: write_edges_def\<close>)

lemma record_batches_ok:
  assumes "unstable_sort srt"
  shows "\<forall>e \<in> set (concat (map snd batches)). e_p e < 2 ^ 32 \<Longrightarrow> rows_from c Q acc \<Longrightarrow>
    (\<And>p. proposals p (concat (map snd batches)) \<subseteq> Q p) \<Longrightarrow>
    \<exists>acc'. record_batches srt batches acc = Inr acc' \<and> length (oa_rows acc') = length (oa_rows acc) \<and> rows_from c Q acc'"
proof (induction batches arbitrary: acc)
  case (Cons b batches)
  obtain family es where b: "b = (family, es)" by force
  have sub: "proposals p es \<subseteq> Q p" "proposals p (concat (map snd batches)) \<subseteq> Q p" for p
    using Cons.prems(3) [of p] proposals_mono [of es "concat (map snd (b # batches))" p]
      proposals_mono [of "concat (map snd batches)" "concat (map snd (b # batches))" p] by (simp_all add: b)
  obtain acc1 where 1: "write_edges srt family es acc = Inr acc1" "length (oa_rows acc1) = length (oa_rows acc)" "rows_from c Q acc1"
    using write_edges_ok [OF assms _ Cons.prems(2) sub(1), of family] Cons.prems(1) by (auto simp: b)
  from Cons.IH [OF _ 1(3) sub(2)] Cons.prems(1) 1 show ?case by (auto simp: b)
qed simp

lemma merge_rows_run:
  "length rows = length bases \<Longrightarrow>
   merge_rows opts cb vid rows bases stats st =
     res_bind (run_rows cb st (map (\<lambda>i. (vid + i, fst (snd (overlay_merge_row opts (rows ! i) (bases ! i))))) [0..<length rows]))
       (\<lambda>st'. Inr (st', fold (\<lambda>(row, base). count_row opts base (overlay_merge_row opts row base)) (zip rows bases) stats))"
proof (induction rows arbitrary: vid bases stats st)
  case (Cons row rows)
  obtain base bs where bases: "bases = base # bs" "length rows = length bs" using Cons.prems by (cases bases) auto
  have upt: "[0..<length (row # rows)] = 0 # map Suc [0..<length rows]" by (simp add: map_Suc_upt upt_conv_Cons del: upt_Suc)
  let ?m = "overlay_merge_row opts row base"
  show ?case
    by (cases "cb st (word_of_nat vid) (fst (snd ?m))")
      (simp_all only: upt list.map, simp_all add: bases(1) Let_def Cons.IH [OF bases(2)] comp_def)
qed simp


section \<open>Rows over a stream of updates\<close>

text \<open>A row that never overflows aggregates its updates exactly. If at most \<open>min capacity 16\<close> different
  neighbours are proposed, the row holds one candidate per neighbour, in the order of their first
  proposal, and each candidate counts its supporters once: \<open>family_support\<close> is the number of
  family slots that voted for it directly, \<open>reciprocal_support\<close> the number that proposed it from the
  other side, however often and in whatever order the votes arrive.\<close>

theorem overlay_row_aggregates:
  assumes "card (ou_dst ` set us) \<le> min capacity 16"
  defines "cs \<equiv> row_list (fold (\<lambda>u. row_insert u capacity) us row_default)"
  shows "map oc_dst cs = firsts us \<and>
    (\<forall>c \<in> set cs.
      unat (oc_family_support c) = card {family_slot (ou_family u) |u. u \<in> set us \<and> ou_dst u = oc_dst c \<and> ou_direct u} \<and>
      unat (oc_reciprocal_support c) = card {family_slot (ou_family u) |u. u \<in> set us \<and> ou_dst u = oc_dst c \<and> ou_reciprocal u})"
proof -
  have "length (firsts us) \<le> min capacity 16"
    using assms(1) distinct_card [OF distinct_firsts, of us] by (simp add: set_firsts)
  from insert_cands_aggregate [OF this] have cs: "cs = map (cand_of us) (firsts us)"
    using row_inserts_list [of row_default capacity us] by (simp add: cs_def)
  have "map oc_dst cs = firsts us" by (simp add: cs comp_def cand_of_facts(2))
  moreover have "unat (oc_family_support (cand_of us d)) = card (bit_set (oc_family_bits (cand_of us d)))"
    "unat (oc_reciprocal_support (cand_of us d)) = card (bit_set (oc_reciprocal_bits (cand_of us d)))" for d
    using cand_of_facts(1) [of us d] by (simp_all add: cand_ok_def)
  ultimately show ?thesis by (auto simp: cs cand_of_facts(2-4))
qed


definition sample_ballot :: "u32 \<Rightarrow> u32 \<Rightarrow> f32 \<Rightarrow> bool \<Rightarrow> overlay_update" where
  "sample_ballot dst family d direct =
     \<lparr>ou_dst = dst, ou_dist2 = d, ou_family = family, ou_local_rank = 1, ou_direct = direct, ou_reciprocal = \<not> direct\<rparr>"

definition sample_ballots :: "overlay_update list" where
  "sample_ballots = [sample_ballot 7 0 0x40000000 True, sample_ballot 5 1 0x3f800000 True, sample_ballot 7 1 0x40400000 True,
     sample_ballot 7 0 0x40000000 True, sample_ballot 7 2 0x7fc00000 False]"

theorem overlay_row_aggregates_witness:
  "map oc_dst (row_list (fold (\<lambda>u. row_insert u 2) sample_ballots row_default)) = firsts sample_ballots \<and> firsts sample_ballots = [7, 5]"
proof -
  have "ou_dst ` set sample_ballots = {7, 5}" by (auto simp: sample_ballots_def sample_ballot_def)
  moreover have "firsts sample_ballots = [7, 5]" by (simp add: sample_ballots_def sample_ballot_def firsts_def)
  ultimately show ?thesis using overlay_row_aggregates [of sample_ballots 2] by simp
qed


definition sample_overlay_options :: overlay_options where
  "sample_overlay_options = \<lparr>oo_max_degree = 2, oo_metric = L2, oo_overlay_budget = 1, oo_spine_fraction = 0\<rparr>"

definition sample_overlay_batches :: "(u32 \<times> pending_edge list) list" where
  "sample_overlay_batches = [(0, [\<lparr>e_p = 0, e_c = 2, e_hash = 0, e_dist = 0x3f800000, e_mandatory = False, e_local_rank = 1, e_flags = 1\<rparr>])]"



end
