(* ===== verification/FinalPrune.thy ===== *)
theory FinalPrune
  imports SpineOverlay FileStore
begin

text \<open>
  The final robust prune of the build (\<^verbatim>\<open>final_prune.rs\<close>) over the memory-mapped data set it reads
  (\<^verbatim>\<open>model/data_store/inmem_dataset.rs\<close>, \<^verbatim>\<open>model/vertex/vertex.rs\<close>, \<^verbatim>\<open>utils/math_util.rs\<close>), with the
  candidates' order of \<^verbatim>\<open>model/neighbor/neighbor.rs\<close>.

  Rounded \<open>f32\<close> arithmetic (\<open>prune_ops\<close>) and \<open>sort_unstable\<close> are parameters. The loop over the
  growing slack \<open>cur_alpha\<close> is \<open>prune_loop\<close>, a partial function: \<open>None\<close> is a loop that does not
  end. Its two rounds with the production slack are compared with \<open>robust_reference\<close>, which
  chooses the neighbours without occlusion factors.

  A mapped file is read through whole pages: bytes between its end and the end of its last page
  are zero, an access after that page faults. Arithmetic on \<open>usize\<close> wraps as in a release build.
\<close>

section \<open>The mapped data set\<close>

definition PAGE_SIZE :: usize where
  "PAGE_SIZE = 4096"

definition invalid_access :: fault where
  "invalid_access = Panic ''invalid memory reference''"

text \<open>The \<open>f32\<close> at a byte offset of a mapping.\<close>

definition mapped_f32 :: "u8 list \<Rightarrow> nat \<Rightarrow> f32 result" where
  "mapped_f32 bytes off =
     (if off + 4 \<le> div_ceil (length bytes) PAGE_SIZE * PAGE_SIZE
      then Inr (of_le32 (map (\<lambda>k. if k < length bytes then bytes ! k else 0) [off..<off + 4]))
      else Inl invalid_access)"

record inmem_dataset =
  ds_data :: "f32 list"
  ds_mmap :: "u8 list option"
  ds_num_points :: usize
  ds_num_active :: usize
  ds_capacity :: usize
  ds_dim :: usize
  ds_is_mapped :: bool

definition dataset_new_memory_mapped :: "usize \<Rightarrow> usize \<Rightarrow> inmem_dataset" where
  "dataset_new_memory_mapped num_points dim =
     \<lparr>ds_data = [], ds_mmap = None, ds_num_points = num_points, ds_num_active = num_points,
      ds_capacity = 0, ds_dim = dim, ds_is_mapped = False\<rparr>"

definition set_memory_mapped :: "u8 list \<Rightarrow> inmem_dataset \<Rightarrow> inmem_dataset result" where
  "set_memory_mapped bytes D =
     (let data_size = (length bytes + 2 ^ 64 - 8) mod 2 ^ 64;
          num_points = data_size div (ds_dim D * 4)
      in if ds_dim D * 4 = 0 then Inl (Panic ''attempt to divide by zero'')
         else if length bytes < 8 then Inl (Err (Index ''File too small for header''))
         else if unat (of_le32 (take 4 (drop 4 bytes))) \<noteq> ds_dim D
         then Inl (Err (Index ''Dimension mismatch''))
         else if unat (of_le32 (take 4 bytes)) \<noteq> num_points
         then Inl (Err (Index ''Point count mismatch''))
         else Inr (D\<lparr>ds_mmap := Some bytes, ds_num_points := num_points, ds_num_active := num_points,
                     ds_capacity := num_points * ds_dim D, ds_is_mapped := True\<rparr>))"

text \<open>\<open>build_from_file\<close> of a mapped data set.\<close>

definition build_from_mapped_file :: "usize \<Rightarrow> inmem_dataset \<Rightarrow> inmem_dataset" where
  "build_from_mapped_file num_points_to_load D = D\<lparr>ds_num_active := num_points_to_load\<rparr>"

text \<open>
  A vertex is the slice \<open>val\<close>: its length, and the memory behind its pointer, lane by lane. The
  memory goes on after the slice.
\<close>

record vertex =
  vx_len :: usize
  vx_lane :: "nat \<Rightarrow> f32 result"
  vx_id :: u32

definition get_vertex :: "inmem_dataset \<Rightarrow> u32 \<Rightarrow> vertex result" where
  "get_vertex D vid =
     (let start = unat vid * ds_dim D; end' = start + ds_dim D
      in if ds_is_mapped D
         then (case ds_mmap D of
                 Some bytes \<Rightarrow>
                   (if length bytes < 8 + end' * 4
                    then Inl (Err (Index ''Invalid vertex id: out of bounds''))
                    else Inr \<lparr>vx_len = ds_dim D, vx_lane = (\<lambda>j. mapped_f32 bytes (8 + start * 4 + j * 4)), vx_id = vid\<rparr>)
               | None \<Rightarrow> Inl (Err (Index ''Memory mapping not available'')))
         else if end' \<le> length (ds_data D)
         then Inr \<lparr>vx_len = ds_dim D,
                   vx_lane = (\<lambda>j. if start + j < length (ds_data D) then Inr (ds_data D ! (start + j))
                                  else Inl invalid_access), vx_id = vid\<rparr>
         else Inl (Err (Index ''Invalid vertex id'')))"

section \<open>The vector distance\<close>

record prune_ops =
  po_sub :: "f32 \<Rightarrow> f32 \<Rightarrow> f32"
  po_fmadd :: "f32 \<Rightarrow> f32 \<Rightarrow> f32 \<Rightarrow> f32"
  po_reduce_add :: "f32 list \<Rightarrow> f32"
  po_div :: "f32 \<Rightarrow> f32 \<Rightarrow> f32"
  po_mul :: "f32 \<Rightarrow> f32 \<Rightarrow> f32"

text \<open>\<open>_mm512_loadu_ps\<close>: sixteen lanes from an element of the slice on.\<close>

primrec load_lanes :: "vertex \<Rightarrow> nat list \<Rightarrow> f32 list result" where
  "load_lanes v [] = Inr []"
| "load_lanes v (j # js) =
     res_bind (vx_lane v j) (\<lambda>x. res_bind (load_lanes v js) (\<lambda>xs. Inr (x # xs)))"

definition loadu_ps :: "vertex \<Rightarrow> nat \<Rightarrow> f32 list result" where
  "loadu_ps v i = load_lanes v [i..<i + 16]"

definition lane_step :: "prune_ops \<Rightarrow> f32 list \<Rightarrow> f32 list \<Rightarrow> f32 list \<Rightarrow> f32 list" where
  "lane_step F xs ys sums = map2 (\<lambda>d s. po_fmadd F d d s) (map2 (po_sub F) xs ys) sums"

primrec lane_sums :: "prune_ops \<Rightarrow> vertex \<Rightarrow> vertex \<Rightarrow> nat list \<Rightarrow> f32 list \<Rightarrow> f32 list result" where
  "lane_sums F v1 v2 [] sums = Inr sums"
| "lane_sums F v1 v2 (i # is) sums =
     res_bind (loadu_ps v1 i) (\<lambda>xs. res_bind (loadu_ps v2 i) (\<lambda>ys.
     lane_sums F v1 v2 is (lane_step F xs ys sums)))"

definition calc_distance_f32_avx512 :: "prune_ops \<Rightarrow> vertex \<Rightarrow> vertex \<Rightarrow> usize \<Rightarrow> f32 result" where
  "calc_distance_f32_avx512 F v1 v2 dim =
     res_bind (lane_sums F v1 v2 (map (\<lambda>k. 16 * k) [0..<div_ceil dim 16]) (replicate 16 f32_zero)) (\<lambda>sums.
     Inr (po_reduce_add F sums))"

definition vertex_compare :: "prune_ops \<Rightarrow> vertex \<Rightarrow> vertex \<Rightarrow> metric \<Rightarrow> f32 result" where
  "vertex_compare F v1 v2 metric = calc_distance_f32_avx512 F v1 v2 (vx_len v1)"

definition dataset_get_distance :: "prune_ops \<Rightarrow> inmem_dataset \<Rightarrow> metric \<Rightarrow> u32 \<Rightarrow> u32 \<Rightarrow> f32 result" where
  "dataset_get_distance F D metric id1 id2 =
     res_bind (get_vertex D id1) (\<lambda>v1. res_bind (get_vertex D id2) (\<lambda>v2. vertex_compare F v1 v2 metric))"

section \<open>Neighbours and their order\<close>

record neighbor =
  nb_id :: u32
  nb_distance :: f32
  nb_visited :: bool

definition neighbor_new :: "u32 \<Rightarrow> f32 \<Rightarrow> neighbor" where
  "neighbor_new i d = \<lparr>nb_id = i, nb_distance = d, nb_visited = False\<rparr>"

definition neighbor_cmp :: "neighbor \<Rightarrow> neighbor \<Rightarrow> ordering" where
  "neighbor_cmp a b =
     (let ord = f32_cmp_or_equal (nb_distance a) (nb_distance b)
      in if ord = Equal then cmp (nb_id a) (nb_id b) else ord)"

text \<open>
  \<open>sort_unstable\<close> gives a permutation; it is sorted when the order is total, that is when no
  distance is a NaN.
\<close>

definition neighbor_sort :: "(neighbor list \<Rightarrow> neighbor list) \<Rightarrow> bool" where
  "neighbor_sort srt \<longleftrightarrow>
     (\<forall>xs. mset (srt xs) = mset xs \<and>
        ((\<forall>p \<in> set xs. \<not> f32_is_nan (nb_distance p)) \<longrightarrow>
           sorted_wrt (\<lambda>a b. neighbor_cmp a b \<noteq> Greater) (srt xs)))"

section \<open>The prune of one pool\<close>

definition FINAL_PRUNE_ALPHA :: f32 where
  "FINAL_PRUNE_ALPHA = 0x3f99999a"

definition FINAL_PRUNE_MAX_OCCLUSION_SIZE :: usize where
  "FINAL_PRUNE_MAX_OCCLUSION_SIZE = 750"

definition FINAL_PRUNE_SATURATE :: bool where
  "FINAL_PRUNE_SATURATE = True"

definition f32_maximum :: "f32 \<Rightarrow> f32 \<Rightarrow> f32" where
  "f32_maximum a b = (if f32_is_nan a then b else if f32_is_nan b then a
                      else if f32_key a < f32_key b then b else a)"

text \<open>The state of the prune that its loops read: what the arguments of the function fix.\<close>

record prune_env =
  pv_dist :: "metric \<Rightarrow> u32 \<Rightarrow> u32 \<Rightarrow> f32 result"
  pv_div :: "f32 \<Rightarrow> f32 \<Rightarrow> f32"
  pv_mul :: "f32 \<Rightarrow> f32 \<Rightarrow> f32"
  pv_location :: u32
  pv_max_degree :: usize
  pv_alpha :: f32
  pv_metric :: metric

definition ip_error :: fault where
  "ip_error = Err (IndexConfig ''metric'' ''ForgeANN final prune supports only L2/Cosine'')"

text \<open>The loop over \<open>j\<close>: the factors of the candidates after the chosen one.\<close>

fun occlude :: "prune_env \<Rightarrow> neighbor \<Rightarrow> neighbor list \<Rightarrow> f32 list \<Rightarrow> f32 list result" where
  "occlude E neighbor (neighbor2 # ps) (factor # fs) =
     res_bind
       (if f32_lt (pv_alpha E) factor then Inr factor
        else res_bind (pv_dist E (pv_metric E) (nb_id neighbor2) (nb_id neighbor)) (\<lambda>djk.
          case pv_metric E of
            Ip \<Rightarrow> Inl ip_error
          | _ \<Rightarrow> Inr (if f32_eq djk f32_zero then f32_max_value
                     else f32_maximum factor (pv_div E (nb_distance neighbor2) djk)))) (\<lambda>factor'.
     res_bind (occlude E neighbor ps fs) (\<lambda>fs'. Inr (factor' # fs')))"
| "occlude E neighbor _ _ = Inr []"

text \<open>The loop over \<open>i\<close>: one round with the slack \<open>cur_alpha\<close>.\<close>

fun prune_round :: "prune_env \<Rightarrow> f32 \<Rightarrow> neighbor list \<Rightarrow> f32 list \<Rightarrow> u32 list \<Rightarrow> (f32 list \<times> u32 list) result" where
  "prune_round E cur_alpha (neighbor # ps) (factor # fs) edges =
     (if pv_max_degree E \<le> length edges then Inr (factor # fs, edges)
      else if f32_lt cur_alpha factor
      then res_bind (prune_round E cur_alpha ps fs edges) (\<lambda>(fs', edges'). Inr (factor # fs', edges'))
      else
        (let pushed = (if nb_id neighbor \<noteq> pv_location E then edges @ [nb_id neighbor] else edges)
         in res_bind (occlude E neighbor ps fs) (\<lambda>fs'.
            res_bind (prune_round E cur_alpha ps fs' pushed) (\<lambda>(fs'', edges').
            Inr (f32_max_value # fs'', edges')))))"
| "prune_round E cur_alpha _ fs edges = Inr (fs, edges)"

partial_function (option) prune_loop ::
  "prune_env \<Rightarrow> neighbor list \<Rightarrow> f32 \<Rightarrow> f32 list \<Rightarrow> u32 list \<Rightarrow> u32 list result option" where
  "prune_loop E pool cur_alpha fs edges =
     (if f32_le cur_alpha (pv_alpha E) \<and> length edges < pv_max_degree E
      then case prune_round E cur_alpha pool fs edges of
             Inl e \<Rightarrow> Some (Inl e)
           | Inr (fs', edges') \<Rightarrow>
               prune_loop E pool (pv_mul E cur_alpha FINAL_PRUNE_ALPHA) fs' edges'
      else Some (Inr edges))"

fun saturate_edges :: "prune_env \<Rightarrow> neighbor list \<Rightarrow> u32 list \<Rightarrow> u32 list" where
  "saturate_edges E [] edges = edges"
| "saturate_edges E (neighbor # ps) edges =
     (if pv_max_degree E \<le> length edges then edges
      else if nb_id neighbor \<noteq> pv_location E \<and> nb_id neighbor \<notin> set edges
      then saturate_edges E ps (edges @ [nb_id neighbor])
      else saturate_edges E ps edges)"

definition robust_prune_candidates ::
  "(neighbor list \<Rightarrow> neighbor list) \<Rightarrow> prune_env \<Rightarrow> neighbor list \<Rightarrow> usize \<Rightarrow> bool \<Rightarrow> u32 list result option" where
  "robust_prune_candidates srt E pool max_candidate_size saturate_graph =
     (if pool = [] then Some (Inr [])
      else
        (let pool = take max_candidate_size (srt pool)
         in case prune_loop E pool f32_one (replicate (length pool) f32_zero) [] of
              None \<Rightarrow> None
            | Some (Inl e) \<Rightarrow> Some (Inl e)
            | Some (Inr edges) \<Rightarrow>
                (let edges = (if saturate_graph \<and> f32_lt f32_one (pv_alpha E) then saturate_edges E pool edges else edges)
                 in if pv_max_degree E < length edges
                    then Some (Inl (Err (Index ''final prune produced neighbors over max degree'')))
                    else Some (Inr edges))))"

section \<open>The rows of the graph\<close>

primrec row_pool :: "prune_ops \<Rightarrow> inmem_dataset \<Rightarrow> metric \<Rightarrow> vertex \<Rightarrow> u32 list \<Rightarrow> neighbor list result" where
  "row_pool F D metric query [] = Inr []"
| "row_pool F D metric query (nid # nids) =
     res_bind (get_vertex D nid) (\<lambda>v.
     res_bind (vertex_compare F query v metric) (\<lambda>d.
     res_bind (row_pool F D metric query nids) (\<lambda>ps. Inr (neighbor_new nid d # ps))))"

definition final_prune_env :: "prune_ops \<Rightarrow> inmem_dataset \<Rightarrow> metric \<Rightarrow> usize \<Rightarrow> u32 \<Rightarrow> prune_env" where
  "final_prune_env F D metric max_degree vid =
     \<lparr>pv_dist = dataset_get_distance F D, pv_div = po_div F, pv_mul = po_mul F, pv_location = vid,
      pv_max_degree = max_degree, pv_alpha = FINAL_PRUNE_ALPHA, pv_metric = metric\<rparr>"

definition prune_one ::
  "(neighbor list \<Rightarrow> neighbor list) \<Rightarrow> prune_ops \<Rightarrow> inmem_dataset \<Rightarrow> metric \<Rightarrow> usize \<Rightarrow> usize \<Rightarrow> u32 list \<Rightarrow>
   u32 list result option" where
  "prune_one srt F D metric max_degree vid row =
     (if row = [] then Some (Inr [])
      else case get_vertex D (word_of_nat vid) of
             Inl e \<Rightarrow> Some (Inl e)
           | Inr query \<Rightarrow>
               (case row_pool F D metric query row of
                  Inl e \<Rightarrow> Some (Inl e)
                | Inr pool \<Rightarrow>
                    robust_prune_candidates srt (final_prune_env F D metric max_degree (word_of_nat vid)) pool
                      FINAL_PRUNE_MAX_OCCLUSION_SIZE FINAL_PRUNE_SATURATE))"

text \<open>
  The rows are pruned one by one in the order \<open>vids\<close> and the first error stops: the increasing
  order with one thread, the order the pool's threads happen to reach them otherwise.
\<close>

primrec prune_rows_in_order ::
  "(usize \<Rightarrow> u32 list \<Rightarrow> u32 list result option) \<Rightarrow> usize list \<Rightarrow> u32 list list \<Rightarrow> (u32 list list \<times> unit result) option" where
  "prune_rows_in_order one [] rows = Some (rows, Inr ())"
| "prune_rows_in_order one (vid # vids) rows =
     (case one vid (rows ! vid) of
        None \<Rightarrow> None
      | Some (Inl e) \<Rightarrow> Some (rows, Inl e)
      | Some (Inr edges) \<Rightarrow> prune_rows_in_order one vids (rows[vid := edges]))"

definition final_robust_prune_rows ::
  "(neighbor list \<Rightarrow> neighbor list) \<Rightarrow> prune_ops \<Rightarrow> inmem_dataset \<Rightarrow> (usize \<Rightarrow> usize list) \<Rightarrow> u32 list list \<Rightarrow> usize \<Rightarrow>
   metric \<Rightarrow> nat \<Rightarrow> (u32 list list \<times> unit result) option" where
  "final_robust_prune_rows srt F D schedule rows max_degree metric num_threads =
     prune_rows_in_order (prune_one srt F D metric max_degree)
       (if num_threads = 1 then [0..<length rows] else schedule (length rows)) rows"

section \<open>A reference for the choice\<close>

text \<open>
  \<open>occludes E c q p\<close>: the chosen \<open>q\<close> occludes \<open>p\<close> at the slack \<open>c\<close>. A round walks the pool and
  chooses a candidate unless an earlier chosen one occludes it; \<open>taken\<close> marks what earlier rounds chose.
\<close>

definition occludes :: "prune_env \<Rightarrow> f32 \<Rightarrow> neighbor \<Rightarrow> neighbor \<Rightarrow> bool" where
  "occludes E c q p =
     (case pv_dist E (pv_metric E) (nb_id p) (nb_id q) of
        Inl e \<Rightarrow> False
      | Inr d \<Rightarrow> f32_eq d f32_zero \<or> f32_lt c (pv_div E (nb_distance p) d))"

fun choose_round :: "prune_env \<Rightarrow> f32 \<Rightarrow> neighbor list \<Rightarrow> neighbor list \<Rightarrow> bool list \<Rightarrow> bool list" where
  "choose_round E c chosen (p # ps) (taken # ts) =
     (if taken then False # choose_round E c (chosen @ [p]) ps ts
      else if list_ex (\<lambda>q. occludes E c q p) chosen then False # choose_round E c chosen ps ts
      else True # choose_round E c (chosen @ [p]) ps ts)"
| "choose_round E c chosen _ _ = []"

definition chosen_ids :: "u32 \<Rightarrow> neighbor list \<Rightarrow> bool list \<Rightarrow> u32 list" where
  "chosen_ids loc ps bs = filter (\<lambda>i. i \<noteq> loc) (map (nb_id \<circ> fst) (filter snd (zip ps bs)))"

fun fresh_ids :: "u32 \<Rightarrow> u32 list \<Rightarrow> neighbor list \<Rightarrow> u32 list" where
  "fresh_ids loc edges [] = []"
| "fresh_ids loc edges (p # ps) =
     (if nb_id p \<noteq> loc \<and> nb_id p \<notin> set edges
      then nb_id p # fresh_ids loc (edges @ [nb_id p]) ps
      else fresh_ids loc edges ps)"

definition robust_choice :: "prune_env \<Rightarrow> neighbor list \<Rightarrow> u32 list" where
  "robust_choice E pool =
     (let first = choose_round E f32_one [] pool (replicate (length pool) False);
          second = choose_round E FINAL_PRUNE_ALPHA [] pool first
      in chosen_ids (pv_location E) pool first @ chosen_ids (pv_location E) pool second)"

definition robust_reference :: "prune_env \<Rightarrow> neighbor list \<Rightarrow> u32 list" where
  "robust_reference E pool =
     (let edges = robust_choice E pool
      in take (pv_max_degree E) (edges @ fresh_ids (pv_location E) edges pool))"

text \<open>What the loop relies on of \<open>f32\<close>: two rounds, at the slacks 1 and 1.2.\<close>

definition two_rounds :: "prune_env \<Rightarrow> bool" where
  "two_rounds E \<longleftrightarrow>
     pv_alpha E = FINAL_PRUNE_ALPHA \<and> pv_mul E f32_one FINAL_PRUNE_ALPHA = FINAL_PRUNE_ALPHA \<and>
     f32_lt FINAL_PRUNE_ALPHA (pv_mul E FINAL_PRUNE_ALPHA FINAL_PRUNE_ALPHA)"

section \<open>Comparisons\<close>

lemma prune_constants [simp]:
  "f32_lt f32_one FINAL_PRUNE_ALPHA" "f32_le f32_one FINAL_PRUNE_ALPHA"
  "f32_le FINAL_PRUNE_ALPHA FINAL_PRUNE_ALPHA"
  "f32_lt f32_one f32_max_value" "f32_lt FINAL_PRUNE_ALPHA f32_max_value"
  "\<not> f32_lt f32_one f32_zero" "\<not> f32_lt FINAL_PRUNE_ALPHA f32_zero"
  "FINAL_PRUNE_ALPHA \<noteq> f32_one"
  by (code_simp)+

lemma f32_lt_maximum: "f32_lt c (f32_maximum a b) \<longleftrightarrow> f32_lt c a \<or> f32_lt c b"
  by (auto simp: f32_maximum_def f32_lt_def)

lemma f32_le_lt_trans: "f32_le a b \<Longrightarrow> f32_lt b c \<Longrightarrow> f32_lt a c"
  by (auto simp: f32_cmp_defs)

lemma f32_lt_not_le: "f32_lt a b \<Longrightarrow> \<not> f32_le b a"
  by (auto simp: f32_cmp_defs)

section \<open>One round\<close>

text \<open>
  The invariant of the factors, from a position on: a chosen candidate has the largest factor, the
  factor of any other exceeds a slack exactly when an earlier chosen candidate occludes it.
\<close>

fun factors_ok :: "prune_env \<Rightarrow> f32 \<Rightarrow> neighbor set \<Rightarrow> neighbor list \<Rightarrow> bool list \<Rightarrow> f32 list \<Rightarrow> bool" where
  "factors_ok E c chosen [] [] [] = True"
| "factors_ok E c chosen (p # ps) (taken # ts) (f # fs) =
     ((if taken then f = f32_max_value else f32_lt c f \<longleftrightarrow> (\<exists>q \<in> chosen. occludes E c q p)) \<and>
      factors_ok E c (if taken then insert p chosen else chosen) ps ts fs)"
| "factors_ok E c chosen _ _ _ = False"

lemma factors_ok_length: "factors_ok E c chosen ps ts fs \<Longrightarrow> length ts = length ps \<and> length fs = length ps"
  by (induction E c chosen ps ts fs rule: factors_ok.induct) (auto split: if_splits)

lemma factors_ok_start:
  assumes "\<not> f32_lt c f32_zero"
  shows "factors_ok E c {} ps (replicate (length ps) False) (replicate (length ps) f32_zero)"
  using assms by (induction ps) simp_all

lemma length_choose_round: "length ts = length ps \<Longrightarrow> length (choose_round E c chosen ps ts) = length ps"
  by (induction E c chosen ps ts rule: choose_round.induct) auto

lemma chosen_ids_simps [simp]:
  "chosen_ids loc [] bs = []"
  "chosen_ids loc (p # ps) (b # bs) = (if b \<and> nb_id p \<noteq> loc then [nb_id p] else []) @ chosen_ids loc ps bs"
  by (simp_all add: chosen_ids_def)

text \<open>
  The interface of the loops to the data set: a distance for every pair of valid candidates.
\<close>

locale distance_oracle =
  fixes dist :: "metric \<Rightarrow> u32 \<Rightarrow> u32 \<Rightarrow> f32 result" and valid :: "u32 \<Rightarrow> bool"
  assumes dist_total: "valid a \<Longrightarrow> valid b \<Longrightarrow> \<exists>d. dist m a b = Inr d"
begin

lemma factors_ok_Cons:
  "factors_ok E c chosen (p # ps) ts fs \<longleftrightarrow>
     (\<exists>taken ts' f fs'. ts = taken # ts' \<and> fs = f # fs' \<and>
        (if taken then f = f32_max_value else f32_lt c f \<longleftrightarrow> (\<exists>q \<in> chosen. occludes E c q p)) \<and>
        factors_ok E c (if taken then insert p chosen else chosen) ps ts' fs')"
  by (cases ts; cases fs) auto

lemma occlude_factors:
  assumes E: "pv_dist E = dist" "pv_metric E \<noteq> Ip" and alpha: "f32_lt (pv_alpha E) f32_max_value"
    and q: "valid (nb_id q)"
  assumes "\<forall>p \<in> set ps. valid (nb_id p)" "length fs = length ps"
  shows "\<exists>fs'. occlude E q ps fs = Inr fs' \<and> length fs' = length ps \<and>
    (\<forall>c chosen ts. f32_le c (pv_alpha E) \<longrightarrow> factors_ok E c chosen ps ts fs \<longrightarrow>
       factors_ok E c (insert q chosen) ps ts fs')"
  using assms(5,6)
proof (induction ps arbitrary: fs)
  case (Cons p ps)
  then obtain f fs0 where fs: "fs = f # fs0" and l: "length fs0 = length ps" by (cases fs) auto
  obtain d where d: "dist (pv_metric E) (nb_id p) (nb_id q) = Inr d"
    using dist_total [of "nb_id p" "nb_id q"] q Cons.prems by auto
  obtain fs1 where fs1: "occlude E q ps fs0 = Inr fs1" "length fs1 = length ps"
    "\<And>c chosen ts. f32_le c (pv_alpha E) \<Longrightarrow> factors_ok E c chosen ps ts fs0 \<Longrightarrow>
       factors_ok E c (insert q chosen) ps ts fs1"
    using Cons.IH [of fs0] Cons.prems l by auto
  define f' where "f' = (if f32_lt (pv_alpha E) f then f
     else if f32_eq d f32_zero then f32_max_value else f32_maximum f (pv_div E (nb_distance p) d))"
  have o: "occlude E q (p # ps) fs = Inr (f' # fs1)"
    using E d fs1(1) by (cases "pv_metric E") (simp_all add: fs f'_def)
  have lt: "f32_lt c f' \<longleftrightarrow> f32_lt c f \<or> occludes E c q p" if "f32_le c (pv_alpha E)" for c
    using f32_le_lt_trans [OF that, of f] f32_le_lt_trans [OF that alpha]
    by (auto simp: f'_def occludes_def E d f32_lt_maximum)
  have keep: "f = f32_max_value \<Longrightarrow> f' = f32_max_value" using alpha by (simp add: f'_def)
  have "factors_ok E c (insert q chosen) (p # ps) ts (f' # fs1)"
    if le: "f32_le c (pv_alpha E)" and ok: "factors_ok E c chosen (p # ps) ts fs" for c chosen ts
  proof -
    obtain t ts0 where ts: "ts = t # ts0" using ok by (auto simp: factors_ok_Cons)
    have "factors_ok E c (insert q (if t then insert p chosen else chosen)) ps ts0 fs1"
      using ok by (intro fs1(3) [OF le]) (simp add: ts fs)
    then show ?thesis
      using ok keep lt [OF le] by (cases t) (auto simp: ts fs insert_commute)
  qed
  then show ?case using o fs1(2) by auto
next
  case Nil
  have "factors_ok E c (insert q chosen) [] ts []" if "factors_ok E c chosen [] ts []" for c chosen ts
    using that by (cases ts) simp_all
  then show ?case using Nil.prems(2) by simp
qed

text \<open>
  A round chooses what the reference chooses, cut to the degree bound, and unless the bound stops it
  the factors stay correct for the larger slacks.
\<close>

lemma prune_round_choice:
  assumes E: "pv_dist E = dist" "pv_metric E \<noteq> Ip" and alpha: "f32_lt (pv_alpha E) f32_max_value"
    and c: "f32_le c (pv_alpha E)"
  assumes "\<forall>p \<in> set ps. valid (nb_id p)" "factors_ok E c (set chosen) ps ts fs"
    "factors_ok E (pv_alpha E) (set chosen) ps ts fs" "length edges \<le> pv_max_degree E"
  shows "\<exists>fs' edges'. prune_round E c ps fs edges = Inr (fs', edges') \<and>
    edges' = take (pv_max_degree E) (edges @ chosen_ids (pv_location E) ps (choose_round E c chosen ps ts)) \<and>
    (length edges' < pv_max_degree E \<longrightarrow>
       factors_ok E (pv_alpha E) (set chosen) ps (map2 (\<or>) ts (choose_round E c chosen ps ts)) fs')"
  using assms(5-8)
proof (induction ps arbitrary: chosen ts fs edges)
  case Nil
  then show ?case by (cases ts; cases fs) auto
next
  case (Cons p ps)
  obtain taken ts0 f fs0 where tf: "ts = taken # ts0" "fs = f # fs0"
    using Cons.prems(2) by (auto simp: factors_ok_Cons)
  have v: "\<forall>p \<in> set ps. valid (nb_id p)" using Cons.prems(1) by simp
  show ?case
  proof (cases "pv_max_degree E \<le> length edges")
    case True
    then show ?thesis using Cons.prems(4) tf by simp
  next
    case room: False
    show ?thesis
    proof (cases "f32_lt c f")
      case skip: True
      define chosen' where "chosen' = (if taken then chosen @ [p] else chosen)"
      have ok: "factors_ok E c (set chosen') ps ts0 fs0" "factors_ok E (pv_alpha E) (set chosen') ps ts0 fs0"
        using Cons.prems(2,3) by (auto simp: tf chosen'_def split: if_splits)
      obtain fs' edges' where r: "prune_round E c ps fs0 edges = Inr (fs', edges')"
        "edges' = take (pv_max_degree E) (edges @ chosen_ids (pv_location E) ps (choose_round E c chosen' ps ts0))"
        "length edges' < pv_max_degree E \<longrightarrow>
           factors_ok E (pv_alpha E) (set chosen') ps (map2 (\<or>) ts0 (choose_round E c chosen' ps ts0)) fs'"
        using Cons.IH [OF v ok Cons.prems(4)] by blast
      have ch: "choose_round E c chosen (p # ps) (taken # ts0) = False # choose_round E c chosen' ps ts0"
        using Cons.prems(2) skip by (cases taken) (simp_all add: tf chosen'_def list_ex_iff)
      show ?thesis
        unfolding tf ch using r Cons.prems(3) skip room
        by (cases taken) (simp_all add: tf chosen'_def)
    next
      case push: False
      then have nt: "\<not> taken" using Cons.prems(2) c alpha f32_le_lt_trans by (auto simp: tf)
      have ok: "factors_ok E c (set chosen) ps ts0 fs0" "factors_ok E (pv_alpha E) (set chosen) ps ts0 fs0"
        using Cons.prems(2,3) nt by (auto simp: tf)
      obtain fs1 where o: "occlude E p ps fs0 = Inr fs1"
        and up: "\<And>c' chosen ts. f32_le c' (pv_alpha E) \<Longrightarrow> factors_ok E c' chosen ps ts fs0 \<Longrightarrow>
           factors_ok E c' (insert p chosen) ps ts fs1"
        using occlude_factors [OF E alpha, of p ps fs0] Cons.prems(1) factors_ok_length [OF ok(1)] by auto
      have refl: "f32_le (pv_alpha E) (pv_alpha E)" using alpha by (simp add: f32_cmp_defs)
      have ok': "factors_ok E c (set (chosen @ [p])) ps ts0 fs1"
        "factors_ok E (pv_alpha E) (set (chosen @ [p])) ps ts0 fs1"
        using up [OF c ok(1)] up [OF refl ok(2)] by simp_all
      define pushed where "pushed = (if nb_id p \<noteq> pv_location E then edges @ [nb_id p] else edges)"
      have len: "length pushed \<le> pv_max_degree E" using room by (simp add: pushed_def)
      obtain fs' edges' where r: "prune_round E c ps fs1 pushed = Inr (fs', edges')"
        "edges' = take (pv_max_degree E) (pushed @ chosen_ids (pv_location E) ps (choose_round E c (chosen @ [p]) ps ts0))"
        "length edges' < pv_max_degree E \<longrightarrow>
           factors_ok E (pv_alpha E) (set (chosen @ [p])) ps (map2 (\<or>) ts0 (choose_round E c (chosen @ [p]) ps ts0)) fs'"
        using Cons.IH [OF v ok' len] by blast
      have ch: "choose_round E c chosen (p # ps) (taken # ts0) = True # choose_round E c (chosen @ [p]) ps ts0"
        using Cons.prems(2) push nt by (simp add: tf list_ex_iff)
      show ?thesis
        unfolding tf ch using r room push o nt by (simp add: pushed_def)
    qed
  qed
qed

lemma prune_loop_choice:
  assumes E: "pv_dist E = dist" "pv_metric E \<noteq> Ip" and two: "two_rounds E"
    and v: "\<forall>p \<in> set pool. valid (nb_id p)"
  shows "prune_loop E pool f32_one (replicate (length pool) f32_zero) [] =
    Some (Inr (take (pv_max_degree E) (robust_choice E pool)))"
proof (cases "pv_max_degree E = 0")
  case True
  then show ?thesis by (simp add: prune_loop.simps)
next
  case pos: False
  let ?F = "replicate (length pool) False" and ?a = FINAL_PRUNE_ALPHA
  define first second where "first = choose_round E f32_one [] pool ?F"
    and "second = choose_round E ?a [] pool first"
  let ?ids = "chosen_ids (pv_location E) pool"
  have choice: "robust_choice E pool = ?ids first @ ?ids second"
    by (simp add: robust_choice_def first_def second_def Let_def)
  have a: "pv_alpha E = ?a" "f32_lt (pv_alpha E) f32_max_value" "f32_le f32_one (pv_alpha E)" "f32_le ?a (pv_alpha E)"
    using two by (simp_all add: two_rounds_def)
  have mul: "pv_mul E f32_one ?a = ?a" "\<not> f32_le (pv_mul E ?a ?a) ?a"
    using two by (auto simp: two_rounds_def f32_lt_not_le)
  have "map2 (\<or>) ?F first = first"
    by (rule nth_equalityI) (simp_all add: first_def length_choose_round)
  then obtain fs1 where r1: "prune_round E f32_one pool (replicate (length pool) f32_zero) [] =
      Inr (fs1, take (pv_max_degree E) (?ids first))"
    and ok1: "length (take (pv_max_degree E) (?ids first)) < pv_max_degree E \<Longrightarrow> factors_ok E ?a {} pool first fs1"
    using prune_round_choice [OF E a(2,3) v, of "[]" ?F "replicate (length pool) f32_zero" "[]"]
    by (auto simp: factors_ok_start a(1) simp flip: first_def)
  show ?thesis
  proof (cases "length (?ids first) < pv_max_degree E")
    case True
    have ok: "factors_ok E ?a (set []) pool first fs1" using ok1 True by simp
    obtain fs2 where "prune_round E ?a pool fs1 (?ids first) =
        Inr (fs2, take (pv_max_degree E) (?ids first @ ?ids second))"
      using prune_round_choice [OF E a(2,4) v ok ok [folded a(1)] less_imp_le [OF True]]
      by (auto simp flip: second_def)
    then show ?thesis
      using pos True r1 mul by (simp add: choice a(1) prune_loop.simps)
  next
    case False
    then show ?thesis using pos r1 mul by (simp add: choice a(1) prune_loop.simps)
  qed
qed

end

section \<open>The whole prune\<close>

lemma saturate_edges_fresh:
  "length edges \<le> pv_max_degree E \<Longrightarrow>
   saturate_edges E ps edges = take (pv_max_degree E) (edges @ fresh_ids (pv_location E) edges ps)"
  by (induction ps arbitrary: edges) (auto simp: take_Cons')

context distance_oracle
begin

lemma robust_prune_is_reference:
  assumes E: "pv_dist E = dist" "pv_metric E \<noteq> Ip" and two: "two_rounds E"
    and v: "\<forall>p \<in> set pool. valid (nb_id p)" and srt: "neighbor_sort srt"
  shows "robust_prune_candidates srt E pool m True = Some (Inr (robust_reference E (take m (srt pool))))"
proof (cases "pool = []")
  case True
  then have "srt pool = []" using srt by (metis neighbor_sort_def mset_zero_iff)
  then show ?thesis
    using True by (simp add: robust_prune_candidates_def robust_reference_def robust_choice_def)
next
  case False
  define pool' where "pool' = take m (srt pool)"
  have "set (srt pool) = set pool" using srt by (metis neighbor_sort_def set_mset_mset)
  then have v': "\<forall>p \<in> set pool'. valid (nb_id p)" using v by (auto simp: pool'_def dest: in_set_takeD)
  have "f32_lt f32_one (pv_alpha E)" using two by (simp add: two_rounds_def)
  moreover have "saturate_edges E pool' (take (pv_max_degree E) (robust_choice E pool')) = robust_reference E pool'"
    by (cases "length (robust_choice E pool') \<le> pv_max_degree E")
      (simp_all add: saturate_edges_fresh robust_reference_def Let_def)
  moreover have "length (robust_reference E pool') \<le> pv_max_degree E"
    by (simp add: robust_reference_def Let_def)
  ultimately show ?thesis
    using False prune_loop_choice [OF E two v']
    by (simp add: robust_prune_candidates_def Let_def flip: pool'_def)
qed

end

section \<open>What the reference promises\<close>

lemma fresh_ids_set:
  "set (fresh_ids loc edges ps) = (nb_id ` set ps) - {loc} - set edges"
  by (induction loc edges ps rule: fresh_ids.induct) auto

lemma fresh_ids_distinct: "distinct edges \<Longrightarrow> distinct (edges @ fresh_ids loc edges ps)"
proof (induction loc edges ps rule: fresh_ids.induct)
  case (2 loc edges p ps)
  show ?case using 2 by (cases "nb_id p \<noteq> loc \<and> nb_id p \<notin> set edges") auto
qed simp

lemma chosen_ids_subset: "set (chosen_ids loc ps bs) \<subseteq> nb_id ` set ps - {loc}"
  by (auto simp: chosen_ids_def dest: set_zip_leftD)

lemma choose_round_not_taken:
  "length ts = length ps \<Longrightarrow> list_all2 (\<lambda>t b. \<not> (t \<and> b)) ts (choose_round E c chosen ps ts)"
  by (induction E c chosen ps ts rule: choose_round.induct) auto

lemma chosen_ids_distinct:
  "list_all2 (\<lambda>a b. \<not> (a \<and> b)) as bs \<Longrightarrow> length as = length ps \<Longrightarrow> distinct (map nb_id ps) \<Longrightarrow>
   distinct (chosen_ids loc ps as @ chosen_ids loc ps bs)"
proof (induction ps arbitrary: as bs)
  case (Cons p ps)
  then obtain a as' b bs' where ab: "as = a # as'" "bs = b # bs'" "\<not> (a \<and> b)"
    "list_all2 (\<lambda>a b. \<not> (a \<and> b)) as' bs'"
    by (cases as; cases bs) auto
  have "distinct (chosen_ids loc ps as' @ chosen_ids loc ps bs')"
    using Cons.IH [OF ab(4)] Cons.prems ab by simp
  moreover have "nb_id p \<notin> set (chosen_ids loc ps as')" "nb_id p \<notin> set (chosen_ids loc ps bs')"
    using Cons.prems(3) chosen_ids_subset [of loc ps] by auto
  ultimately show ?case using ab by auto
qed simp

lemma robust_choice_distinct:
  assumes "distinct (map nb_id pool)"
  shows "distinct (robust_choice E pool)"
  unfolding robust_choice_def Let_def
  by (rule chosen_ids_distinct [OF choose_round_not_taken]) (simp_all add: length_choose_round assms)

lemma robust_reference_row:
  assumes "distinct (map nb_id pool)"
  shows "distinct (robust_reference E pool)"
    and "set (robust_reference E pool) \<subseteq> nb_id ` set pool - {pv_location E}"
    and "length (robust_reference E pool) = min (pv_max_degree E) (card (nb_id ` set pool - {pv_location E}))"
proof -
  define edges where "edges = robust_choice E pool"
  define all where "all = edges @ fresh_ids (pv_location E) edges pool"
  have ref: "robust_reference E pool = take (pv_max_degree E) all"
    by (simp add: robust_reference_def all_def edges_def Let_def)
  have d: "distinct all"
    unfolding all_def edges_def by (rule fresh_ids_distinct [OF robust_choice_distinct [OF assms]])
  have "set edges \<subseteq> nb_id ` set pool - {pv_location E}"
    using chosen_ids_subset by (force simp: edges_def robust_choice_def Let_def)
  then have all: "set all = nb_id ` set pool - {pv_location E}"
    by (auto simp: all_def fresh_ids_set)
  show "distinct (robust_reference E pool)" using d by (simp add: ref)
  show "set (robust_reference E pool) \<subseteq> nb_id ` set pool - {pv_location E}"
    using set_take_subset [of "pv_max_degree E" all] by (simp add: ref all)
  show "length (robust_reference E pool) = min (pv_max_degree E) (card (nb_id ` set pool - {pv_location E}))"
    using distinct_card [OF d] by (simp add: ref all)
qed

section \<open>Distances of a mapped file\<close>

text \<open>The data set of the build: a mapped fbin file of rows of one length.\<close>

definition maps_rows :: "inmem_dataset \<Rightarrow> f32 list list \<Rightarrow> bool" where
  "maps_rows D rows \<longleftrightarrow>
     ds_is_mapped D \<and> ds_mmap D = Some (fbin_bytes (ds_dim D) rows) \<and> (\<forall>r \<in> set rows. length r = ds_dim D)"

lemma length_fbin_bytes: "length (fbin_bytes d rows) = 8 + 4 * length (concat rows)"
  by (simp add: fbin_bytes_def del: length_concat)

lemma le32s_lane:
  "i < length ws \<Longrightarrow> map ((!) (le32s ws)) [4 * i..<4 * i + 4] = le32 (ws ! i)"
proof (induction ws arbitrary: i)
  case (Cons w ws)
  show ?case
  proof (cases i)
    case 0
    have "map ((!) (le32 w @ le32s ws)) [0..<4] = le32 w"
      by (rule nth_equalityI) (simp_all add: nth_append)
    then show ?thesis by (simp add: 0)
  next
    case (Suc k)
    have "map ((!) (le32 w @ le32s ws)) [4 * i..<4 * i + 4] = map ((!) (le32s ws)) [4 * k..<4 * k + 4]"
      by (rule nth_equalityI) (simp_all add: Suc nth_append)
    then show ?thesis using Cons by (simp add: Suc)
  qed
qed simp

lemma mapped_lane:
  assumes "i < length (concat rows)"
  shows "mapped_f32 (fbin_bytes d rows) (8 + i * 4) = Inr (concat rows ! i)"
proof -
  let ?b = "fbin_bytes d rows"
  have len: "8 + 4 * i + 4 \<le> length ?b" using assms by (simp add: length_fbin_bytes del: length_concat)
  have "length ?b \<le> div_ceil (length ?b) PAGE_SIZE * PAGE_SIZE"
    by (rule div_ceil_mult_ge) (simp add: PAGE_SIZE_def)
  then have page: "8 + i * 4 + 4 \<le> div_ceil (length ?b) PAGE_SIZE * PAGE_SIZE" using len by linarith
  have "?b ! (8 + k) = le32s (concat rows) ! k" for k
    by (simp add: fbin_bytes_def nth_append)
  then have "map (\<lambda>k. if k < length ?b then ?b ! k else 0) [8 + i * 4..<8 + i * 4 + 4] =
      map ((!) (le32s (concat rows))) [4 * i..<4 * i + 4]"
    using len by (intro nth_equalityI) (simp_all add: add.assoc mult.commute)
  then show ?thesis using page le32s_lane [OF assms] by (simp add: mapped_f32_def)
qed

definition lanes_at :: "f32 list \<Rightarrow> nat \<Rightarrow> f32 list" where
  "lanes_at xs i = take 16 (drop i xs)"

definition flat_distance :: "prune_ops \<Rightarrow> usize \<Rightarrow> f32 list \<Rightarrow> f32 list \<Rightarrow> f32" where
  "flat_distance F dim xs ys =
     po_reduce_add F (foldl (\<lambda>sums k. lane_step F (lanes_at xs (16 * k)) (lanes_at ys (16 * k)) sums)
       (replicate 16 f32_zero) [0..<div_ceil dim 16])"

lemma load_lanes_ok:
  "\<forall>j \<in> set js. vx_lane v j = Inr (f j) \<Longrightarrow> load_lanes v js = Inr (map f js)"
  by (induction js) simp_all

lemma lane_sums_ok:
  assumes "\<forall>i \<in> set is. loadu_ps v1 i = Inr (f i) \<and> loadu_ps v2 i = Inr (g i)"
  shows "lane_sums F v1 v2 is sums = Inr (foldl (\<lambda>s i. lane_step F (f i) (g i) s) sums is)"
  using assms by (induction "is" arbitrary: sums) simp_all

lemma get_mapped_vertex:
  assumes "maps_rows D rows" "unat a < length rows"
  obtains v where "get_vertex D a = Inr v" "vx_len v = ds_dim D" "vx_id v = a"
    "\<And>i. unat a * ds_dim D + i + 16 \<le> length (concat rows) \<Longrightarrow>
       loadu_ps v i = Inr (lanes_at (drop (unat a * ds_dim D) (concat rows)) i)"
proof -
  let ?s = "unat a * ds_dim D" and ?fs = "concat rows"
  have len: "length ?fs = length rows * ds_dim D"
    using assms(1) by (intro length_concat_rows) (simp add: maps_rows_def)
  have "Suc (unat a) * ds_dim D \<le> length ?fs"
    unfolding len using assms(2) by (intro mult_le_mono1) simp
  then have room: "8 + (?s + ds_dim D) * 4 \<le> length (fbin_bytes (ds_dim D) rows)"
    by (simp add: length_fbin_bytes del: length_concat)
  define v where "v = \<lparr>vx_len = ds_dim D,
    vx_lane = (\<lambda>j. mapped_f32 (fbin_bytes (ds_dim D) rows) (8 + ?s * 4 + j * 4)), vx_id = a\<rparr>"
  have get: "get_vertex D a = Inr v"
    using assms(1) room by (simp add: get_vertex_def maps_rows_def v_def Let_def)
  have lanes: "loadu_ps v i = Inr (lanes_at (drop ?s ?fs) i)" if "?s + i + 16 \<le> length ?fs" for i
  proof -
    have "vx_lane v j = Inr (?fs ! (?s + j))" if "j < i + 16" for j
      using mapped_lane [of "?s + j" rows "ds_dim D"] that \<open>?s + i + 16 \<le> length ?fs\<close>
      by (simp add: v_def add.assoc distrib_right del: length_concat)
    then have "loadu_ps v i = Inr (map (\<lambda>j. ?fs ! (?s + j)) [i..<i + 16])"
      unfolding loadu_ps_def by (intro load_lanes_ok) simp
    also have "map (\<lambda>j. ?fs ! (?s + j)) [i..<i + 16] = lanes_at (drop ?s ?fs) i"
      using that by (intro nth_equalityI) (simp_all add: lanes_at_def ac_simps del: length_concat)
    finally show ?thesis .
  qed
  show ?thesis by (rule that [OF get _ _ lanes]) (simp_all add: v_def)
qed

lemma chunk_bound: "k < div_ceil dim 16 \<Longrightarrow> 16 * k + 16 \<le> 16 * div_ceil dim 16" for k :: nat
  by simp

lemma dataset_distance_flat:
  assumes D: "maps_rows D rows" "unat a < length rows" "unat b < length rows"
    and room: "unat a * ds_dim D + 16 * div_ceil (ds_dim D) 16 \<le> length rows * ds_dim D"
      "unat b * ds_dim D + 16 * div_ceil (ds_dim D) 16 \<le> length rows * ds_dim D"
  shows "dataset_get_distance F D m a b = Inr (flat_distance F (ds_dim D)
    (drop (unat a * ds_dim D) (concat rows)) (drop (unat b * ds_dim D) (concat rows)))"
proof -
  let ?is = "map (\<lambda>k. 16 * k) [0..<div_ceil (ds_dim D) 16]"
  have len: "length (concat rows) = length rows * ds_dim D"
    using D(1) by (intro length_concat_rows) (simp add: maps_rows_def)
  obtain v1 where v1: "get_vertex D a = Inr v1" "vx_len v1 = ds_dim D"
    "\<And>i. unat a * ds_dim D + i + 16 \<le> length (concat rows) \<Longrightarrow>
       loadu_ps v1 i = Inr (lanes_at (drop (unat a * ds_dim D) (concat rows)) i)"
    using get_mapped_vertex [OF D(1,2)] by metis
  obtain v2 where v2: "get_vertex D b = Inr v2" "vx_len v2 = ds_dim D"
    "\<And>i. unat b * ds_dim D + i + 16 \<le> length (concat rows) \<Longrightarrow>
       loadu_ps v2 i = Inr (lanes_at (drop (unat b * ds_dim D) (concat rows)) i)"
    using get_mapped_vertex [OF D(1,3)] by metis
  have "\<forall>i \<in> set ?is. loadu_ps v1 i = Inr (lanes_at (drop (unat a * ds_dim D) (concat rows)) i) \<and>
      loadu_ps v2 i = Inr (lanes_at (drop (unat b * ds_dim D) (concat rows)) i)"
  proof
    fix i assume "i \<in> set ?is"
    then have "i + 16 \<le> 16 * div_ceil (ds_dim D) 16" using chunk_bound by auto
    then show "loadu_ps v1 i = Inr (lanes_at (drop (unat a * ds_dim D) (concat rows)) i) \<and>
      loadu_ps v2 i = Inr (lanes_at (drop (unat b * ds_dim D) (concat rows)) i)"
      using room len by (intro conjI v1(3) v2(3)) linarith+
  qed
  from lane_sums_ok [OF this] show ?thesis
    by (simp add: dataset_get_distance_def v1 v2 vertex_compare_def calc_distance_f32_avx512_def
        flat_distance_def foldl_map)
qed

text \<open>Sixteen divides the dimension: the lanes are those of the two rows.\<close>

definition aligned_dataset :: "inmem_dataset \<Rightarrow> f32 list list \<Rightarrow> bool" where
  "aligned_dataset D rows \<longleftrightarrow> maps_rows D rows \<and> 16 dvd ds_dim D"

lemma row_of_concat:
  "\<forall>r \<in> set rows. length r = d \<Longrightarrow> i < length rows \<Longrightarrow> take d (drop (i * d) (concat rows)) = rows ! i"
proof (induction rows arbitrary: i)
  case (Cons r rows)
  then show ?case by (cases i) simp_all
qed simp

lemma flat_distance_take:
  assumes "16 dvd d" "d \<le> length xs" "d \<le> length ys"
  shows "flat_distance F d (take d xs) (take d ys) = flat_distance F d xs ys"
proof -
  obtain n where d: "d = 16 * n" using assms(1) by (rule dvdE)
  have dc: "div_ceil d 16 = n" by (simp add: d div_ceil_def)
  have lanes: "lanes_at (take d zs) (16 * k) = lanes_at zs (16 * k)" if "k < n" for k and zs :: "f32 list"
    using that by (simp add: lanes_at_def d drop_take min_def)
  show ?thesis
    unfolding flat_distance_def dc
    by (intro arg_cong [of _ _ "po_reduce_add F"] foldl_cong refl) (simp add: lanes)
qed

lemma aligned_distance:
  assumes D: "aligned_dataset D rows" and a: "unat a < length rows" and b: "unat b < length rows"
  shows "dataset_get_distance F D m a b = Inr (flat_distance F (ds_dim D) (rows ! unat a) (rows ! unat b))"
proof -
  let ?d = "ds_dim D"
  have maps: "maps_rows D rows" and dvd: "16 dvd ?d" using D by (simp_all add: aligned_dataset_def)
  have rows: "\<forall>r \<in> set rows. length r = ?d" using maps by (simp add: maps_rows_def)
  have dc: "16 * div_ceil ?d 16 = ?d" using dvd by (auto simp: div_ceil_def)
  have fit: "i * ?d + ?d \<le> length rows * ?d" if "i < length rows" for i
    using mult_le_mono1 [of "Suc i" "length rows" ?d] that by simp
  have long: "?d \<le> length (drop (i * ?d) (concat rows))" if "i < length rows" for i
    using fit [OF that] length_concat_rows [OF rows] by simp
  show ?thesis
    using dataset_distance_flat [OF maps a b] fit [OF a] fit [OF b]
      flat_distance_take [OF dvd long [OF a] long [OF b]] row_of_concat [OF rows a] row_of_concat [OF rows b]
    by (simp add: dc)
qed

interpretation mapped_distance: distance_oracle "dataset_get_distance F D"
  "\<lambda>a. aligned_dataset D rows \<and> unat a < length rows" for F D rows
  by unfold_locales (use aligned_distance in blast)

text \<open>The pool of a row: its ids with the distances of their vectors to the row's own.\<close>

definition row_candidates :: "prune_ops \<Rightarrow> usize \<Rightarrow> f32 list list \<Rightarrow> usize \<Rightarrow> u32 list \<Rightarrow> neighbor list" where
  "row_candidates F dim rows vid row =
     map (\<lambda>nid. neighbor_new nid (flat_distance F dim (rows ! vid) (rows ! unat nid))) row"

lemma row_candidates_ids [simp]: "map nb_id (row_candidates F dim rows vid row) = row"
  by (simp add: row_candidates_def neighbor_new_def comp_def)

lemma row_candidates_id_set [simp]: "nb_id ` set (row_candidates F dim rows vid row) = set row"
  using row_candidates_ids [of F dim rows vid row] by (metis set_map)

lemma row_pool_candidates:
  assumes D: "aligned_dataset D rows" and vid: "unat vid < length rows" and q: "get_vertex D vid = Inr query"
    and row: "\<forall>nid \<in> set row. unat nid < length rows"
  shows "row_pool F D m query row = Inr (row_candidates F (ds_dim D) rows (unat vid) row)"
  using row
proof (induction row)
  case (Cons nid row)
  have "dataset_get_distance F D m vid nid =
      Inr (flat_distance F (ds_dim D) (rows ! unat vid) (rows ! unat nid))"
    using Cons.prems by (intro aligned_distance [OF D vid]) simp
  then obtain v where "get_vertex D nid = Inr v"
    "vertex_compare F query v m = Inr (flat_distance F (ds_dim D) (rows ! unat vid) (rows ! unat nid))"
    by (auto simp: dataset_get_distance_def q res_bind_Inr_iff)
  then show ?case using Cons by (simp add: row_candidates_def)
qed (simp add: row_candidates_def)

text \<open>What the caller guarantees of the arithmetic, the data set and the sort.\<close>

definition prune_setup :: "(neighbor list \<Rightarrow> neighbor list) \<Rightarrow> prune_ops \<Rightarrow> inmem_dataset \<Rightarrow> f32 list list \<Rightarrow> bool" where
  "prune_setup srt F D rows \<longleftrightarrow>
     neighbor_sort srt \<and> aligned_dataset D rows \<and> length rows < 2 ^ 32 \<and>
     po_mul F f32_one FINAL_PRUNE_ALPHA = FINAL_PRUNE_ALPHA \<and>
     f32_lt FINAL_PRUNE_ALPHA (po_mul F FINAL_PRUNE_ALPHA FINAL_PRUNE_ALPHA)"

definition reference_row ::
  "(neighbor list \<Rightarrow> neighbor list) \<Rightarrow> prune_ops \<Rightarrow> inmem_dataset \<Rightarrow> f32 list list \<Rightarrow> metric \<Rightarrow> usize \<Rightarrow> usize \<Rightarrow>
   u32 list \<Rightarrow> u32 list" where
  "reference_row srt F D rows metric max_degree vid row =
     robust_reference (final_prune_env F D metric max_degree (word_of_nat vid))
       (take FINAL_PRUNE_MAX_OCCLUSION_SIZE (srt (row_candidates F (ds_dim D) rows vid row)))"

lemma neighbor_sort_set: "neighbor_sort srt \<Longrightarrow> set (srt ps) = set ps"
  by (metis neighbor_sort_def set_mset_mset)

lemma neighbor_sort_length: "neighbor_sort srt \<Longrightarrow> length (srt ps) = length ps"
  by (metis neighbor_sort_def size_mset)

lemma final_prune_env_sel [simp]:
  "pv_dist (final_prune_env F D m k v) = dataset_get_distance F D" "pv_metric (final_prune_env F D m k v) = m"
  "pv_location (final_prune_env F D m k v) = v" "pv_max_degree (final_prune_env F D m k v) = k"
  by (simp_all add: final_prune_env_def)

lemma setup_two_rounds: "prune_setup srt F D rows \<Longrightarrow> two_rounds (final_prune_env F D m k v)"
  by (simp add: prune_setup_def two_rounds_def final_prune_env_def)

lemma prune_one_pool:
  assumes s: "prune_setup srt F D rows" and vid: "vid < length rows"
    and row: "row \<noteq> []" "\<forall>nid \<in> set row. unat nid < length rows"
  shows "prune_one srt F D m k vid row =
    robust_prune_candidates srt (final_prune_env F D m k (word_of_nat vid))
      (row_candidates F (ds_dim D) rows vid row) FINAL_PRUNE_MAX_OCCLUSION_SIZE True"
proof -
  have u: "unat (word_of_nat vid :: u32) = vid"
    using s vid by (intro unat_word_of_nat_u32) (simp add: prune_setup_def)
  have D: "aligned_dataset D rows" using s by (simp add: prune_setup_def)
  then obtain query where q: "get_vertex D (word_of_nat vid) = Inr query"
    using get_mapped_vertex [of D rows "word_of_nat vid"] vid u by (auto simp: aligned_dataset_def)
  show ?thesis
    using row_pool_candidates [OF D _ q row(2), of F m] row(1) vid u q
    by (simp add: prune_one_def FINAL_PRUNE_SATURATE_def)
qed

lemma prune_one_reference:
  assumes s: "prune_setup srt F D rows" and m: "m \<noteq> Ip" and vid: "vid < length rows"
    and row: "\<forall>nid \<in> set row. unat nid < length rows"
  shows "prune_one srt F D m k vid row = Some (Inr (reference_row srt F D rows m k vid row))"
proof (cases "row = []")
  case True
  have "srt [] = []" using neighbor_sort_set [of srt "[]"] s by (simp add: prune_setup_def)
  then show ?thesis
    using True by (simp add: prune_one_def reference_row_def row_candidates_def robust_reference_def
        robust_choice_def)
next
  case False
  have v: "\<forall>p \<in> set (row_candidates F (ds_dim D) rows vid row).
      aligned_dataset D rows \<and> unat (nb_id p) < length rows"
    using row s by (auto simp: row_candidates_def neighbor_new_def prune_setup_def)
  show ?thesis
    unfolding prune_one_pool [OF s vid False row] reference_row_def
    using s by (intro mapped_distance.robust_prune_is_reference [OF _ _ setup_two_rounds [OF s] v])
      (simp_all add: m prune_setup_def)
qed

lemma reference_row_ok:
  fixes m :: metric and k vid :: usize
  assumes s: "prune_setup srt F D rows" and d: "distinct row"
  defines "edges \<equiv> reference_row srt F D rows m k vid row"
  shows "distinct edges" and "set edges \<subseteq> set row - {word_of_nat vid}" and "length edges \<le> k"
    and "length row \<le> FINAL_PRUNE_MAX_OCCLUSION_SIZE \<Longrightarrow> length edges = min k (card (set row - {word_of_nat vid}))"
proof -
  let ?ps = "row_candidates F (ds_dim D) rows vid row"
  let ?pool = "take FINAL_PRUNE_MAX_OCCLUSION_SIZE (srt ?ps)"
  have srt: "neighbor_sort srt" using s by (simp add: prune_setup_def)
  have "mset (map nb_id (srt ?ps)) = mset (map nb_id ?ps)"
    using srt by (metis neighbor_sort_def mset_map)
  then have "distinct (map nb_id (srt ?ps))"
    using d mset_eq_imp_distinct_iff by fastforce
  then have dp: "distinct (map nb_id ?pool)" by (simp add: take_map [symmetric])
  have sub: "nb_id ` set ?pool \<subseteq> set row"
    using image_mono [OF set_take_subset, of nb_id FINAL_PRUNE_MAX_OCCLUSION_SIZE "srt ?ps"]
    by (simp add: neighbor_sort_set [OF srt])
  note r = robust_reference_row [OF dp, of "final_prune_env F D m k (word_of_nat vid)"]
  show "distinct edges" "set edges \<subseteq> set row - {word_of_nat vid}" "length edges \<le> k"
    using r sub by (auto simp: edges_def reference_row_def)
  assume "length row \<le> FINAL_PRUNE_MAX_OCCLUSION_SIZE"
  then have "?pool = srt ?ps"
    using neighbor_sort_length [OF srt, of ?ps] by (simp add: row_candidates_def)
  then show "length edges = min k (card (set row - {word_of_nat vid}))"
    using r(3) neighbor_sort_set [OF srt, of ?ps] by (simp add: edges_def reference_row_def)
qed

lemma prune_rows_in_order_ok:
  assumes "\<forall>i \<in> set vids. i < length rows \<and> one i (rows ! i) = Some (Inr (g i))" "distinct vids"
  shows "prune_rows_in_order one vids rows =
    Some (map (\<lambda>i. if i \<in> set vids then g i else rows ! i) [0..<length rows], Inr ())"
  using assms
proof (induction vids arbitrary: rows)
  case Nil
  then show ?case by (simp add: map_nth)
next
  case (Cons i vids)
  let ?rows = "rows[i := g i]"
  have "\<forall>j \<in> set vids. j < length ?rows \<and> one j (?rows ! j) = Some (Inr (g j))"
    using Cons.prems by (auto simp: nth_list_update)
  from Cons.IH [OF this] show ?case
    using Cons.prems by (auto simp: nth_list_update intro!: map_cong)
qed

section \<open>Opening the data set\<close>

lemma set_memory_mapped_fbin:
  assumes "0 < d" "d < 2 ^ 32" "length rows < 2 ^ 32" "\<forall>r \<in> set rows. length r = d"
    "8 + 4 * (length rows * d) < 2 ^ 64"
  shows "\<exists>D. set_memory_mapped (fbin_bytes d rows) (dataset_new_memory_mapped n d) = Inr D \<and>
    maps_rows D rows \<and> ds_dim D = d \<and> ds_num_points D = length rows"
proof -
  let ?f = "fbin_bytes d rows"
  have len: "length ?f = 8 + 4 * (length rows * d)"
    using assms(4) by (simp add: length_fbin_bytes length_concat_rows del: length_concat)
  have "(length ?f + 2 ^ 64 - 8) mod 2 ^ 64 = 4 * (length rows * d)"
  proof -
    have "length ?f + 2 ^ 64 - 8 = 4 * (length rows * d) + 2 ^ 64" unfolding len by simp
    then show ?thesis using assms(5) by simp
  qed
  then have rows: "(length ?f + 2 ^ 64 - 8) mod 2 ^ 64 div (d * 4) = length rows"
    using assms(1) by (simp add: mult.commute [of 4] mult.assoc)
  have "take 4 ?f = le32 (word_of_nat (length rows))" "take 4 (drop 4 ?f) = le32 (word_of_nat d)"
    by (simp_all add: fbin_bytes_def)
  then show ?thesis
    unfolding set_memory_mapped_def Let_def
    using assms(1,4) unat_word_of_nat_u32 [OF assms(2)] unat_word_of_nat_u32 [OF assms(3)] rows len
    by (simp add: dataset_new_memory_mapped_def maps_rows_def)
qed

section \<open>The order of the candidates\<close>

definition neighbor_key :: "neighbor \<Rightarrow> int" where
  "neighbor_key p = f32_key (nb_distance p) * 2 ^ 32 + uint (nb_id p)"

lemma neighbor_cmp_key:
  assumes "\<not> f32_is_nan (nb_distance a)" "\<not> f32_is_nan (nb_distance b)"
  shows "neighbor_cmp a b = cmp (neighbor_key a) (neighbor_key b)"
proof -
  have id: "0 \<le> uint (nb_id p)" "uint (nb_id p) < 2 ^ 32" for p
    using uint_bounded [of "nb_id p"] by simp_all
  let ?x = "f32_key (nb_distance a)" and ?y = "f32_key (nb_distance b)"
  have gap: "x < y \<Longrightarrow> x * 2 ^ 32 + 2 ^ 32 \<le> y * 2 ^ 32" for x y :: int
    using mult_right_mono [of "x + 1" y "2 ^ 32"] by (simp add: algebra_simps)
  consider "?x < ?y" | "?x = ?y" | "?y < ?x" by linarith
  then show ?thesis
  proof cases
    case 1
    then have "neighbor_key a < neighbor_key b"
      unfolding neighbor_key_def using gap [OF 1] id [of a] id [of b] by linarith
    then show ?thesis using 1 assms by (simp add: neighbor_cmp_def Let_def f32_cmp_or_equal_key cmp_def)
  next
    case 2
    then show ?thesis using assms
      by (simp add: neighbor_cmp_def Let_def f32_cmp_or_equal_key cmp_def neighbor_key_def word_less_def word_uint_eq_iff)
  next
    case 3
    then have "neighbor_key b < neighbor_key a"
      unfolding neighbor_key_def using gap [OF 3] id [of a] id [of b] by linarith
    then show ?thesis using 3 assms by (simp add: neighbor_cmp_def Let_def f32_cmp_or_equal_key cmp_def)
  qed
qed

lemma neighbor_sort_sort_by: "neighbor_sort (sort_by neighbor_cmp)"
  unfolding neighbor_sort_def
proof (intro allI conjI impI)
  fix xs :: "neighbor list" assume fin: "\<forall>p \<in> set xs. \<not> f32_is_nan (nb_distance p)"
  have "sort_by neighbor_cmp xs = sort_key neighbor_key xs"
    using fin by (intro sort_by_key neighbor_cmp_key) auto
  moreover have "sorted_wrt (\<lambda>a b. neighbor_key a \<le> neighbor_key b) (sort_key neighbor_key xs)"
    using sorted_sort_key [of neighbor_key xs] by (simp add: sorted_map)
  ultimately show "sorted_wrt (\<lambda>a b. neighbor_cmp a b \<noteq> Greater) (sort_by neighbor_cmp xs)"
    using fin by (auto elim!: sorted_wrt_mono_rel [rotated] simp: neighbor_cmp_key)
qed simp

section \<open>Properties\<close>

text \<open>A small setting: integer arithmetic on the bit patterns, sixteen lanes, three rows.\<close>

definition demo_prune_ops :: prune_ops where
  "demo_prune_ops = \<lparr>po_sub = (-), po_fmadd = (\<lambda>a b c. a * b + c), po_reduce_add = sum_list,
     po_div = (\<lambda>a b. a), po_mul = (\<lambda>a b. if a = f32_one then b else 0x3fb851ec)\<rparr>"

definition demo_prune_rows :: "f32 list list" where
  "demo_prune_rows = map (\<lambda>x. x # replicate 15 0) [0, 1, 3]"

definition demo_dataset :: "nat \<Rightarrow> f32 list list \<Rightarrow> inmem_dataset" where
  "demo_dataset d rows =
     \<lparr>ds_data = [], ds_mmap = Some (fbin_bytes d rows), ds_num_points = length rows,
      ds_num_active = length rows, ds_capacity = length rows * d, ds_dim = d, ds_is_mapped = True\<rparr>"

lemma demo_prune_setup:
  "prune_setup (sort_by neighbor_cmp) demo_prune_ops (demo_dataset 16 demo_prune_rows) demo_prune_rows"
proof -
  have "FINAL_PRUNE_ALPHA \<noteq> f32_one" by code_simp
  moreover have "f32_lt FINAL_PRUNE_ALPHA 0x3fb851ec" by code_simp
  ultimately show ?thesis
    using neighbor_sort_sort_by
    by (simp add: prune_setup_def aligned_dataset_def maps_rows_def demo_dataset_def demo_prune_rows_def
        demo_prune_ops_def)
qed

text \<open>C22: A row of the graph is pruned to exactly what the reference chooses from its (at most 750 nearest)
  candidates: the loop with the occlusion factors ends after its two rounds and agrees with the greedy
  choice by \<open>occludes\<close>, cut to the degree bound and filled up with the remaining candidates in order.\<close>

theorem prune_one_is_reference:
  assumes "prune_setup srt F D rows" "metric \<noteq> Ip" "vid < length rows"
    "\<forall>nid \<in> set row. unat nid < length rows"
  shows "prune_one srt F D metric max_degree vid row =
    Some (Inr (robust_reference (final_prune_env F D metric max_degree (word_of_nat vid))
      (take 750 (srt (row_candidates F (ds_dim D) rows vid row)))))"
  using prune_one_reference [OF assms]
  by (simp add: reference_row_def FINAL_PRUNE_MAX_OCCLUSION_SIZE_def)

theorem prune_one_is_reference_witness:
  "prune_one (sort_by neighbor_cmp) demo_prune_ops (demo_dataset 16 demo_prune_rows) L2 2 0 [1, 2] =
    Some (Inr (robust_reference (final_prune_env demo_prune_ops (demo_dataset 16 demo_prune_rows) L2 2 0)
      (take 750 (sort_by neighbor_cmp (row_candidates demo_prune_ops 16 demo_prune_rows 0 [1, 2])))))"
  using prune_one_is_reference [OF demo_prune_setup, of L2 0 "[1, 2]" 2]
  by (simp add: demo_prune_rows_def demo_dataset_def)

text \<open>C23: The final prune of a graph returns, whatever the order in which the threads reach the rows, and
  every row it leaves is duplicate-free, has no self-loop, contains only candidates of its old row and
  has exactly \<open>min max_degree\<close> (number of its other candidates) entries.\<close>

theorem final_prune_rows_valid:
  assumes s: "prune_setup srt F D rows" and m: "metric \<noteq> Ip" and len: "length graph = length rows"
    and sched: "mset (schedule (length graph)) = mset [0..<length graph]"
    and graph: "\<forall>row \<in> set graph. distinct row \<and> length row \<le> 750 \<and> (\<forall>nid \<in> set row. unat nid < length rows)"
  shows "\<exists>graph'. final_robust_prune_rows srt F D schedule graph max_degree metric num_threads = Some (graph', Inr ()) \<and>
    length graph' = length graph \<and>
    (\<forall>vid < length graph. distinct (graph' ! vid) \<and>
       set (graph' ! vid) \<subseteq> set (graph ! vid) - {word_of_nat vid} \<and>
       length (graph' ! vid) = min max_degree (card (set (graph ! vid) - {word_of_nat vid})))"
proof -
  define order where "order = (if num_threads = 1 then [0..<length graph] else schedule (length graph))"
  define g where "g i = reference_row srt F D rows metric max_degree i (graph ! i)" for i
  have "set (schedule (length graph)) = {0..<length graph}" "distinct (schedule (length graph))"
    using mset_eq_setD [OF sched] mset_eq_imp_distinct_iff [OF sched] by simp_all
  then have order: "set order = {0..<length graph}" "distinct order" by (simp_all add: order_def)
  have row: "distinct (graph ! i)" "length (graph ! i) \<le> 750" "\<forall>nid \<in> set (graph ! i). unat nid < length rows"
    if "i < length graph" for i
    using that graph nth_mem by blast+
  have "final_robust_prune_rows srt F D schedule graph max_degree metric num_threads =
      Some (map (\<lambda>i. if i \<in> set order then g i else graph ! i) [0..<length graph], Inr ())"
    unfolding final_robust_prune_rows_def order_def [symmetric]
    using order row len by (intro prune_rows_in_order_ok) (simp_all add: g_def prune_one_reference [OF s m])
  moreover have "g i = map (\<lambda>i. if i \<in> set order then g i else graph ! i) [0..<length graph] ! i"
    if "i < length graph" for i using that order by simp
  ultimately show ?thesis
    using reference_row_ok [OF s row(1)] row(2)
    by (intro exI [of _ "map (\<lambda>i. if i \<in> set order then g i else graph ! i) [0..<length graph]"])
      (simp add: order(1) g_def FINAL_PRUNE_MAX_OCCLUSION_SIZE_def)
qed

theorem final_prune_rows_valid_witness:
  "\<exists>graph'. final_robust_prune_rows (sort_by neighbor_cmp) demo_prune_ops (demo_dataset 16 demo_prune_rows)
     (\<lambda>n. rev [0..<n]) [[1, 2], [2, 1, 0], []] 1 L2 4 = Some (graph', Inr ()) \<and> length graph' = 3 \<and>
    length (graph' ! 1) = 1 \<and> set (graph' ! 1) \<subseteq> {2, 0}"
proof -
  have r: "length demo_prune_rows = 3" by (simp add: demo_prune_rows_def)
  obtain graph' where g: "final_robust_prune_rows (sort_by neighbor_cmp) demo_prune_ops (demo_dataset 16 demo_prune_rows)
     (\<lambda>n. rev [0..<n]) [[1, 2], [2, 1, 0], []] 1 L2 4 = Some (graph', Inr ())" "length graph' = 3"
    "\<forall>vid < 3. distinct (graph' ! vid) \<and>
       set (graph' ! vid) \<subseteq> set ([[1, 2], [2, 1, 0], []] ! vid) - {word_of_nat vid} \<and>
       length (graph' ! vid) = min 1 (card (set ([[1, 2], [2, 1, 0], []] ! vid) - {word_of_nat vid :: u32}))"
    using final_prune_rows_valid [OF demo_prune_setup, of L2 "[[1, 2], [2, 1, 0], []]" "\<lambda>n. rev [0..<n]" 1 4]
    by (auto simp: r)
  have "{2, 1, 0} - {word_of_nat 1 :: u32} = {2, 0}" by auto
  then show ?thesis using g g(3) [rule_format, of 1] by auto
qed

text \<open>With the inner-product metric, which the build configuration lets through, the prune of a row with at least two
  candidates is an error, and a row with a single candidate passes unchecked.\<close>

theorem final_prune_rejects_ip:
  assumes s: "prune_setup srt F D rows" and vid: "vid < length rows"
    and row: "\<forall>nid \<in> set row. unat nid < length rows" and k: "0 < max_degree"
  shows "prune_one srt F D Ip max_degree vid row =
    Some (if length row < 2 then Inr (filter (\<lambda>nid. nid \<noteq> word_of_nat vid) row) else Inl ip_error)"
proof (cases "row = []")
  case True
  then show ?thesis by (simp add: prune_one_def)
next
  case False
  let ?E = "final_prune_env F D Ip max_degree (word_of_nat vid)"
  let ?ps = "row_candidates F (ds_dim D) rows vid row"
  have srt: "neighbor_sort srt" and D: "aligned_dataset D rows" using s by (simp_all add: prune_setup_def)
  have ids: "\<forall>p \<in> set (srt ?ps). unat (nb_id p) < length rows"
    using row row_candidates_id_set [of F "ds_dim D" rows vid row] neighbor_sort_set [OF srt, of ?ps] by blast
  have two: "two_rounds ?E" by (rule setup_two_rounds [OF s])
  have len: "length (srt ?ps) = length row" using neighbor_sort_length [OF srt] by (simp add: row_candidates_def)
  show ?thesis
  proof (cases "length row < 2")
    case True
    then obtain nid where nid: "row = [nid]" using False by (cases row) auto
    then have "mset (srt ?ps) = {#neighbor_new nid (flat_distance F (ds_dim D) (rows ! vid) (rows ! unat nid))#}"
      using srt by (simp add: neighbor_sort_def row_candidates_def)
    then obtain p where p: "srt ?ps = [p]" "nb_id p = nid" by (auto simp: neighbor_new_def)
    show ?thesis
      unfolding prune_one_pool [OF s vid False row]
      using two k p nid
      by (simp add: robust_prune_candidates_def Let_def prune_loop.simps two_rounds_def FINAL_PRUNE_MAX_OCCLUSION_SIZE_def
          row_candidates_def f32_lt_not_le)
  next
    case two_ids: False
    then obtain p q ps where p: "take 750 (srt ?ps) = p # q # ps"
      using len by (cases "srt ?ps"; cases "tl (srt ?ps)") (auto simp: take_Cons')
    obtain d where d: "dataset_get_distance F D Ip (nb_id q) (nb_id p) = Inr d"
      using aligned_distance [OF D] ids in_set_takeD [of _ 750 "srt ?ps"] p by (metis list.set_intros)
    show ?thesis
      unfolding prune_one_pool [OF s vid False row]
      using two_ids two k p d False
      by (simp add: robust_prune_candidates_def Let_def prune_loop.simps two_rounds_def FINAL_PRUNE_MAX_OCCLUSION_SIZE_def
          row_candidates_def)
  qed
qed

theorem final_prune_rejects_ip_witness:
  "prune_one (sort_by neighbor_cmp) demo_prune_ops (demo_dataset 16 demo_prune_rows) Ip 2 0 [1, 2] =
    Some (Inl ip_error)"
  using final_prune_rejects_ip [OF demo_prune_setup, of 0 "[1, 2]" 2] by (simp add: demo_prune_rows_def)


end
