(* ===== verification/LeafBuild.thy ===== *)
theory LeafBuild
  imports Leaves SpillReduce SpineOverlay
begin

text \<open>
  Leaf construction (\<^verbatim>\<open>leaf_build.rs\<close>): the points of a leaf are read, every point keeps its
  \<open>leaf_knn\<close> nearest others (\<open>RowTopK\<close>), and each kept pair becomes a direct and a mirrored
  candidate edge that is hashed and handed to the sink in batches. The three kernels are the full
  distance matrix, the blockwise matrix for large leaves, and the parallel kernel; \<open>leaf_reference\<close>
  says which edges they hand out.

  Parameters: \<open>f32\<close> arithmetic, \<open>general_mat_mul\<close>, the dot product of a row with itself
  (\<open>lb_norm\<close>), the readers, and the ADSampling operator that replaces the kernels for leaves of at
  least 513 points (\<open>lb_adsampling\<close>, nothing is assumed of it). The sinks modelled do not ask for
  lune witnesses, so no witness leaves a kernel; times and counters are left out.
\<close>

section \<open>\<open>RowTopK\<close>\<close>

type_synonym neighbour = "usize \<times> f32"

record row_topk =
  rk_buf :: "neighbour list"
  rk_len :: usize

definition row_topk_default :: row_topk where
  "row_topk_default = \<lparr>rk_buf = replicate 32 (0, f32_infinity), rk_len = 0\<rparr>"

definition row_topk_clear :: "row_topk \<Rightarrow> row_topk" where
  "row_topk_clear t = t\<lparr>rk_len := 0\<rparr>"

text \<open>The inner loop of the insertion: entries that are farther move one place right.\<close>

fun shift_in :: "nat \<Rightarrow> usize \<Rightarrow> f32 \<Rightarrow> neighbour list \<Rightarrow> neighbour list" where
  "shift_in 0 idx dist buf = buf[0 := (idx, dist)]"
| "shift_in (Suc i) idx dist buf =
     (if f32_lt dist (snd (buf ! i)) then shift_in i idx dist (buf[Suc i := buf ! i])
      else buf[Suc i := (idx, dist)])"

definition row_topk_push :: "usize \<Rightarrow> usize \<Rightarrow> f32 \<Rightarrow> row_topk \<Rightarrow> row_topk result" where
  "row_topk_push k idx dist t =
     (if k = 0 then Inr t
      else if rk_len t < k then
        (if length (rk_buf t) \<le> rk_len t then Inl index_panic
         else Inr (t\<lparr>rk_buf := shift_in (rk_len t) idx dist (rk_buf t), rk_len := rk_len t + 1\<rparr>))
      else if length (rk_buf t) < k then Inl index_panic
      else if f32_le (snd (rk_buf t ! (k - 1))) dist then Inr t
      else Inr (t\<lparr>rk_buf := shift_in (k - 1) idx dist (rk_buf t)\<rparr>))"

definition row_topk_slice :: "row_topk \<Rightarrow> neighbour list" where
  "row_topk_slice t = take (rk_len t) (rk_buf t)"

section \<open>The environment of a leaf\<close>

record leaf_env =
  lb_f32 :: f32_ops
  lb_norm :: "f32 list \<Rightarrow> f32"
  lb_mat_mul :: mat_mul
  lb_dim :: usize
  lb_gather :: "gather_options \<Rightarrow> gather"
  lb_distance :: "metric \<Rightarrow> distance"
  lb_sketch_width :: usize
  lb_read_sketches :: "gather_options \<Rightarrow> gather"
  lb_adsampling :: "f32 list \<Rightarrow> usize \<Rightarrow> usize \<Rightarrow> usize \<Rightarrow> neighbour list list result"
  lb_ads_group_dims :: usize
  lb_leaf_knn :: usize
  lb_max_full_matrix_leaf_size :: usize
  lb_m_hash_bits :: nat

definition LEAF_ADSAMPLING_MIN_SIZE :: usize where
  "LEAF_ADSAMPLING_MIN_SIZE = 513"

definition default_leaf_point_read_options :: "usize \<Rightarrow> usize \<Rightarrow> gather_options" where
  "default_leaf_point_read_options dim rows =
     (let row_bytes = sat_mul dim 4
      in \<lparr>go_max_gap_rows = (if row_bytes \<le> 4096 then 1 else 0),
          go_max_window_bytes = max (min (sat_mul row_bytes (max rows 1)) (4 * 1024 * 1024)) (256 * 1024),
          go_alignment_bytes = 4096, go_sort_ids = True\<rparr>)"

definition leaf_sketch_read_options :: "usize \<Rightarrow> usize \<Rightarrow> gather_options" where
  "leaf_sketch_read_options width rows =
     (let row_bytes = sat_mul width 4
      in \<lparr>go_max_gap_rows = (if row_bytes \<le> 4096 then 1 else 0),
          go_max_window_bytes = max (min (sat_mul row_bytes (max rows 1)) (2 * 1024 * 1024)) (128 * 1024),
          go_alignment_bytes = 4096, go_sort_ids = True\<rparr>)"

text \<open>\<open>LeafSketchCache\<close> is the flat matrix of the leaf's sketches.\<close>

definition sketch_cache_prefetch :: "leaf_env \<Rightarrow> u32 list \<Rightarrow> f32 list result" where
  "sketch_cache_prefetch E leaf =
     lb_read_sketches E (leaf_sketch_read_options (lb_sketch_width E) (length leaf)) leaf
       (replicate (length leaf * lb_sketch_width E) f32_zero)"

definition sketch_cache_row :: "leaf_env \<Rightarrow> f32 list \<Rightarrow> usize \<Rightarrow> f32 list result" where
  "sketch_cache_row E cache local_idx =
     (let start = local_idx * lb_sketch_width E
      in if length cache < start + lb_sketch_width E then Inl index_panic
         else Inr (take (lb_sketch_width E) (drop start cache)))"

definition read_leaf_points :: "leaf_env \<Rightarrow> u32 list \<Rightarrow> f32 list result" where
  "read_leaf_points E leaf =
     lb_gather E (default_leaf_point_read_options (lb_dim E) (length leaf)) leaf
       (replicate (length leaf * lb_dim E) f32_zero)"

definition leaf_rows :: "leaf_env \<Rightarrow> f32 list \<Rightarrow> f32 list list" where
  "leaf_rows E flat = map (\<lambda>i. take (lb_dim E) (drop (i * lb_dim E) flat)) [0..<length flat div lb_dim E]"

definition should_use_leaf_adsampling_executor :: "leaf_env \<Rightarrow> metric \<Rightarrow> usize \<Rightarrow> bool" where
  "should_use_leaf_adsampling_executor E metric leaf_size \<longleftrightarrow>
     metric = L2 \<and> LEAF_ADSAMPLING_MIN_SIZE \<le> leaf_size \<and> 0 < lb_ads_group_dims E \<and> 1 < leaf_size"

section \<open>Distances\<close>

definition leaf_dist2 :: "f32_ops \<Rightarrow> f32 \<Rightarrow> f32 \<Rightarrow> f32 \<Rightarrow> f32" where
  "leaf_dist2 F norm_i norm_j gram_ij =
     (let dist2 = fo_sub F (fo_add F norm_i norm_j) (fo_mul F f32_two gram_ij)
      in if f32_lt dist2 f32_zero then f32_zero else dist2)"

text \<open>A block of rows of the matrix of squared distances, from the products of the block with all rows.\<close>

definition distance_block :: "leaf_env \<Rightarrow> f32 list list \<Rightarrow> f32 list list \<Rightarrow> f32 list list" where
  "distance_block E block rows =
     map (\<lambda>(norm_i, grams). map (\<lambda>(norm_j, gram_ij). leaf_dist2 (lb_f32 E) norm_i norm_j gram_ij)
         (zip (map (lb_norm E) rows) grams))
       (zip (map (lb_norm E) block) (lb_mat_mul E block rows))"

text \<open>The matrix of the other metrics: every pair once, written in both places.\<close>

definition set_entry :: "nat \<Rightarrow> nat \<Rightarrow> f32 \<Rightarrow> f32 list list \<Rightarrow> f32 list list" where
  "set_entry i j d m = m[i := (m ! i)[j := d]]"

fun pair_distances :: "distance \<Rightarrow> u32 \<Rightarrow> nat \<Rightarrow> nat \<Rightarrow> u32 list \<Rightarrow> f32 list list \<Rightarrow> f32 list list result" where
  "pair_distances dist i_global i j [] m = Inr m"
| "pair_distances dist i_global i j (j_global # js) m =
     res_bind (dist i_global j_global) (\<lambda>d.
     pair_distances dist i_global i (Suc j) js (set_entry j i d (set_entry i j d m)))"

fun all_pair_distances :: "distance \<Rightarrow> nat \<Rightarrow> u32 list \<Rightarrow> f32 list list \<Rightarrow> f32 list list result" where
  "all_pair_distances dist i [] m = Inr m"
| "all_pair_distances dist i (i_global # is) m =
     res_bind (pair_distances dist i_global i (Suc i) is m) (all_pair_distances dist (Suc i) is)"

section \<open>The nearest of every row\<close>

fun push_row :: "usize \<Rightarrow> nat \<Rightarrow> nat \<Rightarrow> f32 list \<Rightarrow> row_topk \<Rightarrow> row_topk result" where
  "push_row k i j [] t = Inr t"
| "push_row k i j (d # ds) t =
     res_bind (if j \<noteq> i then row_topk_push k j d t else Inr t) (push_row k i (Suc j) ds)"

fun push_matrix :: "usize \<Rightarrow> nat \<Rightarrow> f32 list list \<Rightarrow> row_topk list result" where
  "push_matrix k i [] = Inr []"
| "push_matrix k i (row # rows) =
     res_bind (push_row k i 0 row row_topk_default) (\<lambda>t.
     res_bind (push_matrix k (Suc i) rows) (\<lambda>ts. Inr (t # ts)))"

text \<open>The same with the distances taken one by one.\<close>

fun push_scalar :: "distance \<Rightarrow> usize \<Rightarrow> u32 \<Rightarrow> nat \<Rightarrow> nat \<Rightarrow> u32 list \<Rightarrow> row_topk \<Rightarrow> row_topk result" where
  "push_scalar dist k i_global i j [] t = Inr t"
| "push_scalar dist k i_global i j (j_global # js) t =
     res_bind (if i = j then Inr t
               else res_bind (dist i_global j_global) (\<lambda>d. row_topk_push k j d t))
       (push_scalar dist k i_global i (Suc j) js)"

fun push_scalar_rows :: "distance \<Rightarrow> usize \<Rightarrow> u32 list \<Rightarrow> nat \<Rightarrow> u32 list \<Rightarrow> row_topk list result" where
  "push_scalar_rows dist k leaf i [] = Inr []"
| "push_scalar_rows dist k leaf i (i_global # is) =
     res_bind (push_scalar dist k i_global i 0 leaf row_topk_default) (\<lambda>t.
     res_bind (push_scalar_rows dist k leaf (Suc i) is) (\<lambda>ts. Inr (t # ts)))"

section \<open>Edges and batches\<close>

definition local_rank_of :: "usize \<Rightarrow> u8" where
  "local_rank_of rank = word_of_nat (min (sat_add rank 1) 255)"

definition edge_pair :: "leaf_env \<Rightarrow> u32 list \<Rightarrow> f32 list \<Rightarrow> nat \<Rightarrow> f32 list \<Rightarrow> usize \<Rightarrow> neighbour \<Rightarrow> pending_edge list result" where
  "edge_pair E leaf cache i_local sketch_i rank nb =
     (let (j_local, d) = nb in
      if length leaf \<le> j_local then Inl index_panic
      else
        res_bind (sketch_cache_row E cache j_local) (\<lambda>sketch_j.
        res_bind (compute_hash sketch_i sketch_j (lb_m_hash_bits E)) (\<lambda>hash_ij.
        res_bind (compute_hash sketch_j sketch_i (lb_m_hash_bits E)) (\<lambda>hash_ji.
        Inr [\<lparr>e_p = unat (leaf ! i_local), e_c = leaf ! j_local, e_hash = hash_ij, e_dist = d, e_mandatory = False,
              e_local_rank = local_rank_of rank, e_flags = PENDING_EDGE_DIRECT\<rparr>,
             \<lparr>e_p = unat (leaf ! j_local), e_c = leaf ! i_local, e_hash = hash_ji, e_dist = d, e_mandatory = False,
              e_local_rank = local_rank_of rank, e_flags = PENDING_EDGE_MIRROR\<rparr>]))))"

fun row_edges :: "leaf_env \<Rightarrow> u32 list \<Rightarrow> f32 list \<Rightarrow> nat \<Rightarrow> f32 list \<Rightarrow> usize \<Rightarrow> neighbour list \<Rightarrow> pending_edge list result" where
  "row_edges E leaf cache i sketch_i rank [] = Inr []"
| "row_edges E leaf cache i sketch_i rank (nb # nbs) =
     res_bind (edge_pair E leaf cache i sketch_i rank nb) (\<lambda>es.
     res_bind (row_edges E leaf cache i sketch_i (Suc rank) nbs) (\<lambda>es'. Inr (es @ es')))"

type_synonym 'st edge_flush = "pending_edge list \<Rightarrow> 'st \<Rightarrow> 'st result"

definition FLUSH_EDGES :: usize where
  "FLUSH_EDGES = 16384"

text \<open>The rows' edges go to the scratch buffer, which is flushed after a row that fills it.\<close>

fun emit_rows ::
  "leaf_env \<Rightarrow> 'st edge_flush \<Rightarrow> u32 list \<Rightarrow> f32 list \<Rightarrow> nat \<Rightarrow> neighbour list list \<Rightarrow> pending_edge list \<times> 'st \<Rightarrow>
   (pending_edge list \<times> 'st) result" where
  "emit_rows E flush leaf cache i [] (edges, st) = Inr (edges, st)"
| "emit_rows E flush leaf cache i (nbs # rows) (edges, st) =
     res_bind (sketch_cache_row E cache i) (\<lambda>sketch_i.
     res_bind (row_edges E leaf cache i sketch_i 0 nbs) (\<lambda>es.
       let edges = edges @ es in
       if FLUSH_EDGES \<le> length edges
       then res_bind (flush edges st) (\<lambda>st. emit_rows E flush leaf cache (Suc i) rows ([], st))
       else emit_rows E flush leaf cache (Suc i) rows (edges, st)))"

definition hash_and_flush ::
  "leaf_env \<Rightarrow> 'st edge_flush \<Rightarrow> u32 list \<Rightarrow> neighbour list list \<Rightarrow> pending_edge list \<Rightarrow> 'st \<Rightarrow>
   (pending_edge list \<times> 'st) result" where
  "hash_and_flush E flush leaf topk edges st =
     res_bind (sketch_cache_prefetch E leaf) (\<lambda>cache.
     res_bind (emit_rows E flush leaf cache 0 topk (edges, st)) (\<lambda>(edges, st).
     res_bind (flush edges st) (\<lambda>st. Inr ([], st))))"

text \<open>\<open>emit_row_topk_edges\<close>: the same for the ADSampling result, with the check after every pair.\<close>

fun emit_pairs ::
  "leaf_env \<Rightarrow> 'st edge_flush \<Rightarrow> u32 list \<Rightarrow> f32 list \<Rightarrow> nat \<Rightarrow> f32 list \<Rightarrow> usize \<Rightarrow> neighbour list \<Rightarrow>
   pending_edge list \<times> 'st \<Rightarrow> (pending_edge list \<times> 'st) result" where
  "emit_pairs E flush leaf cache i sketch_i rank [] (edges, st) = Inr (edges, st)"
| "emit_pairs E flush leaf cache i sketch_i rank (nb # nbs) (edges, st) =
     res_bind (edge_pair E leaf cache i sketch_i rank nb) (\<lambda>es.
       let edges = edges @ es in
       if FLUSH_EDGES \<le> length edges
       then res_bind (flush edges st) (\<lambda>st. emit_pairs E flush leaf cache i sketch_i (Suc rank) nbs ([], st))
       else emit_pairs E flush leaf cache i sketch_i (Suc rank) nbs (edges, st))"

fun emit_pair_rows ::
  "leaf_env \<Rightarrow> 'st edge_flush \<Rightarrow> u32 list \<Rightarrow> f32 list \<Rightarrow> nat \<Rightarrow> nat \<Rightarrow> neighbour list list \<Rightarrow> pending_edge list \<times> 'st \<Rightarrow>
   (pending_edge list \<times> 'st) result" where
  "emit_pair_rows E flush leaf cache i 0 row_topk s = Inr s"
| "emit_pair_rows E flush leaf cache i (Suc n) row_topk s =
     res_bind (sketch_cache_row E cache i) (\<lambda>sketch_i.
       if length row_topk \<le> i then Inl index_panic
       else res_bind (emit_pairs E flush leaf cache i sketch_i 0 (row_topk ! i) s)
              (emit_pair_rows E flush leaf cache (Suc i) n row_topk))"

definition emit_row_topk_edges ::
  "leaf_env \<Rightarrow> 'st edge_flush \<Rightarrow> u32 list \<Rightarrow> neighbour list list \<Rightarrow> 'st \<Rightarrow> 'st result" where
  "emit_row_topk_edges E flush leaf row_topk st =
     res_bind (sketch_cache_prefetch E leaf) (\<lambda>cache.
     res_bind (emit_pair_rows E flush leaf cache 0 (length leaf) row_topk ([], st)) (\<lambda>(edges, st).
     flush edges st))"

section \<open>The kernels\<close>

text \<open>The number of neighbours kept per point.\<close>

definition leaf_k :: "leaf_env \<Rightarrow> u32 list \<Rightarrow> usize" where
  "leaf_k E leaf = min (lb_leaf_knn E) (length leaf - 1)"

definition BLOCK_SIZE :: usize where
  "BLOCK_SIZE = 1024"

text \<open>The blocks \<open>[block_start, min (block_start + block_rows) leaf_size)\<close>.\<close>

definition block_starts :: "usize \<Rightarrow> usize \<Rightarrow> usize list" where
  "block_starts block_rows leaf_size = map (\<lambda>b. b * block_rows) [0..<div_ceil leaf_size block_rows]"

definition block_of :: "usize \<Rightarrow> usize \<Rightarrow> 'a list \<Rightarrow> 'a list" where
  "block_of block_rows block_start xs = take (min (block_start + block_rows) (length xs) - block_start) (drop block_start xs)"

fun blockwise_topk :: "leaf_env \<Rightarrow> metric \<Rightarrow> u32 list \<Rightarrow> usize \<Rightarrow> f32 list list \<Rightarrow> usize list \<Rightarrow> row_topk list result" where
  "blockwise_topk E metric leaf k rows [] = Inr []"
| "blockwise_topk E metric leaf k rows (block_start # starts) =
     res_bind
       (if metric = L2
        then push_matrix k block_start (distance_block E (block_of BLOCK_SIZE block_start rows) rows)
        else push_scalar_rows (lb_distance E metric) k leaf block_start (block_of BLOCK_SIZE block_start leaf)) (\<lambda>ts.
     res_bind (blockwise_topk E metric leaf k rows starts) (\<lambda>ts'. Inr (ts @ ts')))"

definition leaf_adsampling ::
  "leaf_env \<Rightarrow> 'st edge_flush \<Rightarrow> u32 list \<Rightarrow> f32 list \<Rightarrow> pending_edge list \<Rightarrow> 'st \<Rightarrow> (pending_edge list \<times> 'st) result" where
  "leaf_adsampling E flush leaf vectors edges st =
     res_bind (lb_adsampling E vectors (length leaf) (lb_dim E) (leaf_k E leaf)) (\<lambda>row_topk.
     res_bind (emit_row_topk_edges E flush leaf row_topk st) (\<lambda>st. Inr (edges, st)))"

definition process_leaf_blockwise ::
  "leaf_env \<Rightarrow> metric \<Rightarrow> 'st edge_flush \<Rightarrow> u32 list \<Rightarrow> pending_edge list \<Rightarrow> 'st \<Rightarrow> (pending_edge list \<times> 'st) result" where
  "process_leaf_blockwise E metric flush leaf edges st =
     res_bind (read_leaf_points E leaf) (\<lambda>vectors.
       if should_use_leaf_adsampling_executor E metric (length leaf)
       then leaf_adsampling E flush leaf vectors edges st
       else
         res_bind (blockwise_topk E metric leaf (leaf_k E leaf) (leaf_rows E vectors)
           (block_starts BLOCK_SIZE (length leaf))) (\<lambda>ts.
         hash_and_flush E flush leaf (map row_topk_slice ts) [] st))"

definition full_matrix_distances :: "leaf_env \<Rightarrow> metric \<Rightarrow> u32 list \<Rightarrow> f32 list \<Rightarrow> f32 list list result" where
  "full_matrix_distances E metric leaf vectors =
     (if metric = L2 then Inr (distance_block E (leaf_rows E vectors) (leaf_rows E vectors))
      else all_pair_distances (lb_distance E metric) 0 leaf
             (replicate (length leaf) (replicate (length leaf) f32_zero)))"

text \<open>\<open>edges\<close> is what the scratch buffer holds when the leaf starts.\<close>

definition process_leaf ::
  "leaf_env \<Rightarrow> metric \<Rightarrow> 'st edge_flush \<Rightarrow> u32 list \<Rightarrow> pending_edge list \<Rightarrow> 'st \<Rightarrow> (pending_edge list \<times> 'st) result" where
  "process_leaf E metric flush leaf edges st =
     (if length leaf \<le> 1 \<or> leaf_k E leaf = 0 then Inr (edges, st)
      else if max (lb_max_full_matrix_leaf_size E) 1 < length leaf
      then process_leaf_blockwise E metric flush leaf edges st
      else
        res_bind (if metric = L2 then read_leaf_points E leaf else Inr []) (\<lambda>vectors.
          if should_use_leaf_adsampling_executor E metric (length leaf)
          then leaf_adsampling E flush leaf vectors edges st
          else
            res_bind (full_matrix_distances E metric leaf vectors) (\<lambda>dmat.
            res_bind (push_matrix (leaf_k E leaf) 0 dmat) (\<lambda>ts.
            hash_and_flush E flush leaf (map row_topk_slice ts) edges st))))"

section \<open>The parallel kernel\<close>

definition choose_parallel_block_wave_width :: "usize \<Rightarrow> usize \<Rightarrow> usize \<Rightarrow> usize \<Rightarrow> usize \<Rightarrow> usize" where
  "choose_parallel_block_wave_width threads leaf_size block_rows leaf_knn total_blocks =
     (let bytes_per_block = sat_add (sat_mul (sat_mul block_rows leaf_size) 4)
            (sat_mul (sat_mul (sat_mul block_rows (max leaf_knn 1)) 2) 24);
          by_memory = (if bytes_per_block = 0 then max threads 1 else max 1 (256 * 1024 * 1024 div bytes_per_block))
      in max 1 (min total_blocks (min (max threads 1) by_memory)))"

text \<open>A block without lune witnesses, and its edges.\<close>

fun block_edges :: "leaf_env \<Rightarrow> u32 list \<Rightarrow> f32 list \<Rightarrow> nat \<Rightarrow> neighbour list list \<Rightarrow> pending_edge list result" where
  "block_edges E leaf cache i [] = Inr []"
| "block_edges E leaf cache i (nbs # rows) =
     res_bind (sketch_cache_row E cache i) (\<lambda>sketch_i.
     res_bind (row_edges E leaf cache i sketch_i 0 nbs) (\<lambda>es.
     res_bind (block_edges E leaf cache (Suc i) rows) (\<lambda>es'. Inr (es @ es'))))"

definition process_leaf_parallel_large_block ::
  "leaf_env \<Rightarrow> metric \<Rightarrow> f32 list \<Rightarrow> u32 list \<Rightarrow> usize \<Rightarrow> usize \<Rightarrow> usize \<Rightarrow> (usize \<times> pending_edge list) result" where
  "process_leaf_parallel_large_block E metric cache leaf k block_rows block_start =
     res_bind (push_scalar_rows (lb_distance E metric) k leaf block_start (block_of block_rows block_start leaf)) (\<lambda>ts.
     res_bind (block_edges E leaf cache block_start (map row_topk_slice ts)) (\<lambda>es. Inr (block_start, es)))"

fun process_wave ::
  "(usize \<Rightarrow> (usize \<times> pending_edge list) result) \<Rightarrow> usize list \<Rightarrow> (usize \<times> pending_edge list) list result" where
  "process_wave block [] = Inr []"
| "process_wave block (b # bs) =
     res_bind (block b) (\<lambda>r. res_bind (process_wave block bs) (\<lambda>rs. Inr (r # rs)))"

text \<open>
  \<open>srt\<close> is \<open>sort_unstable_by_key\<close>, which puts the results of the threads back in the order of the blocks.
\<close>

fun process_waves ::
  "((usize \<times> pending_edge list \<Rightarrow> usize) \<Rightarrow> (usize \<times> pending_edge list) list \<Rightarrow> (usize \<times> pending_edge list) list) \<Rightarrow>
   (usize \<Rightarrow> (usize \<times> pending_edge list) result) \<Rightarrow> 'st edge_flush \<Rightarrow> usize list list \<Rightarrow> 'st \<Rightarrow> 'st result" where
  "process_waves srt block flush [] st = Inr st"
| "process_waves srt block flush (wave # waves) st =
     res_bind (process_wave block wave) (\<lambda>results.
     res_bind (flush_batches flush (map snd (srt fst results)) st)
       (process_waves srt block flush waves))"

definition process_leaf_parallel_large ::
  "((usize \<times> pending_edge list \<Rightarrow> usize) \<Rightarrow> (usize \<times> pending_edge list) list \<Rightarrow> (usize \<times> pending_edge list) list) \<Rightarrow>
   leaf_env \<Rightarrow> metric \<Rightarrow> 'st edge_flush \<Rightarrow> u32 list \<Rightarrow> usize \<Rightarrow> usize \<Rightarrow> 'st \<Rightarrow> 'st result" where
  "process_leaf_parallel_large srt E metric flush leaf threads block_rows st =
     (if length leaf \<le> 1 \<or> leaf_k E leaf = 0 then Inr st
      else
        res_bind (read_leaf_points E leaf) (\<lambda>vectors.
          if should_use_leaf_adsampling_executor E metric (length leaf)
          then res_bind (leaf_adsampling E flush leaf vectors [] st) (\<lambda>(edges, st). Inr st)
          else
            (let block_rows = max block_rows 1;
                 starts = block_starts block_rows (length leaf);
                 wave_width = choose_parallel_block_wave_width threads (length leaf) block_rows (lb_leaf_knn E) (length starts)
             in res_bind (sketch_cache_prefetch E leaf) (\<lambda>cache.
                process_waves srt (process_leaf_parallel_large_block E metric cache leaf (leaf_k E leaf) block_rows)
                  flush (chunks wave_width starts) st))))"

section \<open>\<open>RowTopK\<close> keeps the nearest\<close>

definition nkey :: "neighbour \<Rightarrow> int" where
  "nkey e = f32_key (snd e)"

definition nan_free_row :: "f32 list \<Rightarrow> bool" where
  "nan_free_row ds \<longleftrightarrow> (\<forall>d \<in> set ds. \<not> f32_is_nan d)"

lemma length_shift_in [simp]: "length (shift_in n idx d buf) = length buf"
  by (induction n arbitrary: buf) simp_all

lemma shift_in_above: "n < m \<Longrightarrow> shift_in n idx d buf ! m = buf ! m"
  by (induction n arbitrary: buf) simp_all

lemma shift_in_insert:
  assumes "sorted (map nkey (take n buf))" "\<forall>e \<in> set (take n buf). \<not> f32_is_nan (snd e)" "\<not> f32_is_nan d"
    "n < length buf"
  shows "take (Suc n) (shift_in n idx d buf) = insert_after nkey (idx, d) (take n buf)"
  using assms(1,2,4)
proof (induction n arbitrary: buf)
  case 0
  then show ?case by (cases buf) simp_all
next
  case (Suc i)
  let ?y = "buf ! i" and ?buf = "buf[Suc i := buf ! i]"
  have snoc: "take (Suc i) buf = take i buf @ [?y]" using Suc.prems(3) by (simp add: take_Suc_conv_app_nth)
  have srt: "sorted (map nkey (take i buf @ [?y]))" using Suc.prems(1) by (simp add: snoc)
  have ins: "insert_after nkey (idx, d) (take (Suc i) buf) =
      (if nkey (idx, d) < nkey ?y then insert_after nkey (idx, d) (take i buf) @ [?y] else take i buf @ [?y, (idx, d)])"
    unfolding snoc by (rule insert_after_append [OF srt])
  have "\<not> f32_is_nan (snd ?y)" using Suc.prems(2) by (simp add: snoc)
  then have lt: "f32_lt d (snd ?y) \<longleftrightarrow> nkey (idx, d) < nkey ?y"
    using assms(3) by (simp add: f32_lt_def nkey_def)
  show ?case
  proof (cases "f32_lt d (snd ?y)")
    case True
    have IH: "take (Suc i) (shift_in i idx d ?buf) = insert_after nkey (idx, d) (take i ?buf)"
      using Suc.prems srt by (intro Suc.IH) (auto simp: snoc sorted_append)
    have "take (Suc (Suc i)) (shift_in i idx d ?buf) = take (Suc i) (shift_in i idx d ?buf) @ [?y]"
      using Suc.prems(3) by (simp add: take_Suc_conv_app_nth shift_in_above)
    then show ?thesis using True lt ins IH by simp
  next
    case False
    have "take (Suc (Suc i)) (buf[Suc i := (idx, d)]) = take (Suc i) buf @ [(idx, d)]"
      using Suc.prems(3) by (simp add: take_Suc_conv_app_nth)
    then show ?thesis using False lt ins snoc by simp
  qed
qed

lemma length_insert_after [simp]: "length (insert_after f x ys) = Suc (length ys)"
  by (induction ys) simp_all

definition row_holds :: "usize \<Rightarrow> neighbour list \<Rightarrow> row_topk \<Rightarrow> bool" where
  "row_holds k seen t \<longleftrightarrow> length (rk_buf t) = 32 \<and> rk_len t = min k (length seen) \<and>
     row_topk_slice t = take k (sort_key nkey seen)"

lemma row_holds_default: "row_holds k [] row_topk_default"
  by (simp add: row_holds_def row_topk_default_def row_topk_slice_def)

lemma row_push_holds:
  assumes t: "row_holds k seen t" and k: "0 < k" "k \<le> 32"
    and nan: "\<forall>e \<in> set seen. \<not> f32_is_nan (snd e)" "\<not> f32_is_nan d"
  shows "\<exists>t'. row_topk_push k idx d t = Inr t' \<and> row_holds k (seen @ [(idx, d)]) t'"
proof -
  let ?S = "sort_key nkey seen" and ?buf = "rk_buf t"
  have buf: "length ?buf = 32" and len: "rk_len t = min k (length seen)"
    and prefix: "take (rk_len t) ?buf = take k ?S"
    using t unfolding row_holds_def row_topk_slice_def by blast+
  have S: "sorted (map nkey ?S)" "\<forall>e \<in> set ?S. \<not> f32_is_nan (snd e)" using nan by simp_all
  have snoc: "sort_key nkey (seen @ [(idx, d)]) = insert_after nkey (idx, d) ?S" by (rule sort_key_snoc)
  have sub: "sorted (map nkey (take n ?S))" "\<forall>e \<in> set (take n ?S). \<not> f32_is_nan (snd e)" for n
    using S(1) sorted_wrt_take [of "(\<le>)" "map nkey ?S" n] set_take_subset [of n ?S] S(2) by (simp_all add: take_map) blast
  show ?thesis
  proof (cases "length seen < k")
    case True
    have p: "take (rk_len t) ?buf = ?S" using prefix True by simp
    have "take (Suc (rk_len t)) (shift_in (rk_len t) idx d ?buf) = insert_after nkey (idx, d) ?S"
      using shift_in_insert [of "rk_len t" ?buf d idx] S nan(2) p len True buf k by simp
    then show ?thesis
      using True len buf k by (simp add: row_topk_push_def row_holds_def row_topk_slice_def snoc)
  next
    case False
    then have l: "rk_len t = k" using len by simp
    have full: "take k ?buf = take k ?S" using prefix l by simp
    have last: "?buf ! (k - 1) = ?S ! (k - 1)"
      using arg_cong [OF full, of "\<lambda>xs. xs ! (k - 1)"] k(1) by simp
    have cut: "take k (insert_after nkey (idx, d) ?S) =
        (if nkey (idx, d) < nkey (?S ! (k - 1)) then insert_after nkey (idx, d) (take (k - 1) ?S) else take k ?S)"
      using False k(1) S(1) by (intro take_insert_after) simp_all
    have "\<not> f32_is_nan (snd (?S ! (k - 1)))" using S(2) False k(1) by (intro S(2) [rule_format] nth_mem) simp
    then have le: "f32_le (snd (?S ! (k - 1))) d \<longleftrightarrow> \<not> nkey (idx, d) < nkey (?S ! (k - 1))"
      using nan(2) by (simp add: f32_le_def nkey_def not_less)
    show ?thesis
    proof (cases "f32_le (snd (?S ! (k - 1))) d")
      case True
      then show ?thesis
        using False l last le buf k t cut
        by (simp add: row_topk_push_def row_holds_def row_topk_slice_def snoc)
    next
      case closer: False
      have "take (k - 1) ?buf = take (k - 1) ?S"
        using arg_cong [OF full, of "take (k - 1)"] by (simp add: min_def)
      then have "take k (shift_in (k - 1) idx d ?buf) = insert_after nkey (idx, d) (take (k - 1) ?S)"
        using shift_in_insert [of "k - 1" ?buf d idx] sub nan(2) buf k by simp
      then show ?thesis
        using False closer l last le buf k cut
        by (simp add: row_topk_push_def row_holds_def row_topk_slice_def snoc)
    qed
  qed
qed

text \<open>The nearest \<open>k\<close> other rows, by distance and then by position.\<close>

definition row_nearest :: "usize \<Rightarrow> nat \<Rightarrow> f32 list \<Rightarrow> neighbour list" where
  "row_nearest k i ds = take k (sort_key nkey (filter (\<lambda>e. fst e \<noteq> i) (enumerate 0 ds)))"

lemma push_row_holds:
  assumes "0 < k" "k \<le> 32" "row_holds k seen t" "\<forall>e \<in> set seen. \<not> f32_is_nan (snd e)" "nan_free_row ds"
  shows "\<exists>t'. push_row k i j ds t = Inr t' \<and> row_holds k (seen @ filter (\<lambda>e. fst e \<noteq> i) (enumerate j ds)) t'"
  using assms(3-5)
proof (induction ds arbitrary: j seen t)
  case (Cons d ds)
  have nan: "\<not> f32_is_nan d" "nan_free_row ds" using Cons.prems(3) by (simp_all add: nan_free_row_def)
  show ?case
  proof (cases "j = i")
    case True
    then show ?thesis using Cons.IH [OF Cons.prems(1,2) nan(2), of "Suc j"] by simp
  next
    case False
    obtain t1 where t1: "row_topk_push k j d t = Inr t1" "row_holds k (seen @ [(j, d)]) t1"
      using row_push_holds [OF Cons.prems(1) assms(1,2) Cons.prems(2) nan(1)] by blast
    have "\<forall>e \<in> set (seen @ [(j, d)]). \<not> f32_is_nan (snd e)" using Cons.prems(2) nan(1) by simp
    then show ?thesis using Cons.IH [OF t1(2) _ nan(2), of "Suc j"] False t1(1) by simp
  qed
qed simp

lemma push_row_nearest:
  assumes "0 < k" "k \<le> 32" "nan_free_row ds"
  obtains t where "push_row k i 0 ds row_topk_default = Inr t" "row_topk_slice t = row_nearest k i ds"
  using push_row_holds [OF assms(1,2) row_holds_default _ assms(3), of i 0]
  by (auto simp: row_holds_def row_nearest_def)

lemma push_matrix_nearest:
  assumes "0 < k" "k \<le> 32" "\<forall>ds \<in> set dmat. nan_free_row ds"
  shows "\<exists>ts. push_matrix k i dmat = Inr ts \<and>
    map row_topk_slice ts = map (\<lambda>(i, ds). row_nearest k i ds) (enumerate i dmat)"
  using assms(3)
proof (induction dmat arbitrary: i)
  case (Cons ds dmat)
  obtain t where "push_row k i 0 ds row_topk_default = Inr t" "row_topk_slice t = row_nearest k i ds"
    using push_row_nearest [OF assms(1,2), of ds i] Cons.prems by auto
  moreover obtain ts where "push_matrix k (Suc i) dmat = Inr ts"
    "map row_topk_slice ts = map (\<lambda>(i, ds). row_nearest k i ds) (enumerate (Suc i) dmat)"
    using Cons.IH [of "Suc i"] Cons.prems by auto
  ultimately show ?case by simp
qed simp

text \<open>The scalar loops do the same with the distances as they are computed.\<close>

lemma push_scalar_row:
  assumes "\<forall>q \<in> set js. dist p q = Inr (D q)"
  shows "push_scalar dist k p i j js t = push_row k i j (map D js) t"
  using assms
proof (induction js arbitrary: j t)
  case (Cons q js)
  then have "push_scalar dist k p i (Suc j) js t = push_row k i (Suc j) (map D js) t" for j t by simp
  then show ?case using Cons.prems by (auto intro!: res_bind_cong)
qed simp

lemma push_scalar_rows_matrix:
  assumes "\<forall>p \<in> set is. \<forall>q \<in> set leaf. dist p q = Inr (D p q)"
  shows "push_scalar_rows dist k leaf i is = push_matrix k i (map (\<lambda>p. map (D p) leaf) is)"
  using assms
proof (induction "is" arbitrary: i)
  case (Cons p "is")
  then show ?case using push_scalar_row [of leaf dist p "D p" k i 0 row_topk_default] by simp
qed simp

section \<open>The reference\<close>

definition sketch_hash :: "leaf_env \<Rightarrow> f32 list \<Rightarrow> f32 list \<Rightarrow> u16" where
  "sketch_hash E p c = (case compute_hash p c (lb_m_hash_bits E) of Inl e \<Rightarrow> 0 | Inr h \<Rightarrow> h)"

text \<open>The two edges of the neighbour of rank \<open>rank\<close> of the point at \<open>i\<close>.\<close>

definition leaf_pair :: "leaf_env \<Rightarrow> (u32 \<Rightarrow> f32 list) \<Rightarrow> u32 list \<Rightarrow> nat \<Rightarrow> usize \<Rightarrow> neighbour \<Rightarrow> pending_edge list" where
  "leaf_pair E sketch leaf i rank nb =
     (let p = leaf ! i; c = leaf ! fst nb
      in [\<lparr>e_p = unat p, e_c = c, e_hash = sketch_hash E (sketch p) (sketch c), e_dist = snd nb, e_mandatory = False,
           e_local_rank = local_rank_of rank, e_flags = PENDING_EDGE_DIRECT\<rparr>,
          \<lparr>e_p = unat c, e_c = p, e_hash = sketch_hash E (sketch c) (sketch p), e_dist = snd nb, e_mandatory = False,
           e_local_rank = local_rank_of rank, e_flags = PENDING_EDGE_MIRROR\<rparr>])"

definition leaf_row_edges :: "leaf_env \<Rightarrow> (u32 \<Rightarrow> f32 list) \<Rightarrow> u32 list \<Rightarrow> nat \<Rightarrow> neighbour list \<Rightarrow> pending_edge list" where
  "leaf_row_edges E sketch leaf i nbs = concat (map (\<lambda>(rank, nb). leaf_pair E sketch leaf i rank nb) (enumerate 0 nbs))"

text \<open>The edges of a leaf for the distances \<open>D\<close>: every point with its nearest others.\<close>

definition leaf_reference ::
  "leaf_env \<Rightarrow> (u32 \<Rightarrow> f32 list) \<Rightarrow> (u32 \<Rightarrow> u32 \<Rightarrow> f32) \<Rightarrow> u32 list \<Rightarrow> pending_edge list" where
  "leaf_reference E sketch D leaf =
     (if length leaf \<le> 1 then []
      else concat (map (\<lambda>i. leaf_row_edges E sketch leaf i
        (row_nearest (leaf_k E leaf) i (map (D (leaf ! i)) leaf))) [0..<length leaf]))"

text \<open>The batches a list of rows is flushed in, and what the buffer keeps.\<close>

fun row_batches :: "pending_edge list \<Rightarrow> pending_edge list list \<Rightarrow> pending_edge list list \<times> pending_edge list" where
  "row_batches edges [] = ([], edges)"
| "row_batches edges (es # rows) =
     (if FLUSH_EDGES \<le> length (edges @ es)
      then (let (bs, rest) = row_batches [] rows in ((edges @ es) # bs, rest))
      else row_batches (edges @ es) rows)"

lemma concat_row_batches: "row_batches edges rows = (bs, rest) \<Longrightarrow> concat bs @ rest = edges @ concat rows"
  by (induction edges rows arbitrary: bs rest rule: row_batches.induct) (auto split: if_splits prod.splits)

lemma flush_batches_append:
  "flush_batches flush (bs @ bs') st = res_bind (flush_batches flush bs st) (flush_batches flush bs')"
  by (induction bs arbitrary: st) (auto simp: res_bind_assoc intro!: res_bind_cong)

section \<open>What the kernels read\<close>

lemma row_in_concat:
  "\<forall>r \<in> set rows. length r = w \<Longrightarrow> i < length rows \<Longrightarrow>
   i * w + w \<le> length (concat rows) \<and> take w (drop (i * w) (concat rows)) = rows ! i"
proof (induction rows arbitrary: i)
  case (Cons r rows)
  then show ?case by (cases i) (auto simp del: length_concat)
qed simp

lemma compute_hash_Inr:
  "m \<le> 16 \<Longrightarrow> m \<le> length p \<Longrightarrow> m \<le> length c \<Longrightarrow> \<exists>h. compute_hash p c m = Inr h"
  using hash_bits_ok [of "[0..<m]" c p 0] by (auto simp: compute_hash_def)

text \<open>
  The interface to the stores: the points of the leaf and their sketches come back whole, and every
  sketch is wide enough for the hash.
\<close>

locale leaf_reader =
  fixes E :: leaf_env and present :: "u32 \<Rightarrow> bool" and row sketch :: "u32 \<Rightarrow> f32 list"
  assumes points_ok: "\<forall>p \<in> set leaf. present p \<Longrightarrow> length leaf * lb_dim E \<le> usize_max \<Longrightarrow>
      read_leaf_points E leaf = Inr (concat (map row leaf))"
    and row_width: "present p \<Longrightarrow> length (row p) = lb_dim E"
    and sketches_ok: "\<forall>p \<in> set leaf. present p \<Longrightarrow> length leaf * lb_sketch_width E \<le> usize_max \<Longrightarrow>
      sketch_cache_prefetch E leaf = Inr (concat (map sketch leaf))"
    and sketch_wide: "present p \<Longrightarrow> length (sketch p) = lb_sketch_width E \<and> lb_m_hash_bits E \<le> 16 \<and>
      lb_m_hash_bits E \<le> lb_sketch_width E"
begin

lemma cache_row:
  assumes "\<forall>p \<in> set leaf. present p" "i < length leaf"
  shows "sketch_cache_row E (concat (map sketch leaf)) i = Inr (sketch (leaf ! i))"
  using row_in_concat [of "map sketch leaf" "lb_sketch_width E" i] assms sketch_wide
  by (simp add: sketch_cache_row_def Let_def not_less del: length_concat)

lemma hash_ok: "present p \<Longrightarrow> present c \<Longrightarrow>
   compute_hash (sketch p) (sketch c) (lb_m_hash_bits E) = Inr (sketch_hash E (sketch p) (sketch c))"
  using compute_hash_Inr [of "lb_m_hash_bits E" "sketch p" "sketch c"] sketch_wide [of p] sketch_wide [of c]
  by (auto simp: sketch_hash_def)

lemma row_edges_ok:
  assumes "\<forall>p \<in> set leaf. present p" "i < length leaf" "\<forall>nb \<in> set nbs. fst nb < length leaf"
  shows "row_edges E leaf (concat (map sketch leaf)) i (sketch (leaf ! i)) rank nbs =
    Inr (concat (map (\<lambda>(rank, nb). leaf_pair E sketch leaf i rank nb) (enumerate rank nbs)))"
  using assms(3)
proof (induction nbs arbitrary: rank)
  case (Cons nb nbs)
  have p: "present (leaf ! i)" "present (leaf ! fst nb)" using assms Cons.prems by auto
  have "edge_pair E leaf (concat (map sketch leaf)) i (sketch (leaf ! i)) rank nb = Inr (leaf_pair E sketch leaf i rank nb)"
    using cache_row [OF assms(1), of "fst nb"] Cons.prems hash_ok [OF p] hash_ok [OF p(2,1)]
    by (cases nb) (simp add: edge_pair_def leaf_pair_def Let_def)
  then show ?case using Cons by simp
qed simp

lemma emit_rows_batches:
  assumes "\<forall>p \<in> set leaf. present p" "i + length rows \<le> length leaf"
    "\<forall>nbs \<in> set rows. \<forall>nb \<in> set nbs. fst nb < length leaf"
    "row_batches edges (map (\<lambda>(i, nbs). leaf_row_edges E sketch leaf i nbs) (enumerate i rows)) = (bs, rest)"
  shows "emit_rows E flush leaf (concat (map sketch leaf)) i rows (edges, st) =
    res_bind (flush_batches flush bs st) (\<lambda>st. Inr (rest, st))"
  using assms(2-4)
proof (induction rows arbitrary: i edges st bs)
  case (Cons nbs rows)
  have "row_edges E leaf (concat (map sketch leaf)) i (sketch (leaf ! i)) 0 nbs = Inr (leaf_row_edges E sketch leaf i nbs)"
    using Cons.prems by (subst row_edges_ok [OF assms(1)]) (simp_all add: leaf_row_edges_def)
  then have step: "emit_rows E flush leaf (concat (map sketch leaf)) i (nbs # rows) (edges, st) =
      (let edges = edges @ leaf_row_edges E sketch leaf i nbs in
       if FLUSH_EDGES \<le> length edges
       then res_bind (flush edges st) (\<lambda>st. emit_rows E flush leaf (concat (map sketch leaf)) (Suc i) rows ([], st))
       else emit_rows E flush leaf (concat (map sketch leaf)) (Suc i) rows (edges, st))"
    using Cons.prems cache_row [OF assms(1), of i] by simp
  have IH: "emit_rows E flush leaf (concat (map sketch leaf)) (Suc i) rows (edges, st) =
      res_bind (flush_batches flush bs st) (\<lambda>st. Inr (rest, st))"
    if "row_batches edges (map (\<lambda>(i, nbs). leaf_row_edges E sketch leaf i nbs) (enumerate (Suc i) rows)) = (bs, rest)"
    for edges bs st using that Cons.prems(1,2) by (intro Cons.IH) simp_all
  show ?case
  proof (cases "FLUSH_EDGES \<le> length (edges @ leaf_row_edges E sketch leaf i nbs)")
    case True
    then obtain bs1 where b: "bs = (edges @ leaf_row_edges E sketch leaf i nbs) # bs1"
      "row_batches [] (map (\<lambda>(i, nbs). leaf_row_edges E sketch leaf i nbs) (enumerate (Suc i) rows)) = (bs1, rest)"
      using Cons.prems(3) by (auto split: prod.splits)
    show ?thesis unfolding step using True IH [OF b(2)] by (simp add: b(1) res_bind_assoc)
  next
    case False
    then show ?thesis unfolding step using IH Cons.prems(3) by simp
  qed
qed auto

text \<open>Whatever the sink, the edges reach it in order, in batches whose concatenation is all of them.\<close>

lemma hash_and_flush_batches:
  assumes "\<forall>p \<in> set leaf. present p" "length leaf * lb_sketch_width E \<le> usize_max" "length topk = length leaf"
    "\<forall>nbs \<in> set topk. \<forall>nb \<in> set nbs. fst nb < length leaf"
  shows "\<exists>bs. concat bs = edges @ concat (map (\<lambda>(i, nbs). leaf_row_edges E sketch leaf i nbs) (enumerate 0 topk)) \<and>
    (\<forall>(flush :: 'st edge_flush) st. hash_and_flush E flush leaf topk edges st =
       res_bind (flush_batches flush bs st) (\<lambda>st. Inr ([], st)))"
proof -
  obtain bs rest where b: "row_batches edges (map (\<lambda>(i, nbs). leaf_row_edges E sketch leaf i nbs) (enumerate 0 topk)) = (bs, rest)"
    by fastforce
  have "hash_and_flush E flush leaf topk edges st = res_bind (flush_batches flush (bs @ [rest]) st) (\<lambda>st. Inr ([], st))"
    for flush :: "'st edge_flush" and st
    using sketches_ok [OF assms(1,2)] emit_rows_batches [OF assms(1) _ assms(4) b, of flush st] assms(3)
    by (simp add: hash_and_flush_def flush_batches_append res_bind_assoc res_bind_Inr)
  moreover have "concat (bs @ [rest]) = edges @ concat (map (\<lambda>(i, nbs). leaf_row_edges E sketch leaf i nbs) (enumerate 0 topk))"
    using concat_row_batches [OF b] by simp
  ultimately show ?thesis by blast
qed

end

section \<open>The kernels hand out the reference\<close>

lemma block_of_eq: "0 < n \<Longrightarrow> s \<le> length xs \<Longrightarrow> block_of n s xs = take n (drop s xs)"
  by (simp add: block_of_def min_def)

text \<open>The blocks of a list, one after the other, are the list.\<close>

lemma blocks_cover:
  assumes "0 < n"
  shows "concat (map (\<lambda>s. block_of n s xs) (block_starts n (length xs))) = xs"
proof -
  have "concat (map (\<lambda>b. take n (drop (b * n) xs)) [0..<m]) = take (m * n) xs" for m
  proof (induction m)
    case (Suc m)
    then show ?case by (simp add: take_add [symmetric] add.commute)
  qed simp
  from this [of "div_ceil (length xs) n"] have "concat (map (\<lambda>b. take n (drop (b * n) xs)) [0..<div_ceil (length xs) n]) = xs"
    using div_ceil_mult_ge [OF assms, of "length xs"] by simp
  moreover have blk: "block_of n (b * n) xs = take n (drop (b * n) xs)" if "b < div_ceil (length xs) n" for b
  proof -
    have "Suc b * n < length xs + n"
      using div_ceil_mult_less [OF assms, of "length xs"] mult_le_mono1 [of "Suc b" "div_ceil (length xs) n" n] that by linarith
    then show ?thesis using assms by (intro block_of_eq) simp_all
  qed
  moreover have "map (\<lambda>s. block_of n s xs) (block_starts n (length xs)) =
      map (\<lambda>b. take n (drop (b * n) xs)) [0..<div_ceil (length xs) n]"
    unfolding block_starts_def map_map by (intro map_cong refl) (simp add: blk)
  ultimately show ?thesis by simp
qed

lemma length_block_of: "0 < n \<Longrightarrow> s \<le> length xs \<Longrightarrow> length (block_of n s xs) = min n (length xs - s)"
  by (simp add: block_of_eq)

lemma block_starts_chain:
  assumes "0 < n" "b \<in> set (block_starts n l)"
  shows "b < l"
proof -
  have "b \<in> (\<lambda>i. i * n) ` {0..<div_ceil l n}" using assms(2) by (simp add: block_starts_def)
  then obtain i where i: "b = i * n" "i < div_ceil l n" unfolding image_iff by (meson atLeastLessThan_iff)
  have "Suc i * n \<le> div_ceil l n * n" using i(2) by (intro mult_le_mono1) simp
  then show ?thesis using div_ceil_mult_less [OF assms(1), of l] i(1) by simp
qed

lemma push_matrix_append:
  "push_matrix k i (xs @ ys) =
     res_bind (push_matrix k i xs) (\<lambda>ts. res_bind (push_matrix k (i + length xs) ys) (\<lambda>ts'. Inr (ts @ ts')))"
  by (induction xs arbitrary: i) (auto simp: res_bind_assoc res_bind_Inr intro!: res_bind_cong)

text \<open>A whole matrix, pushed block by block.\<close>

lemma blocks_push:
  assumes n: "0 < n"
    and step: "\<And>s. s < length M \<Longrightarrow> f s = push_matrix k s (block_of n s M)"
    and loop: "\<And>s ss. g (s # ss) = res_bind (f s) (\<lambda>ts. res_bind (g ss) (\<lambda>ts'. Inr (ts @ ts')))" "g [] = Inr []"
  shows "g (block_starts n (length M)) = push_matrix k 0 M"
proof -
  have "g (map (\<lambda>b. b * n) [a..<div_ceil (length M) n]) = push_matrix k (a * n) (drop (a * n) M)" if "a \<le> div_ceil (length M) n" for a
    using that
  proof (induction a rule: inc_induct)
    case base
    have "length M \<le> div_ceil (length M) n * n" by (rule div_ceil_mult_ge [OF n])
    then show ?case by (simp add: loop)
  next
    case (step a)
    have "Suc a * n < length M + n"
      using div_ceil_mult_less [OF n, of "length M"] mult_le_mono1 [of "Suc a" "div_ceil (length M) n" n] step.hyps by linarith
    then have lt: "a * n < length M" by simp
    let ?b = "take n (drop (a * n) M)" and ?r = "drop (Suc a * n) M"
    have split: "drop (a * n) M = ?b @ ?r" by (metis add.commute append_take_drop_id drop_drop mult_Suc)
    have len: "?r = [] \<or> length ?b = n" by auto
    have "push_matrix k (a * n) (drop (a * n) M) =
        res_bind (push_matrix k (a * n) ?b) (\<lambda>ts. res_bind (push_matrix k (a * n + length ?b) ?r) (\<lambda>ts'. Inr (ts @ ts')))"
      using push_matrix_append [of k "a * n" ?b ?r] by (simp only: split [symmetric])
    moreover have "push_matrix k (a * n + length ?b) ?r = push_matrix k (Suc a * n) ?r"
      using len by (auto simp: add.commute)
    moreover have "f (a * n) = push_matrix k (a * n) ?b" using assms(2) [OF lt] block_of_eq [OF n, of "a * n" M] lt by simp
    ultimately show ?case using step by (simp add: upt_conv_Cons loop del: upt_Suc drop_drop)
  qed
  from this [of 0] show ?thesis by (simp add: block_starts_def)
qed

definition matrix_dist2 :: "leaf_env \<Rightarrow> (f32 list \<Rightarrow> f32 list \<Rightarrow> f32) \<Rightarrow> (u32 \<Rightarrow> f32 list) \<Rightarrow> u32 \<Rightarrow> u32 \<Rightarrow> f32" where
  "matrix_dist2 E dot row p q = leaf_dist2 (lb_f32 E) (lb_norm E (row p)) (lb_norm E (row q)) (dot (row p) (row q))"

lemma distance_block_map:
  assumes "entrywise (lb_mat_mul E) dot"
  shows "distance_block E (map row block) (map row leaf) = map (\<lambda>p. map (matrix_dist2 E dot row p) leaf) block"
  using assms by (simp add: distance_block_def entrywise_def matrix_dist2_def zip_map1 zip_map2 zip_same_conv_map comp_def case_prod_beta)

lemma block_of_map: "block_of n s (map f xs) = map f (block_of n s xs)"
  by (simp add: block_of_def take_map drop_map)

lemma leaf_rows_concat:
  assumes "0 < lb_dim E" "\<forall>r \<in> set rows. length r = lb_dim E"
  shows "leaf_rows E (concat rows) = rows"
proof -
  have "length (concat rows) = length rows * lb_dim E" using assms(2) by (induction rows) auto
  then show ?thesis
    using row_in_concat [OF assms(2)] assms(1) by (intro nth_equalityI) (simp_all add: leaf_rows_def del: length_concat)
qed

text \<open>\<open>finite_dist\<close>: no distance of two points of the leaf is a NaN.\<close>

definition finite_dist :: "(u32 \<Rightarrow> u32 \<Rightarrow> f32) \<Rightarrow> u32 list \<Rightarrow> bool" where
  "finite_dist D leaf \<longleftrightarrow> (\<forall>p \<in> set leaf. \<forall>q \<in> set leaf. \<not> f32_is_nan (D p q))"

definition leaf_matrix :: "(u32 \<Rightarrow> u32 \<Rightarrow> f32) \<Rightarrow> u32 list \<Rightarrow> f32 list list" where
  "leaf_matrix D leaf = map (\<lambda>p. map (D p) leaf) leaf"

lemma row_nearest_index: "nb \<in> set (row_nearest k i ds) \<Longrightarrow> fst nb < length ds \<and> fst nb \<noteq> i"
  by (auto simp: row_nearest_def in_set_enumerate_eq dest!: in_set_takeD)

definition leaf_topk :: "usize \<Rightarrow> (u32 \<Rightarrow> u32 \<Rightarrow> f32) \<Rightarrow> u32 list \<Rightarrow> neighbour list list" where
  "leaf_topk k D leaf = map (\<lambda>i. row_nearest k i (map (D (leaf ! i)) leaf)) [0..<length leaf]"

lemma push_leaf_matrix:
  assumes "0 < k" "k \<le> 32" "finite_dist D leaf"
  shows "\<exists>ts. push_matrix k 0 (leaf_matrix D leaf) = Inr ts \<and> map row_topk_slice ts = leaf_topk k D leaf"
proof -
  have "\<forall>ds \<in> set (leaf_matrix D leaf). nan_free_row ds"
    using assms(3) by (auto simp: leaf_matrix_def nan_free_row_def finite_dist_def)
  moreover have "map (\<lambda>(i, ds). row_nearest k i ds) (enumerate 0 (leaf_matrix D leaf)) = leaf_topk k D leaf"
    by (rule nth_equalityI) (simp_all add: leaf_topk_def leaf_matrix_def nth_enumerate_eq)
  ultimately show ?thesis using push_matrix_nearest [OF assms(1,2), of "leaf_matrix D leaf" 0] by simp
qed

context leaf_reader
begin

lemma topk_batches:
  assumes "\<forall>p \<in> set leaf. present p" "length leaf * lb_sketch_width E \<le> usize_max" "1 < length leaf"
  shows "\<exists>bs. concat bs = edges @ leaf_reference E sketch D leaf \<and>
    (\<forall>(flush :: 'st edge_flush) st. hash_and_flush E flush leaf (leaf_topk (leaf_k E leaf) D leaf) edges st =
       res_bind (flush_batches flush bs st) (\<lambda>st. Inr ([], st)))"
proof -
  let ?topk = "leaf_topk (leaf_k E leaf) D leaf"
  have "\<forall>nbs \<in> set ?topk. \<forall>nb \<in> set nbs. fst nb < length leaf"
    by (auto simp: leaf_topk_def dest: row_nearest_index)
  moreover have "map (\<lambda>(i, nbs). leaf_row_edges E sketch leaf i nbs) (enumerate 0 ?topk) =
      map (\<lambda>i. leaf_row_edges E sketch leaf i (row_nearest (leaf_k E leaf) i (map (D (leaf ! i)) leaf))) [0..<length leaf]"
    by (rule nth_equalityI) (simp_all add: leaf_topk_def nth_enumerate_eq)
  ultimately show ?thesis
    using hash_and_flush_batches [OF assms(1,2), of ?topk edges] assms(3) by (simp add: leaf_topk_def leaf_reference_def)
qed

text \<open>The full matrix and the blockwise kernel reach the same neighbours.\<close>

lemma process_leaf_topk:
  assumes p: "\<forall>p \<in> set leaf. present p" and dim: "0 < lb_dim E" "length leaf * lb_dim E \<le> usize_max"
    and mm: "entrywise (lb_mat_mul E) dot" and fin: "finite_dist (matrix_dist2 E dot row) leaf"
    and k: "0 < lb_leaf_knn E" "leaf_k E leaf \<le> 32" "1 < length leaf"
    and ads: "\<not> should_use_leaf_adsampling_executor E L2 (length leaf)"
  shows "process_leaf E L2 flush leaf edges st =
    hash_and_flush E flush leaf (leaf_topk (leaf_k E leaf) (matrix_dist2 E dot row) leaf)
      (if max (lb_max_full_matrix_leaf_size E) 1 < length leaf then [] else edges) st"
proof -
  let ?D = "matrix_dist2 E dot row" and ?rows = "map row leaf" and ?k = "leaf_k E leaf"
  have k': "0 < ?k" using k by (simp add: leaf_k_def)
  have read: "read_leaf_points E leaf = Inr (concat ?rows)" by (rule points_ok [OF p dim(2)])
  have rows: "leaf_rows E (concat ?rows) = ?rows" using p row_width dim(1) by (intro leaf_rows_concat) auto
  obtain ts where ts: "push_matrix ?k 0 (leaf_matrix ?D leaf) = Inr ts" "map row_topk_slice ts = leaf_topk ?k ?D leaf"
    using push_leaf_matrix [OF k' k(2) fin] by blast
  have full: "distance_block E ?rows ?rows = leaf_matrix ?D leaf"
    using distance_block_map [OF mm, of row leaf leaf] by (simp add: leaf_matrix_def)
  have "blockwise_topk E L2 leaf ?k ?rows (block_starts BLOCK_SIZE (length (leaf_matrix ?D leaf))) =
      push_matrix ?k 0 (leaf_matrix ?D leaf)"
    using distance_block_map [OF mm, of row _ leaf]
    by (intro blocks_push [where f = "\<lambda>s. push_matrix ?k s (distance_block E (block_of BLOCK_SIZE s ?rows) ?rows)"])
      (simp_all add: BLOCK_SIZE_def block_of_map leaf_matrix_def)
  then have blocks: "blockwise_topk E L2 leaf ?k ?rows (block_starts BLOCK_SIZE (length leaf)) = Inr ts"
    using ts(1) by (simp add: leaf_matrix_def)
  show ?thesis
    using k(3) k' read rows ts full blocks ads
    by (simp add: process_leaf_def process_leaf_blockwise_def full_matrix_distances_def)
qed

end

section \<open>The parallel kernel hands out the reference\<close>

lemma enumerate_block: "0 < n \<Longrightarrow> s \<le> length xs \<Longrightarrow> enumerate s (block_of n s xs) = block_of n s (enumerate 0 xs)"
  by (rule nth_equalityI) (auto simp: block_of_eq nth_enumerate_eq)

lemma sorted_is_sorted:
  assumes "unstable_sort srt" "sorted (map f xs)" "distinct (map f xs)"
  shows "srt f xs = xs"
proof -
  have s: "mset (srt f xs) = mset xs" "sorted (map f (srt f xs))" using assms(1) by (simp_all add: unstable_sortD)
  have d: "distinct (map f (srt f xs))"
    using assms(3) s(1) mset_eq_imp_distinct_iff [of "map f (srt f xs)" "map f xs"] by simp
  have "map f (srt f xs) = map f xs"
    using s assms(2,3) d by (intro sorted_distinct_set_unique) (simp_all add: mset_eq_setD [OF s(1)])
  then show ?thesis
    using assms(3) mset_eq_setD [OF s(1)] by (intro map_inj_on [of f]) (auto simp: distinct_map)
qed

lemma sorted_block_starts: "0 < n \<Longrightarrow> sorted_wrt (<) (block_starts n l)"
  by (auto simp: block_starts_def sorted_wrt_iff_nth_less)

lemma chunks_sublist: "ws \<in> set (chunks n xs) \<Longrightarrow> \<exists>us vs. xs = us @ ws @ vs"
proof (induction n xs rule: chunks.induct)
  case (1 n xs)
  show ?case
  proof (cases "n = 0 \<or> xs = []")
    case False
    then consider "ws = take n xs" | "ws \<in> set (chunks n (drop n xs))" using 1(2) by (subst (asm) chunks.simps) auto
    then show ?thesis
    proof cases
      case 1
      then show ?thesis by (intro exI [of _ "[]"] exI [of _ "drop n xs"]) simp
    next
      case 2
      then obtain us vs where "drop n xs = us @ ws @ vs" using 1(1) False by blast
      then show ?thesis by (metis append.assoc append_take_drop_id)
    qed
  qed (use 1(2) in \<open>simp add: chunks.simps\<close>)
qed

lemma process_wave_ok: "\<forall>b \<in> set bs. block b = Inr (b, es b) \<Longrightarrow> process_wave block bs = Inr (map (\<lambda>b. (b, es b)) bs)"
  by (induction bs) simp_all

lemma process_waves_ok:
  assumes srt: "unstable_sort srt" and "\<forall>w \<in> set waves. sorted_wrt (<) w"
    and "\<forall>b \<in> set (concat waves). block b = Inr (b, es b)"
  shows "process_waves srt block flush waves st = flush_batches flush (map es (concat waves)) st"
  using assms(2,3)
proof (induction waves arbitrary: st)
  case (Cons w waves)
  have "srt fst (map (\<lambda>b. (b, es b)) w) = map (\<lambda>b. (b, es b)) w"
    using Cons.prems(1) by (intro sorted_is_sorted [OF srt]) (simp_all add: comp_def strict_sorted_iff)
  then have "process_waves srt block flush (w # waves) st =
      res_bind (flush_batches flush (map es w) st) (process_waves srt block flush waves)"
    using Cons.prems(2) by (simp add: process_wave_ok [where es = es] comp_def)
  also have "\<dots> = res_bind (flush_batches flush (map es w) st) (flush_batches flush (map es (concat waves)))"
    using Cons by (intro res_bind_cong) simp_all
  finally show ?case by (simp add: flush_batches_append)
qed simp

context leaf_reader
begin

lemma block_edges_ok:
  assumes "\<forall>p \<in> set leaf. present p" "i + length rows \<le> length leaf" "\<forall>nbs \<in> set rows. \<forall>nb \<in> set nbs. fst nb < length leaf"
  shows "block_edges E leaf (concat (map sketch leaf)) i rows =
    Inr (concat (map (\<lambda>(i, nbs). leaf_row_edges E sketch leaf i nbs) (enumerate i rows)))"
  using assms(2,3)
proof (induction rows arbitrary: i)
  case (Cons nbs rows)
  have "row_edges E leaf (concat (map sketch leaf)) i (sketch (leaf ! i)) 0 nbs = Inr (leaf_row_edges E sketch leaf i nbs)"
    using Cons.prems by (subst row_edges_ok [OF assms(1)]) (simp_all add: leaf_row_edges_def)
  then show ?case using Cons cache_row [OF assms(1), of i] by simp
qed simp

lemma parallel_kernel_batches:
  assumes p: "\<forall>p \<in> set leaf. present p" and room: "length leaf * lb_dim E \<le> usize_max" "length leaf * lb_sketch_width E \<le> usize_max"
    and dist: "\<forall>p \<in> set leaf. \<forall>q \<in> set leaf. lb_distance E metric p q = Inr (S p q)" and fin: "finite_dist S leaf"
    and k: "0 < lb_leaf_knn E" "leaf_k E leaf \<le> 32" "1 < length leaf"
    and ads: "\<not> should_use_leaf_adsampling_executor E metric (length leaf)" and srt: "unstable_sort srt"
  shows "\<exists>bs. concat bs = leaf_reference E sketch S leaf \<and>
    (\<forall>(flush :: 'st edge_flush) st. process_leaf_parallel_large srt E metric flush leaf threads block_rows st = flush_batches flush bs st)"
proof -
  let ?n = "max block_rows 1" and ?k = "leaf_k E leaf" and ?cache = "concat (map sketch leaf)"
  let ?topk = "leaf_topk ?k S leaf" and ?starts = "block_starts (max block_rows 1) (length leaf)"
  define es where "es s = concat (map (\<lambda>(i, nbs). leaf_row_edges E sketch leaf i nbs) (block_of ?n s (enumerate 0 ?topk)))" for s
  have n: "0 < ?n" by simp
  have k': "0 < ?k" using k by (simp add: leaf_k_def)
  have len: "length ?topk = length leaf" by (simp add: leaf_topk_def)
  have idx: "\<forall>nbs \<in> set ?topk. \<forall>nb \<in> set nbs. fst nb < length leaf"
    by (auto simp: leaf_topk_def dest: row_nearest_index)
  have block: "process_leaf_parallel_large_block E metric ?cache leaf ?k ?n s = Inr (s, es s)" if "s < length leaf" for s
  proof -
    have "push_scalar_rows (lb_distance E metric) ?k leaf s (block_of ?n s leaf) = push_matrix ?k s (block_of ?n s (leaf_matrix S leaf))"
      unfolding leaf_matrix_def block_of_map using dist
      by (intro push_scalar_rows_matrix) (auto simp: block_of_def dest: in_set_takeD in_set_dropD)
    moreover have "\<forall>ds \<in> set (block_of ?n s (leaf_matrix S leaf)). nan_free_row ds"
      using fin by (auto simp: leaf_matrix_def nan_free_row_def finite_dist_def block_of_def dest!: in_set_takeD in_set_dropD)
    then obtain ts where "push_matrix ?k s (block_of ?n s (leaf_matrix S leaf)) = Inr ts"
      "map row_topk_slice ts = map (\<lambda>(i, ds). row_nearest ?k i ds) (enumerate s (block_of ?n s (leaf_matrix S leaf)))"
      using push_matrix_nearest [OF k' k(2)] by blast
    moreover have "map (\<lambda>(i, ds). row_nearest ?k i ds) (enumerate s (block_of ?n s (leaf_matrix S leaf))) = block_of ?n s ?topk"
      using that by (intro nth_equalityI [where xs = "map f xs" for f xs])
        (simp_all add: block_of_eq leaf_matrix_def leaf_topk_def nth_enumerate_eq less_diff_conv add.commute)
    moreover have "set (block_of ?n s ?topk) \<subseteq> set ?topk"
      by (auto simp: block_of_def dest!: in_set_takeD in_set_dropD)
    then have "block_edges E leaf ?cache s (block_of ?n s ?topk) = Inr (es s)"
      using that idx enumerate_block [OF n, of s ?topk] length_block_of [OF n, of s ?topk] len
      by (subst block_edges_ok [OF p]) (auto simp: es_def)
    ultimately show ?thesis by (simp add: process_leaf_parallel_large_block_def)
  qed
  define w where "w = choose_parallel_block_wave_width threads (length leaf) ?n (lb_leaf_knn E) (length ?starts)"
  have "0 < w"
    unfolding w_def choose_parallel_block_wave_width_def Let_def by (rule less_le_trans [OF zero_less_one max.cobounded1])
  then have waves: "concat (chunks w ?starts) = ?starts" by simp
  have sorted: "sorted_wrt (<) ws" if ws: "ws \<in> set (chunks w ?starts)" for ws
  proof -
    obtain us vs where "?starts = us @ ws @ vs" using chunks_sublist [OF ws] by blast
    then show ?thesis using sorted_block_starts [OF n, of "length leaf"] by (simp add: sorted_wrt_append)
  qed
  have all: "\<forall>b \<in> set ?starts. process_leaf_parallel_large_block E metric ?cache leaf ?k ?n b = Inr (b, es b)"
    using block block_starts_chain [OF n] by blast
  have "process_waves srt (process_leaf_parallel_large_block E metric ?cache leaf ?k ?n) flush (chunks w ?starts) st =
      flush_batches flush (map es ?starts) st" for flush :: "'st edge_flush" and st
    using process_waves_ok [OF srt, of "chunks w ?starts" "process_leaf_parallel_large_block E metric ?cache leaf ?k ?n" es flush st]
      sorted all unfolding waves by blast
  moreover have "concat (map es ?starts) = leaf_reference E sketch S leaf"
  proof -
    have "concat (map es ss) = concat (map (\<lambda>(i, nbs). leaf_row_edges E sketch leaf i nbs)
        (concat (map (\<lambda>s. block_of ?n s (enumerate 0 ?topk)) ss)))" for ss
      by (induction ss) (simp_all add: es_def)
    from this [of ?starts] show ?thesis
      using blocks_cover [OF n, of "enumerate 0 ?topk"] k(3)
      by (simp add: len leaf_reference_def enumerate_eq_zip leaf_topk_def zip_map2 zip_same_conv_map comp_def)
  qed
  ultimately show ?thesis
    using k(3) k' ads points_ok [OF p room(1)] sketches_ok [OF p room(2)]
    by (intro exI [of _ "map es ?starts"]) (simp add: process_leaf_parallel_large_def Let_def w_def)
qed

end

section \<open>More neighbours than the buffer holds\<close>

lemma push_row_overflow:
  assumes "32 < k" "length (rk_buf t) = 32" "rk_len t \<le> 32" "32 < rk_len t + length (filter (\<lambda>e. fst e \<noteq> i) (enumerate j ds))"
  shows "push_row k i j ds t = Inl index_panic"
  using assms(2-4)
proof (induction ds arbitrary: j t)
  case (Cons d ds)
  show ?case
  proof (cases "j = i")
    case True
    then show ?thesis using Cons.IH [of t "Suc j"] Cons.prems by simp
  next
    case False
    show ?thesis
    proof (cases "rk_len t = 32")
      case True
      then show ?thesis using False assms(1) Cons.prems(1) by (simp add: row_topk_push_def)
    next
      case room: False
      let ?t = "t\<lparr>rk_buf := shift_in (rk_len t) j d (rk_buf t), rk_len := rk_len t + 1\<rparr>"
      have "row_topk_push k j d t = Inr ?t"
        using room assms(1) Cons.prems(1,2) by (simp add: row_topk_push_def)
      then show ?thesis using Cons.IH [of ?t "Suc j"] Cons.prems room False by simp
    qed
  qed
qed simp

lemma filter_enumerate_other: "i < length ds \<Longrightarrow> length (filter (\<lambda>e. fst e \<noteq> i) (enumerate 0 ds)) = length ds - 1"
proof -
  assume i: "i < length ds"
  have "length (filter (\<lambda>e. fst e = i) (enumerate 0 ds)) = card {j. j < length ds \<and> fst (enumerate 0 ds ! j) = i}"
    by (simp add: length_filter_conv_card)
  also have "{j. j < length ds \<and> fst (enumerate 0 ds ! j) = i} = {i}" using i by (auto simp: nth_enumerate_eq)
  finally have "length (filter (\<lambda>e. fst e = i) (enumerate 0 ds)) = 1" by simp
  then show ?thesis using sum_length_filter_compl [of "\<lambda>e. fst e = i" "enumerate 0 ds"] by simp
qed

section \<open>The stores as readers\<close>

definition with_stores ::
  "leaf_env \<Rightarrow> ((planned_row \<Rightarrow> u32) \<Rightarrow> planned_row list \<Rightarrow> planned_row list) \<Rightarrow> (nat \<Rightarrow> nat \<Rightarrow> nat) \<Rightarrow> direct_io_config \<Rightarrow>
   file_store \<Rightarrow> sketch_store \<Rightarrow> leaf_env" where
  "with_stores E srt give c st sk =
     E\<lparr>lb_dim := fs_dim st, lb_gather := (\<lambda>opts. direct_gather srt give c st (\<lambda>_. opts) 0),
       lb_sketch_width := sk_width sk, lb_read_sketches := (\<lambda>opts. sketch_read_rows_into sk)\<rparr>"

definition sketch_at :: "sketch_store \<Rightarrow> u32 \<Rightarrow> f32 list" where
  "sketch_at sk p = slice (unat p * sk_width sk) (unat p * sk_width sk + sk_width sk) (sk_data sk)"

text \<open>A point of the file that has a sketch, and a number of planes the sketches cover.\<close>

definition leaf_point ::
  "leaf_env \<Rightarrow> ((planned_row \<Rightarrow> u32) \<Rightarrow> planned_row list \<Rightarrow> planned_row list) \<Rightarrow> (nat \<Rightarrow> nat \<Rightarrow> nat) \<Rightarrow> direct_io_config \<Rightarrow>
   file_store \<Rightarrow> sketch_store \<Rightarrow> u32 \<Rightarrow> bool" where
  "leaf_point E srt give c st sk p \<longleftrightarrow>
     unstable_sort srt \<and> fs_ok st \<and> gives give \<and> dc_alignment c \<le> 2 ^ 63 \<and> unat p < fs_num_points st \<and>
     (unat p + 1) * sk_width sk \<le> length (sk_data sk) \<and> lb_m_hash_bits E \<le> 16 \<and> lb_m_hash_bits E \<le> sk_width sk"

interpretation store_leaves: leaf_reader "with_stores E srt give c st sk" "leaf_point E srt give c st sk" "fs_row st" "sketch_at sk"
  for E srt give c st sk
proof
  show "read_leaf_points (with_stores E srt give c st sk) leaf = Inr (concat (map (fs_row st) leaf))"
    if "\<forall>p \<in> set leaf. leaf_point E srt give c st sk p" "length leaf * lb_dim (with_stores E srt give c st sk) \<le> usize_max" for leaf
  proof (cases "leaf = []")
    case False
    then have "unstable_sort srt" "fs_ok st" "gives give" "dc_alignment c \<le> 2 ^ 63" "\<forall>p \<in> set leaf. unat p < fs_num_points st"
      using that(1) by (auto simp: leaf_point_def neq_Nil_conv)
    then show ?thesis
      using windowed_rows [of st give c srt "default_leaf_point_read_options (fs_dim st) (length leaf)" leaf
          "replicate (length leaf * fs_dim st) 0" gather_stats_zero] that(2)
      by (auto simp: direct_gather_def with_stores_def read_leaf_points_def default_leaf_point_read_options_def Let_def)
  qed (simp add: read_leaf_points_def with_stores_def direct_gather_def direct_read_points_windowed_def read_points_windowed_def)
  show "sketch_cache_prefetch (with_stores E srt give c st sk) leaf = Inr (concat (map (sketch_at sk) leaf))"
    if "\<forall>p \<in> set leaf. leaf_point E srt give c st sk p" for leaf
    using sketch_read_rows_ok [of leaf sk "replicate (length leaf * sk_width sk) 0" 0] that
    by (simp add: sketch_cache_prefetch_def with_stores_def sketch_read_rows_into_def leaf_point_def sketch_at_def [abs_def])
  show "length (fs_row st p) = lb_dim (with_stores E srt give c st sk)" if "leaf_point E srt give c st sk p" for p
    using that by (auto simp: with_stores_def leaf_point_def fs_present_def intro!: fs_row_width)
  show "length (sketch_at sk p) = lb_sketch_width (with_stores E srt give c st sk) \<and>
      lb_m_hash_bits (with_stores E srt give c st sk) \<le> 16 \<and>
      lb_m_hash_bits (with_stores E srt give c st sk) \<le> lb_sketch_width (with_stores E srt give c st sk)"
    if "leaf_point E srt give c st sk p" for p
    using that by (auto simp: with_stores_def leaf_point_def sketch_at_def length_slice)
qed

section \<open>Properties\<close>

text \<open>A leaf the kernels can take: points of the store, a bounded number of neighbours, no ADSampling.\<close>

definition plain_leaf ::
  "leaf_env \<Rightarrow> ((planned_row \<Rightarrow> u32) \<Rightarrow> planned_row list \<Rightarrow> planned_row list) \<Rightarrow> (nat \<Rightarrow> nat \<Rightarrow> nat) \<Rightarrow> direct_io_config \<Rightarrow>
   file_store \<Rightarrow> sketch_store \<Rightarrow> u32 list \<Rightarrow> bool" where
  "plain_leaf E srt give c st sk leaf \<longleftrightarrow>
     (\<forall>p \<in> set leaf. leaf_point E srt give c st sk p) \<and> 0 < fs_dim st \<and>
     length leaf * fs_dim st \<le> usize_max \<and> length leaf * sk_width sk \<le> usize_max \<and>
     0 < lb_leaf_knn E \<and> lb_leaf_knn E \<le> 32 \<and>
     \<not> should_use_leaf_adsampling_executor E L2 (length leaf)"

lemma with_stores_sel [simp]:
  "lb_dim (with_stores E srt give c st sk) = fs_dim st" "lb_sketch_width (with_stores E srt give c st sk) = sk_width sk"
  "lb_mat_mul (with_stores E srt give c st sk) = lb_mat_mul E" "lb_leaf_knn (with_stores E srt give c st sk) = lb_leaf_knn E"
  "lb_distance (with_stores E srt give c st sk) = lb_distance E"
  "should_use_leaf_adsampling_executor (with_stores E srt give c st sk) m n = should_use_leaf_adsampling_executor E m n"
  "leaf_k (with_stores E srt give c st sk) leaf = leaf_k E leaf"
  by (simp_all add: with_stores_def should_use_leaf_adsampling_executor_def leaf_k_def)

lemma with_stores_size:
  "with_stores (E\<lparr>lb_max_full_matrix_leaf_size := n\<rparr>) srt give c st sk =
   (with_stores E srt give c st sk)\<lparr>lb_max_full_matrix_leaf_size := n\<rparr>"
  by (simp add: with_stores_def)

lemma small_leaf_flush:
  "length leaf \<le> 1 \<Longrightarrow> process_leaf E metric flush leaf edges st = Inr (edges, st)"
  "length leaf \<le> 1 \<Longrightarrow> process_leaf_parallel_large S E metric flush leaf threads block_rows st = Inr st"
  by (simp_all add: process_leaf_def process_leaf_parallel_large_def)

text \<open>The largest full-matrix size matters for the choice of the kernel only.\<close>

lemma executor_size:
  "should_use_leaf_adsampling_executor (E\<lparr>lb_max_full_matrix_leaf_size := n\<rparr>) = should_use_leaf_adsampling_executor E"
  by (intro ext) (simp add: should_use_leaf_adsampling_executor_def)

lemma cache_row_size: "sketch_cache_row (E\<lparr>lb_max_full_matrix_leaf_size := n\<rparr>) = sketch_cache_row E"
  by (intro ext) (simp add: sketch_cache_row_def Let_def)

lemma edge_pair_size: "edge_pair (E\<lparr>lb_max_full_matrix_leaf_size := n\<rparr>) = edge_pair E"
  by (intro ext) (simp add: edge_pair_def cache_row_size Let_def split: prod.split)

lemma row_edges_size: "row_edges (E\<lparr>lb_max_full_matrix_leaf_size := n\<rparr>) leaf cache i sk rank nbs = row_edges E leaf cache i sk rank nbs"
  by (induction nbs arbitrary: rank) (simp_all add: edge_pair_size)

lemma emit_rows_size:
  "emit_rows (E\<lparr>lb_max_full_matrix_leaf_size := n\<rparr>) flush leaf cache i rows s = emit_rows E flush leaf cache i rows s"
proof (induction rows arbitrary: i s)
  case (Cons nbs rows)
  show ?case by (cases s) (simp add: cache_row_size row_edges_size Let_def Cons.IH cong: if_cong)
next
  case Nil
  show ?case by (cases s) simp
qed

lemma hash_and_flush_size:
  "hash_and_flush (E\<lparr>lb_max_full_matrix_leaf_size := n\<rparr>) flush leaf topk edges s = hash_and_flush E flush leaf topk edges s"
  by (simp add: hash_and_flush_def sketch_cache_prefetch_def emit_rows_size)

lemma leaf_kernel_batches:
  assumes leaf: "plain_leaf E srt give c st sk leaf" and mm: "entrywise (lb_mat_mul E) dot"
    and fin: "finite_dist (matrix_dist2 E dot (fs_row st)) leaf"
  shows "\<exists>bs. concat bs = leaf_reference E (sketch_at sk) (matrix_dist2 E dot (fs_row st)) leaf \<and>
    (\<forall>n (flush :: 'st edge_flush) s. process_leaf ((with_stores E srt give c st sk)\<lparr>lb_max_full_matrix_leaf_size := n\<rparr>) L2 flush leaf [] s =
       res_bind (flush_batches flush bs s) (\<lambda>s. Inr ([], s)))"
proof (cases "length leaf \<le> 1")
  case True
  then show ?thesis by (intro exI [of _ "[]"]) (simp add: leaf_reference_def small_leaf_flush)
next
  case False
  let ?E = "\<lambda>n. with_stores (E\<lparr>lb_max_full_matrix_leaf_size := n\<rparr>) srt give c st sk"
  let ?S = "with_stores E srt give c st sk" and ?D = "matrix_dist2 E dot (fs_row st)"
  have D: "matrix_dist2 (?E n) dot (fs_row st) = ?D" "matrix_dist2 ?S dot (fs_row st) = ?D" for n
    by (simp_all add: matrix_dist2_def [abs_def] with_stores_def)
  have ref: "leaf_reference ?S (sketch_at sk) ?D leaf = leaf_reference E (sketch_at sk) ?D leaf"
    by (simp add: leaf_reference_def leaf_row_edges_def leaf_pair_def sketch_hash_def with_stores_def leaf_k_def Let_def)
  have p: "\<forall>p \<in> set leaf. leaf_point E srt give c st sk p" "1 < length leaf" using leaf False by (simp_all add: plain_leaf_def)
  obtain bs where bs: "concat bs = [] @ leaf_reference ?S (sketch_at sk) ?D leaf"
    "\<And>(flush :: 'st edge_flush) s. hash_and_flush ?S flush leaf (leaf_topk (leaf_k ?S leaf) ?D leaf) [] s =
       res_bind (flush_batches flush bs s) (\<lambda>s. Inr ([], s))"
    using store_leaves.topk_batches [OF p(1) _ p(2), of "[]" ?D, where 'st = 'st] leaf
    by (auto simp: plain_leaf_def)
  have "process_leaf (?E n) L2 flush leaf [] s = res_bind (flush_batches flush bs s) (\<lambda>s. Inr ([], s))"
    for n s and flush :: "'st edge_flush"
  proof -
    have p': "\<forall>p \<in> set leaf. leaf_point (E\<lparr>lb_max_full_matrix_leaf_size := n\<rparr>) srt give c st sk p"
      using p(1) by (simp add: leaf_point_def)
    have "process_leaf (?E n) L2 flush leaf [] s =
        hash_and_flush (?E n) flush leaf (leaf_topk (leaf_k (?E n) leaf) ?D leaf) [] s"
      using leaf fin p(2) mm
      by (subst store_leaves.process_leaf_topk [OF p', where dot = dot])
        (auto simp: D plain_leaf_def leaf_k_def executor_size)
    moreover have "hash_and_flush (?E n) flush leaf t [] s = hash_and_flush ?S flush leaf t [] s" for t
      by (simp add: with_stores_size hash_and_flush_size)
    ultimately show ?thesis using bs(2) by (simp add: leaf_k_def with_stores_def)
  qed
  then show ?thesis using bs(1) by (intro exI [of _ bs]) (simp add: ref with_stores_size)
qed

lemma reference_with_stores:
  "leaf_reference (with_stores E srt give c st sk) sketch D leaf = leaf_reference E sketch D leaf"
  by (simp add: leaf_reference_def leaf_row_edges_def leaf_pair_def sketch_hash_def with_stores_def leaf_k_def Let_def)

lemma parallel_leaf_batches:
  assumes leaf: "plain_leaf E srt give c st sk leaf" and fin: "finite_dist S leaf" and sorts: "unstable_sort bsrt"
    and dist: "\<forall>p \<in> set leaf. \<forall>q \<in> set leaf. lb_distance E L2 p q = Inr (S p q)"
  shows "\<exists>bs. concat bs = leaf_reference E (sketch_at sk) S leaf \<and>
    (\<forall>(flush :: 'st edge_flush) s. process_leaf_parallel_large bsrt (with_stores E srt give c st sk) L2 flush leaf threads block_rows s =
       flush_batches flush bs s)"
proof (cases "length leaf \<le> 1")
  case True
  then show ?thesis by (intro exI [of _ "[]"]) (simp add: leaf_reference_def small_leaf_flush)
next
  case False
  then have p: "\<forall>p \<in> set leaf. leaf_point E srt give c st sk p" "1 < length leaf" using leaf by (simp_all add: plain_leaf_def)
  have k: "leaf_k (with_stores E srt give c st sk) leaf \<le> 32" using leaf by (auto simp: plain_leaf_def leaf_k_def intro: min.coboundedI1)
  show ?thesis
    using store_leaves.parallel_kernel_batches [OF p(1) _ _ _ fin _ k p(2) _ sorts, where metric = L2 and 'st = 'st] leaf dist
    by (simp add: plain_leaf_def reference_with_stores)
qed


definition demo_leaf_env :: leaf_env where
  "demo_leaf_env = \<lparr>lb_f32 = demo_f32, lb_norm = (\<lambda>r. demo_dot r r), lb_mat_mul = (\<lambda>X L. map (\<lambda>x. map (demo_dot x) L) X),
     lb_dim = 0, lb_gather = (\<lambda>opts ids out. Inr out), lb_distance = (\<lambda>m p q. Inr (ucast (p XOR q))), lb_sketch_width = 0,
     lb_read_sketches = (\<lambda>opts ids out. Inr out), lb_adsampling = (\<lambda>v n d k. Inr []), lb_ads_group_dims = 8,
     lb_leaf_knn = 2, lb_max_full_matrix_leaf_size = 3500, lb_m_hash_bits = 1\<rparr>"

definition demo_sketches :: sketch_store where
  "demo_sketches = \<lparr>sk_data = [0, 0x3f800000, 0x40000000], sk_width = 1\<rparr>"

lemma demo_plain_leaf:
  "plain_leaf demo_leaf_env sort_key (\<lambda>off n. 3) \<lparr>dc_enabled = False, dc_alignment = 512\<rparr> sample_store demo_sketches [2, 0, 1]"
  by (simp add: plain_leaf_def leaf_point_def unstable_sort_sort_key sample_store_ok gives_def demo_leaf_env_def
      demo_sketches_def should_use_leaf_adsampling_executor_def LEAF_ADSAMPLING_MIN_SIZE_def usize_max_def
      sample_store_def [THEN arg_cong, of fs_num_points] sample_store_def [THEN arg_cong, of fs_dim])

lemma demo_finite: "finite_dist (matrix_dist2 demo_leaf_env demo_dot (fs_row sample_store)) [2, 0, 1]"
  unfolding finite_dist_def by code_simp





definition wide_store :: file_store where
  "wide_store = \<lparr>fs_file = le32 34 @ le32 1 @ le32s (replicate 34 0), fs_num_points = 34, fs_dim = 1, fs_row_bytes = 4\<rparr>"


end
