(* ===== verification/Build.thy ===== *)
theory Build
  imports Partition LeafBuild SpillDiskReduce
begin

text \<open>
  The build from the partition to the rows of the graph: how the scheduler sends a leaf to a kernel
  (\<^verbatim>\<open>scheduler.rs\<close>), the memory plan and the three ways \<^verbatim>\<open>mod.rs\<close> collects the candidate edges in an
  out-of-memory build (all reservoirs resident, a resident prefix with the rest spilled through
  \<open>HybridEdgeSink\<close>, everything spilled), and the composition of the partition, the leaf kernels, a
  sink and a reducer.

  The drainers of the scheduler run leaves in parallel; what they share is the sink, whose calls are
  atomic. A run is therefore an order of the batches of all leaves. The sizes of \<open>HashPruneReservoir\<close> and
  of its mutex depend on the platform and are parameters.
\<close>

section \<open>The scheduler's budget and dispatch\<close>

record scheduler_budget =
  sb_worker_count :: usize
  sb_leaf_backlog_capacity :: usize
  sb_producer_leaf_backlog_soft_limit :: usize
  sb_large_leaf_min_size :: usize
  sb_leaf_block_rows :: usize

definition MAX_LEAF_BACKLOG_CAPACITY :: usize where
  "MAX_LEAF_BACKLOG_CAPACITY = 1048576"

definition TARGET_LEAF_BACKLOG_BYTES :: usize where
  "TARGET_LEAF_BACKLOG_BYTES = 12 * 1024 * 1024 * 1024"

definition budget_for_memory :: "usize \<Rightarrow> usize \<Rightarrow> usize \<Rightarrow> scheduler_budget" where
  "budget_for_memory workers kernel_safe memory_budget_bytes =
     (let worker_count = max workers 1;
          estimated_leaf_bytes = max (sat_mul (max kernel_safe 1) 4) 1;
          budget_backlog_capacity =
            (if memory_budget_bytes = usize_max then MAX_LEAF_BACKLOG_CAPACITY
             else within (min memory_budget_bytes TARGET_LEAF_BACKLOG_BYTES div estimated_leaf_bytes) 1 MAX_LEAF_BACKLOG_CAPACITY);
          worker_floor = within (sat_mul worker_count 2048) 1 MAX_LEAF_BACKLOG_CAPACITY
      in \<lparr>sb_worker_count = worker_count,
          sb_leaf_backlog_capacity =
            (if memory_budget_bytes = usize_max then min worker_floor budget_backlog_capacity else budget_backlog_capacity),
          sb_producer_leaf_backlog_soft_limit = 0,
          sb_large_leaf_min_size = max 4096 (sat_mul kernel_safe 2),
          sb_leaf_block_rows = 1024\<rparr>)"

definition budget_for_workers :: "usize \<Rightarrow> usize \<Rightarrow> scheduler_budget" where
  "budget_for_workers workers kernel_safe = budget_for_memory workers kernel_safe usize_max"

type_synonym block_sort = "(usize \<times> pending_edge list \<Rightarrow> usize) \<Rightarrow> (usize \<times> pending_edge list) list \<Rightarrow> (usize \<times> pending_edge list) list"

text \<open>
  The kernel a leaf task runs, without a hydrated subset and without prune recorders. The thread's scratch
  buffer is empty when a task starts.
\<close>

definition run_leaf_task :: "block_sort \<Rightarrow> leaf_env \<Rightarrow> scheduler_budget \<Rightarrow> metric \<Rightarrow> 'st edge_flush \<Rightarrow> u32 list \<Rightarrow> 'st \<Rightarrow> 'st result" where
  "run_leaf_task bsrt E budget metric flush leaf st =
     (if sb_large_leaf_min_size budget \<le> length leaf
      then process_leaf_parallel_large bsrt E metric flush leaf (sb_worker_count budget) (sb_leaf_block_rows budget) st
      else res_bind (process_leaf E metric flush leaf [] st) (\<lambda>(edges, st). Inr st))"

primrec process_leaf_batch :: "block_sort \<Rightarrow> leaf_env \<Rightarrow> scheduler_budget \<Rightarrow> metric \<Rightarrow> 'st edge_flush \<Rightarrow> u32 list list \<Rightarrow> 'st \<Rightarrow> 'st result" where
  "process_leaf_batch bsrt E budget metric flush [] st = Inr st"
| "process_leaf_batch bsrt E budget metric flush (leaf # leaves) st =
     res_bind (run_leaf_task bsrt E budget metric flush leaf st) (process_leaf_batch bsrt E budget metric flush leaves)"

text \<open>The same through a \<open>BatchEdgeCollector\<close>, which is flushed once.\<close>

definition collector_flush :: "pending_edge list edge_flush" where
  "collector_flush es collected = Inr (collected @ es)"

definition process_leaf_batch_collected ::
  "block_sort \<Rightarrow> leaf_env \<Rightarrow> scheduler_budget \<Rightarrow> metric \<Rightarrow> 'st edge_flush \<Rightarrow> u32 list list \<Rightarrow> 'st \<Rightarrow> 'st result" where
  "process_leaf_batch_collected bsrt E budget metric flush leaves st =
     res_bind (process_leaf_batch bsrt E budget metric collector_flush leaves []) (\<lambda>edges. flush edges st)"

section \<open>The memory plan\<close>

record plan_params =
  pl_l_max :: usize
  pl_leaf_knn :: usize
  pl_kernel_safe :: usize
  pl_memory_budget :: usize
  pl_spill_cache_bytes :: usize
  pl_reservoir_struct :: usize
  pl_mutex_struct :: usize

definition derive_spill_shard_points :: "usize \<Rightarrow> plan_params \<Rightarrow> usize \<Rightarrow> usize" where
  "derive_spill_shard_points num_points P memory_budget_bytes =
     (let spill_budget = (if pl_spill_cache_bytes P = 0 then max (memory_budget_bytes div 8) 1 else max (pl_spill_cache_bytes P) 1);
          bytes_per_point = max (pl_reservoir_struct P + sat_mul (pl_l_max P) 8) 1
      in within (spill_budget div bytes_per_point) 1 (max num_points 1))"

definition estimate_reservoir_bytes :: "plan_params \<Rightarrow> usize \<Rightarrow> usize" where
  "estimate_reservoir_bytes P num_points =
     sat_mul num_points (pl_reservoir_struct P + pl_mutex_struct P + sat_mul (pl_l_max P) 8)"

definition estimate_leaf_scratch_bytes :: "usize \<Rightarrow> usize \<Rightarrow> usize \<Rightarrow> usize" where
  "estimate_leaf_scratch_bytes max_leaf_size dim leaf_knn =
     (let leaf_size = max max_leaf_size 1;
          dmat = sat_mul (sat_mul leaf_size leaf_size) 4;
          cand = sat_mul leaf_size 16;
          x = sat_mul (sat_mul leaf_size dim) 4;
          edges = sat_mul (sat_mul leaf_size (sat_mul (max leaf_knn 1) 2)) 18
      in sat_add (sat_add (sat_add dmat cand) x) edges)"

definition plan_resident_reservoir_prefix :: "plan_params \<Rightarrow> usize \<Rightarrow> usize \<Rightarrow> usize \<Rightarrow> usize \<Rightarrow> usize \<Rightarrow> usize \<Rightarrow> usize" where
  "plan_resident_reservoir_prefix P num_points effective_threads dim sketch_bytes shard_points reservoir_budget_bytes =
     (let active_scratch_bytes = sat_mul (estimate_leaf_scratch_bytes (pl_kernel_safe P) dim (pl_leaf_knn P)) (max effective_threads 1);
          fixed_headroom = max (reservoir_budget_bytes div 10) (512 * 1024 * 1024);
          shard_points = max shard_points 1;
          available = reservoir_budget_bytes - active_scratch_bytes - sketch_bytes - fixed_headroom;
          bytes_per_point = max (estimate_reservoir_bytes P 1) 1;
          resident_points_raw = available div bytes_per_point
      in if num_points \<le> resident_points_raw then num_points
         else min (sat_mul (resident_points_raw div shard_points) shard_points) num_points)"

definition plan_resident_reservoir_prefix_from_cap :: "plan_params \<Rightarrow> usize \<Rightarrow> usize \<Rightarrow> usize" where
  "plan_resident_reservoir_prefix_from_cap P num_points reservoir_cap_bytes =
     min (reservoir_cap_bytes div max (estimate_reservoir_bytes P 1) 1) num_points"

definition derive_oom_worker_count :: "plan_params \<Rightarrow> usize \<Rightarrow> usize \<Rightarrow> usize" where
  "derive_oom_worker_count P requested_threads dim =
     (let requested_threads = max requested_threads 1;
          per_worker_bytes = max (sat_add (estimate_leaf_scratch_bytes (pl_kernel_safe P) dim (pl_leaf_knn P)) (32 * 1024 * 1024)) 1;
          shared_reserve_bytes = sat_mul (pl_memory_budget P) 2 div 3;
          worker_budget = max (pl_memory_budget P - shared_reserve_bytes) per_worker_bytes;
          budget_threads = max (worker_budget div per_worker_bytes) 1
      in min requested_threads (max budget_threads 1))"

record execution_threads =
  et_pool_threads :: usize
  et_leaf_budget_threads :: usize

definition derive_oom_execution_threads :: "plan_params \<Rightarrow> usize \<Rightarrow> usize \<Rightarrow> execution_threads" where
  "derive_oom_execution_threads P requested_threads dim =
     (let pool_threads = max requested_threads 1
      in \<lparr>et_pool_threads = pool_threads, et_leaf_budget_threads = derive_oom_worker_count P pool_threads dim\<rparr>)"

section \<open>The hybrid sink\<close>

definition hybrid_flush ::
  "((pending_edge \<Rightarrow> usize) \<Rightarrow> pending_edge list \<Rightarrow> pending_edge list) \<Rightarrow> 'sp edge_flush \<Rightarrow> usize \<Rightarrow> (reservoir list \<times> 'sp) edge_flush" where
  "hybrid_flush srt spill resident_points edges st =
     (let (rs, sp) = st in
      if edges = [] then Inr (rs, sp)
      else
        (let resident_edges = filter (\<lambda>e. e_p e < resident_points) edges;
             spill_edges = filter (\<lambda>e. \<not> e_p e < resident_points) edges
         in res_bind (if resident_edges \<noteq> [] then flush_pending_edges_to_reservoirs srt resident_edges rs else Inr rs) (\<lambda>rs.
            res_bind (if spill_edges \<noteq> [] then spill spill_edges sp else Inr sp) (\<lambda>sp. Inr (rs, sp)))))"

text \<open>The rows of the resident reservoirs, handed to the callback.\<close>

fun emit_reservoirs :: "'st callback \<Rightarrow> 'st \<Rightarrow> nat \<Rightarrow> reservoir list \<Rightarrow> 'st result" where
  "emit_reservoirs cb st i [] = Inr st"
| "emit_reservoirs cb st i (r # rs) =
     res_bind (cb st (word_of_nat i) (into_neighbors r)) (\<lambda>st. emit_reservoirs cb st (Suc i) rs)"

section \<open>Collecting the edges\<close>

text \<open>What a build is given besides the edges: the sorts, the system, the files and the sizes.\<close>

record oom_setup =
  os_sorts :: sorts
  os_desc_sort :: desc_sort
  os_part_sort :: part_sort
  os_hm_order :: "usize list \<Rightarrow> usize list"
  os_sys :: os
  os_edge_bytes :: usize
  os_base :: "string \<times> string"
  os_cache_bytes :: usize
  os_shard_points :: usize
  os_io :: direct_io_config
  os_files :: files
  os_parallel_groups :: nat
  os_l_max :: usize

definition hybrid_build ::
  "oom_setup \<Rightarrow> usize \<Rightarrow> usize \<Rightarrow> pending_edge list list \<Rightarrow> 'st callback \<Rightarrow> 'st \<Rightarrow> 'st result" where
  "hybrid_build X resident num_points batches cb st =
     res_bind (allocate_reservoir_slab resident (os_l_max X)) (\<lambda>rs.
     res_bind (flush_batches (hybrid_flush (by_edge_p (os_sorts X)) (file_flush_pending_edges (os_sorts X) (os_sys X)) resident) batches
        (rs, create_sharded_with_config (os_edge_bytes X) (os_base X) (os_cache_bytes X) (os_shard_points X) (os_io X) (os_files X))) (\<lambda>(rs, sp).
     res_bind (file_finish (os_sorts X) (os_hm_order X) (os_sys X) sp) (\<lambda>(ar, fs).
     res_bind (emit_reservoirs cb st 0 rs) (\<lambda>st.
     res_bind (reduce_sharded_profiled_from_parallel (os_desc_sort X) (os_part_sort X) (os_sys X) fs resident num_points (os_l_max X)
        (os_shard_points X) ar (os_parallel_groups X) cb st) (\<lambda>(st, stats). Inr st)))))"

definition resident_build :: "oom_setup \<Rightarrow> usize \<Rightarrow> pending_edge list list \<Rightarrow> 'st callback \<Rightarrow> 'st \<Rightarrow> 'st result" where
  "resident_build X num_points batches cb st =
     res_bind (allocate_reservoir_slab num_points (os_l_max X)) (\<lambda>rs.
     res_bind (flush_batches (flush_pending_edges_to_reservoirs (by_edge_p (os_sorts X))) batches rs)
       (emit_reservoirs cb st 0))"

definition spilled_build :: "oom_setup \<Rightarrow> usize \<Rightarrow> pending_edge list list \<Rightarrow> 'st callback \<Rightarrow> 'st \<Rightarrow> 'st result" where
  "spilled_build X num_points batches cb st =
     res_bind (flush_batches (file_flush_pending_edges (os_sorts X) (os_sys X)) batches
        (create_sharded_with_config (os_edge_bytes X) (os_base X) (os_cache_bytes X) (os_shard_points X) (os_io X) (os_files X))) (\<lambda>sp.
     res_bind (file_finish (os_sorts X) (os_hm_order X) (os_sys X) sp) (\<lambda>(ar, fs).
     res_bind (reduce_sharded_profiled_from_parallel (os_desc_sort X) (os_part_sort X) (os_sys X) fs 0 num_points (os_l_max X)
        (os_shard_points X) ar (os_parallel_groups X) cb st) (\<lambda>(st, stats). Inr st)))"

text \<open>The choice by the plan's number of resident points.\<close>

definition oom_build :: "oom_setup \<Rightarrow> usize \<Rightarrow> usize \<Rightarrow> pending_edge list list \<Rightarrow> 'st callback \<Rightarrow> 'st \<Rightarrow> 'st result" where
  "oom_build X resident num_points batches cb st =
     (if resident = num_points then resident_build X num_points batches cb st
      else if 0 < resident then hybrid_build X resident num_points batches cb st
      else spilled_build X num_points batches cb st)"

section \<open>Bounds of the plan\<close>

lemma spill_shard_bounds: "1 \<le> derive_spill_shard_points n P m \<and> derive_spill_shard_points n P m \<le> max n 1"
  by (simp add: derive_spill_shard_points_def Let_def within_bounds del: One_nat_def)

lemma resident_prefix_bounds:
  fixes P :: plan_params and n threads dim sketch shard budget :: usize
  defines "r \<equiv> plan_resident_reservoir_prefix P n threads dim sketch shard budget"
  shows "r \<le> n" and "r = n \<or> max shard 1 dvd r \<or> usize_max \<le> n"
    and "r * max (estimate_reservoir_bytes P 1) 1 + max (budget div 10) (512 * 1024 * 1024) \<le> max budget (max (budget div 10) (512 * 1024 * 1024))"
proof -
  define A where "A = budget - sat_mul (estimate_leaf_scratch_bytes (pl_kernel_safe P) dim (pl_leaf_knn P)) (max threads 1) - sketch -
    max (budget div 10) (512 * 1024 * 1024)"
  define b where "b = max (estimate_reservoir_bytes P 1) 1"
  define s where "s = max shard 1"
  have r: "r = (if n \<le> A div b then n else min (sat_mul (A div b div s) s) n)"
    unfolding r_def plan_resident_reservoir_prefix_def Let_def A_def b_def s_def by (rule refl)
  show "r \<le> n" by (simp add: r)
  have "sat_mul (A div b div s) s = A div b div s * s \<or> usize_max = sat_mul (A div b div s) s"
    by (auto simp: sat_mul_def min_def)
  moreover have "s dvd A div b div s * s" by simp
  ultimately have "r = n \<or> s dvd r \<or> usize_max \<le> n" unfolding r by (metis min_def)
  then show "r = n \<or> max shard 1 dvd r \<or> usize_max \<le> n" unfolding s_def .
  have "sat_mul (A div b div s) s \<le> A div b div s * s" by (simp add: sat_mul_def)
  also have "\<dots> \<le> A div b" by simp
  finally have "r \<le> A div b" by (auto simp: r)
  then have "r * b \<le> A" by (metis div_times_less_eq_dividend le_trans mult_le_mono1)
  moreover have "A + h \<le> max budget h" if "A = budget - x - y - h" for x y h using that by linarith
  ultimately show "r * max (estimate_reservoir_bytes P 1) 1 + max (budget div 10) (512 * 1024 * 1024) \<le> max budget (max (budget div 10) (512 * 1024 * 1024))"
    unfolding b_def [symmetric] by (meson A_def add_le_mono1 le_trans)
qed

lemma worker_count_bounds: "1 \<le> derive_oom_worker_count P t dim \<and> derive_oom_worker_count P t dim \<le> max t 1"
  unfolding derive_oom_worker_count_def Let_def by auto

lemma worker_count_memory:
  fixes P :: plan_params and t dim :: usize
  defines "per \<equiv> max (sat_add (estimate_leaf_scratch_bytes (pl_kernel_safe P) dim (pl_leaf_knn P)) (32 * 1024 * 1024)) 1"
  shows "derive_oom_worker_count P t dim * per \<le> max (pl_memory_budget P) per"
proof -
  define B where "B = pl_memory_budget P"
  define W where "W = max (B - sat_mul B 2 div 3) per"
  have "per \<le> W" "0 < per" by (simp_all add: W_def per_def)
  then have one: "1 \<le> W div per" by (simp add: Suc_leI div_greater_zero_iff)
  have "derive_oom_worker_count P t dim = min (max t 1) (max (max (W div per) 1) 1)"
    unfolding derive_oom_worker_count_def Let_def W_def B_def per_def by simp
  then have "derive_oom_worker_count P t dim \<le> W div per" using one by simp
  then have "derive_oom_worker_count P t dim * per \<le> W div per * per" by (rule mult_le_mono1)
  also have "\<dots> \<le> W" by simp
  also have "\<dots> \<le> max B per" by (simp add: W_def)
  finally show ?thesis by (simp add: B_def)
qed

lemma budget_sizes:
  "sb_worker_count (budget_for_memory w ks m) = max w 1"
  "1 \<le> sb_leaf_backlog_capacity (budget_for_memory w ks m)"
  "sb_leaf_backlog_capacity (budget_for_memory w ks m) \<le> MAX_LEAF_BACKLOG_CAPACITY"
  "4096 \<le> sb_large_leaf_min_size (budget_for_memory w ks m)"
  using within_bounds [of 1 MAX_LEAF_BACKLOG_CAPACITY]
  by (auto simp: budget_for_memory_def Let_def MAX_LEAF_BACKLOG_CAPACITY_def)

lemma large_leaf_above_kernel:
  "0 < ks \<Longrightarrow> ks < usize_max \<Longrightarrow> ks < sb_large_leaf_min_size (budget_for_memory w ks m)"
  by (auto simp: budget_for_memory_def Let_def sat_mul_def)

section \<open>Rows of the three builds\<close>

lemma hybrid_flush_split:
  "hybrid_flush srt spill R es (rs, sp) =
     res_bind (flush_pending_edges_to_reservoirs srt (filter (\<lambda>e. e_p e < R) es) rs) (\<lambda>rs.
     res_bind (if filter (\<lambda>e. \<not> e_p e < R) es = [] then Inr sp else spill (filter (\<lambda>e. \<not> e_p e < R) es) sp) (\<lambda>sp. Inr (rs, sp)))"
  by (cases "filter (\<lambda>e. e_p e < R) es = []") (auto simp: hybrid_flush_def flush_pending_edges_to_reservoirs_def)

lemma hybrid_batches:
  assumes "\<And>sp. spill [] sp = Inr sp"
    and "flush_batches (flush_pending_edges_to_reservoirs srt) (map (filter (\<lambda>e. e_p e < R)) bs) rs = Inr rs'"
    and "flush_batches spill (map (filter (\<lambda>e. \<not> e_p e < R)) bs) sp = Inr sp'"
  shows "flush_batches (hybrid_flush srt spill R) bs (rs, sp) = Inr (rs', sp')"
  using assms(2,3)
proof (induction bs arbitrary: rs sp)
  case (Cons es bs)
  obtain rs1 where rs1: "flush_pending_edges_to_reservoirs srt (filter (\<lambda>e. e_p e < R) es) rs = Inr rs1"
    "flush_batches (flush_pending_edges_to_reservoirs srt) (map (filter (\<lambda>e. e_p e < R)) bs) rs1 = Inr rs'"
    using Cons.prems(1) by (auto simp: res_bind_Inr_iff)
  obtain sp1 where sp1: "spill (filter (\<lambda>e. \<not> e_p e < R) es) sp = Inr sp1"
    "flush_batches spill (map (filter (\<lambda>e. \<not> e_p e < R)) bs) sp1 = Inr sp'"
    using Cons.prems(2) by (auto simp: res_bind_Inr_iff)
  have "(if filter (\<lambda>e. \<not> e_p e < R) es = [] then Inr sp else spill (filter (\<lambda>e. \<not> e_p e < R) es) sp) = Inr sp1"
    using sp1(1) assms(1) by (cases "filter (\<lambda>e. \<not> e_p e < R) es") (auto split: if_splits)
  then have "hybrid_flush srt spill R es (rs, sp) = Inr (rs1, sp1)"
    unfolding hybrid_flush_split by (simp only: rs1(1) res_bind_simps)
  then show ?case using Cons.IH [OF rs1(2) sp1(2)] by simp
qed simp

lemma emit_reservoirs_rows: "emit_reservoirs cb st i rs = run_rows cb st (enumerate i (map into_neighbors rs))"
  by (induction rs arbitrary: i st) (auto intro!: res_bind_cong)

lemma cands_for_filter:
  "p < R \<Longrightarrow> cands_for p (concat (map (filter (\<lambda>e. e_p e < R)) bs)) = cands_for p (concat bs)"
  "\<not> p < R \<Longrightarrow> cands_for p (concat (map (filter (\<lambda>e. \<not> e_p e < R)) bs)) = cands_for p (concat bs)"
proof -
  have "p < R \<Longrightarrow> cands_for p (filter (\<lambda>e. e_p e < R) es) = cands_for p es"
    "\<not> p < R \<Longrightarrow> cands_for p (filter (\<lambda>e. \<not> e_p e < R) es) = cands_for p es" for es
    by (auto simp: cands_for_def intro!: arg_cong [of _ _ "map edge_cand"] filter_cong)
  then show "p < R \<Longrightarrow> cands_for p (concat (map (filter (\<lambda>e. e_p e < R)) bs)) = cands_for p (concat bs)"
    "\<not> p < R \<Longrightarrow> cands_for p (concat (map (filter (\<lambda>e. \<not> e_p e < R)) bs)) = cands_for p (concat bs)"
    by (induction bs) simp_all
qed

text \<open>What a build relies on of its setup.\<close>

definition oom_setup_ok :: "oom_setup \<Rightarrow> bool" where
  "oom_setup_ok X \<longleftrightarrow> sorts_ok (os_sorts X) \<and> unstable_sort (os_desc_sort X) \<and> unstable_sort (os_part_sort X) \<and>
     (\<forall>ks. mset (os_hm_order X ks) = mset ks) \<and> os_ok (os_sys X) \<and> dc_alignment (os_io X) \<le> 2 ^ 63 \<and>
     0 < os_l_max X \<and> os_l_max X < 2 ^ 32"

definition fresh_reservoir :: "oom_setup \<Rightarrow> reservoir" where
  "fresh_reservoir X = \<lparr>l_max = os_l_max X, slots = [], farthest_idx = 0, farthest_dist = f32_zero\<rparr>"

lemma fresh_reservoir: "oom_setup_ok X \<Longrightarrow> reservoir_new (os_l_max X) = Inr (fresh_reservoir X)"
  by (simp add: oom_setup_ok_def reservoir_new_def fresh_reservoir_def)

text \<open>The rows of a graph: the callback's calls for the points in order.\<close>

definition built_rows :: "oom_setup \<Rightarrow> (nat \<Rightarrow> candidate list) \<Rightarrow> nat \<Rightarrow> nat \<Rightarrow> (nat \<times> u32 list) list" where
  "built_rows X order a b = map (\<lambda>p. (p, into_neighbors (insert_all (fresh_reservoir X) (order p)))) [a..<b]"

lemma built_rows_split: "a \<le> b \<Longrightarrow> b \<le> c \<Longrightarrow> built_rows X order a c = built_rows X order a b @ built_rows X order b c"
  using upt_add_eq_append [of a b "c - b"] by (simp add: built_rows_def)

lemma built_rows_cong: "(\<And>p. a \<le> p \<Longrightarrow> p < b \<Longrightarrow> f p = g p) \<Longrightarrow> built_rows X f a b = built_rows X g a b"
  by (simp add: built_rows_def)

definition orders :: "pending_edge list list \<Rightarrow> (nat \<Rightarrow> candidate list) \<Rightarrow> bool" where
  "orders batches order \<longleftrightarrow> (\<forall>p. mset (order p) = mset (cands_for p (concat batches)))"

lemma resident_rows:
  assumes X: "oom_setup_ok X" and p: "\<forall>e \<in> set (concat bs). e_p e < R"
  shows "\<exists>order rs. orders bs order \<and>
    flush_batches (flush_pending_edges_to_reservoirs (by_edge_p (os_sorts X))) bs (replicate R (fresh_reservoir X)) = Inr rs \<and>
    (\<forall>(cb :: 'st callback) st. emit_reservoirs cb st 0 rs = run_rows cb st (built_rows X order 0 R))"
proof -
  have "unstable_sort (by_edge_p (os_sorts X))" using X by (simp add: oom_setup_ok_def sorts_ok_def)
  from direct_path_cands [OF this, of bs "replicate R (fresh_reservoir X)"] p obtain order where
    o: "\<And>p. mset (order p) = mset (cands_for p (concat bs))"
    "flush_batches (flush_pending_edges_to_reservoirs (by_edge_p (os_sorts X))) bs (replicate R (fresh_reservoir X)) =
       Inr (map (\<lambda>p. insert_all (replicate R (fresh_reservoir X) ! p) (order p)) [0..<R])" by auto
  let ?rs = "map (\<lambda>p. insert_all (replicate R (fresh_reservoir X) ! p) (order p)) [0..<R]"
  have "enumerate 0 (map into_neighbors ?rs) = built_rows X order 0 R"
    by (rule nth_equalityI) (simp_all add: built_rows_def nth_enumerate_eq)
  then show ?thesis using o by (intro exI [of _ order] exI [of _ ?rs]) (simp add: orders_def emit_reservoirs_rows)
qed

lemma spilled_rows:
  assumes X: "oom_setup_ok X" and p: "\<forall>e \<in> set (concat bs). e_p e < N" "N \<le> 2 ^ 32" "length (concat bs) \<le> 2 ^ 42"
  shows "\<exists>sp ar fs. flush_batches (file_flush_pending_edges (os_sorts X) (os_sys X)) bs
        (create_sharded_with_config (os_edge_bytes X) (os_base X) (os_cache_bytes X) (os_shard_points X) (os_io X) (os_files X)) = Inr sp \<and>
    file_finish (os_sorts X) (os_hm_order X) (os_sys X) sp = Inr (ar, fs) \<and>
    (\<forall>R (cb :: 'st callback) st. \<exists>order. orders bs order \<and>
       res_bind (reduce_sharded_profiled_from_parallel (os_desc_sort X) (os_part_sort X) (os_sys X) fs R N (os_l_max X)
         (os_shard_points X) ar (os_parallel_groups X) cb st) (\<lambda>(st, stats). Inr st) = run_rows cb st (built_rows X order R N))"
proof -
  have x: "sorts_ok (os_sorts X)" "unstable_sort (os_desc_sort X)" "unstable_sort (os_part_sort X)"
    "\<forall>ks. mset (os_hm_order X ks) = mset ks" "os_ok (os_sys X)" "dc_alignment (os_io X) \<le> 2 ^ 63" "os_l_max X < 2 ^ 32"
    using X by (simp_all add: oom_setup_ok_def)
  have small: "\<forall>e \<in> set (concat bs). e_p e < 2 ^ 32" using p(1,2) by fastforce
  have hm: "\<And>ks. mset (os_hm_order X ks) = mset ks" using x(4) by simp
  obtain ar fs where b: "file_spill_build (os_sorts X) (os_hm_order X) (os_sys X) (os_edge_bytes X) (os_base X) (os_cache_bytes X)
      (os_shard_points X) (os_io X) (os_files X) bs = Inr (ar, fs)"
    using file_spill_build_ok [OF x(1) hm x(5,6) small p(3)] by blast
  then obtain sp where sp: "flush_batches (file_flush_pending_edges (os_sorts X) (os_sys X)) bs
        (create_sharded_with_config (os_edge_bytes X) (os_base X) (os_cache_bytes X) (os_shard_points X) (os_io X) (os_files X)) = Inr sp"
    "file_finish (os_sorts X) (os_hm_order X) (os_sys X) sp = Inr (ar, fs)"
    by (auto simp: file_spill_build_def res_bind_Inr_iff)
  have "\<exists>order. orders bs order \<and>
       res_bind (reduce_sharded_profiled_from_parallel (os_desc_sort X) (os_part_sort X) (os_sys X) fs R N (os_l_max X)
         (os_shard_points X) ar (os_parallel_groups X) cb st) (\<lambda>(st, stats). Inr st) = run_rows cb st (built_rows X order R N)"
    for R and cb :: "'st callback" and st
  proof -
    obtain order where "\<And>p. mset (order p) = mset (cands_for p (concat bs))"
      "file_spill_pipeline (os_sorts X) (os_desc_sort X) (os_part_sort X) (os_hm_order X) (os_sys X) (os_edge_bytes X) (os_base X)
         (os_cache_bytes X) (os_shard_points X) (os_io X) (os_files X) bs N R (os_l_max X) (os_parallel_groups X) cb st =
       run_rows cb st (map (\<lambda>p. (p, into_neighbors (insert_all (fresh_reservoir X) (order p)))) [R..<N])"
      by (rule file_spill_pipeline_run [OF x(1-6) fresh_reservoir [OF X] x(7) p, where eb = "os_edge_bytes X"
            and base = "os_base X" and cache_bytes = "os_cache_bytes X" and pps = "os_shard_points X" and fs = "os_files X"
            and ps = R and k = "os_parallel_groups X" and cb = cb and st = st]) blast
    then show ?thesis by (intro exI [of _ order]) (simp add: file_spill_pipeline_def b orders_def built_rows_def)
  qed
  then show ?thesis using sp by blast
qed

text \<open>The three builds call the callback with the same rows.\<close>

lemma file_flush_nil: "file_flush_pending_edges S sys [] sp = Inr sp"
  by (simp add: file_flush_pending_edges_def)

lemma length_concat_filter: "length (concat (map (filter P) bs)) \<le> length (concat bs)"
  by (induction bs) (simp_all add: add_le_mono)

lemma resident_build_rows:
  assumes "oom_setup_ok X" "\<forall>e \<in> set (concat bs). e_p e < N"
  shows "\<exists>order. orders bs order \<and> resident_build X N bs cb st = run_rows cb st (built_rows X order 0 N)"
proof -
  from resident_rows [OF assms, where 'st = 'a] obtain order rs where o: "orders bs order"
    "flush_batches (flush_pending_edges_to_reservoirs (by_edge_p (os_sorts X))) bs (replicate N (fresh_reservoir X)) = Inr rs"
    "\<And>st (cb :: 'a callback). emit_reservoirs cb st 0 rs = run_rows cb st (built_rows X order 0 N)" by blast
  then show ?thesis
    by (intro exI [of _ order]) (simp add: resident_build_def allocate_reservoir_slab_ok [OF fresh_reservoir [OF assms(1)]])
qed

lemma spilled_build_rows:
  assumes "oom_setup_ok X" "\<forall>e \<in> set (concat bs). e_p e < N" "N \<le> 2 ^ 32" "length (concat bs) \<le> 2 ^ 42"
  shows "\<exists>order. orders bs order \<and> spilled_build X N bs cb st = run_rows cb st (built_rows X order 0 N)"
proof -
  from spilled_rows [OF assms, where 'st = 'a] obtain sp ar fs where o: "flush_batches (file_flush_pending_edges (os_sorts X) (os_sys X)) bs
        (create_sharded_with_config (os_edge_bytes X) (os_base X) (os_cache_bytes X) (os_shard_points X) (os_io X) (os_files X)) = Inr sp"
    "file_finish (os_sorts X) (os_hm_order X) (os_sys X) sp = Inr (ar, fs)"
    and r: "\<And>R (cb :: 'a callback) st. \<exists>order. orders bs order \<and>
       res_bind (reduce_sharded_profiled_from_parallel (os_desc_sort X) (os_part_sort X) (os_sys X) fs R N (os_l_max X)
         (os_shard_points X) ar (os_parallel_groups X) cb st) (\<lambda>(st, stats). Inr st) = run_rows cb st (built_rows X order R N)" by blast
  then show ?thesis using r [of 0 cb st] by (simp add: spilled_build_def)
qed

lemma hybrid_build_rows:
  assumes X: "oom_setup_ok X" and p: "\<forall>e \<in> set (concat bs). e_p e < N" "N \<le> 2 ^ 32" "length (concat bs) \<le> 2 ^ 42" and "R \<le> N"
  shows "\<exists>order. orders bs order \<and> hybrid_build X R N bs cb st = run_rows cb st (built_rows X order 0 N)"
proof -
  let ?low = "map (filter (\<lambda>e. e_p e < R)) bs" and ?high = "map (filter (\<lambda>e. \<not> e_p e < R)) bs"
  have low: "\<forall>e \<in> set (concat ?low). e_p e < R" by auto
  have high: "\<forall>e \<in> set (concat ?high). e_p e < N" "length (concat ?high) \<le> 2 ^ 42"
    using p(1) length_concat_filter [of _ bs] p(3) by (auto intro: le_trans simp del: length_concat)
  from resident_rows [OF X low, where 'st = 'a] obtain lo rs where l: "orders ?low lo"
    "flush_batches (flush_pending_edges_to_reservoirs (by_edge_p (os_sorts X))) ?low (replicate R (fresh_reservoir X)) = Inr rs"
    "\<And>st (cb :: 'a callback). emit_reservoirs cb st 0 rs = run_rows cb st (built_rows X lo 0 R)" by blast
  from spilled_rows [OF X high(1) p(2) high(2), where 'st = 'a] obtain sp ar fs where h: "flush_batches (file_flush_pending_edges (os_sorts X) (os_sys X)) ?high
        (create_sharded_with_config (os_edge_bytes X) (os_base X) (os_cache_bytes X) (os_shard_points X) (os_io X) (os_files X)) = Inr sp"
    "file_finish (os_sorts X) (os_hm_order X) (os_sys X) sp = Inr (ar, fs)"
    and r: "\<And>R (cb :: 'a callback) st. \<exists>order. orders ?high order \<and>
       res_bind (reduce_sharded_profiled_from_parallel (os_desc_sort X) (os_part_sort X) (os_sys X) fs R N (os_l_max X)
         (os_shard_points X) ar (os_parallel_groups X) cb st) (\<lambda>(st, stats). Inr st) = run_rows cb st (built_rows X order R N)" by blast
  obtain st1 where st1: "run_rows cb st (built_rows X lo 0 R) = Inr st1 \<or> (\<exists>e. run_rows cb st (built_rows X lo 0 R) = Inl e)"
    by (cases "run_rows cb st (built_rows X lo 0 R)") auto
  from r [of R cb st1] obtain hi where hi: "orders ?high hi"
       "res_bind (reduce_sharded_profiled_from_parallel (os_desc_sort X) (os_part_sort X) (os_sys X) fs R N (os_l_max X)
         (os_shard_points X) ar (os_parallel_groups X) cb st1) (\<lambda>(st, stats). Inr st) = run_rows cb st1 (built_rows X hi R N)" by blast
  define order where "order p = (if p < R then lo p else hi p)" for p
  have "mset (order p) = mset (cands_for p (concat bs))" for p
    using l(1) hi(1) cands_for_filter [of p R bs] by (cases "p < R") (simp_all add: order_def orders_def)
  then have "orders bs order" by (simp add: orders_def)
  moreover have "built_rows X order 0 N = built_rows X lo 0 R @ built_rows X hi R N"
  proof -
    have "built_rows X order 0 R = built_rows X lo 0 R" "built_rows X order R N = built_rows X hi R N"
      by (rule built_rows_cong; simp add: order_def)+
    then show ?thesis using built_rows_split [of 0 R N X order] assms(5) by simp
  qed
  moreover have "hybrid_build X R N bs cb st = res_bind (run_rows cb st (built_rows X lo 0 R)) (\<lambda>st. res_bind
      (reduce_sharded_profiled_from_parallel (os_desc_sort X) (os_part_sort X) (os_sys X) fs R N (os_l_max X)
         (os_shard_points X) ar (os_parallel_groups X) cb st) (\<lambda>(st, stats). Inr st))"
    using hybrid_batches [OF file_flush_nil l(2) h(1)]
    by (simp add: hybrid_build_def allocate_reservoir_slab_ok [OF fresh_reservoir [OF X]] h(2) l(3))
  ultimately show ?thesis using st1 hi(2)
    by (intro exI [of _ order]) (auto simp: run_rows_append)
qed

lemma oom_build_run:
  assumes "oom_setup_ok X" "\<forall>e \<in> set (concat batches). e_p e < num_points" "num_points \<le> 2 ^ 32"
    and "length (concat batches) \<le> 2 ^ 42" "resident \<le> num_points"
  shows "\<exists>order. orders batches order \<and>
    oom_build X resident num_points batches cb st = run_rows cb st (built_rows X order 0 num_points)"
  using resident_build_rows [OF assms(1,2), of cb st] spilled_build_rows [OF assms(1-4), of cb st] hybrid_build_rows [OF assms, of cb st]
  unfolding oom_build_def by (cases "resident = num_points"; cases "0 < resident") simp_all

text \<open>C8: However many reservoirs the memory plan keeps resident, none, a prefix or all, an out-of-memory
  build hands the callback the same rows: the points \<open>0\<close>, \<dots>, \<open>num_points - 1\<close> in this order, each once,
  with what a fresh reservoir keeps of that point's edges in some order, whatever the sizes of the spill
  buffers, the order of the sorts and of the maps. Only the callback can fail.\<close>

theorem oom_build_rows:
  assumes "oom_setup_ok X" "\<forall>e \<in> set (concat batches). e_p e < num_points" "num_points \<le> 2 ^ 32"
    and "length (concat batches) \<le> 2 ^ 42" "resident \<le> num_points"
  shows "\<exists>order. orders batches order \<and>
    oom_build X resident num_points batches cb st = run_rows cb st (built_rows X order 0 num_points)"
  by (rule oom_build_run [OF assms])

definition demo_oom_setup :: oom_setup where
  "demo_oom_setup = \<lparr>os_sorts = stable_sorts, os_desc_sort = sort_key, os_part_sort = sort_key, os_hm_order = rev,
     os_sys = sample_os, os_edge_bytes = 24, os_base = (''d/'', ''cand''), os_cache_bytes = 48, os_shard_points = 2,
     os_io = enabled_with_alignment 512, os_files = Map.empty, os_parallel_groups = 4, os_l_max = 2\<rparr>"

lemma demo_oom_setup_ok: "oom_setup_ok demo_oom_setup"
  using stable_sorts_ok unstable_sort_sort_key unstable_sort_sort_key sample_os_ok
  by (simp add: oom_setup_ok_def demo_oom_setup_def enabled_with_alignment_def next_power_of_two_def
      pow2_from.simps usize_max_def DEFAULT_DIRECT_IO_ALIGNMENT_def)

theorem oom_build_rows_witness:
  "\<exists>order. orders sample_batches order \<and>
    oom_build demo_oom_setup 2 5 sample_batches collect_rows [] = run_rows collect_rows [] (built_rows demo_oom_setup order 0 5)"
  by (rule oom_build_rows [OF demo_oom_setup_ok]) (simp_all add: sample_batches_def)

text \<open>C25: The memory plan stays within its bounds. The resident prefix never exceeds the points, is a whole number
  of shards unless it is all of them, and its reservoirs with the fixed headroom fit the reservoir budget
  whenever that budget covers the headroom; the worker count is at least one, at most what was requested,
  and more than one worker is granted only if their scratch fits the memory budget; a shard has between one
  point and all of them.\<close>

theorem oom_plan_bounds:
  "(let r = plan_resident_reservoir_prefix P n threads dim sketch shard budget; headroom = max (budget div 10) (512 * 1024 * 1024)
    in r \<le> n \<and> (r = n \<or> max shard 1 dvd r \<or> usize_max \<le> n) \<and>
       r * max (estimate_reservoir_bytes P 1) 1 + headroom \<le> max budget headroom) \<and>
   (let w = derive_oom_worker_count P threads dim;
        per = max (sat_add (estimate_leaf_scratch_bytes (pl_kernel_safe P) dim (pl_leaf_knn P)) (32 * 1024 * 1024)) 1
    in 1 \<le> w \<and> w \<le> max threads 1 \<and> w * per \<le> max (pl_memory_budget P) per) \<and>
   (let s = derive_spill_shard_points n P m in 1 \<le> s \<and> s \<le> max n 1)"
  unfolding Let_def
  by (intro conjI resident_prefix_bounds worker_count_memory spill_shard_bounds [THEN conjunct1] spill_shard_bounds [THEN conjunct2]
      worker_count_bounds [THEN conjunct1] worker_count_bounds [THEN conjunct2])

section \<open>The in-memory build\<close>

text \<open>
  \<open>build_forgeann_graph_with_store\<close> without prune recorders: partition, leaf tasks, rows. The threads of the
  scheduler run the leaf tasks concurrently; they meet in the sink only, whose flushes are atomic, so a run is
  an order \<open>sched\<close> of the flushes of all tasks.
\<close>

definition record_flush :: "pending_edge list list edge_flush" where
  "record_flush es bs = Inr (bs @ [es])"

primrec leaf_task_batches :: "block_sort \<Rightarrow> leaf_env \<Rightarrow> scheduler_budget \<Rightarrow> metric \<Rightarrow> u32 list list \<Rightarrow> pending_edge list list list result" where
  "leaf_task_batches bsrt E budget metric [] = Inr []"
| "leaf_task_batches bsrt E budget metric (leaf # leaves) =
     res_bind (run_leaf_task bsrt E budget metric record_flush leaf []) (\<lambda>bs.
     res_bind (leaf_task_batches bsrt E budget metric leaves) (\<lambda>bss. Inr (bs # bss)))"

definition build_in_memory ::
  "block_sort \<Rightarrow> (pending_edge list list list \<Rightarrow> pending_edge list list) \<Rightarrow> part_env \<Rightarrow> usize \<Rightarrow> u64 \<Rightarrow> u64 \<Rightarrow> leaf_env \<Rightarrow> oom_setup \<Rightarrow>
   usize \<Rightarrow> metric \<Rightarrow> usize \<Rightarrow> 'st callback \<Rightarrow> 'st \<Rightarrow> 'st result" where
  "build_in_memory bsrt sched P psamp sample_seed seed E X threads metric num_points cb st =
     (if num_points = 0 then Inr st
      else if 16 < lb_m_hash_bits E then Inl (Panic ''m_hash_bits must be <= 16'')
      else
        res_bind (allocate_reservoir_slab num_points (os_l_max X)) (\<lambda>rs.
        res_bind (rbc_partition P psamp sample_seed seed (map word_of_nat [0..<num_points])) (\<lambda>leaves.
        res_bind (leaf_task_batches bsrt E (budget_for_workers threads (kernel_safe_leaf_size (pe_params P))) metric
                    (map lf_points leaves)) (\<lambda>bss.
        res_bind (flush_batches (flush_pending_edges_to_reservoirs (by_edge_p (os_sorts X))) (sched bss) rs)
          (emit_reservoirs cb st 0)))))"

lemma record_batches: "flush_batches record_flush bs acc = Inr (acc @ bs)"
  by (induction bs arbitrary: acc) (simp_all add: record_flush_def)

lemma reference_ends:
  assumes "e \<in> set (leaf_reference E sketch D leaf)"
  shows "\<exists>p \<in> set leaf. \<exists>q \<in> set leaf. e_p e = unat p \<and> e_c e = q"
proof -
  obtain i where i0: "i < length leaf" "e \<in> set (leaf_row_edges E sketch leaf i (row_nearest (leaf_k E leaf) i (map (D (leaf ! i)) leaf)))"
    using assms by (auto simp: leaf_reference_def split: if_splits)
  then obtain rank nb where i: "i < length leaf" "nb \<in> set (row_nearest (leaf_k E leaf) i (map (D (leaf ! i)) leaf))"
    "e \<in> set (leaf_pair E sketch leaf i rank nb)"
  proof -
    obtain q where q: "q \<in> set (enumerate 0 (row_nearest (leaf_k E leaf) i (map (D (leaf ! i)) leaf)))"
      "e \<in> set (leaf_pair E sketch leaf i (fst q) (snd q))"
      using i0(2) by (force simp: leaf_row_edges_def)
    have "snd q \<in> set (map snd (enumerate 0 (row_nearest (leaf_k E leaf) i (map (D (leaf ! i)) leaf))))"
      using q(1) unfolding set_map by (rule imageI)
    then have "snd q \<in> set (row_nearest (leaf_k E leaf) i (map (D (leaf ! i)) leaf))" by simp
    then show thesis using that i0(1) q(2) by blast
  qed
  then have "fst nb < length leaf" using row_nearest_index [OF i(2)] by simp
  then show ?thesis using i(1,3) by (auto simp: leaf_pair_def Let_def)
qed

text \<open>What the leaf kernels rely on of the stores and the parameters, for the first \<open>n\<close> points.\<close>

definition leaf_setup_ok ::
  "leaf_env \<Rightarrow> ((planned_row \<Rightarrow> u32) \<Rightarrow> planned_row list \<Rightarrow> planned_row list) \<Rightarrow> (nat \<Rightarrow> nat \<Rightarrow> nat) \<Rightarrow> direct_io_config \<Rightarrow>
   file_store \<Rightarrow> sketch_store \<Rightarrow> usize \<Rightarrow> bool" where
  "leaf_setup_ok E srt give c st sk n \<longleftrightarrow>
     unstable_sort srt \<and> fs_ok st \<and> 0 < fs_dim st \<and> gives give \<and> dc_alignment c \<le> 2 ^ 63 \<and> n \<le> fs_num_points st \<and>
     n * sk_width sk \<le> length (sk_data sk) \<and> length (sk_data sk) \<le> usize_max \<and>
     lb_m_hash_bits E \<le> 16 \<and> lb_m_hash_bits E \<le> sk_width sk \<and>
     0 < lb_leaf_knn E \<and> lb_leaf_knn E \<le> 32 \<and> lb_ads_group_dims E = 0"

lemma distinct_below:
  assumes "distinct (leaf :: u32 list)" "\<forall>p \<in> set leaf. unat p < n"
  shows "length leaf \<le> n"
proof -
  have "inj_on unat (set leaf)" by (simp add: inj_on_def word_unat_eq_iff)
  then have "length leaf = card (unat ` set leaf)" using assms(1) by (simp add: card_image distinct_card)
  also have "\<dots> \<le> card {..<n}" using assms(2) by (intro card_mono) auto
  finally show ?thesis by simp
qed

lemma setup_plain_leaf:
  assumes "leaf_setup_ok E srt give c st sk n" "distinct leaf" "\<forall>p \<in> set leaf. unat p < n"
  shows "plain_leaf E srt give c st sk leaf"
proof -
  note s = assms(1) [unfolded leaf_setup_ok_def]
  have row: "(unat p + 1) * sk_width sk \<le> n * sk_width sk" if "p \<in> set leaf" for p
    using assms(3) that by (intro mult_le_mono1) (simp add: Suc_leI)
  have "length leaf * sk_width sk \<le> n * sk_width sk" using distinct_below [OF assms(2,3)] by (rule mult_le_mono1)
  then have "length leaf * sk_width sk \<le> usize_max" using s by linarith
  moreover have "length leaf * fs_dim st \<le> usize_max" using s by (intro distinct_u32_fit assms(2)) (simp add: fs_ok_def)
  moreover have "leaf_point E srt give c st sk p" if "p \<in> set leaf" for p
    using s row [OF that] assms(3) that unfolding leaf_point_def by (meson le_trans less_le_trans)
  ultimately show ?thesis using s by (simp add: plain_leaf_def should_use_leaf_adsampling_executor_def)
qed

lemma leaf_task_ok:
  assumes "leaf_setup_ok E srt give c st sk n" "distinct leaf" "\<forall>p \<in> set leaf. unat p < n"
    and "entrywise (lb_mat_mul E) dot" "finite_dist (matrix_dist2 E dot (fs_row st)) leaf"
    and "length leaf < sb_large_leaf_min_size budget"
  shows "\<exists>bs. concat bs = leaf_reference E (sketch_at sk) (matrix_dist2 E dot (fs_row st)) leaf \<and>
    run_leaf_task bsrt (with_stores E srt give c st sk) budget L2 record_flush leaf [] = Inr bs"
proof -
  have "(with_stores E srt give c st sk)\<lparr>lb_max_full_matrix_leaf_size := lb_max_full_matrix_leaf_size (with_stores E srt give c st sk)\<rparr> =
    with_stores E srt give c st sk" by simp
  with leaf_kernel_batches [OF setup_plain_leaf [OF assms(1-3)] assms(4,5), where 'st = "pending_edge list list"] obtain bs where
    "concat bs = leaf_reference E (sketch_at sk) (matrix_dist2 E dot (fs_row st)) leaf"
    "process_leaf (with_stores E srt give c st sk) L2 record_flush leaf [] [] = res_bind (flush_batches record_flush bs []) (\<lambda>s. Inr ([], s))"
    by metis
  then show ?thesis using assms(6) by (intro exI [of _ bs]) (simp add: run_leaf_task_def record_batches)
qed

lemma leaf_tasks_ok:
  assumes "leaf_setup_ok E srt give c st sk n" "entrywise (lb_mat_mul E) dot"
    and "\<forall>leaf \<in> set leaves. distinct leaf \<and> (\<forall>p \<in> set leaf. unat p < n) \<and> length leaf < sb_large_leaf_min_size budget \<and>
      finite_dist (matrix_dist2 E dot (fs_row st)) leaf"
  shows "\<exists>bss. leaf_task_batches bsrt (with_stores E srt give c st sk) budget L2 leaves = Inr bss \<and>
    concat (concat bss) = concat (map (leaf_reference E (sketch_at sk) (matrix_dist2 E dot (fs_row st))) leaves)"
  using assms(3)
proof (induction leaves)
  case (Cons leaf leaves)
  obtain bs where "concat bs = leaf_reference E (sketch_at sk) (matrix_dist2 E dot (fs_row st)) leaf"
    "run_leaf_task bsrt (with_stores E srt give c st sk) budget L2 record_flush leaf [] = Inr bs"
    using leaf_task_ok [OF assms(1) _ _ assms(2), of leaf budget bsrt] Cons.prems by auto
  moreover obtain bss where "leaf_task_batches bsrt (with_stores E srt give c st sk) budget L2 leaves = Inr bss"
    "concat (concat bss) = concat (map (leaf_reference E (sketch_at sk) (matrix_dist2 E dot (fs_row st))) leaves)"
    using Cons by auto
  ultimately show ?case by (intro exI [of _ "bs # bss"]) simp
qed simp

lemma cands_for_mset: "mset xs = mset ys \<Longrightarrow> mset (cands_for p xs) = mset (cands_for p ys)"
  by (simp add: cands_for_def mset_filter)

lemma hard_cap_below_large: "hard_cap ks < sb_large_leaf_min_size (budget_for_workers w ks)"
proof -
  have "hard_cap ks \<le> 8000" by (simp add: hard_cap_def FORCED_LEAF_HARD_CAP_def)
  moreover have "hard_cap ks \<le> max ks 1" by (simp add: hard_cap_def)
  moreover have "max 4096 (min (ks * 2) usize_max) \<le> sb_large_leaf_min_size (budget_for_workers w ks)"
    by (simp add: budget_for_workers_def budget_for_memory_def Let_def sat_mul_def)
  ultimately show ?thesis
    by (cases "ks \<le> 8000") (simp_all add: usize_max_def max_def min_def split: if_splits)
qed

lemma point_ids:
  assumes "n \<le> 2 ^ 32"
  shows "distinct (map word_of_nat [0..<n] :: u32 list)" "set (map word_of_nat [0..<n] :: u32 list) = {p. unat p < n}"
proof -
  have u: "unat (word_of_nat i :: u32) = i" if "i < n" for i using that assms by (intro unat_word_of_nat_u32) simp
  then show "distinct (map word_of_nat [0..<n] :: u32 list)"
    by (auto simp: distinct_map inj_on_def) (metis u)
  show "set (map word_of_nat [0..<n] :: u32 list) = {p. unat p < n}"
  proof (intro equalityI subsetI)
    fix p :: u32 assume "p \<in> {p. unat p < n}"
    then have "p = word_of_nat (unat p)" "unat p < n" by simp_all
    then show "p \<in> set (map word_of_nat [0..<n])" by (metis atLeast0LessThan image_eqI lessThan_iff set_map set_upt)
  qed (auto simp: u)
qed

lemma mset_concat_cong: "mset xs = mset ys \<Longrightarrow> mset (concat xs) = mset (concat ys)"
  by (metis mset_concat mset_map sum_mset_sum_list)


definition demo_build_env :: leaf_env where
  "demo_build_env = demo_leaf_env\<lparr>lb_ads_group_dims := 0\<rparr>"

lemma demo_leaf_setup_ok:
  "leaf_setup_ok demo_build_env sort_key (\<lambda>off n. 3) \<lparr>dc_enabled = False, dc_alignment = 512\<rparr> sample_store demo_sketches 3"
  by (simp add: leaf_setup_ok_def unstable_sort_sort_key sample_store_ok gives_def demo_build_env_def demo_leaf_env_def
      demo_sketches_def usize_max_def sample_store_def [THEN arg_cong, of fs_num_points] sample_store_def [THEN arg_cong, of fs_dim])

lemma demo_build_finite: "finite_dist (matrix_dist2 demo_build_env demo_dot (fs_row sample_store)) (map word_of_nat [0..<3])"
proof -
  have "matrix_dist2 demo_build_env = matrix_dist2 demo_leaf_env"
    by (intro ext) (simp add: matrix_dist2_def demo_build_env_def)
  moreover have "map word_of_nat [0..<3] = [0, 1, 2 :: u32]" by (simp add: upt_rec)
  ultimately show ?thesis using demo_finite by (simp add: finite_dist_def del: upt.simps)
qed


text \<open>C7: When no two candidates of a point share a target, a hash or a stored distance, the graph of an out-of-memory
  build is determined by the set of proposed edges: two builds with the same reservoir size agree, callback
  results and errors included, whatever part is resident, whatever the spill sizes, sorts and files, and
  whatever order and grouping the threads flush the edges in.\<close>

theorem oom_build_deterministic:
  assumes "oom_setup_ok X" "oom_setup_ok Y" "os_l_max X = os_l_max Y"
    and "mset (concat batches) = mset (concat batches')"
    and "\<forall>e \<in> set (concat batches). e_p e < num_points" "num_points \<le> 2 ^ 32" "length (concat batches) \<le> 2 ^ 42"
    and "\<forall>p < num_points. distinct_stream (cands_for p (concat batches))"
    and "resident \<le> num_points" "resident' \<le> num_points"
  shows "oom_build X resident num_points batches cb st = oom_build Y resident' num_points batches' cb st"
proof -
  have b': "\<forall>e \<in> set (concat batches'). e_p e < num_points" "length (concat batches') \<le> 2 ^ 42"
    using assms(5) unfolding mset_eq_setD [OF assms(4)] using assms(7) unfolding mset_eq_length [OF assms(4)] by blast+
  obtain o1 where o1: "orders batches o1" "oom_build X resident num_points batches cb st = run_rows cb st (built_rows X o1 0 num_points)"
    using oom_build_run [OF assms(1,5-7,9), of cb st] by blast
  obtain o2 where o2: "orders batches' o2" "oom_build Y resident' num_points batches' cb st = run_rows cb st (built_rows Y o2 0 num_points)"
    using oom_build_run [OF assms(2) b'(1) assms(6) b'(2) assms(10), of cb st] by blast
  have "into_neighbors (insert_all (fresh_reservoir X) (o1 p)) = into_neighbors (insert_all (fresh_reservoir Y) (o2 p))"
    if "p < num_points" for p
  proof -
    have m: "mset (o1 p) = mset (cands_for p (concat batches))" "mset (o2 p) = mset (o1 p)"
      using o1(1) o2(1) cands_for_mset [OF assms(4), of p] by (simp_all add: orders_def)
    have "distinct_stream (o1 p)" using assms(8) that by (intro distinct_stream_perm [OF m(1) [symmetric]]) simp
    then have "slots (insert_all (fresh_reservoir X) (o2 p)) = slots (insert_all (fresh_reservoir X) (o1 p))"
      using insert_all_order [OF fresh_reservoir [OF assms(1)] _ m(2) [symmetric]] by simp
    moreover have "fresh_reservoir X = fresh_reservoir Y" using assms(3) by (simp add: fresh_reservoir_def)
    ultimately show ?thesis by (simp add: into_neighbors_def)
  qed
  then have "built_rows X o1 0 num_points = built_rows Y o2 0 num_points" by (simp add: built_rows_def)
  then show ?thesis using o1(2) o2(2) by simp
qed

theorem oom_build_deterministic_witness:
  "oom_build demo_oom_setup 2 4 sample_batches collect_rows [] =
    oom_build (demo_oom_setup\<lparr>os_shard_points := 3, os_hm_order := id\<rparr>) 4 4 (rev sample_batches) collect_rows []"
proof (rule oom_build_deterministic [OF demo_oom_setup_ok])
  show "oom_setup_ok (demo_oom_setup\<lparr>os_shard_points := 3, os_hm_order := id\<rparr>)"
    using demo_oom_setup_ok by (simp add: oom_setup_ok_def)
qed (simp_all add: sample_batches_distinct, simp_all add: sample_batches_def)

end
